(* ===== verification/Prelude.thy ===== *)
theory Prelude
  imports Main "HOL-Library.Word" "HOL-Library.Monad_Syntax"
begin

text \<open>
  Shared vocabulary of the development: the C integer types of \<^verbatim>\<open>include/rtdef.h\<close> at their
  widths, the kernel's error codes, the fact collections the component theories fill, and
  the generic lemmas on lists, options and words they share.
\<close>

unbundle bit_operations_syntax

subsection \<open>C integer types (rtdef.h)\<close>

type_synonym u8 = "8 word"
type_synonym u16 = "16 word"
type_synonym u32 = "32 word"

type_synonym rt_tick_t = u32
type_synonym rt_err_t = int

abbreviation RT_EOK :: rt_err_t where "RT_EOK \<equiv> 0"
abbreviation RT_ERROR :: rt_err_t where "RT_ERROR \<equiv> 1"
abbreviation RT_ETIMEOUT :: rt_err_t where "RT_ETIMEOUT \<equiv> 2"
abbreviation RT_EFULL :: rt_err_t where "RT_EFULL \<equiv> 3"
abbreviation RT_EEMPTY :: rt_err_t where "RT_EEMPTY \<equiv> 4"
abbreviation RT_ENOMEM :: rt_err_t where "RT_ENOMEM \<equiv> 5"

definition RT_TICK_MAX :: u32 where
  "RT_TICK_MAX = 0xffffffff"

text \<open>\<open>RT_ALIGN\<close> and \<open>RT_ALIGN_DOWN\<close>, as the macros are written, on 32-bit unsigned values.\<close>

definition RT_ALIGN :: "u32 \<Rightarrow> u32 \<Rightarrow> u32" where
  "RT_ALIGN sz align = (sz + align - 1) AND NOT (align - 1)"

definition RT_ALIGN_DOWN :: "u32 \<Rightarrow> u32 \<Rightarrow> u32" where
  "RT_ALIGN_DOWN sz align = sz AND NOT (align - 1)"

abbreviation RT_ALIGN_SIZE :: u32 where "RT_ALIGN_SIZE \<equiv> 4"

subsection \<open>Fact collections\<close>

named_theorems kdefs \<open>definitions that a component's proofs unfold\<close>
named_theorems frame \<open>what an operation leaves alone\<close>

subsection \<open>Options\<close>

lemma bind_Some_iff [simp]:
  "Option.bind x f = Some y \<longleftrightarrow> (\<exists>z. x = Some z \<and> f z = Some y)"
  by (cases x) auto

subsection \<open>Lists\<close>

lemma remove1_distinct_set: "distinct xs \<Longrightarrow> set (remove1 x xs) = set xs - {x}"
  by simp

lemma remove1_absent: "x \<notin> set xs \<Longrightarrow> remove1 x xs = xs"
  by (rule remove1_idem)

lemma distinct_remove1_eq_filter: "distinct xs \<Longrightarrow> remove1 x xs = filter (\<lambda>y. y \<noteq> x) xs"
  by (simp add: distinct_remove1_removeAll removeAll_filter_not_eq eq_commute)

lemma hd_Cons_nonempty: "xs \<noteq> [] \<Longrightarrow> \<exists>y ys. xs = y # ys"
  by (cases xs) auto

subsection \<open>Words\<close>

lemma u32_bit_shift [simp]:
  "bit (push_bit p (1 :: u32)) n \<longleftrightarrow> n = p \<and> n < 32"
  by (auto simp: bit_simps)

lemma u32_eq_bits: "(\<And>n. n < 32 \<Longrightarrow> bit (a :: u32) n = bit b n) \<Longrightarrow> a = b"
  by (rule bit_word_eqI) simp

lemma u32_3_mask: "(3 :: u32) = mask 2"
  by (simp add: mask_eq_exp_minus_1)

lemma u32_clear_low2: "x AND NOT (3 :: u32) = push_bit 2 (drop_bit 2 x)"
proof (rule bit_word_eqI)
  fix n assume "n < LENGTH(32)"
  then show "bit (x AND NOT (3 :: u32)) n = bit (push_bit 2 (drop_bit 2 x)) n"
    unfolding u32_3_mask by (cases "n < 2") (auto simp: bit_simps not_less le_iff_add)
qed

lemma unat_clear_low2: "unat (x AND - 4 :: u32) = unat x div 4 * 4"
proof -
  have b: "unat x < 2 ^ 32" using unsigned_less [of x] by simp
  have n: "(- 4 :: u32) = NOT 3" by simp
  have "unat (push_bit 2 (drop_bit 2 x)) = unat x div 4 mod 2 ^ 32 * 4 mod 2 ^ 32"
    by (simp add: push_bit_eq_mult unat_word_ariths unat_drop_bit_eq drop_bit_eq_div)
  also have "\<dots> = unat x div 4 * 4"
  proof -
    have "unat x div 4 < 2 ^ 32" by (rule le_less_trans [OF div_le_dividend b])
    moreover have "unat x div 4 * 4 < 2 ^ 32"
      by (rule le_less_trans [OF div_times_less_eq_dividend b])
    ultimately show ?thesis by (simp only: mod_less)
  qed
  finally show ?thesis
    unfolding n u32_clear_low2 .
qed

lemma unat_RT_ALIGN:
  "unat (RT_ALIGN x RT_ALIGN_SIZE) = (unat x + 3) mod 2 ^ 32 div 4 * 4"
proof -
  have "RT_ALIGN x RT_ALIGN_SIZE = (x + 3) AND - 4"
    by (simp add: RT_ALIGN_def add.commute [of x 3])
  then show ?thesis
    by (simp only: unat_clear_low2) (simp add: unat_word_ariths)
qed

lemma unat_RT_ALIGN_DOWN:
  "unat (RT_ALIGN_DOWN x RT_ALIGN_SIZE) = unat x div 4 * 4"
  by (simp add: RT_ALIGN_DOWN_def unat_clear_low2)

end
