(* ===== verification/KService.thy ===== *)
theory KService
  imports Prelude
begin

text \<open>
  The kernel's service routines of \<^verbatim>\<open>src/kservice.c\<close> the other components rest on: the search
  for the first set bit that the scheduler uses, and the memory and string functions.
  Memory is a map from addresses to bytes, and a C string is the list of bytes from its
  pointer on, so that reading past what is known gives \<open>None\<close>.
\<close>

subsection \<open>The first set bit\<close>

definition lowest_bit_bitmap :: "nat list" where
  "lowest_bit_bitmap = [0, 0, 1, 0, 2, 0, 1, 0, 3, 0, 1, 0, 2, 0, 1, 0,
     4, 0, 1, 0, 2, 0, 1, 0, 3, 0, 1, 0, 2, 0, 1, 0,
     5, 0, 1, 0, 2, 0, 1, 0, 3, 0, 1, 0, 2, 0, 1, 0,
     4, 0, 1, 0, 2, 0, 1, 0, 3, 0, 1, 0, 2, 0, 1, 0,
     6, 0, 1, 0, 2, 0, 1, 0, 3, 0, 1, 0, 2, 0, 1, 0,
     4, 0, 1, 0, 2, 0, 1, 0, 3, 0, 1, 0, 2, 0, 1, 0,
     5, 0, 1, 0, 2, 0, 1, 0, 3, 0, 1, 0, 2, 0, 1, 0,
     4, 0, 1, 0, 2, 0, 1, 0, 3, 0, 1, 0, 2, 0, 1, 0,
     7, 0, 1, 0, 2, 0, 1, 0, 3, 0, 1, 0, 2, 0, 1, 0,
     4, 0, 1, 0, 2, 0, 1, 0, 3, 0, 1, 0, 2, 0, 1, 0,
     5, 0, 1, 0, 2, 0, 1, 0, 3, 0, 1, 0, 2, 0, 1, 0,
     4, 0, 1, 0, 2, 0, 1, 0, 3, 0, 1, 0, 2, 0, 1, 0,
     6, 0, 1, 0, 2, 0, 1, 0, 3, 0, 1, 0, 2, 0, 1, 0,
     4, 0, 1, 0, 2, 0, 1, 0, 3, 0, 1, 0, 2, 0, 1, 0,
     5, 0, 1, 0, 2, 0, 1, 0, 3, 0, 1, 0, 2, 0, 1, 0,
     4, 0, 1, 0, 2, 0, 1, 0, 3, 0, 1, 0, 2, 0, 1, 0]"

definition rt_ffs :: "u32 \<Rightarrow> nat" where
  "rt_ffs v =
     (if v = 0 then 0
      else if v AND 0xff \<noteq> 0 then lowest_bit_bitmap ! unat (v AND 0xff) + 1
      else if v AND 0xff00 \<noteq> 0 then lowest_bit_bitmap ! unat (drop_bit 8 (v AND 0xff00)) + 9
      else if v AND 0xff0000 \<noteq> 0 then lowest_bit_bitmap ! unat (drop_bit 16 (v AND 0xff0000)) + 17
      else lowest_bit_bitmap ! unat (drop_bit 24 (v AND 0xff000000)) + 25)"

text \<open>The table, checked byte by byte.\<close>

definition first_bit :: "nat \<Rightarrow> nat \<Rightarrow> bool" where
  "first_bit n b \<longleftrightarrow> b < 8 \<and> n mod 2 ^ Suc b = 2 ^ b"

primrec table_ok :: "nat \<Rightarrow> nat list \<Rightarrow> bool" where
  "table_ok n [] \<longleftrightarrow> True"
| "table_ok n (b # bs) \<longleftrightarrow> first_bit n b \<and> table_ok (n + 1) bs"

lemma table_ok_nth: "table_ok n bs \<Longrightarrow> i < length bs \<Longrightarrow> first_bit (n + i) (bs ! i)"
proof (induction bs arbitrary: n i)
  case (Cons b bs)
  then show ?case by (cases i) fastforce+
qed simp

lemma bitmap_ok: "table_ok 1 (tl lowest_bit_bitmap)"
  by (simp add: lowest_bit_bitmap_def first_bit_def)

lemma bitmap: "0 < n \<Longrightarrow> n < 256 \<Longrightarrow> first_bit n (lowest_bit_bitmap ! n)"
proof -
  assume n: "0 < n" "n < 256"
  have "length lowest_bit_bitmap = 256" by (simp add: lowest_bit_bitmap_def)
  then show ?thesis using table_ok_nth [OF bitmap_ok, of "n - 1"] n by (simp add: nth_tl)
qed

lemma first_bitD:
  assumes "first_bit n b"
  shows "bit n b" "i < b \<Longrightarrow> \<not> bit n i" "b < 8"
proof -
  have t: "take_bit (Suc b) n = 2 ^ b" using assms by (simp add: first_bit_def take_bit_eq_mod)
  have b: "bit n i \<longleftrightarrow> i = b" if "i \<le> b" for i
  proof -
    have "bit (take_bit (Suc b) n) i \<longleftrightarrow> bit n i" using that by (simp add: bit_take_bit_iff)
    then show ?thesis unfolding t by (simp add: bit_exp_iff)
  qed
  show "bit n b" "i < b \<Longrightarrow> \<not> bit n i" using b by auto
  show "b < 8" using assms by (simp add: first_bit_def)
qed

text \<open>One byte of the word, at bit \<open>k\<close>.\<close>

definition byte_at :: "nat \<Rightarrow> u32 \<Rightarrow> nat" where
  "byte_at k v = unat (take_bit 8 (drop_bit k v))"

lemma bit_byte_at: "bit (byte_at k v) i \<longleftrightarrow> i < 8 \<and> bit v (k + i)"
  unfolding byte_at_def bit_unsigned_iff by (simp add: bit_take_bit_iff bit_drop_bit_eq)

lemma byte_at_less: "byte_at k v < 256"
proof -
  have "unat (take_bit 8 (drop_bit k v)) = take_bit 8 (unat (drop_bit k v))"
    by (simp add: unsigned_take_bit_eq)
  then show ?thesis using take_bit_nat_less_exp [of 8 "unat (drop_bit k v)"] by (simp add: byte_at_def)
qed

lemma byte_at_0: "byte_at k v = 0 \<longleftrightarrow> (\<forall>i < 8. \<not> bit v (k + i))"
proof
  assume "\<forall>i < 8. \<not> bit v (k + i)"
  then show "byte_at k v = 0" by (intro bit_eqI) (auto simp: bit_byte_at)
next
  assume "byte_at k v = 0"
  then have "\<not> bit (byte_at k v) i" for i by simp
  then show "\<forall>i < 8. \<not> bit v (k + i)" by (auto simp: bit_byte_at)
qed

lemma byte_masks:
  fixes v :: u32
  shows "v AND 0xff = take_bit 8 (drop_bit 0 v)" "drop_bit 8 (v AND 0xff00) = take_bit 8 (drop_bit 8 v)"
  "drop_bit 16 (v AND 0xff0000) = take_bit 8 (drop_bit 16 v)"
  "drop_bit 24 (v AND 0xff000000) = take_bit 8 (drop_bit 24 v)"
proof -
  have m: "(0xff :: u32) = mask 8" "(0xff00 :: u32) = push_bit 8 (mask 8)"
    "(0xff0000 :: u32) = push_bit 16 (mask 8)" "(0xff000000 :: u32) = push_bit 24 (mask 8)"
    by (simp_all add: mask_eq_exp_minus_1 push_bit_eq_mult)
  show "v AND 0xff = take_bit 8 (drop_bit 0 v)" "drop_bit 8 (v AND 0xff00) = take_bit 8 (drop_bit 8 v)"
  "drop_bit 16 (v AND 0xff0000) = take_bit 8 (drop_bit 16 v)"
  "drop_bit 24 (v AND 0xff000000) = take_bit 8 (drop_bit 24 v)"
    unfolding m by (rule bit_word_eqI, auto simp: bit_simps)+
qed

lemma byte_masks_0:
  "v AND 0xff = 0 \<longleftrightarrow> byte_at 0 v = 0" "v AND 0xff00 = 0 \<longleftrightarrow> byte_at 8 v = 0"
  "v AND 0xff0000 = 0 \<longleftrightarrow> byte_at 16 v = 0"
proof -
  have m: "(0xff :: u32) = push_bit 0 (mask 8)" "(0xff00 :: u32) = push_bit 8 (mask 8)"
    "(0xff0000 :: u32) = push_bit 16 (mask 8)"
    by (simp_all add: mask_eq_exp_minus_1 push_bit_eq_mult)
  have e: "v AND push_bit k (mask 8) = 0 \<longleftrightarrow> byte_at k v = 0" if "k + 8 \<le> 32" for k
  proof
    assume z: "v AND push_bit k (mask 8) = 0"
    have "\<not> bit v (k + i)" if "i < 8" for i
    proof
      assume "bit v (k + i)"
      then have "bit (v AND push_bit k (mask 8)) (k + i)"
        using that \<open>k + 8 \<le> 32\<close> by (simp add: bit_simps)
      then show False unfolding z by simp
    qed
    then show "byte_at k v = 0" by (simp add: byte_at_0)
  next
    assume "byte_at k v = 0"
    then have b: "\<forall>i < 8. \<not> bit v (k + i)" by (simp add: byte_at_0)
    show "v AND push_bit k (mask 8) = 0"
    proof (rule bit_word_eqI)
      fix n assume "n < LENGTH(32)"
      show "bit (v AND push_bit k (mask 8)) n = bit (0 :: u32) n"
        using b [rule_format, of "n - k"] by (auto simp: bit_simps)
    qed
  qed
  show "v AND 0xff = 0 \<longleftrightarrow> byte_at 0 v = 0" unfolding m(1) by (rule e) simp
  show "v AND 0xff00 = 0 \<longleftrightarrow> byte_at 8 v = 0" unfolding m(2) by (rule e) simp
  show "v AND 0xff0000 = 0 \<longleftrightarrow> byte_at 16 v = 0" unfolding m(3) by (rule e) simp
qed

lemma rt_ffs_bytes:
  "rt_ffs v = (if v = 0 then 0 else if byte_at 0 v \<noteq> 0 then lowest_bit_bitmap ! byte_at 0 v + 1
     else if byte_at 8 v \<noteq> 0 then lowest_bit_bitmap ! byte_at 8 v + 9
     else if byte_at 16 v \<noteq> 0 then lowest_bit_bitmap ! byte_at 16 v + 17
     else lowest_bit_bitmap ! byte_at 24 v + 25)"
  unfolding rt_ffs_def byte_masks_0 unfolding byte_masks byte_at_def ..

lemma first_in_byte:
  assumes "byte_at k v \<noteq> 0" "\<And>i. i < k \<Longrightarrow> \<not> bit v i"
  shows "bit v (k + lowest_bit_bitmap ! byte_at k v)"
    "i < k + lowest_bit_bitmap ! byte_at k v \<Longrightarrow> \<not> bit v i"
proof -
  let ?b = "lowest_bit_bitmap ! byte_at k v"
  have "first_bit (byte_at k v) ?b" using bitmap [OF _ byte_at_less, of k v] assms(1) by auto
  note f = first_bitD [OF this]
  show "bit v (k + ?b)" using f(1) by (simp add: bit_byte_at)
  assume i: "i < k + ?b"
  show "\<not> bit v i"
  proof (cases "i < k")
    case False
    then have "\<not> bit (byte_at k v) (i - k)" using f(2) i by auto
    then show ?thesis using False i f(3) by (simp add: bit_byte_at)
  qed (rule assms(2))
qed

text \<open>The result: 0 for 0, and otherwise one more than the index of the lowest set bit.\<close>

lemma rt_ffs_0 [simp]: "rt_ffs 0 = 0"
  by (simp add: rt_ffs_def)

lemma rt_ffs_spec:
  assumes "v \<noteq> 0"
  shows "rt_ffs v \<noteq> 0" "bit v (rt_ffs v - 1)" "\<And>i. i < rt_ffs v - 1 \<Longrightarrow> \<not> bit v i" "rt_ffs v - 1 < 32"
proof -
  have low: "\<not> bit v i" if "\<And>k. k \<in> K \<Longrightarrow> byte_at k v = 0" "\<exists>k \<in> K. k \<le> i \<and> i < k + 8" for K i
  proof -
    from that obtain k where "byte_at k v = 0" "k \<le> i" "i < k + 8" by blast
    then show ?thesis by (auto simp: byte_at_0 dest: spec [of _ "i - k"])
  qed
  have r: "\<exists>k. rt_ffs v = k + lowest_bit_bitmap ! byte_at k v + 1 \<and> byte_at k v \<noteq> 0 \<and> (\<forall>i < k. \<not> bit v i)"
  proof (cases "byte_at 0 v \<noteq> 0")
    case True
    then show ?thesis using assms by (intro exI [of _ 0]) (simp add: rt_ffs_bytes)
  next
    case b0: False
    show ?thesis
    proof (cases "byte_at 8 v \<noteq> 0")
      case True
      have "\<forall>i < 8. \<not> bit v i" using b0 by (intro allI impI low [of "{0}"]) auto
      then show ?thesis using assms b0 True by (intro exI [of _ 8]) (simp add: rt_ffs_bytes)
    next
      case b8: False
      show ?thesis
      proof (cases "byte_at 16 v \<noteq> 0")
        case True
        have "\<forall>i < 16. \<not> bit v i" using b0 b8 by (intro allI impI low [of "{0, 8}"]) auto
        then show ?thesis using assms b0 b8 True by (intro exI [of _ 16]) (simp add: rt_ffs_bytes)
      next
        case b16: False
        have l: "\<forall>i < 24. \<not> bit v i" using b0 b8 b16 by (intro allI impI low [of "{0, 8, 16}"]) auto
        have "byte_at 24 v \<noteq> 0"
        proof
          assume "byte_at 24 v = 0"
          then have "\<not> bit v i" if "i < 32" for i
            using l low [of "{24}" i] that by (cases "i < 24") auto
          then have "v = 0" by (intro bit_word_eqI) simp
          with assms show False ..
        qed
        then show ?thesis using assms b0 b8 b16 l by (intro exI [of _ 24]) (simp add: rt_ffs_bytes)
      qed
    qed
  qed
  then obtain k where k: "rt_ffs v = k + lowest_bit_bitmap ! byte_at k v + 1" "byte_at k v \<noteq> 0"
    "\<And>i. i < k \<Longrightarrow> \<not> bit v i" by blast
  note f = first_in_byte [OF k(2,3)]
  show "rt_ffs v \<noteq> 0" "bit v (rt_ffs v - 1)" using k(1) f(1) by simp_all
  then show "rt_ffs v - 1 < 32" using bit_imp_le_length [of v "rt_ffs v - 1"] by simp
  show "\<And>i. i < rt_ffs v - 1 \<Longrightarrow> \<not> bit v i" using k(1) f(2) by simp
qed

subsection \<open>Filling and copying memory\<close>

type_synonym memory = "nat \<Rightarrow> u8"

abbreviation LBLOCKSIZE :: nat where "LBLOCKSIZE \<equiv> 4"

definition put_word :: "nat \<Rightarrow> u32 \<Rightarrow> memory \<Rightarrow> memory" where
  "put_word a w m = m(a := ucast w, a + 1 := ucast (drop_bit 8 w), a + 2 := ucast (drop_bit 16 w),
     a + 3 := ucast (drop_bit 24 w))"

definition get_word :: "nat \<Rightarrow> memory \<Rightarrow> u32" where
  "get_word a m = ucast (m a) OR push_bit 8 (ucast (m (a + 1))) OR push_bit 16 (ucast (m (a + 2))) OR
     push_bit 24 (ucast (m (a + 3)))"

definition memset_buffer :: "u32 \<Rightarrow> u32" where
  "memset_buffer d = (let b = push_bit 8 d OR d in b OR push_bit 16 b)"

fun memset_lines :: "u32 \<Rightarrow> nat \<Rightarrow> nat \<Rightarrow> memory \<Rightarrow> nat \<times> nat \<times> memory" where
  "memset_lines w a count m =
     (if count < LBLOCKSIZE * 4 then (a, count, m)
      else memset_lines w (a + 16) (count - 4 * LBLOCKSIZE)
        (put_word (a + 12) w (put_word (a + 8) w (put_word (a + 4) w (put_word a w m)))))"

fun memset_words :: "u32 \<Rightarrow> nat \<Rightarrow> nat \<Rightarrow> memory \<Rightarrow> nat \<times> nat \<times> memory" where
  "memset_words w a count m =
     (if count < LBLOCKSIZE then (a, count, m)
      else memset_words w (a + 4) (count - LBLOCKSIZE) (put_word a w m))"

primrec memset_bytes :: "u8 \<Rightarrow> nat \<Rightarrow> nat \<Rightarrow> memory \<Rightarrow> memory" where
  "memset_bytes d a 0 m = m"
| "memset_bytes d a (Suc n) m = memset_bytes d (a + 1) n (m(a := d))"

definition rt_memset :: "nat \<Rightarrow> u32 \<Rightarrow> nat \<Rightarrow> memory \<Rightarrow> memory" where
  "rt_memset s c count m =
     (let d = c AND 0xff
      in if \<not> count < LBLOCKSIZE \<and> s mod LBLOCKSIZE = 0
         then let (a, n, m1) = memset_lines (memset_buffer d) s count m;
                  (a, n, m2) = memset_words (memset_buffer d) a n m1
              in memset_bytes (ucast d) a n m2
         else memset_bytes (ucast d) s count m)"

fun memcpy_lines :: "nat \<Rightarrow> nat \<Rightarrow> nat \<Rightarrow> memory \<Rightarrow> nat \<times> nat \<times> nat \<times> memory" where
  "memcpy_lines d s len m =
     (if len < 16 then (d, s, len, m)
      else let m1 = put_word d (get_word s m) m;
               m2 = put_word (d + 4) (get_word (s + 4) m1) m1;
               m3 = put_word (d + 8) (get_word (s + 8) m2) m2;
               m4 = put_word (d + 12) (get_word (s + 12) m3) m3
           in memcpy_lines (d + 16) (s + 16) (len - 16) m4)"

fun memcpy_words :: "nat \<Rightarrow> nat \<Rightarrow> nat \<Rightarrow> memory \<Rightarrow> nat \<times> nat \<times> nat \<times> memory" where
  "memcpy_words d s len m =
     (if len < 4 then (d, s, len, m)
      else memcpy_words (d + 4) (s + 4) (len - 4) (put_word d (get_word s m) m))"

primrec memcpy_bytes :: "nat \<Rightarrow> nat \<Rightarrow> nat \<Rightarrow> memory \<Rightarrow> memory" where
  "memcpy_bytes d s 0 m = m"
| "memcpy_bytes d s (Suc n) m = memcpy_bytes (d + 1) (s + 1) n (m(d := m s))"

definition rt_memcpy :: "nat \<Rightarrow> nat \<Rightarrow> nat \<Rightarrow> memory \<Rightarrow> memory" where
  "rt_memcpy d s count m =
     (if \<not> count < 16 \<and> s mod 4 = 0 \<and> d mod 4 = 0
      then let (d1, s1, n, m1) = memcpy_lines d s count m;
               (d2, s2, n, m2) = memcpy_words d1 s1 n m1
           in memcpy_bytes d2 s2 n m2
      else memcpy_bytes d s count m)"

primrec memmove_down :: "nat \<Rightarrow> nat \<Rightarrow> nat \<Rightarrow> memory \<Rightarrow> memory" where
  "memmove_down d s 0 m = m"
| "memmove_down d s (Suc n) m = memmove_down d s n (m(d + n := m (s + n)))"

definition rt_memmove :: "nat \<Rightarrow> nat \<Rightarrow> nat \<Rightarrow> memory \<Rightarrow> memory" where
  "rt_memmove d s n m =
     (if s < d \<and> d < s + n then memmove_down d s n m else memcpy_bytes d s n m)"

text \<open>What they are to do.\<close>

definition filled :: "nat \<Rightarrow> nat \<Rightarrow> u8 \<Rightarrow> memory \<Rightarrow> memory" where
  "filled a n d m = (\<lambda>x. if a \<le> x \<and> x < a + n then d else m x)"

definition copied :: "nat \<Rightarrow> nat \<Rightarrow> nat \<Rightarrow> memory \<Rightarrow> memory" where
  "copied d s n m = (\<lambda>x. if d \<le> x \<and> x < d + n then m (s + (x - d)) else m x)"

declare memset_lines.simps [simp del] memset_words.simps [simp del]
  memcpy_lines.simps [simp del] memcpy_words.simps [simp del]

lemma filled_0 [simp]: "filled a 0 d m = m"
  by (auto simp: filled_def fun_eq_iff)

lemma filled_filled: "filled (a + k) n d (filled a k d m) = filled a (k + n) d m"
  by (auto simp: filled_def fun_eq_iff)

lemma memset_bytes_filled: "memset_bytes d a n m = filled a n d m"
proof (induction n arbitrary: a m)
  case (Suc n)
  have "m(a := d) = filled a 1 d m" by (auto simp: filled_def)
  then show ?case using Suc filled_filled [of a 1 n d m] by simp
qed simp

lemma put_word_buffer: "put_word a (memset_buffer (ucast d)) m = filled a 4 d m"
proof -
  have "ucast (drop_bit k (memset_buffer (ucast d))) = d" if "k \<in> {0, 8, 16, 24}" for k
    unfolding memset_buffer_def Let_def
    by (rule bit_word_eqI) (use that in \<open>auto simp: bit_simps dest: bit_imp_le_length\<close>)
  from this [of 0] this [of 8] this [of 16] this [of 24] show ?thesis
    by (auto simp: put_word_def filled_def fun_eq_iff)
qed

lemma memset_words_filled:
  "\<exists>k r. memset_words (memset_buffer (ucast d)) a n m = (a + k, r, filled a k d m) \<and> k + r = n"
proof (induction n arbitrary: a m rule: less_induct)
  case (less n)
  show ?case
  proof (cases "n < 4")
    case False
    obtain k r where "memset_words (memset_buffer (ucast d)) (a + 4) (n - 4) (filled a 4 d m) =
        (a + 4 + k, r, filled (a + 4) k d (filled a 4 d m))" "k + r = n - 4"
      using less [of "n - 4" "a + 4" "filled a 4 d m"] False by auto
    then show ?thesis using False
      by (intro exI [of _ "4 + k"] exI [of _ r])
        (subst memset_words.simps, simp add: put_word_buffer filled_filled add.assoc)
  next
    case True
    then show ?thesis by (intro exI [of _ 0] exI [of _ n]) (simp add: memset_words.simps)
  qed
qed

lemma memset_lines_filled:
  "\<exists>k r. memset_lines (memset_buffer (ucast d)) a n m = (a + k, r, filled a k d m) \<and> k + r = n"
proof (induction n arbitrary: a m rule: less_induct)
  case (less n)
  have f: "filled (a + 12) 4 d (filled (a + 8) 4 d (filled (a + 4) 4 d (filled a 4 d m))) = filled a 16 d m"
    by (auto simp: filled_def fun_eq_iff)
  show ?case
  proof (cases "n < 16")
    case False
    obtain k r where "memset_lines (memset_buffer (ucast d)) (a + 16) (n - 16) (filled a 16 d m) =
        (a + 16 + k, r, filled (a + 16) k d (filled a 16 d m))" "k + r = n - 16"
      using less [of "n - 16" "a + 16" "filled a 16 d m"] False by auto
    then show ?thesis using False
      by (intro exI [of _ "16 + k"] exI [of _ r])
        (subst memset_lines.simps, simp add: put_word_buffer f filled_filled add.assoc)
  next
    case True
    then show ?thesis by (intro exI [of _ 0] exI [of _ n]) (simp add: memset_lines.simps)
  qed
qed

lemma rt_memset_filled: "rt_memset s c n m = filled s n (ucast c) m"
proof -
  have c: "c AND 0xff = ucast (ucast c :: u8)"
  proof (rule bit_word_eqI)
    fix i assume "i < LENGTH(32)"
    have e: "(0xff :: u32) = mask 8" by (simp add: mask_eq_exp_minus_1)
    show "bit (c AND 0xff) i = bit (ucast (ucast c :: u8) :: u32) i" unfolding e by (auto simp: bit_simps)
  qed
  have u: "ucast (ucast (ucast c :: u8) :: u32) = (ucast c :: u8)" by (rule bit_word_eqI) (auto simp: bit_simps)
  obtain k r where l: "memset_lines (memset_buffer (ucast (ucast c :: u8))) s n m =
      (s + k, r, filled s k (ucast c) m)" "k + r = n" using memset_lines_filled by blast
  obtain k' r' where w: "memset_words (memset_buffer (ucast (ucast c :: u8))) (s + k) r (filled s k (ucast c) m) =
      (s + k + k', r', filled (s + k) k' (ucast c) (filled s k (ucast c) m))" "k' + r' = r"
    using memset_words_filled by blast
  have "filled (s + (k + k')) r' (ucast c) (filled s (k + k') (ucast c) m) = filled s n (ucast c) m"
    using filled_filled [of s "k + k'" r'] w(2) l(2) by (simp add: add.assoc)
  then show ?thesis
    unfolding rt_memset_def c Let_def l(1) u
    by (simp add: w(1) memset_bytes_filled filled_filled add.assoc)
qed


lemma copied_0 [simp]: "copied d s 0 m = m"
  by (auto simp: copied_def fun_eq_iff)

definition apart :: "nat \<Rightarrow> nat \<Rightarrow> nat \<Rightarrow> bool" where
  "apart d s n \<longleftrightarrow> d + n \<le> s \<or> s + n \<le> d"

lemma copied_copied:
  "apart d s (k + n) \<Longrightarrow> copied (d + k) (s + k) n (copied d s k m) = copied d s (k + n) m"
  by (auto simp: copied_def fun_eq_iff apart_def)

lemma copy_byte: "m(d := m s) = copied d s 1 m"
  by (auto simp: copied_def fun_eq_iff)

text \<open>A byte-by-byte copy upwards is also right when the source lies above the destination.\<close>

lemma memcpy_bytes_copied: "apart d s n \<or> d \<le> s \<Longrightarrow> memcpy_bytes d s n m = copied d s n m"
proof (induction n arbitrary: d s m)
  case (Suc n)
  then have "memcpy_bytes (d + 1) (s + 1) n (copied d s 1 m) = copied (d + 1) (s + 1) n (copied d s 1 m)"
    by (auto simp: apart_def)
  also have "\<dots> = copied d s (Suc n) m"
  proof (rule ext)
    fix x
    consider "x = d" | j where "x = d + 1 + j" "j < n" | "\<not> (d \<le> x \<and> x < d + Suc n)"
      by (metis Suc_eq_plus1 add_Suc_right add_less_cancel_left le_neq_implies_less less_iff_Suc_add
          not_less_eq add_Suc)
    then show "copied (d + 1) (s + 1) n (copied d s 1 m) x = copied d s (Suc n) m x"
      by cases (use Suc.prems in \<open>auto simp: copied_def apart_def\<close>)
  qed
  finally show ?case by (simp add: copy_byte)
qed simp

lemma memmove_down_copied: "s \<le> d \<Longrightarrow> memmove_down d s n m = copied d s n m"
proof (induction n arbitrary: m)
  case (Suc n)
  then show ?case by (auto simp: copied_def fun_eq_iff)
qed simp

lemma put_get_word: "put_word d (get_word s m) m = copied d s 4 m"
proof -
  have "ucast (drop_bit k (get_word s m)) = m (s + k div 8)" if "k \<in> {0, 8, 16, 24}" for k
    unfolding get_word_def
    by (rule bit_word_eqI) (use that in \<open>auto simp: bit_simps dest: bit_imp_le_length\<close>)
  from this [of 0] this [of 8] this [of 16] this [of 24]
  have w: "put_word d (get_word s m) m = m(d := m s, d + 1 := m (s + 1), d + 2 := m (s + 2), d + 3 := m (s + 3))"
    by (simp add: put_word_def)
  show "put_word d (get_word s m) m = copied d s 4 m"
  proof (rule ext)
    fix x
    consider "x = d" | "x = d + 1" | "x = d + 2" | "x = d + 3" | "\<not> (d \<le> x \<and> x < d + 4)" by linarith
    then show "put_word d (get_word s m) m x = copied d s 4 m x"
      unfolding w by cases (auto simp: copied_def)
  qed
qed

lemma memcpy_words_copied:
  "apart d s n \<Longrightarrow> \<exists>k r. memcpy_words d s n m = (d + k, s + k, r, copied d s k m) \<and> k + r = n"
proof (induction n arbitrary: d s m rule: less_induct)
  case (less n)
  show ?case
  proof (cases "n < 4")
    case False
    have a: "apart d s 4" "apart (d + 4) (s + 4) (n - 4)" using less.prems False by (auto simp: apart_def)
    obtain k r where k: "memcpy_words (d + 4) (s + 4) (n - 4) (copied d s 4 m) =
        (d + 4 + k, s + 4 + k, r, copied (d + 4) (s + 4) k (copied d s 4 m))" "k + r = n - 4"
      using less.IH [of "n - 4" "d + 4" "s + 4" "copied d s 4 m"] False a by auto
    have "apart d s (4 + k)" using less.prems k(2) False by (auto simp: apart_def)
    then show ?thesis using False k
      by (intro exI [of _ "4 + k"] exI [of _ r])
        (subst memcpy_words.simps, simp add: put_get_word a copied_copied add.assoc)
  next
    case True
    then show ?thesis by (intro exI [of _ 0] exI [of _ n]) (simp add: memcpy_words.simps)
  qed
qed

lemma memcpy_lines_copied:
  "apart d s n \<Longrightarrow> \<exists>k r. memcpy_lines d s n m = (d + k, s + k, r, copied d s k m) \<and> k + r = n"
proof (induction n arbitrary: d s m rule: less_induct)
  case (less n)
  show ?case
  proof (cases "n < 16")
    case False
    have b: "apart d s 8" "apart d s 12" "apart d s 16" "apart (d + 16) (s + 16) (n - 16)"
      using less.prems False by (auto simp: apart_def)
    have line: "put_word (d + 12) (get_word (s + 12) (copied d s 12 m)) (copied d s 12 m) = copied d s 16 m"
      "put_word (d + 8) (get_word (s + 8) (copied d s 8 m)) (copied d s 8 m) = copied d s 12 m"
      "put_word (d + 4) (get_word (s + 4) (copied d s 4 m)) (copied d s 4 m) = copied d s 8 m"
      "put_word d (get_word s m) m = copied d s 4 m"
      using copied_copied [of d s 12 4] copied_copied [of d s 8 4]
        copied_copied [of d s 4 4] b by (simp_all add: put_get_word)
    obtain k r where k: "memcpy_lines (d + 16) (s + 16) (n - 16) (copied d s 16 m) =
        (d + 16 + k, s + 16 + k, r, copied (d + 16) (s + 16) k (copied d s 16 m))" "k + r = n - 16"
      using less.IH [of "n - 16" "d + 16" "s + 16" "copied d s 16 m"] False b by auto
    have "apart d s (16 + k)" using less.prems k(2) False by (auto simp: apart_def)
    then show ?thesis using False k
      by (intro exI [of _ "16 + k"] exI [of _ r])
        (subst memcpy_lines.simps, simp add: line Let_def copied_copied add.assoc)
  next
    case True
    then show ?thesis by (intro exI [of _ 0] exI [of _ n]) (simp add: memcpy_lines.simps)
  qed
qed

lemma rt_memcpy_copied:
  assumes "apart d s n"
  shows "rt_memcpy d s n m = copied d s n m"
proof (cases "\<not> n < 16 \<and> s mod 4 = 0 \<and> d mod 4 = 0")
  case True
  obtain k r where l: "memcpy_lines d s n m = (d + k, s + k, r, copied d s k m)" "k + r = n"
    using memcpy_lines_copied [OF assms] by blast
  have "apart (d + k) (s + k) r" using assms l(2) by (auto simp: apart_def)
  from memcpy_words_copied [OF this, of "copied d s k m"]
  obtain k' r' where w: "memcpy_words (d + k) (s + k) r (copied d s k m) =
      (d + k + k', s + k + k', r', copied (d + k) (s + k) k' (copied d s k m))" "k' + r' = r" by blast
  have a: "apart d s (k + k')" "apart d s (k + k' + r')" "apart (d + (k + k')) (s + (k + k')) r'"
    using assms l(2) w(2) by (auto simp: apart_def)
  show ?thesis
    unfolding rt_memcpy_def if_P [OF True] l(1) Let_def
    using a l(2) w memcpy_bytes_copied [of "d + (k + k')" "s + (k + k')" r'] copied_copied [of d s "k + k'" r']
    by (simp add: copied_copied add.assoc)
next
  case False
  then show ?thesis using memcpy_bytes_copied assms by (auto simp: rt_memcpy_def)
qed

lemma rt_memmove_copied: "rt_memmove d s n m = copied d s n m"
  by (auto simp: rt_memmove_def memmove_down_copied memcpy_bytes_copied apart_def)

subsection \<open>Strings\<close>

primrec rt_strlen :: "u8 list \<Rightarrow> nat option" where
  "rt_strlen [] = None"
| "rt_strlen (c # cs) = (if c = 0 then Some 0 else map_option Suc (rt_strlen cs))"

text \<open>\<open>rt_strncpy\<close>: the bytes it writes from the destination on.\<close>

fun rt_strncpy :: "u8 list \<Rightarrow> nat \<Rightarrow> u8 list option" where
  "rt_strncpy src 0 = Some []"
| "rt_strncpy [] (Suc n) = None"
| "rt_strncpy (c # cs) (Suc n) =
     (if c = 0 then Some (c # replicate n 0) else map_option (Cons c) (rt_strncpy cs n))"

fun rt_strncmp :: "u8 list \<Rightarrow> u8 list \<Rightarrow> nat \<Rightarrow> u8 option" where
  "rt_strncmp cs ct 0 = Some 0"
| "rt_strncmp (c # cs) (d # ct) (Suc n) =
     (let res = c - d
      in if res \<noteq> 0 \<or> c = 0 then Some res else rt_strncmp cs ct n)"
| "rt_strncmp cs ct (Suc n) = None"

fun rt_strcmp :: "u8 list \<Rightarrow> u8 list \<Rightarrow> int option" where
  "rt_strcmp (c # cs) (d # ct) =
     (if c \<noteq> 0 \<and> c = d then rt_strcmp cs ct else Some (uint c - uint d))"
| "rt_strcmp cs ct = None"

definition tolower_c :: "u8 \<Rightarrow> int" where
  "tolower_c c = (if 65 \<le> uint c \<and> uint c \<le> 90 then uint c + 32 else uint c)"

fun rt_strcasecmp :: "u8 list \<Rightarrow> u8 list \<Rightarrow> int option" where
  "rt_strcasecmp (c # cs) (d # ct) =
     (let ca = tolower_c c; cb = tolower_c d
      in if ca = cb \<and> ca \<noteq> 0 then rt_strcasecmp cs ct else Some (ca - cb))"
| "rt_strcasecmp cs ct = None"

fun rt_memcmp :: "u8 list \<Rightarrow> u8 list \<Rightarrow> nat \<Rightarrow> int option" where
  "rt_memcmp cs ct 0 = Some 0"
| "rt_memcmp (c # cs) (d # ct) (Suc n) =
     (let res = uint c - uint d in if res \<noteq> 0 then Some res else rt_memcmp cs ct n)"
| "rt_memcmp cs ct (Suc n) = None"

text \<open>\<open>rt_strstr\<close>: the offset of the result in \<open>s1\<close>, \<open>Some None\<close> for NULL.\<close>

fun strstr_loop :: "nat \<Rightarrow> u8 list \<Rightarrow> u8 list \<Rightarrow> nat \<Rightarrow> nat \<Rightarrow> nat option option" where
  "strstr_loop i s1 s2 l1 l2 =
     (if l1 < l2 \<or> l1 = 0 then Some None
      else do {
        r \<leftarrow> rt_memcmp s1 s2 l2;
        if r = 0 then Some (Some i) else strstr_loop (i + 1) (tl s1) s2 (l1 - 1) l2 })"

definition rt_strstr :: "u8 list \<Rightarrow> u8 list \<Rightarrow> nat option option" where
  "rt_strstr s1 s2 =
     do { l2 \<leftarrow> rt_strlen s2;
          if l2 = 0 then Some (Some 0)
          else do { l1 \<leftarrow> rt_strlen s1; strstr_loop 0 s1 s2 l1 l2 } }"

declare strstr_loop.simps [simp del]

text \<open>The C string a pointer stands for: its bytes up to the terminating zero.\<close>

definition cstr :: "u8 list \<Rightarrow> u8 list" where
  "cstr s = takeWhile (\<lambda>c. c \<noteq> 0) s"

lemma cstr_simps [simp]:
  "cstr [] = []" "cstr (c # cs) = (if c = 0 then [] else c # cstr cs)"
  by (simp_all add: cstr_def)

lemma cstr_split: "0 \<in> set s \<Longrightarrow> \<exists>r. s = cstr s @ 0 # r"
  by (induction s) auto

lemma cstr_no_zero: "0 \<notin> set (cstr s)"
  by (induction s) auto

lemma cstr_app: "0 \<notin> set xs \<Longrightarrow> cstr (xs @ 0 # r) = xs"
  by (induction xs) auto

lemma rt_strlen_cstr: "0 \<in> set s \<Longrightarrow> rt_strlen s = Some (length (cstr s))"
  by (induction s) auto

lemma rt_strncpy_cstr:
  "0 \<in> set s \<Longrightarrow> rt_strncpy s n = Some (take n (cstr s @ replicate n 0))"
proof (induction s n rule: rt_strncpy.induct)
  case (3 c cs n)
  then show ?case by (cases "c = 0") (auto simp: replicate_append_same take_Cons' simp flip: replicate_Suc)
qed auto

lemma uint_same [simp]: "uint (a :: u8) = uint b \<longleftrightarrow> a = b" "uint (a :: u8) = 0 \<longleftrightarrow> a = 0"
  "0 = uint (a :: u8) \<longleftrightarrow> a = 0"
  by (auto simp: unsigned_eq_0_iff intro: unsigned_word_eqI)

lemma rt_strncmp_iff:
  "0 \<in> set a \<or> n \<le> length a \<Longrightarrow> 0 \<in> set b \<or> n \<le> length b \<Longrightarrow>
   \<exists>r. rt_strncmp a b n = Some r \<and> (r = 0 \<longleftrightarrow> take n (cstr a) = take n (cstr b))"
proof (induction a b n rule: rt_strncmp.induct)
  case (2 c cs d ct n)
  show ?case
  proof (cases "c = d \<and> c \<noteq> 0")
    case True
    then show ?thesis using 2 by (auto simp: Let_def)
  qed (auto simp: Let_def)
qed auto

lemma rt_strcmp_iff:
  "0 \<in> set a \<Longrightarrow> 0 \<in> set b \<Longrightarrow> \<exists>r. rt_strcmp a b = Some r \<and> (r = 0 \<longleftrightarrow> cstr a = cstr b)"
  by (induction a b rule: rt_strcmp.induct) auto

lemma rt_memcmp_iff:
  "n \<le> length a \<Longrightarrow> n \<le> length b \<Longrightarrow>
   \<exists>r. rt_memcmp a b n = Some r \<and> (r = 0 \<longleftrightarrow> take n a = take n b)"
  by (induction a b n rule: rt_memcmp.induct) (auto simp: Let_def)

lemma tolower_c_0: "tolower_c c = 0 \<longleftrightarrow> c = 0"
  by (auto simp: tolower_c_def uint_0_iff)

lemma rt_strcasecmp_iff:
  "0 \<in> set a \<Longrightarrow> 0 \<in> set b \<Longrightarrow>
   \<exists>r. rt_strcasecmp a b = Some r \<and> (r = 0 \<longleftrightarrow> map tolower_c (cstr a) = map tolower_c (cstr b))"
proof (induction a b rule: rt_strcasecmp.induct)
  case (1 c cs d ct)
  then show ?case using tolower_c_0 [of c] tolower_c_0 [of d] by (auto simp: Let_def)
qed auto

lemma take_cstr_padded: "take n (cstr (take n (cstr s @ replicate n 0))) = take n (cstr s)"
proof (cases "length (cstr s) < n")
  case True
  then obtain k where "n - length (cstr s) = Suc k" by (metis Suc_diff_Suc)
  then have "take n (cstr s @ replicate n 0) = cstr s @ 0 # replicate k 0" using True by simp
  then show ?thesis by (simp add: cstr_app cstr_no_zero)
next
  case False
  have "cstr xs = xs" if "0 \<notin> set xs" for xs :: "u8 list" using that by (induction xs) auto
  moreover have "0 \<notin> set (take n (cstr s))" using cstr_no_zero set_take_subset by fast
  ultimately show ?thesis using False by simp
qed

text \<open>The search finds the first offset where the second string occurs in the first.\<close>

definition occurs_at :: "u8 list \<Rightarrow> u8 list \<Rightarrow> nat \<Rightarrow> bool" where
  "occurs_at u v i \<longleftrightarrow> i + length v \<le> length u \<and> take (length v) (drop i u) = v"

definition first_occurrence :: "u8 list \<Rightarrow> u8 list \<Rightarrow> nat option \<Rightarrow> bool" where
  "first_occurrence u v r \<longleftrightarrow>
     (case r of None \<Rightarrow> \<forall>i. \<not> occurs_at u v i
      | Some i \<Rightarrow> occurs_at u v i \<and> (\<forall>j < i. \<not> occurs_at u v j))"

lemma strstr_loop_spec:
  assumes "v \<noteq> []"
  shows "\<exists>r. strstr_loop k (u @ x) (v @ y) (length u) (length v) = Some (map_option ((+) k) r) \<and>
    first_occurrence u v r"
proof (induction u arbitrary: k)
  case Nil
  then show ?case using assms
    by (intro exI [of _ None]) (simp add: strstr_loop.simps first_occurrence_def occurs_at_def)
next
  case (Cons c cs)
  show ?case
  proof (cases "length (c # cs) < length v")
    case True
    then show ?thesis
      by (intro exI [of _ None]) (simp add: strstr_loop.simps first_occurrence_def occurs_at_def)
  next
    case False
    then obtain r where r: "rt_memcmp ((c # cs) @ x) (v @ y) (length v) = Some r"
      "r = 0 \<longleftrightarrow> take (length v) ((c # cs) @ x) = take (length v) (v @ y)"
      using rt_memcmp_iff [of "length v" "(c # cs) @ x" "v @ y"] by auto
    have "take (length v) ((c # cs) @ x) = take (length v) (c # cs)"
      using False by (subst take_append) simp
    then have r': "r = 0 \<longleftrightarrow> occurs_at (c # cs) v 0" using r(2) False by (auto simp: occurs_at_def)
    show ?thesis
    proof (cases "r = 0")
      case True
      with r r' False show ?thesis
        by (intro exI [of _ "Some 0"]) (subst strstr_loop.simps, simp add: first_occurrence_def)
    next
      case n0: False
      obtain q where q: "strstr_loop (k + 1) (cs @ x) (v @ y) (length cs) (length v) =
          Some (map_option ((+) (k + 1)) q)" "first_occurrence cs v q" using Cons by blast
      have S: "occurs_at (c # cs) v (Suc j) \<longleftrightarrow> occurs_at cs v j" for j by (simp add: occurs_at_def)
      have "first_occurrence (c # cs) v (map_option Suc q)"
      proof (cases q)
        case None
        then have "\<not> occurs_at (c # cs) v i" for i
          using q(2) n0 r' S by (cases i) (auto simp: first_occurrence_def)
        with None show ?thesis by (simp add: first_occurrence_def)
      next
        case (Some i)
        then have "\<not> occurs_at (c # cs) v j" if "j < Suc i" for j
          using q(2) n0 r' S that by (cases j) (auto simp: first_occurrence_def)
        with Some q(2) S show ?thesis by (simp add: first_occurrence_def)
      qed
      moreover have "strstr_loop k ((c # cs) @ x) (v @ y) (length (c # cs)) (length v) =
          Some (map_option ((+) k) (map_option Suc q))"
        using False n0 r(1) q(1) by (subst strstr_loop.simps) (cases q; simp)
      ultimately show ?thesis by blast
    qed
  qed
qed

lemma rt_strstr_spec:
  assumes "0 \<in> set s1" "0 \<in> set s2"
  shows "\<exists>r. rt_strstr s1 s2 = Some r \<and> first_occurrence (cstr s1) (cstr s2) r"
proof (cases "cstr s2 = []")
  case True
  then show ?thesis using assms
    by (intro exI [of _ "Some 0"]) (simp add: rt_strstr_def rt_strlen_cstr first_occurrence_def occurs_at_def)
next
  case False
  obtain x y where "s1 = cstr s1 @ 0 # x" "s2 = cstr s2 @ 0 # y" using assms cstr_split by blast
  then obtain r where r: "strstr_loop 0 s1 s2 (length (cstr s1)) (length (cstr s2)) = Some (map_option ((+) 0) r)"
    "first_occurrence (cstr s1) (cstr s2) r" using strstr_loop_spec [OF False] by metis
  have "map_option ((+) 0) r = r" by (cases r) simp_all
  with r assms False show ?thesis by (simp add: rt_strstr_def rt_strlen_cstr)
qed


subsection \<open>Properties\<close>

text \<open>
  The table-driven \<open>__rt_ffs\<close> gives 0 for 0 and otherwise one more than the
  index of the least significant bit that is set.\<close>

theorem rt_ffs_lowest:
  "if v = 0 then rt_ffs v = 0
   else 1 \<le> rt_ffs v \<and> rt_ffs v \<le> 32 \<and> bit v (rt_ffs v - 1) \<and> (LEAST i. bit v i) = rt_ffs v - 1"
proof (cases "v = 0")
  case False
  note f = rt_ffs_spec [OF False]
  have "(LEAST i. bit v i) = rt_ffs v - 1"
    by (rule Least_equality [where P = "bit v", OF f(2)]) (metis f(3) not_less)
  with f False show ?thesis by simp
qed simp

text \<open>
  \<open>rt_memcpy\<close>, with its copies of four words, of one word and of bytes, copies
  the source to the destination and changes nothing else when the two do not overlap.\<close>

theorem rt_memcpy_correct:
  assumes "d + n \<le> s \<or> s + n \<le> d"
  shows "rt_memcpy d s n m x = (if d \<le> x \<and> x < d + n then m (s + (x - d)) else m x)"
  using rt_memcpy_copied [of d s n m] assms by (simp add: apart_def copied_def)

theorem rt_memcpy_correct_witness:
  "rt_memcpy 1000 2000 21 (\<lambda>a. of_nat a) 1020 = of_nat 2020"
  using rt_memcpy_correct [of 1000 21 2000 "\<lambda>a. of_nat a" 1020] by simp

text \<open>
  \<open>rt_memmove\<close> copies the bytes the source had before the call, however the two
  regions overlap, and \<open>rt_memset\<close> fills exactly the region with the low byte of its argument.\<close>

theorem rt_memmove_memset_correct:
  "rt_memmove d s n m = (\<lambda>x. if d \<le> x \<and> x < d + n then m (s + (x - d)) else m x) \<and>
   rt_memset d c n m = (\<lambda>x. if d \<le> x \<and> x < d + n then ucast c else m x)"
  by (simp add: rt_memmove_copied rt_memset_filled copied_def filled_def)

text \<open>
  An object's name survives \<open>rt_strncpy\<close>: the bytes written are found again by
  \<open>rt_strncmp\<close> with the name they came from, and with another name exactly when the two agree
  up to the length stored.\<close>

theorem rt_name_lookup:
  assumes "0 \<in> set src" "0 \<in> set name"
  shows "\<exists>stored r. rt_strncpy src n = Some stored \<and> length stored = n \<and>
    rt_strncmp stored name n = Some r \<and> (r = 0 \<longleftrightarrow> take n (cstr src) = take n (cstr name))"
proof -
  let ?d = "take n (cstr src @ replicate n 0)"
  obtain r where r: "rt_strncmp ?d name n = Some r" "r = 0 \<longleftrightarrow> take n (cstr ?d) = take n (cstr name)"
    using rt_strncmp_iff [of ?d n name] assms(2) by auto
  have "take n (cstr ?d) = take n (cstr src)" by (rule take_cstr_padded)
  then show ?thesis using r rt_strncpy_cstr [OF assms(1), of n] by auto
qed

theorem rt_name_lookup_witness:
  "\<exists>stored r. rt_strncpy [116, 105, 100, 108, 101, 0] 8 = Some stored \<and> length stored = 8 \<and>
    rt_strncmp stored [116, 105, 100, 108, 101, 0, 7] 8 = Some r \<and>
    (r = 0 \<longleftrightarrow> take 8 (cstr [116, 105, 100, 108, 101, 0]) = take 8 (cstr [116, 105, 100, 108, 101, 0, 7]))"
  by (rule rt_name_lookup) simp_all

text \<open>
  \<open>rt_strstr\<close> returns, and finds the first place where the second string occurs
  in the first, or NULL exactly when it occurs nowhere.\<close>

theorem rt_strstr_first:
  assumes "0 \<in> set s1" "0 \<in> set s2"
  shows "\<exists>r. rt_strstr s1 s2 = Some r \<and> first_occurrence (cstr s1) (cstr s2) r"
  by (rule rt_strstr_spec [OF assms])

theorem rt_strstr_first_witness:
  "\<exists>r. rt_strstr [97, 98, 97, 98, 99, 0] [97, 98, 99, 0] = Some r \<and>
    first_occurrence (cstr [97, 98, 97, 98, 99, 0]) (cstr [97, 98, 99, 0]) r"
  by (rule rt_strstr_first) simp_all

end
