(* ===== verification/KPrintf.thy ===== *)
theory KPrintf
  imports KService
begin

text \<open>
  The formatted output of \<^verbatim>\<open>src/kservice.c\<close>, as it is configured: with \<^verbatim>\<open>RT_PRINTF_PRECISION\<close>,
  without \<^verbatim>\<open>RT_PRINTF_LONGLONG\<close> and \<^verbatim>\<open>RT_PRINTF_SPECIAL\<close>. The format is a C string, an argument
  is the word the calling convention passes, and a string argument is read from memory. A format
  or a list of arguments that ends too early is \<^term>\<open>None\<close>. The widths and precisions are
  integers: that they fit into an \<^verbatim>\<open>int\<close> is the caller's business.
\<close>

subsection \<open>Writing\<close>

abbreviation chr8 :: "char \<Rightarrow> u8" where "chr8 \<equiv> of_char"

text \<open>The memory and the place of the next character; \<^verbatim>\<open>end\<close> is the last place of the buffer.\<close>

type_synonym out = "memory \<times> nat"

definition emit :: "nat \<Rightarrow> u8 \<Rightarrow> out \<Rightarrow> out" where
  "emit fin c st = (case st of (m, str) \<Rightarrow> (if str \<le> fin then m(str := c) else m, str + 1))"

text \<open>\<^verbatim>\<open>while (size-- > 0)\<close>, \<^verbatim>\<open>while (len < size--)\<close> and \<^verbatim>\<open>while (--size > 0)\<close>\<close>

function emit_while :: "nat \<Rightarrow> u8 \<Rightarrow> int \<Rightarrow> out \<Rightarrow> int \<times> out" where
  "emit_while fin c sz st =
    (if sz > 0 then emit_while fin c (sz - 1) (emit fin c st) else (sz - 1, st))"
  by pat_completeness auto
termination by (relation "measure (\<lambda>(fin, c, sz, st). nat sz)") auto

function emit_less :: "nat \<Rightarrow> u8 \<Rightarrow> int \<Rightarrow> int \<Rightarrow> out \<Rightarrow> int \<times> out" where
  "emit_less fin c len sz st =
    (if len < sz then emit_less fin c len (sz - 1) (emit fin c st) else (sz - 1, st))"
  by pat_completeness auto
termination by (relation "measure (\<lambda>(fin, c, len, sz, st). nat (sz - len))") auto

function emit_pre :: "nat \<Rightarrow> u8 \<Rightarrow> int \<Rightarrow> out \<Rightarrow> int \<times> out" where
  "emit_pre fin c sz st =
    (let sz = sz - 1 in if sz > 0 then emit_pre fin c sz (emit fin c st) else (sz, st))"
  by pat_completeness auto
termination by (relation "measure (\<lambda>(fin, c, sz, st). nat sz)") auto

declare emit_while.simps [simp del] emit_less.simps [simp del] emit_pre.simps [simp del]

subsection \<open>Numbers\<close>

abbreviation ZEROPAD :: u8 where "ZEROPAD \<equiv> 1"
abbreviation SIGN :: u8 where "SIGN \<equiv> 2"
abbreviation PLUS :: u8 where "PLUS \<equiv> 4"
abbreviation SPACE :: u8 where "SPACE \<equiv> 8"
abbreviation LEFT :: u8 where "LEFT \<equiv> 16"
abbreviation SPECIAL :: u8 where "SPECIAL \<equiv> 32"
abbreviation LARGE :: u8 where "LARGE \<equiv> 64"

definition small_digits :: "u8 list" where
  "small_digits = map of_char ''0123456789abcdef''"

definition large_digits :: "u8 list" where
  "large_digits = map of_char ''0123456789ABCDEF''"

definition divide :: "u32 \<Rightarrow> nat \<Rightarrow> u32 \<times> u32" where
  "divide n base = (if base = 10 then (n mod 10, n div 10) else (n mod 16, n div 16))"

lemma divide_less: "n \<noteq> 0 \<Longrightarrow> unat (snd (divide n base)) < unat n"
  by (auto simp: divide_def unat_div unat_gt_0)

function number_digits :: "u8 list \<Rightarrow> nat \<Rightarrow> u32 \<Rightarrow> u8 list" where
  "number_digits digits base num =
    (if num \<noteq> 0 then
       digits ! unat (fst (divide num base)) # number_digits digits base (snd (divide num base))
     else [])"
  by pat_completeness auto
termination by (relation "measure (\<lambda>(digits, base, num). unat num)") (auto simp: divide_less)

declare number_digits.simps [simp del]

primrec put_digits :: "nat \<Rightarrow> u8 list \<Rightarrow> nat \<Rightarrow> out \<Rightarrow> out" where
  "put_digits fin tmp 0 st = st"
| "put_digits fin tmp (Suc i) st = put_digits fin tmp i (emit fin (tmp ! i) st)"

definition number_sign :: "u32 \<Rightarrow> u8 \<Rightarrow> u8 \<times> u32" where
  "number_sign num ty =
    (if ty AND SIGN \<noteq> 0 then
       if sint num < 0 then (chr8 CHR ''-'', - num)
       else if ty AND PLUS \<noteq> 0 then (chr8 CHR ''+'', num)
       else if ty AND SPACE \<noteq> 0 then (chr8 CHR '' '', num)
       else (0, num)
     else (0, num))"

definition print_number :: "nat \<Rightarrow> u32 \<Rightarrow> nat \<Rightarrow> int \<Rightarrow> int \<Rightarrow> u8 \<Rightarrow> out \<Rightarrow> out" where
  "print_number fin num base s precision ty st =
    (let digits = (if ty AND LARGE \<noteq> 0 then large_digits else small_digits);
         ty = (if ty AND LEFT \<noteq> 0 then ty AND NOT ZEROPAD else ty);
         c = (if ty AND ZEROPAD \<noteq> 0 then chr8 CHR ''0'' else chr8 CHR '' '');
         (sign, num) = number_sign num ty;
         tmp = (if num = 0 then [chr8 CHR ''0''] else number_digits digits base num);
         i = int (length tmp);
         precision = (if i > precision then i else precision);
         size = s - precision;
         (size, st) =
           (if ty AND (ZEROPAD OR LEFT) = 0 then
              emit_while fin (chr8 CHR '' '') (if sign \<noteq> 0 \<and> size > 0 then size - 1 else size) st
            else (size, st));
         (size, st) =
           (if sign \<noteq> 0 then (if snd st \<le> fin then size - 1 else size, emit fin sign st)
            else (size, st));
         (size, st) = (if ty AND LEFT = 0 then emit_while fin c size st else (size, st));
         st = snd (emit_less fin (chr8 CHR ''0'') i precision st);
         st = put_digits fin tmp (length tmp) st
     in snd (emit_while fin (chr8 CHR '' '') size st))"

subsection \<open>A conversion\<close>

definition isdigit8 :: "u8 \<Rightarrow> bool" where
  "isdigit8 c \<longleftrightarrow> c - chr8 CHR ''0'' < 10"

fun skip_atoi :: "int \<Rightarrow> u8 list \<Rightarrow> (int \<times> u8 list) option" where
  "skip_atoi i [] = None"
| "skip_atoi i (c # s) =
    (if isdigit8 c then skip_atoi (i * 10 + uint c - 48) s else Some (i, c # s))"

fun va_arg :: "u32 list \<Rightarrow> (u32 \<times> u32 list) option" where
  "va_arg [] = None"
| "va_arg (a # args) = Some (a, args)"

fun parse_flags :: "u8 \<Rightarrow> u8 list \<Rightarrow> (u8 \<times> u8 list) option" where
  "parse_flags flags [] = None"
| "parse_flags flags (c # fmt) =
    (if c = chr8 CHR ''-'' then parse_flags (flags OR LEFT) fmt
     else if c = chr8 CHR ''+'' then parse_flags (flags OR PLUS) fmt
     else if c = chr8 CHR '' '' then parse_flags (flags OR SPACE) fmt
     else if c = chr8 CHR ''#'' then parse_flags (flags OR SPECIAL) fmt
     else if c = chr8 CHR ''0'' then parse_flags (flags OR ZEROPAD) fmt
     else Some (flags, c # fmt))"

fun parse_width :: "u8 \<Rightarrow> u8 list \<Rightarrow> u32 list \<Rightarrow> (int \<times> u8 \<times> u8 list \<times> u32 list) option" where
  "parse_width flags [] args = None"
| "parse_width flags (c # fmt) args =
    (if isdigit8 c then do {
       (w, fmt) \<leftarrow> skip_atoi 0 (c # fmt);
       Some (w, flags, fmt, args)
     }
     else if c = chr8 CHR ''*'' then do {
       (a, args) \<leftarrow> va_arg args;
       Some (if sint a < 0 then (- sint a, flags OR LEFT, fmt, args) else (sint a, flags, fmt, args))
     }
     else Some (- 1, flags, c # fmt, args))"

fun parse_precision :: "u8 list \<Rightarrow> u32 list \<Rightarrow> (int \<times> u8 list \<times> u32 list) option" where
  "parse_precision [] args = None"
| "parse_precision (c # fmt) args =
    (if c = chr8 CHR ''.'' then
       (case fmt of
          [] \<Rightarrow> None
        | d # fmt' \<Rightarrow>
            if isdigit8 d then do { (p, fmt) \<leftarrow> skip_atoi 0 fmt; Some (max p 0, fmt, args) }
            else if d = chr8 CHR ''*'' then do {
              (a, args) \<leftarrow> va_arg args;
              Some (max (sint a) 0, fmt', args)
            }
            else Some (0, fmt, args))
     else Some (- 1, c # fmt, args))"

fun parse_qualifier :: "u8 list \<Rightarrow> (u8 \<times> u8 list) option" where
  "parse_qualifier [] = None"
| "parse_qualifier (c # fmt) =
    (if c = chr8 CHR ''h'' \<or> c = chr8 CHR ''l'' then Some (c, fmt) else Some (0, c # fmt))"

text \<open>The number an integer conversion prints.\<close>

definition arg_number :: "u8 \<Rightarrow> u8 \<Rightarrow> u32 \<Rightarrow> u32" where
  "arg_number qualifier flags a =
    (if qualifier = chr8 CHR ''h'' then
       if flags AND SIGN \<noteq> 0 then scast (ucast a :: 16 word) else ucast (ucast a :: 16 word)
     else a)"

text \<open>\<open>rt_strlen\<close> in memory, and the copy of a string, each byte read when it is its turn.\<close>

function mem_strlen :: "memory \<Rightarrow> nat \<Rightarrow> nat option" where
  "mem_strlen m a =
    (if a \<ge> 2 ^ 32 then None else if m a = 0 then Some 0 else map_option Suc (mem_strlen m (a + 1)))"
  by pat_completeness auto
termination by (relation "measure (\<lambda>(m, a). 2 ^ 32 - a)") auto

declare mem_strlen.simps [simp del]

primrec emit_string :: "nat \<Rightarrow> nat \<Rightarrow> nat \<Rightarrow> out \<Rightarrow> out" where
  "emit_string fin a 0 st = st"
| "emit_string fin a (Suc n) st = emit_string fin (a + 1) n (emit fin (fst st a) st)"

definition null_string :: "u8 list" where
  "null_string = map of_char ''(NULL)''"

definition convert_char :: "nat \<Rightarrow> u8 \<Rightarrow> int \<Rightarrow> u8 \<Rightarrow> out \<Rightarrow> out" where
  "convert_char fin flags width c st =
    (let (width, st) =
       (if flags AND LEFT = 0 then emit_pre fin (chr8 CHR '' '') width st else (width, st))
     in snd (emit_pre fin (chr8 CHR '' '') width (emit fin c st)))"

definition convert_string :: "nat \<Rightarrow> u8 \<Rightarrow> int \<Rightarrow> int \<Rightarrow> u32 \<Rightarrow> out \<Rightarrow> out option" where
  "convert_string fin flags width precision s st = do {
    n \<leftarrow> (if s = 0 then Some (length null_string) else mem_strlen (fst st) (unat s));
    let len = (if precision > 0 \<and> int n > precision then precision else int n);
    Some (let (width, st) =
        (if flags AND LEFT = 0 then emit_less fin (chr8 CHR '' '') len width st else (width, st))
      in snd (emit_less fin (chr8 CHR '' '') len width
        (if s = 0 then fold (emit fin) (take (nat len) null_string) st
         else emit_string fin (unat s) (nat len) st)))
  }"

definition convert_number :: "nat \<Rightarrow> u8 \<Rightarrow> int \<Rightarrow> int \<Rightarrow> u8 \<Rightarrow> nat \<Rightarrow> u32 list \<Rightarrow> out \<Rightarrow>
    (u32 list \<times> out) option" where
  "convert_number fin flags width precision qualifier base args st = do {
    (a, args) \<leftarrow> va_arg args;
    Some (args, print_number fin (arg_number qualifier flags a) base width precision flags st)
  }"

text \<open>The switch on the conversion character: what is left of the format, of the arguments, and the output.\<close>

fun convert :: "nat \<Rightarrow> u8 \<Rightarrow> int \<Rightarrow> int \<Rightarrow> u8 \<Rightarrow> u8 list \<Rightarrow> u32 list \<Rightarrow> out \<Rightarrow>
    (u8 list \<times> u32 list \<times> out) option" where
  "convert fin flags width precision qualifier [] args st = None"
| "convert fin flags width precision qualifier (c # fmt) args st =
    (if c = chr8 CHR ''c'' then do {
       (a, args) \<leftarrow> va_arg args;
       Some (fmt, args, convert_char fin flags width (ucast a) st)
     }
     else if c = chr8 CHR ''s'' then do {
       (s, args) \<leftarrow> va_arg args;
       st \<leftarrow> convert_string fin flags width precision s st;
       Some (fmt, args, st)
     }
     else if c = chr8 CHR ''p'' then do {
       (a, args) \<leftarrow> va_arg args;
       let (width, flags) = (if width = - 1 then (8, flags OR ZEROPAD) else (width, flags));
       Some (fmt, args, print_number fin a 16 width precision flags st)
     }
     else if c = chr8 CHR ''%'' then Some (fmt, args, emit fin (chr8 CHR ''%'') st)
     else if c = chr8 CHR ''o'' then map_option (Pair fmt)
       (convert_number fin flags width precision qualifier 8 args st)
     else if c = chr8 CHR ''X'' then map_option (Pair fmt)
       (convert_number fin (flags OR LARGE) width precision qualifier 16 args st)
     else if c = chr8 CHR ''x'' then map_option (Pair fmt)
       (convert_number fin flags width precision qualifier 16 args st)
     else if c = chr8 CHR ''d'' \<or> c = chr8 CHR ''i'' then map_option (Pair fmt)
       (convert_number fin (flags OR SIGN) width precision qualifier 10 args st)
     else if c = chr8 CHR ''u'' then map_option (Pair fmt)
       (convert_number fin flags width precision qualifier 10 args st)
     else let st = emit fin (chr8 CHR ''%'') st
       in if c \<noteq> 0 then Some (fmt, args, emit fin c st) else Some (c # fmt, args, st))"

definition directive :: "nat \<Rightarrow> u8 list \<Rightarrow> u32 list \<Rightarrow> out \<Rightarrow> (u8 list \<times> u32 list \<times> out) option" where
  "directive fin fmt args st = do {
    (flags, fmt) \<leftarrow> parse_flags 0 fmt;
    (width, flags, fmt, args) \<leftarrow> parse_width flags fmt args;
    (precision, fmt, args) \<leftarrow> parse_precision fmt args;
    (qualifier, fmt) \<leftarrow> parse_qualifier fmt;
    convert fin flags width precision qualifier fmt args st
  }"

lemma skip_atoi_length: "skip_atoi i s = Some (n, t) \<Longrightarrow> length t \<le> length s"
  by (induction i s rule: skip_atoi.induct) (auto split: if_splits)

lemma parse_flags_length: "parse_flags f s = Some (g, t) \<Longrightarrow> length t \<le> length s"
  by (induction f s rule: parse_flags.induct) (auto split: if_splits)

lemma parse_width_length: "parse_width f s args = Some (w, g, t, args') \<Longrightarrow> length t \<le> length s"
  by (cases s) (auto split: if_splits dest: skip_atoi_length)

lemma parse_precision_length: "parse_precision s args = Some (p, t, args') \<Longrightarrow> length t \<le> length s"
  by (cases s) (auto split: if_splits list.splits dest!: skip_atoi_length)

lemma parse_qualifier_length: "parse_qualifier s = Some (q, t) \<Longrightarrow> length t \<le> length s"
  by (cases s) (auto split: if_splits)

lemma convert_length: "convert fin f w p q s args st = Some (t, args', st') \<Longrightarrow> length t \<le> length s"
  by (cases s) (auto split: if_splits simp: Let_def)

lemma directive_length: "directive fin s args st = Some (t, args', st') \<Longrightarrow> length t \<le> length s"
  by (fastforce simp: directive_def dest: parse_flags_length parse_width_length parse_precision_length
      parse_qualifier_length convert_length)

subsection \<open>The whole format\<close>

function format_loop :: "nat \<Rightarrow> u8 list \<Rightarrow> u32 list \<Rightarrow> out \<Rightarrow> out option" where
  "format_loop fin [] args st = None"
| "format_loop fin (c # fmt) args st =
    (if c = 0 then Some st
     else if c \<noteq> chr8 CHR ''%'' then format_loop fin fmt args (emit fin c st)
     else case directive fin fmt args st of
       None \<Rightarrow> None
     | Some (fmt, args, st) \<Rightarrow> format_loop fin fmt args st)"
  by pat_completeness auto
termination
  by (relation "measure (\<lambda>(fin, fmt, args, st). length fmt)") (auto dest: directive_length)

definition rt_vsnprintf :: "nat \<Rightarrow> u32 \<Rightarrow> u8 list \<Rightarrow> u32 list \<Rightarrow> memory \<Rightarrow> (nat \<times> memory) option" where
  "rt_vsnprintf buf sz fmt args m =
    (let fin = (int buf + uint sz - 1) mod 2 ^ 32;
         fin = (if fin < int buf then 2 ^ 32 - 1 else nat fin)
     in do {
       (m, str) \<leftarrow> format_loop fin fmt args (m, buf);
       let m = (if str \<le> fin then m(str := 0) else m(fin := 0));
       Some (str - buf, m)
     })"

definition rt_snprintf :: "nat \<Rightarrow> u32 \<Rightarrow> u8 list \<Rightarrow> u32 list \<Rightarrow> memory \<Rightarrow> (nat \<times> memory) option" where
  "rt_snprintf buf sz fmt args m = rt_vsnprintf buf sz fmt args m"

definition rt_vsprintf :: "nat \<Rightarrow> u8 list \<Rightarrow> u32 list \<Rightarrow> memory \<Rightarrow> (nat \<times> memory) option" where
  "rt_vsprintf buf fmt args m = rt_vsnprintf buf (- 1) fmt args m"

definition rt_sprintf :: "nat \<Rightarrow> u8 list \<Rightarrow> u32 list \<Rightarrow> memory \<Rightarrow> (nat \<times> memory) option" where
  "rt_sprintf buf fmt args m = rt_vsprintf buf fmt args m"

subsection \<open>What is to be printed\<close>

fun number_text :: "u8 list \<Rightarrow> nat \<Rightarrow> nat \<Rightarrow> u8 list" where
  "number_text digits base n =
    (if base < 2 \<or> n < base then [digits ! n]
     else number_text digits base (n div base) @ [digits ! (n mod base)])"

declare number_text.simps [simp del]

text \<open>A field: a sign, zeros up to the precision, the digits, and what fills it up to its width.\<close>

definition number_field :: "u32 \<Rightarrow> nat \<Rightarrow> int \<Rightarrow> int \<Rightarrow> u8 \<Rightarrow> u8 list" where
  "number_field num base width precision flags =
    (let (sign, num) = number_sign num flags;
         sg = (if sign = 0 then [] else [sign]);
         ds = number_text (if flags AND LARGE \<noteq> 0 then large_digits else small_digits)
                (if base = 10 then 10 else 16) (unat num);
         body = replicate (nat (precision - int (length ds))) (chr8 CHR ''0'') @ ds;
         fill = nat (width - int (length sg) - int (length body))
     in if flags AND LEFT \<noteq> 0 then sg @ body @ replicate fill (chr8 CHR '' '')
        else if flags AND ZEROPAD \<noteq> 0 then sg @ replicate fill (chr8 CHR ''0'') @ body
        else replicate fill (chr8 CHR '' '') @ sg @ body)"

definition text_field :: "u8 list \<Rightarrow> int \<Rightarrow> u8 \<Rightarrow> u8 list" where
  "text_field tx width flags =
    (let fill = replicate (nat (width - int (length tx))) (chr8 CHR '' '')
     in if flags AND LEFT \<noteq> 0 then tx @ fill else fill @ tx)"

text \<open>The text of a string argument with the addresses that are read.\<close>

definition string_text :: "memory \<Rightarrow> u32 \<Rightarrow> int \<Rightarrow> (u8 list \<times> nat set) option" where
  "string_text m s precision =
    (if s = 0 then
       Some (if precision > 0 then take (nat precision) null_string else null_string, {})
     else do {
       n \<leftarrow> mem_strlen m (unat s);
       let tx = map m [unat s..<unat s + n];
       Some (if precision > 0 then take (nat precision) tx else tx, {unat s..unat s + n})
     })"

fun convert_text :: "u8 \<Rightarrow> int \<Rightarrow> int \<Rightarrow> u8 \<Rightarrow> u8 list \<Rightarrow> u32 list \<Rightarrow> memory \<Rightarrow>
    (u8 list \<times> u32 list \<times> u8 list \<times> nat set) option" where
  "convert_text flags width precision qualifier [] args m = None"
| "convert_text flags width precision qualifier (c # fmt) args m =
    (let number = (\<lambda>flags base. do {
       (a, args) \<leftarrow> va_arg args;
       Some (fmt, args, number_field (arg_number qualifier flags a) base width precision flags, {})
     })
     in if c = chr8 CHR ''c'' then do {
       (a, args) \<leftarrow> va_arg args;
       Some (fmt, args, text_field [ucast a] width flags, {})
     }
     else if c = chr8 CHR ''s'' then do {
       (s, args) \<leftarrow> va_arg args;
       (tx, reads) \<leftarrow> string_text m s precision;
       Some (fmt, args, text_field tx width flags, reads)
     }
     else if c = chr8 CHR ''p'' then do {
       (a, args) \<leftarrow> va_arg args;
       Some (fmt, args, (if width = - 1 then number_field a 16 8 precision (flags OR ZEROPAD)
         else number_field a 16 width precision flags), {})
     }
     else if c = chr8 CHR ''%'' then Some (fmt, args, [c], {})
     else if c = chr8 CHR ''o'' then number flags 8
     else if c = chr8 CHR ''X'' then number (flags OR LARGE) 16
     else if c = chr8 CHR ''x'' then number flags 16
     else if c = chr8 CHR ''d'' \<or> c = chr8 CHR ''i'' then number (flags OR SIGN) 10
     else if c = chr8 CHR ''u'' then number flags 10
     else if c = 0 then Some (c # fmt, args, [chr8 CHR ''%''], {})
     else Some (fmt, args, [chr8 CHR ''%'', c], {}))"

definition directive_text :: "u8 list \<Rightarrow> u32 list \<Rightarrow> memory \<Rightarrow>
    (u8 list \<times> u32 list \<times> u8 list \<times> nat set) option" where
  "directive_text fmt args m = do {
    (flags, fmt) \<leftarrow> parse_flags 0 fmt;
    (width, flags, fmt, args) \<leftarrow> parse_width flags fmt args;
    (precision, fmt, args) \<leftarrow> parse_precision fmt args;
    (qualifier, fmt) \<leftarrow> parse_qualifier fmt;
    convert_text flags width precision qualifier fmt args m
  }"

lemma convert_text_length:
  "convert_text f w p q s args m = Some (t, args', x, r) \<Longrightarrow> length t \<le> length s"
  by (cases s) (auto split: if_splits simp: Let_def)

lemma directive_text_length: "directive_text s args m = Some (t, args', x, r) \<Longrightarrow> length t \<le> length s"
  by (fastforce simp: directive_text_def dest: parse_flags_length parse_width_length parse_precision_length
      parse_qualifier_length convert_text_length)

function format_text :: "u8 list \<Rightarrow> u32 list \<Rightarrow> memory \<Rightarrow> (u8 list \<times> nat set) option" where
  "format_text [] args m = None"
| "format_text (c # fmt) args m =
    (if c = 0 then Some ([], {})
     else if c \<noteq> chr8 CHR ''%'' then map_option (\<lambda>(x, r). (c # x, r)) (format_text fmt args m)
     else case directive_text fmt args m of
       None \<Rightarrow> None
     | Some (fmt, args, x, r) \<Rightarrow> map_option (\<lambda>(y, r'). (x @ y, r \<union> r')) (format_text fmt args m))"
  by pat_completeness auto
termination
  by (relation "measure (\<lambda>(fmt, args, m). length fmt)") (auto dest: directive_text_length)

subsection \<open>Writing into the buffer\<close>

text \<open>
  After the text \<^verbatim>\<open>x\<close> has been put out, as much of it as fits is in the buffer, and the place
  of the next character has moved on by its length; behind a full buffer it may have moved further.
\<close>

definition printed :: "memory \<Rightarrow> nat \<Rightarrow> nat \<Rightarrow> u8 list \<Rightarrow> out \<Rightarrow> bool" where
  "printed m buf n x st \<longleftrightarrow>
    fst st = (\<lambda>a. if buf \<le> a \<and> a < buf + min (length x) n then x ! (a - buf) else m a) \<and>
    buf + length x \<le> snd st \<and> (length x \<le> n \<longrightarrow> snd st = buf + length x)"

lemma printed_Nil: "printed m buf n [] (m, buf)"
  by (auto simp: printed_def fun_eq_iff)

lemma printed_emit:
  assumes "printed m buf n x st" "0 < n"
  shows "printed m buf n (x @ [c]) (emit (buf + n - 1) c st)"
proof (cases "length x < n")
  case True
  then show ?thesis using assms
    by (cases st) (auto simp: printed_def emit_def fun_eq_iff nth_append)
next
  case False
  then have "buf + n \<le> snd st" using assms(1) by (simp add: printed_def)
  then have "\<not> snd st \<le> buf + n - 1" using assms(2) by simp
  then show ?thesis using assms(1) False
    by (cases st) (auto simp: printed_def emit_def fun_eq_iff nth_append min_def)
qed

lemma printed_extra:
  assumes "printed m buf n x st" "0 < n" "n < length x"
  shows "printed m buf n x (emit (buf + n - 1) c st)"
  using assms by (cases st) (auto simp: printed_def emit_def)

lemma printed_fold:
  "printed m buf n x st \<Longrightarrow> 0 < n \<Longrightarrow> printed m buf n (x @ y) (fold (emit (buf + n - 1)) y st)"
proof (induction y arbitrary: x st)
  case (Cons c y)
  then show ?case using Cons.IH [of "x @ [c]" "emit (buf + n - 1) c st"] printed_emit by simp
qed simp

lemma printed_fill:
  assumes "printed m buf n x st" "0 < n" "k' = k \<or> k' = k + 1 \<and> n < length x"
  shows "printed m buf n (x @ replicate (nat k) c) (fold (emit (buf + n - 1)) (replicate (nat k') c) st)"
proof (cases "nat k' = nat k")
  case True
  then show ?thesis using printed_fold [OF assms(1,2), of "replicate (nat k) c"] by simp
next
  case False
  then have k: "nat k' = Suc (nat k)" "n < length x" using assms(3) by auto
  have "replicate (nat k') c = replicate (nat k) c @ [c]"
    by (simp add: k replicate_append_same)
  then show ?thesis
    using printed_extra [OF printed_fold [OF assms(1,2), of "replicate (nat k) c"] assms(2)] k(2)
    by simp
qed

lemma emit_while_fold:
  "emit_while fin c k st = (if k > 0 then - 1 else k - 1, fold (emit fin) (replicate (nat k) c) st)"
proof (induction fin c k st rule: emit_while.induct)
  case (1 fin c k st)
  show ?case
  proof (cases "k > 0")
    case True
    then have "nat k = Suc (nat (k - 1))" by simp
    then show ?thesis using 1 True by (simp add: emit_while.simps [of fin c k])
  next
    case False
    then show ?thesis by (simp add: emit_while.simps [of fin c k])
  qed
qed

lemma emit_less_fold:
  "emit_less fin c l k st =
    (if l < k then l - 1 else k - 1, fold (emit fin) (replicate (nat (k - l)) c) st)"
proof (induction fin c l k st rule: emit_less.induct)
  case (1 fin c l k st)
  show ?case
  proof (cases "l < k")
    case True
    then have "nat (k - l) = Suc (nat (k - 1 - l))" by simp
    then show ?thesis using 1 True by (simp add: emit_less.simps [of fin c l k])
  next
    case False
    then show ?thesis by (simp add: emit_less.simps [of fin c l k])
  qed
qed

lemma emit_pre_fold:
  "emit_pre fin c k st = (if k > 1 then 0 else k - 1, fold (emit fin) (replicate (nat (k - 1)) c) st)"
proof (induction fin c k st rule: emit_pre.induct)
  case (1 fin c k st)
  show ?case
  proof (cases "k > 1")
    case True
    then have "nat (k - 1) = Suc (nat (k - 2))" by simp
    then show ?thesis using 1 True by (simp add: emit_pre.simps [of fin c k] Let_def)
  next
    case False
    then show ?thesis by (simp add: emit_pre.simps [of fin c k] Let_def)
  qed
qed

lemma put_digits_fold: "k \<le> length tmp \<Longrightarrow> put_digits fin tmp k st = fold (emit fin) (rev (take k tmp)) st"
  by (induction k arbitrary: st) (simp_all add: take_Suc_conv_app_nth)


subsection \<open>A number\<close>

lemma printf_flag_bits:
  "(ty AND ZEROPAD = 0) = (\<not> bit ty 0)" "(ty AND SIGN = 0) = (\<not> bit ty 1)"
  "(ty AND PLUS = 0) = (\<not> bit ty 2)" "(ty AND SPACE = 0) = (\<not> bit ty 3)"
  "(ty AND LEFT = 0) = (\<not> bit ty 4)" "(ty AND LARGE = 0) = (\<not> bit ty 6)"
  "(ty AND (ZEROPAD OR LEFT) = 0) = (\<not> bit ty 0 \<and> \<not> bit ty 4)" for ty :: u8
proof -
  have p: "(ty AND 2 ^ k = 0) = (\<not> bit ty k)" for k
    by (rule and_exp_eq_0_iff_not_bit)
  show "(ty AND ZEROPAD = 0) = (\<not> bit ty 0)" "(ty AND SIGN = 0) = (\<not> bit ty 1)"
    "(ty AND PLUS = 0) = (\<not> bit ty 2)" "(ty AND SPACE = 0) = (\<not> bit ty 3)"
    "(ty AND LEFT = 0) = (\<not> bit ty 4)" "(ty AND LARGE = 0) = (\<not> bit ty 6)"
    using p [of 0] p [of 1] p [of 2] p [of 3] p [of 4] p [of 6] by simp_all
  have "ty AND (ZEROPAD OR LEFT) = (ty AND ZEROPAD) OR (ty AND LEFT)"
    by (simp only: bit.conj_disj_distrib)
  then show "(ty AND (ZEROPAD OR LEFT) = 0) = (\<not> bit ty 0 \<and> \<not> bit ty 4)"
    using p [of 0] p [of 4] by (simp add: or_eq_0_iff)
qed

lemma number_sign_cases:
  "number_sign num (ty AND NOT ZEROPAD) = number_sign num ty"
proof -
  have "(ty AND NOT ZEROPAD) AND f = ty AND f" if "f AND ZEROPAD = 0" for f
    using that by (auto simp: bit_eq_iff bit_simps)
  then show ?thesis by (simp add: number_sign_def)
qed

lemma number_digits_text:
  "num \<noteq> 0 \<Longrightarrow> number_digits digits base num =
    rev (number_text digits (if base = 10 then 10 else 16) (unat num))"
proof (induction digits base num rule: number_digits.induct)
  case (1 digits base num)
  let ?b = "if base = 10 then 10 else 16 :: nat"
  let ?r = "snd (divide num base)"
  have d: "unat (fst (divide num base)) = unat num mod ?b" "unat ?r = unat num div ?b"
    by (simp_all add: divide_def unat_div unat_mod)
  show ?case
  proof (cases "?r = 0")
    case True
    then have "unat num < ?b" using d(2) by (auto simp: div_eq_0_iff split: if_splits)
    then show ?thesis using "1.prems" True d(1)
      by (simp add: number_digits.simps [of digits base] number_text.simps [of digits ?b])
  next
    case False
    then have "unat num div ?b \<noteq> 0" by (simp only: d(2) [symmetric] unat_eq_0 not_False_eq_True)
    then have "\<not> unat num < ?b" by (metis div_less)
    then have "number_text digits ?b (unat num) =
        number_text digits ?b (unat num div ?b) @ [digits ! (unat num mod ?b)]"
      by (simp add: number_text.simps [of digits ?b "unat num"])
    moreover have "number_digits digits base num = digits ! (unat num mod ?b) # number_digits digits base ?r"
      using "1.prems" by (simp only: number_digits.simps [of digits base num] d if_True not_False_eq_True)
    ultimately show ?thesis using "1.IH" [OF "1.prems" False] by (simp only: d rev_append) simp
  qed
qed

lemma digits_0: "small_digits ! 0 = chr8 CHR ''0''" "large_digits ! 0 = chr8 CHR ''0''"
  by (simp_all add: small_digits_def large_digits_def)

lemma printed_number:
  assumes p: "printed m buf n x st" and n: "0 < n"
  shows "printed m buf n (x @ number_field num base s precision ty)
    (print_number (buf + n - 1) num base s precision ty st)"
proof -
  let ?fin = "buf + n - 1" and ?sp = "chr8 CHR '' ''" and ?z = "chr8 CHR ''0''"
  define digits where "digits = (if ty AND LARGE \<noteq> 0 then large_digits else small_digits)"
  define b where "b = (if base = 10 then 10 else 16 :: nat)"
  obtain sign num' where sn: "number_sign num ty = (sign, num')" by fastforce
  define ds where "ds = number_text digits b (unat num')"
  define ty' where "ty' = (if ty AND LEFT \<noteq> 0 then ty AND NOT ZEROPAD else ty)"
  have ty': "bit ty' 4 = bit ty 4" "bit ty' 0 = (bit ty 0 \<and> \<not> bit ty 4)" "number_sign num ty' = (sign, num')"
    by (auto simp: ty'_def printf_flag_bits number_sign_cases [simplified] sn bit_simps)
  define tmp where "tmp = (if num' = 0 then [?z] else number_digits digits base num')"
  have tmp: "rev tmp = ds"
    by (auto simp: tmp_def ds_def number_digits_text b_def number_text.simps [of _ _ 0] digits_def digits_0)
  then have len: "length tmp = length ds" by (metis length_rev)
  define pr where "pr = (if int (length ds) > precision then int (length ds) else precision)"
  define zs where "zs = replicate (nat (precision - int (length ds))) ?z"
  have zs: "replicate (nat (pr - int (length ds))) ?z = zs" by (simp add: zs_def pr_def)
  have body: "int (length (zs @ ds)) = pr" by (simp add: zs_def pr_def)
  define sg where "sg = (if sign = 0 then [] else [sign])"
  define fill where "fill = nat (s - int (length sg) - pr)"
  define finish where "finish = (\<lambda>(k, st). snd (emit_while ?fin ?sp k (put_digits ?fin tmp (length tmp)
    (snd (emit_less ?fin ?z (int (length tmp)) pr st)))))"
  have put: "put_digits f tmp (length ds) st' = fold (emit f) ds st'" for f st'
    using put_digits_fold [of "length tmp" tmp f st'] by (simp add: tmp len)
  have finish: "finish (k, st') = fold (emit ?fin) (zs @ ds @ replicate (nat k) ?sp) st'" for k st'
    by (simp only: finish_def prod.case emit_while_fold emit_less_fold snd_conv
        put len zs fold_append comp_apply)
  have field: "number_field num base s precision ty =
    (if bit ty 4 then sg @ zs @ ds @ replicate fill ?sp
     else if bit ty 0 then sg @ replicate fill ?z @ zs @ ds
     else replicate fill ?sp @ sg @ zs @ ds)"
    unfolding number_field_def sn Let_def prod.case digits_def [symmetric] b_def [symmetric]
      ds_def [symmetric] zs_def [symmetric] sg_def [symmetric] body fill_def [symmetric]
    by (simp add: printf_flag_bits)
  define after_sign where "after_sign = (\<lambda>(k, st). if sign \<noteq> 0
    then (if snd st \<le> ?fin then k - 1 else k, emit ?fin sign st) else (k :: int, st))"
  have pr: "(if int (length tmp) > precision then int (length tmp) else precision) = pr"
    by (simp add: pr_def len)
  have unf: "print_number ?fin num base s precision ty st =
    (case (if \<not> (bit ty 0 \<and> \<not> bit ty 4) \<and> \<not> bit ty 4
           then emit_while ?fin ?sp (if sign \<noteq> 0 \<and> s - pr > 0 then s - pr - 1 else s - pr) st
           else (s - pr, st)) of (k, st) \<Rightarrow>
     case after_sign (k, st) of (k, st) \<Rightarrow>
     case (if \<not> bit ty 4 then emit_while ?fin (if bit ty 0 \<and> \<not> bit ty 4 then ?z else ?sp) k st
           else (k, st)) of (k, st) \<Rightarrow>
     finish (k, st))"
    unfolding print_number_def Let_def ty'_def [symmetric] digits_def [symmetric] ty'(3) prod.case
      tmp_def [symmetric] pr finish_def after_sign_def
    by (simp only: printf_flag_bits ty' not_not prod.case)
  have after: "\<exists>k' st2. after_sign (k, st1) = (k', st2) \<and> printed m buf n (y @ sg) st2 \<and>
      (k' = k - int (length sg) \<or> k' = k - int (length sg) + 1 \<and> n < length (y @ sg))"
    if "printed m buf n y st1" for k st1 y
  proof (cases "sign = 0")
    case True
    then show ?thesis using that by (simp add: after_sign_def sg_def)
  next
    case False
    have "n \<le> length y" if "\<not> snd st1 \<le> ?fin"
      using that \<open>printed m buf n y st1\<close> n by (auto simp: printed_def)
    then show ?thesis
      using False printed_emit [OF that n, of sign] by (auto simp: after_sign_def sg_def)
  qed
  consider "bit ty 4" | "\<not> bit ty 4" "bit ty 0" | "\<not> bit ty 4" "\<not> bit ty 0" by blast
  then show ?thesis
  proof cases
    case 1
    obtain k st2 where k: "after_sign (s - pr, st) = (k, st2)" "printed m buf n (x @ sg) st2"
        "k = s - pr - int (length sg) \<or> k = s - pr - int (length sg) + 1 \<and> n < length (x @ sg)"
      using after [OF p] by blast
    have "printed m buf n (((x @ sg) @ zs @ ds) @ replicate (nat (s - pr - int (length sg))) ?sp)
        (fold (emit ?fin) (replicate (nat k) ?sp) (fold (emit ?fin) (zs @ ds) st2))"
      by (rule printed_fill [OF printed_fold [OF k(2) n] n]) (use k(3) in auto)
    moreover have "s - pr - int (length sg) = s - int (length sg) - pr" by simp
    moreover have "print_number ?fin num base s precision ty st = finish (k, st2)"
      using 1 by (simp only: unf k(1) prod.case if_False not_True_eq_False simp_thms)
    ultimately show ?thesis using 1 by (simp add: field finish fill_def)
  next
    case 2
    obtain k st2 where k: "after_sign (s - pr, st) = (k, st2)" "printed m buf n (x @ sg) st2"
        "k = s - pr - int (length sg) \<or> k = s - pr - int (length sg) + 1 \<and> n < length (x @ sg)"
      using after [OF p] by blast
    have "printed m buf n (((x @ sg) @ replicate (nat (s - pr - int (length sg))) ?z) @ zs @ ds)
        (fold (emit ?fin) (zs @ ds) (fold (emit ?fin) (replicate (nat k) ?z) st2))"
      by (rule printed_fold [OF printed_fill [OF k(2) n k(3)] n])
    moreover have "s - pr - int (length sg) = s - int (length sg) - pr" by simp
    moreover have "print_number ?fin num base s precision ty st =
        finish (if k > 0 then - 1 else k - 1, fold (emit ?fin) (replicate (nat k) ?z) st2)"
      using 2 by (simp only: unf k(1) prod.case if_True if_False not_True_eq_False not_False_eq_True
          simp_thms emit_while_fold)
    ultimately show ?thesis using 2 by (simp add: field finish fill_def)
  next
    case 3
    let ?k1 = "if sign \<noteq> 0 \<and> s - pr > 0 then s - pr - 1 else s - pr"
    let ?st1 = "fold (emit ?fin) (replicate (nat ?k1) ?sp) st"
    let ?k = "if ?k1 > 0 then - 1 else ?k1 - 1"
    have fill: "nat ?k1 = fill" by (auto simp: fill_def sg_def)
    have "printed m buf n (x @ replicate fill ?sp) ?st1"
      unfolding fill by (rule printed_fold [OF p n])
    then obtain k st2 where k: "after_sign (?k, ?st1) = (k, st2)"
        "printed m buf n ((x @ replicate fill ?sp) @ sg) st2"
        "k = ?k - int (length sg) \<or> k = ?k - int (length sg) + 1"
      using after by blast
    have "k < 1" using k(3) by auto
    then have k': "nat k = 0" "nat (if k > 0 then - 1 else k - 1) = 0" by simp_all
    have "print_number ?fin num base s precision ty st =
        finish (if k > 0 then - 1 else k - 1, fold (emit ?fin) (replicate (nat k) ?sp) st2)"
      using 3 by (simp only: unf emit_while_fold k(1) prod.case if_True if_False not_True_eq_False
          not_False_eq_True simp_thms)
    then have "print_number ?fin num base s precision ty st = fold (emit ?fin) (zs @ ds) st2"
      by (simp only: finish k' replicate_0 fold_simps id_apply append_Nil2)
    then show ?thesis
      using 3 printed_fold [OF k(2) n, of "zs @ ds"] by (simp add: field)
  qed
qed

subsection \<open>A conversion and the whole format\<close>

lemma printed_char:
  assumes p: "printed m buf n x st" and n: "0 < n"
  shows "printed m buf n (x @ text_field [c] width flags) (convert_char (buf + n - 1) flags width c st)"
proof -
  let ?sp = "replicate (nat (width - 1)) (chr8 CHR '' '')"
  have zero: "nat ((if width > 1 then 0 else width - 1) - 1) = 0" by simp
  show ?thesis
  proof (cases "flags AND LEFT = 0")
    case True
    have "printed m buf n ((x @ ?sp) @ [c]) (emit (buf + n - 1) c (fold (emit (buf + n - 1)) ?sp st))"
      by (rule printed_emit [OF printed_fold [OF p n] n])
    then show ?thesis
      using True by (simp only: convert_char_def emit_pre_fold Let_def prod.case if_True zero
          replicate_0 fold_simps id_apply snd_conv text_field_def list.size One_nat_def
          of_nat_1 of_nat_Suc of_nat_0 add_0_left) simp
  next
    case False
    have "printed m buf n ((x @ [c]) @ ?sp) (fold (emit (buf + n - 1)) ?sp (emit (buf + n - 1) c st))"
      by (rule printed_fold [OF printed_emit [OF p n] n])
    then show ?thesis using False by (simp add: convert_char_def emit_pre_fold text_field_def Let_def)
  qed
qed

lemma mem_strlen_agree:
  "mem_strlen m a = Some k \<Longrightarrow> (\<forall>i. a \<le> i \<and> i \<le> a + k \<longrightarrow> m' i = m i) \<Longrightarrow> mem_strlen m' a = Some k"
proof (induction m a arbitrary: k rule: mem_strlen.induct)
  case (1 m a)
  have a: "m' a = m a" using "1.prems"(2) by simp
  show ?case
  proof (cases "m a = 0")
    case True
    then show ?thesis
      using "1.prems"(1) a by (simp add: mem_strlen.simps [of m a] mem_strlen.simps [of m' a] split: if_splits)
  next
    case False
    then obtain j where j: "\<not> a \<ge> 2 ^ 32" "mem_strlen m (a + 1) = Some j" "k = Suc j"
      using "1.prems"(1) by (auto simp: mem_strlen.simps [of m a] split: if_splits)
    have "\<forall>i. a + 1 \<le> i \<and> i \<le> a + 1 + j \<longrightarrow> m' i = m i" using "1.prems"(2) j(3) by simp
    then have "mem_strlen m' (a + 1) = Some j" using "1.IH" j(1,2) False by blast
    then show ?thesis using False a j by (simp add: mem_strlen.simps [of m' a])
  qed
qed

lemma printed_outside: "printed m buf n x st \<Longrightarrow> a \<notin> {buf..<buf + n} \<Longrightarrow> fst st a = m a"
  by (auto simp: printed_def)

lemma printed_emit_string:
  "printed m buf n x st \<Longrightarrow> 0 < n \<Longrightarrow> (\<forall>i. a \<le> i \<and> i < a + k \<longrightarrow> i \<notin> {buf..<buf + n}) \<Longrightarrow>
    printed m buf n (x @ map m [a..<a + k]) (emit_string (buf + n - 1) a k st)"
proof (induction k arbitrary: a x st)
  case (Suc k)
  have "fst st a = m a" using Suc.prems by (intro printed_outside) auto
  then have "printed m buf n (x @ [m a]) (emit (buf + n - 1) (fst st a) st)"
    using printed_emit [OF Suc.prems(1,2)] by simp
  then have "printed m buf n ((x @ [m a]) @ map m [a + 1..<a + 1 + k]) (emit_string (buf + n - 1) a (Suc k) st)"
    using Suc.IH [of "x @ [m a]" "emit (buf + n - 1) (fst st a) st" "a + 1"] Suc.prems by simp
  moreover have "[a..<a + Suc k] = a # [a + 1..<a + 1 + k]" by (simp add: upt_conv_Cons)
  ultimately show ?case by simp
qed simp

lemma printed_text_field:
  assumes p: "printed m buf n x st" and n: "0 < n" and len: "int (length tx) = len"
    and put: "\<And>y st. printed m buf n y st \<Longrightarrow> printed m buf n (y @ tx) (put st)"
  shows "printed m buf n (x @ text_field tx width flags)
    (let (width, st) = (if flags AND LEFT = 0 then emit_less (buf + n - 1) (chr8 CHR '' '') len width st
       else (width, st))
     in snd (emit_less (buf + n - 1) (chr8 CHR '' '') len width (put st)))"
proof -
  let ?sp = "replicate (nat (width - len)) (chr8 CHR '' '')"
  show ?thesis
  proof (cases "flags AND LEFT = 0")
    case True
    have "nat ((if len < width then len - 1 else width - 1) - len) = 0" by simp
    then show ?thesis
      using True put [OF printed_fold [OF p n, of ?sp]] len
      by (simp only: emit_less_fold Let_def prod.case if_True replicate_0 fold_simps id_apply snd_conv
          text_field_def) simp
  next
    case False
    have "printed m buf n ((x @ tx) @ ?sp) (fold (emit (buf + n - 1)) ?sp (put st))"
      by (rule printed_fold [OF put [OF p] n])
    then show ?thesis using False len by (simp add: emit_less_fold text_field_def Let_def)
  qed
qed

lemma printed_string:
  assumes p: "printed m buf n x st" and n: "0 < n"
    and tx: "string_text m s precision = Some (tx, reads)" "reads \<inter> {buf..<buf + n} = {}"
  shows "\<exists>st'. convert_string (buf + n - 1) flags width precision s st = Some st' \<and>
    printed m buf n (x @ text_field tx width flags) st'"
proof -
  let ?cut = "\<lambda>k. if precision > 0 \<and> int k > precision then precision else int k"
  show ?thesis
  proof (cases "s = 0")
    case True
    have len: "int (length tx) = ?cut (length null_string)"
      using tx(1) True by (auto simp: string_text_def)
    have null: "take (nat (?cut (length null_string))) null_string = tx"
      using tx(1) True by (auto simp: string_text_def)
    note put = printed_text_field [OF p n len, of "fold (emit (buf + n - 1)) tx" width flags]
    show ?thesis
      unfolding convert_string_def
      by (simp only: True simp_thms if_True bind.bind_lunit Let_def null)
        (intro exI conjI, rule refl, rule put [unfolded Let_def], erule printed_fold [OF _ n])
  next
    case False
    obtain k where k: "mem_strlen m (unat s) = Some k"
        "tx = (if precision > 0 then take (nat precision) (map m [unat s..<unat s + k])
          else map m [unat s..<unat s + k])" "reads = {unat s..unat s + k}"
      using tx(1) False by (auto simp: string_text_def Let_def)
    have agree: "mem_strlen (fst st) (unat s) = Some k"
    proof (rule mem_strlen_agree [OF k(1)], intro allI impI)
      fix i
      assume "unat s \<le> i \<and> i \<le> unat s + k"
      then have "i \<notin> {buf..<buf + n}" using tx(2) k(3) by auto
      then show "fst st i = m i" by (rule printed_outside [OF p])
    qed
    have len: "int (length tx) = ?cut k" using k(2) by auto
    have tx': "tx = map m [unat s..<unat s + nat (?cut k)]"
      using k(2) by (auto simp: take_map min_def)
    have put: "printed m buf n (y @ tx) (emit_string (buf + n - 1) (unat s) (nat (?cut k)) st')"
      if "printed m buf n y st'" for y st'
      unfolding tx'
    proof (rule printed_emit_string [OF that n], intro allI impI)
      fix i
      assume "unat s \<le> i \<and> i < unat s + nat (?cut k)"
      then have "i \<in> reads" using k(3) by (auto split: if_splits)
      then show "i \<notin> {buf..<buf + n}" using tx(2) by auto
    qed
    show ?thesis
      unfolding convert_string_def
      by (simp only: False if_False agree bind.bind_lunit Let_def)
        (intro exI conjI, rule refl, rule printed_text_field [OF p n len, unfolded Let_def], erule put)
  qed
qed

lemma printed_convert:
  assumes p: "printed m buf n x st" and n: "0 < n"
    and tx: "convert_text flags width precision qualifier s args m = Some (t, args', y, reads)"
    and reads: "reads \<inter> {buf..<buf + n} = {}"
  shows "\<exists>st'. convert (buf + n - 1) flags width precision qualifier s args st = Some (t, args', st') \<and>
    printed m buf n (x @ y) st'"
proof (cases s)
  case Nil
  then show ?thesis using tx by simp
next
  case (Cons c fmt)
  note num = printed_number [OF p n]
  show ?thesis
  proof (cases "c = chr8 CHR ''s''")
    case True
    then obtain a tx' where a: "va_arg args = Some (a, args')" "string_text m a precision = Some (tx', reads)"
        "y = text_field tx' width flags" "t = fmt"
      using tx Cons by (auto simp: Let_def)
    then show ?thesis using printed_string [OF p n a(2) reads] True Cons by auto
  next
    case False
    then show ?thesis
      using tx Cons num printed_char [OF p n] printed_emit [OF p n] printed_emit [OF printed_emit [OF p n] n]
      by (simp add: Let_def convert_number_def split: if_splits del: split_paired_Ex)
        (auto simp del: split_paired_Ex)
  qed
qed


lemma printed_directive:
  assumes p: "printed m buf n x st" and n: "0 < n"
    and tx: "directive_text s args m = Some (t, args', y, reads)" "reads \<inter> {buf..<buf + n} = {}"
  shows "\<exists>st'. directive (buf + n - 1) s args st = Some (t, args', st') \<and> printed m buf n (x @ y) st'"
proof -
  obtain flags s1 width flags' s2 args2 precision s3 args3 qualifier s4 where
    parse: "parse_flags 0 s = Some (flags, s1)" "parse_width flags s1 args = Some (width, flags', s2, args2)"
      "parse_precision s2 args2 = Some (precision, s3, args3)" "parse_qualifier s3 = Some (qualifier, s4)"
    and conv: "convert_text flags' width precision qualifier s4 args3 m = Some (t, args', y, reads)"
    using tx(1) by (auto simp: directive_text_def)
  show ?thesis
    using printed_convert [OF p n conv tx(2)] parse by (simp add: directive_def del: split_paired_Ex)
qed

lemma printed_format:
  assumes "printed m buf n x st" "0 < n" "format_text s args m = Some (y, reads)"
    "reads \<inter> {buf..<buf + n} = {}"
  shows "\<exists>st'. format_loop (buf + n - 1) s args st = Some st' \<and> printed m buf n (x @ y) st'"
  using assms
proof (induction s args m arbitrary: x st y reads rule: format_text.induct)
  case (1 args m)
  then show ?case by simp
next
  case (2 c s args m)
  note p = "2.prems"(1) and n = "2.prems"(2)
  consider (nul) "c = 0" | (plain) "c \<noteq> 0" "c \<noteq> chr8 CHR ''%''" | (dir) "c = chr8 CHR ''%''" "c \<noteq> 0"
    by blast
  then show ?case
  proof cases
    case nul
    then show ?thesis using "2.prems" by (simp del: split_paired_Ex)
  next
    case plain
    then obtain z where z: "format_text s args m = Some (z, reads)" "y = c # z"
      using "2.prems"(3) by auto
    show ?thesis
      using "2.IH"(1) [OF plain printed_emit [OF p n, of c] n z(1) "2.prems"(4)] plain z(2)
      by (simp del: split_paired_Ex)
  next
    case dir
    obtain t args' u r where d: "directive_text s args m = Some (t, args', u, r)"
      using "2.prems"(3) dir by (cases "directive_text s args m") auto
    then obtain z r' where z: "format_text t args' m = Some (z, r')" "y = u @ z" "reads = r \<union> r'"
      using "2.prems"(3) dir by auto
    obtain st' where st': "directive (buf + n - 1) s args st = Some (t, args', st')"
        "printed m buf n (x @ u) st'"
      using printed_directive [OF p n d] "2.prems"(4) z(3) by auto
    have "r' \<inter> {buf..<buf + n} = {}" using "2.prems"(4) z(3) by auto
    then show ?thesis
      using "2.IH"(2) [OF dir(2) _ d refl refl refl st'(2) n z(1)] dir st'(1) z(2)
      by (simp del: split_paired_Ex)
  qed
qed

lemma rt_vsnprintf_run:
  assumes n: "0 < sz" "buf + unat sz \<le> 2 ^ 32"
    and tx: "format_text fmt args m = Some (y, reads)" "reads \<inter> {buf..<buf + unat sz} = {}"
  defines "k \<equiv> min (length y) (unat sz - 1)"
  shows "\<exists>r m'. rt_vsnprintf buf sz fmt args m = Some (r, m') \<and>
    map m' [buf..<buf + k] = take k y \<and> m' (buf + k) = 0 \<and>
    (\<forall>a. a < buf \<or> buf + unat sz \<le> a \<longrightarrow> m' a = m a) \<and>
    length y \<le> r \<and> (length y \<le> unat sz \<longrightarrow> r = length y)"
proof -
  have pos: "0 < unat sz" using n(1) by (simp add: unat_gt_0)
  have fin: "(int buf + uint sz - 1) mod 2 ^ 32 = int (buf + unat sz - 1)"
  proof -
    have "int buf + uint sz - 1 = int (buf + unat sz - 1)" using pos by simp
    moreover have "int (buf + unat sz - 1) < 2 ^ 32"
      unfolding of_nat_less_numeral_power_cancel_iff using n(2) pos by simp
    ultimately show ?thesis by (simp only: mod_pos_pos_trivial of_nat_0_le_iff)
  qed
  have fin2: "(if int (buf + unat sz - 1) < int buf then 2 ^ 32 - 1 else nat (int (buf + unat sz - 1))) =
      buf + unat sz - 1"
    unfolding of_nat_less_iff nat_int using pos by simp
  obtain m1 str where st: "format_loop (buf + unat sz - 1) fmt args (m, buf) = Some (m1, str)"
      "printed m buf (unat sz) y (m1, str)"
    using printed_format [OF printed_Nil pos tx] by auto
  define m' where "m' = (if str \<le> buf + unat sz - 1 then m1(str := 0) else m1(buf + unat sz - 1 := 0))"
  have run: "rt_vsnprintf buf sz fmt args m = Some (str - buf, m')"
    unfolding rt_vsnprintf_def Let_def fin fin2
    by (simp only: st(1) bind.bind_lunit prod.case m'_def)
  have m1: "m1 = (\<lambda>a. if buf \<le> a \<and> a < buf + min (length y) (unat sz) then y ! (a - buf) else m a)"
    and str: "buf + length y \<le> str" "length y \<le> unat sz \<longrightarrow> str = buf + length y"
    using st(2) by (auto simp: printed_def)
  have m'_k: "m' = m1(buf + k := 0)"
  proof (cases "length y < unat sz")
    case True
    then show ?thesis using str by (auto simp: m'_def k_def min_def)
  next
    case False
    then have "\<not> str \<le> buf + unat sz - 1" using str pos by auto
    moreover have "k = unat sz - 1" unfolding k_def using False pos by (intro min_absorb2) linarith
    then have "buf + unat sz - 1 = buf + k" using pos by simp
    ultimately show ?thesis by (simp only: m'_def if_False)
  qed
  have "map m' [buf..<buf + k] = take k y"
    by (rule nth_equalityI) (auto simp: m'_k m1 k_def)
  moreover have "\<forall>a. a < buf \<or> buf + unat sz \<le> a \<longrightarrow> m' a = m a"
    using pos by (auto simp: m'_k m1 k_def)
  ultimately show ?thesis using run str by (auto simp: m'_k)
qed



subsection \<open>Reading a number back\<close>

lemma isdigit8_digit: "d < 10 \<Longrightarrow> isdigit8 (small_digits ! d) \<and> uint (small_digits ! d) = 48 + int d"
proof -
  assume "d < 10"
  then have "d = 0 \<or> d = 1 \<or> d = 2 \<or> d = 3 \<or> d = 4 \<or> d = 5 \<or> d = 6 \<or> d = 7 \<or> d = 8 \<or> d = 9" by auto
  then show ?thesis by (elim disjE) (simp_all add: small_digits_def isdigit8_def)
qed

lemma skip_atoi_text:
  "skip_atoi i (number_text small_digits 10 n @ s) =
    skip_atoi (i * 10 ^ length (number_text small_digits 10 n) + int n) s"
proof (induction n arbitrary: s rule: less_induct)
  case (less n)
  show ?case
  proof (cases "n < 10")
    case True
    then show ?thesis using isdigit8_digit [OF True] by (simp add: number_text.simps [of small_digits 10 n])
  next
    case False
    have d: "n mod 10 < 10" by simp
    have "number_text small_digits 10 n = number_text small_digits 10 (n div 10) @ [small_digits ! (n mod 10)]"
      using False by (simp add: number_text.simps [of small_digits 10 n])
    moreover have "int n = int (n div 10) * 10 + int (n mod 10)" 
      using div_mult_mod_eq [of n 10] by (metis of_nat_add of_nat_mult of_nat_numeral)
    ultimately show ?thesis
      using less.IH [of "n div 10" "small_digits ! (n mod 10) # s"] False isdigit8_digit [OF d]
      by (simp add: algebra_simps)
  qed
qed

lemma number_text_length: "n < 10 ^ Suc k \<Longrightarrow> length (number_text digits 10 n) \<le> Suc k"
proof (induction k arbitrary: n)
  case 0
  then show ?case by (simp add: number_text.simps [of digits 10 n])
next
  case (Suc k)
  show ?case
  proof (cases "n < 10")
    case True
    then show ?thesis by (simp add: number_text.simps [of digits 10 n])
  next
    case False
    have "n div 10 < 10 ^ Suc k" using Suc.prems by (simp add: less_mult_imp_div_less ac_simps)
    then show ?thesis using Suc.IH [of "n div 10"] False by (simp add: number_text.simps [of digits 10 n])
  qed
qed

text \<open>
  What \<open>%u\<close> prints for a 32-bit number \<open>skip_atoi\<close> reads back: the number, up to the NUL. Eleven
  bytes of buffer are enough for every number.\<close>

theorem printed_number_reads_back:
  assumes "11 \<le> sz" "buf + unat sz \<le> 2 ^ 32"
  shows "\<exists>r m'. rt_vsnprintf buf sz (map of_char ''%u'' @ [0]) [x] m = Some (r, m') \<and>
    skip_atoi 0 (map m' [buf..<buf + r + 1]) = Some (uint x, [0]) \<and>
    (\<forall>a. a < buf \<or> buf + unat sz \<le> a \<longrightarrow> m' a = m a)"
proof -
  let ?y = "number_text small_digits 10 (unat x)"
  have pos: "0 < sz" "11 \<le> unat sz"
    using assms(1) by (auto simp: word_le_nat_alt unat_gt_0 intro: order_less_le_trans [of 0 11])
  have tx: "format_text (map of_char ''%u'' @ [0]) [x] m = Some (?y, {})"
    by (simp add: directive_text_def number_field_def number_sign_def arg_number_def isdigit8_def Let_def)
  have "unat x < 10 ^ Suc 9"
    using order_less_trans [OF unsigned_less [of x, where ?'a = nat], of "10 ^ Suc 9"] by simp
  then have len: "length ?y \<le> 10" using number_text_length [of "unat x" 9 small_digits] by simp
  then have k: "min (length ?y) (unat sz - 1) = length ?y" "length ?y \<le> unat sz" using pos(2) by simp_all
  obtain r m' where r: "rt_vsnprintf buf sz (map of_char ''%u'' @ [0]) [x] m = Some (r, m')"
      "map m' [buf..<buf + length ?y] = ?y" "m' (buf + length ?y) = 0"
      "\<forall>a. a < buf \<or> buf + unat sz \<le> a \<longrightarrow> m' a = m a" "r = length ?y"
    using rt_vsnprintf_run [OF pos(1) assms(2) tx, unfolded k(1)] k(2) by auto
  have "map m' [buf..<buf + r + 1] = ?y @ [0]" using r(2,3,5) by simp
  moreover have "skip_atoi 0 (?y @ [0]) = Some (uint x, [0])"
    by (simp add: skip_atoi_text isdigit8_def)
  ultimately show ?thesis using r(1,4) by auto
qed

theorem printed_number_reads_back_witness:
  "\<exists>r m'. rt_vsnprintf 100 16 (map of_char ''%u'' @ [0]) [4294967295] (\<lambda>_. 0) = Some (r, m') \<and>
    skip_atoi 0 (map m' [100..<100 + r + 1]) = Some (4294967295, [0])"
proof -
  have "11 \<le> (16 :: u32)" "100 + unat (16 :: u32) \<le> 2 ^ 32" by simp_all
  from printed_number_reads_back [OF this, of 4294967295 "\<lambda>_. 0"] show ?thesis by auto
qed

text \<open>
  Three things a caller may not expect: \<open>%o\<close> prints hexadecimal digits, a signed field behind
  the end of the buffer counts one character too many, and a buffer of length 0 is written to.\<close>

lemma octal_is_hexadecimal:
  "format_text (map of_char ''%o'' @ [0]) [n] m = format_text (map of_char ''%x'' @ [0]) [n] m"
  by (simp add: directive_text_def number_field_def isdigit8_def Let_def)

lemma truncated_length_too_long:
  "map_option fst (rt_vsnprintf 100 2 (map of_char ''ab%-5d'' @ [0]) [- 1] (\<lambda>_. 0)) = Some 8"
  by (simp add: rt_vsnprintf_def directive_def convert_number_def print_number_def number_sign_def
      emit_def emit_while.simps emit_less.simps number_digits.simps divide_def small_digits_def isdigit8_def
      arg_number_def Let_def)

lemma truncated_text:
  "map_option (length o fst) (format_text (map of_char ''ab%-5d'' @ [0]) [- 1] (\<lambda>_. 0)) = Some 7"
  by (simp add: directive_text_def number_field_def number_sign_def arg_number_def isdigit8_def
      number_text.simps [of _ _ "Suc 0"] text_field_def Let_def)

lemma no_buffer_is_written:
  "rt_vsnprintf 100 0 (map of_char ''ab'' @ [0]) [] m = Some (2, m(100 := 97, 101 := 98, 102 := 0))"
  by (simp add: rt_vsnprintf_def emit_def Let_def)

end
