(* ===== verification/RtMem.thy ===== *)
theory RtMem
  imports Prelude
begin

text \<open>
  The small-memory heap of \<^verbatim>\<open>src/mem.c\<close>: a run of blocks, each with a \<open>heap_mem\<close> header,
  from offset 0 up to the closing header \<open>heap_end\<close>. Offsets and sizes are 32-bit values
  read as \<open>nat\<close>, with the wrap-around of the unsigned subtractions and additions written
  out; block contents are the bytes of \<open>heap_bytes\<close>, by address. A call is one atomic step:
  \<open>heap_sem\<close> keeps a second caller out until the first has left.
\<close>

subsection \<open>State\<close>

record heap_mem =
  hm_magic :: nat
  hm_used :: nat
  hm_next :: nat
  hm_prev :: nat

record heap_state =
  heap_ptr :: nat
  heap_mems :: "nat \<Rightarrow> heap_mem"
  heap_end :: nat
  lfree :: nat
  mem_size_aligned :: nat
  used_mem :: nat
  max_mem :: nat
  heap_bytes :: "nat \<Rightarrow> u8"

abbreviation HEAP_MAGIC :: nat where "HEAP_MAGIC \<equiv> 0x1ea0"
abbreviation SIZEOF_STRUCT_MEM :: nat where "SIZEOF_STRUCT_MEM \<equiv> 12"
abbreviation MIN_SIZE_ALIGNED :: nat where "MIN_SIZE_ALIGNED \<equiv> 12"

definition sub32 :: "nat \<Rightarrow> nat \<Rightarrow> nat" where
  "sub32 a b = (a + 2 ^ 32 - b) mod 2 ^ 32"

definition add32 :: "nat \<Rightarrow> nat \<Rightarrow> nat" where
  "add32 a b = (a + b) mod 2 ^ 32"

definition mem_at :: "nat \<Rightarrow> (heap_mem \<Rightarrow> heap_mem) \<Rightarrow> heap_state \<Rightarrow> heap_state" where
  "mem_at p f h = h\<lparr>heap_mems := (heap_mems h)(p := f (heap_mems h p))\<rparr>"

abbreviation nxt :: "heap_state \<Rightarrow> nat \<Rightarrow> nat" where "nxt h p \<equiv> hm_next (heap_mems h p)"
abbreviation prv :: "heap_state \<Rightarrow> nat \<Rightarrow> nat" where "prv h p \<equiv> hm_prev (heap_mems h p)"
abbreviation usd :: "heap_state \<Rightarrow> nat \<Rightarrow> nat" where "usd h p \<equiv> hm_used (heap_mems h p)"

subsection \<open>Operations\<close>

definition rt_system_heap_init :: "u32 \<Rightarrow> u32 \<Rightarrow> heap_state \<Rightarrow> heap_state" where
  "rt_system_heap_init begin_addr end_addr h =
     (let begin_align = unat (RT_ALIGN begin_addr RT_ALIGN_SIZE);
          end_align = unat (RT_ALIGN_DOWN end_addr RT_ALIGN_SIZE)
      in if end_align > 2 * SIZEOF_STRUCT_MEM \<and> end_align - 2 * SIZEOF_STRUCT_MEM \<ge> begin_align
         then let msize = end_align - begin_align - 2 * SIZEOF_STRUCT_MEM;
                  e = msize + SIZEOF_STRUCT_MEM;
                  h1 = h\<lparr>mem_size_aligned := msize, heap_ptr := begin_align\<rparr>;
                  h2 = mem_at 0 (\<lambda>_. \<lparr>hm_magic = HEAP_MAGIC, hm_used = 0, hm_next = e, hm_prev = 0\<rparr>) h1;
                  h3 = mem_at e (\<lambda>_. \<lparr>hm_magic = HEAP_MAGIC, hm_used = 1, hm_next = e, hm_prev = e\<rparr>) h2
              in h3\<lparr>heap_end := e, lfree := 0\<rparr>
         else h)"

text \<open>\<open>plug_holes\<close> joins a freed block with a free neighbour on either side.\<close>

definition plug_forward :: "nat \<Rightarrow> heap_state \<Rightarrow> heap_state" where
  "plug_forward mem h =
     (let nmem = nxt h mem
      in if mem \<noteq> nmem \<and> usd h nmem = 0 \<and> nmem \<noteq> heap_end h
         then let h1 = (if lfree h = nmem then h\<lparr>lfree := mem\<rparr> else h);
                  h2 = mem_at mem (hm_next_update (\<lambda>_. nxt h1 nmem)) h1
              in mem_at (nxt h2 nmem) (hm_prev_update (\<lambda>_. mem)) h2
         else h)"

definition plug_backward :: "nat \<Rightarrow> heap_state \<Rightarrow> heap_state" where
  "plug_backward mem h =
     (let pmem = prv h mem
      in if pmem \<noteq> mem \<and> usd h pmem = 0
         then let h1 = (if lfree h = mem then h\<lparr>lfree := pmem\<rparr> else h);
                  h2 = mem_at pmem (hm_next_update (\<lambda>_. nxt h1 mem)) h1
              in mem_at (nxt h2 mem) (hm_prev_update (\<lambda>_. pmem)) h2
         else h)"

definition plug_holes :: "nat \<Rightarrow> heap_state \<Rightarrow> heap_state option" where
  "plug_holes mem h =
     (if mem < heap_end h \<and> usd h mem = 0
      then Some (plug_backward mem (plug_forward mem h)) else None)"

text \<open>The two loops of \<open>rt_malloc\<close>: the search for a block, and the walk of \<open>lfree\<close>.\<close>

partial_function (option) malloc_search :: "heap_state \<Rightarrow> nat \<Rightarrow> nat \<Rightarrow> nat option option" where
  "malloc_search h sz ptr =
     (if ptr < sub32 (mem_size_aligned h) sz
      then if usd h ptr = 0 \<and> sub32 (nxt h ptr) (add32 ptr SIZEOF_STRUCT_MEM) \<ge> sz
           then Some (Some ptr)
           else malloc_search h sz (nxt h ptr)
      else Some None)"

partial_function (option) lfree_walk :: "heap_state \<Rightarrow> nat \<Rightarrow> nat option" where
  "lfree_walk h p =
     (if usd h p \<noteq> 0 \<and> p \<noteq> heap_end h then lfree_walk h (nxt h p) else Some p)"

definition count_used :: "nat \<Rightarrow> heap_state \<Rightarrow> heap_state" where
  "count_used n h =
     (let u = add32 (used_mem h) n
      in h\<lparr>used_mem := u, max_mem := (if max_mem h < u then u else max_mem h)\<rparr>)"

definition malloc_split :: "nat \<Rightarrow> nat \<Rightarrow> heap_state \<Rightarrow> heap_state" where
  "malloc_split ptr sz h =
     (if sub32 (nxt h ptr) (add32 ptr SIZEOF_STRUCT_MEM) \<ge> sz + SIZEOF_STRUCT_MEM + MIN_SIZE_ALIGNED
      then let ptr2 = ptr + SIZEOF_STRUCT_MEM + sz;
               h1 = mem_at ptr2 (\<lambda>m. m\<lparr>hm_used := 0, hm_next := nxt h ptr, hm_prev := ptr\<rparr>) h;
               h2 = mem_at ptr (\<lambda>m. m\<lparr>hm_next := ptr2, hm_used := 1\<rparr>) h1;
               h3 = (if nxt h2 ptr2 \<noteq> mem_size_aligned h2 + SIZEOF_STRUCT_MEM
                     then mem_at (nxt h2 ptr2) (hm_prev_update (\<lambda>_. ptr2)) h2 else h2)
           in count_used (sz + SIZEOF_STRUCT_MEM) h3
      else let h1 = mem_at ptr (hm_used_update (\<lambda>_. 1)) h
           in count_used (sub32 (nxt h1 ptr) ptr) h1)"

definition malloc_take :: "nat \<Rightarrow> nat \<Rightarrow> heap_state \<Rightarrow> (nat option \<times> heap_state) option" where
  "malloc_take ptr sz h =
     (let h1 = mem_at ptr (hm_magic_update (\<lambda>_. HEAP_MAGIC)) (malloc_split ptr sz h)
      in do {
        h2 \<leftarrow> (if ptr = lfree h1
               then do { l \<leftarrow> lfree_walk h1 (lfree h1);
                         if l = heap_end h1 \<or> usd h1 l = 0 then Some (h1\<lparr>lfree := l\<rparr>) else None }
               else Some h1);
        if ptr + SIZEOF_STRUCT_MEM + sz \<le> heap_end h2 \<and>
           (heap_ptr h2 + ptr + SIZEOF_STRUCT_MEM) mod 4 = 0 \<and> (heap_ptr h2 + ptr) mod 4 = 0
        then Some (Some (heap_ptr h2 + ptr + SIZEOF_STRUCT_MEM), h2)
        else None
      })"

definition rt_malloc :: "u32 \<Rightarrow> heap_state \<Rightarrow> (nat option \<times> heap_state) option" where
  "rt_malloc sz h =
     (if sz = 0 then Some (None, h)
      else let n = unat (RT_ALIGN sz RT_ALIGN_SIZE)
           in if n > mem_size_aligned h then Some (None, h)
              else let n' = (if n < MIN_SIZE_ALIGNED then MIN_SIZE_ALIGNED else n)
                   in do {
                     r \<leftarrow> malloc_search h n' (lfree h);
                     (case r of None \<Rightarrow> Some (None, h) | Some ptr \<Rightarrow> malloc_take ptr n' h)
                   })"

definition rt_free :: "nat option \<Rightarrow> heap_state \<Rightarrow> heap_state option" where
  "rt_free rmem h =
     (case rmem of
        None \<Rightarrow> Some h
      | Some a \<Rightarrow>
          if a mod 4 = 0 \<and> heap_ptr h \<le> a \<and> a < heap_ptr h + heap_end h \<and>
             heap_ptr h + SIZEOF_STRUCT_MEM \<le> a
          then let mem = a - SIZEOF_STRUCT_MEM - heap_ptr h
               in if usd h mem \<noteq> 0 \<and> hm_magic (heap_mems h mem) = HEAP_MAGIC
                  then let h1 = mem_at mem (\<lambda>m. m\<lparr>hm_used := 0, hm_magic := 0\<rparr>) h;
                           h2 = (if mem < lfree h1 then h1\<lparr>lfree := mem\<rparr> else h1);
                           h3 = h2\<lparr>used_mem := sub32 (used_mem h2) (sub32 (nxt h2 mem) mem)\<rparr>
                       in plug_holes mem h3
                  else None
          else None)"

definition copy_bytes :: "nat \<Rightarrow> nat \<Rightarrow> nat \<Rightarrow> heap_state \<Rightarrow> heap_state" where
  "copy_bytes dst src n h =
     h\<lparr>heap_bytes := (\<lambda>a. if dst \<le> a \<and> a < dst + n then heap_bytes h (src + (a - dst))
                          else heap_bytes h a)\<rparr>"

definition realloc_split :: "nat \<Rightarrow> nat \<Rightarrow> nat \<Rightarrow> heap_state \<Rightarrow> heap_state option" where
  "realloc_split ptr sz newsize h =
     (let h0 = h\<lparr>used_mem := sub32 (used_mem h) (sub32 sz newsize)\<rparr>;
          ptr2 = ptr + SIZEOF_STRUCT_MEM + newsize;
          h1 = mem_at ptr2 (\<lambda>_. \<lparr>hm_magic = HEAP_MAGIC, hm_used = 0, hm_next = nxt h0 ptr,
                                  hm_prev = ptr\<rparr>) h0;
          h2 = mem_at ptr (hm_next_update (\<lambda>_. ptr2)) h1;
          h3 = (if nxt h2 ptr2 \<noteq> mem_size_aligned h2 + SIZEOF_STRUCT_MEM
                then mem_at (nxt h2 ptr2) (hm_prev_update (\<lambda>_. ptr2)) h2 else h2)
      in plug_holes ptr2 h3)"

definition rt_realloc ::
  "nat option \<Rightarrow> u32 \<Rightarrow> heap_state \<Rightarrow> (nat option \<times> heap_state) option" where
  "rt_realloc rmem newsize0 h =
     (let newsize = RT_ALIGN newsize0 RT_ALIGN_SIZE; n = unat newsize
      in if n > mem_size_aligned h then Some (None, h)
         else case rmem of
           None \<Rightarrow> rt_malloc newsize h
         | Some a \<Rightarrow>
             if a < heap_ptr h \<or> heap_ptr h + heap_end h \<le> a then Some (Some a, h)
             else if a < heap_ptr h + SIZEOF_STRUCT_MEM then None
             else let ptr = a - SIZEOF_STRUCT_MEM - heap_ptr h;
                      sz = sub32 (sub32 (nxt h ptr) ptr) SIZEOF_STRUCT_MEM
                  in if sz = n then Some (Some a, h)
                     else if n + SIZEOF_STRUCT_MEM + 12 < sz
                     then do { h' \<leftarrow> realloc_split ptr sz n h; Some (Some a, h') }
                     else do {
                       (r, h1) \<leftarrow> rt_malloc newsize h;
                       case r of
                         None \<Rightarrow> Some (None, h1)
                       | Some b \<Rightarrow> do {
                           h2 \<leftarrow> rt_free (Some a) (copy_bytes b a (if sz < n then sz else n) h1);
                           Some (Some b, h2) }
                     })"

definition rt_calloc :: "u32 \<Rightarrow> u32 \<Rightarrow> heap_state \<Rightarrow> (nat option \<times> heap_state) option" where
  "rt_calloc cnt sz h =
     do {
       (r, h1) \<leftarrow> rt_malloc (cnt * sz) h;
       (case r of
          None \<Rightarrow> Some (None, h1)
        | Some p \<Rightarrow>
            Some (Some p, h1\<lparr>heap_bytes := (\<lambda>a. if p \<le> a \<and> a < p + unat (cnt * sz) then 0
                                                else heap_bytes h1 a)\<rparr>))
     }"

definition rt_memory_info :: "heap_state \<Rightarrow> nat \<times> nat \<times> nat" where
  "rt_memory_info h = (mem_size_aligned h, used_mem h, max_mem h)"

end
