(* ===== verification/RtMemProps.thy ===== *)
theory RtMemProps
  imports RtMem
begin

text \<open>
  The invariant of the small-memory heap and what its operations do under it: the blocks
  form one chain from offset 0 to the closing header, linked both ways, no two free blocks
  are adjacent, and \<open>lfree\<close> is a block of the chain or its end.
\<close>

subsection \<open>Chains of blocks\<close>

primrec chain :: "(nat \<Rightarrow> heap_mem) \<Rightarrow> nat \<Rightarrow> nat list \<Rightarrow> nat \<Rightarrow> bool" where
  "chain m p [] e \<longleftrightarrow> p = e"
| "chain m p (b # bs) e \<longleftrightarrow>
     b = p \<and> p + SIZEOF_STRUCT_MEM \<le> hm_next (m p) \<and> chain m (hm_next (m p)) bs e"

primrec backs :: "(nat \<Rightarrow> heap_mem) \<Rightarrow> nat \<Rightarrow> nat list \<Rightarrow> bool" where
  "backs m p [] \<longleftrightarrow> True"
| "backs m p (b # bs) \<longleftrightarrow> hm_prev (m b) = p \<and> backs m b bs"

text \<open>No two neighbours are both free: \<open>w\<close> says whether the block before is free.\<close>

primrec coalesced :: "(nat \<Rightarrow> heap_mem) \<Rightarrow> bool \<Rightarrow> nat list \<Rightarrow> bool" where
  "coalesced m w [] \<longleftrightarrow> True"
| "coalesced m w (b # bs) \<longleftrightarrow>
     \<not> (w \<and> hm_used (m b) = 0) \<and> coalesced m (hm_used (m b) = 0) bs"

definition free_last :: "(nat \<Rightarrow> heap_mem) \<Rightarrow> bool \<Rightarrow> nat list \<Rightarrow> bool" where
  "free_last m w bs = (if bs = [] then w else hm_used (m (last bs)) = 0)"

lemma chain_append [simp]:
  "chain m p (xs @ b # ys) e \<longleftrightarrow> chain m p xs b \<and> chain m b (b # ys) e"
  by (induction xs arbitrary: p) auto

lemma backs_append [simp]:
  "backs m p (xs @ b # ys) \<longleftrightarrow> backs m p xs \<and> hm_prev (m b) = last (p # xs) \<and> backs m b ys"
  by (induction xs arbitrary: p) auto

lemma coalesced_append [simp]:
  "coalesced m w (xs @ ys) \<longleftrightarrow> coalesced m w xs \<and> coalesced m (free_last m w xs) ys"
  by (induction xs arbitrary: w) (auto simp: free_last_def)

lemma chain_le: "chain m p bs e \<Longrightarrow> p \<le> e"
  by (induction bs arbitrary: p) fastforce+

lemma chain_bounds:
  "chain m p bs e \<Longrightarrow> b \<in> set bs \<Longrightarrow>
   p \<le> b \<and> b + SIZEOF_STRUCT_MEM \<le> hm_next (m b) \<and> hm_next (m b) \<le> e"
  by (induction bs arbitrary: p) (fastforce dest: chain_le)+

lemma chain_less: "chain m p bs e \<Longrightarrow> b \<in> set bs \<Longrightarrow> b < e"
  using chain_bounds by fastforce

lemma chain_sorted: "chain m p bs e \<Longrightarrow> sorted_wrt (\<lambda>a b. a + SIZEOF_STRUCT_MEM \<le> b) bs"
proof (induction bs arbitrary: p)
  case (Cons c cs)
  then show ?case by (fastforce dest: chain_bounds)
qed simp

lemma chain_distinct: "chain m p bs e \<Longrightarrow> distinct bs"
  using chain_sorted by (induction bs arbitrary: p) fastforce+

lemma chain_cong:
  "(\<And>b. b \<in> set bs \<Longrightarrow> hm_next (m' b) = hm_next (m b)) \<Longrightarrow> chain m' p bs e = chain m p bs e"
  by (induction bs arbitrary: p) auto

lemma backs_cong:
  "(\<And>b. b \<in> set bs \<Longrightarrow> hm_prev (m' b) = hm_prev (m b)) \<Longrightarrow> backs m' p bs = backs m p bs"
  by (induction bs arbitrary: p) auto

lemma coalesced_cong:
  "(\<And>b. b \<in> set bs \<Longrightarrow> hm_used (m' b) = 0 \<longleftrightarrow> hm_used (m b) = 0) \<Longrightarrow>
   coalesced m' w bs = coalesced m w bs"
  by (induction bs arbitrary: w) auto

lemma coalesced_weaken: "coalesced m w bs \<Longrightarrow> coalesced m False bs"
  by (cases bs) auto

subsection \<open>The invariant\<close>

definition heap_wf :: "heap_state \<Rightarrow> nat list \<Rightarrow> bool" where
  "heap_wf h bs \<longleftrightarrow>
     chain (heap_mems h) 0 bs (heap_end h) \<and> backs (heap_mems h) 0 bs \<and>
     coalesced (heap_mems h) False bs \<and>
     heap_end h = mem_size_aligned h + SIZEOF_STRUCT_MEM \<and> usd h (heap_end h) = 1 \<and>
     (\<forall>b \<in> set bs. b mod 4 = 0 \<and> usd h b \<le> 1 \<and>
        (usd h b = 1 \<longrightarrow> hm_magic (heap_mems h b) = HEAP_MAGIC)) \<and>
     lfree h \<in> insert (heap_end h) (set bs) \<and>
     heap_ptr h mod 4 = 0 \<and> heap_end h mod 4 = 0 \<and> MIN_SIZE_ALIGNED \<le> mem_size_aligned h \<and>
     heap_ptr h + heap_end h + SIZEOF_STRUCT_MEM < 2 ^ 32 \<and>
     (\<forall>b \<in> set bs. b + 24 \<le> heap_end h)"

text \<open>The lowest free block, when \<open>lfree\<close> is exact.\<close>

definition lfree_lowest :: "heap_state \<Rightarrow> nat list \<Rightarrow> bool" where
  "lfree_lowest h bs \<longleftrightarrow> (\<forall>b \<in> set bs. b < lfree h \<longrightarrow> usd h b = 1)"

text \<open>The blocks handed out: address of the data and its length.\<close>

definition live :: "heap_state \<Rightarrow> nat list \<Rightarrow> (nat \<times> nat) set" where
  "live h bs = {(heap_ptr h + b + SIZEOF_STRUCT_MEM, nxt h b - b - SIZEOF_STRUCT_MEM) | b.
                  b \<in> set bs \<and> usd h b = 1}"

definition used_bytes :: "heap_state \<Rightarrow> nat list \<Rightarrow> nat" where
  "used_bytes h bs = (\<Sum>b \<in> {b \<in> set bs. usd h b = 1}. nxt h b - b)"

subsection \<open>The searches\<close>

lemma sub32_eq: "b \<le> a \<Longrightarrow> a < 2 ^ 32 \<Longrightarrow> sub32 a b = a - b"
proof -
  assume "b \<le> a" "a < 2 ^ 32"
  then have "a + 2 ^ 32 - b = (a - b) + 2 ^ 32" "a - b < 2 ^ 32" by simp_all
  then show ?thesis unfolding sub32_def by (simp only: mod_add_self2 mod_less)
qed

lemma add32_eq: "a + b < 2 ^ 32 \<Longrightarrow> add32 a b = a + b"
  by (simp add: add32_def)

definition fits :: "heap_state \<Rightarrow> nat \<Rightarrow> nat \<Rightarrow> bool" where
  "fits h sz b \<longleftrightarrow> usd h b = 0 \<and> sz \<le> nxt h b - b - SIZEOF_STRUCT_MEM \<and> b < mem_size_aligned h - sz"

lemma malloc_search_spec:
  assumes "chain (heap_mems h) p ys (heap_end h)"
    and "heap_end h = mem_size_aligned h + SIZEOF_STRUCT_MEM" "heap_end h < 2 ^ 32"
    and "sz \<le> mem_size_aligned h"
  shows "malloc_search h sz p = Some (List.find (fits h sz) ys)"
  using assms(1)
proof (induction ys arbitrary: p)
  case Nil
  with assms(2-4) show ?case by (simp add: malloc_search.simps sub32_eq)
next
  case (Cons y ys)
  from Cons.prems have y: "y = p" "p + SIZEOF_STRUCT_MEM \<le> nxt h p"
    "chain (heap_mems h) (nxt h p) ys (heap_end h)" by simp_all
  have b: "nxt h p < 2 ^ 32" using chain_le [OF y(3)] assms(3) by simp
  have "sub32 (nxt h p) (add32 p SIZEOF_STRUCT_MEM) = nxt h p - p - SIZEOF_STRUCT_MEM"
    using y(2) b by (simp add: add32_eq sub32_eq)
  moreover have "sub32 (mem_size_aligned h) sz = mem_size_aligned h - sz"
    using assms by (simp add: sub32_eq)
  moreover have "List.find (fits h sz) ys = None" if "\<not> p < mem_size_aligned h - sz"
  proof -
    have "\<not> fits h sz c" if "c \<in> set ys" for c
      using chain_bounds [OF y(3) that] y(2) \<open>\<not> p < mem_size_aligned h - sz\<close>
      by (simp add: fits_def)
    then show ?thesis by (simp add: find_None_iff)
  qed
  moreover have "fits h sz p \<longleftrightarrow>
      usd h p = 0 \<and> sz \<le> nxt h p - p - SIZEOF_STRUCT_MEM \<and> p < mem_size_aligned h - sz"
    by (simp add: fits_def)
  ultimately show ?case
    using Cons.IH [OF y(3)] y(1) by (subst malloc_search.simps) auto
qed

lemma lfree_walk_spec:
  assumes "chain (heap_mems h) p ys (heap_end h)" "usd h (heap_end h) = 1"
    and "\<forall>b \<in> set ys. usd h b \<le> 1"
  shows "lfree_walk h p =
    Some (case List.find (\<lambda>b. usd h b = 0) ys of Some b \<Rightarrow> b | None \<Rightarrow> heap_end h)"
  using assms(1,3)
proof (induction ys arbitrary: p)
  case Nil
  with assms(2) show ?case by (simp add: lfree_walk.simps)
next
  case (Cons y ys)
  from Cons.prems have y: "y = p" "chain (heap_mems h) (nxt h p) ys (heap_end h)" by simp_all
  have "p \<noteq> heap_end h" using chain_less [OF Cons.prems(1), of p] y(1) by simp
  with Cons y show ?case by (subst lfree_walk.simps) auto
qed

lemma chain_suffix:
  assumes "chain m q bs e" "p \<in> insert e (set bs)"
  obtains xs ys where "bs = xs @ ys" "chain m p ys e" "\<forall>x \<in> set xs. x < p"
    "\<forall>y \<in> set ys. p \<le> y"
proof (cases "p \<in> set bs")
  case True
  then obtain xs ys where bs: "bs = xs @ p # ys" by (meson split_list)
  from assms(1) bs have c: "chain m q xs p" "chain m p (p # ys) e" by auto
  show ?thesis
  proof (rule that [OF bs c(2)])
    show "\<forall>x \<in> set xs. x < p" using chain_less [OF c(1)] by blast
    show "\<forall>y \<in> set (p # ys). p \<le> y" using chain_bounds [OF c(2)] by blast
  qed
next
  case False
  with assms show ?thesis by (intro that [of bs "[]"]) (auto dest: chain_less)
qed

lemma mem_at_simps [simp]:
  "heap_mems (mem_at p f h) = (heap_mems h)(p := f (heap_mems h p))"
  "heap_ptr (mem_at p f h) = heap_ptr h" "heap_end (mem_at p f h) = heap_end h"
  "lfree (mem_at p f h) = lfree h" "mem_size_aligned (mem_at p f h) = mem_size_aligned h"
  "used_mem (mem_at p f h) = used_mem h" "max_mem (mem_at p f h) = max_mem h"
  "heap_bytes (mem_at p f h) = heap_bytes h"
  by (simp_all add: mem_at_def)

lemma count_used_simps [simp]:
  "heap_mems (count_used n h) = heap_mems h"
  "heap_ptr (count_used n h) = heap_ptr h" "heap_end (count_used n h) = heap_end h"
  "lfree (count_used n h) = lfree h" "mem_size_aligned (count_used n h) = mem_size_aligned h"
  "used_mem (count_used n h) = add32 (used_mem h) n"
  "heap_bytes (count_used n h) = heap_bytes h"
  by (simp_all add: count_used_def Let_def)

text \<open>The headers \<open>malloc_split\<close> writes, with and without a remainder.\<close>

lemma heap_wfD:
  assumes "heap_wf h bs"
  shows "chain (heap_mems h) 0 bs (heap_end h)" "backs (heap_mems h) 0 bs"
    "coalesced (heap_mems h) False bs"
    "heap_end h = mem_size_aligned h + SIZEOF_STRUCT_MEM" "usd h (heap_end h) = 1"
    "\<And>b. b \<in> set bs \<Longrightarrow> b mod 4 = 0" "\<And>b. b \<in> set bs \<Longrightarrow> usd h b \<le> 1"
    "\<And>b. b \<in> set bs \<Longrightarrow> usd h b = 1 \<Longrightarrow> hm_magic (heap_mems h b) = HEAP_MAGIC"
    "lfree h \<in> insert (heap_end h) (set bs)" "heap_ptr h mod 4 = 0" "heap_end h mod 4 = 0"
    "MIN_SIZE_ALIGNED \<le> mem_size_aligned h" "heap_ptr h + heap_end h + SIZEOF_STRUCT_MEM < 2 ^ 32"
    "\<And>b. b \<in> set bs \<Longrightarrow> b + 24 \<le> heap_end h"
  using assms unfolding heap_wf_def by blast+

text \<open>The invariant without \<open>coalesced\<close>: what holds while a freed block is being joined.\<close>

definition heap_shape :: "heap_state \<Rightarrow> nat list \<Rightarrow> bool" where
  "heap_shape h bs \<longleftrightarrow>
     chain (heap_mems h) 0 bs (heap_end h) \<and> backs (heap_mems h) 0 bs \<and>
     heap_end h = mem_size_aligned h + SIZEOF_STRUCT_MEM \<and> usd h (heap_end h) = 1 \<and>
     (\<forall>b \<in> set bs. b mod 4 = 0 \<and> usd h b \<le> 1 \<and>
        (usd h b = 1 \<longrightarrow> hm_magic (heap_mems h b) = HEAP_MAGIC)) \<and>
     lfree h \<in> insert (heap_end h) (set bs) \<and>
     heap_ptr h mod 4 = 0 \<and> heap_end h mod 4 = 0 \<and> MIN_SIZE_ALIGNED \<le> mem_size_aligned h \<and>
     heap_ptr h + heap_end h + SIZEOF_STRUCT_MEM < 2 ^ 32 \<and>
     (\<forall>b \<in> set bs. b + 24 \<le> heap_end h)"

lemma heap_wf_shape: "heap_wf h bs \<longleftrightarrow> heap_shape h bs \<and> coalesced (heap_mems h) False bs"
  unfolding heap_wf_def heap_shape_def by blast

lemma heap_shapeD:
  assumes "heap_shape h bs"
  shows "chain (heap_mems h) 0 bs (heap_end h)" "backs (heap_mems h) 0 bs"
    "heap_end h = mem_size_aligned h + SIZEOF_STRUCT_MEM" "usd h (heap_end h) = 1"
    "\<And>b. b \<in> set bs \<Longrightarrow> b mod 4 = 0" "\<And>b. b \<in> set bs \<Longrightarrow> usd h b \<le> 1"
    "\<And>b. b \<in> set bs \<Longrightarrow> usd h b = 1 \<Longrightarrow> hm_magic (heap_mems h b) = HEAP_MAGIC"
    "lfree h \<in> insert (heap_end h) (set bs)" "heap_ptr h mod 4 = 0" "heap_end h mod 4 = 0"
    "MIN_SIZE_ALIGNED \<le> mem_size_aligned h" "heap_ptr h + heap_end h + SIZEOF_STRUCT_MEM < 2 ^ 32"
    "\<And>b. b \<in> set bs \<Longrightarrow> b + 24 \<le> heap_end h"
  using assms unfolding heap_shape_def by blast+

lemma heap_wf_at:
  assumes "heap_wf h (xs @ b # ys)"
  shows "b + SIZEOF_STRUCT_MEM \<le> nxt h b" "nxt h b \<le> heap_end h" "b < heap_end h"
    "chain (heap_mems h) (nxt h b) ys (heap_end h)" "heap_end h < 2 ^ 32"
    "nxt h b \<in> insert (heap_end h) (set ys)"
proof -
  have "chain (heap_mems h) 0 (xs @ b # ys) (heap_end h)" by (rule heap_wfD(1) [OF assms])
  then have c: "chain (heap_mems h) b (b # ys) (heap_end h)" by (simp only: chain_append)
  then show "b + SIZEOF_STRUCT_MEM \<le> nxt h b"
    and r: "chain (heap_mems h) (nxt h b) ys (heap_end h)" by simp_all
  show "nxt h b \<le> heap_end h" using chain_le [OF r] .
  show "b < heap_end h" using chain_less [OF c] by simp
  show "heap_end h < 2 ^ 32" using heap_wfD(13) [OF assms] by simp
  show "nxt h b \<in> insert (heap_end h) (set ys)" using r by (cases ys) auto
qed

definition splits :: "heap_state \<Rightarrow> nat \<Rightarrow> nat \<Rightarrow> bool" where
  "splits h b sz \<longleftrightarrow> sz + 24 \<le> nxt h b - b - SIZEOF_STRUCT_MEM"

lemma malloc_split_eq:
  assumes "heap_wf h (xs @ b # ys)"
  shows "malloc_split b sz h =
    (if splits h b sz
     then let b2 = b + SIZEOF_STRUCT_MEM + sz;
              h2 = mem_at b (\<lambda>m. m\<lparr>hm_next := b2, hm_used := 1\<rparr>)
                     (mem_at b2 (\<lambda>m. m\<lparr>hm_used := 0, hm_next := nxt h b, hm_prev := b\<rparr>) h)
          in count_used (sz + SIZEOF_STRUCT_MEM)
               (if nxt h b \<noteq> heap_end h then mem_at (nxt h b) (hm_prev_update (\<lambda>_. b2)) h2 else h2)
     else count_used (nxt h b - b) (mem_at b (hm_used_update (\<lambda>_. 1)) h))"
proof -
  note at = heap_wf_at [OF assms]
  have "sub32 (nxt h b) (add32 b SIZEOF_STRUCT_MEM) = nxt h b - b - SIZEOF_STRUCT_MEM"
    and "sub32 (nxt h b) b = nxt h b - b"
    using at(1,2,5) by (simp_all add: add32_eq sub32_eq)
  moreover have "heap_end h = mem_size_aligned h + SIZEOF_STRUCT_MEM"
    using assms by (simp add: heap_wf_def)
  ultimately show ?thesis
    by (simp add: malloc_split_def splits_def Let_def)
qed

text \<open>Turning one free block into a used one, with or without a free remainder.\<close>

lemma coalesced_head: "coalesced m w bs \<Longrightarrow> bs \<noteq> [] \<Longrightarrow> w \<Longrightarrow> hm_used (m (hd bs)) \<noteq> 0"
  by (cases bs) auto

lemma chain_head: "chain m p bs e \<Longrightarrow> hd (bs @ [e]) = p"
  by (cases bs) auto

lemma backs_relink:
  assumes "chain m p bs e" "backs m a bs" "distinct bs"
    and "\<And>c. c \<in> set bs \<Longrightarrow> c \<noteq> p \<Longrightarrow> hm_prev (m' c) = hm_prev (m c)"
    and "bs \<noteq> [] \<Longrightarrow> hm_prev (m' p) = a'"
  shows "backs m' a' bs"
proof (cases bs)
  case (Cons c cs)
  have "backs m' c cs = backs m c cs"
    by (rule backs_cong) (use assms Cons in auto)
  with assms Cons show ?thesis by auto
qed simp

text \<open>A block cut in two, in terms of what the new headers hold.\<close>

lemma split_shape:
  assumes sh: "heap_shape h (xs @ b # ys)"
    and lt: "b + SIZEOF_STRUCT_MEM \<le> b2" "b2 + SIZEOF_STRUCT_MEM \<le> nxt h b" "b2 mod 4 = 0"
      "b2 + 24 \<le> heap_end h"
    and fx: "\<And>x. x \<in> set xs \<Longrightarrow> heap_mems h' x = heap_mems h x"
    and fb: "nxt h' b = b2" "prv h' b = prv h b" "usd h' b = 1" "hm_magic (heap_mems h' b) = HEAP_MAGIC"
      "usd h' b2 = 0" "nxt h' b2 = nxt h b" "prv h' b2 = b"
    and fy: "\<And>y. nxt h b \<le> y \<Longrightarrow> nxt h' y = nxt h y \<and> usd h' y = usd h y \<and>
      hm_magic (heap_mems h' y) = hm_magic (heap_mems h y) \<and> (y \<noteq> nxt h b \<longrightarrow> prv h' y = prv h y)"
    and fn: "ys \<noteq> [] \<Longrightarrow> prv h' (nxt h b) = b2"
    and f: "heap_end h' = heap_end h" "heap_ptr h' = heap_ptr h"
      "mem_size_aligned h' = mem_size_aligned h" "lfree h' \<in> insert (heap_end h) (set (xs @ b # b2 # ys))"
  shows "heap_shape h' (xs @ b # b2 # ys)"
proof -
  note D = heap_shapeD [OF sh]
  have cx: "chain (heap_mems h) 0 xs b" and cy: "chain (heap_mems h) (nxt h b) ys (heap_end h)"
    using D(1) by simp_all
  have ygt: "nxt h b \<le> y" if "y \<in> set ys" for y using chain_bounds [OF cy that] by simp
  have "chain (heap_mems h') 0 xs b" using cx fx by (subst chain_cong [of xs _ "heap_mems h"]) auto
  moreover have "chain (heap_mems h') (nxt h b) ys (heap_end h)"
    using cy fy ygt by (subst chain_cong [of ys _ "heap_mems h"]) auto
  ultimately have ch: "chain (heap_mems h') 0 (xs @ b # b2 # ys) (heap_end h)"
    using fb lt by simp
  have "backs (heap_mems h') 0 xs" using D(2) fx by (subst backs_cong [of xs _ "heap_mems h"]) auto
  moreover have "backs (heap_mems h') b2 ys"
  proof (rule backs_relink [OF cy])
    show "backs (heap_mems h) b ys" using D(2) by simp
    show "distinct ys" by (rule chain_distinct [OF cy])
    show "prv h' y = prv h y" if "y \<in> set ys" "y \<noteq> nxt h b" for y
      using fy ygt that by blast
  qed (rule fn)
  ultimately have ba: "backs (heap_mems h') 0 (xs @ b # b2 # ys)" using D(2) fb by simp
  have al: "c mod 4 = 0 \<and> usd h' c \<le> 1 \<and> (usd h' c = 1 \<longrightarrow> hm_magic (heap_mems h' c) = HEAP_MAGIC)"
    and l24: "c + 24 \<le> heap_end h"
    if "c \<in> set (xs @ b # b2 # ys)" for c
  proof -
    from that consider "c \<in> set xs" | "c = b" | "c = b2" | "c \<in> set ys" by auto
    then show "c mod 4 = 0 \<and> usd h' c \<le> 1 \<and> (usd h' c = 1 \<longrightarrow> hm_magic (heap_mems h' c) = HEAP_MAGIC)"
      by cases (use D(5-7) [of c] fx fb fy ygt lt in auto)
    show "c + 24 \<le> heap_end h" using that D(13) [of c] lt(4) by auto
  qed
  have "usd h' (heap_end h) = 1" using D(4) fy chain_le [OF cy] by simp
  with ch ba al l24 f D(3,9-12) show ?thesis
    unfolding heap_shape_def by auto
qed

lemma split_wf:
  assumes wf: "heap_wf h (xs @ b # ys)" and free: "usd h b = 0"
    and "sz mod 4 = 0" "splits h b sz"
    and m': "m' = (heap_mems h)
          (b2 := (heap_mems h b2)\<lparr>hm_used := 0, hm_next := nxt h b, hm_prev := b\<rparr>,
           b := (heap_mems h b)\<lparr>hm_magic := HEAP_MAGIC, hm_next := b2, hm_used := 1\<rparr>)"
    and b2: "b2 = b + SIZEOF_STRUCT_MEM + sz"
    and m'': "m'' = (if nxt h b \<noteq> heap_end h
          then m'(nxt h b := (m' (nxt h b))\<lparr>hm_prev := b2\<rparr>) else m')"
    and h': "heap_mems h' = m''" "heap_end h' = heap_end h" "heap_ptr h' = heap_ptr h"
      "mem_size_aligned h' = mem_size_aligned h" "lfree h' \<in> insert (heap_end h) (set (xs @ b # b2 # ys))"
  shows "heap_wf h' (xs @ b # b2 # ys)"
proof -
  note at = heap_wf_at [OF wf]
  note D = heap_wfD [OF wf]
  have cx: "chain (heap_mems h) 0 xs b" and cb: "chain (heap_mems h) b (b # ys) (heap_end h)"
    using D(1) by (simp_all only: chain_append)
  have lt: "b + SIZEOF_STRUCT_MEM \<le> b2" "b2 + SIZEOF_STRUCT_MEM \<le> nxt h b"
    using \<open>splits h b sz\<close> at(1) b2 by (auto simp: splits_def)
  have xlt: "x + SIZEOF_STRUCT_MEM \<le> b" if "x \<in> set xs" for x
    using chain_bounds [OF cx that] by simp
  have ygt: "nxt h b \<le> y" if "y \<in> set ys" for y using chain_bounds [OF at(4) that] by simp
  have fx: "m'' x = heap_mems h x" if "x \<in> set xs" for x
    using xlt [OF that] lt at(2) m' m'' by auto
  have fb: "m'' b = (heap_mems h b)\<lparr>hm_magic := HEAP_MAGIC, hm_next := b2, hm_used := 1\<rparr>"
    "hm_used (m'' b2) = 0" "hm_next (m'' b2) = nxt h b" "hm_prev (m'' b2) = b"
    using lt m' m'' by auto
  have fy: "hm_next (m'' y) = nxt h y" "hm_used (m'' y) = usd h y"
    "hm_magic (m'' y) = hm_magic (heap_mems h y)" "y \<noteq> nxt h b \<Longrightarrow> hm_prev (m'' y) = prv h y"
    if "nxt h b \<le> y" for y
    using that lt m' m'' by auto
  have fn: "hm_prev (m'' (nxt h b)) = b2" if "ys \<noteq> []"
  proof -
    have "nxt h b \<in> set ys" using at(4) that by (cases ys) auto
    then show ?thesis using chain_less [OF at(4)] m'' by fastforce
  qed
  have "b mod 4 = 0" using D(6) [of b] by simp
  then have b24: "b2 mod 4 = 0" "b2 + 24 \<le> heap_end h"
    using \<open>sz mod 4 = 0\<close> \<open>splits h b sz\<close> at(2) b2 by (auto simp: splits_def)
  have "heap_shape h' (xs @ b # b2 # ys)"
    by (rule split_shape [OF _ lt b24]) (use wf fx fb fy fn h' in \<open>auto simp: heap_wf_shape\<close>)
  moreover have "coalesced m'' False xs"
    using D(3) fx by (subst coalesced_cong [of xs _ "heap_mems h"]) auto
  moreover have "coalesced (heap_mems h) True ys" using D(3) free by simp
  then have "coalesced m'' True ys"
    using fy ygt by (subst coalesced_cong [of ys _ "heap_mems h"]) auto
  ultimately show ?thesis using fb h'(1) by (simp add: heap_wf_shape)
qed

lemma claim_wf:
  assumes wf: "heap_wf h (xs @ b # ys)" and free: "usd h b = 0"
    and h': "heap_mems h' = (heap_mems h)(b := (heap_mems h b)\<lparr>hm_magic := HEAP_MAGIC, hm_used := 1\<rparr>)"
      "heap_end h' = heap_end h" "heap_ptr h' = heap_ptr h"
      "mem_size_aligned h' = mem_size_aligned h" "lfree h' \<in> insert (heap_end h) (set (xs @ b # ys))"
  shows "heap_wf h' (xs @ b # ys)"
proof -
  note at = heap_wf_at [OF wf]
  note D = heap_wfD [OF wf]
  let ?m = "heap_mems h'"
  have nb: "b \<notin> set xs" "b \<notin> set ys" "b \<noteq> heap_end h"
    using chain_distinct [OF D(1)] at(3) by auto
  have "chain ?m 0 (xs @ b # ys) (heap_end h)"
    using D(1) h'(1) by (subst chain_cong [of _ _ "heap_mems h"]) auto
  moreover have "backs ?m 0 (xs @ b # ys)"
    using D(2) h'(1) by (subst backs_cong [of _ _ "heap_mems h"]) auto
  moreover have "coalesced ?m False xs"
    using D(3) h'(1) nb by (subst coalesced_cong [of _ _ "heap_mems h"]) auto
  moreover have "coalesced ?m False ys"
    using coalesced_weaken [of "heap_mems h" "usd h b = 0" ys] D(3) h'(1) nb
    by (subst coalesced_cong [of _ _ "heap_mems h"]) auto
  ultimately show ?thesis
    using D(4-14) h' nb unfolding heap_wf_def by (auto simp: fun_upd_apply)
qed

lemma malloc_claim:
  assumes wf: "heap_wf h bs" and b: "b \<in> set bs" "usd h b = 0"
    and sz: "sz mod 4 = 0" "sz \<le> nxt h b - b - SIZEOF_STRUCT_MEM"
    and h1: "h1 = mem_at b (hm_magic_update (\<lambda>_. HEAP_MAGIC)) (malloc_split b sz h)"
  obtains bs' where "heap_wf h1 bs'" "set bs \<subseteq> set bs'" "b \<in> set bs'"
    "usd h1 b = 1" "b + SIZEOF_STRUCT_MEM + sz \<le> nxt h1 b"
    "\<And>c. c \<in> set bs \<Longrightarrow> c \<noteq> b \<Longrightarrow> usd h1 c = usd h c \<and> nxt h1 c = nxt h c"
    "\<And>c. c \<in> set bs' \<Longrightarrow> c \<notin> set bs \<Longrightarrow> usd h1 c = 0 \<and> b < c"
    "used_mem h1 = add32 (used_mem h) (nxt h1 b - b)"
    "lfree h1 = lfree h" "heap_ptr h1 = heap_ptr h" "heap_end h1 = heap_end h"
    "heap_bytes h1 = heap_bytes h"
proof -
  from b obtain xs ys where bs: "bs = xs @ b # ys" by (meson split_list)
  note wf' = wf [unfolded bs]
  note at = heap_wf_at [OF wf']
  note D = heap_wfD [OF wf]
  show thesis
  proof (cases "splits h b sz")
    case False
    have e: "h1 = mem_at b (hm_magic_update (\<lambda>_. HEAP_MAGIC))
        (count_used (nxt h b - b) (mem_at b (hm_used_update (\<lambda>_. 1)) h))"
      using False malloc_split_eq [OF wf'] h1 by simp
    have "heap_wf h1 bs" unfolding bs
      by (rule claim_wf [OF wf' b(2)]) (use D(9) bs e in \<open>auto simp: fun_eq_iff\<close>)
    then show thesis
      by (rule that) (use e b sz at in auto)
  next
    case True
    define b2 where "b2 = b + SIZEOF_STRUCT_MEM + sz"
    define m' where "m' = (heap_mems h)
          (b2 := (heap_mems h b2)\<lparr>hm_used := 0, hm_next := nxt h b, hm_prev := b\<rparr>,
           b := (heap_mems h b)\<lparr>hm_magic := HEAP_MAGIC, hm_next := b2, hm_used := 1\<rparr>)"
    define m'' where "m'' = (if nxt h b \<noteq> heap_end h
          then m'(nxt h b := (m' (nxt h b))\<lparr>hm_prev := b2\<rparr>) else m')"
    have lt: "b < b2" "b2 < nxt h b"
      using True at(1) b2_def by (auto simp: splits_def)
    have e: "heap_mems h1 = m''" "heap_end h1 = heap_end h" "heap_ptr h1 = heap_ptr h"
      "mem_size_aligned h1 = mem_size_aligned h" "lfree h1 = lfree h" "heap_bytes h1 = heap_bytes h"
      "used_mem h1 = add32 (used_mem h) (sz + SIZEOF_STRUCT_MEM)"
      using True malloc_split_eq [OF wf', of sz] h1 lt
      by (auto simp: m''_def m'_def b2_def [symmetric] Let_def fun_eq_iff)
    have nx: "nxt h1 b = b2" "usd h1 b = 1" "usd h1 b2 = 0" "\<And>c. c \<noteq> b \<Longrightarrow> c \<noteq> b2 \<Longrightarrow> nxt h1 c = nxt h c"
      "\<And>c. c \<noteq> b \<Longrightarrow> c \<noteq> b2 \<Longrightarrow> usd h1 c = usd h c"
      using lt unfolding e(1) by (auto simp: m''_def m'_def)
    have "b2 \<notin> set bs"
    proof
      assume "b2 \<in> set bs"
      then consider "b2 \<in> set xs" | "b2 = b" | "b2 \<in> set ys" using bs by auto
      then show False
      proof cases
        case 1
        then show False using D(1) bs chain_less [of "heap_mems h" 0 xs b b2] lt by simp
      next
        case 3
        then show False using chain_bounds [OF at(4), of b2] lt by simp
      qed (use lt in simp)
    qed
    then have other: "usd h1 c = usd h c \<and> nxt h1 c = nxt h c" if "c \<in> set bs" "c \<noteq> b" for c
      using nx that by metis
    show thesis
    proof (rule that)
      show "heap_wf h1 (xs @ b # b2 # ys)"
        by (rule split_wf [OF wf' b(2) sz(1) True m'_def b2_def m''_def e(1-4)])
          (use D(9) bs e in auto)
      show "used_mem h1 = add32 (used_mem h) (nxt h1 b - b)"
        using e(7) nx(1) b2_def by (simp add: add.commute)
    qed (use other e b bs nx b2_def in auto)
  qed
qed

subsection \<open>Live blocks\<close>

lemma sorted_wrt_cases:
  "sorted_wrt P xs \<Longrightarrow> a \<in> set xs \<Longrightarrow> b \<in> set xs \<Longrightarrow> a \<noteq> b \<Longrightarrow> P a b \<or> P b a"
  by (induction xs) auto

lemma chain_disjoint:
  assumes "chain m p bs e" "b \<in> set bs" "c \<in> set bs" "b < c"
  shows "hm_next (m b) \<le> c"
proof -
  from assms(2) obtain xs ys where bs: "bs = xs @ b # ys" by (meson split_list)
  from assms(1) bs have c1: "chain m p xs b" "chain m (hm_next (m b)) ys e" by simp_all
  have "c \<notin> set xs" using chain_less [OF c1(1), of c] assms(4) by auto
  then have "c \<in> set ys" using assms(3,4) bs by auto
  then show ?thesis using chain_bounds [OF c1(2)] by blast
qed

lemma live_disjoint:
  assumes "heap_wf h bs" "(a, n) \<in> live h bs" "(a', n') \<in> live h bs" "a \<noteq> a'"
  shows "a + n + SIZEOF_STRUCT_MEM \<le> a' \<or> a' + n' + SIZEOF_STRUCT_MEM \<le> a"
proof -
  obtain b c where b: "b \<in> set bs" "a = heap_ptr h + b + SIZEOF_STRUCT_MEM"
      "n = nxt h b - b - SIZEOF_STRUCT_MEM"
    and c: "c \<in> set bs" "a' = heap_ptr h + c + SIZEOF_STRUCT_MEM"
      "n' = nxt h c - c - SIZEOF_STRUCT_MEM"
    using assms(2,3) by (auto simp: live_def)
  note ch = heap_wfD(1) [OF assms(1)]
  show ?thesis
    using chain_disjoint [OF ch b(1) c(1)] chain_disjoint [OF ch c(1) b(1)]
      chain_bounds [OF ch b(1)] chain_bounds [OF ch c(1)] b(2,3) c(2,3) assms(4)
    by (cases "b < c") auto
qed

lemma live_inside:
  assumes "heap_wf h bs" "(a, n) \<in> live h bs"
  shows "heap_ptr h + SIZEOF_STRUCT_MEM \<le> a" "a + n \<le> heap_ptr h + heap_end h" "a mod 4 = 0"
proof -
  obtain b where b: "b \<in> set bs" "a = heap_ptr h + b + SIZEOF_STRUCT_MEM"
      "n = nxt h b - b - SIZEOF_STRUCT_MEM"
    using assms(2) by (auto simp: live_def)
  note D = heap_wfD [OF assms(1)]
  show "heap_ptr h + SIZEOF_STRUCT_MEM \<le> a" "a + n \<le> heap_ptr h + heap_end h"
    using chain_bounds [OF D(1) b(1)] b(2,3) by auto
  show "a mod 4 = 0" using D(6) [OF b(1)] D(10) b(2) by presburger
qed

lemma finite_live [simp]: "finite (live h bs)"
  by (rule finite_subset [of _ "(\<lambda>b. (heap_ptr h + b + SIZEOF_STRUCT_MEM,
     nxt h b - b - SIZEOF_STRUCT_MEM)) ` set bs"]) (auto simp: live_def)

lemma live_insert:
  assumes "b \<in> set bs'" "set bs \<subseteq> set bs'" "usd h b \<noteq> 1" "usd h1 b = 1" "heap_ptr h1 = heap_ptr h"
    and "\<And>c. c \<in> set bs \<Longrightarrow> c \<noteq> b \<Longrightarrow> usd h1 c = usd h c \<and> nxt h1 c = nxt h c"
    and "\<And>c. c \<in> set bs' \<Longrightarrow> c \<notin> set bs \<Longrightarrow> c \<noteq> b \<Longrightarrow> usd h1 c = 0"
  shows "live h1 bs' = insert (heap_ptr h + b + SIZEOF_STRUCT_MEM,
     nxt h1 b - b - SIZEOF_STRUCT_MEM) (live h bs)"
proof (intro equalityI subsetI)
  fix x assume "x \<in> live h1 bs'"
  then obtain c where c: "x = (heap_ptr h1 + c + SIZEOF_STRUCT_MEM, nxt h1 c - c - SIZEOF_STRUCT_MEM)"
    "c \<in> set bs'" "usd h1 c = 1" unfolding live_def by blast
  show "x \<in> insert (heap_ptr h + b + SIZEOF_STRUCT_MEM, nxt h1 b - b - SIZEOF_STRUCT_MEM) (live h bs)"
  proof (cases "c = b")
    case False
    then have "c \<in> set bs" using assms(7) c by fastforce
    then show ?thesis using c False assms(5,6) unfolding live_def by auto
  qed (use c assms(5) in simp)
next
  fix x assume x: "x \<in> insert (heap_ptr h + b + SIZEOF_STRUCT_MEM,
    nxt h1 b - b - SIZEOF_STRUCT_MEM) (live h bs)"
  show "x \<in> live h1 bs'"
  proof (cases "x \<in> live h bs")
    case True
    then obtain c where c: "x = (heap_ptr h + c + SIZEOF_STRUCT_MEM, nxt h c - c - SIZEOF_STRUCT_MEM)"
      "c \<in> set bs" "usd h c = 1" unfolding live_def by blast
    then have "c \<noteq> b" using assms(3) by auto
    with c assms(2,5,6) show ?thesis unfolding live_def by auto
  qed (use x assms(1,4,5) in \<open>auto simp: live_def\<close>)
qed

lemma used_bytes_insert:
  assumes "b \<in> set bs'" "set bs \<subseteq> set bs'" "usd h b \<noteq> 1" "usd h1 b = 1"
    and "\<And>c. c \<in> set bs \<Longrightarrow> c \<noteq> b \<Longrightarrow> usd h1 c = usd h c \<and> nxt h1 c = nxt h c"
    and "\<And>c. c \<in> set bs' \<Longrightarrow> c \<notin> set bs \<Longrightarrow> c \<noteq> b \<Longrightarrow> usd h1 c = 0"
  shows "used_bytes h1 bs' = used_bytes h bs + (nxt h1 b - b)"
proof -
  let ?B = "{c \<in> set bs. usd h c = 1}"
  have "{c \<in> set bs'. usd h1 c = 1} = insert b ?B"
  proof (intro set_eqI iffI)
    fix c assume c: "c \<in> {c \<in> set bs'. usd h1 c = 1}"
    show "c \<in> insert b ?B"
    proof (cases "c = b")
      case False
      then have "c \<in> set bs" using assms(6) [of c] c by fastforce
      with False assms(5) c show ?thesis by auto
    qed simp
  next
    fix c assume "c \<in> insert b ?B"
    then show "c \<in> {c \<in> set bs'. usd h1 c = 1}"
      using assms(1-4) assms(5) [of c] by (cases "c = b") auto
  qed
  moreover have "(\<Sum>c \<in> ?B. nxt h1 c - c) = (\<Sum>c \<in> ?B. nxt h c - c)"
  proof (rule sum.cong)
    fix c assume "c \<in> ?B"
    then show "nxt h1 c - c = nxt h c - c" using assms(3) assms(5) [of c] by (cases "c = b") auto
  qed simp
  ultimately show ?thesis using assms(3) by (simp add: used_bytes_def)
qed

lemma chain_total: "chain m p bs e \<Longrightarrow> (\<Sum>b \<in> set bs. hm_next (m b) - b) + p = e"
proof (induction bs arbitrary: p)
  case (Cons b bs)
  then have "b \<notin> set bs" using chain_distinct [OF Cons.prems] by simp
  with Cons.IH [of "hm_next (m p)"] Cons.prems show ?case by simp
qed simp

lemma used_bytes_le: "heap_wf h bs \<Longrightarrow> used_bytes h bs \<le> heap_end h"
proof -
  assume "heap_wf h bs"
  then have "(\<Sum>b \<in> set bs. nxt h b - b) = heap_end h"
    using chain_total [OF heap_wfD(1)] by fastforce
  moreover have "used_bytes h bs \<le> (\<Sum>b \<in> set bs. nxt h b - b)"
    unfolding used_bytes_def by (rule sum_mono2) auto
  ultimately show ?thesis by simp
qed

subsection \<open>Allocation\<close>

definition malloc_size :: "u32 \<Rightarrow> nat" where
  "malloc_size sz = max MIN_SIZE_ALIGNED (unat (RT_ALIGN sz RT_ALIGN_SIZE))"

lemma malloc_size_mod4: "malloc_size sz mod 4 = 0"
proof -
  have "unat (RT_ALIGN sz RT_ALIGN_SIZE) mod 4 = 0" unfolding unat_RT_ALIGN by (rule mod_mult_self2_is_0)
  then show ?thesis by (simp add: malloc_size_def max_def)
qed

lemma malloc_size_ge: "unat sz \<le> 2 ^ 32 - 4 \<Longrightarrow> unat sz \<le> malloc_size sz"
proof -
  assume "unat sz \<le> 2 ^ 32 - 4"
  then have "unat sz + 3 < 2 ^ 32" by simp
  then have "(unat sz + 3) mod 2 ^ 32 div 4 * 4 = (unat sz + 3) div 4 * 4" by (simp only: mod_less)
  then have "unat (RT_ALIGN sz RT_ALIGN_SIZE) = (unat sz + 3) div 4 * 4" by (simp only: unat_RT_ALIGN)
  moreover have "unat sz \<le> (unat sz + 3) div 4 * 4" by presburger
  ultimately show ?thesis by (simp add: malloc_size_def)
qed

lemma heap_wf_lfree:
  assumes "heap_wf h bs" "l \<in> insert (heap_end h) (set bs)"
  shows "heap_wf (h\<lparr>lfree := l\<rparr>) bs"
  using assms unfolding heap_wf_def by (elim conjE, intro conjI) auto

lemma live_lfree [simp]: "live (h\<lparr>lfree := l\<rparr>) bs = live h bs"
  by (simp add: live_def)

lemma lfree_suffix:
  assumes "heap_wf h bs"
  obtains xs ys where "bs = xs @ ys" "chain (heap_mems h) (lfree h) ys (heap_end h)"
    "\<forall>x \<in> set xs. x < lfree h" "\<forall>y \<in> set ys. lfree h \<le> y"
  by (rule chain_suffix [OF heap_wfD(1,9) [OF assms]]) (rule that)

lemma find_chain_first:
  assumes "chain m p ys e" "List.find P ys = Some b" "c \<in> set ys" "c < b"
  shows "\<not> P c"
proof -
  from assms(2) obtain i where i: "i < length ys" "b = ys ! i" "\<forall>j < i. \<not> P (ys ! j)"
    by (auto simp: find_Some_iff)
  from assms(3) obtain j where j: "j < length ys" "c = ys ! j" by (auto simp: in_set_conv_nth)
  have "j < i"
  proof (rule ccontr)
    assume "\<not> j < i"
    then have "b \<le> c"
      using sorted_wrt_nth_less [OF chain_sorted [OF assms(1)], of i j] i j
      by (cases "i = j") auto
    then show False using assms(4) by simp
  qed
  then show ?thesis using i j by simp
qed

text \<open>The walk of \<open>lfree\<close> after a block was claimed.\<close>

lemma lfree_walk_wf:
  assumes wf: "heap_wf h bs"
  obtains l where "lfree_walk h (lfree h) = Some l" "l \<in> insert (heap_end h) (set bs)"
    "l = heap_end h \<or> usd h l = 0" "\<And>c. c \<in> set bs \<Longrightarrow> lfree h \<le> c \<Longrightarrow> c < l \<Longrightarrow> usd h c = 1"
proof -
  note D = heap_wfD [OF wf]
  obtain xs ys where s: "bs = xs @ ys" "chain (heap_mems h) (lfree h) ys (heap_end h)"
    "\<forall>x \<in> set xs. x < lfree h" "\<forall>y \<in> set ys. lfree h \<le> y" by (rule lfree_suffix [OF wf])
  have le1: "\<forall>b \<in> set ys. usd h b \<le> 1" using D(7) s(1) by auto
  note w = lfree_walk_spec [OF s(2) D(5) le1]
  have used: "usd h c = 1" if "c \<in> set ys" "usd h c \<noteq> 0" for c using le1 that by fastforce
  have iny: "c \<in> set ys" if "c \<in> set bs" "lfree h \<le> c" for c using that s by fastforce
  show thesis
  proof (cases "List.find (\<lambda>b. usd h b = 0) ys")
    case None
    then have "\<forall>c \<in> set ys. usd h c \<noteq> 0" by (simp add: find_None_iff)
    with None w used iny show thesis by (intro that [of "heap_end h"]) auto
  next
    case (Some l)
    then have l: "l \<in> set ys" "usd h l = 0" by (auto simp: find_Some_iff)
    show thesis
    proof (rule that [of l])
      show "usd h c = 1" if "c \<in> set bs" "lfree h \<le> c" "c < l" for c
        using find_chain_first [OF s(2) Some iny [OF that(1,2)] that(3)] used iny that by blast
    qed (use w Some l s(1) in auto)
  qed
qed

lemma malloc_take_spec:
  assumes wf: "heap_wf h bs" and b: "b \<in> set bs" "usd h b = 0"
    and sz: "sz mod 4 = 0" "sz \<le> nxt h b - b - SIZEOF_STRUCT_MEM"
  obtains h' bs' n where "malloc_take b sz h = Some (Some (heap_ptr h + b + SIZEOF_STRUCT_MEM), h')"
    "heap_wf h' bs'" "sz \<le> n"
    "live h' bs' = insert (heap_ptr h + b + SIZEOF_STRUCT_MEM, n) (live h bs)"
    "heap_ptr h' = heap_ptr h" "heap_bytes h' = heap_bytes h" "heap_end h' = heap_end h"
    "lfree_lowest h bs \<Longrightarrow> lfree h \<le> b \<Longrightarrow> lfree_lowest h' bs'"
    "used_mem h = used_bytes h bs \<Longrightarrow> used_mem h' = used_bytes h' bs'"
    "mem_size_aligned h' = mem_size_aligned h"
proof -
  let ?a = "heap_ptr h + b + SIZEOF_STRUCT_MEM"
  define h1 where "h1 = mem_at b (hm_magic_update (\<lambda>_. HEAP_MAGIC)) (malloc_split b sz h)"
  obtain bs' where c: "heap_wf h1 bs'" "set bs \<subseteq> set bs'" "b \<in> set bs'"
    "usd h1 b = 1" "b + SIZEOF_STRUCT_MEM + sz \<le> nxt h1 b"
    "\<And>c. c \<in> set bs \<Longrightarrow> c \<noteq> b \<Longrightarrow> usd h1 c = usd h c \<and> nxt h1 c = nxt h c"
    "\<And>c. c \<in> set bs' \<Longrightarrow> c \<notin> set bs \<Longrightarrow> usd h1 c = 0 \<and> b < c"
    "used_mem h1 = add32 (used_mem h) (nxt h1 b - b)"
    "lfree h1 = lfree h" "heap_ptr h1 = heap_ptr h" "heap_end h1 = heap_end h"
    "heap_bytes h1 = heap_bytes h"
    using malloc_claim [OF wf b sz h1_def] by blast
  define n where "n = nxt h1 b - b - SIZEOF_STRUCT_MEM"
  have n: "sz \<le> n" "n + SIZEOF_STRUCT_MEM = nxt h1 b - b" using c(5) by (simp_all add: n_def)
  have lv: "live h1 bs' = insert (?a, n) (live h bs)"
    using live_insert [OF c(3,2) _ c(4,10,6)] b(2) c(7) by (simp add: n_def)
  have "nxt h1 b \<le> heap_end h"
    using chain_bounds [OF heap_wfD(1) [OF c(1)] c(3)] c(11) by simp
  then have fit: "b + SIZEOF_STRUCT_MEM + sz \<le> heap_end h" using c(5) by simp
  have al: "(heap_ptr h + b) mod 4 = 0"
    using heap_wfD(6) [OF wf b(1)] heap_wfD(10) [OF wf] by presburger
  then have al': "(heap_ptr h + b + SIZEOF_STRUCT_MEM) mod 4 = 0" by presburger
  obtain l where l: "lfree_walk h1 (lfree h1) = Some l" "l \<in> insert (heap_end h1) (set bs')"
    "l = heap_end h1 \<or> usd h1 l = 0" "\<And>c. c \<in> set bs' \<Longrightarrow> lfree h1 \<le> c \<Longrightarrow> c < l \<Longrightarrow> usd h1 c = 1"
    using lfree_walk_wf [OF c(1)] by metis
  define h2 where "h2 = (if b = lfree h1 then h1\<lparr>lfree := l\<rparr> else h1)"
  have tk: "malloc_take b sz h = Some (Some ?a, h2)"
    unfolding malloc_take_def h1_def [symmetric] Let_def
    using l(1,3) fit al al' c(9-11) by (auto simp: h2_def)
  have low: "lfree_lowest h2 bs'" if low0: "lfree_lowest h bs" and le: "lfree h \<le> b"
    unfolding lfree_lowest_def
  proof (intro ballI impI)
    fix d assume d: "d \<in> set bs'" "d < lfree h2"
    have inbs: "usd h1 d = 1" if "d < lfree h"
    proof -
      from that le c(7) [of d] d(1) have "d \<in> set bs" "d \<noteq> b" by auto
      with c(6) low0 that show ?thesis by (simp add: lfree_lowest_def)
    qed
    show "usd h2 d = 1"
      using d inbs l(4) [OF d(1)] c(9) by (cases "d < lfree h") (auto simp: h2_def split: if_splits)
  qed
  have h2: "used_mem h2 = used_mem h1" "heap_mems h2 = heap_mems h1" "heap_ptr h2 = heap_ptr h"
    "heap_bytes h2 = heap_bytes h" "heap_end h2 = heap_end h" "live h2 bs' = live h1 bs'"
    "heap_wf h2 bs'"
    using c l(2) by (auto simp: h2_def heap_wf_lfree)
  have ub: "used_bytes h2 bs' = used_bytes h bs + (nxt h1 b - b)"
    using used_bytes_insert [OF c(3,2) _ c(4,6)] b(2) c(7) h2(2) by (simp add: used_bytes_def)
  have "used_mem h2 = used_bytes h2 bs'" if "used_mem h = used_bytes h bs"
  proof -
    have "used_bytes h bs + (nxt h1 b - b) < 2 ^ 32"
      using used_bytes_le [OF h2(7)] ub h2(5) heap_wfD(13) [OF wf] by simp
    then show ?thesis using that ub c(8) h2(1) by (simp add: add32_eq)
  qed
  moreover have "mem_size_aligned h2 = mem_size_aligned h"
    using heap_wfD(4) [OF wf] heap_wfD(4) [OF h2(7)] h2(5) by simp
  ultimately show thesis
    by (intro that [OF tk h2(7) n(1)]) (use lv h2 low in auto)
qed

text \<open>\<open>rt_malloc\<close>: first fit from \<open>lfree\<close>, or the heap as it was.\<close>

lemma rt_malloc_spec:
  assumes wf: "heap_wf h bs" and acct: "used_mem h = used_bytes h bs"
  obtains (fail) "rt_malloc sz h = Some (None, h)"
      "sz = 0 \<or> mem_size_aligned h < unat (RT_ALIGN sz RT_ALIGN_SIZE) \<or>
       (\<forall>b \<in> set bs. lfree h \<le> b \<longrightarrow> \<not> fits h (malloc_size sz) b)"
  | (ok) a h' bs' n where "rt_malloc sz h = Some (Some a, h')" "heap_wf h' bs'"
      "used_mem h' = used_bytes h' bs'" "malloc_size sz \<le> n"
      "live h' bs' = insert (a, n) (live h bs)" "a \<notin> fst ` live h bs"
      "heap_ptr h' = heap_ptr h" "heap_end h' = heap_end h" "heap_bytes h' = heap_bytes h"
      "lfree_lowest h bs \<Longrightarrow> lfree_lowest h' bs'" "sz \<noteq> 0"
proof -
  note D = heap_wfD [OF wf]
  obtain xs ys where s: "bs = xs @ ys" "chain (heap_mems h) (lfree h) ys (heap_end h)"
    "\<forall>x \<in> set xs. x < lfree h" "\<forall>y \<in> set ys. lfree h \<le> y" by (rule lfree_suffix [OF wf])
  let ?n = "malloc_size sz"
  have sz_eq: "rt_malloc sz h = do { r \<leftarrow> malloc_search h ?n (lfree h);
      case r of None \<Rightarrow> Some (None, h) | Some ptr \<Rightarrow> malloc_take ptr ?n h }"
    if "sz \<noteq> 0" "\<not> mem_size_aligned h < unat (RT_ALIGN sz RT_ALIGN_SIZE)"
    using that unfolding rt_malloc_def malloc_size_def max_def Let_def by (auto simp: not_less)
  show thesis
  proof (cases "sz = 0 \<or> mem_size_aligned h < unat (RT_ALIGN sz RT_ALIGN_SIZE)")
    case True
    then have "rt_malloc sz h = Some (None, h)" by (auto simp: rt_malloc_def Let_def)
    with True show thesis by (intro fail) blast+
  next
    case False
    then have "?n \<le> mem_size_aligned h" using D(12) by (simp add: malloc_size_def)
    moreover have "heap_end h < 2 ^ 32" using D(13) by simp
    ultimately have m: "malloc_search h ?n (lfree h) = Some (List.find (fits h ?n) ys)"
      using malloc_search_spec [OF s(2) D(4)] by blast
    show thesis
    proof (cases "List.find (fits h ?n) ys")
      case None
      then have "\<forall>b \<in> set ys. \<not> fits h ?n b" by (simp add: find_None_iff)
      then have "\<forall>b \<in> set bs. lfree h \<le> b \<longrightarrow> \<not> fits h ?n b" using s(1,3) by force
      moreover have "rt_malloc sz h = Some (None, h)" using sz_eq False m None by simp
      ultimately show thesis by (intro fail) blast+
    next
      case (Some b)
      then have "b \<in> set ys" "fits h ?n b" by (auto simp: find_Some_iff)
      then have b: "b \<in> set bs" "usd h b = 0" "?n \<le> nxt h b - b - SIZEOF_STRUCT_MEM" "lfree h \<le> b"
        using s(1,4) by (auto simp: fits_def)
      let ?a = "heap_ptr h + b + SIZEOF_STRUCT_MEM"
      obtain h' bs' n where t: "malloc_take b ?n h = Some (Some ?a, h')" "heap_wf h' bs'" "?n \<le> n"
        "live h' bs' = insert (?a, n) (live h bs)" "heap_ptr h' = heap_ptr h"
        "heap_bytes h' = heap_bytes h" "heap_end h' = heap_end h"
        "lfree_lowest h bs \<Longrightarrow> lfree h \<le> b \<Longrightarrow> lfree_lowest h' bs'"
        "used_mem h = used_bytes h bs \<Longrightarrow> used_mem h' = used_bytes h' bs'"
        using malloc_take_spec [OF wf b(1,2) malloc_size_mod4 b(3)] by metis
      have eq: "rt_malloc sz h = Some (Some ?a, h')" using sz_eq False m Some t(1) by simp
      have nl: "?a \<notin> fst ` live h bs" using b(2) by (auto simp: live_def)
      show thesis
        by (rule ok [OF eq t(2) t(9) [OF acct] t(3,4) nl t(5,7,6)])
          (use t(8) b(4) False in auto)
    qed
  qed
qed

end
