(* ===== verification/RtHeap.thy ===== *)
theory RtHeap
  imports RtMemProps
begin

text \<open>
  The rest of the contract of \<^verbatim>\<open>src/mem.c\<close>: freeing with the joining of neighbours,
  initialisation, resizing and clearing allocation, and the allocator interface the other
  components rely on, which the heap of the code provides.
\<close>

subsection \<open>Freeing and joining\<close>

text \<open>What joining leaves of the heap: same used blocks, same flags, fewer boundaries.\<close>

definition joined :: "heap_state \<Rightarrow> nat list \<Rightarrow> heap_state \<Rightarrow> nat list \<Rightarrow> bool" where
  "joined h bs h' bs' \<longleftrightarrow>
     set bs' \<subseteq> set bs \<and> (\<forall>c. usd h' c = usd h c) \<and>
     (\<forall>c. usd h c = 1 \<longrightarrow> nxt h' c = nxt h c) \<and>
     (\<forall>c \<in> set bs. usd h c = 1 \<longrightarrow> c \<in> set bs') \<and>
     lfree h' \<le> lfree h \<and> heap_ptr h' = heap_ptr h \<and> heap_end h' = heap_end h \<and>
     heap_bytes h' = heap_bytes h \<and> used_mem h' = used_mem h"

lemma joined_refl: "joined h bs h bs"
  by (simp add: joined_def)

lemma joined_trans: "joined h bs h1 bs1 \<Longrightarrow> joined h1 bs1 h2 bs2 \<Longrightarrow> joined h bs h2 bs2"
  unfolding joined_def by force

lemma joined_live:
  assumes "joined h bs h' bs'"
  shows "live h' bs' = live h bs" "used_bytes h' bs' = used_bytes h bs"
    "lfree_lowest h bs \<Longrightarrow> lfree_lowest h' bs'"
proof -
  have s: "{c \<in> set bs'. usd h' c = 1} = {c \<in> set bs. usd h c = 1}"
    using assms unfolding joined_def by auto
  have "live h bs = (\<lambda>c. (heap_ptr h + c + SIZEOF_STRUCT_MEM, nxt h c - c - SIZEOF_STRUCT_MEM)) `
      {c \<in> set bs. usd h c = 1}" for h bs by (auto simp: live_def)
  then show "live h' bs' = live h bs"
    unfolding s using assms by (auto simp: joined_def intro!: image_cong)
  show "used_bytes h' bs' = used_bytes h bs"
    unfolding used_bytes_def s using assms by (auto simp: joined_def)
  show "lfree_lowest h bs \<Longrightarrow> lfree_lowest h' bs'"
    using assms unfolding joined_def lfree_lowest_def by force
qed

lemma merge_shape:
  assumes sh: "heap_shape h (xs @ a # c # ys)" and free: "usd h a = 0" "usd h c = 0"
    and h': "h' = mem_at (nxt h c) (hm_prev_update (\<lambda>_. a))
          (mem_at a (hm_next_update (\<lambda>_. nxt h c)) (if lfree h = c then h\<lparr>lfree := a\<rparr> else h))"
  shows "heap_shape h' (xs @ a # ys)" "joined h (xs @ a # c # ys) h' (xs @ a # ys)"
proof -
  note D = heap_shapeD [OF sh]
  have cx: "chain (heap_mems h) 0 xs a" and ca: "a + SIZEOF_STRUCT_MEM \<le> c" "nxt h a = c"
    and cc: "c + SIZEOF_STRUCT_MEM \<le> nxt h c" "chain (heap_mems h) (nxt h c) ys (heap_end h)"
    using D(1) by auto
  let ?n = "nxt h c"
  have ne: "?n \<le> heap_end h" by (rule chain_le [OF cc(2)])
  have ygt: "?n \<le> y" if "y \<in> set ys" for y using chain_bounds [OF cc(2) that] by simp
  have xlt: "x < a" if "x \<in> set xs" for x using chain_less [OF cx that] .
  have m': "heap_mems h' = (heap_mems h)(a := (heap_mems h a)\<lparr>hm_next := ?n\<rparr>,
      ?n := (heap_mems h ?n)\<lparr>hm_prev := a\<rparr>)"
    using ca cc(1) unfolding h' by (auto simp: fun_eq_iff)
  let ?m = "heap_mems h'"
  have fx: "?m x = heap_mems h x" if "x \<in> set xs" for x
    using xlt [OF that] ca cc(1) m' by auto
  have fa: "?m a = (heap_mems h a)\<lparr>hm_next := ?n\<rparr>" using ca cc(1) m' by auto
  have us: "usd h' x = usd h x" "hm_magic (?m x) = hm_magic (heap_mems h x)" for x
    using ca cc(1) m' by auto
  have nx: "x \<noteq> a \<Longrightarrow> nxt h' x = nxt h x" for x using m' by auto
  have "chain ?m 0 xs a" using cx fx by (subst chain_cong [of xs _ "heap_mems h"]) auto
  moreover have "chain ?m ?n ys (heap_end h)"
    using cc ygt nx ca(1) by (subst chain_cong [of ys _ "heap_mems h"]) fastforce+
  ultimately have ch: "chain ?m 0 (xs @ a # ys) (heap_end h)" using fa ca(1) cc(1) by simp
  have "backs ?m 0 xs" using D(2) fx by (subst backs_cong [of xs _ "heap_mems h"]) auto
  moreover have "backs ?m a ys"
  proof (rule backs_relink [OF cc(2)])
    show "backs (heap_mems h) c ys" using D(2) by simp
    show "distinct ys" by (rule chain_distinct [OF cc(2)])
    show "hm_prev (?m y) = prv h y" if "y \<in> set ys" "y \<noteq> ?n" for y using m' that by auto
  qed (use m' in simp)
  ultimately have ba: "backs ?m 0 (xs @ a # ys)" using D(2) fa by simp
  have f: "heap_ptr h' = heap_ptr h" "heap_end h' = heap_end h" "heap_bytes h' = heap_bytes h"
    "used_mem h' = used_mem h" "mem_size_aligned h' = mem_size_aligned h"
    "lfree h' = (if lfree h = c then a else lfree h)" unfolding h' by auto
  show "heap_shape h' (xs @ a # ys)"
    unfolding heap_shape_def f us using ch ba D(3-13) by (intro conjI ballI) auto
  show "joined h (xs @ a # c # ys) h' (xs @ a # ys)"
  proof -
    have "nxt h' x = nxt h x" if "usd h x = 1" for x using nx [of x] free that by (cases "x = a") auto
    then show ?thesis unfolding joined_def f using us free ca by auto
  qed
qed


lemma coalesced_join:
  assumes "coalesced m w (xs @ a # ys)" "\<And>c. c \<in> set (xs @ a # ys) \<Longrightarrow> hm_used (m' c) = hm_used (m c)"
  shows "coalesced m' w (xs @ a # ys)"
  using assms(1) coalesced_cong [of "xs @ a # ys" m' m w] assms(2) by auto

text \<open>Joining with the next block. The freed block may still have a free block before it.\<close>

lemma plug_forward_shape:
  assumes sh: "heap_shape h (xs @ b # ys)" and free: "usd h b = 0"
    and co: "coalesced (heap_mems h) False ys"
  obtains ys' where "heap_shape (plug_forward b h) (xs @ b # ys')"
    "joined h (xs @ b # ys) (plug_forward b h) (xs @ b # ys')"
    "coalesced (heap_mems (plug_forward b h)) True ys'" "set ys' \<subseteq> set ys"
proof (cases "ys \<noteq> [] \<and> usd h (hd ys) = 0")
  case True
  then obtain c zs where ys: "ys = c # zs" "usd h c = 0" by (cases ys) auto
  have c: "chain (heap_mems h) b (b # c # zs) (heap_end h)" using heap_shapeD(1) [OF sh] ys by simp
  then have n: "nxt h b = c" "b < c" by auto
  have "c < heap_end h" using chain_less [OF c] by simp
  then have eq: "plug_forward b h = mem_at (nxt h c) (hm_prev_update (\<lambda>_. b))
      (mem_at b (hm_next_update (\<lambda>_. nxt h c)) (if lfree h = c then h\<lparr>lfree := b\<rparr> else h))"
    using n ys by (simp add: plug_forward_def Let_def)
  note m = merge_shape [OF sh [unfolded ys] free ys(2) eq]
  have u: "usd (plug_forward b h) x = usd h x" for x using m(2) by (simp add: joined_def)
  have "coalesced (heap_mems (plug_forward b h)) True zs = coalesced (heap_mems h) True zs"
    by (rule coalesced_cong) (simp add: u)
  then show thesis using co ys m by (intro that [of zs]) auto
next
  case False
  have c: "chain (heap_mems h) b (b # ys) (heap_end h)" using heap_shapeD(1) [OF sh] by simp
  then have "plug_forward b h = h"
    using False heap_shapeD(4) [OF sh] by (cases ys) (auto simp: plug_forward_def)
  moreover have "coalesced (heap_mems h) True ys" using False co by (cases ys) auto
  ultimately show thesis using sh by (intro that [of ys]) (auto simp: joined_refl)
qed

lemma plug_backward_wf:
  assumes sh: "heap_shape h (xs @ b # ys)" and free: "usd h b = 0"
    and co: "coalesced (heap_mems h) False xs" "coalesced (heap_mems h) True ys"
  obtains bs' where "heap_wf (plug_backward b h) bs'"
    "joined h (xs @ b # ys) (plug_backward b h) bs'"
proof (cases "xs \<noteq> [] \<and> usd h (last xs) = 0")
  case True
  then obtain zs p where xs: "xs = zs @ [p]" "usd h p = 0" by (cases xs rule: rev_cases) auto
  have pb: "prv h b = p" using heap_shapeD(2) [OF sh] xs by simp
  have "chain (heap_mems h) p [p] b" using heap_shapeD(1) [OF sh] xs by simp
  then have "p < b" by auto
  then have eq: "plug_backward b h = mem_at (nxt h b) (hm_prev_update (\<lambda>_. p))
      (mem_at p (hm_next_update (\<lambda>_. nxt h b)) (if lfree h = b then h\<lparr>lfree := p\<rparr> else h))"
    using pb xs by (simp add: plug_backward_def Let_def)
  have sh': "heap_shape h (zs @ p # b # ys)" using sh xs by simp
  note m = merge_shape [OF sh' xs(2) free eq]
  have u: "usd (plug_backward b h) x = usd h x" for x using m(2) by (simp add: joined_def)
  have "coalesced (heap_mems (plug_backward b h)) False (zs @ p # ys) =
      coalesced (heap_mems h) False (zs @ p # ys)"
    by (rule coalesced_cong) (simp add: u)
  also have "\<dots>" using co xs by auto
  finally show thesis using m xs by (intro that [of "zs @ p # ys"]) (auto simp: heap_wf_shape)
next
  case False
  have "prv h b = last (0 # xs)" using heap_shapeD(2) [OF sh] by simp
  moreover have "xs = [] \<Longrightarrow> b = 0" using heap_shapeD(1) [OF sh] by simp
  ultimately have "plug_backward b h = h"
    using False by (auto simp: plug_backward_def Let_def)
  then show thesis using False sh co free
    by (intro that [of "xs @ b # ys"]) (auto simp: joined_refl heap_wf_shape free_last_def)
qed

lemma live_elim:
  assumes "(a, n) \<in> live h bs"
  obtains b where "b \<in> set bs" "usd h b = 1" "a = heap_ptr h + b + SIZEOF_STRUCT_MEM"
    "n = nxt h b - b - SIZEOF_STRUCT_MEM"
  using assms unfolding live_def by auto

lemma plug_holes_wf:
  assumes sh: "heap_shape h (xs @ b # ys)" and free: "usd h b = 0"
    and co: "coalesced (heap_mems h) False xs" "coalesced (heap_mems h) False ys"
  obtains h' bs' where "plug_holes b h = Some h'" "heap_wf h' bs'" "joined h (xs @ b # ys) h' bs'"
proof -
  obtain ys' where f: "heap_shape (plug_forward b h) (xs @ b # ys')"
    "joined h (xs @ b # ys) (plug_forward b h) (xs @ b # ys')"
    "coalesced (heap_mems (plug_forward b h)) True ys'"
    using plug_forward_shape [OF sh free co(2)] by metis
  have u: "usd (plug_forward b h) x = usd h x" for x using f(2) by (simp add: joined_def)
  have "coalesced (heap_mems (plug_forward b h)) False xs = coalesced (heap_mems h) False xs"
    by (rule coalesced_cong) (simp add: u)
  with co(1) have cx: "coalesced (heap_mems (plug_forward b h)) False xs" by simp
  obtain bs' where w: "heap_wf (plug_backward b (plug_forward b h)) bs'"
    "joined (plug_forward b h) (xs @ b # ys') (plug_backward b (plug_forward b h)) bs'"
    using plug_backward_wf [OF f(1) _ cx f(3)] free u by metis
  have "b < heap_end h" using chain_less [OF heap_shapeD(1) [OF sh]] by simp
  then show thesis using free by (intro that [OF _ w(1) joined_trans [OF f(2) w(2)]])
    (simp add: plug_holes_def)
qed

lemma live_remove:
  assumes "b \<in> set bs" "usd h b = 1" "a = heap_ptr h + b + SIZEOF_STRUCT_MEM"
    "n = nxt h b - b - SIZEOF_STRUCT_MEM" "heap_ptr h2 = heap_ptr h"
    and u: "\<And>c. usd h2 c = (if c = b then 0 else usd h c)" "\<And>c. nxt h2 c = nxt h c"
  shows "live h2 bs = live h bs - {(a, n)}"
proof -
  let ?F = "\<lambda>c. (heap_ptr h + c + SIZEOF_STRUCT_MEM, nxt h c - c - SIZEOF_STRUCT_MEM)"
  have "live h2 bs = ?F ` ({c \<in> set bs. usd h c = 1} - {b})"
    unfolding live_def u assms(5) by (auto split: if_splits)
  also have "\<dots> = ?F ` {c \<in> set bs. usd h c = 1} - ?F ` {b}"
    by (rule inj_on_image_set_diff [of _ UNIV]) (auto intro: injI)
  also have "?F ` {c \<in> set bs. usd h c = 1} = live h bs" by (auto simp: live_def)
  finally show ?thesis using assms(3,4) by simp
qed

lemma used_bytes_remove:
  assumes "b \<in> set bs" "usd h b = 1"
    and u: "\<And>c. usd h2 c = (if c = b then 0 else usd h c)" "\<And>c. nxt h2 c = nxt h c"
  shows "used_bytes h bs = (nxt h b - b) + used_bytes h2 bs"
proof -
  have "{c \<in> set bs. usd h c = 1} = insert b {c \<in> set bs. usd h2 c = 1}"
    using assms(1,2) unfolding u by (intro set_eqI) simp
  moreover have "b \<notin> {c \<in> set bs. usd h2 c = 1}" by (simp add: u)
  ultimately show ?thesis unfolding used_bytes_def u(2) by simp
qed

text \<open>\<open>rt_free\<close> of an allocated block always succeeds, and gives up exactly that block.\<close>

lemma rt_free_spec:
  assumes wf: "heap_wf h bs" and acct: "used_mem h = used_bytes h bs" and al: "(a, n) \<in> live h bs"
  obtains h' bs' where "rt_free (Some a) h = Some h'" "heap_wf h' bs'"
    "used_mem h' = used_bytes h' bs'" "live h' bs' = live h bs - {(a, n)}"
    "heap_ptr h' = heap_ptr h" "heap_end h' = heap_end h" "heap_bytes h' = heap_bytes h"
    "lfree_lowest h bs \<Longrightarrow> lfree_lowest h' bs'"
    "used_mem h' + n + SIZEOF_STRUCT_MEM = used_mem h"
proof -
  obtain b where b: "b \<in> set bs" "usd h b = 1" "a = heap_ptr h + b + SIZEOF_STRUCT_MEM"
    "n = nxt h b - b - SIZEOF_STRUCT_MEM" using al by (rule live_elim)
  note D = heap_wfD [OF wf]
  obtain xs ys where bs: "bs = xs @ b # ys" using b(1) by (meson split_list)
  note at = heap_wf_at [OF wf [unfolded bs]]
  note last24 = D(14) [OF b(1)]
  define h2 where "h2 = (mem_at b (\<lambda>m. m\<lparr>hm_used := 0, hm_magic := 0\<rparr>) h)
      \<lparr>lfree := min b (lfree h), used_mem := sub32 (used_mem h) (nxt h b - b)\<rparr>"
  have e: "a mod 4 = 0" "heap_ptr h \<le> a" "a < heap_ptr h + heap_end h"
    "heap_ptr h + SIZEOF_STRUCT_MEM \<le> a" "a - SIZEOF_STRUCT_MEM - heap_ptr h = b"
    "sub32 (nxt h b) b = nxt h b - b" "hm_magic (heap_mems h b) = HEAP_MAGIC"
    using b(2-4) last24 D(8) [OF b(1,2)] D(6) [OF b(1)] D(10) at(1,2,5) by (simp_all add: sub32_eq) presburger
  have eq: "rt_free (Some a) h = plug_holes b h2"
    using e b(2) by (auto simp: rt_free_def Let_def h2_def mem_at_def min_def intro!: arg_cong2 [of _ _ _ _ plug_holes])
  have m2: "heap_mems h2 = (heap_mems h)(b := (heap_mems h b)\<lparr>hm_used := 0, hm_magic := 0\<rparr>)"
    and f2: "heap_ptr h2 = heap_ptr h" "heap_end h2 = heap_end h" "heap_bytes h2 = heap_bytes h"
      "mem_size_aligned h2 = mem_size_aligned h" "lfree h2 = min b (lfree h)"
      "used_mem h2 = sub32 (used_mem h) (nxt h b - b)"
    by (simp_all add: h2_def)
  have nb: "b \<notin> set xs" "b \<notin> set ys" "b \<noteq> heap_end h"
    using chain_distinct [OF D(1)] at(3) bs by auto
  have cx: "coalesced (heap_mems h2) False xs"
    using D(3) bs nb m2 by (subst coalesced_cong [of xs _ "heap_mems h"]) auto
  have cy: "coalesced (heap_mems h2) False ys"
    using D(3) bs nb m2 b(2) by (subst coalesced_cong [of ys _ "heap_mems h"]) auto
  have "chain (heap_mems h2) 0 bs (heap_end h)"
    using D(1) m2 by (subst chain_cong [of bs _ "heap_mems h"]) auto
  moreover have "backs (heap_mems h2) 0 bs"
    using D(2) m2 by (subst backs_cong [of bs _ "heap_mems h"]) auto
  moreover have "lfree h2 \<in> insert (heap_end h) (set bs)"
    using D(9) b(1) f2(5) by (simp add: min_def)
  ultimately have sh: "heap_shape h2 (xs @ b # ys)"
    unfolding heap_shape_def f2(1-4) bs [symmetric]
    using D(4-14) m2 nb(3) by (intro conjI ballI) auto
  have u2: "usd h2 c = (if c = b then 0 else usd h c)" "nxt h2 c = nxt h c" for c
    by (simp_all add: m2)
  have ub0: "usd h2 b = 0" by (simp add: u2)
  obtain h' bs' where p: "plug_holes b h2 = Some h'" "heap_wf h' bs'" "joined h2 bs h' bs'"
    using plug_holes_wf [OF sh ub0 cx cy] unfolding bs by blast
  have lv: "live h2 bs = live h bs - {(a, n)}"
    by (rule live_remove [OF b f2(1)]) (simp_all add: u2)
  have ub: "used_bytes h bs = (nxt h b - b) + used_bytes h2 bs"
    by (rule used_bytes_remove [OF b(1,2) u2])
  have "used_bytes h bs < 2 ^ 32" using used_bytes_le [OF wf] at(5) by simp
  then have um: "used_mem h2 = used_bytes h2 bs" using ub acct f2(6) by (simp add: sub32_eq)
  have low: "lfree_lowest h2 bs" if "lfree_lowest h bs"
    using that b(2) f2(5) by (auto simp: lfree_lowest_def u2)
  have j: "heap_ptr h' = heap_ptr h2" "heap_end h' = heap_end h2" "heap_bytes h' = heap_bytes h2"
    "used_mem h' = used_mem h2" using p(3) by (auto simp: joined_def)
  have n: "n + SIZEOF_STRUCT_MEM = nxt h b - b" using b(4) at(1) by simp
  show thesis
  proof (rule that [OF _ p(2)])
    show "rt_free (Some a) h = Some h'" using eq p(1) by simp
    show "used_mem h' = used_bytes h' bs'" using joined_live(2) [OF p(3)] j(4) um by simp
    show "live h' bs' = live h bs - {(a, n)}" using joined_live(1) [OF p(3)] lv by simp
    show "lfree_lowest h' bs'" if "lfree_lowest h bs" by (rule joined_live(3) [OF p(3) low [OF that]])
    show "used_mem h' + n + SIZEOF_STRUCT_MEM = used_mem h" using ub acct um j(4) n by simp
  qed (use j f2 in simp_all)
qed

subsection \<open>Initialisation\<close>

lemma rt_system_heap_init_wf:
  assumes "unat (RT_ALIGN b RT_ALIGN_SIZE) + 36 \<le> unat (RT_ALIGN_DOWN e RT_ALIGN_SIZE)"
  shows "heap_wf (rt_system_heap_init b e h) [0]" "live (rt_system_heap_init b e h) [0] = {}"
    "lfree_lowest (rt_system_heap_init b e h) [0]"
    "used_bytes (rt_system_heap_init b e h) [0] = 0"
    "used_mem (rt_system_heap_init b e h) = used_mem h"
    "heap_bytes (rt_system_heap_init b e h) = heap_bytes h"
    "heap_ptr (rt_system_heap_init b e h) = unat (RT_ALIGN b RT_ALIGN_SIZE)"
    "mem_size_aligned (rt_system_heap_init b e h) + 24 + unat (RT_ALIGN b RT_ALIGN_SIZE)
       = unat (RT_ALIGN_DOWN e RT_ALIGN_SIZE)"
proof -
  let ?b = "unat (RT_ALIGN b RT_ALIGN_SIZE)" and ?e = "unat (RT_ALIGN_DOWN e RT_ALIGN_SIZE)"
  let ?h = "rt_system_heap_init b e h"
  define k where "k = ?e - ?b - 24"
  have k: "?e = ?b + 24 + k" "12 \<le> k" using assms by (simp_all add: k_def)
  have c: "2 * SIZEOF_STRUCT_MEM < ?e \<and> ?b \<le> ?e - 2 * SIZEOF_STRUCT_MEM" using k by simp
  have d: "?e - ?b - 2 * SIZEOF_STRUCT_MEM = k" using k by simp
  have eq: "?h = (mem_at (k + 12) (\<lambda>_. \<lparr>hm_magic = HEAP_MAGIC, hm_used = 1, hm_next = k + 12, hm_prev = k + 12\<rparr>)
       (mem_at 0 (\<lambda>_. \<lparr>hm_magic = HEAP_MAGIC, hm_used = 0, hm_next = k + 12, hm_prev = 0\<rparr>)
         (h\<lparr>mem_size_aligned := k, heap_ptr := ?b\<rparr>)))\<lparr>heap_end := k + 12, lfree := 0\<rparr>"
    unfolding rt_system_heap_init_def Let_def if_P [OF c] d by simp
  have b4: "?b mod 4 = 0" "?e mod 4 = 0"
    unfolding unat_RT_ALIGN unat_RT_ALIGN_DOWN by (rule mod_mult_self2_is_0)+
  then have k4: "k mod 4 = 0" using k(1) by presburger
  then have k4': "(k + 12) mod 4 = 0" by presburger
  have "?e < 2 ^ 32" using unsigned_less [of "RT_ALIGN_DOWN e RT_ALIGN_SIZE"] by simp
  then have bd: "?b + k + 24 < 2 ^ 32" using k(1) by simp
  show "heap_wf ?h [0]" unfolding eq heap_wf_def using k(2) b4 k4' bd by simp
  show "live ?h [0] = {}" "lfree_lowest ?h [0]" "used_bytes ?h [0] = 0"
    unfolding eq by (simp_all add: live_def lfree_lowest_def used_bytes_def)
  show "used_mem ?h = used_mem h" "heap_bytes ?h = heap_bytes h" "heap_ptr ?h = ?b"
    "mem_size_aligned ?h + 24 + ?b = ?e" unfolding eq using k by simp_all
qed

subsection \<open>Resizing\<close>

lemma live_block:
  assumes wf: "heap_wf h bs" and al: "(a, n) \<in> live h bs"
  obtains xs b ys where "bs = xs @ b # ys" "usd h b = 1" "a = heap_ptr h + b + SIZEOF_STRUCT_MEM"
    "nxt h b = b + SIZEOF_STRUCT_MEM + n" "a - SIZEOF_STRUCT_MEM - heap_ptr h = b"
    "sub32 (sub32 (nxt h b) b) SIZEOF_STRUCT_MEM = n" "a < heap_ptr h + heap_end h"
proof -
  obtain b where b: "b \<in> set bs" "usd h b = 1" "a = heap_ptr h + b + SIZEOF_STRUCT_MEM"
    "n = nxt h b - b - SIZEOF_STRUCT_MEM" using al by (rule live_elim)
  obtain xs ys where bs: "bs = xs @ b # ys" using b(1) by (meson split_list)
  note at = heap_wf_at [OF wf [unfolded bs]]
  have s: "sub32 (nxt h b) b = nxt h b - b" using at by (simp add: sub32_eq)
  have "sub32 (nxt h b - b) SIZEOF_STRUCT_MEM = n"
    by (subst sub32_eq) (use at b(4) in auto)
  then show thesis
    using that [OF bs b(2,3)] s at b heap_wfD(14) [OF wf b(1)] by simp
qed

lemma realloc_split_spec:
  assumes wf: "heap_wf h (xs @ b # ys)" and acct: "used_mem h = used_bytes h (xs @ b # ys)"
    and b: "usd h b = 1" "nxt h b = b + SIZEOF_STRUCT_MEM + n"
    and m: "m mod 4 = 0" "m + 24 < n" and a: "a = heap_ptr h + b + SIZEOF_STRUCT_MEM"
  obtains h' bs' where "realloc_split b n m h = Some h'" "heap_wf h' bs'"
    "used_mem h' = used_bytes h' bs'"
    "live h' bs' = insert (a, m) (live h (xs @ b # ys) - {(a, n)})"
    "heap_ptr h' = heap_ptr h" "heap_end h' = heap_end h" "heap_bytes h' = heap_bytes h"
proof -
  let ?bs = "xs @ b # ys" and ?b2 = "b + SIZEOF_STRUCT_MEM + m" and ?bs2 = "xs @ b # (b + SIZEOF_STRUCT_MEM + m) # ys"
  note at = heap_wf_at [OF wf] and D = heap_wfD [OF wf]
  define h3 where "h3 = (let h0 = h\<lparr>used_mem := sub32 (used_mem h) (sub32 n m)\<rparr>;
      h1 = mem_at ?b2 (\<lambda>_. \<lparr>hm_magic = HEAP_MAGIC, hm_used = 0, hm_next = nxt h0 b, hm_prev = b\<rparr>) h0;
      h2 = mem_at b (hm_next_update (\<lambda>_. ?b2)) h1
    in if nxt h2 ?b2 \<noteq> mem_size_aligned h2 + SIZEOF_STRUCT_MEM
       then mem_at (nxt h2 ?b2) (hm_prev_update (\<lambda>_. ?b2)) h2 else h2)"
  have eq: "realloc_split b n m h = plug_holes ?b2 h3"
    unfolding realloc_split_def h3_def Let_def ..
  have lt: "b < ?b2" "?b2 < nxt h b" "?b2 + SIZEOF_STRUCT_MEM \<le> nxt h b" "?b2 + 24 \<le> heap_end h"
    using b(2) m(2) at(2) by auto
  have m3: "heap_mems h3 = (let m1 = (heap_mems h)
        (?b2 := \<lparr>hm_magic = HEAP_MAGIC, hm_used = 0, hm_next = nxt h b, hm_prev = b\<rparr>,
         b := (heap_mems h b)\<lparr>hm_next := ?b2\<rparr>)
      in if nxt h b \<noteq> heap_end h then m1(nxt h b := (m1 (nxt h b))\<lparr>hm_prev := ?b2\<rparr>) else m1)"
    using lt D(4) by (simp add: h3_def Let_def)
  have f3: "heap_ptr h3 = heap_ptr h" "heap_end h3 = heap_end h" "heap_bytes h3 = heap_bytes h"
    "mem_size_aligned h3 = mem_size_aligned h" "lfree h3 = lfree h"
    "used_mem h3 = sub32 (used_mem h) (sub32 n m)"
    by (simp_all add: h3_def Let_def)
  have c: "chain (heap_mems h) 0 xs b" using D(1) by simp
  have xlt: "x < b" if "x \<in> set xs" for x using chain_less [OF c that] .
  have ygt: "nxt h b \<le> y" if "y \<in> set ys" for y using chain_bounds [OF at(4) that] by simp
  have fx: "heap_mems h3 x = heap_mems h x" if "x < b" for x
    using that lt unfolding m3 Let_def by auto
  have fb: "heap_mems h3 b = (heap_mems h b)\<lparr>hm_next := ?b2\<rparr>"
    "usd h3 ?b2 = 0" "nxt h3 ?b2 = nxt h b" "prv h3 ?b2 = b"
    using lt unfolding m3 Let_def by auto
  have fy: "nxt h3 y = nxt h y \<and> usd h3 y = usd h y \<and>
      hm_magic (heap_mems h3 y) = hm_magic (heap_mems h y) \<and> (y \<noteq> nxt h b \<longrightarrow> prv h3 y = prv h y)"
    if "nxt h b \<le> y" for y using that lt unfolding m3 Let_def by auto
  have fn: "prv h3 (nxt h b) = ?b2" if "ys \<noteq> []"
  proof -
    have "nxt h b \<noteq> heap_end h" using at(4) that chain_less [OF at(4), of "heap_end h"] by (cases ys) auto
    then show ?thesis unfolding m3 Let_def by simp
  qed
  have b24: "?b2 mod 4 = 0" using D(6) [of b] m(1) by simp presburger
  have nb2: "?b2 \<notin> set xs" "?b2 \<notin> set ys" "b \<notin> set xs" "b \<notin> set ys"
    using xlt ygt lt by fastforce+
  have ma: "hm_magic (heap_mems h b) = HEAP_MAGIC" by (rule D(8)) (use b in auto)
  have "lfree h3 \<in> insert (heap_end h) (set ?bs2)" using D(9) f3(5) by auto
  then have sh: "heap_shape h3 ?bs2"
    by (intro split_shape [of h xs b ys])
      (use wf lt b24 fx xlt fb fy fn f3 b(1) ma in \<open>auto simp: heap_wf_shape\<close>)
  then have sh': "heap_shape h3 ((xs @ [b]) @ ?b2 # ys)" by simp
  have "coalesced (heap_mems h3) False (xs @ [b]) = coalesced (heap_mems h) False (xs @ [b])"
    by (rule coalesced_cong) (use fx xlt fb in auto)
  also have "\<dots>" using D(3) b(1) by auto
  finally have co1: "coalesced (heap_mems h3) False (xs @ [b])" .
  have "coalesced (heap_mems h3) False ys = coalesced (heap_mems h) False ys"
    by (rule coalesced_cong) (use fy ygt in auto)
  also have "\<dots>" using D(3) b(1) by simp
  finally have co2: "coalesced (heap_mems h3) False ys" .
  obtain h' bs' where p: "plug_holes ?b2 h3 = Some h'" "heap_wf h' bs'" "joined h3 ?bs2 h' bs'"
    using plug_holes_wf [OF sh' fb(2) co1 co2] by (metis append_Cons append_Nil append_assoc)
  define hr where "hr = mem_at b (hm_used_update (\<lambda>_. 0)) h"
  have r: "usd hr c = (if c = b then 0 else usd h c)" "nxt hr c = nxt h c" "heap_ptr hr = heap_ptr h" for c
    by (simp_all add: hr_def)
  have n: "n = nxt h b - b - SIZEOF_STRUCT_MEM" using b(2) by simp
  have lr: "live hr ?bs = live h ?bs - {(a, n)}"
    by (rule live_remove [OF _ b(1) a n r(3) r(1,2)]) simp
  have ur: "used_bytes h ?bs = (nxt h b - b) + used_bytes hr ?bs"
    by (rule used_bytes_remove [OF _ b(1) r(1,2)]) simp
  have same: "usd h3 c = usd hr c \<and> nxt h3 c = nxt hr c" if "c \<in> set ?bs" "c \<noteq> b" for c
    using that fx xlt fy ygt r by auto
  have new: "usd h3 c = 0" if "c \<in> set ?bs2" "c \<notin> set ?bs" "c \<noteq> b" for c
    using that fb(2) by auto
  have h3b: "usd h3 b = 1" "nxt h3 b - b = m + SIZEOF_STRUCT_MEM" using fb(1) b(1) by auto
  have lv: "live h3 ?bs2 = insert (a, m) (live h ?bs - {(a, n)})"
    using live_insert [of b ?bs2 ?bs hr h3] same new h3b r f3(1) a lr by auto
  have "used_bytes h3 ?bs2 = used_bytes hr ?bs + (nxt h3 b - b)"
    by (rule used_bytes_insert [OF _ _ _ h3b(1) same new]) (auto simp: r)
  then have ub: "used_bytes h3 ?bs2 = used_bytes h ?bs - (n - m)" "n - m \<le> used_bytes h ?bs"
    using h3b(2) ur b(2) m(2) by simp_all
  have "used_bytes h ?bs < 2 ^ 32" "n < 2 ^ 32" using used_bytes_le [OF wf] at b(2) by simp_all
  then have um: "used_mem h3 = used_bytes h3 ?bs2" using acct ub f3(6) m(2) by (simp add: sub32_eq)
  have j: "heap_ptr h' = heap_ptr h3" "heap_end h' = heap_end h3" "heap_bytes h' = heap_bytes h3"
    "used_mem h' = used_mem h3" using p(3) by (auto simp: joined_def)
  show thesis
    by (rule that [OF _ p(2)]) (use eq p(1) joined_live(1,2) [OF p(3)] lv um j f3 in simp_all)
qed


lemma mod4_bound: "(m :: nat) mod 4 = 0 \<Longrightarrow> m < 2 ^ 32 \<Longrightarrow> m \<le> 2 ^ 32 - 4"
  unfolding power_numeral by simp presburger

lemma heap_bytes_frame [simp]:
  "heap_wf (h\<lparr>heap_bytes := f\<rparr>) bs = heap_wf h bs" "live (h\<lparr>heap_bytes := f\<rparr>) bs = live h bs"
  "used_bytes (h\<lparr>heap_bytes := f\<rparr>) bs = used_bytes h bs"
  "lfree_lowest (h\<lparr>heap_bytes := f\<rparr>) bs = lfree_lowest h bs"
  by (simp_all add: heap_wf_def used_bytes_def live_def lfree_lowest_def)

text \<open>\<open>rt_realloc\<close> of an allocated block: it fails and the heap is as it was, or the block is
  moved or resized and keeps its first bytes.\<close>

lemma rt_realloc_spec:
  assumes wf: "heap_wf h bs" and acct: "used_mem h = used_bytes h bs" and al: "(a, n) \<in> live h bs"
  obtains (fail) "rt_realloc (Some a) sz h = Some (None, h)"
  | (ok) a' m h' bs' where "rt_realloc (Some a) sz h = Some (Some a', h')" "heap_wf h' bs'"
      "used_mem h' = used_bytes h' bs'" "unat (RT_ALIGN sz RT_ALIGN_SIZE) \<le> m"
      "live h' bs' = insert (a', m) (live h bs - {(a, n)})"
      "heap_ptr h' = heap_ptr h" "heap_end h' = heap_end h"
      "\<forall>i < min n (unat (RT_ALIGN sz RT_ALIGN_SIZE)). heap_bytes h' (a' + i) = heap_bytes h (a + i)"
      "\<forall>(c, k) \<in> live h bs - {(a, n)}. \<forall>i < k. heap_bytes h' (c + i) = heap_bytes h (c + i)"
proof -
  let ?w = "RT_ALIGN sz RT_ALIGN_SIZE" let ?m = "unat ?w"
  obtain xs b ys where bs: "bs = xs @ b # ys" and b: "usd h b = 1"
      "a = heap_ptr h + b + SIZEOF_STRUCT_MEM" "nxt h b = b + SIZEOF_STRUCT_MEM + n"
      "a - SIZEOF_STRUCT_MEM - heap_ptr h = b"
      "sub32 (sub32 (nxt h b) b) SIZEOF_STRUCT_MEM = n" "a < heap_ptr h + heap_end h"
    using live_block [OF wf al] by metis
  have m4: "?m mod 4 = 0" unfolding unat_RT_ALIGN by (rule mod_mult_self2_is_0)
  have nd: "\<not> (a < heap_ptr h \<or> heap_ptr h + heap_end h \<le> a)" "\<not> a < heap_ptr h + SIZEOF_STRUCT_MEM"
    using b by auto
  have eq: "rt_realloc (Some a) sz h =
    (if mem_size_aligned h < ?m then Some (None, h)
     else if n = ?m then Some (Some a, h)
     else if ?m + 24 < n then do { h' \<leftarrow> realloc_split b n ?m h; Some (Some a, h') }
     else do {
       (r, h1) \<leftarrow> rt_malloc ?w h;
       case r of None \<Rightarrow> Some (None, h1)
       | Some c \<Rightarrow> do {
           h2 \<leftarrow> rt_free (Some a) (copy_bytes c a (if n < ?m then n else ?m) h1);
           Some (Some c, h2) } })"
    unfolding rt_realloc_def Let_def option.case b(4) b(5) using nd by (simp add: add.assoc)
  consider "mem_size_aligned h < ?m" | "\<not> mem_size_aligned h < ?m" "n = ?m"
    | "\<not> mem_size_aligned h < ?m" "?m + 24 < n"
    | "\<not> mem_size_aligned h < ?m" "n \<noteq> ?m" "\<not> ?m + 24 < n" by force
  then show thesis
  proof cases
    case 1 then show thesis using eq by (intro fail) simp
  next
    case 2
    show thesis
      by (rule ok [of a h bs n]) (use 2 eq wf acct al in auto)
  next
    case 3
    obtain h' bs' where s: "realloc_split b n ?m h = Some h'" "heap_wf h' bs'"
      "used_mem h' = used_bytes h' bs'" "live h' bs' = insert (a, ?m) (live h bs - {(a, n)})"
      "heap_ptr h' = heap_ptr h" "heap_end h' = heap_end h" "heap_bytes h' = heap_bytes h"
      using realloc_split_spec [OF wf [unfolded bs] acct [unfolded bs] b(1,3) m4 3(2) b(2)]
      unfolding bs by metis
    show thesis by (rule ok [of a h' bs' ?m]) (use 3 eq s in auto)
  next
    case 4
    then have eq4: "rt_realloc (Some a) sz h = do {
       (r, h1) \<leftarrow> rt_malloc ?w h;
       case r of None \<Rightarrow> Some (None, h1)
       | Some c \<Rightarrow> do {
           h2 \<leftarrow> rt_free (Some a) (copy_bytes c a (if n < ?m then n else ?m) h1);
           Some (Some c, h2) } }" using eq by simp
    show thesis
    proof (rule rt_malloc_spec [OF wf acct, of ?w])
      assume "rt_malloc ?w h = Some (None, h)"
      then show thesis using eq4 by (intro fail) simp
    next
      fix c h1 bs1 k
      assume ml: "rt_malloc ?w h = Some (Some c, h1)" "heap_wf h1 bs1"
        "used_mem h1 = used_bytes h1 bs1" "malloc_size ?w \<le> k"
        "live h1 bs1 = insert (c, k) (live h bs)" "c \<notin> fst ` live h bs"
        "heap_ptr h1 = heap_ptr h" "heap_end h1 = heap_end h" "heap_bytes h1 = heap_bytes h"
      define h1' where "h1' = copy_bytes c a (if n < ?m then n else ?m) h1"
      have h1': "heap_wf h1' bs1" "used_mem h1' = used_bytes h1' bs1" "live h1' bs1 = live h1 bs1"
        "heap_ptr h1' = heap_ptr h" "heap_end h1' = heap_end h"
        using ml by (simp_all add: h1'_def copy_bytes_def)
      have al': "(a, n) \<in> live h1' bs1" using al ml(5) h1'(3) by simp
      obtain h2 bs2 where f: "rt_free (Some a) h1' = Some h2" "heap_wf h2 bs2"
        "used_mem h2 = used_bytes h2 bs2" "live h2 bs2 = live h1' bs1 - {(a, n)}"
        "heap_ptr h2 = heap_ptr h1'" "heap_end h2 = heap_end h1'" "heap_bytes h2 = heap_bytes h1'"
        using rt_free_spec [OF h1'(1,2) al'] by metis
      have ne: "c \<noteq> a" using ml(6) al by force
      have "?m < 2 ^ 32" using unsigned_less [of ?w] by simp
      then have "?m \<le> 2 ^ 32 - 4" by (rule mod4_bound [OF m4])
      then have km: "?m \<le> k" using malloc_size_ge [of ?w] ml(4) by simp
      have dis: "c + k + SIZEOF_STRUCT_MEM \<le> d \<or> d + j + SIZEOF_STRUCT_MEM \<le> c"
        if "(d, j) \<in> live h bs" for d j
        using live_disjoint [OF ml(2), of c k d j] ml(5,6) that by force
      have by2: "heap_bytes h2 x = (if c \<le> x \<and> x < c + min n ?m then heap_bytes h (a + (x - c))
          else heap_bytes h x)" for x
        unfolding f(7) h1'_def copy_bytes_def ml(9) by (auto simp: min_def)
      show thesis
      proof (rule ok [of c h2 bs2 k])
        show "rt_realloc (Some a) sz h = Some (Some c, h2)" using eq4 ml(1) f(1) by (simp add: h1'_def)
        show "live h2 bs2 = insert (c, k) (live h bs - {(a, n)})"
          using f(4) h1'(3) ml(5) ne by auto
        show "\<forall>i < min n ?m. heap_bytes h2 (c + i) = heap_bytes h (a + i)" by (simp add: by2)
        show "\<forall>(d, j) \<in> live h bs - {(a, n)}. \<forall>i < j. heap_bytes h2 (d + i) = heap_bytes h (d + i)"
        proof clarify
          fix d j i assume "(d, j) \<in> live h bs" "i < j"
          then have "\<not> (c \<le> d + i \<and> d + i < c + min n ?m)" using dis [of d j] km by auto
          then show "heap_bytes h2 (d + i) = heap_bytes h (d + i)" by (simp only: by2 if_False)
        qed
      qed (use f h1' km in simp_all)
    qed
  qed
qed

subsection \<open>The abstract heap\<close>

text \<open>
  What a caller of the heap sees: a set of blocks handed out, each an address and a length.
  \<open>heap_rel\<close> ties it to the headers in memory.
\<close>

definition heap_rel :: "heap_state \<Rightarrow> (nat \<times> nat) set \<Rightarrow> bool" where
  "heap_rel h L \<longleftrightarrow> (\<exists>bs. heap_wf h bs \<and> used_mem h = used_bytes h bs \<and> L = live h bs)"

definition blocks_apart :: "(nat \<times> nat) set \<Rightarrow> bool" where
  "blocks_apart L \<longleftrightarrow> (\<forall>(a, n) \<in> L. \<forall>(b, m) \<in> L. a \<noteq> b \<longrightarrow> a + n \<le> b \<or> b + m \<le> a)"

lemma live_functional: "(a, n) \<in> live h bs \<Longrightarrow> (a, m) \<in> live h bs \<Longrightarrow> n = m"
  by (auto simp: live_def)

lemma heap_rel_apart: "heap_rel h L \<Longrightarrow> blocks_apart L"
  unfolding heap_rel_def blocks_apart_def by (fastforce dest: live_disjoint)

lemma heap_rel_functional: "heap_rel h L \<Longrightarrow> (a, n) \<in> L \<Longrightarrow> (a, m) \<in> L \<Longrightarrow> n = m"
  unfolding heap_rel_def by (blast dest: live_functional)

lemma heap_rel_malloc:
  assumes "heap_rel h L"
  obtains (fail) "rt_malloc sz h = Some (None, h)"
  | (ok) a h' n where "rt_malloc sz h = Some (Some a, h')" "heap_rel h' (insert (a, n) L)"
      "malloc_size sz \<le> n" "a \<notin> fst ` L" "heap_bytes h' = heap_bytes h" "sz \<noteq> 0"
proof -
  obtain bs where bs: "heap_wf h bs" "used_mem h = used_bytes h bs" "L = live h bs"
    using assms unfolding heap_rel_def by blast
  show thesis
  proof (rule rt_malloc_spec [OF bs(1,2), of sz])
    assume "rt_malloc sz h = Some (None, h)" then show thesis by (rule fail)
  next
    fix a h' bs' n
    assume r: "rt_malloc sz h = Some (Some a, h')" "heap_wf h' bs'" "used_mem h' = used_bytes h' bs'"
      "malloc_size sz \<le> n" "live h' bs' = insert (a, n) (live h bs)" "a \<notin> fst ` live h bs"
      "heap_bytes h' = heap_bytes h" "sz \<noteq> 0"
    have "heap_rel h' (insert (a, n) L)" unfolding heap_rel_def using r bs(3) by metis
    then show thesis using r(4,6-8) bs(3) by (intro ok [OF r(1)]) simp_all
  qed
qed

lemma heap_rel_free:
  assumes "heap_rel h L" "(a, n) \<in> L"
  obtains h' where "rt_free (Some a) h = Some h'" "heap_rel h' (L - {(a, n)})"
    "heap_bytes h' = heap_bytes h" "used_mem h' + n + SIZEOF_STRUCT_MEM = used_mem h"
proof -
  obtain bs where bs: "heap_wf h bs" "used_mem h = used_bytes h bs" "L = live h bs"
    using assms unfolding heap_rel_def by blast
  obtain h' bs' where r: "rt_free (Some a) h = Some h'" "heap_wf h' bs'"
    "used_mem h' = used_bytes h' bs'" "live h' bs' = live h bs - {(a, n)}"
    "heap_bytes h' = heap_bytes h" "used_mem h' + n + SIZEOF_STRUCT_MEM = used_mem h"
    using rt_free_spec [OF bs(1,2)] assms(2) bs(3) by metis
  have "heap_rel h' (L - {(a, n)})" unfolding heap_rel_def using r bs(3) by metis
  then show thesis by (rule that [OF r(1) _ r(5,6)])
qed

lemma heap_rel_calloc:
  assumes "heap_rel h L"
  obtains (fail) "rt_calloc cnt sz h = Some (None, h)"
  | (ok) a h' n where "rt_calloc cnt sz h = Some (Some a, h')" "heap_rel h' (insert (a, n) L)"
      "malloc_size (cnt * sz) \<le> n" "a \<notin> fst ` L"
      "\<forall>i < unat (cnt * sz). heap_bytes h' (a + i) = 0"
      "\<forall>x. \<not> (a \<le> x \<and> x < a + unat (cnt * sz)) \<longrightarrow> heap_bytes h' x = heap_bytes h x"
proof (rule heap_rel_malloc [OF assms, of "cnt * sz"])
  assume "rt_malloc (cnt * sz) h = Some (None, h)"
  then show thesis by (intro fail) (simp add: rt_calloc_def)
next
  fix a h' n
  assume r: "rt_malloc (cnt * sz) h = Some (Some a, h')" "heap_rel h' (insert (a, n) L)"
    "malloc_size (cnt * sz) \<le> n" "a \<notin> fst ` L" "heap_bytes h' = heap_bytes h"
  have b: "heap_rel (h'\<lparr>heap_bytes := f\<rparr>) (insert (a, n) L)" for f
    using r(2) by (simp add: heap_rel_def)
  show thesis
    by (rule ok [of a "h'\<lparr>heap_bytes := (\<lambda>x. if a \<le> x \<and> x < a + unat (cnt * sz) then 0
        else heap_bytes h' x)\<rparr>"]) (use r b in \<open>auto simp: rt_calloc_def\<close>)
qed

subsection \<open>The allocator interface\<close>

locale allocator =
  fixes rel :: "'s \<Rightarrow> (nat \<times> nat) set \<Rightarrow> bool"
    and alloc :: "u32 \<Rightarrow> 's \<Rightarrow> (nat option \<times> 's) option"
    and release :: "nat \<Rightarrow> 's \<Rightarrow> 's option"
    and contents :: "'s \<Rightarrow> nat \<Rightarrow> u8"
  assumes apart: "rel s L \<Longrightarrow> blocks_apart L"
    and functional: "rel s L \<Longrightarrow> (a, n) \<in> L \<Longrightarrow> (a, m) \<in> L \<Longrightarrow> n = m"
    and alloc_total: "rel s L \<Longrightarrow> \<exists>r s'. alloc sz s = Some (r, s') \<and> contents s' = contents s"
    and alloc_fail: "rel s L \<Longrightarrow> alloc sz s = Some (None, s') \<Longrightarrow> s' = s"
    and alloc_ok: "rel s L \<Longrightarrow> alloc sz s = Some (Some a, s') \<Longrightarrow>
      \<exists>n. rel s' (insert (a, n) L) \<and> malloc_size sz \<le> n \<and> a \<notin> fst ` L"
    and release_ok: "rel s L \<Longrightarrow> (a, n) \<in> L \<Longrightarrow>
      \<exists>s'. release a s = Some s' \<and> rel s' (L - {(a, n)}) \<and> contents s' = contents s"
begin

text \<open>A client that frees what it allocated leaves the heap with the blocks it had.\<close>

lemma alloc_release:
  assumes "rel s L" "alloc sz s = Some (Some a, s')"
  shows "\<exists>s''. release a s' = Some s'' \<and> rel s'' L \<and> contents s'' = contents s'"
proof -
  obtain n where n: "rel s' (insert (a, n) L)" "a \<notin> fst ` L" using alloc_ok [OF assms] by blast
  then have "(a, n) \<notin> L" by force
  then have "insert (a, n) L - {(a, n)} = L" by simp
  with release_ok [OF n(1), of a n] show ?thesis by auto
qed

text \<open>A client's calls: an allocation, or the release of the block it holds in a slot.\<close>

primrec calls :: "(u32 + nat) list \<Rightarrow> nat list \<Rightarrow> 's \<Rightarrow> (nat list \<times> 's) option" where
  "calls [] held s = Some (held, s)"
| "calls (c # cs) held s =
     (case c of
        Inl sz \<Rightarrow> do {
          (r, s') \<leftarrow> alloc sz s;
          calls cs (case r of None \<Rightarrow> held | Some a \<Rightarrow> held @ [a]) s' }
      | Inr i \<Rightarrow>
          if i < length held
          then do { s' \<leftarrow> release (held ! i) s; calls cs (remove1 (held ! i) held) s' }
          else calls cs held s)"

lemma calls_total:
  assumes "rel s L" "fst ` L = set held" "distinct held"
  shows "\<exists>held' s' L'. calls cs held s = Some (held', s') \<and> rel s' L' \<and> fst ` L' = set held' \<and>
    distinct held' \<and> contents s' = contents s"
  using assms
proof (induction cs arbitrary: held s L)
  case Nil
  then show ?case by auto
next
  case (Cons c cs)
  show ?case
  proof (cases c)
    case (Inl sz)
    obtain r s' where a: "alloc sz s = Some (r, s')" "contents s' = contents s"
      using alloc_total [OF Cons.prems(1)] by blast
    show ?thesis
    proof (cases r)
      case None
      then have "s' = s" using alloc_fail [OF Cons.prems(1)] a by simp
      then show ?thesis using Cons.IH [OF Cons.prems] a None Inl by simp
    next
      case (Some x)
      obtain n where n: "rel s' (insert (x, n) L)" "x \<notin> fst ` L"
        using alloc_ok [OF Cons.prems(1)] a Some by blast
      have "fst ` insert (x, n) L = set (held @ [x])" "distinct (held @ [x])"
        using n(2) Cons.prems by auto
      from Cons.IH [OF n(1) this] show ?thesis using a Some Inl by simp
    qed
  next
    case (Inr i)
    show ?thesis
    proof (cases "i < length held")
      case False
      then show ?thesis using Cons.IH [OF Cons.prems] Inr by simp
    next
      case True
      then obtain n where n: "(held ! i, n) \<in> L" using Cons.prems(2) by (force dest: nth_mem)
      obtain s' where s': "release (held ! i) s = Some s'" "rel s' (L - {(held ! i, n)})"
        "contents s' = contents s" using release_ok [OF Cons.prems(1) n] by blast
      have "fst ` (L - {(held ! i, n)}) = fst ` L - {held ! i}"
        using functional [OF Cons.prems(1) n] by force
      then have "fst ` (L - {(held ! i, n)}) = set (remove1 (held ! i) held)"
        using Cons.prems(2,3) by simp
      from Cons.IH [OF s'(2) this] show ?thesis using Cons.prems(3) s' True Inr by simp
    qed
  qed
qed

end

interpretation heap: allocator heap_rel rt_malloc "\<lambda>a. rt_free (Some a)" heap_bytes
proof unfold_locales
  show "\<exists>r s'. rt_malloc sz s = Some (r, s') \<and> heap_bytes s' = heap_bytes s"
    if "heap_rel s L" for s L sz
    by (rule heap_rel_malloc [OF that, of sz]) auto
  show "s' = s" if "heap_rel s L" "rt_malloc sz s = Some (None, s')" for s L sz s'
    by (rule heap_rel_malloc [OF that(1), of sz]) (use that in auto)
  show "\<exists>n. heap_rel s' (insert (a, n) L) \<and> malloc_size sz \<le> n \<and> a \<notin> fst ` L"
    if "heap_rel s L" "rt_malloc sz s = Some (Some a, s')" for s L sz a s'
    by (rule heap_rel_malloc [OF that(1), of sz]) (use that in auto)
  show "\<exists>s'. rt_free (Some a) s = Some s' \<and> heap_rel s' (L - {(a, n)}) \<and> heap_bytes s' = heap_bytes s"
    if "heap_rel s L" "(a, n) \<in> L" for s L a n
    by (rule heap_rel_free [OF that]) auto
qed (rule heap_rel_apart heap_rel_functional; assumption)+

lemma unat_RT_ALIGN_ge: "unat sz \<le> 2 ^ 32 - 4 \<Longrightarrow> unat sz \<le> unat (RT_ALIGN sz RT_ALIGN_SIZE)"
proof -
  assume "unat sz \<le> 2 ^ 32 - 4"
  then have "unat sz + 3 < 2 ^ 32" by simp
  then have "unat (RT_ALIGN sz RT_ALIGN_SIZE) = (unat sz + 3) div 4 * 4"
    by (simp only: unat_RT_ALIGN mod_less)
  then show ?thesis by presburger
qed

lemma heap_rel_aligned: "heap_rel h L \<Longrightarrow> (a, n) \<in> L \<Longrightarrow> a mod 4 = 0"
  unfolding heap_rel_def by (blast dest: live_inside(3))

lemma rt_malloc_some_fits:
  assumes wf: "heap_wf h bs" and r: "rt_malloc sz h = Some (Some a, h')"
  shows "\<exists>b \<in> set bs. fits h (malloc_size sz) b"
proof -
  note D = heap_wfD [OF wf]
  obtain xs ys where s: "bs = xs @ ys" "chain (heap_mems h) (lfree h) ys (heap_end h)"
    "\<forall>x \<in> set xs. x < lfree h" "\<forall>y \<in> set ys. lfree h \<le> y" by (rule lfree_suffix [OF wf])
  have c: "sz \<noteq> 0" "unat (RT_ALIGN sz RT_ALIGN_SIZE) \<le> mem_size_aligned h"
    using r by (auto simp: rt_malloc_def Let_def split: if_splits)
  then have le: "malloc_size sz \<le> mem_size_aligned h" using D(12) by (simp add: malloc_size_def)
  have "malloc_search h (malloc_size sz) (lfree h) \<noteq> Some None"
    using r c by (auto simp: rt_malloc_def Let_def malloc_size_def max_def split: if_splits)
  moreover have "malloc_search h (malloc_size sz) (lfree h) = Some (List.find (fits h (malloc_size sz)) ys)"
    by (rule malloc_search_spec [OF s(2) D(4) _ le]) (use D(13) in simp)
  ultimately show ?thesis using s(1) by (auto simp: find_None_iff)
qed

subsection \<open>Properties\<close>

text \<open>A heap of 3840 bytes as the board start-up code hands it over, for the witnesses.\<close>

definition heap_boot :: heap_state where
  "heap_boot = rt_system_heap_init 0x20000100 0x20001000
     \<lparr>heap_ptr = 0, heap_mems = (\<lambda>_. \<lparr>hm_magic = 0, hm_used = 0, hm_next = 0, hm_prev = 0\<rparr>),
      heap_end = 0, lfree = 0, mem_size_aligned = 0, used_mem = 0, max_mem = 0,
      heap_bytes = (\<lambda>_. 0)\<rparr>"

lemma heap_boot_rel: "heap_rel heap_boot {}"
proof -
  have "unat (RT_ALIGN 0x20000100 RT_ALIGN_SIZE) + 36 \<le> unat (RT_ALIGN_DOWN 0x20001000 RT_ALIGN_SIZE)"
    by (simp add: unat_RT_ALIGN unat_RT_ALIGN_DOWN)
  note w = rt_system_heap_init_wf [OF this]
  show ?thesis
    unfolding heap_rel_def heap_boot_def by (intro exI [of _ "[0]"]) (simp add: w)
qed

lemma heap_boot_malloc: "\<exists>h. rt_malloc 16 heap_boot = Some (Some 0x2000010c, h)"
  by (simp add: heap_boot_def rt_malloc_def rt_system_heap_init_def unat_RT_ALIGN unat_RT_ALIGN_DOWN malloc_search.simps lfree_walk.simps malloc_take_def malloc_split_def
   sub32_def add32_def Let_def)


definition heap_boot1 :: heap_state where
  "heap_boot1 = snd (the (rt_malloc 16 heap_boot))"

lemma heap_boot1_rel: "\<exists>n. 16 \<le> n \<and> heap_rel heap_boot1 {(0x2000010c, n)}"
proof -
  obtain h where h: "rt_malloc 16 heap_boot = Some (Some 0x2000010c, h)" using heap_boot_malloc by blast
  have "16 \<le> malloc_size 16" using malloc_size_ge [of 16] by simp
  with heap.alloc_ok [OF heap_boot_rel h] h show ?thesis by (auto simp: heap_boot1_def intro: order_trans)
qed

text \<open>
  Property C3.
  \<open>rt_malloc\<close> always returns: either NULL with the heap as it was, or a block that
  is at least as long as asked, disjoint from every block handed out before, with the headers
  of the heap again in order and no byte of any block written.\<close>

theorem rt_malloc_correct:
  assumes "heap_rel h L" and "unat sz \<le> 2 ^ 32 - 4"
  shows "\<exists>r h'. rt_malloc sz h = Some (r, h') \<and> heap_bytes h' = heap_bytes h \<and>
    (case r of None \<Rightarrow> h' = h
     | Some a \<Rightarrow> \<exists>n. heap_rel h' (insert (a, n) L) \<and> unat sz \<le> n \<and> 0 < sz \<and> a mod 4 = 0 \<and>
         blocks_apart (insert (a, n) L) \<and> a \<notin> fst ` L)"
proof (rule heap_rel_malloc [OF assms(1), of sz])
  fix a h' n assume r: "rt_malloc sz h = Some (Some a, h')" "heap_rel h' (insert (a, n) L)"
    "malloc_size sz \<le> n" "a \<notin> fst ` L" "heap_bytes h' = heap_bytes h" "sz \<noteq> 0"
  note le = malloc_size_ge [OF assms(2)]
  have "a mod 4 = 0" by (rule heap_rel_aligned [OF r(2), of a n]) simp
  with r le heap_rel_apart [OF r(2)] show ?thesis by (auto simp: word_gt_0)
qed simp

theorem rt_malloc_correct_witness:
  "\<exists>r h'. rt_malloc 16 heap_boot = Some (r, h') \<and> heap_bytes h' = heap_bytes heap_boot \<and>
    (case r of None \<Rightarrow> h' = heap_boot
     | Some a \<Rightarrow> \<exists>n. heap_rel h' (insert (a, n) {}) \<and> unat (16 :: u32) \<le> n \<and> 0 < (16 :: u32) \<and>
         a mod 4 = 0 \<and> blocks_apart (insert (a, n) {}) \<and> a \<notin> fst ` ({} :: (nat \<times> nat) set))"
  by (rule rt_malloc_correct [OF heap_boot_rel]) simp

text \<open>
  When \<open>rt_malloc\<close> gives NULL for a size it supports, no free block at or after
  \<open>lfree\<close> both holds the size and starts below \<open>mem_size_aligned - size\<close>; and when \<open>lfree\<close> is
  exact before the call, it is exact after it: no free block lies below it.\<close>

theorem rt_malloc_first_fit:
  assumes "heap_wf h bs" "used_mem h = used_bytes h bs" "lfree_lowest h bs" "sz \<noteq> 0"
    and "unat (RT_ALIGN sz RT_ALIGN_SIZE) \<le> mem_size_aligned h"
  shows "if \<exists>b \<in> set bs. fits h (malloc_size sz) b
    then \<exists>a h' bs'. rt_malloc sz h = Some (Some a, h') \<and> heap_wf h' bs' \<and> lfree_lowest h' bs'
    else rt_malloc sz h = Some (None, h)"
proof (rule rt_malloc_spec [OF assms(1,2), of sz])
  assume f: "rt_malloc sz h = Some (None, h)"
    "sz = 0 \<or> mem_size_aligned h < unat (RT_ALIGN sz RT_ALIGN_SIZE) \<or>
     (\<forall>b \<in> set bs. lfree h \<le> b \<longrightarrow> \<not> fits h (malloc_size sz) b)"
  have "\<not> fits h (malloc_size sz) b" if "b \<in> set bs" for b
    using f(2) assms(3-5) that by (cases "lfree h \<le> b") (auto simp: lfree_lowest_def fits_def)
  with f(1) show ?thesis by auto
next
  fix a h' bs' n assume r: "rt_malloc sz h = Some (Some a, h')" "heap_wf h' bs'"
    "lfree_lowest h bs \<Longrightarrow> lfree_lowest h' bs'"
  have "\<exists>b \<in> set bs. fits h (malloc_size sz) b"
    by (rule rt_malloc_some_fits [OF assms(1) r(1)])
  with r assms(3) show ?thesis by auto
qed

theorem rt_malloc_first_fit_witness:
  "if \<exists>b \<in> set [0]. fits heap_boot (malloc_size 3000) b
    then \<exists>a h' bs'. rt_malloc 3000 heap_boot = Some (Some a, h') \<and> heap_wf h' bs' \<and> lfree_lowest h' bs'
    else rt_malloc 3000 heap_boot = Some (None, heap_boot)"
proof -
  have "unat (RT_ALIGN 0x20000100 RT_ALIGN_SIZE) + 36 \<le> unat (RT_ALIGN_DOWN 0x20001000 RT_ALIGN_SIZE)"
    by (simp add: unat_RT_ALIGN unat_RT_ALIGN_DOWN)
  note w = rt_system_heap_init_wf [OF this]
  have b: "heap_wf heap_boot [0]" "used_mem heap_boot = used_bytes heap_boot [0]"
    "lfree_lowest heap_boot [0]" by (simp_all add: heap_boot_def w)
  have "mem_size_aligned heap_boot = 3816"
    using w(8) by (simp add: heap_boot_def unat_RT_ALIGN unat_RT_ALIGN_DOWN)
  then have "unat (RT_ALIGN 3000 RT_ALIGN_SIZE) \<le> mem_size_aligned heap_boot" by (simp add: unat_RT_ALIGN)
  then show ?thesis using rt_malloc_first_fit [OF b, of 3000] by simp
qed

text \<open>
  Property C4.
  \<open>rt_free\<close> of a block that was handed out and not yet freed never fails an
  assertion: it gives up exactly that block, joins it with its free neighbours so that the
  heap's headers are in order again, returns its bytes to the count of used memory and
  writes no byte of any block.\<close>

theorem rt_free_correct:
  assumes "heap_rel h L" "(a, n) \<in> L"
  shows "\<exists>h'. rt_free (Some a) h = Some h' \<and> heap_rel h' (L - {(a, n)}) \<and>
    heap_bytes h' = heap_bytes h \<and> used_mem h' + n + SIZEOF_STRUCT_MEM = used_mem h"
  by (rule heap_rel_free [OF assms]) blast

theorem rt_free_correct_witness:
  "\<exists>n h'. rt_free (Some 0x2000010c) heap_boot1 = Some h' \<and> heap_rel h' {} \<and>
    used_mem h' + n + SIZEOF_STRUCT_MEM = used_mem heap_boot1"
proof -
  obtain n where n: "heap_rel heap_boot1 {(0x2000010c, n)}" using heap_boot1_rel by blast
  show ?thesis using rt_free_correct [OF n, of "0x2000010c" n] by auto
qed

text \<open>
  Property C6.
  \<open>rt_realloc\<close> of a block handed out always returns: it fails with the heap as it
  was, or the block has the new length, at its old place or a new one, keeps its bytes up to
  the shorter of the two lengths, and no other block changes.\<close>

theorem rt_realloc_correct:
  assumes "heap_rel h L" "(a, n) \<in> L" "unat sz \<le> 2 ^ 32 - 4"
  shows "\<exists>r h'. rt_realloc (Some a) sz h = Some (r, h') \<and>
    (case r of None \<Rightarrow> h' = h
     | Some a' \<Rightarrow> \<exists>m. unat sz \<le> m \<and> heap_rel h' (insert (a', m) (L - {(a, n)})) \<and>
         (\<forall>i < min n (unat sz). heap_bytes h' (a' + i) = heap_bytes h (a + i)) \<and>
         (\<forall>(c, k) \<in> L - {(a, n)}. \<forall>i < k. heap_bytes h' (c + i) = heap_bytes h (c + i)))"
proof -
  obtain bs where bs: "heap_wf h bs" "used_mem h = used_bytes h bs" "L = live h bs"
    using assms unfolding heap_rel_def by blast
  have le: "unat sz \<le> unat (RT_ALIGN sz RT_ALIGN_SIZE)" by (rule unat_RT_ALIGN_ge [OF assms(3)])
  show ?thesis
  proof (rule rt_realloc_spec [OF bs(1,2) assms(2) [unfolded bs(3)], of sz])
    assume "rt_realloc (Some a) sz h = Some (None, h)" then show ?thesis by simp
  next
    fix a' m h' bs'
    assume r: "rt_realloc (Some a) sz h = Some (Some a', h')" "heap_wf h' bs'"
      "used_mem h' = used_bytes h' bs'" "unat (RT_ALIGN sz RT_ALIGN_SIZE) \<le> m"
      "live h' bs' = insert (a', m) (live h bs - {(a, n)})"
      "\<forall>i < min n (unat (RT_ALIGN sz RT_ALIGN_SIZE)). heap_bytes h' (a' + i) = heap_bytes h (a + i)"
      "\<forall>(c, k) \<in> live h bs - {(a, n)}. \<forall>i < k. heap_bytes h' (c + i) = heap_bytes h (c + i)"
    have rel: "heap_rel h' (insert (a', m) (L - {(a, n)}))"
      unfolding heap_rel_def bs(3) using r(2,3,5) by metis
    have by1: "\<forall>i < min n (unat sz). heap_bytes h' (a' + i) = heap_bytes h (a + i)"
      using r(6) le by simp
    have "unat sz \<le> m" using le r(4) by simp
    with r(1,7) rel by1 show ?thesis unfolding bs(3)
      by (intro exI [of _ "Some a'"] exI [of _ h'] conjI) (simp_all only: option.case, blast)
  qed
qed

theorem rt_realloc_correct_witness:
  "\<exists>n. let L = {(0x2000010c, n)} in
    \<exists>r h'. rt_realloc (Some 0x2000010c) 100 heap_boot1 = Some (r, h') \<and>
    (case r of None \<Rightarrow> h' = heap_boot1
     | Some a' \<Rightarrow> \<exists>m. unat (100 :: u32) \<le> m \<and> heap_rel h' (insert (a', m) (L - {(0x2000010c, n)})) \<and>
         (\<forall>i < min n (unat (100 :: u32)). heap_bytes h' (a' + i) = heap_bytes heap_boot1 (0x2000010c + i)) \<and>
         (\<forall>(c, k) \<in> L - {(0x2000010c, n)}. \<forall>i < k.
            heap_bytes h' (c + i) = heap_bytes heap_boot1 (c + i)))"
proof -
  obtain n where n: "heap_rel heap_boot1 {(0x2000010c, n)}" using heap_boot1_rel by blast
  show ?thesis unfolding Let_def
    by (rule exI [of _ n], rule rt_realloc_correct [OF n]) simp_all
qed

text \<open>
  \<open>rt_calloc\<close> hands out a new block whose \<open>count * size\<close> bytes, the product
  taken modulo \<open>2 ^ 32\<close>, are zero, and writes no byte of the blocks handed out before.\<close>

theorem rt_calloc_correct:
  assumes "heap_rel h L" "unat (cnt * sz) \<le> 2 ^ 32 - 4"
  shows "\<exists>r h'. rt_calloc cnt sz h = Some (r, h') \<and>
    (case r of None \<Rightarrow> h' = h
     | Some a \<Rightarrow> \<exists>n. unat (cnt * sz) \<le> n \<and> heap_rel h' (insert (a, n) L) \<and> a \<notin> fst ` L \<and>
         (\<forall>i < unat (cnt * sz). heap_bytes h' (a + i) = 0) \<and>
         (\<forall>(c, k) \<in> L. \<forall>i < k. heap_bytes h' (c + i) = heap_bytes h (c + i)))"
proof (rule heap_rel_calloc [OF assms(1), of cnt sz])
  fix a h' n
  assume r: "rt_calloc cnt sz h = Some (Some a, h')" "heap_rel h' (insert (a, n) L)"
    "malloc_size (cnt * sz) \<le> n" "a \<notin> fst ` L"
    "\<forall>i < unat (cnt * sz). heap_bytes h' (a + i) = 0"
    "\<forall>x. \<not> (a \<le> x \<and> x < a + unat (cnt * sz)) \<longrightarrow> heap_bytes h' x = heap_bytes h x"
  note le = malloc_size_ge [OF assms(2)]
  have "\<forall>(c, k) \<in> L. \<forall>i < k. heap_bytes h' (c + i) = heap_bytes h (c + i)"
  proof clarify
    fix c k i assume ck: "(c, k) \<in> L" "i < k"
    then have "c \<noteq> a" using r(4) by force
    then have "c + k \<le> a \<or> a + n \<le> c"
      using heap_rel_apart [OF r(2)] ck(1) unfolding blocks_apart_def by blast
    then have "\<not> (a \<le> c + i \<and> c + i < a + unat (cnt * sz))" using ck(2) le r(3) by auto
    then show "heap_bytes h' (c + i) = heap_bytes h (c + i)" using r(6) by blast
  qed
  moreover have "unat (cnt * sz) \<le> n" using le r(3) by simp
  ultimately show ?thesis using r(1,2,4,5)
    by (intro exI [of _ "Some a"] exI [of _ h'] conjI) (simp_all only: option.case, blast)
qed simp

theorem rt_calloc_correct_witness:
  "let L = {} in \<exists>r h'. rt_calloc 4 8 heap_boot = Some (r, h') \<and>
    (case r of None \<Rightarrow> h' = heap_boot
     | Some a \<Rightarrow> \<exists>n. unat (4 * 8 :: u32) \<le> n \<and> heap_rel h' (insert (a, n) L) \<and> a \<notin> fst ` L \<and>
         (\<forall>i < unat (4 * 8 :: u32). heap_bytes h' (a + i) = 0) \<and>
         (\<forall>(c, k) \<in> L. \<forall>i < k. heap_bytes h' (c + i) = heap_bytes heap_boot (c + i)))"
  unfolding Let_def by (rule rt_calloc_correct [OF heap_boot_rel]) simp

text \<open>
  Property C5.
  From an initialised heap, a client that calls \<open>rt_malloc\<close> and \<open>rt_free\<close> in any
  order and frees only blocks it holds never makes an assertion of the heap fail and never
  makes a loop of the heap run forever, and what it holds at the end is apart.\<close>

theorem heap_calls_total:
  assumes "unat (RT_ALIGN b RT_ALIGN_SIZE) + 36 \<le> unat (RT_ALIGN_DOWN e RT_ALIGN_SIZE)"
    and "used_mem h = 0"
  shows "\<exists>held h' L. heap.calls cs [] (rt_system_heap_init b e h) = Some (held, h') \<and>
    heap_rel h' L \<and> fst ` L = set held \<and> distinct held \<and> blocks_apart L"
proof -
  note w = rt_system_heap_init_wf [OF assms(1)]
  have "heap_rel (rt_system_heap_init b e h) {}"
    unfolding heap_rel_def by (intro exI [of _ "[0]"]) (simp add: w assms(2))
  from heap.calls_total [OF this, of "[]" cs] show ?thesis using heap.apart by fastforce
qed

theorem heap_calls_total_witness:
  "\<exists>held h' L. heap.calls [Inl 16, Inl 40, Inr 0, Inl 8] [] heap_boot = Some (held, h') \<and>
    heap_rel h' L \<and> fst ` L = set held \<and> distinct held \<and> blocks_apart L"
  unfolding heap_boot_def
  by (rule heap_calls_total) (simp_all add: unat_RT_ALIGN unat_RT_ALIGN_DOWN)

end
