(* ===== verification/HeapAlign.thy ===== *)
theory HeapAlign
  imports RtHeap KService
begin

text \<open>
  The functions of \<^verbatim>\<open>src/kservice.c\<close> that allocate: \<^verbatim>\<open>rt_strdup\<close>, \<^verbatim>\<open>rt_malloc_align\<close> and
  \<^verbatim>\<open>rt_free_align\<close>. An aligned block lies in a block of the heap and has the address of that
  block in the word before it.
\<close>

subsection \<open>Operations\<close>

definition rt_strdup :: "nat \<Rightarrow> nat \<Rightarrow> heap_state \<Rightarrow> (nat option \<times> heap_state) option" where
  "rt_strdup s n h = do {
    len \<leftarrow> rt_strlen (map (heap_bytes h) [s..<s + n]);
    (r, h) \<leftarrow> rt_malloc (word_of_nat (len + 1)) h;
    Some (case r of
      None \<Rightarrow> (None, h)
    | Some tmp \<Rightarrow> (Some tmp, h\<lparr>heap_bytes := rt_memcpy tmp s (len + 1) (heap_bytes h)\<rparr>))
  }"

definition rt_malloc_align :: "u32 \<Rightarrow> u32 \<Rightarrow> heap_state \<Rightarrow> (nat option \<times> heap_state) option" where
  "rt_malloc_align sz align h =
    (let align = (align + 3) AND NOT 3;
         align_size = ((sz + 3) AND NOT 3) + align
     in do {
       (r, h) \<leftarrow> rt_malloc align_size h;
       Some (case r of
         None \<Rightarrow> (None, h)
       | Some p \<Rightarrow>
           let ptr = word_of_nat p;
               align_ptr = (if ptr AND (align - 1) = 0 then ptr + align
                 else (ptr + (align - 1)) AND NOT (align - 1))
           in (Some (unat align_ptr),
               h\<lparr>heap_bytes := put_word (unat (align_ptr - 4)) ptr (heap_bytes h)\<rparr>))
     })"

definition rt_free_align :: "nat \<Rightarrow> heap_state \<Rightarrow> heap_state option" where
  "rt_free_align ptr h =
    (let real_ptr = unat (get_word (ptr - 4) (heap_bytes h))
     in rt_free (if real_ptr = 0 then None else Some real_ptr) h)"

subsection \<open>Lemmas\<close>

lemma heap_rel_bytes [simp]: "heap_rel (h\<lparr>heap_bytes := f\<rparr>) L = heap_rel h L"
  by (simp add: heap_rel_def)

lemma heap_rel_inside:
  assumes "heap_rel h L" "(a, n) \<in> L"
  shows "a \<noteq> 0" "a + n < 2 ^ 32" "a mod 4 = 0"
proof -
  obtain bs where bs: "heap_wf h bs" "L = live h bs" using assms(1) by (auto simp: heap_rel_def)
  have "heap_ptr h + heap_end h + SIZEOF_STRUCT_MEM < 2 ^ 32" using bs(1) by (simp add: heap_wf_def)
  then show "a \<noteq> 0" "a + n < 2 ^ 32" "a mod 4 = 0"
    using live_inside [OF bs(1), of a n] assms(2) bs(2) by simp_all
qed

lemma get_put_word: "get_word a (put_word a w m) = w"
proof (rule u32_eq_bits)
  fix i :: nat
  assume "i < 32"
  then consider "i < 8" | "8 \<le> i" "i < 16" | "16 \<le> i" "i < 24" | "24 \<le> i" "i < 32" by linarith
  then show "bit (get_word a (put_word a w m)) i = bit w i"
    by cases (auto simp: get_word_def put_word_def bit_simps dest: bit_imp_le_length)
qed

lemma get_word_cong:
  assumes "\<forall>i < 4. f (a + i) = g (a + i)"
  shows "get_word a f = get_word a g"
  using assms [rule_format, of 0] assms [rule_format, of 1] assms [rule_format, of 2] assms [rule_format, of 3]
  by (simp add: get_word_def)

lemma unat_clear_low_bits: "unat (x AND NOT (2 ^ j - 1)) = unat (x :: u32) div 2 ^ j * 2 ^ j"
proof -
  have "x AND NOT (mask j) = push_bit j (drop_bit j x)"
    by (rule bit_word_eqI) (auto simp: bit_simps)
  then have "x AND NOT (2 ^ j - 1) = push_bit j (drop_bit j x)"
    by (simp only: mask_eq_exp_minus_1)
  also have "unat \<dots> = take_bit LENGTH(32) (push_bit j (drop_bit j (unat x)))"
    by (simp only: unsigned_push_bit_eq unat_drop_bit_eq)
  also have "push_bit j (drop_bit j (unat x)) = unat x div 2 ^ j * 2 ^ j"
    by (simp only: push_bit_eq_mult drop_bit_eq_div)
  also have "take_bit LENGTH(32) (unat x div 2 ^ j * 2 ^ j) = unat x div 2 ^ j * 2 ^ j"
    by (rule take_bit_nat_eq_self) (rule order_le_less_trans [OF div_times_less_eq_dividend unsigned_less])
  finally show ?thesis .
qed

lemma low_bits_0: "x AND (2 ^ j - 1) = 0 \<longleftrightarrow> unat (x :: u32) mod 2 ^ j = 0"
proof -
  have "x AND (2 ^ j - 1) = take_bit j x"
    by (simp only: take_bit_eq_mask mask_eq_exp_minus_1)
  then have "x AND (2 ^ j - 1) = 0 \<longleftrightarrow> unat (take_bit j x) = 0" by (simp only: unat_eq_0)
  moreover have "unat (take_bit j x) = unat x mod 2 ^ j"
    by (simp only: unsigned_take_bit_eq) (simp only: take_bit_eq_mod)
  ultimately show ?thesis by simp
qed


lemma next_aligned:
  fixes al w :: u32
  assumes al: "al = 2 ^ j" "unat al = 2 ^ j" "4 dvd (2 ^ j :: nat)"
    and w: "unat w = a" "a + 2 ^ j < 2 ^ 32" "4 dvd a"
  defines "q \<equiv> if w AND (al - 1) = 0 then w + al else (w + (al - 1)) AND NOT (al - 1)"
  shows "unat q mod 2 ^ j = 0 \<and> a + 4 \<le> unat q \<and> unat q \<le> a + 2 ^ j"
proof -
  have al_1: "al - 1 = 2 ^ j - 1" by (simp add: al(1))
  have ge4: "(4 :: nat) \<le> 2 ^ j" by (rule dvd_imp_le [OF al(3)]) simp
  show ?thesis
  proof (cases "a mod 2 ^ j = 0")
    case True
    then have "q = w + al" unfolding q_def al_1 low_bits_0 w(1) by simp
    then have "unat q = a + 2 ^ j" using w(2) by (simp add: unat_word_ariths w(1) al(2))
    then show ?thesis using True ge4 by simp
  next
    case False
    have "unat (al - 1) = 2 ^ j - 1" using al(2) ge4 by (subst unat_sub) (simp_all add: word_le_nat_alt)
    then have "unat (w + (al - 1)) = a + (2 ^ j - 1)"
      using w(2) ge4 by (simp add: unat_word_ariths w(1))
    moreover have "q = (w + (al - 1)) AND NOT (2 ^ j - 1)"
      using False unfolding q_def al_1 low_bits_0 w(1) by simp
    ultimately have uq: "unat q = (a + (2 ^ j - 1)) div 2 ^ j * 2 ^ j"
      by (simp only: unat_clear_low_bits)
    then have mod: "unat q mod 2 ^ j = 0" by simp
    have le: "unat q \<le> a + (2 ^ j - 1)" unfolding uq by (rule div_times_less_eq_dividend)
    have "a + (2 ^ j - 1) < unat q + 2 ^ j"
      unfolding uq by (subst add.commute [of "_ * _"]) (rule dividend_less_div_times, simp)
    then have "a \<le> unat q" by simp
    moreover have "a \<noteq> unat q" using mod False by auto
    moreover have "4 dvd unat q" using mod al(3) by (meson dvd_trans mod_0_imp_dvd)
    ultimately have "a + 4 \<le> unat q" using w(3) by (elim dvdE) auto
    then show ?thesis using mod le by simp
  qed
qed

lemma aligned_sizes:
  assumes j: "2 \<le> j" "j < 32" and sz: "unat sz + 2 ^ j + 3 \<le> 2 ^ 32 - 4"
  defines "al \<equiv> 2 ^ j :: u32"
  shows "unat al = 2 ^ j" "4 dvd (2 ^ j :: nat)" "(al + 3) AND NOT 3 = al"
    "unat sz + 2 ^ j \<le> unat (((sz + 3) AND NOT 3) + al)" "unat (((sz + 3) AND NOT 3) + al) \<le> 2 ^ 32 - 4"
proof -
  have ual: "unat al = 2 ^ j"
  proof -
    have "al = word_of_nat (2 ^ j)" by (simp add: al_def)
    moreover have "(2 :: nat) ^ j < 2 ^ 32" using j(2) by (rule power_strict_increasing) simp
    ultimately show ?thesis by (simp only: unat_of_nat) simp
  qed
  have al4: "4 dvd (2 ^ j :: nat)" using le_imp_power_dvd [OF j(1), of "2 :: nat"] by simp
  have sz3: "unat sz + 3 < 2 ^ 32" using sz by simp
  have align: "(al + 3) AND NOT 3 = al"
  proof (rule unsigned_word_eqI [where ?'a = nat])
    have "2 ^ j + 3 < (2 :: nat) ^ 32" using sz by simp
    then have "unat (al + 3) = 2 ^ j + 3" by (simp add: unat_word_ariths ual)
    moreover have "(2 ^ j + 3) div 4 * 4 = (2 :: nat) ^ j" using al4 by (auto elim!: dvdE)
    ultimately have "unat ((al + 3) AND NOT (2 ^ 2 - 1)) = 2 ^ j"
      unfolding unat_clear_low_bits by simp
    then show "unat ((al + 3) AND NOT 3) = unat al" by (simp add: ual)
  qed
  define asz where "asz = ((sz + 3) AND NOT 3) + al"
  have "unat ((sz + 3) AND NOT (2 ^ 2 - 1)) = (unat sz + 3) div 4 * 4"
    unfolding unat_clear_low_bits using sz3 by (simp add: unat_word_ariths)
  then have up: "unat ((sz + 3) AND NOT 3) = (unat sz + 3) div 4 * 4" by simp
  have upb: "unat sz \<le> (unat sz + 3) div 4 * 4" "(unat sz + 3) div 4 * 4 \<le> unat sz + 3" by simp_all
  have asz: "unat asz = (unat sz + 3) div 4 * 4 + 2 ^ j"
  proof -
    have "unat asz = (unat ((sz + 3) AND NOT 3) + unat al) mod 2 ^ LENGTH(32)"
      unfolding asz_def by (rule unat_word_ariths(1))
    also have "\<dots> = ((unat sz + 3) div 4 * 4 + 2 ^ j) mod 2 ^ LENGTH(32)"
      by (simp only: up ual)
    finally show ?thesis using upb(2) sz by simp
  qed
  have lower: "unat sz + 2 ^ j \<le> unat asz" and upper: "unat asz \<le> 2 ^ 32 - 4"
    unfolding asz using upb sz by linarith+
  show "unat al = 2 ^ j" "4 dvd (2 ^ j :: nat)" "(al + 3) AND NOT 3 = al"
    "unat sz + 2 ^ j \<le> unat (((sz + 3) AND NOT 3) + al)" "unat (((sz + 3) AND NOT 3) + al) \<le> 2 ^ 32 - 4"
    using ual al4 align lower upper by (simp_all only: asz_def)
qed

text \<open>
  Property C22.
  \<open>rt_malloc_align\<close> with an alignment that is a power of two returns NULL with the heap as it was,
  or a block of \<open>sz\<close> bytes at a multiple of the alignment, inside a fresh block of the heap and behind
  its first word; no byte of another block changes. Whatever is then written anywhere but into the
  word before the block, \<open>rt_free_align\<close> gives exactly that block of the heap back.\<close>

theorem rt_malloc_align_correct:
  assumes h: "heap_rel h L" and j: "2 \<le> j" "j < 32" and sz: "unat sz + 2 ^ j + 3 \<le> 2 ^ 32 - 4"
  shows "\<exists>r h'. rt_malloc_align sz (2 ^ j) h = Some (r, h') \<and>
    (case r of None \<Rightarrow> h' = h
     | Some p \<Rightarrow> p mod 2 ^ j = 0 \<and>
         (\<exists>a n. heap_rel h' (insert (a, n) L) \<and> a \<notin> fst ` L \<and> a + 4 \<le> p \<and> p + unat sz \<le> a + n \<and>
           (\<forall>x. \<not> (a \<le> x \<and> x < a + n) \<longrightarrow> heap_bytes h' x = heap_bytes h x) \<and>
           (\<forall>f. (\<forall>i < 4. f (p - 4 + i) = heap_bytes h' (p - 4 + i)) \<longrightarrow>
             (\<exists>h''. rt_free_align p (h'\<lparr>heap_bytes := f\<rparr>) = Some h'' \<and> heap_rel h'' L \<and> heap_bytes h'' = f))))"
proof -
  define al where "al = (2 ^ j :: u32)"
  note al = aligned_sizes [OF j sz, folded al_def]
  define asz where "asz = ((sz + 3) AND NOT 3) + al"
  have run: "rt_malloc_align sz (2 ^ j) h = do {
      (r, h) \<leftarrow> rt_malloc asz h;
      Some (case r of None \<Rightarrow> (None, h)
      | Some p \<Rightarrow>
          let ptr = word_of_nat p;
              align_ptr = (if ptr AND (al - 1) = 0 then ptr + al else (ptr + (al - 1)) AND NOT (al - 1))
          in (Some (unat align_ptr), h\<lparr>heap_bytes := put_word (unat (align_ptr - 4)) ptr (heap_bytes h)\<rparr>)) }"
    unfolding al_def [symmetric] rt_malloc_align_def Let_def al(3) asz_def ..
  show ?thesis
  proof (rule heap_rel_malloc [OF h, of asz])
    assume "rt_malloc asz h = Some (None, h)"
    then show ?thesis by (simp add: run)
  next
    fix a h1 n
    assume r: "rt_malloc asz h = Some (Some a, h1)" "heap_rel h1 (insert (a, n) L)"
      "malloc_size asz \<le> n" "a \<notin> fst ` L" "heap_bytes h1 = heap_bytes h"
    have n: "unat sz + 2 ^ j \<le> n"
      using malloc_size_ge [of asz] r(3) al(4,5) unfolding asz_def by linarith
    have a: "a \<noteq> 0" "a + n < 2 ^ 32" "a mod 4 = 0" using heap_rel_inside [OF r(2) insertI1] by simp_all
    define w where "w = (word_of_nat a :: u32)"
    have w: "unat w = a" using a(2) by (simp add: w_def unat_of_nat)
    define q where "q = (if w AND (al - 1) = 0 then w + al else (w + (al - 1)) AND NOT (al - 1))"
    have q: "unat q mod 2 ^ j = 0" "a + 4 \<le> unat q" "unat q \<le> a + 2 ^ j"
      using next_aligned [OF al_def al(1,2) w, folded q_def] a(2,3) n by auto
    define h' where "h' = h1\<lparr>heap_bytes := put_word (unat (q - 4)) w (heap_bytes h1)\<rparr>"
    have q4: "unat (q - 4) = unat q - 4" using q(2) by (subst unat_sub) (simp_all add: word_le_nat_alt)
    have run': "rt_malloc_align sz (2 ^ j) h = Some (Some (unat q), h')"
      by (simp add: run r(1) Let_def w_def [symmetric] q_def [symmetric] h'_def)
    have rel: "heap_rel h' (insert (a, n) L)" using r(2) by (simp add: h'_def)
    have "heap_bytes h' x = heap_bytes h x" if "\<not> (a \<le> x \<and> x < a + n)" for x
      using that q n by (auto simp: h'_def r(5) put_word_def q4)
    moreover have "\<exists>h''. rt_free_align (unat q) (h'\<lparr>heap_bytes := f\<rparr>) = Some h'' \<and> heap_rel h'' L \<and> heap_bytes h'' = f"
      if f: "\<forall>i < 4. f (unat q - 4 + i) = heap_bytes h' (unat q - 4 + i)" for f
    proof -
      have "get_word (unat q - 4) f = w"
        unfolding get_word_cong [OF f] by (simp add: h'_def q4 get_put_word)
      then have "rt_free_align (unat q) (h'\<lparr>heap_bytes := f\<rparr>) = rt_free (Some a) (h'\<lparr>heap_bytes := f\<rparr>)"
        using w a(1) by (simp add: rt_free_align_def Let_def)
      moreover have "insert (a, n) L - {(a, n)} = L" using r(4) by force
      ultimately show ?thesis
        using heap.release_ok [of "h'\<lparr>heap_bytes := f\<rparr>" "insert (a, n) L" a n] rel by auto
    qed
    ultimately show ?thesis
      using run' rel q n r(4) by (simp, intro conjI exI [of _ a] exI [of _ n]) auto
  qed
qed


theorem rt_malloc_align_correct_witness:
  "\<exists>r h'. rt_malloc_align 100 (2 ^ 5) heap_boot = Some (r, h') \<and>
    (case r of None \<Rightarrow> h' = heap_boot | Some p \<Rightarrow> p mod 32 = 0 \<and>
      (\<exists>h''. rt_free_align p h' = Some h'' \<and> heap_rel h'' {}))"
proof -
  have "2 \<le> (5 :: nat)" "(5 :: nat) < 32" "unat (100 :: u32) + 2 ^ 5 + 3 \<le> 2 ^ 32 - 4" by simp_all
  note ok = rt_malloc_align_correct [OF heap_boot_rel this]
  have "\<exists>h''. rt_free_align p h' = Some h'' \<and> heap_rel h'' {}"
    if "\<forall>f. (\<forall>i < 4. f (p - 4 + i) = heap_bytes h' (p - 4 + i)) \<longrightarrow>
      (\<exists>h''. rt_free_align p (h'\<lparr>heap_bytes := f\<rparr>) = Some h'' \<and> heap_rel h'' {} \<and> heap_bytes h'' = f)" for p h'
    using that [rule_format, of "heap_bytes h'"] by auto
  note free = this
  have mono: "case r of None \<Rightarrow> A | Some p \<Rightarrow> C p"
    if "case r of None \<Rightarrow> A | Some p \<Rightarrow> B p" "\<And>p. B p \<Longrightarrow> C p"
    for r :: "nat option" and A B C
    using that by (cases r) simp_all
  show ?thesis
    by (insert ok, elim exE conjE, intro exI conjI, assumption, erule mono, elim exE conjE, intro conjI,
        simp, rule free)
qed

lemma rt_strdup_copies:
  assumes h: "heap_rel h L" and str: "rt_strlen (map (heap_bytes h) [s..<s + k]) = Some len"
    and src: "(b, m) \<in> L" "b \<le> s" "s + len < b + m" and fits: "len + 1 \<le> 2 ^ 32 - 4"
  shows "\<exists>r h'. rt_strdup s k h = Some (r, h') \<and>
    (case r of None \<Rightarrow> h' = h
     | Some a \<Rightarrow> \<exists>n. heap_rel h' (insert (a, n) L) \<and> a \<notin> fst ` L \<and> len < n \<and>
         (\<forall>i \<le> len. heap_bytes h' (a + i) = heap_bytes h (s + i)) \<and>
         (\<forall>x. \<not> (a \<le> x \<and> x < a + n) \<longrightarrow> heap_bytes h' x = heap_bytes h x))"
proof -
  let ?sz = "word_of_nat (len + 1) :: u32"
  have sz: "unat ?sz = len + 1" unfolding unat_of_nat using fits by simp
  show ?thesis
  proof (rule heap_rel_malloc [OF h, of ?sz])
    assume "rt_malloc ?sz h = Some (None, h)"
    then show ?thesis by (simp only: rt_strdup_def str bind.bind_lunit prod.case option.case) auto
  next
    fix a h1 n
    assume r: "rt_malloc ?sz h = Some (Some a, h1)" "heap_rel h1 (insert (a, n) L)"
      "malloc_size ?sz \<le> n" "a \<notin> fst ` L" "heap_bytes h1 = heap_bytes h"
    have n: "len + 1 \<le> n" using malloc_size_ge [of ?sz] sz r(3) fits by linarith
    have "a + n \<le> b \<or> b + m \<le> a"
      using heap_rel_apart [OF r(2)] src(1) r(4) by (force simp: blocks_apart_def)
    then have "apart a s (len + 1)" using src n by (auto simp: apart_def)
    then have copy: "rt_memcpy a s (len + 1) (heap_bytes h) = copied a s (len + 1) (heap_bytes h)"
      by (rule rt_memcpy_copied)
    have "rt_strdup s k h = Some (Some a, h1\<lparr>heap_bytes := copied a s (len + 1) (heap_bytes h)\<rparr>)"
      by (simp only: rt_strdup_def str r(1,5) copy bind.bind_lunit prod.case option.case)
    then show ?thesis using r(2,4) n by simp (rule exI [of _ n], auto simp: copied_def)
  qed
qed

end
