(* ===== verification/RtList.thy ===== *)
theory RtList
  imports Prelude
begin

text \<open>
  The intrusive doubly linked lists of \<^verbatim>\<open>include/rtservice.h\<close>: \<open>rt_list_node\<close> cells
  linked through \<open>next\<close> and \<open>prev\<close>, each list a ring through its head. The five inline
  functions are modelled on a store of cells, pointer assignment by pointer assignment;
  \<open>ring\<close> relates a store to the list of nodes a head carries, and the lemmas show what
  each function does to that list.
\<close>

subsection \<open>The cells and the five inline functions\<close>

record 'n rt_list_node =
  ln_next :: 'n
  ln_prev :: 'n

type_synonym 'n links = "'n \<Rightarrow> 'n rt_list_node"

definition set_next :: "'n \<Rightarrow> 'n \<Rightarrow> 'n links \<Rightarrow> 'n links" where
  "set_next a b h = h(a := (h a)\<lparr>ln_next := b\<rparr>)"

definition set_prev :: "'n \<Rightarrow> 'n \<Rightarrow> 'n links \<Rightarrow> 'n links" where
  "set_prev a b h = h(a := (h a)\<lparr>ln_prev := b\<rparr>)"

definition rt_list_init :: "'n \<Rightarrow> 'n links \<Rightarrow> 'n links" where
  "rt_list_init l h = set_next l l (set_prev l l h)"

definition rt_list_insert_after :: "'n \<Rightarrow> 'n \<Rightarrow> 'n links \<Rightarrow> 'n links" where
  "rt_list_insert_after l n h0 =
     (let h1 = set_prev (ln_next (h0 l)) n h0;
          h2 = set_next n (ln_next (h1 l)) h1;
          h3 = set_next l n h2
      in set_prev n l h3)"

definition rt_list_insert_before :: "'n \<Rightarrow> 'n \<Rightarrow> 'n links \<Rightarrow> 'n links" where
  "rt_list_insert_before l n h0 =
     (let h1 = set_next (ln_prev (h0 l)) n h0;
          h2 = set_prev n (ln_prev (h1 l)) h1;
          h3 = set_prev l n h2
      in set_next n l h3)"

definition rt_list_remove :: "'n \<Rightarrow> 'n links \<Rightarrow> 'n links" where
  "rt_list_remove n h0 =
     (let h1 = set_prev (ln_next (h0 n)) (ln_prev (h0 n)) h0;
          h2 = set_next (ln_prev (h1 n)) (ln_next (h1 n)) h1;
          h3 = set_prev n n h2
      in set_next n (ln_prev (h3 n)) h3)"

definition rt_list_isempty :: "'n \<Rightarrow> 'n links \<Rightarrow> bool" where
  "rt_list_isempty l h \<longleftrightarrow> ln_next (h l) = l"

lemmas list_op_defs = rt_list_init_def rt_list_insert_after_def rt_list_insert_before_def
  rt_list_remove_def rt_list_isempty_def set_next_def set_prev_def Let_def

lemma set_next_simps [simp]:
  "ln_next (set_next a b h x) = (if x = a then b else ln_next (h x))"
  "ln_prev (set_next a b h x) = ln_prev (h x)"
  by (simp_all add: set_next_def)

lemma set_prev_simps [simp]:
  "ln_prev (set_prev a b h x) = (if x = a then b else ln_prev (h x))"
  "ln_next (set_prev a b h x) = ln_next (h x)"
  by (simp_all add: set_prev_def)

text \<open>The two insertions in terms of the cells they read once.\<close>

lemma rt_list_insert_after_eq:
  "rt_list_insert_after l n h =
     (let b = ln_next (h l) in set_prev n l (set_next l n (set_next n b (set_prev b n h))))"
  by (simp add: rt_list_insert_after_def Let_def)

lemma rt_list_insert_before_eq:
  "rt_list_insert_before l n h =
     (let a = ln_prev (h l) in set_next n l (set_prev l n (set_prev n a (set_next a n h))))"
  by (simp add: rt_list_insert_before_def Let_def)

subsection \<open>Rings\<close>

primrec linked :: "'n links \<Rightarrow> 'n \<Rightarrow> 'n list \<Rightarrow> 'n \<Rightarrow> bool" where
  "linked h a [] b \<longleftrightarrow> ln_next (h a) = b \<and> ln_prev (h b) = a"
| "linked h a (x # xs) b \<longleftrightarrow> ln_next (h a) = x \<and> ln_prev (h x) = a \<and> linked h x xs b"

definition ring :: "'n links \<Rightarrow> 'n \<Rightarrow> 'n list \<Rightarrow> bool" where
  "ring h l xs \<longleftrightarrow> distinct (l # xs) \<and> linked h l xs l"

lemma linked_append [simp]:
  "linked h a (xs @ y # ys) b \<longleftrightarrow> linked h a xs y \<and> linked h y ys b"
  by (induction xs arbitrary: a) auto

lemma linked_frame:
  assumes "\<And>x. x \<in> insert a (set xs) \<Longrightarrow> ln_next (h' x) = ln_next (h x)"
    and "\<And>x. x \<in> insert b (set xs) \<Longrightarrow> ln_prev (h' x) = ln_prev (h x)"
  shows "linked h' a xs b = linked h a xs b"
  using assms by (induction xs arbitrary: a) auto

lemma linked_first: "linked h a xs b \<Longrightarrow> ln_next (h a) = (case xs of [] \<Rightarrow> b | x # _ \<Rightarrow> x)"
  by (cases xs) auto

lemma linked_last:
  "linked h a xs b \<Longrightarrow> ln_prev (h b) = (if xs = [] then a else last xs)"
  by (induction xs arbitrary: a) auto

lemma ring_init: "ring (rt_list_init l h) l []"
  by (simp add: ring_def list_op_defs)

lemma ring_isempty: "ring h l xs \<Longrightarrow> rt_list_isempty l h \<longleftrightarrow> xs = []"
  by (cases xs) (auto simp: ring_def rt_list_isempty_def)

text \<open>Linking a fresh node between two neighbours, and unlinking it: one lemma each, on segments.\<close>

lemma linked_insert_after:
  assumes "linked h a xs b" "n \<notin> insert a (insert b (set xs))" "distinct (a # xs)"
    "b \<notin> set xs"
  shows "linked (rt_list_insert_after a n h) a (n # xs) b"
proof (cases xs)
  case Nil
  with assms show ?thesis by (auto simp: list_op_defs)
next
  case (Cons x ys)
  have "linked (rt_list_insert_after a n h) x ys b = linked h x ys b"
    by (rule linked_frame) (use assms Cons in \<open>auto simp: list_op_defs\<close>)
  with assms Cons show ?thesis by (auto simp: list_op_defs)
qed

lemma linked_insert_before:
  assumes "linked h a xs b" "n \<notin> insert a (insert b (set xs))" "distinct (a # xs)"
    "b \<notin> set xs"
  shows "linked (rt_list_insert_before b n h) a (xs @ [n]) b"
proof (cases xs rule: rev_cases)
  case Nil
  with assms show ?thesis by (auto simp: list_op_defs)
next
  case (snoc ys x)
  have "linked (rt_list_insert_before b n h) a ys x = linked h a ys x"
    by (rule linked_frame) (use assms snoc in \<open>auto simp: list_op_defs\<close>)
  with assms snoc show ?thesis by (auto simp: list_op_defs)
qed

lemma ring_frame:
  "(\<And>x. x \<in> insert l (set xs) \<Longrightarrow> h' x = h x) \<Longrightarrow> ring h' l xs = ring h l xs"
  unfolding ring_def using linked_frame [of l xs h' h l] by simp

lemma ring_insert_after:
  "ring h l xs \<Longrightarrow> n \<notin> insert l (set xs) \<Longrightarrow> ring (rt_list_insert_after l n h) l (n # xs)"
  using linked_insert_after [of h l xs l n] by (auto simp: ring_def)

lemma ring_insert_before:
  assumes "ring h l (xs @ ys)" and "n \<notin> insert l (set (xs @ ys))"
  shows "ring (rt_list_insert_before (hd (ys @ [l])) n h) l (xs @ n # ys)"
proof (cases ys)
  case Nil
  with assms linked_insert_before [of h l xs l n] show ?thesis by (auto simp: ring_def)
next
  case (Cons y zs)
  from assms Cons have lxs: "linked h l xs y" by (simp add: ring_def)
  obtain a where a: "ln_prev (h y) = a" "a \<in> insert l (set xs)"
    using linked_last [OF lxs] last_in_set [of "l # xs"] by fastforce
  let ?h' = "rt_list_insert_before y n h"
  have h': "?h' = set_next n y (set_prev y n (set_prev n a (set_next a n h)))"
    by (simp add: rt_list_insert_before_eq a)
  have "linked ?h' y zs l = linked h y zs l"
    unfolding h' by (rule linked_frame) (use assms Cons a(2) in \<open>auto simp: ring_def\<close>)
  moreover have "linked ?h' l (xs @ [n]) y"
    by (rule linked_insert_before) (use assms Cons in \<open>auto simp: ring_def\<close>)
  ultimately show ?thesis using assms Cons by (auto simp: ring_def)
qed

lemma ring_neighbours:
  assumes "ring h l (xs @ n # ys)"
  shows "ln_prev (h n) = last (l # xs)" and "ln_next (h n) = hd (ys @ [l])"
proof -
  from assms have "linked h l xs n" "linked h n ys l" by (auto simp: ring_def)
  then show "ln_prev (h n) = last (l # xs)" "ln_next (h n) = hd (ys @ [l])"
    using linked_last [of h l xs n] linked_first [of h n ys l] by (auto split: list.splits)
qed

lemma rt_list_remove_eq:
  assumes "ln_next (h n) \<noteq> n" "ln_prev (h n) \<noteq> n"
  shows "rt_list_remove n h =
    (let a = ln_prev (h n); b = ln_next (h n)
     in set_next n n (set_prev n n (set_next a b (set_prev b a h))))"
  using assms by (simp add: rt_list_remove_def Let_def)

lemma linked_unlink:
  assumes "linked h a xs n" "linked h n ys b" "distinct (xs @ n # ys)"
    "a \<notin> set (xs @ n # ys)" "b \<notin> set (xs @ n # ys)"
  shows "linked (rt_list_remove n h) a (xs @ ys) b"
proof -
  obtain P Q where P: "P = last (a # xs)" "P \<in> insert a (set xs)"
    and Q: "Q = hd (ys @ [b])" "Q \<in> insert b (set ys)"
    using last_in_set [of "a # xs"] by (cases ys) auto
  have PQ: "ln_prev (h n) = P" "ln_next (h n) = Q"
    using linked_last [OF assms(1)] linked_first [OF assms(2)] P Q by (auto split: list.splits)
  have "P \<noteq> n" "Q \<noteq> n" using P(2) Q(2) assms(3-5) by auto
  then have eq: "rt_list_remove n h =
      set_next n n (set_prev n n (set_next P Q (set_prev Q P h)))" (is "_ = ?h'")
    using rt_list_remove_eq [of h n] PQ by (simp add: Let_def)
  have r: "linked ?h' y zs b" if "ys = y # zs" for y zs
  proof -
    have "linked ?h' y zs b = linked h y zs b"
      by (rule linked_frame) (use that assms P(2) Q(1) in auto)
    with that assms(2) show ?thesis by simp
  qed
  have l: "linked ?h' a ws x" if "xs = ws @ [x]" for ws x
  proof -
    have "linked ?h' a ws x = linked h a ws x"
      by (rule linked_frame) (use that assms Q(2) P(1) in auto)
    with that assms(1) show ?thesis by simp
  qed
  show ?thesis
  proof (cases xs rule: rev_cases)
    case Nil
    then show ?thesis using P(1) Q(1) assms(3-5) r unfolding eq by (cases ys) auto
  next
    case (snoc ws x)
    then show ?thesis using P(1) Q(1) assms(3-5) r l [OF snoc] unfolding eq by (cases ys) auto
  qed
qed

lemma ring_remove:
  assumes "ring h l (xs @ n # ys)"
  shows "ring (rt_list_remove n h) l (xs @ ys)"
  using assms linked_unlink [of h l xs n ys l] by (auto simp: ring_def)

lemma ring_remove_self: "ring (rt_list_remove n h) n []"
  by (simp add: ring_def list_op_defs)

lemma rt_list_remove_unlinked: "ring h n [] \<Longrightarrow> rt_list_remove n h = h"
  by (auto simp: ring_def list_op_defs fun_eq_iff)

subsection \<open>The lists of a whole store\<close>

text \<open>
  A thread's \<open>tlist\<close> node is on at most one list at a time: a ready list, the wait list of
  an IPC object, or the list of dead threads. The kernel components work on the map from
  list heads to the nodes linked there. \<open>wf_lists\<close> is what a store of rings guarantees of
  such a map, and the three list-level operations are what the inline functions do to it.
\<close>

definition unlinked :: "'t \<Rightarrow> ('q \<Rightarrow> 't list) \<Rightarrow> bool" where
  "unlinked t L \<longleftrightarrow> (\<forall>q. t \<notin> set (L q))"

definition wf_lists :: "('q \<Rightarrow> 't list) \<Rightarrow> bool" where
  "wf_lists L \<longleftrightarrow> (\<forall>q. distinct (L q)) \<and>
     (\<forall>q q' t. t \<in> set (L q) \<longrightarrow> t \<in> set (L q') \<longrightarrow> q = q')"

definition tl_insert_after :: "'q \<Rightarrow> 't \<Rightarrow> ('q \<Rightarrow> 't list) \<Rightarrow> ('q \<Rightarrow> 't list)" where
  "tl_insert_after q t L = L(q := t # L q)"

definition tl_insert_before :: "'q \<Rightarrow> 't \<Rightarrow> ('q \<Rightarrow> 't list) \<Rightarrow> ('q \<Rightarrow> 't list)" where
  "tl_insert_before q t L = L(q := L q @ [t])"

definition tl_remove :: "'t \<Rightarrow> ('q \<Rightarrow> 't list) \<Rightarrow> ('q \<Rightarrow> 't list)" where
  "tl_remove t L = (\<lambda>q. remove1 t (L q))"

lemma wf_listsD:
  "wf_lists L \<Longrightarrow> distinct (L q)"
  "wf_lists L \<Longrightarrow> t \<in> set (L q) \<Longrightarrow> t \<in> set (L q') \<Longrightarrow> q = q'"
  by (auto simp: wf_lists_def)

lemma set_tl_remove [simp]: "wf_lists L \<Longrightarrow> set (tl_remove t L q) = set (L q) - {t}"
  by (simp add: tl_remove_def wf_listsD)

lemma unlinked_tl_remove [simp]: "wf_lists L \<Longrightarrow> unlinked t (tl_remove t L)"
  by (simp add: unlinked_def)

lemma wf_tl_remove [simp]: "wf_lists L \<Longrightarrow> wf_lists (tl_remove t L)"
  by (auto simp: wf_lists_def tl_remove_def dest!: notin_set_remove1 [THEN notE] set_remove1_subset [THEN subsetD])

lemma tl_remove_unlinked [simp]: "unlinked t L \<Longrightarrow> tl_remove t L = L"
  by (auto simp: unlinked_def tl_remove_def remove1_idem)

lemma wf_tl_insert [simp]:
  "wf_lists L \<Longrightarrow> unlinked t L \<Longrightarrow> wf_lists (tl_insert_after q t L)"
  "wf_lists L \<Longrightarrow> unlinked t L \<Longrightarrow> wf_lists (tl_insert_before q t L)"
  by (auto simp: wf_lists_def unlinked_def tl_insert_after_def tl_insert_before_def
      split: if_splits)

lemma wf_lists_insert:
  assumes "wf_lists L" "unlinked t L" "distinct zs" "set zs = insert t (set (L q))"
  shows "wf_lists (L(q := zs))"
  unfolding wf_lists_def
proof (intro conjI allI impI)
  fix q1 q2 u assume "u \<in> set ((L(q := zs)) q1)" "u \<in> set ((L(q := zs)) q2)"
  then show "q1 = q2"
    using assms(2,4) wf_listsD(2) [OF assms(1), of u q1 q2]
    by (auto simp: unlinked_def split: if_splits)
qed (use assms in \<open>auto simp: wf_listsD\<close>)

datatype ('q, 't) lnode = Head 'q | Node 't

definition rep :: "('q, 't) lnode links \<Rightarrow> ('q \<Rightarrow> 't list) \<Rightarrow> bool" where
  "rep h L \<longleftrightarrow> wf_lists L \<and> (\<forall>q. ring h (Head q) (map Node (L q))) \<and>
     (\<forall>t. unlinked t L \<longrightarrow> ring h (Node t) [])"

text \<open>Each function writes its argument's cell and the neighbours it read, nothing else.\<close>

lemma list_op_frame:
  "x \<notin> {l, n, ln_next (h l)} \<Longrightarrow> rt_list_insert_after l n h x = h x"
  "x \<notin> {l, n, ln_prev (h l)} \<Longrightarrow> rt_list_insert_before l n h x = h x"
  "x \<notin> {n, ln_next (h n), ln_prev (h n)} \<Longrightarrow> rt_list_remove n h x = h x"
  by (auto simp: list_op_defs)

lemma ring_cells:
  assumes "ring h l xs"
  shows "ln_next (h l) \<in> insert l (set xs)" "ln_prev (h l) \<in> insert l (set xs)"
proof -
  from assms have l: "linked h l xs l" by (simp add: ring_def)
  show "ln_next (h l) \<in> insert l (set xs)"
    unfolding linked_first [OF l] by (cases xs) auto
  show "ln_prev (h l) \<in> insert l (set xs)"
    unfolding linked_last [OF l] by simp
qed

lemma rep_wf: "rep h L \<Longrightarrow> wf_lists L"
  by (simp add: rep_def)

lemma rep_ring: "rep h L \<Longrightarrow> ring h (Head q) (map Node (L q))"
  by (simp add: rep_def)

lemma rep_update:
  assumes "rep h L" and "wf_lists L'"
    and at: "ring h' (Head q) (map Node (L' q))"
    and other: "\<And>q'. q' \<noteq> q \<Longrightarrow> L' q' = L q'"
    and out: "\<And>x. x \<notin> insert (Head q) (Node ` (set (L q) \<union> set (L' q))) \<Longrightarrow> h' x = h x"
    and new: "\<And>t. t \<in> set (L q) \<Longrightarrow> unlinked t L' \<Longrightarrow> ring h' (Node t) []"
  shows "rep h' L'"
  unfolding rep_def
proof (intro conjI allI impI)
  fix q'
  show "ring h' (Head q') (map Node (L' q'))"
  proof (cases "q' = q")
    case False
    have "ring h' (Head q') (map Node (L q')) = ring h (Head q') (map Node (L q'))"
    proof (rule ring_frame)
      fix x assume x: "x \<in> insert (Head q') (set (map Node (L q')))"
      from assms(1) have wfL: "wf_lists L" by (simp add: rep_def)
      have "set (L q') \<inter> set (L q) = {}"
        using False wf_listsD(2) [OF wfL, of _ q' q] by blast
      moreover have "set (L q') \<inter> set (L' q) = {}"
        using False wf_listsD(2) [OF assms(2), of _ q' q] unfolding other [OF False] by blast
      ultimately have "x \<notin> insert (Head q) (Node ` (set (L q) \<union> set (L' q)))"
        using x False by auto
      then show "h' x = h x" by (rule out)
    qed
    with False assms(1) other show ?thesis by (simp add: rep_def)
  qed (use at in simp)
next
  fix t assume t: "unlinked t L'"
  show "ring h' (Node t) []"
  proof (cases "t \<in> set (L q)")
    case False
    with t other have "unlinked t L" unfolding unlinked_def by metis
    moreover have "h' (Node t) = h (Node t)"
      using False t by (intro out) (auto simp: unlinked_def)
    ultimately show ?thesis using assms(1) by (simp add: rep_def ring_def)
  qed (use t new in simp)
qed (rule assms(2))

lemma rep_insert:
  assumes "rep h L" and "wf_lists (L(q := zs))"
    and "set zs = insert t (set (L q))" and "ring h' (Head q) (map Node zs)"
    and "\<And>x. x \<notin> insert (Head q) (Node ` insert t (set (L q))) \<Longrightarrow> h' x = h x"
  shows "rep h' (L(q := zs))"
proof (rule rep_update [OF assms(1,2)])
  fix u assume "u \<in> set (L q)" "unlinked u (L(q := zs))"
  then show "ring h' (Node u) []"
    using assms(3) by (auto simp: unlinked_def split: if_splits)
qed (use assms in auto)

lemma rep_insert_after:
  assumes "rep h L" "unlinked t L"
  shows "rep (rt_list_insert_after (Head q) (Node t) h) (tl_insert_after q t L)"
  unfolding tl_insert_after_def
proof (rule rep_insert [OF assms(1)])
  have r: "ring h (Head q) (map Node (L q))" by (rule rep_ring [OF assms(1)])
  show "wf_lists (L(q := t # L q))"
    using wf_tl_insert(1) [of L t q] assms by (simp add: rep_def tl_insert_after_def)
  show "ring (rt_list_insert_after (Head q) (Node t) h) (Head q) (map Node (t # L q))"
    using ring_insert_after [OF r, of "Node t"] assms(2) by (auto simp: unlinked_def)
  show "rt_list_insert_after (Head q) (Node t) h x = h x"
    if "x \<notin> insert (Head q) (Node ` insert t (set (L q)))" for x
    using that ring_cells(1) [OF r] by (intro list_op_frame) auto
qed simp

lemma rep_insert_before:
  assumes "rep h L" "unlinked t L"
  shows "rep (rt_list_insert_before (Head q) (Node t) h) (tl_insert_before q t L)"
  unfolding tl_insert_before_def
proof (rule rep_insert [OF assms(1)])
  have r: "ring h (Head q) (map Node (L q))" by (rule rep_ring [OF assms(1)])
  show "wf_lists (L(q := L q @ [t]))"
    using wf_tl_insert(2) [of L t q] assms by (simp add: rep_def tl_insert_before_def)
  show "ring (rt_list_insert_before (Head q) (Node t) h) (Head q) (map Node (L q @ [t]))"
    using ring_insert_before [of h "Head q" "map Node (L q)" "[]" "Node t"] r assms(2)
    by (auto simp: unlinked_def)
  show "rt_list_insert_before (Head q) (Node t) h x = h x"
    if "x \<notin> insert (Head q) (Node ` insert t (set (L q)))" for x
    using that ring_cells(2) [OF r] by (intro list_op_frame) auto
qed simp

lemma rep_remove:
  assumes "rep h L"
  shows "rep (rt_list_remove (Node t) h) (tl_remove t L)"
proof (cases "unlinked t L")
  case True
  with assms show ?thesis by (simp add: rep_def rt_list_remove_unlinked)
next
  case False
  then obtain q where "t \<in> set (L q)" by (auto simp: unlinked_def)
  then obtain xs ys where q: "L q = xs @ t # ys" by (meson split_list)
  have wf: "wf_lists L" using assms by (simp add: rep_def)
  have r: "tl_remove t L q = xs @ ys"
    using wf_listsD(1) [OF wf, of q] q by (simp add: tl_remove_def remove1_append)
  have ring: "ring h (Head q) (map Node xs @ Node t # map Node ys)"
    using rep_ring [OF assms, of q] q by simp
  have cells: "ln_next (h (Node t)) \<in> insert (Head q) (Node ` set (L q))"
    "ln_prev (h (Node t)) \<in> insert (Head q) (Node ` set (L q))"
    unfolding ring_neighbours [OF ring] q
    by (cases ys; auto) (cases xs rule: rev_cases; auto)
  show ?thesis
  proof (rule rep_update [OF assms, of _ _ q])
    show "ring (rt_list_remove (Node t) h) (Head q) (map Node (tl_remove t L q))"
      using ring_remove [OF ring] r by simp
    show "rt_list_remove (Node t) h x = h x"
      if "x \<notin> insert (Head q) (Node ` (set (L q) \<union> set (tl_remove t L q)))" for x
      using that cells q by (intro list_op_frame) auto
    show "ring (rt_list_remove (Node t) h) (Node u) []"
      if "u \<in> set (L q)" "unlinked u (tl_remove t L)" for u
    proof -
      have "u \<notin> set (tl_remove t L q)" using that(2) by (simp add: unlinked_def)
      with that(1) wf have "u = t" by simp
      then show ?thesis by (simp add: ring_remove_self)
    qed
    show "tl_remove t L q' = L q'" if "q' \<noteq> q" for q'
    proof -
      have "t \<notin> set (L q')" using that wf_listsD(2) [OF wf, of t q q'] q by auto
      then show ?thesis by (simp add: tl_remove_def remove1_idem)
    qed
  qed (use wf in simp)
qed

lemma rep_insert_before_node:
  assumes "rep h L" "unlinked t L" "L q = xs @ u # ys"
  shows "rep (rt_list_insert_before (Node u) (Node t) h) (L(q := xs @ t # u # ys))"
proof (rule rep_insert [OF assms(1)])
  have r: "ring h (Head q) (map Node xs @ Node u # map Node ys)"
    using rep_ring [OF assms(1), of q] assms(3) by simp
  have wf: "wf_lists L" using assms(1) by (rule rep_wf)
  show "wf_lists (L(q := xs @ t # u # ys))"
    by (rule wf_lists_insert [OF wf assms(2)])
      (use wf_listsD(1) [OF wf, of q] assms(2,3) in \<open>auto simp: unlinked_def dest: spec [of _ q]\<close>)
  have "t \<notin> set (xs @ u # ys)" using assms(2,3) unfolding unlinked_def by metis
  then show "ring (rt_list_insert_before (Node u) (Node t) h) (Head q) (map Node (xs @ t # u # ys))"
    using ring_insert_before [of h "Head q" "map Node xs" "Node u # map Node ys" "Node t"] r
    by auto
  have "ln_prev (h (Node u)) \<in> insert (Head q) (Node ` set (L q))"
    unfolding ring_neighbours(1) [OF r] assms(3) by (cases xs rule: rev_cases) auto
  then show "rt_list_insert_before (Node u) (Node t) h x = h x"
    if "x \<notin> insert (Head q) (Node ` insert t (set (L q)))" for x
    using that assms(3) by (intro list_op_frame) auto
qed (use assms(3) in auto)

lemma rep_isempty: "rep h L \<Longrightarrow> rt_list_isempty (Head q) h \<longleftrightarrow> L q = []"
  using ring_isempty [OF rep_ring, of h L q] by simp

subsection \<open>The interface the kernel uses\<close>

text \<open>
  What the scheduler, the IPC objects and the idle thread rely on: insertion after and
  before a head, unlinking a node wherever it is linked, and the emptiness test.
\<close>

locale thread_lists =
  fixes repr :: "'s \<Rightarrow> ('q \<Rightarrow> 't list) \<Rightarrow> bool"
    and ins_after :: "'q \<Rightarrow> 't \<Rightarrow> 's \<Rightarrow> 's"
    and ins_before :: "'q \<Rightarrow> 't \<Rightarrow> 's \<Rightarrow> 's"
    and unlink :: "'t \<Rightarrow> 's \<Rightarrow> 's"
    and is_empty :: "'q \<Rightarrow> 's \<Rightarrow> bool"
  assumes repr_wf: "repr s L \<Longrightarrow> wf_lists L"
    and repr_after: "repr s L \<Longrightarrow> unlinked t L \<Longrightarrow> repr (ins_after q t s) (tl_insert_after q t L)"
    and repr_before:
      "repr s L \<Longrightarrow> unlinked t L \<Longrightarrow> repr (ins_before q t s) (tl_insert_before q t L)"
    and repr_unlink: "repr s L \<Longrightarrow> repr (unlink t s) (tl_remove t L)"
    and repr_empty: "repr s L \<Longrightarrow> is_empty q s \<longleftrightarrow> L q = []"
begin

lemma move_to_tail:
  assumes "repr s L"
  shows "repr (ins_before q t (unlink t s)) (tl_insert_before q t (tl_remove t L))"
  using assms by (simp add: repr_before repr_unlink repr_wf)

lemma rotate:
  assumes "repr s L" "L q = t # ts"
  obtains L' where "repr (ins_before q t (unlink t s)) L'" "L' q = ts @ [t]"
    "\<And>q'. q' \<noteq> q \<Longrightarrow> L' q' = L q'"
proof (rule that [OF move_to_tail [OF assms(1), of q t]])
  have wf: "wf_lists L" by (rule repr_wf [OF assms(1)])
  show "tl_insert_before q t (tl_remove t L) q = ts @ [t]"
    using assms(2) by (simp add: tl_insert_before_def tl_remove_def)
  show "tl_insert_before q t (tl_remove t L) q' = L q'" if "q' \<noteq> q" for q'
  proof -
    have "t \<notin> set (L q')" using wf_listsD(2) [OF wf, of t q' q] that assms(2) by auto
    with that show ?thesis by (simp add: tl_insert_before_def tl_remove_def remove1_idem)
  qed
qed

lemma drain:
  "repr s L \<Longrightarrow> \<exists>L'. repr (fold unlink (L q) s) L' \<and> L' q = [] \<and>
     (\<forall>q'. q' \<noteq> q \<longrightarrow> L' q' = L q')"
proof (induction "L q" arbitrary: s L)
  case Nil
  then show ?case by (intro exI [of _ L]) simp
next
  case (Cons t ts)
  have wf: "wf_lists L" by (rule repr_wf [OF Cons.prems])
  let ?L = "tl_remove t L"
  have Lq: "?L q = ts" using Cons.hyps(2) [symmetric] by (simp add: tl_remove_def)
  have other: "?L q' = L q'" if "q' \<noteq> q" for q'
  proof -
    have "t \<notin> set (L q')"
      using wf_listsD(2) [OF wf, of t q' q] that Cons.hyps(2) [symmetric] by auto
    then show ?thesis by (simp add: tl_remove_def remove1_idem)
  qed
  from Cons.hyps(1) [OF Lq [symmetric] repr_unlink [OF Cons.prems]] Lq
  obtain L' where "repr (fold unlink ts (unlink t s)) L'" "L' q = []"
    "\<forall>q'. q' \<noteq> q \<longrightarrow> L' q' = ?L q'" by auto
  with other Cons.hyps(2) [symmetric] show ?case by auto
qed

end

text \<open>The interface holds of the rings, and of the map of lists the kernel model keeps.\<close>

interpretation rings: thread_lists rep "\<lambda>q t. rt_list_insert_after (Head q) (Node t)"
  "\<lambda>q t. rt_list_insert_before (Head q) (Node t)" "\<lambda>t. rt_list_remove (Node t)"
  "\<lambda>q. rt_list_isempty (Head q)"
  by unfold_locales
    (erule rep_wf rep_insert_after rep_insert_before rep_remove rep_isempty; assumption?)+

interpretation tlist: thread_lists "\<lambda>L M. L = M \<and> wf_lists L" tl_insert_after tl_insert_before
  tl_remove "\<lambda>q L. L q = []"
  by unfold_locales auto

end
