(* ===== verification/RtDef.thy ===== *)
theory RtDef
  imports RtList RtHeap
begin

text \<open>
  The kernel's data (\<^verbatim>\<open>include/rtdef.h\<close>) and its global state: the objects of each class by
  address, the lists the threads' \<open>tlist\<close> nodes are on, the timer list, the tick, and the
  scheduler's variables. A failed \<open>RT_ASSERT\<close> spins forever and an access outside the
  kernel's tables is undefined, so every operation that can do either gives \<open>None\<close> there.
\<close>

subsection \<open>Objects\<close>

datatype rt_object_class = ClassThread | ClassSemaphore | ClassMutex | ClassEvent | ClassMailBox
  | ClassMessageQueue | ClassMemPool | ClassDevice | ClassTimer

text \<open>The timer embedded in each thread, and the timers of the application.\<close>

datatype timer_id = ThreadTimer nat | Timer nat

datatype object_id = ObjThread nat | ObjSem nat | ObjMutex nat | ObjEvent nat | ObjMb nat
  | ObjMq nat | ObjMp nat | ObjDevice nat | ObjTimer timer_id

primrec class_of :: "object_id \<Rightarrow> rt_object_class" where
  "class_of (ObjThread a) = ClassThread"
| "class_of (ObjSem a) = ClassSemaphore"
| "class_of (ObjMutex a) = ClassMutex"
| "class_of (ObjEvent a) = ClassEvent"
| "class_of (ObjMb a) = ClassMailBox"
| "class_of (ObjMq a) = ClassMessageQueue"
| "class_of (ObjMp a) = ClassMemPool"
| "class_of (ObjDevice a) = ClassDevice"
| "class_of (ObjTimer a) = ClassTimer"

primrec class_code :: "rt_object_class \<Rightarrow> u8" where
  "class_code ClassThread = 0"
| "class_code ClassSemaphore = 1"
| "class_code ClassMutex = 2"
| "class_code ClassEvent = 3"
| "class_code ClassMailBox = 4"
| "class_code ClassMessageQueue = 5"
| "class_code ClassMemPool = 6"
| "class_code ClassDevice = 7"
| "class_code ClassTimer = 8"

abbreviation RT_Object_Class_Static :: u8 where "RT_Object_Class_Static \<equiv> 0x80"

abbreviation RT_NAME_MAX :: nat where "RT_NAME_MAX \<equiv> 8"

record rt_object =
  o_name :: "u8 list"
  o_type :: u8
  o_flag :: u8

subsection \<open>Threads and timers\<close>

datatype thread_stat = RT_THREAD_INIT | RT_THREAD_READY | RT_THREAD_SUSPEND | RT_THREAD_RUNNING
  | RT_THREAD_CLOSE

abbreviation RT_THREAD_PRIORITY_MAX :: nat where "RT_THREAD_PRIORITY_MAX \<equiv> 32"

record rt_thread =
  t_sp :: nat
  t_entry :: nat
  t_parameter :: nat
  t_stack_addr :: nat
  t_stack_size :: u16
  t_error :: rt_err_t
  t_stat :: thread_stat
  t_current_priority :: u8
  t_init_priority :: u8
  t_number_mask :: u32
  t_event_set :: u32
  t_event_info :: u8
  t_init_tick :: u32
  t_remaining_tick :: u32
  t_cleanup :: "nat option"
  t_user_data :: u32

text \<open>A timer calls \<open>rt_thread_timeout\<close> of the thread it is part of, or a function of the
  application, named by its address.\<close>

datatype timeout_func = TimeoutThread | TimeoutUser nat

record rt_timer =
  tm_timeout_func :: timeout_func
  tm_parameter :: nat
  tm_init_tick :: rt_tick_t
  tm_timeout_tick :: rt_tick_t

abbreviation RT_TIMER_FLAG_ACTIVATED :: u8 where "RT_TIMER_FLAG_ACTIVATED \<equiv> 1"
abbreviation RT_TIMER_FLAG_PERIODIC :: u8 where "RT_TIMER_FLAG_PERIODIC \<equiv> 2"

subsection \<open>IPC objects and memory pools\<close>

abbreviation RT_IPC_FLAG_FIFO :: u8 where "RT_IPC_FLAG_FIFO \<equiv> 0"
abbreviation RT_IPC_FLAG_PRIO :: u8 where "RT_IPC_FLAG_PRIO \<equiv> 1"
abbreviation RT_IPC_CMD_RESET :: u8 where "RT_IPC_CMD_RESET \<equiv> 1"
abbreviation RT_EVENT_FLAG_AND :: u8 where "RT_EVENT_FLAG_AND \<equiv> 1"
abbreviation RT_EVENT_FLAG_OR :: u8 where "RT_EVENT_FLAG_OR \<equiv> 2"
abbreviation RT_EVENT_FLAG_CLEAR :: u8 where "RT_EVENT_FLAG_CLEAR \<equiv> 4"

record rt_semaphore =
  sem_value :: u16

record rt_mutex =
  mu_value :: u16
  mu_original_priority :: u8
  mu_hold :: u8
  mu_owner :: "nat option"

record rt_event =
  ev_set :: u32

record rt_mailbox =
  mb_msg_pool :: nat
  mb_msgs :: "nat \<Rightarrow> u32"
  mb_size :: u16
  mb_entry :: u16
  mb_in_offset :: u16
  mb_out_offset :: u16

text \<open>The slots of a message queue by index: the link each starts with, and its bytes.\<close>

record rt_messagequeue =
  mq_msg_pool :: nat
  mq_link :: "nat \<Rightarrow> nat option"
  mq_data :: "nat \<Rightarrow> nat \<Rightarrow> u8"
  mq_msg_size :: u16
  mq_max_msgs :: u16
  mq_entry :: u16
  mq_msg_queue_head :: "nat option"
  mq_msg_queue_tail :: "nat option"
  mq_msg_queue_free :: "nat option"

text \<open>The first word of a block: the next free block, or the pool the block was taken from.\<close>

datatype mp_word = NextBlock "nat option" | OwnerPool nat

record rt_mempool =
  mp_start_address :: nat
  mp_size :: u32
  mp_block_size :: u32
  mp_block_list :: "nat option"
  mp_block_total_count :: u32
  mp_block_free_count :: u32
  mp_suspend_thread_count :: u32

subsection \<open>The kernel state\<close>

text \<open>The lists a thread's \<open>tlist\<close> node can be on.\<close>

datatype list_head = Ready nat | Defunct | SemQ nat | MutexQ nat | EventQ nat
  | MbRecvQ nat | MbSendQ nat | MqQ nat | MpQ nat | CompletionQ nat | DqPushQ nat | DqPopQ nat
  | PipeReadQ nat | PipeWriteQ nat

text \<open>Where a thread is to go on when it next runs, if it was switched out inside a call.\<close>

datatype frame =
    InSleep
  | InSemTake nat
  | InMutexTake nat
  | InEventRecv nat
  | InMbSend nat u32 u32 u32
  | InMbRecv nat u32 u32
  | InMqRecv nat u32 u32 u32
  | InMpAlloc nat
  | InCompletion nat
  | InDqPush nat u32 u32 u32
  | InDqPop nat u32
  | InDqNotify nat u32 u32
  | InPipeRead nat nat u32
  | InPipeWrite nat nat u32

record kstate =
  rt_tick :: rt_tick_t
  rt_interrupt_nest :: u8
  rt_scheduler_lock_nest :: "16 word"
  rt_thread_ready_priority_group :: u32
  rt_current_thread :: "nat option"
  rt_current_priority :: u8
  tlists :: "list_head \<Rightarrow> nat list"
  threads :: "nat \<Rightarrow> rt_thread"
  rt_timer_list :: "timer_id list"
  timers :: "timer_id \<Rightarrow> rt_timer"
  objects :: "object_id \<Rightarrow> rt_object"
  object_lists :: "rt_object_class \<Rightarrow> object_id list"
  semaphores :: "nat \<Rightarrow> rt_semaphore"
  mutexes :: "nat \<Rightarrow> rt_mutex"
  events :: "nat \<Rightarrow> rt_event"
  mailboxes :: "nat \<Rightarrow> rt_mailbox"
  messagequeues :: "nat \<Rightarrow> rt_messagequeue"
  mempools :: "nat \<Rightarrow> rt_mempool"
  mp_words :: "nat \<Rightarrow> mp_word"
  heap :: heap_state
  frames :: "nat \<Rightarrow> frame option"

text \<open>Assignments to a field of one object.\<close>

abbreviation thread_at :: "nat \<Rightarrow> (rt_thread \<Rightarrow> rt_thread) \<Rightarrow> kstate \<Rightarrow> kstate" where
  "thread_at t f s \<equiv> s\<lparr>threads := (threads s)(t := f (threads s t))\<rparr>"

abbreviation timer_at :: "timer_id \<Rightarrow> (rt_timer \<Rightarrow> rt_timer) \<Rightarrow> kstate \<Rightarrow> kstate" where
  "timer_at t f s \<equiv> s\<lparr>timers := (timers s)(t := f (timers s t))\<rparr>"

abbreviation object_at :: "object_id \<Rightarrow> (rt_object \<Rightarrow> rt_object) \<Rightarrow> kstate \<Rightarrow> kstate" where
  "object_at b f s \<equiv> s\<lparr>objects := (objects s)(b := f (objects s b))\<rparr>"

abbreviation sem_at :: "nat \<Rightarrow> (rt_semaphore \<Rightarrow> rt_semaphore) \<Rightarrow> kstate \<Rightarrow> kstate" where
  "sem_at a f s \<equiv> s\<lparr>semaphores := (semaphores s)(a := f (semaphores s a))\<rparr>"

abbreviation mutex_at :: "nat \<Rightarrow> (rt_mutex \<Rightarrow> rt_mutex) \<Rightarrow> kstate \<Rightarrow> kstate" where
  "mutex_at a f s \<equiv> s\<lparr>mutexes := (mutexes s)(a := f (mutexes s a))\<rparr>"

abbreviation event_at :: "nat \<Rightarrow> (rt_event \<Rightarrow> rt_event) \<Rightarrow> kstate \<Rightarrow> kstate" where
  "event_at a f s \<equiv> s\<lparr>events := (events s)(a := f (events s a))\<rparr>"

abbreviation mb_at :: "nat \<Rightarrow> (rt_mailbox \<Rightarrow> rt_mailbox) \<Rightarrow> kstate \<Rightarrow> kstate" where
  "mb_at a f s \<equiv> s\<lparr>mailboxes := (mailboxes s)(a := f (mailboxes s a))\<rparr>"

abbreviation mq_at :: "nat \<Rightarrow> (rt_messagequeue \<Rightarrow> rt_messagequeue) \<Rightarrow> kstate \<Rightarrow> kstate" where
  "mq_at a f s \<equiv> s\<lparr>messagequeues := (messagequeues s)(a := f (messagequeues s a))\<rparr>"

abbreviation mp_at :: "nat \<Rightarrow> (rt_mempool \<Rightarrow> rt_mempool) \<Rightarrow> kstate \<Rightarrow> kstate" where
  "mp_at a f s \<equiv> s\<lparr>mempools := (mempools s)(a := f (mempools s a))\<rparr>"

abbreviation lists_at :: "((list_head \<Rightarrow> nat list) \<Rightarrow> (list_head \<Rightarrow> nat list)) \<Rightarrow> kstate \<Rightarrow> kstate" where
  "lists_at f s \<equiv> s\<lparr>tlists := f (tlists s)\<rparr>"

abbreviation stat :: "kstate \<Rightarrow> nat \<Rightarrow> thread_stat" where "stat s t \<equiv> t_stat (threads s t)"
abbreviation prio :: "kstate \<Rightarrow> nat \<Rightarrow> u8" where "prio s t \<equiv> t_current_priority (threads s t)"

definition rt_thread_self :: "kstate \<Rightarrow> nat option" where
  "rt_thread_self s = rt_current_thread s"

subsection \<open>Interrupt nesting (irq.c) and the context checks (rtdebug.h)\<close>

definition rt_interrupt_enter :: "kstate \<Rightarrow> kstate" where
  "rt_interrupt_enter s = s\<lparr>rt_interrupt_nest := rt_interrupt_nest s + 1\<rparr>"

definition rt_interrupt_leave :: "kstate \<Rightarrow> kstate" where
  "rt_interrupt_leave s = s\<lparr>rt_interrupt_nest := rt_interrupt_nest s - 1\<rparr>"

definition rt_interrupt_get_nest :: "kstate \<Rightarrow> u8" where
  "rt_interrupt_get_nest s = rt_interrupt_nest s"

definition RT_ASSERT :: "bool \<Rightarrow> 'a option \<Rightarrow> 'a option" where
  "RT_ASSERT c k = (if c then k else None)"

definition RT_DEBUG_NOT_IN_INTERRUPT :: "kstate \<Rightarrow> 'a option \<Rightarrow> 'a option" where
  "RT_DEBUG_NOT_IN_INTERRUPT s k = RT_ASSERT (rt_interrupt_get_nest s = 0) k"

definition RT_DEBUG_IN_THREAD_CONTEXT :: "kstate \<Rightarrow> 'a option \<Rightarrow> 'a option" where
  "RT_DEBUG_IN_THREAD_CONTEXT s k =
     RT_ASSERT (rt_thread_self s \<noteq> None) (RT_DEBUG_NOT_IN_INTERRUPT s k)"

lemma context_checks [simp]:
  "RT_ASSERT c k = Some y \<longleftrightarrow> c \<and> k = Some y"
  "RT_DEBUG_NOT_IN_INTERRUPT s k = Some y \<longleftrightarrow> rt_interrupt_nest s = 0 \<and> k = Some y"
  "RT_DEBUG_IN_THREAD_CONTEXT s k = Some y \<longleftrightarrow>
     (\<exists>t. rt_current_thread s = Some t) \<and> rt_interrupt_nest s = 0 \<and> k = Some y"
  by (auto simp: RT_ASSERT_def RT_DEBUG_NOT_IN_INTERRUPT_def RT_DEBUG_IN_THREAD_CONTEXT_def
      rt_interrupt_get_nest_def rt_thread_self_def)

lemma context_checks_pass [simp]:
  "c \<Longrightarrow> RT_ASSERT c k = k"
  "rt_interrupt_nest s = 0 \<Longrightarrow> RT_DEBUG_NOT_IN_INTERRUPT s k = k"
  "rt_current_thread s = Some t \<Longrightarrow> rt_interrupt_nest s = 0 \<Longrightarrow> RT_DEBUG_IN_THREAD_CONTEXT s k = k"
  by (auto simp: RT_ASSERT_def RT_DEBUG_NOT_IN_INTERRUPT_def RT_DEBUG_IN_THREAD_CONTEXT_def
      rt_interrupt_get_nest_def rt_thread_self_def)

end
