(* ===== verification/RtScheduler.thy ===== *)
theory RtScheduler
  imports RtDef KService
begin

text \<open>
  The scheduler of \<^verbatim>\<open>src/scheduler.c\<close>: the ready lists by priority, the bit map of priorities
  with a ready thread, the choice of the thread to run, and the scheduler lock. Interrupts
  are disabled around every update, so each function is one step; a context switch is the
  change of \<open>rt_current_thread\<close>. The scheduler hook is taken as not set.
\<close>

subsection \<open>Operations\<close>

definition rt_system_scheduler_init :: "kstate \<Rightarrow> kstate" where
  "rt_system_scheduler_init s =
     s\<lparr>rt_scheduler_lock_nest := 0,
       tlists := (\<lambda>q. case q of
           Ready p \<Rightarrow> if p < RT_THREAD_PRIORITY_MAX then [] else tlists s q
         | Defunct \<Rightarrow> []
         | _ \<Rightarrow> tlists s q),
       rt_current_priority := of_nat (RT_THREAD_PRIORITY_MAX - 1),
       rt_current_thread := None,
       rt_thread_ready_priority_group := 0\<rparr>"

definition highest_ready_priority :: "kstate \<Rightarrow> nat option" where
  "highest_ready_priority s =
     (let n = rt_ffs (rt_thread_ready_priority_group s) in if n = 0 then None else Some (n - 1))"

definition first_thread :: "list_head \<Rightarrow> kstate \<Rightarrow> nat option" where
  "first_thread q s = (case tlists s q of [] \<Rightarrow> None | t # _ \<Rightarrow> Some t)"

definition rt_system_scheduler_start :: "kstate \<Rightarrow> kstate option" where
  "rt_system_scheduler_start s =
     do { p \<leftarrow> highest_ready_priority s;
          to \<leftarrow> first_thread (Ready p) s;
          Some (s\<lparr>rt_current_thread := Some to\<rparr>) }"

text \<open>\<open>_rt_scheduler_stack_check\<close> spins with interrupts off when the stack pointer is outside
  the thread's stack.\<close>

definition stack_ok :: "rt_thread \<Rightarrow> bool" where
  "stack_ok th \<longleftrightarrow> \<not> (t_sp th \<le> t_stack_addr th \<or> t_sp th > t_stack_addr th + unat (t_stack_size th))"

definition rt_schedule :: "kstate \<Rightarrow> kstate option" where
  "rt_schedule s =
     (if rt_scheduler_lock_nest s = 0
      then do {
        p \<leftarrow> highest_ready_priority s;
        to \<leftarrow> first_thread (Ready p) s;
        if rt_current_thread s \<noteq> Some to
        then if rt_current_thread s \<noteq> None \<and> stack_ok (threads s to)
             then Some (s\<lparr>rt_current_priority := of_nat p, rt_current_thread := Some to\<rparr>)
             else None
        else Some s }
      else Some s)"

definition rt_schedule_insert_thread :: "nat \<Rightarrow> kstate \<Rightarrow> kstate option" where
  "rt_schedule_insert_thread t s =
     (let s1 = thread_at t (t_stat_update (\<lambda>_. RT_THREAD_READY)) s;
          p = unat (prio s1 t)
      in if p < RT_THREAD_PRIORITY_MAX
         then let s2 = lists_at (tl_insert_before (Ready p) t) s1
              in Some (s2\<lparr>rt_thread_ready_priority_group :=
                   rt_thread_ready_priority_group s2 OR t_number_mask (threads s2 t)\<rparr>)
         else None)"

definition rt_schedule_remove_thread :: "nat \<Rightarrow> kstate \<Rightarrow> kstate option" where
  "rt_schedule_remove_thread t s =
     (let s1 = lists_at (tl_remove t) s;
          p = unat (prio s1 t)
      in if p < RT_THREAD_PRIORITY_MAX
         then Some (if tlists s1 (Ready p) = []
                    then s1\<lparr>rt_thread_ready_priority_group :=
                      rt_thread_ready_priority_group s1 AND NOT (t_number_mask (threads s1 t))\<rparr>
                    else s1)
         else None)"

definition rt_enter_critical :: "kstate \<Rightarrow> kstate" where
  "rt_enter_critical s = s\<lparr>rt_scheduler_lock_nest := rt_scheduler_lock_nest s + 1\<rparr>"

definition rt_exit_critical :: "kstate \<Rightarrow> kstate option" where
  "rt_exit_critical s =
     (let s1 = s\<lparr>rt_scheduler_lock_nest := rt_scheduler_lock_nest s - 1\<rparr>
      in if sint (rt_scheduler_lock_nest s1) \<le> 0
         then rt_schedule (s1\<lparr>rt_scheduler_lock_nest := 0\<rparr>)
         else Some s1)"

definition rt_critical_level :: "kstate \<Rightarrow> u16" where
  "rt_critical_level s = rt_scheduler_lock_nest s"

subsection \<open>The invariant\<close>

text \<open>What a list says of the threads on it.\<close>

definition queue_ok :: "list_head \<Rightarrow> rt_thread \<Rightarrow> bool" where
  "queue_ok q th \<longleftrightarrow>
     (case q of
        Ready p \<Rightarrow> t_stat th = RT_THREAD_READY \<and> unat (t_current_priority th) = p
      | Defunct \<Rightarrow> t_stat th = RT_THREAD_CLOSE
      | _ \<Rightarrow> t_stat th = RT_THREAD_SUSPEND)"

definition mask_ok :: "rt_thread \<Rightarrow> bool" where
  "mask_ok th \<longleftrightarrow> unat (t_current_priority th) < RT_THREAD_PRIORITY_MAX \<and>
     t_number_mask th = push_bit (unat (t_current_priority th)) 1"

definition started :: "thread_stat \<Rightarrow> bool" where
  "started st \<longleftrightarrow> st \<noteq> RT_THREAD_INIT \<and> st \<noteq> RT_THREAD_CLOSE"

definition sched_ok :: "(list_head \<Rightarrow> nat list) \<Rightarrow> u32 \<Rightarrow> (nat \<Rightarrow> rt_thread) \<Rightarrow> bool" where
  "sched_ok L g th \<longleftrightarrow> wf_lists L \<and>
     (\<forall>q t. t \<in> set (L q) \<longrightarrow> queue_ok q (th t)) \<and>
     (\<forall>t. t_stat (th t) = RT_THREAD_READY \<longrightarrow> t \<in> set (L (Ready (unat (t_current_priority (th t)))))) \<and>
     (\<forall>t. started (t_stat (th t)) \<longrightarrow> mask_ok (th t)) \<and>
     (\<forall>p < RT_THREAD_PRIORITY_MAX. bit g p \<longleftrightarrow> L (Ready p) \<noteq> [])"

abbreviation sched_inv :: "kstate \<Rightarrow> bool" where
  "sched_inv s \<equiv> sched_ok (tlists s) (rt_thread_ready_priority_group s) (threads s)"

lemma sched_okD:
  assumes "sched_ok L g th"
  shows "wf_lists L" "\<And>q t. t \<in> set (L q) \<Longrightarrow> queue_ok q (th t)"
    "\<And>t. t_stat (th t) = RT_THREAD_READY \<Longrightarrow> t \<in> set (L (Ready (unat (t_current_priority (th t)))))"
    "\<And>t. started (t_stat (th t)) \<Longrightarrow> mask_ok (th t)"
    "\<And>p. p < RT_THREAD_PRIORITY_MAX \<Longrightarrow> bit g p \<longleftrightarrow> L (Ready p) \<noteq> []"
  using assms unfolding sched_ok_def by blast+

lemma queue_ok_simps [simp]:
  "queue_ok (Ready p) th \<longleftrightarrow> t_stat th = RT_THREAD_READY \<and> unat (t_current_priority th) = p"
  "queue_ok Defunct th \<longleftrightarrow> t_stat th = RT_THREAD_CLOSE"
  "queue_ok (SemQ a) th \<longleftrightarrow> t_stat th = RT_THREAD_SUSPEND"
  "queue_ok (MutexQ a) th \<longleftrightarrow> t_stat th = RT_THREAD_SUSPEND"
  "queue_ok (EventQ a) th \<longleftrightarrow> t_stat th = RT_THREAD_SUSPEND"
  "queue_ok (MbRecvQ a) th \<longleftrightarrow> t_stat th = RT_THREAD_SUSPEND"
  "queue_ok (MbSendQ a) th \<longleftrightarrow> t_stat th = RT_THREAD_SUSPEND"
  "queue_ok (MqQ a) th \<longleftrightarrow> t_stat th = RT_THREAD_SUSPEND"
  "queue_ok (MpQ a) th \<longleftrightarrow> t_stat th = RT_THREAD_SUSPEND"
  "queue_ok (CompletionQ a) th \<longleftrightarrow> t_stat th = RT_THREAD_SUSPEND"
  "queue_ok (DqPushQ a) th \<longleftrightarrow> t_stat th = RT_THREAD_SUSPEND"
  "queue_ok (DqPopQ a) th \<longleftrightarrow> t_stat th = RT_THREAD_SUSPEND"
  "queue_ok (PipeReadQ a) th \<longleftrightarrow> t_stat th = RT_THREAD_SUSPEND"
  "queue_ok (PipeWriteQ a) th \<longleftrightarrow> t_stat th = RT_THREAD_SUSPEND"
  by (simp_all add: queue_ok_def)

lemma started_simps [simp]:
  "started RT_THREAD_READY" "started RT_THREAD_SUSPEND" "\<not> started RT_THREAD_INIT"
  "\<not> started RT_THREAD_CLOSE"
  by (simp_all add: started_def)

definition wait_queue :: "list_head \<Rightarrow> bool" where
  "wait_queue q \<longleftrightarrow> q \<noteq> Defunct \<and> (\<forall>p. q \<noteq> Ready p)"

lemma wait_queue_simps [simp]:
  "wait_queue (SemQ a)" "wait_queue (MutexQ a)" "wait_queue (EventQ a)" "wait_queue (MbRecvQ a)"
  "wait_queue (MbSendQ a)" "wait_queue (MqQ a)" "wait_queue (MpQ a)" "\<not> wait_queue (Ready p)"
  "wait_queue (CompletionQ a)" "wait_queue (DqPushQ a)" "wait_queue (DqPopQ a)"
  "wait_queue (PipeReadQ a)" "wait_queue (PipeWriteQ a)"
  "\<not> wait_queue Defunct"
  by (simp_all add: wait_queue_def)

lemma queue_ok_wait: "wait_queue q \<Longrightarrow> queue_ok q th \<longleftrightarrow> t_stat th = RT_THREAD_SUSPEND"
  by (cases q) auto

text \<open>The fields of a thread the invariant reads.\<close>

definition same_sched :: "rt_thread \<Rightarrow> rt_thread \<Rightarrow> bool" where
  "same_sched a b \<longleftrightarrow> t_stat a = t_stat b \<and> t_current_priority a = t_current_priority b \<and>
     t_number_mask a = t_number_mask b"

lemma sched_ok_cong:
  assumes "\<And>t. same_sched (th' t) (th t)"
  shows "sched_ok L g th' = sched_ok L g th"
proof -
  have s: "t_stat (th' t) = t_stat (th t)" "t_current_priority (th' t) = t_current_priority (th t)"
    "t_number_mask (th' t) = t_number_mask (th t)" for t
    using assms [of t] by (simp_all add: same_sched_def)
  have "queue_ok q (th' t) = queue_ok q (th t)" for q t by (cases q) (simp_all add: s)
  then show ?thesis unfolding sched_ok_def mask_ok_def s by simp
qed

lemma sched_ok_upd [simp]:
  "same_sched (f (th t)) (th t) \<Longrightarrow> sched_ok L g (th(t := f (th t))) = sched_ok L g th"
  by (rule sched_ok_cong) (simp add: same_sched_def)

lemma same_sched_upd [simp]:
  "same_sched (t_error_update f th) th" "same_sched (t_remaining_tick_update g th) th"
  "same_sched (t_event_set_update h th) th" "same_sched (t_event_info_update k th) th"
  "same_sched (t_sp_update l th) th"
  by (simp_all add: same_sched_def)

subsection \<open>The four moves of a thread between lists\<close>

lemma bit_mask: "mask_ok th \<Longrightarrow> bit (t_number_mask th) n \<longleftrightarrow> n = unat (t_current_priority th)"
  by (auto simp: mask_ok_def bit_simps)

text \<open>A thread leaves the list it is on; if that was a ready list it is not ready any more.\<close>

lemma sched_ok_unlink:
  assumes ok: "sched_ok L g th" and mask: "mask_ok (th t)"
    and th': "\<And>u. u \<noteq> t \<Longrightarrow> th' u = th u" "t_stat (th' t) \<noteq> RT_THREAD_READY"
      "started (t_stat (th' t)) \<Longrightarrow> mask_ok (th' t)"
    and g': "g' = (if tl_remove t L (Ready (unat (t_current_priority (th t)))) = []
      then g AND NOT (t_number_mask (th t)) else g)"
  shows "sched_ok (tl_remove t L) g' th'" "unlinked t (tl_remove t L)"
proof -
  note D = sched_okD [OF ok]
  let ?p = "unat (t_current_priority (th t))"
  show "unlinked t (tl_remove t L)" using D(1) by simp
  have other: "tl_remove t L (Ready p) = L (Ready p)" if "p \<noteq> ?p" for p
  proof -
    have "t \<notin> set (L (Ready p))" using D(2) [of t "Ready p"] that by auto
    then show ?thesis by (simp add: tl_remove_def remove1_idem)
  qed
  have grp: "bit g' p \<longleftrightarrow> tl_remove t L (Ready p) \<noteq> []" if p: "p < RT_THREAD_PRIORITY_MAX" for p
  proof (cases "p = ?p")
    case True
    show ?thesis
    proof (cases "tl_remove t L (Ready ?p) = []")
      case True
      then show ?thesis using \<open>p = ?p\<close> bit_mask [OF mask] by (simp add: g' bit_simps)
    next
      case False
      then have "L (Ready ?p) \<noteq> []" by (auto simp: tl_remove_def)
      with False show ?thesis using D(5) [OF p] \<open>p = ?p\<close> by (simp add: g')
    qed
  next
    case False
    then show ?thesis using other [OF False] D(5) [OF p] bit_mask [OF mask, of p] p
      by (simp add: g' bit_simps)
  qed
  show "sched_ok (tl_remove t L) g' th'"
    unfolding sched_ok_def
  proof (intro conjI allI impI)
    show "queue_ok q (th' u)" if "u \<in> set (tl_remove t L q)" for q u
      using that D(1,2) th'(1) by auto
    show "u \<in> set (tl_remove t L (Ready (unat (t_current_priority (th' u)))))"
      if "t_stat (th' u) = RT_THREAD_READY" for u
      using that D(1) D(3) [of u] th' by (cases "u = t") auto
    show "mask_ok (th' u)" if "started (t_stat (th' u))" for u
      using that D(4) [of u] th' by (cases "u = t") auto
  qed (use D(1) grp in auto)
qed

text \<open>A thread that is on no list becomes ready.\<close>

lemma sched_ok_ready:
  assumes ok: "sched_ok L g th" and u: "unlinked t L" and mask: "mask_ok (th t)"
  shows "sched_ok (tl_insert_before (Ready (unat (t_current_priority (th t)))) t L)
    (g OR t_number_mask (th t)) (th(t := (th t)\<lparr>t_stat := RT_THREAD_READY\<rparr>))"
proof -
  note D = sched_okD [OF ok]
  let ?p = "unat (t_current_priority (th t))"
  let ?L = "tl_insert_before (Ready ?p) t L" and ?th = "th(t := (th t)\<lparr>t_stat := RT_THREAD_READY\<rparr>)"
  have nr: "t_stat (th t) \<noteq> RT_THREAD_READY" using D(3) [of t] u by (auto simp: unlinked_def)
  have m: "set (?L q) = (if q = Ready ?p then insert t (set (L q)) else set (L q))" for q
    by (auto simp: tl_insert_before_def)
  have mask': "mask_ok (?th t)" using mask by (simp add: mask_ok_def)
  show ?thesis
    unfolding sched_ok_def
  proof (intro conjI allI impI)
    show "wf_lists ?L" using D(1) u by simp
    show "queue_ok q (?th v)" if "v \<in> set (?L q)" for q v
      using that D(2) [of v q] u unfolding m by (auto simp: unlinked_def split: if_splits)
    show "v \<in> set (?L (Ready (unat (t_current_priority (?th v)))))" if "t_stat (?th v) = RT_THREAD_READY" for v
      using that D(3) [of v] unfolding m by (cases "v = t") auto
    show "mask_ok (?th v)" if "started (t_stat (?th v))" for v
      using that D(4) [of v] mask' by (cases "v = t") auto
    show "bit (g OR t_number_mask (th t)) p \<longleftrightarrow> ?L (Ready p) \<noteq> []" if "p < RT_THREAD_PRIORITY_MAX" for p
      using D(5) [OF that] bit_mask [OF mask, of p] by (auto simp: bit_simps tl_insert_before_def)
  qed
qed

text \<open>A suspended thread that is on no list is put on a waiting list, or leaves one.\<close>

lemma sched_ok_wait:
  assumes ok: "sched_ok L g th" and u: "unlinked t L" "t_stat (th t) = RT_THREAD_SUSPEND"
    and q: "wait_queue q" "distinct zs" "set zs = insert t (set (L q))"
  shows "sched_ok (L(q := zs)) g th"
proof -
  note D = sched_okD [OF ok]
  have r: "(L(q := zs)) (Ready p) = L (Ready p)" for p using q(1) by (auto simp: wait_queue_def)
  show ?thesis
    unfolding sched_ok_def r
  proof (intro conjI allI impI)
    show "wf_lists (L(q := zs))" by (rule wf_lists_insert [OF D(1) u(1) q(2,3)])
    show "queue_ok q' (th v)" if "v \<in> set ((L(q := zs)) q')" for q' v
      using that D(2) [of v q'] q(1,3) u(2) by (auto simp: queue_ok_wait split: if_splits)
  qed (use D(3-5) in auto)
qed

lemma sched_ok_unwait:
  assumes ok: "sched_ok L g th" and nr: "t_stat (th t) \<noteq> RT_THREAD_READY"
  shows "sched_ok (tl_remove t L) g th" "unlinked t (tl_remove t L)"
proof -
  note D = sched_okD [OF ok]
  show "unlinked t (tl_remove t L)" using D(1) by simp
  have r: "tl_remove t L (Ready p) = L (Ready p)" for p
  proof -
    have "t \<notin> set (L (Ready p))" using D(2) [of t "Ready p"] nr by auto
    then show ?thesis by (simp add: tl_remove_def remove1_idem)
  qed
  show "sched_ok (tl_remove t L) g th"
    unfolding sched_ok_def r using D by (intro conjI) auto
qed

text \<open>A closed thread that is on no list is put on the list of dead threads.\<close>

lemma sched_ok_defunct:
  assumes ok: "sched_ok L g th" and u: "unlinked t L" "t_stat (th t) = RT_THREAD_CLOSE"
  shows "sched_ok (tl_insert_after Defunct t L) g th"
proof -
  note D = sched_okD [OF ok]
  have r: "tl_insert_after Defunct t L (Ready p) = L (Ready p)" for p by (simp add: tl_insert_after_def)
  show ?thesis
    unfolding sched_ok_def r
  proof (intro conjI allI impI)
    show "wf_lists (tl_insert_after Defunct t L)" using D(1) u(1) by simp
    show "queue_ok q (th v)" if "v \<in> set (tl_insert_after Defunct t L q)" for q v
      using that D(2) [of v q] u(2) by (auto simp: tl_insert_after_def split: if_splits)
  qed (use D(3-5) in auto)
qed

subsection \<open>The operations under the invariant\<close>

lemma rt_schedule_insert_thread_eq:
  "mask_ok (threads s t) \<Longrightarrow> rt_schedule_insert_thread t s =
     Some (s\<lparr>threads := (threads s)(t := (threads s t)\<lparr>t_stat := RT_THREAD_READY\<rparr>),
       tlists := tl_insert_before (Ready (unat (prio s t))) t (tlists s),
       rt_thread_ready_priority_group :=
         rt_thread_ready_priority_group s OR t_number_mask (threads s t)\<rparr>)"
  by (simp add: rt_schedule_insert_thread_def Let_def mask_ok_def)

lemma rt_schedule_remove_thread_eq:
  "mask_ok (threads s t) \<Longrightarrow> rt_schedule_remove_thread t s =
     Some (s\<lparr>tlists := tl_remove t (tlists s),
       rt_thread_ready_priority_group :=
         (if tl_remove t (tlists s) (Ready (unat (prio s t))) = []
          then rt_thread_ready_priority_group s AND NOT (t_number_mask (threads s t))
          else rt_thread_ready_priority_group s)\<rparr>)"
  by (simp add: rt_schedule_remove_thread_def Let_def mask_ok_def)

lemma rt_schedule_insert_thread_inv:
  assumes "sched_inv s" "unlinked t (tlists s)" "mask_ok (threads s t)"
  obtains s' where "rt_schedule_insert_thread t s = Some s'" "sched_inv s'" "stat s' t = RT_THREAD_READY"
  using sched_ok_ready [OF assms] rt_schedule_insert_thread_eq [OF assms(3)] by simp

text \<open>The thread chosen: the first of the highest priority that has a ready thread.\<close>

definition highest_ready :: "kstate \<Rightarrow> nat \<Rightarrow> bool" where
  "highest_ready s t \<longleftrightarrow> stat s t = RT_THREAD_READY \<and>
     (\<forall>u. stat s u = RT_THREAD_READY \<longrightarrow> unat (prio s t) \<le> unat (prio s u)) \<and>
     (\<exists>us. tlists s (Ready (unat (prio s t))) = t # us)"

lemma highest_ready_found:
  assumes inv: "sched_inv s" and r: "stat s u = RT_THREAD_READY"
  obtains to where "highest_ready_priority s = Some (unat (prio s to))"
    "first_thread (Ready (unat (prio s to))) s = Some to" "highest_ready s to"
proof -
  note D = sched_okD [OF inv]
  let ?g = "rt_thread_ready_priority_group s"
  have in_group: "unat (prio s v) < RT_THREAD_PRIORITY_MAX \<and> bit ?g (unat (prio s v))"
    if "stat s v = RT_THREAD_READY" for v
    using D(4) [of v] D(3) [of v] D(5) [of "unat (prio s v)"] that by (auto simp: mask_ok_def)
  have nz: "?g \<noteq> 0" using in_group [OF r] by auto
  note f = rt_ffs_spec [OF nz]
  let ?p = "rt_ffs ?g - 1"
  have "tlists s (Ready ?p) \<noteq> []" using D(5) f(2,4) by simp
  then obtain to us where l: "tlists s (Ready ?p) = to # us" by (cases "tlists s (Ready ?p)") auto
  then have to: "stat s to = RT_THREAD_READY" "unat (prio s to) = ?p" using D(2) [of to "Ready ?p"] by auto
  have "unat (prio s to) \<le> unat (prio s v)" if "stat s v = RT_THREAD_READY" for v
    using f(3) [of "unat (prio s v)"] in_group [OF that] to(2) by (metis not_less)
  then show thesis
    using f(1) to l by (intro that [of to]) (simp_all add: highest_ready_priority_def Let_def first_thread_def highest_ready_def)
qed

lemma highest_ready_unique: "highest_ready s t \<Longrightarrow> highest_ready s u \<Longrightarrow> t = u"
  unfolding highest_ready_def by (metis le_antisym list.inject)

lemma rt_schedule_spec:
  assumes inv: "sched_inv s" and r: "stat s u = RT_THREAD_READY"
    and cur: "rt_current_thread s = Some c"
    and stk: "\<And>v. stat s v = RT_THREAD_READY \<Longrightarrow> stack_ok (threads s v)"
  obtains (locked) "rt_scheduler_lock_nest s \<noteq> 0" "rt_schedule s = Some s"
  | (runs) to p where "rt_scheduler_lock_nest s = 0" "highest_ready s to"
      "rt_schedule s = Some (s\<lparr>rt_current_thread := Some to, rt_current_priority := p\<rparr>)"
      "p = (if to = c then rt_current_priority s else prio s to)"
proof -
  obtain to where to: "highest_ready_priority s = Some (unat (prio s to))"
    "first_thread (Ready (unat (prio s to))) s = Some to" "highest_ready s to"
    using highest_ready_found [OF inv r] by blast
  show thesis
  proof (cases "rt_scheduler_lock_nest s = 0")
    case True
    have "stack_ok (threads s to)" using stk to(3) by (simp add: highest_ready_def)
    then show thesis using to cur True
      by (intro runs [OF True to(3)]) (auto simp: rt_schedule_def)
  qed (auto intro: locked simp: rt_schedule_def)
qed

subsection \<open>The ready queue as an interface\<close>

text \<open>
  What the rest of the kernel relies on: a set of ready threads with their priorities, into
  which a thread is put, from which one is taken, and whose most urgent member is found.
\<close>

locale ready_queue =
  fixes rel :: "'s \<Rightarrow> (nat \<times> nat) set \<Rightarrow> bool"
    and can_enter :: "'s \<Rightarrow> nat \<Rightarrow> nat \<Rightarrow> bool"
    and enter :: "nat \<Rightarrow> 's \<Rightarrow> 's option"
    and leave :: "nat \<Rightarrow> 's \<Rightarrow> 's option"
    and top :: "'s \<Rightarrow> nat option"
  assumes one_priority: "rel s R \<Longrightarrow> (t, p) \<in> R \<Longrightarrow> (t, q) \<in> R \<Longrightarrow> p = q"
    and enter_ok: "rel s R \<Longrightarrow> can_enter s t p \<Longrightarrow> \<exists>s'. enter t s = Some s' \<and> rel s' (insert (t, p) R)"
    and leave_ok: "rel s R \<Longrightarrow> (t, p) \<in> R \<Longrightarrow> \<exists>s'. leave t s = Some s' \<and> rel s' (R - {(t, p)})"
    and top_ok: "rel s R \<Longrightarrow> R \<noteq> {} \<Longrightarrow>
      \<exists>t p. top s = Some t \<and> (t, p) \<in> R \<and> (\<forall>(u, q) \<in> R. p \<le> q)"
begin

text \<open>A thread more urgent than every ready one is the next to run.\<close>

lemma urgent_first:
  assumes "rel s R" "can_enter s t p" "\<forall>(u, q) \<in> R. p < q"
  shows "\<exists>s'. enter t s = Some s' \<and> rel s' (insert (t, p) R) \<and> top s' = Some t"
proof -
  obtain s' where s': "enter t s = Some s'" "rel s' (insert (t, p) R)"
    using enter_ok [OF assms(1,2)] by blast
  obtain u q where u: "top s' = Some u" "(u, q) \<in> insert (t, p) R" "\<forall>(v, r) \<in> insert (t, p) R. q \<le> r"
    using top_ok [OF s'(2)] by blast
  from u(3) have "q \<le> p" by auto
  with u(2) assms(3) have "u = t" by fastforce
  with s' u(1) show ?thesis by blast
qed

text \<open>Taking the top away again and again serves the threads in order of priority.\<close>

primrec serve :: "nat \<Rightarrow> 's \<Rightarrow> nat list option" where
  "serve 0 s = Some []"
| "serve (Suc n) s =
     (case top s of
        None \<Rightarrow> None
      | Some t \<Rightarrow> do { s' \<leftarrow> leave t s; ts \<leftarrow> serve n s'; Some (t # ts) })"

lemma serve_sorted:
  assumes "rel s R" "finite R" "n \<le> card R"
  shows "\<exists>ts ps. serve n s = Some ts \<and> length ps = length ts \<and> length ts = n \<and>
    set (zip ts ps) \<subseteq> R \<and> sorted ps"
  using assms
proof (induction n arbitrary: s R)
  case (Suc n)
  then have "R \<noteq> {}" by auto
  then obtain t p where t: "top s = Some t" "(t, p) \<in> R" "\<forall>(u, q) \<in> R. p \<le> q"
    using top_ok [OF Suc.prems(1)] by blast
  obtain s' where s': "leave t s = Some s'" "rel s' (R - {(t, p)})"
    using leave_ok [OF Suc.prems(1) t(2)] by blast
  have "n \<le> card (R - {(t, p)})" using Suc.prems(2,3) t(2) by simp
  then obtain ts ps where r: "serve n s' = Some ts" "length ps = length ts" "length ts = n"
    "set (zip ts ps) \<subseteq> R - {(t, p)}" "sorted ps"
    using Suc.IH [OF s'(2)] Suc.prems(2) by auto
  have "p \<le> q" if "q \<in> set ps" for q
  proof -
    from that obtain i where "i < length ps" "q = ps ! i" by (auto simp: in_set_conv_nth)
    then have "(ts ! i, q) \<in> set (zip ts ps)" using r(2) by (auto simp: set_zip)
    then show ?thesis using r(4) t(3) by fast
  qed
  then have "serve (Suc n) s = Some (t # ts)" "length (p # ps) = length (t # ts)" "length (t # ts) = Suc n"
    "set (zip (t # ts) (p # ps)) \<subseteq> R" "sorted (p # ps)"
    using t s' r by auto
  then show ?case by blast
qed simp

end

definition ready_rel :: "kstate \<Rightarrow> (nat \<times> nat) set \<Rightarrow> bool" where
  "ready_rel s R \<longleftrightarrow> sched_inv s \<and>
     R = {(t, unat (prio s t)) | t. stat s t = RT_THREAD_READY}"

definition may_become_ready :: "kstate \<Rightarrow> nat \<Rightarrow> nat \<Rightarrow> bool" where
  "may_become_ready s t p \<longleftrightarrow>
     unlinked t (tlists s) \<and> mask_ok (threads s t) \<and> unat (prio s t) = p"

definition next_thread :: "kstate \<Rightarrow> nat option" where
  "next_thread s = Option.bind (highest_ready_priority s) (\<lambda>p. first_thread (Ready p) s)"

definition unready :: "nat \<Rightarrow> kstate \<Rightarrow> kstate option" where
  "unready t s = rt_schedule_remove_thread t (thread_at t (t_stat_update (\<lambda>_. RT_THREAD_SUSPEND)) s)"

lemma unready_inv:
  assumes inv: "sched_inv s" and mask: "mask_ok (threads s t)"
  obtains s' where "unready t s = Some s'" "sched_inv s'" "unlinked t (tlists s')"
    "threads s' = (threads s)(t := (threads s t)\<lparr>t_stat := RT_THREAD_SUSPEND\<rparr>)"
    "s' = s\<lparr>threads := threads s', tlists := tlists s',
       rt_thread_ready_priority_group := rt_thread_ready_priority_group s'\<rparr>"
    "tlists s' = tl_remove t (tlists s)"
proof -
  let ?th = "(threads s)(t := (threads s t)\<lparr>t_stat := RT_THREAD_SUSPEND\<rparr>)"
  have mask': "mask_ok (?th t)" using mask by (simp add: mask_ok_def)
  note u = sched_ok_unlink [OF inv mask, of ?th, OF _ _ _ refl]
  have e: "unready t s = Some (s\<lparr>threads := ?th, tlists := tl_remove t (tlists s),
       rt_thread_ready_priority_group :=
         (if tl_remove t (tlists s) (Ready (unat (prio s t))) = []
          then rt_thread_ready_priority_group s AND NOT (t_number_mask (threads s t))
          else rt_thread_ready_priority_group s)\<rparr>)"
    using mask' rt_schedule_remove_thread_eq [of "s\<lparr>threads := ?th\<rparr>" t] by (simp add: unready_def)
  show thesis
    by (rule that [OF e]) (use u mask' in simp_all)
qed

interpretation ready: ready_queue ready_rel may_become_ready rt_schedule_insert_thread unready next_thread
proof unfold_locales
  show "p = q" if "ready_rel s R" "(t, p) \<in> R" "(t, q) \<in> R" for s R t p q
    using that by (auto simp: ready_rel_def)
next
  fix s R t p assume r: "ready_rel s R" and c: "may_become_ready s t p"
  have m: "mask_ok (threads s t)" "unlinked t (tlists s)" and inv: "sched_inv s"
    using r c by (auto simp: ready_rel_def may_become_ready_def)
  show "\<exists>s'. rt_schedule_insert_thread t s = Some s' \<and> ready_rel s' (insert (t, p) R)"
    using r c sched_ok_ready [OF inv m(2,1)]
    unfolding rt_schedule_insert_thread_eq [OF m(1)] by (auto simp: ready_rel_def may_become_ready_def)
next
  fix s R t p assume r: "ready_rel s R" and m: "(t, p) \<in> R"
  then have inv: "sched_inv s" and st: "stat s t = RT_THREAD_READY" and p: "p = unat (prio s t)"
    by (auto simp: ready_rel_def)
  have "mask_ok (threads s t)" using sched_okD(4) [OF inv, of t] st by simp
  then obtain s' where s': "unready t s = Some s'" "sched_inv s'"
    "threads s' = (threads s)(t := (threads s t)\<lparr>t_stat := RT_THREAD_SUSPEND\<rparr>)"
    by (metis unready_inv [OF inv])
  show "\<exists>s'. unready t s = Some s' \<and> ready_rel s' (R - {(t, p)})"
    using s' r p by (intro exI [of _ s']) (auto simp: ready_rel_def)
next
  fix s and R :: "(nat \<times> nat) set" assume r: "ready_rel s R" and ne: "R \<noteq> {}"
  then obtain u where u: "stat s u = RT_THREAD_READY" and inv: "sched_inv s" by (auto simp: ready_rel_def)
  obtain to where to: "highest_ready_priority s = Some (unat (prio s to))"
    "first_thread (Ready (unat (prio s to))) s = Some to" "highest_ready s to"
    using highest_ready_found [OF inv u] by blast
  then show "\<exists>t p. next_thread s = Some t \<and> (t, p) \<in> R \<and> (\<forall>(u, q) \<in> R. p \<le> q)"
    using r by (intro exI [of _ to] exI [of _ "unat (prio s to)"])
      (auto simp: ready_rel_def highest_ready_def next_thread_def)
qed

subsection \<open>A state for the witnesses\<close>

text \<open>The idle thread 10 and a worker 3 are ready, worker 3 runs, worker 2 is suspended.\<close>

definition demo_thread :: "thread_stat \<Rightarrow> u8 \<Rightarrow> rt_thread" where
  "demo_thread st p =
     \<lparr>t_sp = 0x1040, t_entry = 0, t_parameter = 0, t_stack_addr = 0x1000, t_stack_size = 256,
      t_error = RT_EOK, t_stat = st, t_current_priority = p, t_init_priority = p,
      t_number_mask = push_bit (unat p) 1, t_event_set = 0, t_event_info = 0, t_init_tick = 10,
      t_remaining_tick = 10, t_cleanup = None, t_user_data = 0\<rparr>"

definition demo :: kstate where
  "demo =
     \<lparr>rt_tick = 100, rt_interrupt_nest = 0, rt_scheduler_lock_nest = 0,
      rt_thread_ready_priority_group = 0x80000020, rt_current_thread = Some 3, rt_current_priority = 5,
      tlists = (\<lambda>q. if q = Ready 31 then [10] else if q = Ready 5 then [3] else []),
      threads = (\<lambda>t. if t = 10 then demo_thread RT_THREAD_READY 31
        else if t = 2 then demo_thread RT_THREAD_SUSPEND 2
        else if t = 3 then demo_thread RT_THREAD_READY 5
        else demo_thread RT_THREAD_CLOSE 0),
      rt_timer_list = [],
      timers = (\<lambda>x. \<lparr>tm_timeout_func = TimeoutThread,
        tm_parameter = (case x of ThreadTimer t \<Rightarrow> t | Timer n \<Rightarrow> 0), tm_init_tick = 0, tm_timeout_tick = 0\<rparr>),
      objects = (\<lambda>b. \<lparr>o_name = replicate 8 0, o_type = class_code (class_of b), o_flag = 0\<rparr>),
      object_lists = (\<lambda>c. []),
      semaphores = (\<lambda>a. \<lparr>sem_value = 0\<rparr>),
      mutexes = (\<lambda>a. \<lparr>mu_value = 1, mu_original_priority = 0xff, mu_hold = 0, mu_owner = None\<rparr>),
      events = (\<lambda>a. \<lparr>ev_set = 0\<rparr>),
      mailboxes = (\<lambda>a. \<lparr>mb_msg_pool = 0, mb_msgs = (\<lambda>i. 0), mb_size = 4, mb_entry = 0, mb_in_offset = 0,
        mb_out_offset = 0\<rparr>),
      messagequeues = (\<lambda>a. \<lparr>mq_msg_pool = 0, mq_link = (\<lambda>i. if i = 1 then Some 0 else None),
        mq_data = (\<lambda>i j. 0), mq_msg_size = 8, mq_max_msgs = 2, mq_entry = 0, mq_msg_queue_head = None,
        mq_msg_queue_tail = None, mq_msg_queue_free = Some 1\<rparr>),
      mempools = (\<lambda>a. \<lparr>mp_start_address = 0x1000, mp_size = 16, mp_block_size = 4,
        mp_block_list = Some 0x1000, mp_block_total_count = 2, mp_block_free_count = 2, mp_suspend_thread_count = 0\<rparr>),
      mp_words = (\<lambda>p. NextBlock (if p = 0x1000 then Some 0x1008 else None)),
      heap = heap_boot,
      frames = (\<lambda>t. None)\<rparr>"

lemma demo_thread_simps [simp]:
  "t_stat (demo_thread st p) = st" "t_current_priority (demo_thread st p) = p"
  "t_number_mask (demo_thread st p) = push_bit (unat p) 1" "stack_ok (demo_thread st p)"
  by (simp_all add: demo_thread_def stack_ok_def)

lemma demo_group: "bit (0x80000020 :: u32) p \<longleftrightarrow> p = 31 \<or> p = 5"
proof -
  have "(0x80000020 :: u32) = push_bit 31 1 OR push_bit 5 1" by (simp add: push_bit_eq_mult)
  then have "bit (0x80000020 :: u32) p \<longleftrightarrow> bit (push_bit 31 1 OR push_bit 5 1 :: u32) p" by simp
  also have "\<dots> \<longleftrightarrow> p = 31 \<or> p = 5" by (auto simp only: bit_or_iff u32_bit_shift)
  finally show ?thesis .
qed

lemma demo_inv: "sched_inv demo"
  unfolding sched_ok_def
proof (intro conjI allI impI)
  have group: "rt_thread_ready_priority_group demo = 0x80000020" by (simp add: demo_def)
  show "wf_lists (tlists demo)" by (auto simp: wf_lists_def demo_def split: if_splits)
  show "queue_ok q (threads demo t)" if "t \<in> set (tlists demo q)" for q t
    using that by (auto simp: demo_def split: if_splits)
  show "t \<in> set (tlists demo (Ready (unat (prio demo t))))" if "stat demo t = RT_THREAD_READY" for t
    using that by (auto simp: demo_def split: if_splits)
  show "mask_ok (threads demo t)" if "started (stat demo t)" for t
    using that by (auto simp: demo_def mask_ok_def split: if_splits)
  show "bit (rt_thread_ready_priority_group demo) p \<longleftrightarrow> tlists demo (Ready p) \<noteq> []" for p
    unfolding group demo_group by (simp add: demo_def)
qed

lemma demo_simps [simp]:
  "rt_current_thread demo = Some 3" "rt_interrupt_nest demo = 0" "rt_scheduler_lock_nest demo = 0"
  "stat demo 10 = RT_THREAD_READY" "stat demo 2 = RT_THREAD_SUSPEND" "stat demo 3 = RT_THREAD_READY"
  "stack_ok (threads demo t)" "prio demo 2 = 2" "prio demo 3 = 5" "unlinked 2 (tlists demo)"
  "rt_timer_list demo = []" "rt_tick demo = 100"
  by (simp_all add: demo_def unlinked_def)

subsection \<open>Properties\<close>

text \<open>
  While some thread is ready and the scheduler is not locked, \<open>rt_schedule\<close> makes
  the first thread of the most urgent non-empty ready list the current one; locked, it
  changes nothing.\<close>

theorem rt_schedule_runs_highest:
  assumes "sched_inv s" "\<exists>u. stat s u = RT_THREAD_READY" "rt_current_thread s \<noteq> None"
    and "\<forall>v. stat s v = RT_THREAD_READY \<longrightarrow> stack_ok (threads s v)"
  shows "\<exists>s'. rt_schedule s = Some s' \<and> sched_inv s' \<and>
    (if rt_scheduler_lock_nest s = 0
     then \<exists>t. rt_current_thread s' = Some t \<and> highest_ready s t \<and> highest_ready s' t
     else s' = s)"
proof -
  from assms(2,3) obtain u c where u: "stat s u = RT_THREAD_READY" "rt_current_thread s = Some c" by auto
  have stk: "stack_ok (threads s v)" if "stat s v = RT_THREAD_READY" for v using assms(4) that by blast
  show ?thesis
  proof (rule rt_schedule_spec [OF assms(1) u stk])
    fix to p assume "rt_scheduler_lock_nest s = 0" "highest_ready s to"
      "rt_schedule s = Some (s\<lparr>rt_current_thread := Some to, rt_current_priority := p\<rparr>)"
    then show ?thesis using assms(1) by (simp add: highest_ready_def)
  qed (use assms(1) in auto)
qed

theorem rt_schedule_runs_highest_witness:
  "\<exists>s'. rt_schedule demo = Some s' \<and> sched_inv s' \<and>
    (if rt_scheduler_lock_nest demo = 0
     then \<exists>t. rt_current_thread s' = Some t \<and> highest_ready demo t \<and> highest_ready s' t
     else s' = demo)"
  by (rule rt_schedule_runs_highest [OF demo_inv exI [of _ 10]]) simp_all

text \<open>
  A thread that becomes ready and is more urgent than every ready thread is the
  one the scheduler picks next.\<close>

theorem ready_preempts:
  assumes "sched_inv s" "unlinked t (tlists s)" "mask_ok (threads s t)"
    and "\<forall>u. stat s u = RT_THREAD_READY \<longrightarrow> unat (prio s t) < unat (prio s u)"
  shows "\<exists>s'. rt_schedule_insert_thread t s = Some s' \<and> sched_inv s' \<and> next_thread s' = Some t"
proof -
  have "ready_rel s {(u, unat (prio s u)) | u. stat s u = RT_THREAD_READY}"
    using assms(1) by (simp add: ready_rel_def)
  moreover have "may_become_ready s t (unat (prio s t))" using assms(2,3) by (simp add: may_become_ready_def)
  ultimately show ?thesis
    using ready.urgent_first [of s _ t "unat (prio s t)"] assms(4) by (fastforce simp: ready_rel_def)
qed

theorem ready_preempts_witness:
  "\<exists>s'. rt_schedule_insert_thread 2 demo = Some s' \<and> sched_inv s' \<and> next_thread s' = Some 2"
proof (rule ready_preempts [OF demo_inv])
  show "mask_ok (threads demo 2)" by (simp add: mask_ok_def demo_def)
  show "\<forall>u. stat demo u = RT_THREAD_READY \<longrightarrow> unat (prio demo 2) < unat (prio demo u)"
    by (simp add: demo_def)
qed simp



end
