(* ===== verification/RtObject.thy ===== *)
theory RtObject
  imports RtScheduler
begin

text \<open>
  The kernel objects of \<^verbatim>\<open>src/object.c\<close>: the list of the objects of each class, the header every
  object starts with, and objects in memory of the application (static) or of the kernel's
  heap. The attach and detach hooks are taken as not set, and \<open>RT_USING_MODULE\<close> is off.
\<close>

subsection \<open>Memory of the kernel\<close>

text \<open>\<open>rt_malloc\<close> and \<open>rt_free\<close> with their context check; the heap's semaphore is free whenever no
  call is in progress, so a call is one step.\<close>

definition k_malloc :: "u32 \<Rightarrow> kstate \<Rightarrow> (nat option \<times> kstate) option" where
  "k_malloc sz s =
     (if sz = 0 then Some (None, s)
      else RT_DEBUG_NOT_IN_INTERRUPT s
        (do { (r, h) \<leftarrow> rt_malloc sz (heap s); Some (r, s\<lparr>heap := h\<rparr>) }))"

definition k_free :: "nat option \<Rightarrow> kstate \<Rightarrow> kstate option" where
  "k_free p s =
     (if p = None then Some s
      else RT_DEBUG_NOT_IN_INTERRUPT s (do { h \<leftarrow> rt_free p (heap s); Some (s\<lparr>heap := h\<rparr>) }))"

text \<open>The sizes of the object structures on the 32-bit target.\<close>

primrec object_size :: "rt_object_class \<Rightarrow> u32" where
  "object_size ClassThread = 128"
| "object_size ClassSemaphore = 32"
| "object_size ClassMutex = 36"
| "object_size ClassEvent = 32"
| "object_size ClassMailBox = 48"
| "object_size ClassMessageQueue = 52"
| "object_size ClassMemPool = 56"
| "object_size ClassDevice = 68"
| "object_size ClassTimer = 44"

primrec object_addr :: "object_id \<Rightarrow> nat" where
  "object_addr (ObjThread a) = a"
| "object_addr (ObjSem a) = a"
| "object_addr (ObjMutex a) = a"
| "object_addr (ObjEvent a) = a"
| "object_addr (ObjMb a) = a"
| "object_addr (ObjMq a) = a"
| "object_addr (ObjMp a) = a"
| "object_addr (ObjDevice a) = a"
| "object_addr (ObjTimer x) = (case x of Timer a \<Rightarrow> a | ThreadTimer t \<Rightarrow> t + 76)"

subsection \<open>Operations\<close>

definition container_insert :: "object_id \<Rightarrow> kstate \<Rightarrow> kstate" where
  "container_insert b s =
     s\<lparr>object_lists := (object_lists s)(class_of b := b # object_lists s (class_of b))\<rparr>"

definition container_remove :: "object_id \<Rightarrow> kstate \<Rightarrow> kstate" where
  "container_remove b s =
     s\<lparr>object_lists := (object_lists s)(class_of b := remove1 b (object_lists s (class_of b)))\<rparr>"

definition rt_object_init :: "object_id \<Rightarrow> u8 list \<Rightarrow> kstate \<Rightarrow> kstate option" where
  "rt_object_init b name s =
     do {
       nm \<leftarrow> rt_strncpy name RT_NAME_MAX;
       Some (container_insert b
         (object_at b (\<lambda>x. x\<lparr>o_type := class_code (class_of b) OR RT_Object_Class_Static,
                              o_name := nm\<rparr>) s)) }"

definition rt_object_detach :: "object_id \<Rightarrow> kstate \<Rightarrow> kstate" where
  "rt_object_detach b s = container_remove b s"

definition rt_object_allocate ::
  "(nat \<Rightarrow> object_id) \<Rightarrow> u8 list \<Rightarrow> kstate \<Rightarrow> (nat option \<times> kstate) option" where
  "rt_object_allocate mk name s =
     RT_DEBUG_NOT_IN_INTERRUPT s
       (do {
          (r, s1) \<leftarrow> k_malloc (object_size (class_of (mk 0))) s;
          (case r of
             None \<Rightarrow> Some (None, s1)
           | Some a \<Rightarrow> do {
               nm \<leftarrow> rt_strncpy name RT_NAME_MAX;
               Some (Some a, container_insert (mk a)
                 (object_at (mk a) (\<lambda>x. x\<lparr>o_type := class_code (class_of (mk a)), o_flag := 0,
                                          o_name := nm\<rparr>) s1)) }) })"

definition rt_object_delete :: "object_id \<Rightarrow> kstate \<Rightarrow> kstate option" where
  "rt_object_delete b s =
     RT_ASSERT (o_type (objects s b) AND RT_Object_Class_Static = 0)
       (k_free (Some (object_addr b)) (container_remove b s))"

definition rt_object_is_systemobject :: "object_id \<Rightarrow> kstate \<Rightarrow> bool" where
  "rt_object_is_systemobject b s \<longleftrightarrow> o_type (objects s b) AND RT_Object_Class_Static \<noteq> 0"

text \<open>The walk along the list of a class, and \<open>rt_object_find\<close> around it. The class comes as a
  number, and the array of classes has one entry for each number below \<open>RT_Object_Class_Unknown\<close>.\<close>

primrec find_by_name :: "u8 list \<Rightarrow> object_id list \<Rightarrow> kstate \<Rightarrow> object_id option option" where
  "find_by_name name [] s = Some None"
| "find_by_name name (b # bs) s =
     do { r \<leftarrow> rt_strncmp (o_name (objects s b)) name RT_NAME_MAX;
          if r = 0 then Some (Some b) else find_by_name name bs s }"

abbreviation RT_Object_Class_Unknown :: u8 where "RT_Object_Class_Unknown \<equiv> 9"

definition class_of_code :: "u8 \<Rightarrow> rt_object_class option" where
  "class_of_code n = List.find (\<lambda>c. class_code c = n)
     [ClassThread, ClassSemaphore, ClassMutex, ClassEvent, ClassMailBox, ClassMessageQueue,
      ClassMemPool, ClassDevice, ClassTimer]"

definition rt_object_find ::
  "u8 list option \<Rightarrow> u8 \<Rightarrow> kstate \<Rightarrow> (object_id option \<times> kstate) option" where
  "rt_object_find name ty s =
     (case name of
        None \<Rightarrow> Some (None, s)
      | Some nm \<Rightarrow>
          if ty > RT_Object_Class_Unknown then Some (None, s)
          else RT_ASSERT (rt_interrupt_nest s = 0)
            (do {
               let s1 = rt_enter_critical s;
               c \<leftarrow> class_of_code ty;
               r \<leftarrow> find_by_name nm (object_lists s1 c) s1;
               s2 \<leftarrow> rt_exit_critical s1;
               Some (r, s2) }))"

subsection \<open>Frame\<close>

lemma container_frame [simp]:
  "tlists (container_insert b s) = tlists s" "threads (container_insert b s) = threads s"
  "rt_thread_ready_priority_group (container_insert b s) = rt_thread_ready_priority_group s"
  "rt_timer_list (container_insert b s) = rt_timer_list s" "timers (container_insert b s) = timers s"
  "objects (container_insert b s) = objects s" "rt_current_thread (container_insert b s) = rt_current_thread s"
  "rt_tick (container_insert b s) = rt_tick s" "heap (container_insert b s) = heap s"
  "rt_interrupt_nest (container_insert b s) = rt_interrupt_nest s"
  "tlists (container_remove b s) = tlists s" "threads (container_remove b s) = threads s"
  "rt_thread_ready_priority_group (container_remove b s) = rt_thread_ready_priority_group s"
  "rt_timer_list (container_remove b s) = rt_timer_list s" "timers (container_remove b s) = timers s"
  "objects (container_remove b s) = objects s" "rt_current_thread (container_remove b s) = rt_current_thread s"
  "rt_tick (container_remove b s) = rt_tick s" "heap (container_remove b s) = heap s"
  "rt_interrupt_nest (container_remove b s) = rt_interrupt_nest s"
  by (simp_all add: container_insert_def container_remove_def)

subsection \<open>What allocation and deletion promise\<close>

text \<open>An object allocated from the heap is a new block, long enough for its structure, and is
  entered in the list of its class under its name; deleting it gives the block back.\<close>

lemma rt_object_allocate_spec:
  assumes rel: "heap_rel (heap s) L" and ctx: "rt_interrupt_nest s = 0" and nm: "0 \<in> set name"
    and sz: "0 < object_size (class_of (mk 0))" and cls: "\<And>a. class_of (mk a) = class_of (mk 0)"
  obtains (fail) "rt_object_allocate mk name s = Some (None, s)"
  | (ok) a n h where "heap_rel h (insert (a, n) L)" "a \<notin> fst ` L"
      "malloc_size (object_size (class_of (mk 0))) \<le> n"
      "rt_object_allocate mk name s = Some (Some a,
         s\<lparr>heap := h,
           objects := (objects s)(mk a := (objects s (mk a))\<lparr>o_type := class_code (class_of (mk 0)),
             o_flag := 0, o_name := take RT_NAME_MAX (cstr name @ replicate RT_NAME_MAX 0)\<rparr>),
           object_lists := (object_lists s)(class_of (mk 0) := mk a # object_lists s (class_of (mk 0)))\<rparr>)"
proof (rule heap_rel_malloc [OF rel, of "object_size (class_of (mk 0))"])
  assume "rt_malloc (object_size (class_of (mk 0))) (heap s) = Some (None, heap s)"
  then show thesis using ctx sz by (intro fail) (simp add: rt_object_allocate_def k_malloc_def)
next
  fix a h n
  assume "rt_malloc (object_size (class_of (mk 0))) (heap s) = Some (Some a, h)"
    "heap_rel h (insert (a, n) L)" "malloc_size (object_size (class_of (mk 0))) \<le> n" "a \<notin> fst ` L"
  then show thesis using ctx sz rt_strncpy_cstr [OF nm]
    by (intro ok [of h a n]) (simp_all add: rt_object_allocate_def k_malloc_def container_insert_def cls [of a])
qed

lemma rt_object_delete_spec:
  assumes rel: "heap_rel (heap s) L" and ctx: "rt_interrupt_nest s = 0"
    and al: "(object_addr b, n) \<in> L" and dyn: "\<not> rt_object_is_systemobject b s"
  obtains h where "heap_rel h (L - {(object_addr b, n)})"
    "rt_object_delete b s = Some (s\<lparr>heap := h,
       object_lists := (object_lists s)(class_of b := remove1 b (object_lists s (class_of b)))\<rparr>)"
proof (rule heap_rel_free [OF rel al])
  fix h assume "rt_free (Some (object_addr b)) (heap s) = Some h" "heap_rel h (L - {(object_addr b, n)})"
  then show thesis using ctx dyn
    by (intro that [of h])
      (simp_all add: rt_object_delete_def k_free_def rt_object_is_systemobject_def container_remove_def)
qed

end
