(* ===== verification/RtDevice.thy ===== *)
theory RtDevice
  imports RtObject KPrintf
begin

text \<open>
  The devices of \<^verbatim>\<open>src/device.c\<close>, and the error number and the console of \<^verbatim>\<open>src/kservice.c\<close>. The
  functions of a driver, which a device holds by their addresses, and \<^verbatim>\<open>rt_hw_console_output\<close>,
  which a board may replace, are a parameter of the model: what a call of each does with the
  state. A device is its address, a null pointer \<^term>\<open>None\<close>.
\<close>

subsection \<open>Data\<close>

abbreviation RT_ENOSYS :: rt_err_t where "RT_ENOSYS \<equiv> 6"
abbreviation RT_EBUSY :: rt_err_t where "RT_EBUSY \<equiv> 7"

abbreviation RT_DEVICE_FLAG_STANDALONE :: u16 where "RT_DEVICE_FLAG_STANDALONE \<equiv> 0x008"
abbreviation RT_DEVICE_FLAG_ACTIVATED :: u16 where "RT_DEVICE_FLAG_ACTIVATED \<equiv> 0x010"
abbreviation RT_DEVICE_FLAG_STREAM :: u16 where "RT_DEVICE_FLAG_STREAM \<equiv> 0x040"
abbreviation RT_DEVICE_OFLAG_CLOSE :: u16 where "RT_DEVICE_OFLAG_CLOSE \<equiv> 0x000"
abbreviation RT_DEVICE_OFLAG_RDWR :: u16 where "RT_DEVICE_OFLAG_RDWR \<equiv> 0x003"
abbreviation RT_DEVICE_OFLAG_OPEN :: u16 where "RT_DEVICE_OFLAG_OPEN \<equiv> 0x008"

datatype rt_device_class_type = CharDevice | BlockDevice | NetIfDevice | MTDDevice | CANDevice
  | RTCDevice | SoundDevice | GraphicDevice | I2CBUSDevice | USBDevice | USBHostDevice
  | SPIBUSDevice | SPIDevice | SDIODevice | PMDevice | PipeDevice | PortalDevice
  | MiscellaneousDevice | UnknownDevice

record rt_device =
  d_type :: rt_device_class_type
  d_flag :: u16
  d_open_flag :: u16
  d_ref_count :: u8
  d_device_id :: u8
  d_rx_indicate :: "nat option"
  d_tx_complete :: "nat option"
  d_init :: "nat option"
  d_open :: "nat option"
  d_close :: "nat option"
  d_read :: "nat option"
  d_write :: "nat option"
  d_control :: "nat option"
  d_user_data :: nat

text \<open>The kernel, the devices, the variables of \<^verbatim>\<open>kservice.c\<close>, the memory that strings and buffers
  lie in, and what the drivers keep.\<close>

record 'h io_state =
  kern :: kstate
  devices :: "nat \<Rightarrow> rt_device"
  console_device :: "nat option"
  global_errno :: rt_err_t
  mem :: memory
  hw :: 'h

text \<open>What is behind the pointers: a call of the function at an address. \<open>rt_log_buf\<close> is the
  address of the static buffer of \<^verbatim>\<open>rt_kprintf\<close>.\<close>

record 'h board =
  call_init :: "nat \<Rightarrow> nat \<Rightarrow> 'h io_state \<Rightarrow> (rt_err_t \<times> 'h io_state) option"
  call_open :: "nat \<Rightarrow> nat \<Rightarrow> u16 \<Rightarrow> 'h io_state \<Rightarrow> (rt_err_t \<times> 'h io_state) option"
  call_close :: "nat \<Rightarrow> nat \<Rightarrow> 'h io_state \<Rightarrow> (rt_err_t \<times> 'h io_state) option"
  call_read :: "nat \<Rightarrow> nat \<Rightarrow> u32 \<Rightarrow> nat \<Rightarrow> u32 \<Rightarrow> 'h io_state \<Rightarrow> (u32 \<times> 'h io_state) option"
  call_write :: "nat \<Rightarrow> nat \<Rightarrow> u32 \<Rightarrow> nat \<Rightarrow> u32 \<Rightarrow> 'h io_state \<Rightarrow> (u32 \<times> 'h io_state) option"
  call_control :: "nat \<Rightarrow> nat \<Rightarrow> u8 \<Rightarrow> nat \<Rightarrow> 'h io_state \<Rightarrow> (rt_err_t \<times> 'h io_state) option"
  hw_console_output :: "nat \<Rightarrow> 'h io_state \<Rightarrow> 'h io_state option"
  rt_log_buf :: nat

abbreviation device_at :: "nat \<Rightarrow> (rt_device \<Rightarrow> rt_device) \<Rightarrow> 'h io_state \<Rightarrow> 'h io_state" where
  "device_at d f s \<equiv> s\<lparr>devices := (devices s)(d := f (devices s d))\<rparr>"

subsection \<open>The error number\<close>

text \<open>The place \<^verbatim>\<open>_rt_errno\<close> points to: the field of a thread, or the global variable.\<close>

definition rt_errno :: "kstate \<Rightarrow> nat option" where
  "rt_errno k = (if rt_interrupt_get_nest k \<noteq> 0 then None else rt_thread_self k)"

definition rt_get_errno :: "'h io_state \<Rightarrow> rt_err_t" where
  "rt_get_errno s =
     (if rt_interrupt_get_nest (kern s) \<noteq> 0 then global_errno s
      else case rt_thread_self (kern s) of
        None \<Rightarrow> global_errno s
      | Some tid \<Rightarrow> t_error (threads (kern s) tid))"

definition rt_set_errno :: "rt_err_t \<Rightarrow> 'h io_state \<Rightarrow> 'h io_state" where
  "rt_set_errno error s =
     (if rt_interrupt_get_nest (kern s) \<noteq> 0 then s\<lparr>global_errno := error\<rparr>
      else case rt_thread_self (kern s) of
        None \<Rightarrow> s\<lparr>global_errno := error\<rparr>
      | Some tid \<Rightarrow> s\<lparr>kern := thread_at tid (t_error_update (\<lambda>_. error)) (kern s)\<rparr>)"

subsection \<open>Reading, writing and control\<close>

definition rt_device_read ::
  "'h board \<Rightarrow> nat option \<Rightarrow> u32 \<Rightarrow> nat \<Rightarrow> u32 \<Rightarrow> 'h io_state \<Rightarrow> (u32 \<times> 'h io_state) option" where
  "rt_device_read B dev pos buffer sz s =
     (case dev of
        None \<Rightarrow> None
      | Some d \<Rightarrow>
          if d_ref_count (devices s d) = 0 then Some (0, rt_set_errno (- RT_ERROR) s)
          else case d_read (devices s d) of
            Some f \<Rightarrow> call_read B f d pos buffer sz s
          | None \<Rightarrow> Some (0, rt_set_errno (- RT_ENOSYS) s))"

definition rt_device_write ::
  "'h board \<Rightarrow> nat option \<Rightarrow> u32 \<Rightarrow> nat \<Rightarrow> u32 \<Rightarrow> 'h io_state \<Rightarrow> (u32 \<times> 'h io_state) option" where
  "rt_device_write B dev pos buffer sz s =
     (case dev of
        None \<Rightarrow> None
      | Some d \<Rightarrow>
          if d_ref_count (devices s d) = 0 then Some (0, rt_set_errno (- RT_ERROR) s)
          else case d_write (devices s d) of
            Some f \<Rightarrow> call_write B f d pos buffer sz s
          | None \<Rightarrow> Some (0, rt_set_errno (- RT_ENOSYS) s))"

definition rt_device_control ::
  "'h board \<Rightarrow> nat option \<Rightarrow> u8 \<Rightarrow> nat \<Rightarrow> 'h io_state \<Rightarrow> (rt_err_t \<times> 'h io_state) option" where
  "rt_device_control B dev cmd arg s =
     (case dev of
        None \<Rightarrow> None
      | Some d \<Rightarrow>
          (case d_control (devices s d) of
             Some f \<Rightarrow> call_control B f d cmd arg s
           | None \<Rightarrow> Some (RT_EOK, s)))"

definition rt_device_set_rx_indicate ::
  "nat option \<Rightarrow> nat option \<Rightarrow> 'h io_state \<Rightarrow> (rt_err_t \<times> 'h io_state) option" where
  "rt_device_set_rx_indicate dev rx_ind s =
     (case dev of
        None \<Rightarrow> None
      | Some d \<Rightarrow> Some (RT_EOK, device_at d (d_rx_indicate_update (\<lambda>_. rx_ind)) s))"

definition rt_device_set_tx_complete ::
  "nat option \<Rightarrow> nat option \<Rightarrow> 'h io_state \<Rightarrow> (rt_err_t \<times> 'h io_state) option" where
  "rt_device_set_tx_complete dev tx_done s =
     (case dev of
        None \<Rightarrow> None
      | Some d \<Rightarrow> Some (RT_EOK, device_at d (d_tx_complete_update (\<lambda>_. tx_done)) s))"

subsection \<open>Output on the console\<close>

abbreviation RT_CONSOLEBUF_SIZE :: nat where "RT_CONSOLEBUF_SIZE \<equiv> 256"

definition rt_kprintf :: "'h board \<Rightarrow> u8 list \<Rightarrow> u32 list \<Rightarrow> 'h io_state \<Rightarrow> 'h io_state option" where
  "rt_kprintf B fmt args s =
     do {
       (len, m) \<leftarrow> rt_vsnprintf (rt_log_buf B) (of_nat (RT_CONSOLEBUF_SIZE - 1)) fmt args (mem s);
       let s1 = s\<lparr>mem := m\<rparr>;
       let len = (if len > RT_CONSOLEBUF_SIZE - 1 then RT_CONSOLEBUF_SIZE - 1 else len);
       (case console_device s1 of
          None \<Rightarrow> hw_console_output B (rt_log_buf B) s1
        | Some c \<Rightarrow> do {
            let old_flag = d_flag (devices s1 c);
            let s2 = device_at c (d_flag_update (\<lambda>f. f OR RT_DEVICE_FLAG_STREAM)) s1;
            (_, s3) \<leftarrow> rt_device_write B (console_device s2) 0 (rt_log_buf B) (of_nat len) s2;
            c' \<leftarrow> console_device s3;
            Some (device_at c' (d_flag_update (\<lambda>_. old_flag)) s3) }) }"

text \<open>
  The message of a failed initialisation prints the name of the device from the structure itself,
  which starts with the object's name, its type and its flag.\<close>

definition store_header :: "nat \<Rightarrow> rt_object \<Rightarrow> memory \<Rightarrow> memory" where
  "store_header a ob m =
     (\<lambda>i. if a \<le> i \<and> i < a + length (o_name ob @ [o_type ob, o_flag ob])
          then (o_name ob @ [o_type ob, o_flag ob]) ! (i - a) else m i)"

definition init_failed_format :: "u8 list" where
  "init_failed_format = map of_char ''To initialize device:%s failed. The error code is %d\<newline>'' @ [0]"

definition report_init_failed :: "'h board \<Rightarrow> nat \<Rightarrow> rt_err_t \<Rightarrow> 'h io_state \<Rightarrow> 'h io_state option" where
  "report_init_failed B d result s =
     rt_kprintf B init_failed_format [of_nat d, of_int result]
       (s\<lparr>mem := store_header d (objects (kern s) (ObjDevice d)) (mem s)\<rparr>)"

subsection \<open>Registering and finding\<close>

definition rt_device_find :: "u8 list \<Rightarrow> 'h io_state \<Rightarrow> (nat option \<times> 'h io_state) option" where
  "rt_device_find name s =
     (let k = (if rt_thread_self (kern s) \<noteq> None then rt_enter_critical (kern s) else kern s)
      in do {
        r \<leftarrow> find_by_name name (object_lists k ClassDevice) k;
        k \<leftarrow> (if rt_thread_self k \<noteq> None then rt_exit_critical k else Some k);
        Some (map_option object_addr r, s\<lparr>kern := k\<rparr>) })"

definition rt_device_register ::
  "nat option \<Rightarrow> u8 list \<Rightarrow> u16 \<Rightarrow> 'h io_state \<Rightarrow> (rt_err_t \<times> 'h io_state) option" where
  "rt_device_register dev name flags s =
     (case dev of
        None \<Rightarrow> Some (- RT_ERROR, s)
      | Some d \<Rightarrow> do {
          (r, s) \<leftarrow> rt_device_find name s;
          if r \<noteq> None then Some (- RT_ERROR, s)
          else do {
            k \<leftarrow> rt_object_init (ObjDevice d) name (kern s);
            Some (RT_EOK, device_at d (\<lambda>v. v\<lparr>d_flag := flags, d_ref_count := 0\<rparr>) (s\<lparr>kern := k\<rparr>)) } })"

definition rt_device_unregister :: "nat option \<Rightarrow> 'h io_state \<Rightarrow> (rt_err_t \<times> 'h io_state) option" where
  "rt_device_unregister dev s =
     (case dev of
        None \<Rightarrow> None
      | Some d \<Rightarrow> Some (RT_EOK, s\<lparr>kern := rt_object_detach (ObjDevice d) (kern s)\<rparr>))"

subsection \<open>Initialising, opening and closing\<close>

text \<open>One turn of the loop of \<^verbatim>\<open>rt_device_init_all\<close>. The next node is read after the driver ran;
  a node that is on no list points to itself.\<close>

definition init_one :: "'h board \<Rightarrow> nat \<Rightarrow> 'h io_state \<Rightarrow> 'h io_state option" where
  "init_one B d s =
     (case d_init (devices s d) of
        Some f \<Rightarrow>
          if d_flag (devices s d) AND RT_DEVICE_FLAG_ACTIVATED = 0 then do {
            (result, s) \<leftarrow> call_init B f d s;
            if result \<noteq> RT_EOK then report_init_failed B d result s
            else Some (device_at d (d_flag_update (\<lambda>x. x OR RT_DEVICE_FLAG_ACTIVATED)) s) }
          else Some s
      | None \<Rightarrow> Some s)"

fun next_node :: "object_id \<Rightarrow> object_id list \<Rightarrow> object_id option" where
  "next_node b [] = Some b"
| "next_node b (x # xs) = (if x = b then (case xs of [] \<Rightarrow> None | y # _ \<Rightarrow> Some y) else next_node b xs)"

partial_function (option) init_from :: "'h board \<Rightarrow> object_id option \<Rightarrow> 'h io_state \<Rightarrow> 'h io_state option" where
  "init_from B node s =
     (case node of
        None \<Rightarrow> Some s
      | Some b \<Rightarrow> do {
          s' \<leftarrow> init_one B (object_addr b) s;
          init_from B (next_node b (object_lists (kern s') ClassDevice)) s' })"

definition rt_device_init_all :: "'h board \<Rightarrow> 'h io_state \<Rightarrow> (rt_err_t \<times> 'h io_state) option" where
  "rt_device_init_all B s =
     do {
       s' \<leftarrow> init_from B (case object_lists (kern s) ClassDevice of [] \<Rightarrow> None | b # _ \<Rightarrow> Some b) s;
       Some (RT_EOK, s') }"

definition rt_device_init :: "'h board \<Rightarrow> nat option \<Rightarrow> 'h io_state \<Rightarrow> (rt_err_t \<times> 'h io_state) option" where
  "rt_device_init B dev s =
     (case dev of
        None \<Rightarrow> None
      | Some d \<Rightarrow>
          (case d_init (devices s d) of
             Some f \<Rightarrow>
               if d_flag (devices s d) AND RT_DEVICE_FLAG_ACTIVATED = 0 then do {
                 (result, s) \<leftarrow> call_init B f d s;
                 if result \<noteq> RT_EOK then do {
                   s \<leftarrow> report_init_failed B d result s;
                   Some (result, s) }
                 else Some (result, device_at d (d_flag_update (\<lambda>x. x OR RT_DEVICE_FLAG_ACTIVATED)) s) }
               else Some (RT_EOK, s)
           | None \<Rightarrow> Some (RT_EOK, s)))"

text \<open>The part of \<^verbatim>\<open>rt_device_open\<close> behind the initialisation.\<close>

definition open_active :: "'h board \<Rightarrow> nat \<Rightarrow> u16 \<Rightarrow> 'h io_state \<Rightarrow> (rt_err_t \<times> 'h io_state) option" where
  "open_active B d oflag s =
     (if d_flag (devices s d) AND RT_DEVICE_FLAG_STANDALONE \<noteq> 0 \<and>
         d_open_flag (devices s d) AND RT_DEVICE_OFLAG_OPEN \<noteq> 0 then Some (- RT_EBUSY, s)
      else let s = device_at d (d_ref_count_update (\<lambda>n. n + 1)) s in
        RT_ASSERT (d_ref_count (devices s d) \<noteq> 0) (do {
          (result, s) \<leftarrow> (case d_open (devices s d) of
             Some f \<Rightarrow> call_open B f d oflag s
           | None \<Rightarrow> Some (RT_EOK, s));
          if result = RT_EOK \<or> result = - RT_ENOSYS
          then Some (result, device_at d (d_open_flag_update (\<lambda>_. oflag OR RT_DEVICE_OFLAG_OPEN)) s)
          else Some (result, s) }))"

definition rt_device_open ::
  "'h board \<Rightarrow> nat option \<Rightarrow> u16 \<Rightarrow> 'h io_state \<Rightarrow> (rt_err_t \<times> 'h io_state) option" where
  "rt_device_open B dev oflag s =
     (case dev of
        None \<Rightarrow> None
      | Some d \<Rightarrow>
          if d_flag (devices s d) AND RT_DEVICE_FLAG_ACTIVATED = 0 then do {
            (result, s) \<leftarrow> (case d_init (devices s d) of
               Some f \<Rightarrow> call_init B f d s
             | None \<Rightarrow> Some (RT_EOK, s));
            if result \<noteq> RT_EOK then do {
              s \<leftarrow> report_init_failed B d result s;
              Some (result, s) }
            else open_active B d oflag
              (device_at d (d_flag_update (\<lambda>x. x OR RT_DEVICE_FLAG_ACTIVATED)) s) }
          else open_active B d oflag s)"

definition rt_device_close :: "'h board \<Rightarrow> nat option \<Rightarrow> 'h io_state \<Rightarrow> (rt_err_t \<times> 'h io_state) option" where
  "rt_device_close B dev s =
     (case dev of
        None \<Rightarrow> None
      | Some d \<Rightarrow>
          if d_ref_count (devices s d) = 0 then Some (- RT_ERROR, s)
          else let s = device_at d (d_ref_count_update (\<lambda>n. n - 1)) s in
            if d_ref_count (devices s d) \<noteq> 0 then Some (RT_EOK, s)
            else do {
              (result, s) \<leftarrow> (case d_close (devices s d) of
                 Some f \<Rightarrow> call_close B f d s
               | None \<Rightarrow> Some (RT_EOK, s));
              if result = RT_EOK \<or> result = - RT_ENOSYS
              then Some (result, device_at d (d_open_flag_update (\<lambda>_. RT_DEVICE_OFLAG_CLOSE)) s)
              else Some (result, s) })"

subsection \<open>The console's device\<close>

definition rt_console_get_device :: "'h io_state \<Rightarrow> nat option" where
  "rt_console_get_device s = console_device s"

definition rt_console_set_device ::
  "'h board \<Rightarrow> u8 list \<Rightarrow> 'h io_state \<Rightarrow> (nat option \<times> 'h io_state) option" where
  "rt_console_set_device B name s =
     (let old = console_device s
      in do {
        (new, s) \<leftarrow> rt_device_find name s;
        if new \<noteq> None then do {
          s \<leftarrow> (if console_device s \<noteq> None
                then map_option snd (rt_device_close B (console_device s) s) else Some s);
          let s = s\<lparr>console_device := new\<rparr>;
          (_, s) \<leftarrow> rt_device_open B (console_device s) RT_DEVICE_OFLAG_RDWR s;
          Some (old, s) }
        else Some (old, s) })"

subsection \<open>The sessions of a device\<close>

text \<open>
  A sequence of calls by the users of one device, and what it comes to: the driver is initialised
  once, before it is opened first, each open reaches it unless the device is stand-alone and in
  use, and it is closed when the last user closes it. A user of too many is refused by an
  assertion.\<close>

datatype device_op = OpenDev u16 | CloseDev

datatype driver_call = DriverInit | DriverOpen u16 | DriverClose

record session =
  up :: bool
  users :: nat
  mode :: u16
  calls :: "driver_call list"

primrec device_step :: "'h board \<Rightarrow> nat \<Rightarrow> device_op \<Rightarrow> 'h io_state \<Rightarrow> (rt_err_t \<times> 'h io_state) option" where
  "device_step B d (OpenDev oflag) s = rt_device_open B (Some d) oflag s"
| "device_step B d CloseDev s = rt_device_close B (Some d) s"

primrec device_run ::
  "'h board \<Rightarrow> nat \<Rightarrow> device_op list \<Rightarrow> 'h io_state \<Rightarrow> (rt_err_t list \<times> 'h io_state) option" where
  "device_run B d [] s = Some ([], s)"
| "device_run B d (x # xs) s = do {
     (r, s) \<leftarrow> device_step B d x s;
     (rs, s) \<leftarrow> device_run B d xs s;
     Some (r # rs, s) }"

text \<open>The results of the driver: \<open>ro\<close> for an open with given flags, \<open>rc\<close> for a close.\<close>

primrec session_step ::
  "rt_device \<Rightarrow> (u16 \<Rightarrow> rt_err_t) \<Rightarrow> rt_err_t \<Rightarrow> device_op \<Rightarrow> session \<Rightarrow> (rt_err_t \<times> session) option" where
  "session_step v ro rc (OpenDev oflag) q =
     (let q = (if up q then q
               else q\<lparr>up := True, calls := calls q @ (if d_init v = None then [] else [DriverInit])\<rparr>)
      in if bit (d_flag v) 3 \<and> 0 < users q then Some (- RT_EBUSY, q)
         else if users q = 255 then None
         else Some (if d_open v = None then RT_EOK else ro oflag,
           q\<lparr>users := users q + 1, mode := oflag OR RT_DEVICE_OFLAG_OPEN,
             calls := calls q @ (if d_open v = None then [] else [DriverOpen oflag])\<rparr>))"
| "session_step v ro rc CloseDev q =
     (if users q = 0 then Some (- RT_ERROR, q)
      else if users q > 1 then Some (RT_EOK, q\<lparr>users := users q - 1\<rparr>)
      else Some (if d_close v = None then RT_EOK else rc,
        q\<lparr>users := 0, mode := 0, calls := calls q @ (if d_close v = None then [] else [DriverClose])\<rparr>))"

primrec session_run ::
  "rt_device \<Rightarrow> (u16 \<Rightarrow> rt_err_t) \<Rightarrow> rt_err_t \<Rightarrow> device_op list \<Rightarrow> session \<Rightarrow> (rt_err_t list \<times> session) option" where
  "session_run v ro rc [] q = Some ([], q)"
| "session_run v ro rc (x # xs) q = do {
     (r, q) \<leftarrow> session_step v ro rc x q;
     (rs, q) \<leftarrow> session_run v ro rc xs q;
     Some (r # rs, q) }"

text \<open>A driver that keeps a record of the calls, and does nothing else to the state.\<close>

definition recording :: "driver_call list board \<Rightarrow> nat \<Rightarrow> (u16 \<Rightarrow> rt_err_t) \<Rightarrow> rt_err_t \<Rightarrow> bool" where
  "recording B d ro rc \<longleftrightarrow>
     (\<forall>f s. call_init B f d s = Some (RT_EOK, s\<lparr>hw := hw s @ [DriverInit]\<rparr>)) \<and>
     (\<forall>f oflag s. call_open B f d oflag s = Some (ro oflag, s\<lparr>hw := hw s @ [DriverOpen oflag]\<rparr>)) \<and>
     (\<forall>f s. call_close B f d s = Some (rc, s\<lparr>hw := hw s @ [DriverClose]\<rparr>))"

definition accepting :: "(u16 \<Rightarrow> rt_err_t) \<Rightarrow> rt_err_t \<Rightarrow> bool" where
  "accepting ro rc \<longleftrightarrow>
     range ro \<subseteq> {RT_EOK, - RT_ENOSYS} \<and> rc \<in> {RT_EOK, - RT_ENOSYS}"

definition session_of :: "nat \<Rightarrow> driver_call list io_state \<Rightarrow> session" where
  "session_of d s = \<lparr>up = bit (d_flag (devices s d)) 4, users = unat (d_ref_count (devices s d)),
     mode = d_open_flag (devices s d), calls = hw s\<rparr>"

definition put_session :: "nat \<Rightarrow> session \<Rightarrow> driver_call list io_state \<Rightarrow> driver_call list io_state" where
  "put_session d q s = device_at d (\<lambda>v. v\<lparr>
     d_flag := (if up q then d_flag v OR RT_DEVICE_FLAG_ACTIVATED else d_flag v),
     d_ref_count := of_nat (users q), d_open_flag := mode q\<rparr>) (s\<lparr>hw := calls q\<rparr>)"

text \<open>The device is open exactly when it is in use.\<close>

definition session_ok :: "session \<Rightarrow> bool" where
  "session_ok q \<longleftrightarrow> users q < 256 \<and> (bit (mode q) 3 \<longleftrightarrow> 0 < users q)"

definition device_ok :: "rt_device \<Rightarrow> bool" where
  "device_ok v \<longleftrightarrow> (d_open_flag v AND RT_DEVICE_OFLAG_OPEN \<noteq> 0 \<longleftrightarrow> d_ref_count v \<noteq> 0)"

lemma device_flag_bits:
  "(x AND RT_DEVICE_FLAG_STANDALONE = 0) = (\<not> bit x 3)"
  "(x AND RT_DEVICE_FLAG_ACTIVATED = 0) = (\<not> bit x 4)" for x :: u16
  using and_exp_eq_0_iff_not_bit [of x 3] and_exp_eq_0_iff_not_bit [of x 4] by simp_all

lemma device_or_bits [simp]:
  "bit (x OR RT_DEVICE_OFLAG_OPEN) 3" "bit (x OR RT_DEVICE_FLAG_ACTIVATED) 4"
  "bit (x OR RT_DEVICE_FLAG_ACTIVATED) 3 = bit x 3" for x :: u16
  by (simp_all add: bit_or_iff bit_numeral_rec)

lemma activated_flag: "bit x 4 \<Longrightarrow> x OR RT_DEVICE_FLAG_ACTIVATED = x" for x :: u16
proof -
  have "(RT_DEVICE_FLAG_ACTIVATED :: u16) = 2 ^ 4" by simp
  moreover assume "bit x 4"
  ultimately show ?thesis by (auto intro!: bit_eqI simp only: bit_or_iff bit_exp_iff)
qed

lemma u8_count:
  fixes n :: u8
  shows "n = 0 \<longleftrightarrow> unat n = 0" "n + 1 = 0 \<longleftrightarrow> unat n = 255" "n - 1 = 0 \<longleftrightarrow> unat n = 1"
    "unat n < 256"
proof -
  show "n = 0 \<longleftrightarrow> unat n = 0" by (simp add: unat_eq_zero)
  show "unat n < 256" using unsigned_less [of n, where 'a = nat] by simp
  have "(- 1 :: u8) = 255" by simp
  then have "n + 1 = 0 \<longleftrightarrow> n = 255" by (simp only: add_eq_0_iff2)
  then show "n + 1 = 0 \<longleftrightarrow> unat n = 255" by (simp add: word_unat_eq_iff)
  have "n - 1 = 0 \<longleftrightarrow> n = 1" by simp
  then show "n - 1 = 0 \<longleftrightarrow> unat n = 1" by (simp only: word_unat_eq_iff) simp
qed

lemma session_of_put:
  assumes "users q < 256" "bit (d_flag (devices s d)) 4 \<longrightarrow> up q"
  shows "session_of d (put_session d q s) = q"
  using assms by (auto simp: session_of_def put_session_def unat_of_nat)

lemma put_put_session:
  assumes "up q \<longrightarrow> up p"
  shows "put_session d p (put_session d q s) = put_session d p s"
  using assms by (auto simp: put_session_def or.assoc)

lemma put_session_of: "put_session d (session_of d s) s = s"
  by (simp add: put_session_def session_of_def activated_flag cong: if_cong)

lemma session_step_put:
  "session_step (devices (put_session d q s) d) ro rc = session_step (devices s d) ro rc"
proof (intro ext)
  fix x p
  show "session_step (devices (put_session d q s) d) ro rc x p = session_step (devices s d) ro rc x p"
    by (cases x) (simp_all add: put_session_def Let_def)
qed

lemma session_run_put:
  "session_run (devices (put_session d q s) d) ro rc xs = session_run (devices s d) ro rc xs"
proof
  fix p show "session_run (devices (put_session d q s) d) ro rc xs p = session_run (devices s d) ro rc xs p"
    by (induction xs arbitrary: p) (simp_all add: session_step_put)
qed

lemma session_step_ok:
  assumes "session_step v ro rc x q = Some (r, p)" "session_ok q"
  shows "session_ok p"
  using assms by (cases x) (auto simp: session_ok_def Let_def split: if_splits)

lemma session_step_up: "session_step v ro rc x q = Some (r, p) \<Longrightarrow> up q \<Longrightarrow> up p"
  by (cases x) (auto simp: Let_def split: if_splits)

lemma device_count:
  "d_ref_count_update (\<lambda>n. n + 1) v = v\<lparr>d_ref_count := 1 + d_ref_count v\<rparr>"
  "d_ref_count_update (\<lambda>n. n - 1) v = v\<lparr>d_ref_count := d_ref_count v - 1\<rparr>"
  "d_flag_update (\<lambda>x. x OR RT_DEVICE_FLAG_ACTIVATED) v = v\<lparr>d_flag := d_flag v OR RT_DEVICE_FLAG_ACTIVATED\<rparr>"
  by (simp_all add: add.commute)

lemma open_active_session:
  assumes rec: "recording B d ro rc" "accepting ro rc" and ok: "session_ok (session_of d s)"
    and act: "bit (d_flag (devices s d)) 4"
  shows "open_active B d oflag s =
    map_option (\<lambda>(r, q). (r, put_session d q s)) (session_step (devices s d) ro rc (OpenDev oflag) (session_of d s))"
proof -
  let ?v = "devices s d"
  have ro: "ro oflag = RT_EOK \<or> ro oflag = - RT_ENOSYS" using rec(2) by (auto simp: accepting_def)
  have use: "bit (d_open_flag ?v) 3 \<longleftrightarrow> 0 < unat (d_ref_count ?v)"
    using ok by (simp add: session_ok_def session_of_def)
  have up: "up (session_of d s)" using act by (simp add: session_of_def)
  consider (busy) "bit (d_flag ?v) 3" "0 < unat (d_ref_count ?v)"
    | (many) "\<not> (bit (d_flag ?v) 3 \<and> 0 < unat (d_ref_count ?v))" "unat (d_ref_count ?v) = 255"
    | (new) "\<not> (bit (d_flag ?v) 3 \<and> 0 < unat (d_ref_count ?v))" "unat (d_ref_count ?v) \<noteq> 255"
    by (cases "bit (d_flag ?v) 3 \<and> 0 < unat (d_ref_count ?v)"; cases "unat (d_ref_count ?v) = 255") simp_all
  then show ?thesis
  proof cases
    case busy
    then show ?thesis using use put_session_of [of d s] up
      by (simp add: open_active_def device_flag_bits) (simp add: session_of_def)
  next
    case many
    then have "d_ref_count ?v + 1 = 0" by (simp only: u8_count(2))
    then show ?thesis using many use up
      by (simp add: open_active_def device_flag_bits RT_ASSERT_def) (simp add: session_of_def)
  next
    case new
    then have "d_ref_count ?v + 1 \<noteq> 0" by (simp only: u8_count(2) simp_thms)
    then show ?thesis using new use act ro rec(1)
      by (auto simp: open_active_def device_flag_bits RT_ASSERT_def recording_def session_of_def
          put_session_def activated_flag device_count unat_eq_zero add.commute split: option.splits)
  qed
qed

lemma session_run_up:
  "session_run v ro rc xs q = Some (rs, p) \<Longrightarrow> up q \<Longrightarrow> up p"
proof (induction xs arbitrary: q rs)
  case (Cons x xs)
  then obtain r q' rs' where "session_step v ro rc x q = Some (r, q')" "session_run v ro rc xs q' = Some (rs', p)"
    by (auto split: prod.splits)
  moreover from this(1) Cons.prems(2) have "up q'" by (rule session_step_up)
  ultimately show ?case using Cons.IH by blast
qed simp

lemma device_open_session:
  assumes rec: "recording B d ro rc" "accepting ro rc" and ok: "session_ok (session_of d s)"
  shows "rt_device_open B (Some d) oflag s =
    map_option (\<lambda>(r, q). (r, put_session d q s)) (session_step (devices s d) ro rc (OpenDev oflag) (session_of d s))"
proof (cases "bit (d_flag (devices s d)) 4")
  case True
  then show ?thesis using open_active_session [OF assms True]
    by (simp only: rt_device_open_def device_flag_bits option.case not_True_eq_False if_False)
next
  case False
  let ?q = "session_of d s"
  let ?qa = "?q\<lparr>up := True, calls := calls ?q @ (if d_init (devices s d) = None then [] else [DriverInit])\<rparr>"
  let ?sa = "put_session d ?qa s"
  have s0: "rt_device_open B (Some d) oflag s = open_active B d oflag ?sa"
    using False rec(1) by (auto simp: rt_device_open_def device_flag_bits recording_def put_session_def device_count
        session_of_def split: option.splits)
  have q0: "session_of d ?sa = ?qa" using ok by (intro session_of_put) (simp_all add: session_ok_def)
  have "open_active B d oflag ?sa =
      map_option (\<lambda>(r, q). (r, put_session d q ?sa)) (session_step (devices s d) ro rc (OpenDev oflag) ?qa)"
    using open_active_session [OF rec, of ?sa oflag] ok unfolding q0 session_step_put
    by (simp add: session_ok_def put_session_def)
  also have "\<dots> = map_option (\<lambda>(r, q). (r, put_session d q s)) (session_step (devices s d) ro rc (OpenDev oflag) ?qa)"
    by (rule map_option_cong [OF refl])
      (auto simp: put_put_session dest: session_step_up simp del: session_step.simps)
  finally have "rt_device_open B (Some d) oflag s =
      map_option (\<lambda>(r, q). (r, put_session d q s)) (session_step (devices s d) ro rc (OpenDev oflag) ?qa)"
    unfolding s0 .
  moreover have "session_step (devices s d) ro rc (OpenDev oflag) ?qa =
      session_step (devices s d) ro rc (OpenDev oflag) ?q"
    using False by (simp add: session_of_def)
  ultimately show ?thesis by (simp only:)
qed

lemma device_close_session:
  assumes rec: "recording B d ro rc" "accepting ro rc" and ok: "session_ok (session_of d s)"
  shows "rt_device_close B (Some d) s =
    map_option (\<lambda>(r, q). (r, put_session d q s)) (session_step (devices s d) ro rc CloseDev (session_of d s))"
proof -
  have rc: "rc = RT_EOK \<or> rc = - RT_ENOSYS" using rec(2) by (auto simp: accepting_def)
  consider "d_ref_count (devices s d) = 0" | "unat (d_ref_count (devices s d)) = 1" | "1 < unat (d_ref_count (devices s d))"
    using u8_count(1) [of "d_ref_count (devices s d)"] by linarith
  then show ?thesis
  proof cases
    case 1
    then show ?thesis using put_session_of [of d s] by (simp add: rt_device_close_def) (simp add: session_of_def)
  next
    case 2
    then have "d_ref_count (devices s d) \<noteq> 0" "d_ref_count (devices s d) - 1 = 0"
      by (auto simp only: u8_count(3)) simp
    then show ?thesis using 2 rc rec(1)
      by (auto simp: rt_device_close_def recording_def session_of_def put_session_def activated_flag
          device_count split: option.splits)
  next
    case 3
    then have "d_ref_count (devices s d) \<noteq> 0" "d_ref_count (devices s d) - 1 \<noteq> 0"
      by (auto simp only: u8_count(3)) simp
    then show ?thesis using 3
      by (auto simp: rt_device_close_def session_of_def put_session_def activated_flag device_count)
  qed
qed

lemma device_run_session:
  assumes rec: "recording B d ro rc" "accepting ro rc" and ok: "session_ok (session_of d s)"
  shows "device_run B d xs s =
    map_option (\<lambda>(rs, q). (rs, put_session d q s)) (session_run (devices s d) ro rc xs (session_of d s))"
  using ok
proof (induction xs arbitrary: s)
  case Nil
  then show ?case by (simp add: put_session_of)
next
  case (Cons x xs)
  let ?q = "session_of d s"
  have step: "device_step B d x s =
      map_option (\<lambda>(r, q). (r, put_session d q s)) (session_step (devices s d) ro rc x ?q)"
    using device_open_session [OF rec Cons.prems] device_close_session [OF rec Cons.prems] by (cases x) simp_all
  show ?case
  proof (cases "session_step (devices s d) ro rc x ?q")
    case None
    then show ?thesis by (simp add: step)
  next
    case (Some rq)
    obtain r q where rq: "session_step (devices s d) ro rc x ?q = Some (r, q)" using Some by (cases rq) simp
    have q: "session_ok q" "bit (d_flag (devices s d)) 4 \<longrightarrow> up q"
      using session_step_ok [OF rq Cons.prems] session_step_up [OF rq] by (simp_all add: session_of_def)
    then have q': "session_of d (put_session d q s) = q" by (simp add: session_of_put session_ok_def)
    have IH: "device_run B d xs (put_session d q s) =
        map_option (\<lambda>(rs, p). (rs, put_session d p (put_session d q s))) (session_run (devices s d) ro rc xs q)"
      using Cons.IH [of "put_session d q s"] q(1) unfolding q' session_run_put by blast
    have p: "session_run (devices s d) ro rc xs q = Some (rs, p) \<Longrightarrow> up q \<longrightarrow> up p" for rs p
      using session_run_up by blast
    show ?thesis
      by (cases "session_run (devices s d) ro rc xs q") (auto simp: step rq IH put_put_session dest: p)
  qed
qed

subsection \<open>The registry\<close>

text \<open>The registered devices, each with the part of its name that counts; no two have the same.\<close>

abbreviation name_key :: "u8 list \<Rightarrow> u8 list" where
  "name_key name \<equiv> take RT_NAME_MAX (cstr name)"

definition registry :: "kstate \<Rightarrow> (u8 list \<times> nat) list" where
  "registry k = map (\<lambda>b. (name_key (o_name (objects k b)), object_addr b)) (object_lists k ClassDevice)"

definition critical_ok :: "kstate \<Rightarrow> bool" where
  "critical_ok k \<longleftrightarrow> rt_current_thread k \<noteq> None \<longrightarrow>
     sched_inv k \<and> (\<exists>u. stat k u = RT_THREAD_READY) \<and>
     (\<forall>v. stat k v = RT_THREAD_READY \<longrightarrow> stack_ok (threads k v))"

definition registry_ok :: "kstate \<Rightarrow> bool" where
  "registry_ok k \<longleftrightarrow> critical_ok k \<and> range ObjDevice \<supseteq> set (object_lists k ClassDevice) \<and>
     distinct (map snd (registry k)) \<and> distinct (map fst (registry k)) \<and>
     (\<forall>b \<in> set (object_lists k ClassDevice). length (o_name (objects k b)) = RT_NAME_MAX)"

lemma find_by_name_registry:
  assumes "0 \<in> set name" "\<forall>b \<in> set bs. length (o_name (objects k b)) = RT_NAME_MAX"
  shows "map_option (map_option object_addr) (find_by_name name bs k) =
    Some (map_of (map (\<lambda>b. (name_key (o_name (objects k b)), object_addr b)) bs) (name_key name))"
  using assms(2)
proof (induction bs)
  case (Cons b bs)
  obtain r where r: "rt_strncmp (o_name (objects k b)) name RT_NAME_MAX = Some r"
    "r = 0 \<longleftrightarrow> name_key (o_name (objects k b)) = name_key name"
    using rt_strncmp_iff [of "o_name (objects k b)" RT_NAME_MAX name] assms(1) Cons.prems by auto
  then show ?case using Cons by auto
qed simp

lemma critical_section:
  assumes "critical_ok k" "rt_current_thread k \<noteq> None"
  obtains c p n where "rt_exit_critical (rt_enter_critical k) =
    Some (k\<lparr>rt_current_thread := c, rt_current_priority := p, rt_scheduler_lock_nest := n\<rparr>)" "c \<noteq> None"
proof -
  let ?k = "k\<lparr>rt_scheduler_lock_nest := 0\<rparr>"
  obtain u c where u: "stat ?k u = RT_THREAD_READY" and c: "rt_current_thread ?k = Some c"
    using assms by (auto simp: critical_ok_def)
  have inv: "sched_inv ?k" and stk: "\<And>v. stat ?k v = RT_THREAD_READY \<Longrightarrow> stack_ok (threads ?k v)"
    using assms by (auto simp: critical_ok_def)
  obtain to p where to: "rt_schedule ?k = Some (?k\<lparr>rt_current_thread := Some to, rt_current_priority := p\<rparr>)"
    by (rule rt_schedule_spec [OF inv u c stk]) auto
  show thesis
  proof (cases "sint (rt_scheduler_lock_nest k) \<le> 0")
    case True
    then have "rt_exit_critical (rt_enter_critical k) =
        Some (k\<lparr>rt_current_thread := Some to, rt_current_priority := p, rt_scheduler_lock_nest := 0\<rparr>)"
      using to by (simp add: rt_exit_critical_def rt_enter_critical_def Let_def)
    then show thesis by (rule that) simp
  next
    case False
    then have "rt_exit_critical (rt_enter_critical k) =
        Some (k\<lparr>rt_current_thread := Some c, rt_current_priority := rt_current_priority k,
          rt_scheduler_lock_nest := rt_scheduler_lock_nest k\<rparr>)"
      using c by (simp add: rt_exit_critical_def rt_enter_critical_def Let_def)
    then show thesis by (rule that) simp
  qed
qed

text \<open>What a search leaves: only the lock and the choice of the running thread may change.\<close>

definition same_registry :: "kstate \<Rightarrow> kstate \<Rightarrow> bool" where
  "same_registry k k' \<longleftrightarrow> (\<exists>c p n. k' = k\<lparr>rt_current_thread := c, rt_current_priority := p,
     rt_scheduler_lock_nest := n\<rparr> \<and> (c = None \<longleftrightarrow> rt_current_thread k = None))"

lemma same_registryD:
  assumes "same_registry k k'"
  shows "registry k' = registry k" "registry_ok k' = registry_ok k" "objects k' = objects k"
    "object_lists k' = object_lists k" "threads k' = threads k" "critical_ok k' = critical_ok k"
  using assms by (auto simp: same_registry_def registry_def registry_ok_def critical_ok_def)

lemma rt_device_find_spec:
  assumes ok: "registry_ok (kern s)" and nm: "0 \<in> set name"
  obtains k where "rt_device_find name s = Some (map_of (registry (kern s)) (name_key name), s\<lparr>kern := k\<rparr>)"
    "same_registry (kern s) k"
proof (cases "rt_current_thread (kern s) = None")
  case True
  have len: "\<forall>b \<in> set (object_lists (kern s) ClassDevice). length (o_name (objects (kern s) b)) = RT_NAME_MAX"
    using ok by (simp add: registry_ok_def)
  from find_by_name_registry [OF nm len]
  have "rt_device_find name s = Some (map_of (registry (kern s)) (name_key name), s\<lparr>kern := kern s\<rparr>)"
    using True by (auto simp: rt_device_find_def rt_thread_self_def registry_def Let_def)
  moreover have "same_registry (kern s) (kern s)"
    unfolding same_registry_def by (intro exI conjI) (auto intro: kstate.equality)
  ultimately show thesis by (rule that)
next
  case False
  let ?k = "rt_enter_critical (kern s)"
  have en: "object_lists ?k = object_lists (kern s)" "objects ?k = objects (kern s)"
    "rt_current_thread ?k = rt_current_thread (kern s)"
    by (simp_all add: rt_enter_critical_def)
  have cr: "critical_ok (kern s)" using ok by (simp add: registry_ok_def)
  obtain c p n where ex: "rt_exit_critical ?k =
      Some ((kern s)\<lparr>rt_current_thread := c, rt_current_priority := p, rt_scheduler_lock_nest := n\<rparr>)" "c \<noteq> None"
    by (rule critical_section [OF cr False])
  have len: "\<forall>b \<in> set (object_lists ?k ClassDevice). length (o_name (objects ?k b)) = RT_NAME_MAX"
    using ok by (simp add: registry_ok_def en)
  from find_by_name_registry [OF nm len]
  have "rt_device_find name s = Some (map_of (registry (kern s)) (name_key name),
      s\<lparr>kern := (kern s)\<lparr>rt_current_thread := c, rt_current_priority := p, rt_scheduler_lock_nest := n\<rparr>\<rparr>)"
    using False ex by (auto simp: rt_device_find_def rt_thread_self_def registry_def en)
  moreover have "same_registry (kern s)
      ((kern s)\<lparr>rt_current_thread := c, rt_current_priority := p, rt_scheduler_lock_nest := n\<rparr>)"
    unfolding same_registry_def using ex(2) False
    by (intro exI [of _ c] exI [of _ p] exI [of _ n]) auto
  ultimately show thesis by (rule that)
qed


lemma rt_device_register_spec:
  assumes ok: "registry_ok (kern s)" and nm: "0 \<in> set name" and new: "d \<notin> snd ` set (registry (kern s))"
    and free: "map_of (registry (kern s)) (name_key name) = None"
  shows "\<exists>s'. rt_device_register (Some d) name flags s = Some (RT_EOK, s') \<and>
    registry (kern s') = (name_key name, d) # registry (kern s) \<and> registry_ok (kern s') \<and>
    devices s' = (devices s)(d := (devices s d)\<lparr>d_flag := flags, d_ref_count := 0\<rparr>)"
proof -
  obtain k where k: "rt_device_find name s = Some (None, s\<lparr>kern := k\<rparr>)" "same_registry (kern s) k"
    by (rule rt_device_find_spec [OF ok nm]) (simp add: free)
  note same = same_registryD [OF k(2)]
  have ok': "registry_ok k" using ok same(2) by simp
  let ?name = "take RT_NAME_MAX (cstr name @ replicate RT_NAME_MAX 0)"
  let ?ob = "(objects k (ObjDevice d))\<lparr>o_type := class_code ClassDevice OR RT_Object_Class_Static, o_name := ?name\<rparr>"
  let ?k = "k\<lparr>objects := (objects k)(ObjDevice d := ?ob),
      object_lists := (object_lists k)(ClassDevice := ObjDevice d # object_lists k ClassDevice)\<rparr>"
  have init: "rt_object_init (ObjDevice d) name k = Some ?k"
    by (simp add: rt_object_init_def rt_strncpy_cstr [OF nm] container_insert_def)
  have absent: "ObjDevice d \<notin> set (object_lists k ClassDevice)"
    using new by (force simp: registry_def same(3,4))
  have key: "name_key ?name = name_key name" by (rule take_cstr_padded)
  have rest: "map (\<lambda>b. (name_key (o_name (((objects k)(ObjDevice d := ?ob)) b)), object_addr b)) (object_lists k ClassDevice)
      = registry k"
    unfolding registry_def by (rule map_cong [OF refl]) (use absent in auto)
  have reg: "registry ?k = (name_key name, d) # registry k"
  proof -
    have "registry ?k = (name_key ?name, d) #
        map (\<lambda>b. (name_key (o_name (((objects k)(ObjDevice d := ?ob)) b)), object_addr b)) (object_lists k ClassDevice)"
      by (simp add: registry_def)
    then show ?thesis by (simp only: rest key)
  qed
  have "name_key name \<notin> fst ` set (registry k)" using free same(1) by (simp add: map_of_eq_None_iff)
  then have "registry_ok ?k" using ok' new absent reg unfolding registry_ok_def
    by (auto simp: critical_ok_def same(1))
  then show ?thesis using reg k(1) init same(1)
    by (intro exI [of _ "device_at d (\<lambda>v. v\<lparr>d_flag := flags, d_ref_count := 0\<rparr>) (s\<lparr>kern := ?k\<rparr>)"])
      (simp add: rt_device_register_def)
qed

lemma rt_device_unregister_spec:
  assumes ok: "registry_ok (kern s)" and d: "d \<in> snd ` set (registry (kern s))"
  shows "\<exists>k. rt_device_unregister (Some d) s = Some (RT_EOK, s\<lparr>kern := k\<rparr>) \<and> registry_ok k \<and>
    registry k = filter (\<lambda>e. snd e \<noteq> d) (registry (kern s))"
proof -
  let ?bs = "object_lists (kern s) ClassDevice"
  let ?k = "container_remove (ObjDevice d) (kern s)"
  have dist: "distinct ?bs" using ok by (auto simp: registry_ok_def registry_def distinct_map)
  have bs: "object_lists ?k ClassDevice = filter (\<lambda>b. b \<noteq> ObjDevice d) ?bs"
    by (simp add: container_remove_def distinct_remove1_eq_filter [OF dist])
  have dev: "b \<in> set ?bs \<Longrightarrow> (b \<noteq> ObjDevice d) = (object_addr b \<noteq> d)" for b
    using ok by (auto simp: registry_ok_def)
  have reg: "registry ?k = filter (\<lambda>e. snd e \<noteq> d) (registry (kern s))"
    unfolding registry_def bs filter_map o_def snd_conv container_frame
    by (rule arg_cong [of _ _ "map _"], rule filter_cong [OF refl dev])
  have "critical_ok ?k" using ok by (simp add: registry_ok_def critical_ok_def)
  then have "registry_ok ?k" using ok unfolding registry_ok_def reg bs
    by (auto intro: distinct_map_filter)
  then show ?thesis using reg by (auto simp: rt_device_unregister_def rt_object_detach_def)
qed


subsection \<open>Printing\<close>

lemma d_flag_restored [simp]:
  "v\<lparr>d_flag := x, d_flag := d_flag v\<rparr> = v" "d_flag_update (\<lambda>_. d_flag v) (d_flag_update g v) = v"
  by simp_all

lemma rt_kprintf_run:
  assumes buf: "rt_log_buf B + 255 \<le> 2 ^ 32"
    and tx: "format_text fmt args (mem s) = Some (y, reads)" "reads \<inter> {rt_log_buf B..<rt_log_buf B + 255} = {}"
    and con: "console_device s = Some c" "d_ref_count (devices s c) \<noteq> 0" "d_write (devices s c) = Some f"
    and drv: "\<And>n t. call_write B f c 0 (rt_log_buf B) n t = Some (n, t\<lparr>hw := hw t @
      [(d_flag (devices t c), map (mem t) [rt_log_buf B..<rt_log_buf B + unat n])]\<rparr>)"
  shows "\<exists>m. rt_kprintf B fmt args s = Some (s\<lparr>mem := m, hw := hw s @
      [(d_flag (devices s c) OR RT_DEVICE_FLAG_STREAM, take 254 y @ (if 254 < length y then [0] else []))]\<rparr>) \<and>
    (\<forall>a. a < rt_log_buf B \<or> rt_log_buf B + 255 \<le> a \<longrightarrow> m a = mem s a)"
proof -
  let ?b = "rt_log_buf B"
  have sz: "0 < (255 :: u32)" "?b + unat (255 :: u32) \<le> 2 ^ 32"
    "reads \<inter> {?b..<?b + unat (255 :: u32)} = {}"
    using buf tx(2) by simp_all
  obtain r m where r: "rt_vsnprintf ?b 255 fmt args (mem s) = Some (r, m)"
    and bytes: "map m [?b..<?b + min (length y) 254] = take (min (length y) 254) y" "m (?b + min (length y) 254) = 0"
    and frame: "\<forall>a. a < ?b \<or> ?b + 255 \<le> a \<longrightarrow> m a = mem s a"
    and len: "length y \<le> r" "length y \<le> 255 \<longrightarrow> r = length y"
    using rt_vsnprintf_run [OF sz(1,2) tx(1) sz(3)] by auto
  have n: "255 < r \<Longrightarrow> min (length y) 255 = 255" "\<not> 255 < r \<Longrightarrow> min (length y) 255 = r" using len by auto
  have sent: "map m [?b..<?b + min (length y) 255] = take 254 y @ (if 254 < length y then [0] else [])"
  proof (cases "254 < length y")
    case True
    have "[?b..<?b + 255] = [?b..<?b + 254] @ [?b + 254]"
    proof -
      have "?b + 255 = Suc (?b + 254)" by simp
      then show ?thesis by (simp only: upt_Suc_append le_add1)
    qed
    then show ?thesis using True bytes by simp
  next
    case False
    then show ?thesis using bytes(1) by simp
  qed
  have w: "unat (of_nat r :: u32) = r" if "\<not> 255 < r" using that by (simp add: unat_of_nat)
  have "rt_kprintf B fmt args s = Some (s\<lparr>mem := m, hw := hw s @
      [(d_flag (devices s c) OR RT_DEVICE_FLAG_STREAM, map m [?b..<?b + min (length y) 255])]\<rparr>)"
    by (cases "255 < r") (use r con n w in \<open>simp_all add: rt_kprintf_def rt_device_write_def drv\<close>)
  then show ?thesis using frame unfolding sent by blast
qed


subsection \<open>The properties\<close>


definition demo_device :: rt_device where
  "demo_device = \<lparr>d_type = CharDevice, d_flag = 0x00b, d_open_flag = 0, d_ref_count = 0, d_device_id = 0,
     d_rx_indicate = None, d_tx_complete = None, d_init = Some 1, d_open = Some 2, d_close = Some 3,
     d_read = None, d_write = Some 4, d_control = None, d_user_data = 0\<rparr>"

definition recording_board :: "driver_call list board" where
  "recording_board = \<lparr>
     call_init = (\<lambda>f d s. Some (RT_EOK, s\<lparr>hw := hw s @ [DriverInit]\<rparr>)),
     call_open = (\<lambda>f d oflag s. Some (RT_EOK, s\<lparr>hw := hw s @ [DriverOpen oflag]\<rparr>)),
     call_close = (\<lambda>f d s. Some (RT_EOK, s\<lparr>hw := hw s @ [DriverClose]\<rparr>)),
     call_read = (\<lambda>f d pos b n s. Some (0, s)), call_write = (\<lambda>f d pos b n s. Some (0, s)),
     call_control = (\<lambda>f d cmd arg s. Some (RT_EOK, s)), hw_console_output = (\<lambda>b s. Some s),
     rt_log_buf = 1000\<rparr>"

definition demo_io :: "'h \<Rightarrow> 'h io_state" where
  "demo_io h = \<lparr>kern = demo\<lparr>object_lists := (\<lambda>_. [])\<rparr>, devices = (\<lambda>_. demo_device), console_device = None,
     global_errno = 0, mem = (\<lambda>_. 0), hw = h\<rparr>"


text \<open>
  Property C19.
  The registry: \<open>rt_device_find\<close> returns the device registered under the name, two names being
  the same when they agree in their first eight characters, or NULL; \<open>rt_device_register\<close> refuses
  a name that is taken and otherwise enters the device first, with its flags and no users;
  \<open>rt_device_unregister\<close> takes exactly that device out. That no two devices share a name
  is kept.\<close>

theorem device_registry:
  assumes "registry_ok (kern s)" "0 \<in> set name"
  shows "(\<exists>k. rt_device_find name s = Some (map_of (registry (kern s)) (name_key name), s\<lparr>kern := k\<rparr>) \<and>
      registry k = registry (kern s) \<and> registry_ok k) \<and>
    (if map_of (registry (kern s)) (name_key name) \<noteq> None
     then \<exists>k. rt_device_register (Some d) name flags s = Some (- RT_ERROR, s\<lparr>kern := k\<rparr>) \<and>
       registry k = registry (kern s) \<and> registry_ok k
     else d \<notin> snd ` set (registry (kern s)) \<longrightarrow>
       (\<exists>s'. rt_device_register (Some d) name flags s = Some (RT_EOK, s') \<and>
         registry (kern s') = (name_key name, d) # registry (kern s) \<and> registry_ok (kern s') \<and>
         devices s' = (devices s)(d := (devices s d)\<lparr>d_flag := flags, d_ref_count := 0\<rparr>))) \<and>
    (d \<in> snd ` set (registry (kern s)) \<longrightarrow>
      (\<exists>k. rt_device_unregister (Some d) s = Some (RT_EOK, s\<lparr>kern := k\<rparr>) \<and> registry_ok k \<and>
        registry k = filter (\<lambda>e. snd e \<noteq> d) (registry (kern s))))"
proof -
  obtain k where k: "rt_device_find name s = Some (map_of (registry (kern s)) (name_key name), s\<lparr>kern := k\<rparr>)"
      "same_registry (kern s) k"
    by (rule rt_device_find_spec [OF assms])
  note same = same_registryD(1,2) [OF k(2)]
  have taken: "rt_device_register (Some d) name flags s = Some (- RT_ERROR, s\<lparr>kern := k\<rparr>)"
    if "map_of (registry (kern s)) (name_key name) \<noteq> None"
    using that k(1) by (auto simp: rt_device_register_def)
  show ?thesis
  proof (intro conjI)
    show "\<exists>k. rt_device_find name s = Some (map_of (registry (kern s)) (name_key name), s\<lparr>kern := k\<rparr>) \<and>
        registry k = registry (kern s) \<and> registry_ok k"
      using k(1) same assms(1) by blast
  qed (use taken same assms(1) rt_device_register_spec [OF assms] rt_device_unregister_spec [OF assms(1)]
      in \<open>simp del: not_None_eq; blast\<close>)+
qed

theorem device_registry_witness:
  "\<exists>s'. rt_device_register (Some 7) (map of_char ''uart1'' @ [0]) 3 (demo_io ()) = Some (RT_EOK, s') \<and>
    registry (kern s') = [(map of_char ''uart1'', 7)]"
proof -
  have ok: "registry_ok (kern (demo_io ()))"
    using demo_inv by (auto simp: registry_ok_def critical_ok_def registry_def demo_io_def intro: exI [of _ 10])
  have "0 \<in> set (map of_char ''uart1'' @ [0 :: u8])" by simp
  from device_registry [OF ok this, of 7 3] show ?thesis by (auto simp: registry_def demo_io_def)
qed

text \<open>
  Property C20.
  With a device as console, \<open>rt_kprintf\<close> makes one write to the driver, while the device is in
  stream mode: the text the format asks for, cut after 254 characters and then followed by its
  NUL. Afterwards the flags of the device and all else are as before; of the memory
  at most the buffer has changed.\<close>

theorem rt_kprintf_correct:
  assumes "rt_log_buf B + 255 \<le> 2 ^ 32"
    and "format_text fmt args (mem s) = Some (y, reads)" "reads \<inter> {rt_log_buf B..<rt_log_buf B + 255} = {}"
    and "console_device s = Some c" "d_ref_count (devices s c) \<noteq> 0" "d_write (devices s c) = Some f"
    and "\<And>n t. call_write B f c 0 (rt_log_buf B) n t = Some (n, t\<lparr>hw := hw t @
      [(d_flag (devices t c), map (mem t) [rt_log_buf B..<rt_log_buf B + unat n])]\<rparr>)"
  shows "\<exists>m. rt_kprintf B fmt args s = Some (s\<lparr>mem := m, hw := hw s @
      [(d_flag (devices s c) OR RT_DEVICE_FLAG_STREAM, take 254 y @ (if 254 < length y then [0] else []))]\<rparr>) \<and>
    (\<forall>a. a < rt_log_buf B \<or> rt_log_buf B + 255 \<le> a \<longrightarrow> m a = mem s a)"
  by (rule rt_kprintf_run [OF assms])

definition printing_board :: "(u16 \<times> u8 list) list board" where
  "printing_board = \<lparr>
     call_init = (\<lambda>f d s. Some (RT_EOK, s)), call_open = (\<lambda>f d oflag s. Some (RT_EOK, s)),
     call_close = (\<lambda>f d s. Some (RT_EOK, s)), call_read = (\<lambda>f d pos b n s. Some (0, s)),
     call_write = (\<lambda>f d pos b n s. Some (n, s\<lparr>hw := hw s @ [(d_flag (devices s d), map (mem s) [b..<b + unat n])]\<rparr>)),
     call_control = (\<lambda>f d cmd arg s. Some (RT_EOK, s)), hw_console_output = (\<lambda>b s. Some s),
     rt_log_buf = 1000\<rparr>"

theorem rt_kprintf_correct_witness:
  "\<exists>m. rt_kprintf printing_board (map of_char ''%d!'' @ [0]) [- 7]
      ((demo_io [])\<lparr>console_device := Some 7, devices := (\<lambda>_. demo_device\<lparr>d_ref_count := 1\<rparr>)\<rparr>) =
    Some ((demo_io [(0x04b, map of_char ''-7!'')])\<lparr>console_device := Some 7,
      devices := (\<lambda>_. demo_device\<lparr>d_ref_count := 1\<rparr>), mem := m\<rparr>)"
proof -
  let ?s = "(demo_io [])\<lparr>console_device := Some 7, devices := (\<lambda>_. demo_device\<lparr>d_ref_count := 1\<rparr>)\<rparr>"
  have tx: "format_text (map of_char ''%d!'' @ [0]) [- 7] (mem ?s) = Some (map of_char ''-7!'', {})"
    by (simp add: directive_text_def number_field_def number_sign_def arg_number_def small_digits_def
        number_text.simps isdigit8_def Let_def)
  have buf: "rt_log_buf printing_board + 255 \<le> 2 ^ 32"
      "{} \<inter> {rt_log_buf printing_board..<rt_log_buf printing_board + 255} = {}"
    by (simp_all add: printing_board_def)
  have con: "console_device ?s = Some 7" "d_ref_count (devices ?s 7) \<noteq> 0" "d_write (devices ?s 7) = Some 4"
    by (simp_all add: demo_device_def)
  have drv: "call_write printing_board 4 7 0 (rt_log_buf printing_board) n t = Some (n, t\<lparr>hw := hw t @
      [(d_flag (devices t 7), map (mem t) [rt_log_buf printing_board..<rt_log_buf printing_board + unat n])]\<rparr>)" for n t
    by (simp add: printing_board_def)
  from rt_kprintf_correct [OF buf(1) tx buf(2) con drv] show ?thesis
    by (auto simp: demo_io_def demo_device_def)
qed

subsection \<open>Initialising all devices\<close>

definition needs_init :: "rt_device \<Rightarrow> bool" where
  "needs_init v \<longleftrightarrow> d_init v \<noteq> None \<and> d_flag v AND RT_DEVICE_FLAG_ACTIVATED = 0"

definition initialised :: "nat list \<Rightarrow> nat list io_state \<Rightarrow> nat list io_state" where
  "initialised ds s = s\<lparr>hw := hw s @ filter (\<lambda>d. needs_init (devices s d)) ds,
     devices := (\<lambda>d. if d \<in> set ds \<and> needs_init (devices s d)
       then (devices s d)\<lparr>d_flag := d_flag (devices s d) OR RT_DEVICE_FLAG_ACTIVATED\<rparr> else devices s d)\<rparr>"

lemma next_node_app:
  "distinct (xs @ b # ys) \<Longrightarrow>
   next_node b (xs @ b # ys) = (case ys of [] \<Rightarrow> None | y # _ \<Rightarrow> Some y)"
proof (induction xs)
  case (Cons x xs)
  then show ?case by auto
qed simp

lemma initialised_Cons:
  assumes "d \<notin> set ds"
  shows "initialised (d # ds) s = initialised ds (initialised [d] s)"
proof -
  have "filter (\<lambda>e. needs_init (devices (initialised [d] s) e)) ds = filter (\<lambda>e. needs_init (devices s e)) ds"
    using assms by (intro filter_cong refl) (auto simp: initialised_def)
  moreover have "devices (initialised ds (initialised [d] s)) = devices (initialised (d # ds) s)"
    using assms by (auto simp: initialised_def fun_eq_iff)
  ultimately show ?thesis by (simp add: initialised_def)
qed

lemma init_from_correct:
  assumes drv: "\<And>f d t. call_init B f d t = Some (RT_EOK, t\<lparr>hw := hw t @ [d]\<rparr>)"
    and "object_lists (kern s) ClassDevice = map ObjDevice (xs @ ys)" "distinct (xs @ ys)"
  shows "init_from B (case ys of [] \<Rightarrow> None | d # _ \<Rightarrow> Some (ObjDevice d)) s = Some (initialised ys s)"
  using assms(2,3)
proof (induction ys arbitrary: xs s)
  case Nil
  then show ?case by (simp add: init_from.simps initialised_def)
next
  case (Cons d ys)
  have one: "init_one B d s = Some (initialised [d] s)"
    by (auto simp: init_one_def initialised_def needs_init_def drv device_count fun_eq_iff split: option.splits)
  have kern: "kern (initialised [d] s) = kern s" by (simp add: initialised_def)
  have "distinct (map ObjDevice (xs @ d # ys))"
    using Cons.prems(2) unfolding distinct_map by (simp add: inj_on_def)
  then have nxt: "next_node (ObjDevice d) (map ObjDevice (xs @ d # ys)) =
      (case ys of [] \<Rightarrow> None | d # _ \<Rightarrow> Some (ObjDevice d))"
    unfolding map_append list.map by (subst next_node_app) (simp_all split: list.splits)
  have "init_from B (case ys of [] \<Rightarrow> None | d # _ \<Rightarrow> Some (ObjDevice d)) (initialised [d] s) =
      Some (initialised ys (initialised [d] s))"
    by (rule Cons.IH [of _ "xs @ [d]"]) (use Cons.prems in \<open>simp_all add: kern\<close>)
  moreover have "initialised (d # ys) s = initialised ys (initialised [d] s)"
    by (rule initialised_Cons) (use Cons.prems(2) in simp)
  moreover have "init_from B (Some (ObjDevice d)) s =
      init_from B (next_node (ObjDevice d) (map ObjDevice (xs @ d # ys))) (initialised [d] s)"
    by (subst init_from.simps) (simp add: one kern Cons.prems(1) del: map_append)
  ultimately show ?case by (simp only: nxt list.case)
qed

text \<open>
  \<open>rt_device_init_all\<close> ends and calls the driver's init function once for each registered device
  that has one and is not yet activated, in the order of the list, and marks exactly those as
  activated, when the drivers accept and leave the registry alone.\<close>

theorem rt_device_init_all_correct:
  assumes "\<And>f d t. call_init B f d t = Some (RT_EOK, t\<lparr>hw := hw t @ [d]\<rparr>)"
    and "object_lists (kern s) ClassDevice = map ObjDevice ds" "distinct ds"
  shows "rt_device_init_all B s = Some (RT_EOK, initialised ds s)"
  using init_from_correct [OF assms(1), of s "[]" ds] assms(2,3)
  by (cases ds) (simp_all add: rt_device_init_all_def)

definition naming_board :: "nat list board" where
  "naming_board = \<lparr>
     call_init = (\<lambda>f d s. Some (RT_EOK, s\<lparr>hw := hw s @ [d]\<rparr>)), call_open = (\<lambda>f d oflag s. Some (RT_EOK, s)),
     call_close = (\<lambda>f d s. Some (RT_EOK, s)), call_read = (\<lambda>f d pos b n s. Some (0, s)),
     call_write = (\<lambda>f d pos b n s. Some (0, s)), call_control = (\<lambda>f d cmd arg s. Some (RT_EOK, s)),
     hw_console_output = (\<lambda>b s. Some s), rt_log_buf = 1000\<rparr>"

theorem rt_device_init_all_correct_witness:
  "map_option (\<lambda>(r, s). (r, hw s, d_flag (devices s 9))) (rt_device_init_all naming_board
     ((demo_io [])\<lparr>kern := demo\<lparr>object_lists := (\<lambda>_. [ObjDevice 7, ObjDevice 9])\<rparr>\<rparr>)) =
   Some (RT_EOK, [7, 9], 0x01b)"
proof -
  let ?s = "(demo_io [])\<lparr>kern := demo\<lparr>object_lists := (\<lambda>_. [ObjDevice 7, ObjDevice 9])\<rparr>\<rparr>"
  have drv: "call_init naming_board f d t = Some (RT_EOK, t\<lparr>hw := hw t @ [d]\<rparr>)" for f d t
    by (simp add: naming_board_def)
  have ds: "object_lists (kern ?s) ClassDevice = map ObjDevice [7, 9]" "distinct [7 :: nat, 9]" by simp_all
  show ?thesis unfolding rt_device_init_all_correct [OF drv ds]
    by (simp add: initialised_def needs_init_def demo_io_def demo_device_def)
qed

subsection \<open>What a driver that refuses leaves behind\<close>

text \<open>An open that the driver refuses is counted as a user; a last close that it refuses leaves the
  device without users and marked as open, so that a stand-alone device is busy from then on.\<close>

lemma refused_open_counts:
  assumes "bit (d_flag (devices s d)) 4" "d_ref_count (devices s d) = 0" "\<not> bit (d_open_flag (devices s d)) 3"
    and "d_open (devices s d) = Some f" "\<And>t. call_open B f d oflag t = Some (- RT_ERROR, t)"
  shows "rt_device_open B (Some d) oflag s =
    Some (- RT_ERROR, device_at d (\<lambda>v. v\<lparr>d_ref_count := 1\<rparr>) s)"
  using assms by (simp add: rt_device_open_def open_active_def device_flag_bits device_count)

lemma refused_close_locks:
  assumes "bit (d_flag (devices s d)) 3" "bit (d_flag (devices s d)) 4" "d_ref_count (devices s d) = 1"
    "bit (d_open_flag (devices s d)) 3"
    and "d_close (devices s d) = Some f" "\<And>t. call_close B f d t = Some (- RT_ERROR, t)"
  shows "device_run B d [CloseDev, OpenDev oflag] s =
    Some ([- RT_ERROR, - RT_EBUSY], device_at d (\<lambda>v. v\<lparr>d_ref_count := 0\<rparr>) s)"
  using assms
  by (simp add: rt_device_open_def rt_device_close_def open_active_def device_flag_bits device_count)

end
