(* ===== verification/RtTimer.thy ===== *)
theory RtTimer
  imports RtObject
begin

text \<open>
  The timers of \<^verbatim>\<open>src/timer.c\<close>: a list in the order of the ticks the timers run out at, with
  the skip list at its one configured level, and no soft timers (\<open>RT_USING_TIMER_SOFT\<close> is off).
  Ticks are 32-bit and wrap around, so two of them are compared through their difference.
  The loop of \<open>rt_timer_check\<close> calls back into the threads and is in the theory of the clock.
\<close>

subsection \<open>Operations\<close>

definition timer_flag :: "timer_id \<Rightarrow> kstate \<Rightarrow> u8" where
  "timer_flag x s = o_flag (objects s (ObjTimer x))"

definition set_timer_flag :: "timer_id \<Rightarrow> u8 \<Rightarrow> kstate \<Rightarrow> kstate" where
  "set_timer_flag x f s = object_at (ObjTimer x) (o_flag_update (\<lambda>_. f)) s"

definition timer_init ::
  "timer_id \<Rightarrow> timeout_func \<Rightarrow> nat \<Rightarrow> rt_tick_t \<Rightarrow> u8 \<Rightarrow> kstate \<Rightarrow> kstate" where
  "timer_init x func param time flag s =
     timer_at x (\<lambda>_. \<lparr>tm_timeout_func = func, tm_parameter = param, tm_init_tick = time,
                      tm_timeout_tick = 0\<rparr>)
       (set_timer_flag x (flag AND NOT RT_TIMER_FLAG_ACTIVATED) s)"

definition timer_list_next_timeout :: "timer_id list \<Rightarrow> kstate \<Rightarrow> rt_tick_t" where
  "timer_list_next_timeout l s =
     (case l of [] \<Rightarrow> RT_TICK_MAX | x # _ \<Rightarrow> tm_timeout_tick (timers s x))"

definition timer_remove :: "timer_id \<Rightarrow> kstate \<Rightarrow> kstate" where
  "timer_remove x s = s\<lparr>rt_timer_list := remove1 x (rt_timer_list s)\<rparr>"

definition rt_timer_init ::
  "timer_id \<Rightarrow> u8 list \<Rightarrow> timeout_func \<Rightarrow> nat \<Rightarrow> rt_tick_t \<Rightarrow> u8 \<Rightarrow> kstate \<Rightarrow> kstate option" where
  "rt_timer_init x name func param time flag s =
     do { s1 \<leftarrow> rt_object_init (ObjTimer x) name s;
          Some (timer_init x func param time flag s1) }"

definition rt_timer_detach :: "timer_id \<Rightarrow> kstate \<Rightarrow> kstate" where
  "rt_timer_detach x s = rt_object_detach (ObjTimer x) (timer_remove x s)"

definition rt_timer_create ::
  "u8 list \<Rightarrow> timeout_func \<Rightarrow> nat \<Rightarrow> rt_tick_t \<Rightarrow> u8 \<Rightarrow> kstate \<Rightarrow> (nat option \<times> kstate) option" where
  "rt_timer_create name func param time flag s =
     do { (r, s1) \<leftarrow> rt_object_allocate (\<lambda>a. ObjTimer (Timer a)) name s;
          (case r of
             None \<Rightarrow> Some (None, s1)
           | Some a \<Rightarrow> Some (Some a, timer_init (Timer a) func param time flag s1)) }"

definition rt_timer_delete :: "timer_id \<Rightarrow> kstate \<Rightarrow> (rt_err_t \<times> kstate) option" where
  "rt_timer_delete x s =
     do { s1 \<leftarrow> rt_object_delete (ObjTimer x) (timer_remove x s); Some (- RT_EOK, s1) }"

text \<open>The walk to the place of a timer that runs out at \<open>new\<close>: past the timers that run out
  before or at the same tick.\<close>

primrec timer_list_insert ::
  "(timer_id \<Rightarrow> rt_tick_t) \<Rightarrow> timer_id \<Rightarrow> timer_id list \<Rightarrow> timer_id list" where
  "timer_list_insert tick x [] = [x]"
| "timer_list_insert tick x (t # ts) =
     (if tick t - tick x = 0 then t # timer_list_insert tick x ts
      else if tick t - tick x < RT_TICK_MAX div 2 then x # t # ts
      else t # timer_list_insert tick x ts)"

definition rt_timer_start :: "timer_id \<Rightarrow> kstate \<Rightarrow> (rt_err_t \<times> kstate) option" where
  "rt_timer_start x s =
     (if timer_flag x s AND RT_TIMER_FLAG_ACTIVATED \<noteq> 0 then Some (- RT_ERROR, s)
      else RT_ASSERT (tm_init_tick (timers s x) < RT_TICK_MAX div 2)
        (let s1 = timer_at x (tm_timeout_tick_update (\<lambda>_. rt_tick s + tm_init_tick (timers s x))) s;
             s2 = s1\<lparr>rt_timer_list :=
                    timer_list_insert (\<lambda>t. tm_timeout_tick (timers s1 t)) x (rt_timer_list s1)\<rparr>
         in Some (- RT_EOK, set_timer_flag x (timer_flag x s2 OR RT_TIMER_FLAG_ACTIVATED) s2)))"

definition rt_timer_stop :: "timer_id \<Rightarrow> kstate \<Rightarrow> rt_err_t \<times> kstate" where
  "rt_timer_stop x s =
     (if timer_flag x s AND RT_TIMER_FLAG_ACTIVATED = 0 then (- RT_ERROR, s)
      else (RT_EOK, set_timer_flag x (timer_flag x s AND NOT RT_TIMER_FLAG_ACTIVATED) (timer_remove x s)))"

text \<open>\<open>rt_timer_control\<close>: the tick its argument points at comes in and goes out.\<close>

definition rt_timer_control :: "timer_id \<Rightarrow> u8 \<Rightarrow> rt_tick_t \<Rightarrow> kstate \<Rightarrow> rt_tick_t \<times> kstate" where
  "rt_timer_control x cmd arg s =
     (if cmd = 0x1 then (tm_init_tick (timers s x), s)
      else if cmd = 0x0 then (arg, timer_at x (tm_init_tick_update (\<lambda>_. arg)) s)
      else if cmd = 0x2 then (arg, set_timer_flag x (timer_flag x s AND NOT RT_TIMER_FLAG_PERIODIC) s)
      else if cmd = 0x3 then (arg, set_timer_flag x (timer_flag x s OR RT_TIMER_FLAG_PERIODIC) s)
      else (arg, s))"

abbreviation RT_TIMER_CTRL_SET_TIME :: u8 where "RT_TIMER_CTRL_SET_TIME \<equiv> 0x0"

definition rt_timer_next_timeout_tick :: "kstate \<Rightarrow> rt_tick_t" where
  "rt_timer_next_timeout_tick s = timer_list_next_timeout (rt_timer_list s) s"

definition rt_system_timer_init :: "kstate \<Rightarrow> kstate" where
  "rt_system_timer_init s = s\<lparr>rt_timer_list := []\<rparr>"

subsection \<open>Flags\<close>

definition activated :: "kstate \<Rightarrow> timer_id \<Rightarrow> bool" where
  "activated s x \<longleftrightarrow> timer_flag x s AND RT_TIMER_FLAG_ACTIVATED \<noteq> 0"

definition periodic :: "kstate \<Rightarrow> timer_id \<Rightarrow> bool" where
  "periodic s x \<longleftrightarrow> timer_flag x s AND RT_TIMER_FLAG_PERIODIC \<noteq> 0"

lemma flag_bits:
  "f AND (RT_TIMER_FLAG_ACTIVATED) \<noteq> 0 \<longleftrightarrow> bit f 0" "f AND RT_TIMER_FLAG_PERIODIC \<noteq> 0 \<longleftrightarrow> bit f 1"
proof -
  have "f AND push_bit k 1 \<noteq> 0 \<longleftrightarrow> bit f k" if "k < 8" for k and f :: u8
  proof
    assume "f AND push_bit k 1 \<noteq> 0"
    then obtain n where "bit (f AND push_bit k 1) n" by (metis bit_word_eqI bit_0_eq bot_apply bot_bool_def)
    then show "bit f k" by (auto simp: bit_simps)
  next
    assume "bit f k"
    then have "bit (f AND push_bit k 1) k" using that by (simp add: bit_simps)
    then show "f AND push_bit k 1 \<noteq> 0" by force
  qed
  from this [of 0] this [of 1]
  show "f AND RT_TIMER_FLAG_ACTIVATED \<noteq> 0 \<longleftrightarrow> bit f 0" "f AND RT_TIMER_FLAG_PERIODIC \<noteq> 0 \<longleftrightarrow> bit f 1"
    by (simp_all add: push_bit_eq_mult)
qed

lemma activated_bit: "activated s x \<longleftrightarrow> bit (timer_flag x s) 0"
  and periodic_bit: "periodic s x \<longleftrightarrow> bit (timer_flag x s) 1"
  by (simp_all only: activated_def periodic_def flag_bits)

lemma flag_updates [simp]:
  "bit (f OR (1 :: u8)) 0" "bit (f OR (1 :: u8)) (Suc 0) \<longleftrightarrow> bit f (Suc 0)"
  "\<not> bit (f AND NOT (1 :: u8)) 0" "bit (f AND NOT (1 :: u8)) (Suc 0) \<longleftrightarrow> bit f (Suc 0)"
  by (auto simp: bit_simps)

lemma set_timer_flag_simps [simp]:
  "timer_flag y (set_timer_flag x f s) = (if y = x then f else timer_flag y s)"
  "tlists (set_timer_flag x f s) = tlists s" "threads (set_timer_flag x f s) = threads s"
  "rt_thread_ready_priority_group (set_timer_flag x f s) = rt_thread_ready_priority_group s"
  "rt_timer_list (set_timer_flag x f s) = rt_timer_list s" "timers (set_timer_flag x f s) = timers s"
  "rt_tick (set_timer_flag x f s) = rt_tick s"
  "rt_current_thread (set_timer_flag x f s) = rt_current_thread s"
  "rt_interrupt_nest (set_timer_flag x f s) = rt_interrupt_nest s"
  "rt_scheduler_lock_nest (set_timer_flag x f s) = rt_scheduler_lock_nest s"
  by (simp_all add: set_timer_flag_def timer_flag_def)

lemma timer_flag_frame [simp]:
  "timer_flag x (s\<lparr>rt_timer_list := l\<rparr>) = timer_flag x s" "timer_flag x (s\<lparr>timers := t\<rparr>) = timer_flag x s"
  "timer_flag x (s\<lparr>threads := th\<rparr>) = timer_flag x s" "timer_flag x (s\<lparr>tlists := L\<rparr>) = timer_flag x s"
  "timer_flag x (s\<lparr>rt_thread_ready_priority_group := g\<rparr>) = timer_flag x s"
  "timer_flag x (s\<lparr>rt_tick := k\<rparr>) = timer_flag x s" "timer_flag x (s\<lparr>rt_current_thread := c\<rparr>) = timer_flag x s"
  "timer_flag x (s\<lparr>frames := fs\<rparr>) = timer_flag x s"
  "timer_flag x (container_insert b s) = timer_flag x s" "timer_flag x (container_remove b s) = timer_flag x s"
  by (simp_all add: timer_flag_def)

lemma timer_remove_simps [simp]:
  "rt_timer_list (timer_remove x s) = remove1 x (rt_timer_list s)"
  "tlists (timer_remove x s) = tlists s" "threads (timer_remove x s) = threads s"
  "rt_thread_ready_priority_group (timer_remove x s) = rt_thread_ready_priority_group s"
  "timers (timer_remove x s) = timers s" "timer_flag y (timer_remove x s) = timer_flag y s"
  "rt_tick (timer_remove x s) = rt_tick s"
  "rt_current_thread (timer_remove x s) = rt_current_thread s"
  "rt_interrupt_nest (timer_remove x s) = rt_interrupt_nest s"
  "rt_scheduler_lock_nest (timer_remove x s) = rt_scheduler_lock_nest s"
  by (simp_all add: timer_remove_def)

subsection \<open>The order of the list\<close>

text \<open>
  Seen from a tick \<open>b\<close> that lies no later than any timeout on the list, and with all of them
  less than half the range of the ticks away, the list is sorted by the distance from \<open>b\<close>.
\<close>

definition window :: "rt_tick_t \<Rightarrow> (timer_id \<Rightarrow> rt_tick_t) \<Rightarrow> timer_id list \<Rightarrow> bool" where
  "window b tick l \<longleftrightarrow> (\<forall>x \<in> set l. tick x - b < RT_TICK_MAX div 2)"

definition in_order :: "rt_tick_t \<Rightarrow> (timer_id \<Rightarrow> rt_tick_t) \<Rightarrow> timer_id list \<Rightarrow> bool" where
  "in_order b tick l \<longleftrightarrow> sorted (map (\<lambda>x. unat (tick x - b)) l)"

lemma half_ticks: "RT_TICK_MAX div 2 = 0x7fffffff"
  by (simp add: RT_TICK_MAX_def)

lemma tick_diff:
  fixes a b c :: u32
  assumes "a - b < 0x7fffffff" "c - b < 0x7fffffff"
  shows "a - c = 0 \<longleftrightarrow> unat (a - b) = unat (c - b)"
    "a - c \<noteq> 0 \<Longrightarrow> a - c < 0x7fffffff \<longleftrightarrow> unat (c - b) < unat (a - b)"
proof -
  define x y where "x = a - b" and "y = c - b"
  have e: "a - c = x - y" by (simp add: x_def y_def)
  have xy: "x < 0x7fffffff" "y < 0x7fffffff" using assms by (simp_all add: x_def y_def)
  show "a - c = 0 \<longleftrightarrow> unat (a - b) = unat (c - b)"
    by (metis e right_minus_eq x_def y_def word_unat_eq_iff)
  have bx: "unat x < 0x7fffffff" "unat y < 0x7fffffff"
    using xy by (simp_all add: word_less_nat_alt)
  show "a - c < 0x7fffffff \<longleftrightarrow> unat (c - b) < unat (a - b)" if "a - c \<noteq> 0"
  proof -
    have "unat x \<noteq> unat y" using that e by (metis right_minus_eq word_unat_eq_iff)
    then show ?thesis using bx unfolding e word_less_nat_alt x_def [symmetric] y_def [symmetric]
      by (cases "unat y \<le> unat x") (simp_all add: unat_sub_if')
  qed
qed

text \<open>The walk is an insertion into a sorted list, behind the timers that run out at the same tick.\<close>

lemma timer_list_insert_set [simp]: "set (timer_list_insert tick x l) = insert x (set l)"
  by (induction l) auto

lemma timer_list_insert_distinct [simp]:
  "distinct (timer_list_insert tick x l) \<longleftrightarrow> x \<notin> set l \<and> distinct l"
  by (induction l) auto

lemma timer_list_insert_split:
  assumes "window b tick (x # l)"
  shows "timer_list_insert tick x l =
    takeWhile (\<lambda>y. unat (tick y - b) \<le> unat (tick x - b)) l @ x #
    dropWhile (\<lambda>y. unat (tick y - b) \<le> unat (tick x - b)) l"
  using assms
proof (induction l)
  case (Cons t ts)
  then have w: "tick t - b < 0x7fffffff" "tick x - b < 0x7fffffff" "window b tick (x # ts)"
    by (auto simp: window_def half_ticks)
  note d = tick_diff [OF w(1,2)]
  show ?case using Cons.IH [OF w(3)] d by (cases "tick t - tick x = 0") (auto simp: half_ticks)
qed simp

lemma timer_list_insert_in_order:
  assumes "window b tick (x # l)" "in_order b tick l"
  shows "in_order b tick (timer_list_insert tick x l)"
proof -
  let ?k = "\<lambda>y. unat (tick y - b)" and ?P = "\<lambda>y. unat (tick y - b) \<le> unat (tick x - b)"
  have "sorted (map ?k (takeWhile ?P l @ dropWhile ?P l))" using assms(2) by (simp add: in_order_def)
  then have s: "sorted (map ?k (takeWhile ?P l))" "sorted (map ?k (dropWhile ?P l))"
    unfolding map_append sorted_append by blast+
  have "?k y \<le> ?k x" if "y \<in> set (takeWhile ?P l)" for y using set_takeWhileD [OF that] by simp
  moreover have "?k x \<le> ?k y" if "y \<in> set (dropWhile ?P l)" for y
  proof (cases "dropWhile ?P l")
    case (Cons z zs)
    then have "?k x \<le> ?k z" using hd_dropWhile [of ?P l] by simp
    also have "?k z \<le> ?k y" using s(2) that unfolding Cons by auto
    finally show ?thesis .
  next
    case Nil
    from that show ?thesis unfolding Nil by simp
  qed
  ultimately show ?thesis
    unfolding in_order_def timer_list_insert_split [OF assms(1)] using s
    by (auto simp: sorted_append intro: order_trans)
qed

lemma in_order_remove1: "in_order b tick l \<Longrightarrow> in_order b tick (remove1 x l)"
proof (induction l)
  case (Cons y ys)
  then show ?case using set_remove1_subset [of x ys] by (fastforce simp: in_order_def)
qed simp

lemma in_order_cong:
  "(\<And>y. y \<in> set l \<Longrightarrow> tick' y = tick y) \<Longrightarrow> in_order b tick' l = in_order b tick l"
  unfolding in_order_def by (metis (no_types, lifting) map_cong)

lemma timer_list_insert_cong:
  "(\<And>y. y \<in> insert x (set l) \<Longrightarrow> tick' y = tick y) \<Longrightarrow> timer_list_insert tick' x l = timer_list_insert tick x l"
  by (induction l) auto

subsection \<open>The invariant of the timers\<close>

text \<open>A thread's own timer is one-shot and calls \<open>rt_thread_timeout\<close> with that thread; it is on
  the list only while the thread is suspended.\<close>

definition own_timer_ok :: "kstate \<Rightarrow> nat \<Rightarrow> bool" where
  "own_timer_ok s t \<longleftrightarrow> tm_timeout_func (timers s (ThreadTimer t)) = TimeoutThread \<and>
     tm_parameter (timers s (ThreadTimer t)) = t \<and> \<not> bit (timer_flag (ThreadTimer t) s) 1"

definition timer_inv :: "kstate \<Rightarrow> bool" where
  "timer_inv s \<longleftrightarrow> distinct (rt_timer_list s) \<and>
     (\<forall>x \<in> set (rt_timer_list s). bit (timer_flag x s) 0) \<and>
     (\<forall>t. ThreadTimer t \<in> set (rt_timer_list s) \<longrightarrow> stat s t = RT_THREAD_SUSPEND) \<and>
     (\<forall>t. started (stat s t) \<longrightarrow> own_timer_ok s t)"

lemma timer_invD:
  assumes "timer_inv s"
  shows "distinct (rt_timer_list s)" "\<And>x. x \<in> set (rt_timer_list s) \<Longrightarrow> bit (timer_flag x s) 0"
    "\<And>t. ThreadTimer t \<in> set (rt_timer_list s) \<Longrightarrow> stat s t = RT_THREAD_SUSPEND"
    "\<And>t. started (stat s t) \<Longrightarrow> own_timer_ok s t"
  using assms unfolding timer_inv_def by blast+

end
