(* ===== verification/RtThread.thy ===== *)
theory RtThread
  imports RtTimer
begin

text \<open>
  The threads of \<^verbatim>\<open>src/thread.c\<close>: their life from initialisation to closing, suspension and
  resumption, sleeping, yielding and the change of priority. A call that switches the
  caller out is in two parts: up to \<open>rt_schedule\<close>, leaving a \<open>frame\<close> that says where the caller
  is, and from there on, when the caller runs again.
\<close>

subsection \<open>Operations\<close>

definition rt_thread_suspend :: "nat \<Rightarrow> kstate \<Rightarrow> (rt_err_t \<times> kstate) option" where
  "rt_thread_suspend t s =
     (if stat s t \<noteq> RT_THREAD_READY then Some (- RT_ERROR, s)
      else do {
        s1 \<leftarrow> rt_schedule_remove_thread t (thread_at t (t_stat_update (\<lambda>_. RT_THREAD_SUSPEND)) s);
        Some (RT_EOK, s1) })"

definition rt_thread_resume :: "nat \<Rightarrow> kstate \<Rightarrow> (rt_err_t \<times> kstate) option" where
  "rt_thread_resume t s =
     (if stat s t \<noteq> RT_THREAD_SUSPEND then Some (- RT_ERROR, s)
      else do {
        let s1 = lists_at (tl_remove t) s;
        let s2 = snd (rt_timer_stop (ThreadTimer t) s1);
        s3 \<leftarrow> rt_schedule_insert_thread t s2;
        Some (RT_EOK, s3) })"

definition rt_thread_timeout :: "nat \<Rightarrow> kstate \<Rightarrow> kstate option" where
  "rt_thread_timeout t s =
     RT_ASSERT (stat s t = RT_THREAD_SUSPEND)
       (do {
          let s1 = thread_at t (t_error_update (\<lambda>_. - RT_ETIMEOUT)) s;
          let s2 = lists_at (tl_remove t) s1;
          s3 \<leftarrow> rt_schedule_insert_thread t s2;
          rt_schedule s3 })"

definition rt_thread_exit :: "kstate \<Rightarrow> kstate option" where
  "rt_thread_exit s =
     do {
       t \<leftarrow> rt_current_thread s;
       s1 \<leftarrow> rt_schedule_remove_thread t s;
       let s2 = thread_at t (t_stat_update (\<lambda>_. RT_THREAD_CLOSE)) s1;
       let s3 = rt_timer_detach (ThreadTimer t) s2;
       let s4 = (if rt_object_is_systemobject (ObjThread t) s3 \<and> t_cleanup (threads s3 t) = None
                 then rt_object_detach (ObjThread t) s3
                 else lists_at (tl_insert_after Defunct t) s3);
       rt_schedule s4 }"

text \<open>\<open>rt_hw_stack_init\<close> of the Cortex-M3 port: where the first stack pointer of a thread lies.\<close>

definition rt_hw_stack_init :: "nat \<Rightarrow> nat" where
  "rt_hw_stack_init stack_addr =
     (let stk = (of_nat stack_addr :: u32) + 4;
          stk = RT_ALIGN_DOWN stk 8;
          stk = stk - 64
      in unat stk)"

definition thread_init ::
  "nat \<Rightarrow> nat \<Rightarrow> nat \<Rightarrow> nat \<Rightarrow> u32 \<Rightarrow> u8 \<Rightarrow> u32 \<Rightarrow> kstate \<Rightarrow> (rt_err_t \<times> kstate) option" where
  "thread_init t entry param stack_start stack_size priority tick s =
     RT_ASSERT (unat priority < RT_THREAD_PRIORITY_MAX)
       (do {
          let s1 = thread_at t (\<lambda>th. th\<lparr>
               t_entry := entry, t_parameter := param, t_stack_addr := stack_start,
               t_stack_size := ucast stack_size,
               t_sp := rt_hw_stack_init (stack_start + unat (ucast stack_size :: u16) - 4),
               t_init_priority := priority, t_current_priority := priority,
               t_init_tick := tick, t_remaining_tick := tick, t_error := RT_EOK,
               t_stat := RT_THREAD_INIT, t_cleanup := None, t_user_data := 0\<rparr>) s;
          s2 \<leftarrow> rt_timer_init (ThreadTimer t) (o_name (objects s1 (ObjThread t))) TimeoutThread t 0 0 s1;
          Some (RT_EOK, s2) })"

definition rt_thread_init ::
  "nat \<Rightarrow> u8 list \<Rightarrow> nat \<Rightarrow> nat \<Rightarrow> nat \<Rightarrow> u32 \<Rightarrow> u8 \<Rightarrow> u32 \<Rightarrow> kstate \<Rightarrow> (rt_err_t \<times> kstate) option" where
  "rt_thread_init t name entry param stack_start stack_size priority tick s =
     RT_ASSERT (stack_start \<noteq> 0)
       (do {
          s1 \<leftarrow> rt_object_init (ObjThread t) name s;
          thread_init t entry param stack_start stack_size priority tick s1 })"

definition rt_thread_create ::
  "u8 list \<Rightarrow> nat \<Rightarrow> nat \<Rightarrow> u32 \<Rightarrow> u8 \<Rightarrow> u32 \<Rightarrow> kstate \<Rightarrow> (nat option \<times> kstate) option" where
  "rt_thread_create name entry param stack_size priority tick s =
     do {
       (r, s1) \<leftarrow> rt_object_allocate ObjThread name s;
       (case r of
          None \<Rightarrow> Some (None, s1)
        | Some t \<Rightarrow> do {
            (st, s2) \<leftarrow> k_malloc stack_size s1;
            (case st of
               None \<Rightarrow> do { s3 \<leftarrow> rt_object_delete (ObjThread t) s2; Some (None, s3) }
             | Some a \<Rightarrow> do {
                 (_, s3) \<leftarrow> thread_init t entry param a stack_size priority tick s2;
                 Some (Some t, s3) }) }) }"

definition rt_thread_startup :: "nat \<Rightarrow> kstate \<Rightarrow> (rt_err_t \<times> kstate) option" where
  "rt_thread_startup t s =
     RT_ASSERT (stat s t = RT_THREAD_INIT)
       (do {
          let s1 = thread_at t (\<lambda>th. th\<lparr>t_current_priority := t_init_priority th\<rparr>) s;
          let s2 = thread_at t (\<lambda>th. th\<lparr>t_number_mask := push_bit (unat (t_current_priority th)) 1\<rparr>) s1;
          let s3 = thread_at t (t_stat_update (\<lambda>_. RT_THREAD_SUSPEND)) s2;
          (_, s4) \<leftarrow> rt_thread_resume t s3;
          s5 \<leftarrow> (if rt_thread_self s4 \<noteq> None then rt_schedule s4 else Some s4);
          Some (RT_EOK, s5) })"

definition rt_thread_detach :: "nat \<Rightarrow> kstate \<Rightarrow> (rt_err_t \<times> kstate) option" where
  "rt_thread_detach t s =
     do {
       s1 \<leftarrow> rt_schedule_remove_thread t s;
       let s2 = rt_timer_detach (ThreadTimer t) s1;
       let s3 = thread_at t (t_stat_update (\<lambda>_. RT_THREAD_CLOSE)) s2;
       let s4 = rt_object_detach (ObjThread t) s3;
       let s5 = (if t_cleanup (threads s4 t) \<noteq> None then lists_at (tl_insert_after Defunct t) s4 else s4);
       Some (RT_EOK, s5) }"

definition rt_thread_delete :: "nat \<Rightarrow> kstate \<Rightarrow> (rt_err_t \<times> kstate) option" where
  "rt_thread_delete t s =
     do {
       s1 \<leftarrow> rt_schedule_remove_thread t s;
       let s2 = rt_timer_detach (ThreadTimer t) s1;
       let s3 = thread_at t (t_stat_update (\<lambda>_. RT_THREAD_CLOSE)) s2;
       Some (RT_EOK, lists_at (tl_insert_after Defunct t) s3) }"

text \<open>The neighbours of a ready thread's node differ exactly when its list holds another thread.\<close>

definition rt_thread_yield :: "kstate \<Rightarrow> (rt_err_t \<times> kstate) option" where
  "rt_thread_yield s =
     do {
       t \<leftarrow> rt_current_thread s;
       let q = Ready (unat (prio s t));
       if stat s t = RT_THREAD_READY \<and> length (tlists s q) > 1
       then do {
         let s1 = lists_at (tl_remove t) s;
         let s2 = lists_at (tl_insert_before q t) s1;
         s3 \<leftarrow> rt_schedule s2;
         Some (RT_EOK, s3) }
       else Some (RT_EOK, s) }"

definition rt_thread_sleep :: "rt_tick_t \<Rightarrow> kstate \<Rightarrow> kstate option" where
  "rt_thread_sleep tick s =
     do {
       t \<leftarrow> rt_current_thread s;
       (_, s1) \<leftarrow> rt_thread_suspend t s;
       let s2 = snd (rt_timer_control (ThreadTimer t) RT_TIMER_CTRL_SET_TIME tick s1);
       (_, s3) \<leftarrow> rt_timer_start (ThreadTimer t) s2;
       rt_schedule (s3\<lparr>frames := (frames s3)(t := Some InSleep)\<rparr>) }"

definition rt_thread_sleep_wake :: "nat \<Rightarrow> kstate \<Rightarrow> rt_err_t \<times> kstate" where
  "rt_thread_sleep_wake t s =
     (let s1 = s\<lparr>frames := (frames s)(t := None)\<rparr>
      in (RT_EOK, if t_error (threads s1 t) = - RT_ETIMEOUT
                  then thread_at t (t_error_update (\<lambda>_. RT_EOK)) s1 else s1))"

definition rt_thread_delay :: "rt_tick_t \<Rightarrow> kstate \<Rightarrow> kstate option" where
  "rt_thread_delay tick s = rt_thread_sleep tick s"

definition set_priority :: "nat \<Rightarrow> u8 \<Rightarrow> kstate \<Rightarrow> kstate" where
  "set_priority t p s = thread_at t (\<lambda>th. th\<lparr>t_current_priority := p, t_number_mask := push_bit (unat p) 1\<rparr>) s"

definition change_priority :: "nat \<Rightarrow> u8 \<Rightarrow> kstate \<Rightarrow> kstate option" where
  "change_priority t p s =
     (if stat s t = RT_THREAD_READY
      then do {
        s1 \<leftarrow> rt_schedule_remove_thread t s;
        rt_schedule_insert_thread t (set_priority t p s1) }
      else Some (set_priority t p s))"

abbreviation RT_THREAD_CTRL_STARTUP :: u8 where "RT_THREAD_CTRL_STARTUP \<equiv> 0x0"
abbreviation RT_THREAD_CTRL_CLOSE :: u8 where "RT_THREAD_CTRL_CLOSE \<equiv> 0x1"
abbreviation RT_THREAD_CTRL_CHANGE_PRIORITY :: u8 where "RT_THREAD_CTRL_CHANGE_PRIORITY \<equiv> 0x2"

definition rt_thread_control :: "nat \<Rightarrow> u8 \<Rightarrow> u8 \<Rightarrow> kstate \<Rightarrow> (rt_err_t \<times> kstate) option" where
  "rt_thread_control t cmd arg s =
     (if cmd = RT_THREAD_CTRL_CHANGE_PRIORITY
      then do { s1 \<leftarrow> change_priority t arg s; Some (RT_EOK, s1) }
      else if cmd = RT_THREAD_CTRL_STARTUP then rt_thread_startup t s
      else if cmd = RT_THREAD_CTRL_CLOSE then rt_thread_delete t s
      else Some (RT_EOK, s))"

definition rt_thread_find :: "u8 list \<Rightarrow> kstate \<Rightarrow> (object_id option \<times> kstate) option" where
  "rt_thread_find name s =
     do {
       let s1 = (if rt_thread_self s \<noteq> None then rt_enter_critical s else s);
       r \<leftarrow> find_by_name name (object_lists s1 ClassThread) s1;
       s2 \<leftarrow> (if rt_thread_self s1 \<noteq> None then rt_exit_critical s1 else Some s1);
       Some (r, s2) }"

subsection \<open>The invariant of the kernel's threads\<close>

definition stacks_ok :: "kstate \<Rightarrow> bool" where
  "stacks_ok s \<longleftrightarrow> (\<forall>t. started (stat s t) \<longrightarrow> stack_ok (threads s t))"

definition kinv :: "kstate \<Rightarrow> bool" where
  "kinv s \<longleftrightarrow> sched_inv s \<and> timer_inv s \<and> stacks_ok s"

lemma kinvD: "kinv s \<Longrightarrow> sched_inv s" "kinv s \<Longrightarrow> timer_inv s" "kinv s \<Longrightarrow> stacks_ok s"
  by (simp_all add: kinv_def)

text \<open>What the operations on threads and timers leave alone.\<close>

definition kframe :: "kstate \<Rightarrow> kstate \<Rightarrow> bool" where
  "kframe s s' \<longleftrightarrow> rt_tick s' = rt_tick s \<and> rt_interrupt_nest s' = rt_interrupt_nest s \<and>
     rt_scheduler_lock_nest s' = rt_scheduler_lock_nest s \<and>
     semaphores s' = semaphores s \<and> mutexes s' = mutexes s \<and> events s' = events s \<and>
     mailboxes s' = mailboxes s \<and> messagequeues s' = messagequeues s \<and> mempools s' = mempools s \<and>
     mp_words s' = mp_words s \<and> heap s' = heap s"

lemma kframeD:
  assumes "kframe s s'"
  shows "rt_tick s' = rt_tick s" "rt_interrupt_nest s' = rt_interrupt_nest s"
    "rt_scheduler_lock_nest s' = rt_scheduler_lock_nest s"
    "semaphores s' = semaphores s" "mutexes s' = mutexes s" "events s' = events s"
    "mailboxes s' = mailboxes s" "messagequeues s' = messagequeues s" "mempools s' = mempools s"
    "mp_words s' = mp_words s" "heap s' = heap s"
  using assms unfolding kframe_def by blast+

lemma kframe_refl [simp]: "kframe s s"
  by (simp add: kframe_def)

lemma kframe_trans: "kframe s s1 \<Longrightarrow> kframe s1 s2 \<Longrightarrow> kframe s s2"
  by (simp add: kframe_def)

lemma kframe_upd [simp]:
  "kframe s (s'\<lparr>threads := th\<rparr>) = kframe s s'" "kframe s (s'\<lparr>tlists := L\<rparr>) = kframe s s'"
  "kframe s (s'\<lparr>rt_thread_ready_priority_group := g\<rparr>) = kframe s s'"
  "kframe s (s'\<lparr>rt_current_thread := c\<rparr>) = kframe s s'" "kframe s (s'\<lparr>rt_current_priority := p\<rparr>) = kframe s s'"
  "kframe s (s'\<lparr>rt_timer_list := l\<rparr>) = kframe s s'" "kframe s (s'\<lparr>timers := tm\<rparr>) = kframe s s'"
  "kframe s (s'\<lparr>objects := b\<rparr>) = kframe s s'" "kframe s (s'\<lparr>object_lists := bl\<rparr>) = kframe s s'"
  "kframe s (s'\<lparr>frames := f\<rparr>) = kframe s s'"
  "kframe s (set_timer_flag x fl s') = kframe s s'" "kframe s (timer_remove x s') = kframe s s'"
  "kframe s (container_remove ob s') = kframe s s'" "kframe s (container_insert ob s') = kframe s s'"
  by (simp_all add: kframe_def set_timer_flag_def timer_remove_def container_remove_def container_insert_def)

text \<open>The invariant does not read these fields.\<close>

lemma timer_inv_upd [simp]:
  "timer_inv (s\<lparr>tlists := L\<rparr>) = timer_inv s" "timer_inv (s\<lparr>rt_thread_ready_priority_group := g\<rparr>) = timer_inv s"
  "timer_inv (s\<lparr>rt_current_thread := c\<rparr>) = timer_inv s" "timer_inv (s\<lparr>rt_current_priority := p\<rparr>) = timer_inv s"
  "timer_inv (s\<lparr>frames := f\<rparr>) = timer_inv s" "timer_inv (s\<lparr>rt_tick := k\<rparr>) = timer_inv s"
  "timer_inv (s\<lparr>rt_interrupt_nest := n\<rparr>) = timer_inv s"
  "timer_inv (s\<lparr>rt_scheduler_lock_nest := l\<rparr>) = timer_inv s"
  "timer_inv (s\<lparr>semaphores := sm\<rparr>) = timer_inv s" "timer_inv (s\<lparr>mutexes := mu\<rparr>) = timer_inv s"
  "timer_inv (s\<lparr>events := ev\<rparr>) = timer_inv s" "timer_inv (s\<lparr>mailboxes := mb\<rparr>) = timer_inv s"
  "timer_inv (s\<lparr>messagequeues := mq\<rparr>) = timer_inv s" "timer_inv (s\<lparr>mempools := mp\<rparr>) = timer_inv s"
  "timer_inv (s\<lparr>mp_words := w\<rparr>) = timer_inv s" "timer_inv (s\<lparr>heap := h\<rparr>) = timer_inv s"
  "timer_inv (s\<lparr>object_lists := ol\<rparr>) = timer_inv s"
  by (simp_all add: timer_inv_def own_timer_ok_def timer_flag_def)

lemma kinv_upd [simp]:
  "kinv (s\<lparr>rt_current_thread := c\<rparr>) = kinv s" "kinv (s\<lparr>rt_current_priority := p\<rparr>) = kinv s"
  "kinv (s\<lparr>frames := f\<rparr>) = kinv s" "kinv (s\<lparr>rt_tick := k\<rparr>) = kinv s"
  "kinv (s\<lparr>rt_interrupt_nest := n\<rparr>) = kinv s" "kinv (s\<lparr>rt_scheduler_lock_nest := l\<rparr>) = kinv s"
  "kinv (s\<lparr>semaphores := sm\<rparr>) = kinv s" "kinv (s\<lparr>mutexes := mu\<rparr>) = kinv s"
  "kinv (s\<lparr>events := ev\<rparr>) = kinv s" "kinv (s\<lparr>mailboxes := mb\<rparr>) = kinv s"
  "kinv (s\<lparr>messagequeues := mq\<rparr>) = kinv s" "kinv (s\<lparr>mempools := mp\<rparr>) = kinv s"
  "kinv (s\<lparr>mp_words := w\<rparr>) = kinv s" "kinv (s\<lparr>heap := h\<rparr>) = kinv s"
  "kinv (s\<lparr>object_lists := ol\<rparr>) = kinv s"
  by (simp_all add: kinv_def stacks_ok_def)

subsection \<open>Timers under the invariant\<close>

lemma flag_clear [simp]:
  "\<not> bit (f AND - 2 :: u8) 0" "bit (f AND - 2 :: u8) (Suc 0) \<longleftrightarrow> bit f (Suc 0)"
proof -
  have e: "(- 2 :: u8) = NOT 1" by simp
  show "\<not> bit (f AND - 2 :: u8) 0" "bit (f AND - 2 :: u8) (Suc 0) \<longleftrightarrow> bit f (Suc 0)"
    unfolding e by (rule flag_updates)+
qed

lemma timer_inv_threads:
  assumes "\<And>t. t_stat (th t) = stat s t"
  shows "timer_inv (s\<lparr>threads := th\<rparr>) = timer_inv s"
  using assms by (simp add: timer_inv_def own_timer_ok_def)

lemma own_timer_frame:
  "timers s' (ThreadTimer t) = timers s (ThreadTimer t) \<Longrightarrow>
   bit (timer_flag (ThreadTimer t) s') 1 = bit (timer_flag (ThreadTimer t) s) 1 \<Longrightarrow>
   own_timer_ok s' t = own_timer_ok s t"
  by (simp add: own_timer_ok_def)

lemma timer_inv_remove:
  assumes "timer_inv s"
  shows "timer_inv (timer_remove x s)"
proof -
  note D = timer_invD [OF assms]
  have "own_timer_ok (timer_remove x s) t = own_timer_ok s t" for t by (simp add: own_timer_ok_def)
  then show ?thesis
    using D unfolding timer_inv_def by (auto dest: notin_set_remove1 [THEN notE])
qed

lemma timer_inv_clear:
  assumes "timer_inv s" "x \<notin> set (rt_timer_list s)"
  shows "timer_inv (set_timer_flag x (timer_flag x s AND NOT RT_TIMER_FLAG_ACTIVATED) s)"
proof -
  note D = timer_invD [OF assms(1)]
  have "own_timer_ok (set_timer_flag x (timer_flag x s AND NOT RT_TIMER_FLAG_ACTIVATED) s) t = own_timer_ok s t"
    for t by (rule own_timer_frame) simp_all
  then show ?thesis
    using D assms(2) unfolding timer_inv_def by auto
qed

text \<open>\<open>rt_timer_stop\<close> takes the timer off the list whether or not it was on it.\<close>

lemma rt_timer_stop_eq:
  assumes "timer_inv s"
  obtains fl r where "rt_timer_stop x s = (r, set_timer_flag x fl (timer_remove x s))"
    "timer_inv (set_timer_flag x fl (timer_remove x s))" "\<not> bit fl 0" "bit fl 1 = bit (timer_flag x s) 1"
proof (cases "bit (timer_flag x s) 0")
  case True
  then have a: "\<not> timer_flag x s AND RT_TIMER_FLAG_ACTIVATED = 0" using flag_bits(1) by blast
  let ?fl = "timer_flag x s AND NOT RT_TIMER_FLAG_ACTIVATED"
  have "timer_inv (set_timer_flag x ?fl (timer_remove x s))"
    using timer_inv_clear [OF timer_inv_remove [OF assms, of x], of x] timer_invD(1) [OF assms] by simp
  then show thesis using a by (intro that [of _ ?fl]) (simp_all add: rt_timer_stop_def)
next
  case False
  then have a: "timer_flag x s AND RT_TIMER_FLAG_ACTIVATED = 0" using flag_bits(1) by blast
  have "x \<notin> set (rt_timer_list s)" using False timer_invD(2) [OF assms] by blast
  then have "timer_remove x s = s" by (simp add: timer_remove_def remove1_idem)
  moreover have "set_timer_flag x (timer_flag x s) s = s"
    by (simp add: set_timer_flag_def timer_flag_def fun_upd_idem)
  ultimately show thesis using a False assms by (intro that [of _ "timer_flag x s"]) (simp_all add: rt_timer_stop_def)
qed

lemma rt_timer_start_spec:
  assumes inv: "timer_inv s" and own: "\<And>t. x = ThreadTimer t \<Longrightarrow> stat s t = RT_THREAD_SUSPEND"
    and tick: "tm_init_tick (timers s x) < RT_TICK_MAX div 2"
  obtains (running) "activated s x" "rt_timer_start x s = Some (- RT_ERROR, s)"
  | (started) fl where "\<not> activated s x" "x \<notin> set (rt_timer_list s)" "bit fl 0" "bit fl 1 = bit (timer_flag x s) 1"
      "rt_timer_start x s = Some (RT_EOK, set_timer_flag x fl
         (s\<lparr>timers := (timers s)(x := (timers s x)\<lparr>tm_timeout_tick := rt_tick s + tm_init_tick (timers s x)\<rparr>),
            rt_timer_list := timer_list_insert (\<lambda>t. tm_timeout_tick (((timers s)(x := (timers s x)
              \<lparr>tm_timeout_tick := rt_tick s + tm_init_tick (timers s x)\<rparr>)) t)) x (rt_timer_list s)\<rparr>))"
      "timer_inv (set_timer_flag x fl
         (s\<lparr>timers := (timers s)(x := (timers s x)\<lparr>tm_timeout_tick := rt_tick s + tm_init_tick (timers s x)\<rparr>),
            rt_timer_list := timer_list_insert (\<lambda>t. tm_timeout_tick (((timers s)(x := (timers s x)
              \<lparr>tm_timeout_tick := rt_tick s + tm_init_tick (timers s x)\<rparr>)) t)) x (rt_timer_list s)\<rparr>))"
proof (cases "bit (timer_flag x s) 0")
  case True
  then have "timer_flag x s AND RT_TIMER_FLAG_ACTIVATED \<noteq> 0" using flag_bits(1) by blast
  then show thesis by (intro running) (simp_all add: rt_timer_start_def activated_def)
next
  case False
  then have a: "timer_flag x s AND RT_TIMER_FLAG_ACTIVATED = 0" using flag_bits(1) by blast
  note D = timer_invD [OF inv]
  have nx: "x \<notin> set (rt_timer_list s)" using False D(2) by blast
  let ?fl = "timer_flag x s OR RT_TIMER_FLAG_ACTIVATED"
  let ?tm = "(timers s)(x := (timers s x)\<lparr>tm_timeout_tick := rt_tick s + tm_init_tick (timers s x)\<rparr>)"
  let ?s = "s\<lparr>timers := ?tm, rt_timer_list :=
      timer_list_insert (\<lambda>t. tm_timeout_tick (?tm t)) x (rt_timer_list s)\<rparr>"
  have "own_timer_ok (set_timer_flag x ?fl ?s) t" if "started (stat s t)" for t
    using D(4) [OF that] by (auto simp: own_timer_ok_def)
  then have "timer_inv (set_timer_flag x ?fl ?s)"
    using D nx own unfolding timer_inv_def by auto
  then show thesis using a nx tick by (intro started [of ?fl]) (simp_all add: rt_timer_start_def activated_def)
qed


subsection \<open>Suspending and resuming\<close>

lemma mask_ok_stat [simp]: "mask_ok (th\<lparr>t_stat := x\<rparr>) = mask_ok th"
  by (simp add: mask_ok_def)

lemma stack_ok_stat [simp]: "stack_ok (th\<lparr>t_stat := x\<rparr>) = stack_ok th"
  by (simp add: stack_ok_def)

lemma kinv_mask: "kinv s \<Longrightarrow> started (stat s t) \<Longrightarrow> mask_ok (threads s t)"
  using sched_okD(4) [OF kinvD(1)] by blast

lemma rt_thread_suspend_spec:
  assumes inv: "kinv s" and r: "stat s t = RT_THREAD_READY"
  obtains g where "rt_thread_suspend t s = Some (RT_EOK, s\<lparr>
      threads := (threads s)(t := (threads s t)\<lparr>t_stat := RT_THREAD_SUSPEND\<rparr>),
      tlists := tl_remove t (tlists s), rt_thread_ready_priority_group := g\<rparr>)"
    "kinv (s\<lparr>threads := (threads s)(t := (threads s t)\<lparr>t_stat := RT_THREAD_SUSPEND\<rparr>),
      tlists := tl_remove t (tlists s), rt_thread_ready_priority_group := g\<rparr>)"
    "unlinked t (tl_remove t (tlists s))"
proof -
  note K = kinvD [OF inv]
  have mask: "mask_ok (threads s t)" using kinv_mask [OF inv] r by simp
  obtain s' where s': "unready t s = Some s'" "sched_inv s'" "unlinked t (tlists s')"
    "threads s' = (threads s)(t := (threads s t)\<lparr>t_stat := RT_THREAD_SUSPEND\<rparr>)"
    "s' = s\<lparr>threads := threads s', tlists := tlists s',
       rt_thread_ready_priority_group := rt_thread_ready_priority_group s'\<rparr>"
    "tlists s' = tl_remove t (tlists s)"
    using unready_inv [OF K(1) mask] by blast
  let ?g = "rt_thread_ready_priority_group s'"
  let ?s = "s\<lparr>threads := (threads s)(t := (threads s t)\<lparr>t_stat := RT_THREAD_SUSPEND\<rparr>),
      tlists := tl_remove t (tlists s), rt_thread_ready_priority_group := ?g\<rparr>"
  have e: "s' = ?s" using s'(4-6) by metis
  have "timer_inv ?s"
    using K(2) r by (auto simp: timer_inv_def own_timer_ok_def)
  moreover have "stacks_ok ?s" using K(3) r by (auto simp: stacks_ok_def)
  ultimately have "kinv ?s" using s'(2) e unfolding kinv_def by metis
  then show thesis using s'(1,3,6) e r
    by (intro that [of ?g]) (simp_all add: rt_thread_suspend_def unready_def)
qed

lemma ready_inv:
  assumes inv: "kinv s" and st: "stat s t = RT_THREAD_SUSPEND" and u: "unlinked t (tlists s)"
    and nt: "ThreadTimer t \<notin> set (rt_timer_list s)"
  obtains g where "rt_schedule_insert_thread t s = Some (s\<lparr>
      threads := (threads s)(t := (threads s t)\<lparr>t_stat := RT_THREAD_READY\<rparr>),
      tlists := tl_insert_before (Ready (unat (prio s t))) t (tlists s),
      rt_thread_ready_priority_group := g\<rparr>)"
    "kinv (s\<lparr>threads := (threads s)(t := (threads s t)\<lparr>t_stat := RT_THREAD_READY\<rparr>),
      tlists := tl_insert_before (Ready (unat (prio s t))) t (tlists s),
      rt_thread_ready_priority_group := g\<rparr>)"
proof -
  note K = kinvD [OF inv]
  have mask: "mask_ok (threads s t)" using kinv_mask [OF inv] st by simp
  let ?g = "rt_thread_ready_priority_group s OR t_number_mask (threads s t)"
  let ?s = "s\<lparr>threads := (threads s)(t := (threads s t)\<lparr>t_stat := RT_THREAD_READY\<rparr>),
      tlists := tl_insert_before (Ready (unat (prio s t))) t (tlists s),
      rt_thread_ready_priority_group := ?g\<rparr>"
  have "timer_inv ?s"
    using K(2) nt st by (auto simp: timer_inv_def own_timer_ok_def)
  moreover have "stacks_ok ?s" using K(3) st by (auto simp: stacks_ok_def)
  moreover have "sched_inv ?s" using sched_ok_ready [OF K(1) u mask] by simp
  ultimately have "kinv ?s" unfolding kinv_def by blast
  then show thesis using rt_schedule_insert_thread_eq [OF mask] by (intro that [of ?g]) simp_all
qed

lemma kinv_unwait:
  assumes inv: "kinv s" and nr: "stat s t \<noteq> RT_THREAD_READY"
  shows "kinv (s\<lparr>tlists := tl_remove t (tlists s)\<rparr>)" "unlinked t (tl_remove t (tlists s))"
proof -
  note K = kinvD [OF inv] and U = sched_ok_unwait [OF kinvD(1) [OF inv], of t]
  show "unlinked t (tl_remove t (tlists s))" using U(2) nr .
  show "kinv (s\<lparr>tlists := tl_remove t (tlists s)\<rparr>)"
    using K U(1) nr unfolding kinv_def by (simp add: stacks_ok_def)
qed

lemma kinv_timer_stop:
  assumes inv: "kinv s"
  obtains r fl where "rt_timer_stop x s = (r, set_timer_flag x fl (timer_remove x s))"
    "kinv (set_timer_flag x fl (timer_remove x s))"
proof -
  note K = kinvD [OF inv]
  obtain fl r where f: "rt_timer_stop x s = (r, set_timer_flag x fl (timer_remove x s))"
    "timer_inv (set_timer_flag x fl (timer_remove x s))"
    using rt_timer_stop_eq [OF K(2), of x] by metis
  then show thesis using K by (intro that [OF f(1)]) (simp add: kinv_def stacks_ok_def)
qed

text \<open>Resuming a suspended thread: it leaves its waiting list, its timer stops, and it goes to
  the end of the ready list of its priority.\<close>

lemma rt_thread_resume_spec:
  assumes inv: "kinv s" and st: "stat s t = RT_THREAD_SUSPEND"
  obtains s' where "rt_thread_resume t s = Some (RT_EOK, s')" "kinv s'" "kframe s s'"
    "threads s' = (threads s)(t := (threads s t)\<lparr>t_stat := RT_THREAD_READY\<rparr>)"
    "tlists s' = tl_insert_before (Ready (unat (prio s t))) t (tl_remove t (tlists s))"
    "rt_timer_list s' = remove1 (ThreadTimer t) (rt_timer_list s)" "timers s' = timers s"
    "rt_current_thread s' = rt_current_thread s" "frames s' = frames s"
    "object_lists s' = object_lists s"
    "\<And>b. b \<noteq> ObjTimer (ThreadTimer t) \<Longrightarrow> objects s' b = objects s b"
proof -
  let ?s1 = "s\<lparr>tlists := tl_remove t (tlists s)\<rparr>"
  have u: "kinv ?s1" "unlinked t (tl_remove t (tlists s))" using kinv_unwait [OF inv, of t] st by simp_all
  obtain r fl where f: "rt_timer_stop (ThreadTimer t) ?s1 =
      (r, set_timer_flag (ThreadTimer t) fl (timer_remove (ThreadTimer t) ?s1))"
    "kinv (set_timer_flag (ThreadTimer t) fl (timer_remove (ThreadTimer t) ?s1))" (is "kinv ?s2")
    using kinv_timer_stop [OF u(1), of "ThreadTimer t"] by metis
  have d: "distinct (rt_timer_list s)" using timer_invD(1) [OF kinvD(2) [OF inv]] .
  obtain g where g: "rt_schedule_insert_thread t ?s2 = Some (?s2\<lparr>
      threads := (threads ?s2)(t := (threads ?s2 t)\<lparr>t_stat := RT_THREAD_READY\<rparr>),
      tlists := tl_insert_before (Ready (unat (prio ?s2 t))) t (tlists ?s2),
      rt_thread_ready_priority_group := g\<rparr>)" (is "_ = Some ?s3")
    "kinv (?s2\<lparr>threads := (threads ?s2)(t := (threads ?s2 t)\<lparr>t_stat := RT_THREAD_READY\<rparr>),
      tlists := tl_insert_before (Ready (unat (prio ?s2 t))) t (tlists ?s2),
      rt_thread_ready_priority_group := g\<rparr>)"
    using ready_inv [OF f(2), of t] st u(2) d by auto
  have "rt_thread_resume t s = Some (RT_EOK, ?s3)"
    using f(1) g(1) st by (simp add: rt_thread_resume_def)
  then show thesis
    by (rule that [OF _ g(2)]) (simp_all add: set_timer_flag_def timer_remove_def)
qed

lemma rt_thread_resume_not_suspended:
  "stat s t \<noteq> RT_THREAD_SUSPEND \<Longrightarrow> rt_thread_resume t s = Some (- RT_ERROR, s)"
  by (simp add: rt_thread_resume_def)

subsection \<open>Scheduling under the invariant\<close>

lemma kinv_schedule:
  assumes inv: "kinv s" and r: "stat s u = RT_THREAD_READY" and c: "rt_current_thread s = Some c"
  obtains c' p where "rt_schedule s = Some (s\<lparr>rt_current_thread := Some c', rt_current_priority := p\<rparr>)"
    "kinv (s\<lparr>rt_current_thread := Some c', rt_current_priority := p\<rparr>)"
    "if rt_scheduler_lock_nest s = 0 then highest_ready s c' else c' = c"
proof -
  have stk: "stack_ok (threads s v)" if "stat s v = RT_THREAD_READY" for v
    using kinvD(3) [OF inv] that by (auto simp: stacks_ok_def)
  show thesis
  proof (rule rt_schedule_spec [OF kinvD(1) [OF inv] r c stk])
    assume "rt_scheduler_lock_nest s \<noteq> 0" "rt_schedule s = Some s"
    then show thesis using c inv by (intro that [of "rt_current_priority s" c]) simp_all
  next
    fix to p assume "rt_scheduler_lock_nest s = 0" "highest_ready s to"
      "rt_schedule s = Some (s\<lparr>rt_current_thread := Some to, rt_current_priority := p\<rparr>)"
    then show thesis using inv by (intro that [of p to]) simp_all
  qed
qed

lemma highest_ready_upd [simp]:
  "highest_ready (s\<lparr>rt_current_thread := c\<rparr>) t = highest_ready s t"
  "highest_ready (s\<lparr>rt_current_priority := p\<rparr>) t = highest_ready s t"
  "highest_ready (s\<lparr>frames := f\<rparr>) t = highest_ready s t"
  by (simp_all add: highest_ready_def)

lemma timer_inv_cong:
  assumes "rt_timer_list s' = rt_timer_list s" "\<And>x. timer_flag x s' = timer_flag x s"
    "timers s' = timers s" "\<And>t. stat s' t = stat s t"
  shows "timer_inv s' = timer_inv s"
  using assms by (simp add: timer_inv_def own_timer_ok_def)

text \<open>A thread whose wait ran out becomes ready with the error \<open>-RT_ETIMEOUT\<close>.\<close>

lemma rt_thread_timeout_spec:
  assumes inv: "kinv s" and st: "stat s t = RT_THREAD_SUSPEND"
    and nt: "ThreadTimer t \<notin> set (rt_timer_list s)" and c: "rt_current_thread s = Some c"
  obtains s' c' where "rt_thread_timeout t s = Some s'" "kinv s'" "kframe s s'"
    "threads s' = (threads s)(t := (threads s t)\<lparr>t_error := - RT_ETIMEOUT, t_stat := RT_THREAD_READY\<rparr>)"
    "tlists s' = tl_insert_before (Ready (unat (prio s t))) t (tl_remove t (tlists s))"
    "rt_timer_list s' = rt_timer_list s" "timers s' = timers s" "objects s' = objects s"
    "frames s' = frames s" "rt_current_thread s' = Some c'"
    "if rt_scheduler_lock_nest s = 0 then highest_ready s' c' else c' = c"
    "object_lists s' = object_lists s"
proof -
  let ?s1 = "s\<lparr>threads := (threads s)(t := (threads s t)\<lparr>t_error := - RT_ETIMEOUT\<rparr>)\<rparr>"
  have "kinv ?s1"
    using inv timer_inv_threads [of "(threads s)(t := (threads s t)\<lparr>t_error := - RT_ETIMEOUT\<rparr>)" s]
    by (auto simp: kinv_def stacks_ok_def stack_ok_def)
  from kinv_unwait [OF this, of t] st
  have u: "kinv (?s1\<lparr>tlists := tl_remove t (tlists ?s1)\<rparr>)" (is "kinv ?s2")
    "unlinked t (tl_remove t (tlists s))" by simp_all
  have st2: "stat ?s2 t = RT_THREAD_SUSPEND" using st by simp
  obtain g where g: "rt_schedule_insert_thread t ?s2 = Some (?s2\<lparr>
      threads := (threads ?s2)(t := (threads ?s2 t)\<lparr>t_stat := RT_THREAD_READY\<rparr>),
      tlists := tl_insert_before (Ready (unat (prio ?s2 t))) t (tlists ?s2),
      rt_thread_ready_priority_group := g\<rparr>)" (is "_ = Some ?s3")
    "kinv (?s2\<lparr>threads := (threads ?s2)(t := (threads ?s2 t)\<lparr>t_stat := RT_THREAD_READY\<rparr>),
      tlists := tl_insert_before (Ready (unat (prio ?s2 t))) t (tlists ?s2),
      rt_thread_ready_priority_group := g\<rparr>)"
    using ready_inv [OF u(1) st2] u(2) nt by auto
  have r3: "stat ?s3 t = RT_THREAD_READY" and c3: "rt_current_thread ?s3 = Some c" using c by simp_all
  obtain c' p where sc: "rt_schedule ?s3 = Some (?s3\<lparr>rt_current_thread := Some c', rt_current_priority := p\<rparr>)"
    "kinv (?s3\<lparr>rt_current_thread := Some c', rt_current_priority := p\<rparr>)"
    "if rt_scheduler_lock_nest ?s3 = 0 then highest_ready ?s3 c' else c' = c"
    by (rule kinv_schedule [OF g(2) r3 c3])
  have "rt_thread_timeout t s = Some (?s3\<lparr>rt_current_thread := Some c', rt_current_priority := p\<rparr>)"
    using st g(1) sc(1) by (simp add: rt_thread_timeout_def)
  then show thesis
  proof (rule that [OF _ sc(2)])
    show "if rt_scheduler_lock_nest s = 0
      then highest_ready (?s3\<lparr>rt_current_thread := Some c', rt_current_priority := p\<rparr>) c' else c' = c"
      using sc(3) by (simp split: if_splits)
  qed simp_all
qed

subsection \<open>Closing a thread\<close>

lemma closed_inv:
  assumes inv: "kinv s" and st: "started (stat s t)"
  obtains g where "rt_schedule_remove_thread t s =
      Some (s\<lparr>tlists := tl_remove t (tlists s), rt_thread_ready_priority_group := g\<rparr>)"
    "sched_ok (tl_remove t (tlists s)) g ((threads s)(t := (threads s t)\<lparr>t_stat := RT_THREAD_CLOSE\<rparr>))"
    "sched_ok (tl_insert_after Defunct t (tl_remove t (tlists s))) g
      ((threads s)(t := (threads s t)\<lparr>t_stat := RT_THREAD_CLOSE\<rparr>))"
proof -
  note K = kinvD [OF inv]
  have mask: "mask_ok (threads s t)" using kinv_mask [OF inv st] .
  let ?th = "(threads s)(t := (threads s t)\<lparr>t_stat := RT_THREAD_CLOSE\<rparr>)"
  let ?g = "if tl_remove t (tlists s) (Ready (unat (prio s t))) = []
          then rt_thread_ready_priority_group s AND NOT (t_number_mask (threads s t))
          else rt_thread_ready_priority_group s"
  have u: "sched_ok (tl_remove t (tlists s)) ?g ?th" "unlinked t (tl_remove t (tlists s))"
    using sched_ok_unlink [OF K(1) mask, of ?th, OF _ _ _ refl] by simp_all
  show thesis
    by (rule that [OF rt_schedule_remove_thread_eq [OF mask] u(1)])
      (rule sched_ok_defunct [OF u(1,2)], simp)
qed

lemma closed_timer_inv:
  assumes "timer_inv s"
  shows "timer_inv ((timer_remove (ThreadTimer t) s)\<lparr>threads := (threads s)(t := (threads s t)\<lparr>t_stat := RT_THREAD_CLOSE\<rparr>)\<rparr>)"
proof -
  note D = timer_invD [OF timer_inv_remove [OF assms, of "ThreadTimer t"]]
  have "ThreadTimer t \<notin> set (remove1 (ThreadTimer t) (rt_timer_list s))"
    using timer_invD(1) [OF assms] by simp
  then show ?thesis using D unfolding timer_inv_def own_timer_ok_def by (auto split: if_splits)
qed

text \<open>\<open>rt_thread_delete\<close>: the thread is off every list it was on, its timer cannot run out any
  more, and it waits for the idle thread on the list of dead threads.\<close>

lemma rt_thread_delete_spec:
  assumes inv: "kinv s" and st: "started (stat s t)"
  obtains s' where "rt_thread_delete t s = Some (RT_EOK, s')" "kinv s'" "kframe s s'"
    "threads s' = (threads s)(t := (threads s t)\<lparr>t_stat := RT_THREAD_CLOSE\<rparr>)"
    "tlists s' = tl_insert_after Defunct t (tl_remove t (tlists s))"
    "rt_timer_list s' = remove1 (ThreadTimer t) (rt_timer_list s)"
    "rt_current_thread s' = rt_current_thread s" "frames s' = frames s"
proof -
  note K = kinvD [OF inv]
  obtain g where g: "rt_schedule_remove_thread t s =
      Some (s\<lparr>tlists := tl_remove t (tlists s), rt_thread_ready_priority_group := g\<rparr>)"
    "sched_ok (tl_insert_after Defunct t (tl_remove t (tlists s))) g
      ((threads s)(t := (threads s t)\<lparr>t_stat := RT_THREAD_CLOSE\<rparr>))"
    using closed_inv [OF inv st] by metis
  define s1 where "s1 = s\<lparr>tlists := tl_remove t (tlists s), rt_thread_ready_priority_group := g\<rparr>"
  have t1: "timer_inv s1" using K(2) by (simp add: s1_def)
  let ?s' = "(rt_object_detach (ObjTimer (ThreadTimer t)) (timer_remove (ThreadTimer t) s1))\<lparr>
      threads := (threads s)(t := (threads s t)\<lparr>t_stat := RT_THREAD_CLOSE\<rparr>),
      tlists := tl_insert_after Defunct t (tl_remove t (tlists s))\<rparr>"
  have e: "rt_thread_delete t s = Some (RT_EOK, ?s')"
    using g(1) by (simp add: rt_thread_delete_def rt_timer_detach_def rt_object_detach_def s1_def)
  have "timer_inv ?s'"
    using closed_timer_inv [OF t1, of t]
    by (rule timer_inv_cong [THEN iffD2, rotated -1]) (simp_all add: rt_object_detach_def s1_def)
  moreover have "stacks_ok ?s'" using K(3) by (simp add: stacks_ok_def)
  moreover have "sched_inv ?s'" using g(2) by (simp add: s1_def rt_object_detach_def)
  ultimately have "kinv ?s'" unfolding kinv_def by blast
  then show thesis
    by (rule that [OF e])
      (simp_all add: s1_def rt_object_detach_def container_remove_def timer_remove_def)
qed

text \<open>\<open>rt_thread_exit\<close>, when the thread's function returns: the thread is closed and another runs.\<close>

lemma rt_thread_exit_spec:
  assumes inv: "kinv s" and c: "rt_current_thread s = Some t" and st: "started (stat s t)"
    and u: "stat s u = RT_THREAD_READY" "u \<noteq> t"
  obtains s' c' where "rt_thread_exit s = Some s'" "kinv s'" "kframe s s'"
    "threads s' = (threads s)(t := (threads s t)\<lparr>t_stat := RT_THREAD_CLOSE\<rparr>)"
    "ThreadTimer t \<notin> set (rt_timer_list s')" "rt_current_thread s' = Some c'"
    "if rt_scheduler_lock_nest s = 0 then highest_ready s' c' else c' = t"
proof -
  note K = kinvD [OF inv]
  obtain g where g: "rt_schedule_remove_thread t s =
      Some (s\<lparr>tlists := tl_remove t (tlists s), rt_thread_ready_priority_group := g\<rparr>)"
    "sched_ok (tl_remove t (tlists s)) g ((threads s)(t := (threads s t)\<lparr>t_stat := RT_THREAD_CLOSE\<rparr>))"
    "sched_ok (tl_insert_after Defunct t (tl_remove t (tlists s))) g
      ((threads s)(t := (threads s t)\<lparr>t_stat := RT_THREAD_CLOSE\<rparr>))"
    using closed_inv [OF inv st] by metis
  define s1 where "s1 = s\<lparr>tlists := tl_remove t (tlists s), rt_thread_ready_priority_group := g\<rparr>"
  define s3 where "s3 = rt_timer_detach (ThreadTimer t)
      (s1\<lparr>threads := (threads s)(t := (threads s t)\<lparr>t_stat := RT_THREAD_CLOSE\<rparr>)\<rparr>)"
  define s4 where "s4 = (if rt_object_is_systemobject (ObjThread t) s3 \<and> t_cleanup (threads s3 t) = None
                 then rt_object_detach (ObjThread t) s3
                 else lists_at (tl_insert_after Defunct t) s3)"
  have t1: "timer_inv s1" using K(2) by (simp add: s1_def)
  have f3: "threads s3 = (threads s)(t := (threads s t)\<lparr>t_stat := RT_THREAD_CLOSE\<rparr>)"
    "tlists s3 = tl_remove t (tlists s)" "rt_thread_ready_priority_group s3 = g"
    "rt_timer_list s3 = remove1 (ThreadTimer t) (rt_timer_list s)" "kframe s s3"
    "rt_current_thread s3 = Some t"
    using c by (simp_all add: s3_def s1_def rt_timer_detach_def rt_object_detach_def)
  have "timer_inv s3"
    using closed_timer_inv [OF t1, of t]
    by (rule timer_inv_cong [THEN iffD2, rotated -1])
      (simp_all add: s3_def s1_def rt_timer_detach_def rt_object_detach_def)
  moreover have "stacks_ok s3" using K(3) by (simp add: stacks_ok_def f3)
  ultimately have k4: "kinv s4"
    using g(2,3) f3 unfolding kinv_def s4_def rt_object_detach_def
    by (simp add: stacks_ok_def container_remove_def)
  have f4: "threads s4 = threads s3" "rt_timer_list s4 = rt_timer_list s3" "kframe s s4"
    "rt_current_thread s4 = Some t"
    using f3 by (simp_all add: s4_def rt_object_detach_def)
  have ru: "stat s4 u = RT_THREAD_READY" using u by (simp add: f3 f4)
  obtain c' p where sc: "rt_schedule s4 = Some (s4\<lparr>rt_current_thread := Some c', rt_current_priority := p\<rparr>)"
    "kinv (s4\<lparr>rt_current_thread := Some c', rt_current_priority := p\<rparr>)"
    "if rt_scheduler_lock_nest s4 = 0 then highest_ready s4 c' else c' = t"
    by (rule kinv_schedule [OF k4 ru f4(4)])
  have e: "rt_thread_exit s = Some (s4\<lparr>rt_current_thread := Some c', rt_current_priority := p\<rparr>)"
  proof -
    have "rt_thread_exit s = rt_schedule s4"
      using g(1) c unfolding rt_thread_exit_def s4_def s3_def s1_def by (simp add: Let_def)
    with sc(1) show ?thesis by simp
  qed
  show thesis
  proof (rule that [OF e sc(2)])
    show "if rt_scheduler_lock_nest s = 0
      then highest_ready (s4\<lparr>rt_current_thread := Some c', rt_current_priority := p\<rparr>) c' else c' = t"
      using sc(3) kframeD(3) [OF f4(3)] by (simp split: if_splits)
  qed (use f3 f4 timer_invD(1) [OF K(2)] in simp_all)
qed

subsection \<open>Priorities and turns\<close>

lemma change_priority_spec:
  assumes inv: "kinv s" and p: "unat p < RT_THREAD_PRIORITY_MAX"
  shows "\<exists>s'. change_priority t p s = Some s' \<and> kinv s' \<and> kframe s s' \<and>
    threads s' = (threads s)(t := (threads s t)\<lparr>t_current_priority := p, t_number_mask := push_bit (unat p) 1\<rparr>) \<and>
    tlists s' = (if stat s t = RT_THREAD_READY
      then tl_insert_before (Ready (unat p)) t (tl_remove t (tlists s)) else tlists s) \<and>
    rt_timer_list s' = rt_timer_list s \<and> timers s' = timers s \<and> objects s' = objects s \<and>
    object_lists s' = object_lists s \<and> frames s' = frames s \<and> rt_current_thread s' = rt_current_thread s"
proof (cases "stat s t = RT_THREAD_READY")
  case True
  note K = kinvD [OF inv]
  have mask: "mask_ok (threads s t)" using kinv_mask [OF inv] True by simp
  let ?th = "(threads s t)\<lparr>t_current_priority := p, t_number_mask := push_bit (unat p) 1\<rparr>"
  let ?susp = "(threads s)(t := ?th\<lparr>t_stat := RT_THREAD_SUSPEND\<rparr>)"
  let ?g = "if tl_remove t (tlists s) (Ready (unat (prio s t))) = []
          then rt_thread_ready_priority_group s AND NOT (t_number_mask (threads s t))
          else rt_thread_ready_priority_group s"
  let ?s1 = "s\<lparr>tlists := tl_remove t (tlists s), rt_thread_ready_priority_group := ?g\<rparr>"
  have mth: "mask_ok ?th" using p by (simp add: mask_ok_def)
  have u: "sched_ok (tl_remove t (tlists s)) ?g ?susp" "unlinked t (tl_remove t (tlists s))"
    using sched_ok_unlink [OF K(1) mask, of ?susp, OF _ _ _ refl] mth by simp_all
  have e1: "rt_schedule_remove_thread t s = Some ?s1" by (rule rt_schedule_remove_thread_eq [OF mask])
  have m2: "mask_ok (threads (set_priority t p ?s1) t)" using mth by (simp add: set_priority_def)
  let ?s' = "s\<lparr>tlists := tl_insert_before (Ready (unat p)) t (tl_remove t (tlists s)),
      threads := (threads s)(t := ?th), rt_thread_ready_priority_group := ?g OR push_bit (unat p) 1\<rparr>"
  have th: "(threads s t)\<lparr>t_current_priority := p, t_number_mask := 2 ^ unat p, t_stat := RT_THREAD_READY\<rparr> =
      (threads s t)\<lparr>t_current_priority := p, t_number_mask := 2 ^ unat p\<rparr>"
    using True by simp
  have e: "change_priority t p s = Some ?s'"
    using True rt_schedule_insert_thread_eq [OF m2]
    by (simp add: change_priority_def e1 set_priority_def th)
  have "sched_ok (tl_insert_before (Ready (unat p)) t (tl_remove t (tlists s))) (?g OR push_bit (unat p) 1)
      (?susp(t := (?susp t)\<lparr>t_stat := RT_THREAD_READY\<rparr>))"
    using sched_ok_ready [OF u(1,2)] mth by simp
  moreover have "?susp(t := (?susp t)\<lparr>t_stat := RT_THREAD_READY\<rparr>) = (threads s)(t := ?th)"
    using th by simp
  ultimately have "sched_inv ?s'" by simp
  moreover have "timer_inv ?s'"
    using K(2) timer_inv_cong [of ?s' s] by (simp add: timer_flag_def)
  moreover have "stacks_ok ?s'" using K(3) by (simp add: stacks_ok_def stack_ok_def)
  ultimately have "kinv ?s'" by (simp add: kinv_def)
  then show ?thesis using e True by (intro exI [of _ ?s']) simp
next
  case False
  note K = kinvD [OF inv]
  let ?th = "(threads s t)\<lparr>t_current_priority := p, t_number_mask := push_bit (unat p) 1\<rparr>"
  let ?s' = "s\<lparr>threads := (threads s)(t := ?th)\<rparr>"
  note S = sched_okD [OF K(1)]
  have "queue_ok q ?th = queue_ok q (threads s t)" if "t \<in> set (tlists s q)" for q
    using S(2) [OF that] False by (cases q) auto
  then have "sched_inv ?s'"
    using K(1) False p unfolding sched_ok_def by (auto simp: mask_ok_def)
  moreover have "timer_inv ?s'"
    using K(2) timer_inv_cong [of ?s' s] by (simp add: timer_flag_def)
  moreover have "stacks_ok ?s'" using K(3) by (simp add: stacks_ok_def stack_ok_def)
  ultimately have "kinv ?s'" by (simp add: kinv_def)
  then show ?thesis using False by (intro exI [of _ ?s']) (simp add: change_priority_def set_priority_def)
qed

text \<open>A list with the same threads on each head.\<close>

lemma kinv_same_sets:
  assumes "kinv s" "wf_lists L" "\<And>q. set (L q) = set (tlists s q)"
  shows "kinv (s\<lparr>tlists := L\<rparr>)"
proof -
  have "L q = [] \<longleftrightarrow> tlists s q = []" for q using assms(3) [of q] by (metis set_empty)
  then have "sched_inv (s\<lparr>tlists := L\<rparr>)"
    using kinvD(1) [OF assms(1)] assms(2,3) by (simp add: sched_ok_def)
  then show ?thesis using kinvD(2,3) [OF assms(1)] by (simp add: kinv_def stacks_ok_def)
qed

lemma rt_thread_yield_spec:
  assumes inv: "kinv s" and c: "rt_current_thread s = Some t" and r: "stat s t = RT_THREAD_READY"
  defines "q \<equiv> Ready (unat (prio s t))"
  shows "\<exists>s' c'. rt_thread_yield s = Some (RT_EOK, s') \<and> kinv s' \<and> kframe s s' \<and> threads s' = threads s \<and>
    tlists s' = (if tlists s q = [t] then tlists s else (tlists s)(q := remove1 t (tlists s q) @ [t])) \<and>
    rt_timer_list s' = rt_timer_list s \<and> timers s' = timers s \<and> objects s' = objects s \<and>
    object_lists s' = object_lists s \<and> frames s' = frames s \<and> rt_current_thread s' = Some c' \<and>
    (if tlists s q \<noteq> [t] \<and> rt_scheduler_lock_nest s = 0 then highest_ready s' c' else c' = t)"
proof -
  note S = sched_okD [OF kinvD(1) [OF inv]]
  have tq: "t \<in> set (tlists s q)" using S(3) [OF r] by (simp add: q_def)
  have d: "distinct (tlists s q)" using wf_listsD(1) [OF S(1)] .
  show ?thesis
  proof (cases "tlists s q = [t]")
    case True
    then show ?thesis using inv c by (intro exI [of _ s] exI [of _ t]) (simp add: rt_thread_yield_def Let_def q_def)
  next
    case False
    have len: "length (tlists s q) > 1"
    proof (rule ccontr)
      assume "\<not> length (tlists s q) > 1"
      with tq have "length (tlists s q) = 1" by (cases "tlists s q") auto
      then obtain x where "tlists s q = [x]" by (cases "tlists s q") auto
      with tq False show False by simp
    qed
    let ?L = "tl_insert_before q t (tl_remove t (tlists s))"
    have L: "?L = (tlists s)(q := remove1 t (tlists s q) @ [t])"
    proof
      fix q' show "?L q' = ((tlists s)(q := remove1 t (tlists s q) @ [t])) q'"
      proof (cases "q' = q")
        case False
        then have "t \<notin> set (tlists s q')" using wf_listsD(2) [OF S(1), of t q' q] tq by blast
        with False show ?thesis by (simp add: tl_insert_before_def tl_remove_def remove1_idem)
      qed (simp add: tl_insert_before_def tl_remove_def)
    qed
    let ?s1 = "s\<lparr>tlists := ?L\<rparr>"
    have "set (?L q') = set (tlists s q')" for q' using tq d by (auto simp: L)
    then have k1: "kinv ?s1" using kinv_same_sets [OF inv, of ?L] S(1) by simp
    have r1: "stat ?s1 t = RT_THREAD_READY" and c1: "rt_current_thread ?s1 = Some t" using r c by simp_all
    obtain c' p where sc: "rt_schedule ?s1 = Some (?s1\<lparr>rt_current_thread := Some c', rt_current_priority := p\<rparr>)"
      "kinv (?s1\<lparr>rt_current_thread := Some c', rt_current_priority := p\<rparr>)"
      "if rt_scheduler_lock_nest ?s1 = 0 then highest_ready ?s1 c' else c' = t"
      by (rule kinv_schedule [OF k1 r1 c1])
    have "rt_thread_yield s = Some (RT_EOK, ?s1\<lparr>rt_current_thread := Some c', rt_current_priority := p\<rparr>)"
      using c r len sc(1) by (simp add: rt_thread_yield_def Let_def q_def)
    moreover have "if rt_scheduler_lock_nest s = 0
      then highest_ready (?s1\<lparr>rt_current_thread := Some c', rt_current_priority := p\<rparr>) c' else c' = t"
      using sc(3) by (simp split: if_splits)
    ultimately show ?thesis using sc(2) L False
      by (intro exI [of _ "?s1\<lparr>rt_current_thread := Some c', rt_current_priority := p\<rparr>"] exI [of _ c'])
        (simp split: if_splits)
  qed
qed

subsection \<open>Starting a thread\<close>

lemma rt_thread_startup_spec:
  assumes inv: "kinv s" and st: "stat s t = RT_THREAD_INIT" "unlinked t (tlists s)"
    and p: "unat (t_init_priority (threads s t)) < RT_THREAD_PRIORITY_MAX"
    and own: "own_timer_ok s t" "ThreadTimer t \<notin> set (rt_timer_list s)" and stk: "stack_ok (threads s t)"
  defines "th \<equiv> (threads s t)\<lparr>t_current_priority := t_init_priority (threads s t),
    t_number_mask := push_bit (unat (t_init_priority (threads s t))) 1, t_stat := RT_THREAD_READY\<rparr>"
  shows "\<exists>s'. rt_thread_startup t s = Some (RT_EOK, s') \<and> kinv s' \<and> kframe s s' \<and>
    threads s' = (threads s)(t := th) \<and>
    tlists s' = tl_insert_before (Ready (unat (t_init_priority (threads s t)))) t (tlists s) \<and>
    rt_timer_list s' = rt_timer_list s \<and> frames s' = frames s \<and> object_lists s' = object_lists s \<and>
    (\<forall>b. b \<noteq> ObjTimer (ThreadTimer t) \<longrightarrow> objects s' b = objects s b) \<and>
    (case rt_current_thread s of None \<Rightarrow> rt_current_thread s' = None
     | Some c \<Rightarrow> \<exists>c'. rt_current_thread s' = Some c' \<and>
         (if rt_scheduler_lock_nest s = 0 then highest_ready s' c' else c' = c))"
proof -
  note K = kinvD [OF inv]
  let ?p = "t_init_priority (threads s t)"
  let ?s1 = "s\<lparr>threads := (threads s)(t := (threads s t)\<lparr>t_current_priority := ?p,
      t_number_mask := push_bit (unat ?p) 1, t_stat := RT_THREAD_SUSPEND\<rparr>)\<rparr>"
  have nq: "t \<notin> set (tlists s q)" for q using st(2) by (simp add: unlinked_def)
  have "sched_inv ?s1"
    using K(1) nq p st(1) unfolding sched_ok_def by (auto simp: mask_ok_def)
  moreover have "own_timer_ok ?s1 u = own_timer_ok s u" for u by (rule own_timer_frame) simp_all
  then have "timer_inv ?s1"
    using K(2) own st(1) by (auto simp: timer_inv_def)
  moreover have "stacks_ok ?s1" using K(3) stk by (simp add: stacks_ok_def stack_ok_def)
  ultimately have k1: "kinv ?s1" by (simp add: kinv_def)
  have st1: "stat ?s1 t = RT_THREAD_SUSPEND" by simp
  obtain s2 where s2: "rt_thread_resume t ?s1 = Some (RT_EOK, s2)" "kinv s2" "kframe ?s1 s2"
    "threads s2 = (threads ?s1)(t := (threads ?s1 t)\<lparr>t_stat := RT_THREAD_READY\<rparr>)"
    "tlists s2 = tl_insert_before (Ready (unat (prio ?s1 t))) t (tl_remove t (tlists ?s1))"
    "rt_timer_list s2 = remove1 (ThreadTimer t) (rt_timer_list ?s1)"
    "rt_current_thread s2 = rt_current_thread ?s1" "frames s2 = frames ?s1"
    "object_lists s2 = object_lists ?s1"
    "\<And>b. b \<noteq> ObjTimer (ThreadTimer t) \<Longrightarrow> objects s2 b = objects ?s1 b"
    using rt_thread_resume_spec [OF k1 st1] by metis
  have f2: "threads s2 = (threads s)(t := th)" "rt_timer_list s2 = rt_timer_list s" "kframe s s2"
    "tlists s2 = tl_insert_before (Ready (unat ?p)) t (tlists s)"
    using s2(3-6) own(2) st(2) by (simp_all add: th_def remove1_idem kframe_def)
  have start: "rt_thread_startup t s = do { s5 \<leftarrow> (if rt_current_thread s2 \<noteq> None then rt_schedule s2 else Some s2);
      Some (RT_EOK, s5) }"
    using st(1) s2(1) by (simp add: rt_thread_startup_def rt_thread_self_def)
  show ?thesis
  proof (cases "rt_current_thread s")
    case None
    then show ?thesis using start s2(2,7-10) f2 by (intro exI [of _ s2]) simp
  next
    case (Some c)
    have r2: "stat s2 t = RT_THREAD_READY" by (simp add: f2 th_def)
    have c2: "rt_current_thread s2 = Some c" using s2(7) Some by simp
    obtain c' p where sc: "rt_schedule s2 = Some (s2\<lparr>rt_current_thread := Some c', rt_current_priority := p\<rparr>)"
      "kinv (s2\<lparr>rt_current_thread := Some c', rt_current_priority := p\<rparr>)"
      "if rt_scheduler_lock_nest s2 = 0 then highest_ready s2 c' else c' = c"
      by (rule kinv_schedule [OF s2(2) r2 c2])
    let ?s' = "s2\<lparr>rt_current_thread := Some c', rt_current_priority := p\<rparr>"
    have h: "if rt_scheduler_lock_nest s = 0 then highest_ready ?s' c' else c' = c"
      using sc(3) kframeD(3) [OF f2(3)] by (simp split: if_splits)
    have "rt_thread_startup t s = Some (RT_EOK, ?s')" using start c2 sc(1) by simp
    then show ?thesis using sc(2) s2(8-10) f2 h Some by (intro exI [of _ ?s']) simp
  qed
qed

subsection \<open>Sleeping\<close>

text \<open>The timer of a thread that has just been suspended.\<close>

lemma kinv_init_tick:
  "kinv (s\<lparr>timers := (timers s)(x := (timers s x)\<lparr>tm_init_tick := k\<rparr>)\<rparr>) = kinv s"
proof -
  have "own_timer_ok (s\<lparr>timers := (timers s)(x := (timers s x)\<lparr>tm_init_tick := k\<rparr>)\<rparr>) t = own_timer_ok s t" for t
    by (auto simp: own_timer_ok_def timer_flag_def)
  then show ?thesis by (simp add: kinv_def timer_inv_def stacks_ok_def timer_flag_def)
qed

lemma own_timer_start:
  assumes inv: "kinv s" and st: "stat s t = RT_THREAD_SUSPEND" and tick: "time < RT_TICK_MAX div 2"
  obtains s' r where "rt_timer_start (ThreadTimer t)
      (snd (rt_timer_control (ThreadTimer t) RT_TIMER_CTRL_SET_TIME time s)) = Some (r, s')"
    "kinv s'" "kframe s s'" "threads s' = threads s" "tlists s' = tlists s"
    "rt_current_thread s' = rt_current_thread s" "frames s' = frames s" "object_lists s' = object_lists s"
    "\<And>b. b \<noteq> ObjTimer (ThreadTimer t) \<Longrightarrow> objects s' b = objects s b"
    "\<And>x. x \<noteq> ThreadTimer t \<Longrightarrow> timers s' x = timers s x"
    "\<not> activated s (ThreadTimer t) \<longrightarrow> ThreadTimer t \<in> set (rt_timer_list s') \<and>
       tm_timeout_tick (timers s' (ThreadTimer t)) = rt_tick s + time"
    "\<not> activated s (ThreadTimer t) \<longrightarrow> ThreadTimer t \<notin> set (rt_timer_list s) \<and>
       rt_timer_list s' = timer_list_insert (\<lambda>y. tm_timeout_tick (timers s' y)) (ThreadTimer t) (rt_timer_list s)"
    "set (rt_timer_list s') \<subseteq> insert (ThreadTimer t) (set (rt_timer_list s))"
proof -
  let ?x = "ThreadTimer t"
  let ?s1 = "s\<lparr>timers := (timers s)(?x := (timers s ?x)\<lparr>tm_init_tick := time\<rparr>)\<rparr>"
  have k1: "kinv ?s1" using inv by (simp add: kinv_init_tick)
  have c: "snd (rt_timer_control ?x RT_TIMER_CTRL_SET_TIME time s) = ?s1"
    by (simp add: rt_timer_control_def)
  have own: "stat ?s1 u = RT_THREAD_SUSPEND" if "?x = ThreadTimer u" for u using that st by simp
  have tk: "tm_init_tick (timers ?s1 ?x) < RT_TICK_MAX div 2" using tick by simp
  show thesis
  proof (rule rt_timer_start_spec [OF kinvD(2) [OF k1] own tk])
    assume "activated ?s1 ?x" "rt_timer_start ?x ?s1 = Some (- RT_ERROR, ?s1)"
    then show thesis using k1 c
      by (intro that [of "- RT_ERROR" ?s1]) (auto simp: activated_def timer_flag_def)
  next
    fix fl
    let ?s2 = "set_timer_flag ?x fl
         (?s1\<lparr>timers := (timers ?s1)(?x := (timers ?s1 ?x)\<lparr>tm_timeout_tick := rt_tick ?s1 + tm_init_tick (timers ?s1 ?x)\<rparr>),
            rt_timer_list := timer_list_insert (\<lambda>y. tm_timeout_tick (((timers ?s1)(?x := (timers ?s1 ?x)
              \<lparr>tm_timeout_tick := rt_tick ?s1 + tm_init_tick (timers ?s1 ?x)\<rparr>)) y)) ?x (rt_timer_list ?s1)\<rparr>)"
    assume started: "rt_timer_start ?x ?s1 = Some (RT_EOK, ?s2)" "timer_inv ?s2" "?x \<notin> set (rt_timer_list ?s1)"
    have "kinv ?s2" using started(2) kinvD [OF inv] unfolding kinv_def by (simp add: stacks_ok_def)
    with started(1,3) c show thesis
      by (intro that [of RT_EOK ?s2]) (simp_all add: set_timer_flag_def)
  qed
qed

text \<open>Fields of a thread the invariant does not read.\<close>

lemma kinv_threads:
  assumes "\<And>t. same_sched (th t) (threads s t)" "\<And>t. stack_ok (th t) = stack_ok (threads s t)"
  shows "kinv (s\<lparr>threads := th\<rparr>) = kinv s"
proof -
  have st: "t_stat (th t) = stat s t" for t using assms(1) by (simp add: same_sched_def)
  have "sched_inv (s\<lparr>threads := th\<rparr>) = sched_inv s"
    using sched_ok_cong [OF assms(1)] by simp
  moreover have "timer_inv (s\<lparr>threads := th\<rparr>) = timer_inv s" using st by (rule timer_inv_threads)
  moreover have "stacks_ok (s\<lparr>threads := th\<rparr>) = stacks_ok s" using st assms(2) by (simp add: stacks_ok_def)
  ultimately show ?thesis by (simp add: kinv_def)
qed

lemma kinv_thread_field [simp]:
  "kinv (s\<lparr>threads := (threads s)(t := (threads s t)\<lparr>t_error := e\<rparr>)\<rparr>) = kinv s"
  "kinv (s\<lparr>threads := (threads s)(t := (threads s t)\<lparr>t_event_set := v\<rparr>)\<rparr>) = kinv s"
  "kinv (s\<lparr>threads := (threads s)(t := (threads s t)\<lparr>t_event_set := v, t_event_info := i\<rparr>)\<rparr>) = kinv s"
  "kinv (s\<lparr>threads := (threads s)(t := (threads s t)\<lparr>t_error := e, t_event_set := v, t_event_info := i\<rparr>)\<rparr>) = kinv s"
  "kinv (s\<lparr>threads := (threads s)(t := (threads s t)\<lparr>t_remaining_tick := k\<rparr>)\<rparr>) = kinv s"
  by (rule kinv_threads; auto simp: same_sched_def stack_ok_def)+

lemma rt_thread_sleep_spec:
  assumes inv: "kinv s" and c: "rt_current_thread s = Some t" and r: "stat s t = RT_THREAD_READY"
    and tick: "tick < RT_TICK_MAX div 2" and u: "stat s u = RT_THREAD_READY" "u \<noteq> t"
  shows "\<exists>s' c'. rt_thread_sleep tick s = Some s' \<and> kinv s' \<and> kframe s s' \<and>
    threads s' = (threads s)(t := (threads s t)\<lparr>t_stat := RT_THREAD_SUSPEND\<rparr>) \<and>
    tlists s' = tl_remove t (tlists s) \<and> unlinked t (tlists s') \<and>
    frames s' = (frames s)(t := Some InSleep) \<and> object_lists s' = object_lists s \<and>
    (\<forall>b. b \<noteq> ObjTimer (ThreadTimer t) \<longrightarrow> objects s' b = objects s b) \<and>
    (\<forall>x. x \<noteq> ThreadTimer t \<longrightarrow> timers s' x = timers s x) \<and>
    (\<not> activated s (ThreadTimer t) \<longrightarrow> ThreadTimer t \<in> set (rt_timer_list s') \<and>
       tm_timeout_tick (timers s' (ThreadTimer t)) = rt_tick s + tick) \<and>
    (\<not> activated s (ThreadTimer t) \<longrightarrow> ThreadTimer t \<notin> set (rt_timer_list s) \<and>
       rt_timer_list s' = timer_list_insert (\<lambda>y. tm_timeout_tick (timers s' y)) (ThreadTimer t) (rt_timer_list s)) \<and>
    rt_current_thread s' = Some c' \<and> (if rt_scheduler_lock_nest s = 0 then highest_ready s' c' else c' = t)"
proof -
  obtain g where g: "rt_thread_suspend t s = Some (RT_EOK, s\<lparr>
      threads := (threads s)(t := (threads s t)\<lparr>t_stat := RT_THREAD_SUSPEND\<rparr>),
      tlists := tl_remove t (tlists s), rt_thread_ready_priority_group := g\<rparr>)" (is "_ = Some (_, ?s1)")
    "kinv (s\<lparr>threads := (threads s)(t := (threads s t)\<lparr>t_stat := RT_THREAD_SUSPEND\<rparr>),
      tlists := tl_remove t (tlists s), rt_thread_ready_priority_group := g\<rparr>)"
    "unlinked t (tl_remove t (tlists s))"
    using rt_thread_suspend_spec [OF inv r] by metis
  have st: "stat ?s1 t = RT_THREAD_SUSPEND" by simp
  have act: "activated ?s1 x = activated s x" for x by (simp add: activated_def timer_flag_def)
  obtain s2 e where s2: "rt_timer_start (ThreadTimer t)
      (snd (rt_timer_control (ThreadTimer t) RT_TIMER_CTRL_SET_TIME tick ?s1)) = Some (e, s2)"
    "kinv s2" "kframe ?s1 s2" "threads s2 = threads ?s1" "tlists s2 = tlists ?s1"
    "rt_current_thread s2 = rt_current_thread ?s1" "frames s2 = frames ?s1"
    "object_lists s2 = object_lists ?s1"
    "\<And>b. b \<noteq> ObjTimer (ThreadTimer t) \<Longrightarrow> objects s2 b = objects ?s1 b"
    "\<And>x. x \<noteq> ThreadTimer t \<Longrightarrow> timers s2 x = timers ?s1 x"
    "\<not> activated ?s1 (ThreadTimer t) \<longrightarrow> ThreadTimer t \<in> set (rt_timer_list s2) \<and>
       tm_timeout_tick (timers s2 (ThreadTimer t)) = rt_tick ?s1 + tick"
    "\<not> activated ?s1 (ThreadTimer t) \<longrightarrow> ThreadTimer t \<notin> set (rt_timer_list ?s1) \<and>
       rt_timer_list s2 = timer_list_insert (\<lambda>y. tm_timeout_tick (timers s2 y)) (ThreadTimer t) (rt_timer_list ?s1)"
    by (rule own_timer_start [OF g(2) st tick]) blast
  let ?s3 = "s2\<lparr>frames := (frames s2)(t := Some InSleep)\<rparr>"
  have k3: "kinv ?s3" and r3: "stat ?s3 u = RT_THREAD_READY" and c3: "rt_current_thread ?s3 = Some t"
    using s2(2,4,6) u c by simp_all
  obtain c' p where sc: "rt_schedule ?s3 = Some (?s3\<lparr>rt_current_thread := Some c', rt_current_priority := p\<rparr>)"
    "kinv (?s3\<lparr>rt_current_thread := Some c', rt_current_priority := p\<rparr>)"
    "if rt_scheduler_lock_nest ?s3 = 0 then highest_ready ?s3 c' else c' = t"
    by (rule kinv_schedule [OF k3 r3 c3])
  let ?s' = "?s3\<lparr>rt_current_thread := Some c', rt_current_priority := p\<rparr>"
  have "rt_thread_sleep tick s = Some ?s'"
    using c g(1) s2(1) sc(1) by (simp add: rt_thread_sleep_def)
  moreover have "kframe s ?s'" using s2(3) by (simp add: kframe_def)
  moreover have "if rt_scheduler_lock_nest s = 0 then highest_ready ?s' c' else c' = t"
    using sc(3) kframeD(3) [OF s2(3)] by (simp split: if_splits)
  ultimately show ?thesis
    using sc(2) s2(4-12) act g(3) by (intro exI [of _ ?s'] exI [of _ c']) simp
qed

subsection \<open>A state for the witnesses\<close>

lemma demo_kinv [simp]: "kinv demo"
proof -
  have "timer_inv demo"
    by (auto simp: timer_inv_def own_timer_ok_def timer_flag_def demo_def)
  moreover have "stacks_ok demo" by (simp add: stacks_ok_def)
  ultimately show ?thesis using demo_inv by (simp add: kinv_def)
qed

subsection \<open>A new thread\<close>

lemma clear_low_bits: "x AND NOT (mask k) = x - take_bit k (x :: u32)"
proof -
  have "x - take_bit k x = x AND NOT (take_bit k x)"
    by (rule disjunctive_diff_eq_and_not, rule bit_word_eqI) (auto simp: bit_simps)
  also have "\<dots> = x AND NOT (mask k)"
    by (rule bit_word_eqI) (auto simp: bit_simps)
  finally show ?thesis ..
qed

lemma unat_align_down_8: "unat (RT_ALIGN_DOWN x 8) = unat x - unat x mod 8"
proof -
  have m: "(7 :: u32) = mask 3" by (simp add: mask_eq_exp_minus_1)
  have "unat (take_bit 3 x) = unat x mod 8" unfolding unsigned_take_bit_eq by (simp add: take_bit_eq_mod)
  moreover have "unat x mod 8 \<le> unat x" by simp
  then have "take_bit 3 x \<le> x" using calculation by (simp add: word_le_nat_alt)
  then have "unat (x - take_bit 3 x) = unat x - unat (take_bit 3 x)" by (rule unat_sub)
  ultimately show ?thesis by (simp add: RT_ALIGN_DOWN_def m clear_low_bits del: mask_eq_exp_minus_1)
qed

text \<open>The first stack pointer lies inside of a stack of at least 72 bytes.\<close>

lemma first_sp:
  assumes "0 < a" "72 \<le> sz" "a + sz < 2 ^ 32"
  shows "a < rt_hw_stack_init (a + sz - 4)" "rt_hw_stack_init (a + sz - 4) \<le> a + sz"
proof -
  let ?x = "of_nat (a + sz - 4) + 4 :: u32"
  have "?x = of_nat (a + sz)" using assms(2) by (simp add: of_nat_diff)
  then have x: "unat ?x = a + sz"
    using assms(3) by (simp add: unsigned_of_nat take_bit_eq_mod del: of_nat_add)
  have d: "unat (RT_ALIGN_DOWN ?x 8) = a + sz - (a + sz) mod 8" unfolding unat_align_down_8 x ..
  have r: "(a + sz) mod 8 \<le> 7" by simp
  have "64 \<le> RT_ALIGN_DOWN ?x 8" unfolding word_le_nat_alt d using assms r by simp
  then have "rt_hw_stack_init (a + sz - 4) = a + sz - (a + sz) mod 8 - 64"
    unfolding rt_hw_stack_init_def Let_def by (simp only: unat_sub d) simp
  then show "a < rt_hw_stack_init (a + sz - 4)" "rt_hw_stack_init (a + sz - 4) \<le> a + sz"
    using assms r by linarith+
qed

lemma rt_strncpy_length:
  "0 \<in> set xs \<or> n \<le> length xs \<Longrightarrow> \<exists>ys. rt_strncpy xs n = Some ys \<and> length ys = n"
  by (induction xs n rule: rt_strncpy.induct) auto

lemma rt_thread_init_spec:
  assumes inv: "kinv s" and st: "\<not> started (stat s t)" "unlinked t (tlists s)" "ThreadTimer t \<notin> set (rt_timer_list s)"
    and name: "0 \<in> set name" and p: "unat priority < RT_THREAD_PRIORITY_MAX"
    and stk: "0 < a" "72 \<le> unat stack_size" "unat stack_size < 2 ^ 16" "a + unat stack_size < 2 ^ 32"
  shows "\<exists>s'. rt_thread_init t name entry param a stack_size priority tick s = Some (RT_EOK, s') \<and> kinv s' \<and>
    kframe s s' \<and> stat s' t = RT_THREAD_INIT \<and> t_init_priority (threads s' t) = priority \<and>
    t_entry (threads s' t) = entry \<and> t_parameter (threads s' t) = param \<and> t_error (threads s' t) = RT_EOK \<and>
    t_init_tick (threads s' t) = tick \<and> t_remaining_tick (threads s' t) = tick \<and>
    stack_ok (threads s' t) \<and> own_timer_ok s' t \<and> tlists s' = tlists s \<and> rt_timer_list s' = rt_timer_list s \<and>
    (\<forall>u. u \<noteq> t \<longrightarrow> threads s' u = threads s u) \<and> rt_current_thread s' = rt_current_thread s \<and>
    hd (object_lists s' ClassThread) = ObjThread t"
proof -
  obtain nm where nm: "rt_strncpy name RT_NAME_MAX = Some nm" "length nm = RT_NAME_MAX"
    using rt_strncpy_length [of name RT_NAME_MAX] name by auto
  obtain nm2 where nm2: "rt_strncpy nm RT_NAME_MAX = Some nm2" using rt_strncpy_length [of nm RT_NAME_MAX] nm(2) by auto
  have sz: "unat (ucast stack_size :: u16) = unat stack_size"
    using stk(3) by (simp add: unsigned_ucast_eq take_bit_eq_mod)
  let ?sp = "rt_hw_stack_init (a + unat stack_size - 4)"
  let ?th = "(threads s t)\<lparr>t_entry := entry, t_parameter := param, t_stack_addr := a,
      t_stack_size := ucast stack_size, t_sp := ?sp, t_init_priority := priority, t_current_priority := priority,
      t_init_tick := tick, t_remaining_tick := tick, t_error := RT_EOK,
      t_stat := RT_THREAD_INIT, t_cleanup := None, t_user_data := 0\<rparr>"
  obtain s' where s': "rt_thread_init t name entry param a stack_size priority tick s = Some (RT_EOK, s')"
    "threads s' = (threads s)(t := ?th)" "tlists s' = tlists s" "rt_timer_list s' = rt_timer_list s"
    "rt_thread_ready_priority_group s' = rt_thread_ready_priority_group s" "rt_current_thread s' = rt_current_thread s"
    "kframe s s'" "timers s' = (timers s)(ThreadTimer t := \<lparr>tm_timeout_func = TimeoutThread, tm_parameter = t, tm_init_tick = 0, tm_timeout_tick = 0\<rparr>)"
    "timer_flag (ThreadTimer t) s' = 0" "\<And>x. x \<noteq> ThreadTimer t \<Longrightarrow> timer_flag x s' = timer_flag x s"
    "object_lists s' ClassThread = ObjThread t # object_lists s ClassThread"
    using nm(1) nm2 p stk(1)
    by (simp add: rt_thread_init_def thread_init_def rt_object_init_def rt_timer_init_def timer_init_def
        container_insert_def set_timer_flag_def timer_flag_def kframe_def sz)
  have own: "own_timer_ok s' t" using s'(8,9) by (simp add: own_timer_ok_def)
  have own': "own_timer_ok s' u = own_timer_ok s u" if "u \<noteq> t" for u
    using that s'(8) s'(10) [of "ThreadTimer u"] by (simp add: own_timer_ok_def)
  have nst: "stat s t \<noteq> RT_THREAD_READY" "stat s t \<noteq> RT_THREAD_SUSPEND" using st(1) by (auto simp: started_def)
  have nq: "t \<notin> set (tlists s q)" for q using st(2) by (simp add: unlinked_def)
  note K = kinvD [OF inv]
  have "sched_inv s'"
    using K(1) nq nst unfolding sched_ok_def s'(2,3,5) by (auto split: if_splits)
  moreover have "timer_inv s'"
    unfolding timer_inv_def s'(2,4)
  proof (intro conjI ballI allI impI)
    note T = timer_invD [OF K(2)]
    show "distinct (rt_timer_list s)" by (rule T(1))
    show "bit (timer_flag x s') 0" if "x \<in> set (rt_timer_list s)" for x
      using T(2) [OF that] s'(10) [of x] that st(3) by (cases "x = ThreadTimer t") auto
    show "t_stat (((threads s)(t := ?th)) u) = RT_THREAD_SUSPEND" if "ThreadTimer u \<in> set (rt_timer_list s)" for u
      using T(3) [OF that] that st(3) by (cases "u = t") auto
    show "own_timer_ok s' u" if "started (t_stat (((threads s)(t := ?th)) u))" for u
      using T(4) [of u] own' [of u] that by (cases "u = t") auto
  qed
  moreover have "stacks_ok s'" using K(3) by (simp add: stacks_ok_def s'(2))
  ultimately have "kinv s'" by (simp add: kinv_def)
  moreover have "stack_ok (threads s' t)"
    using first_sp [OF stk(1,2,4)] sz by (simp add: stack_ok_def s'(2))
  ultimately show ?thesis using s'(1-4,6,7,11) own by (intro exI [of _ s']) simp
qed

subsection \<open>States for the witnesses\<close>

text \<open>A thread that was initialised over memory with one bit set, and a second thread of priority 5.\<close>

definition demo_unstarted :: kstate where
  "demo_unstarted = demo\<lparr>threads := (threads demo)(7 := (demo_thread RT_THREAD_INIT 9)\<lparr>t_number_mask := 0x20\<rparr>)\<rparr>"

definition demo_pair :: kstate where
  "demo_pair = demo\<lparr>tlists := (tlists demo)(Ready 5 := [3, 4]),
     threads := (threads demo)(4 := demo_thread RT_THREAD_READY 5)\<rparr>"

lemma demo_unstarted_kinv: "kinv demo_unstarted"
proof -
  have "sched_inv demo_unstarted"
    using demo_inv unfolding sched_ok_def demo_unstarted_def by (auto simp: demo_def split: if_splits)
  moreover have "timer_inv demo_unstarted" "stacks_ok demo_unstarted"
    using kinvD(2,3) [OF demo_kinv]
    by (auto simp: timer_inv_def own_timer_ok_def timer_flag_def stacks_ok_def demo_unstarted_def)
  ultimately show ?thesis by (simp add: kinv_def)
qed

lemma demo_pair_kinv: "kinv demo_pair"
proof -
  have "sched_inv demo_pair"
    unfolding sched_ok_def
  proof (intro conjI allI impI)
    have group: "rt_thread_ready_priority_group demo_pair = 0x80000020" by (simp add: demo_pair_def demo_def)
    show "wf_lists (tlists demo_pair)" by (auto simp: wf_lists_def demo_pair_def demo_def split: if_splits)
    show "queue_ok q (threads demo_pair t)" if "t \<in> set (tlists demo_pair q)" for q t
      using that by (auto simp: demo_pair_def demo_def split: if_splits)
    show "t \<in> set (tlists demo_pair (Ready (unat (prio demo_pair t))))" if "stat demo_pair t = RT_THREAD_READY" for t
      using that by (auto simp: demo_pair_def demo_def split: if_splits)
    show "mask_ok (threads demo_pair t)" if "started (stat demo_pair t)" for t
      using that by (auto simp: demo_pair_def demo_def mask_ok_def split: if_splits)
    show "bit (rt_thread_ready_priority_group demo_pair) p \<longleftrightarrow> tlists demo_pair (Ready p) \<noteq> []" for p
      unfolding group demo_group by (simp add: demo_pair_def demo_def)
  qed
  moreover have "timer_inv demo_pair"
    by (auto simp: timer_inv_def own_timer_ok_def timer_flag_def demo_pair_def demo_def)
  moreover have "stacks_ok demo_pair"
    using kinvD(3) [OF demo_kinv] by (simp add: stacks_ok_def demo_pair_def)
  ultimately show ?thesis by (simp add: kinv_def)
qed

subsection \<open>Properties\<close>

text \<open>
  A thread is born ready: \<open>rt_thread_init\<close> with a terminated name, a priority below 32 and a stack of
  at least 72 bytes, then \<open>rt_thread_startup\<close>, always succeed; the thread is the last of its
  priority, its stack pointer lies in its stack, no other thread changes, and afterwards the most
  urgent ready thread runs.
\<close>

theorem rt_thread_init_startup:
  assumes "kinv s" "rt_current_thread s = Some c" "rt_scheduler_lock_nest s = 0"
    and "\<not> started (stat s t)" "unlinked t (tlists s)" "ThreadTimer t \<notin> set (rt_timer_list s)"
    and "0 \<in> set name" "unat priority < RT_THREAD_PRIORITY_MAX"
    and "0 < a" "72 \<le> unat stack_size" "unat stack_size < 2 ^ 16" "a + unat stack_size < 2 ^ 32"
  shows "\<exists>s1 s2 c'. rt_thread_init t name entry param a stack_size priority tick s = Some (RT_EOK, s1) \<and>
    rt_thread_startup t s1 = Some (RT_EOK, s2) \<and> kinv s2 \<and> stat s2 t = RT_THREAD_READY \<and>
    prio s2 t = priority \<and> stack_ok (threads s2 t) \<and>
    tlists s2 = tl_insert_before (Ready (unat priority)) t (tlists s) \<and>
    (\<forall>u. u \<noteq> t \<longrightarrow> threads s2 u = threads s u) \<and> rt_current_thread s2 = Some c' \<and> highest_ready s2 c'"
proof -
  obtain s1 where s1: "rt_thread_init t name entry param a stack_size priority tick s = Some (RT_EOK, s1)"
    "kinv s1" "kframe s s1" "stat s1 t = RT_THREAD_INIT" "t_init_priority (threads s1 t) = priority"
    "stack_ok (threads s1 t)" "own_timer_ok s1 t" "tlists s1 = tlists s" "rt_timer_list s1 = rt_timer_list s"
    "\<forall>u. u \<noteq> t \<longrightarrow> threads s1 u = threads s u" "rt_current_thread s1 = rt_current_thread s"
    using rt_thread_init_spec [OF assms(1,4-12)] by blast
  have u1: "unlinked t (tlists s1)" "ThreadTimer t \<notin> set (rt_timer_list s1)"
    "unat (t_init_priority (threads s1 t)) < RT_THREAD_PRIORITY_MAX"
    using assms(5,6,8) s1(5,8,9) by simp_all
  obtain s2 where s2: "rt_thread_startup t s1 = Some (RT_EOK, s2)" "kinv s2" "threads s2 = (threads s1)(t :=
      (threads s1 t)\<lparr>t_current_priority := t_init_priority (threads s1 t),
        t_number_mask := push_bit (unat (t_init_priority (threads s1 t))) 1, t_stat := RT_THREAD_READY\<rparr>)"
    "tlists s2 = tl_insert_before (Ready (unat (t_init_priority (threads s1 t)))) t (tlists s1)"
    "case rt_current_thread s1 of None \<Rightarrow> rt_current_thread s2 = None
     | Some c \<Rightarrow> \<exists>c'. rt_current_thread s2 = Some c' \<and>
         (if rt_scheduler_lock_nest s1 = 0 then highest_ready s2 c' else c' = c)"
    using rt_thread_startup_spec [OF s1(2,4) u1(1,3) s1(7) u1(2) s1(6)] by blast
  have lock: "rt_scheduler_lock_nest s1 = 0" using s1(3) assms(3) by (simp add: kframe_def)
  then obtain c' where c': "rt_current_thread s2 = Some c'" "highest_ready s2 c'"
    using s2(5) assms(2) s1(11) by auto
  show ?thesis
    using s1(1,5,6,8,10) s2(1-4) c'
    by (intro exI [of _ s1] exI [of _ s2] exI [of _ c']) (simp add: stack_ok_def)
qed

theorem rt_thread_init_startup_witness:
  "\<exists>s1 s2 c'. rt_thread_init 7 [0x77, 0] 0x8000 0 0x2000 256 (4 :: u8) 10 demo = Some (RT_EOK, s1) \<and>
    rt_thread_startup 7 s1 = Some (RT_EOK, s2) \<and> kinv s2 \<and> stat s2 7 = RT_THREAD_READY \<and>
    prio s2 7 = (4 :: u8) \<and> stack_ok (threads s2 7) \<and>
    tlists s2 = tl_insert_before (Ready (unat (4 :: u8))) 7 (tlists demo) \<and>
    (\<forall>u. u \<noteq> 7 \<longrightarrow> threads s2 u = threads demo u) \<and> rt_current_thread s2 = Some c' \<and> highest_ready s2 c'"
  proof (rule rt_thread_init_startup [OF demo_kinv, where c = 3])
    show "\<not> started (stat demo 7)" "unlinked 7 (tlists demo)" by (simp_all add: demo_def unlinked_def)
  qed simp_all

text \<open>
  Threads of one priority take turns: when the running thread, the first of the most urgent ready
  threads, calls \<open>rt_thread_yield\<close>, it goes to the end of its list and the next one runs.
\<close>

theorem rt_thread_yield_round_robin:
  assumes "kinv s" "rt_current_thread s = Some t" "highest_ready s t" "rt_scheduler_lock_nest s = 0"
    and "tlists s (Ready (unat (prio s t))) = t # u # us"
  shows "\<exists>s'. rt_thread_yield s = Some (RT_EOK, s') \<and> kinv s' \<and> rt_current_thread s' = Some u \<and>
    tlists s' (Ready (unat (prio s t))) = u # us @ [t] \<and> threads s' = threads s"
proof -
  let ?q = "Ready (unat (prio s t))"
  have r: "stat s t = RT_THREAD_READY" using assms(3) by (simp add: highest_ready_def)
  have ne: "tlists s ?q \<noteq> [t]" using assms(5) by simp
  obtain s' c' where y: "rt_thread_yield s = Some (RT_EOK, s')" "kinv s'" "threads s' = threads s"
    "tlists s' = (tlists s)(?q := remove1 t (tlists s ?q) @ [t])" "rt_current_thread s' = Some c'" "highest_ready s' c'"
    using rt_thread_yield_spec [OF assms(1,2) r] ne assms(4) by auto
  have q': "tlists s' ?q = u # us @ [t]" using y(4) assms(5) by simp
  have qu: "unat (prio s u) = unat (prio s t)" "stat s u = RT_THREAD_READY"
    using sched_okD(2) [OF kinvD(1) [OF assms(1)], of u ?q] assms(5) by simp_all
  have "highest_ready s' u"
    using assms(3) qu q' by (simp add: highest_ready_def y(3))
  then have "c' = u" using highest_ready_unique [OF y(6)] by blast
  with y q' show ?thesis by (intro exI [of _ s']) simp
qed

theorem rt_thread_yield_round_robin_witness:
  "\<exists>s'. rt_thread_yield demo_pair = Some (RT_EOK, s') \<and> kinv s' \<and> rt_current_thread s' = Some 4 \<and>
    tlists s' (Ready (unat (prio demo_pair 3))) = 4 # ([] :: nat list) @ [3] \<and> threads s' = threads demo_pair"
  proof (rule rt_thread_yield_round_robin [OF demo_pair_kinv])
    show "highest_ready demo_pair 3" by (simp add: highest_ready_def demo_pair_def) (simp add: demo_def)
  qed (simp_all add: demo_pair_def demo_def)

text \<open>
  A new priority takes effect at once: \<open>rt_thread_control\<close> with \<open>RT_THREAD_CTRL_CHANGE_PRIORITY\<close> and a priority
  below 32 moves a ready thread to the end of the list of that priority, and keeps the invariant
  for every thread.
\<close>

theorem rt_thread_change_priority_correct:
  assumes "kinv s" "unat p < RT_THREAD_PRIORITY_MAX"
  shows "\<exists>s'. rt_thread_control t RT_THREAD_CTRL_CHANGE_PRIORITY p s = Some (RT_EOK, s') \<and> kinv s' \<and>
    threads s' = (threads s)(t := (threads s t)\<lparr>t_current_priority := p, t_number_mask := push_bit (unat p) 1\<rparr>) \<and>
    tlists s' = (if stat s t = RT_THREAD_READY
      then tl_insert_before (Ready (unat p)) t (tl_remove t (tlists s)) else tlists s)"
  using change_priority_spec [OF assms, of t] by (auto simp: rt_thread_control_def)

theorem rt_thread_change_priority_correct_witness:
  "\<exists>s'. rt_thread_control 10 RT_THREAD_CTRL_CHANGE_PRIORITY 4 demo = Some (RT_EOK, s') \<and> kinv s' \<and>
    threads s' = (threads demo)(10 := (threads demo 10)\<lparr>t_current_priority := 4, t_number_mask := push_bit (unat (4 :: u8)) 1\<rparr>) \<and>
    tlists s' = (if stat demo 10 = RT_THREAD_READY
      then tl_insert_before (Ready (unat (4 :: u8))) 10 (tl_remove 10 (tlists demo)) else tlists demo)"
  by (rule rt_thread_change_priority_correct [OF demo_kinv]) simp

text \<open>
  \<open>rt_thread_delete\<close> of a thread that was never started can stop other threads: \<open>rt_thread_init\<close> does not set
  \<open>number_mask\<close>, and with whatever bits it holds the priorities of ready threads are cleared from
  the ready group. The only ready thread of a priority is then no more found there.
\<close>

theorem rt_thread_delete_unstarted_unschedules:
  assumes "kinv s" "stat s t = RT_THREAD_INIT" "unlinked t (tlists s)"
    and "unat (prio s t) < RT_THREAD_PRIORITY_MAX" "tlists s (Ready (unat (prio s t))) = []"
    and "stat s u = RT_THREAD_READY" "bit (t_number_mask (threads s t)) (unat (prio s u))"
  shows "\<exists>s'. rt_thread_delete t s = Some (RT_EOK, s') \<and> stat s' u = RT_THREAD_READY \<and>
    \<not> bit (rt_thread_ready_priority_group s') (unat (prio s' u)) \<and> \<not> sched_inv s'"
proof -
  note S = sched_okD [OF kinvD(1) [OF assms(1)]]
  have ut: "u \<noteq> t" using assms(2,6) by auto
  have e: "tl_remove t (tlists s) = tlists s" using assms(3) by (rule tl_remove_unlinked)
  let ?g = "rt_thread_ready_priority_group s AND NOT (t_number_mask (threads s t))"
  have r: "rt_schedule_remove_thread t s = Some (s\<lparr>rt_thread_ready_priority_group := ?g\<rparr>)"
    using assms(4,5) by (simp add: rt_schedule_remove_thread_def Let_def e)
  obtain s' where s': "rt_thread_delete t s = Some (RT_EOK, s')"
    "threads s' = (threads s)(t := (threads s t)\<lparr>t_stat := RT_THREAD_CLOSE\<rparr>)"
    "rt_thread_ready_priority_group s' = ?g"
    "tlists s' = tl_insert_after Defunct t (tlists s)"
    using r by (simp add: rt_thread_delete_def rt_timer_detach_def rt_object_detach_def)
  have nb: "\<not> bit (rt_thread_ready_priority_group s') (unat (prio s' u))"
    using assms(7) ut by (simp add: s'(2,3) bit_simps)
  have lt: "unat (prio s u) < RT_THREAD_PRIORITY_MAX"
    using S(4) [of u] assms(6) by (simp add: mask_ok_def)
  have mem: "u \<in> set (tlists s' (Ready (unat (prio s' u))))"
    using S(3) [OF assms(6)] ut by (simp add: s'(2,4) tl_insert_after_def)
  have "\<not> sched_inv s'"
  proof
    assume "sched_inv s'"
    from sched_okD(5) [OF this, of "unat (prio s' u)"] lt nb mem ut show False by (auto simp: s'(2))
  qed
  then show ?thesis using s'(1,2) nb assms(6) ut by (intro exI [of _ s']) simp
qed

theorem rt_thread_delete_unstarted_unschedules_witness:
  "\<exists>s'. rt_thread_delete 7 demo_unstarted = Some (RT_EOK, s') \<and> stat s' 3 = RT_THREAD_READY \<and>
    \<not> bit (rt_thread_ready_priority_group s') (unat (prio s' 3)) \<and> \<not> sched_inv s'"
  proof (rule rt_thread_delete_unstarted_unschedules [OF demo_unstarted_kinv])
    have "(0x20 :: u32) = push_bit 5 1" by (simp add: push_bit_eq_mult)
    then have "bit (0x20 :: u32) 5" by (simp only: u32_bit_shift) simp
    then show "bit (t_number_mask (threads demo_unstarted 7)) (unat (prio demo_unstarted 3))"
      by (simp add: demo_unstarted_def demo_def)
  qed (simp_all add: demo_unstarted_def demo_def unlinked_def)

end
