(* ===== verification/RtIpc.thy ===== *)
theory RtIpc
  imports RtThread
begin

text \<open>
  What the IPC objects of \<^verbatim>\<open>src/ipc.c\<close> share: the list of the threads that wait on an object, in
  the order they came or of their priorities, and the waiting itself. A call that may block
  gives \<open>Returns r\<close> when the caller goes on at once, and \<open>Waits\<close> when it has called
  \<open>rt_schedule\<close> as a suspended thread: a frame then says where it goes on, and the second part
  of the call (its name ends in \<open>_wake\<close>) is what it does when it next runs.
\<close>

subsection \<open>Operations\<close>

datatype 'a call = Returns 'a | Waits

definition rt_ipc_object_init :: "list_head \<Rightarrow> kstate \<Rightarrow> kstate" where
  "rt_ipc_object_init q s = lists_at (\<lambda>L. L(q := [])) s"

text \<open>The walk of \<open>RT_IPC_FLAG_PRIO\<close>: before the first waiting thread that is less urgent.\<close>

primrec prio_insert :: "(nat \<Rightarrow> u8) \<Rightarrow> nat \<Rightarrow> nat list \<Rightarrow> nat list" where
  "prio_insert pr t [] = [t]"
| "prio_insert pr t (u # us) = (if pr t < pr u then t # u # us else u # prio_insert pr t us)"

definition rt_ipc_list_suspend :: "list_head \<Rightarrow> nat \<Rightarrow> u8 \<Rightarrow> kstate \<Rightarrow> kstate option" where
  "rt_ipc_list_suspend q t flag s =
     do {
       (_, s1) \<leftarrow> rt_thread_suspend t s;
       Some (if flag = RT_IPC_FLAG_FIFO then lists_at (tl_insert_before q t) s1
             else if flag = RT_IPC_FLAG_PRIO
             then lists_at (\<lambda>L. L(q := prio_insert (prio s1) t (L q))) s1
             else s1) }"

definition rt_ipc_list_resume :: "list_head \<Rightarrow> kstate \<Rightarrow> kstate option" where
  "rt_ipc_list_resume q s =
     do { t \<leftarrow> first_thread q s; (_, s1) \<leftarrow> rt_thread_resume t s; Some s1 }"

partial_function (option) rt_ipc_list_resume_all :: "list_head \<Rightarrow> kstate \<Rightarrow> kstate option" where
  "rt_ipc_list_resume_all q s =
     (case tlists s q of
        [] \<Rightarrow> Some s
      | t # _ \<Rightarrow> do {
          (_, s1) \<leftarrow> rt_thread_resume t (thread_at t (t_error_update (\<lambda>_. - RT_ERROR)) s);
          rt_ipc_list_resume_all q s1 })"

text \<open>The lines every blocking call has: the caller goes to the list, and its timer starts when
  the time is positive as a signed number.\<close>

definition ipc_wait :: "list_head \<Rightarrow> nat \<Rightarrow> u8 \<Rightarrow> u32 \<Rightarrow> kstate \<Rightarrow> kstate option" where
  "ipc_wait q t flag time s =
     do {
       s1 \<leftarrow> rt_ipc_list_suspend q t flag s;
       if 0 < sint time
       then do {
         let s2 = snd (rt_timer_control (ThreadTimer t) RT_TIMER_CTRL_SET_TIME time s1);
         (_, s3) \<leftarrow> rt_timer_start (ThreadTimer t) s2;
         Some s3 }
       else Some s1 }"

text \<open>After a wait: \<open>tick_delta\<close> becomes the time it took, and a positive timeout what is left.\<close>

definition elapsed :: "u32 \<Rightarrow> u32 \<Rightarrow> kstate \<Rightarrow> u32" where
  "elapsed timeout tick_delta s = (if 0 < sint timeout then rt_tick s - tick_delta else tick_delta)"

definition time_left :: "u32 \<Rightarrow> u32 \<Rightarrow> kstate \<Rightarrow> u32" where
  "time_left timeout tick_delta s =
     (if 0 < sint timeout
      then let left = timeout - elapsed timeout tick_delta s in if sint left < 0 then 0 else left
      else timeout)"

text \<open>The flag of an object, and the lines that give it to a new one.\<close>

definition obj_flag :: "object_id \<Rightarrow> kstate \<Rightarrow> u8" where
  "obj_flag b s = o_flag (objects s b)"

definition set_obj_flag :: "object_id \<Rightarrow> u8 \<Rightarrow> kstate \<Rightarrow> kstate" where
  "set_obj_flag b f s = object_at b (o_flag_update (\<lambda>_. f)) s"

subsection \<open>Waiting\<close>

text \<open>Where a thread comes on the list: at its end, or before the first less urgent one.\<close>

definition wait_place :: "u8 \<Rightarrow> (nat \<Rightarrow> u8) \<Rightarrow> nat \<Rightarrow> nat list \<Rightarrow> nat list" where
  "wait_place flag pr t l = (if flag = RT_IPC_FLAG_FIFO then l @ [t] else prio_insert pr t l)"

lemma set_prio_insert [simp]: "set (prio_insert pr t l) = insert t (set l)"
  by (induction l) auto

lemma distinct_prio_insert [simp]: "distinct (prio_insert pr t l) \<longleftrightarrow> t \<notin> set l \<and> distinct l"
  by (induction l) auto

lemma wait_place_simps [simp]:
  "set (wait_place flag pr t l) = insert t (set l)"
  "distinct (wait_place flag pr t l) \<longleftrightarrow> t \<notin> set l \<and> distinct l"
  by (auto simp: wait_place_def)

text \<open>A list kept with \<open>RT_IPC_FLAG_PRIO\<close> is in the order of the priorities, and threads of one
  priority in the order they came.\<close>

lemma prio_insert_sorted:
  "sorted (map (unat \<circ> pr) l) \<Longrightarrow> sorted (map (unat \<circ> pr) (prio_insert pr t l))"
proof (induction l)
  case (Cons u us)
  then show ?case
    by (auto simp: word_less_nat_alt split: if_splits)
qed simp

lemma prio_insert_split:
  "sorted (map (unat \<circ> pr) l) \<Longrightarrow> prio_insert pr t l =
     filter (\<lambda>u. pr u \<le> pr t) l @ t # filter (\<lambda>u. pr t < pr u) l"
proof (induction l)
  case (Cons u us)
  show ?case
  proof (cases "pr t < pr u")
    case True
    have "pr t < pr v" if "v \<in> set us" for v
      using Cons.prems True that by (force simp: word_less_nat_alt)
    then have "filter (\<lambda>u. pr u \<le> pr t) us = []" "filter (\<lambda>u. pr t < pr u) us = us"
      by (auto simp: filter_empty_conv filter_id_conv not_le)
    then show ?thesis using True by simp
  next
    case False
    then show ?thesis using Cons by simp
  qed
qed simp

lemma rt_ipc_list_suspend_spec:
  assumes inv: "kinv s" and r: "stat s t = RT_THREAD_READY" and q: "wait_queue q"
    and f: "flag = RT_IPC_FLAG_FIFO \<or> flag = RT_IPC_FLAG_PRIO"
  obtains g where "rt_ipc_list_suspend q t flag s = Some (s\<lparr>
      threads := (threads s)(t := (threads s t)\<lparr>t_stat := RT_THREAD_SUSPEND\<rparr>),
      tlists := (tl_remove t (tlists s))(q := wait_place flag (prio s) t (tlists s q)),
      rt_thread_ready_priority_group := g\<rparr>)"
    "kinv (s\<lparr>threads := (threads s)(t := (threads s t)\<lparr>t_stat := RT_THREAD_SUSPEND\<rparr>),
      tlists := (tl_remove t (tlists s))(q := wait_place flag (prio s) t (tlists s q)),
      rt_thread_ready_priority_group := g\<rparr>)"
proof -
  obtain g where g: "rt_thread_suspend t s = Some (RT_EOK, s\<lparr>
      threads := (threads s)(t := (threads s t)\<lparr>t_stat := RT_THREAD_SUSPEND\<rparr>),
      tlists := tl_remove t (tlists s), rt_thread_ready_priority_group := g\<rparr>)"
    "kinv (s\<lparr>threads := (threads s)(t := (threads s t)\<lparr>t_stat := RT_THREAD_SUSPEND\<rparr>),
      tlists := tl_remove t (tlists s), rt_thread_ready_priority_group := g\<rparr>)" (is "kinv ?s1")
    "unlinked t (tl_remove t (tlists s))"
    using rt_thread_suspend_spec [OF inv r] by metis
  note S = sched_okD [OF kinvD(1) [OF inv]]
  have nq: "t \<notin> set (tlists s q)" using S(2) [of t q] queue_ok_wait [OF q, of "threads s t"] r by auto
  then have e: "tl_remove t (tlists s) q = tlists s q" by (simp add: tl_remove_def remove1_idem)
  have pr: "prio (s\<lparr>threads := (threads s)(t := (threads s t)\<lparr>t_stat := RT_THREAD_SUSPEND\<rparr>),
      tlists := tl_remove t (tlists s), rt_thread_ready_priority_group := g\<rparr>) = prio s"
    by auto
  let ?L = "(tl_remove t (tlists s))(q := wait_place flag (prio s) t (tlists s q))"
  have "rt_ipc_list_suspend q t flag s = Some (?s1\<lparr>tlists := ?L\<rparr>)"
    using g(1) f e pr by (auto simp: rt_ipc_list_suspend_def wait_place_def tl_insert_before_def)
  moreover have "kinv (?s1\<lparr>tlists := ?L\<rparr>)"
  proof -
    have "sched_inv (?s1\<lparr>tlists := ?L\<rparr>)"
      using sched_ok_wait [OF kinvD(1) [OF g(2)], of t q "wait_place flag (prio s) t (tlists s q)"]
        q nq e g(3) wf_listsD(1) [OF S(1), of q] by simp
    then show ?thesis using kinvD(2,3) [OF g(2)] unfolding kinv_def by (simp add: stacks_ok_def)
  qed
  moreover have "?s1\<lparr>tlists := ?L\<rparr> = s\<lparr>
      threads := (threads s)(t := (threads s t)\<lparr>t_stat := RT_THREAD_SUSPEND\<rparr>),
      tlists := ?L, rt_thread_ready_priority_group := g\<rparr>"
    by simp
  ultimately show thesis by (metis that)
qed

text \<open>A timeout as a signed number. The largest one fails an assertion of \<open>rt_timer_start\<close>.\<close>

lemma odd_div_half: "n < 2 * k \<Longrightarrow> odd (n div k) \<longleftrightarrow> k \<le> n" for n k :: nat
proof (cases "k \<le> n")
  case True
  moreover assume "n < 2 * k"
  ultimately have "n div k = 1" by (intro div_nat_eqI) simp_all
  with True show ?thesis by simp
qed simp

lemma signed_pos:
  "i = (if k \<le> n then int n - 2 * int k else int n) \<Longrightarrow> n < 2 * k \<Longrightarrow> 0 < i \<longleftrightarrow> 0 < n \<and> n < k"
  by auto

lemma sint_pos: "0 < sint (w :: u32) \<longleftrightarrow> 0 < unat w \<and> unat w < 2 ^ 31"
proof -
  have "sint w = (if bit w 31 then uint w - 2 ^ 32 else uint w)"
    using unsigned_less [of w, where ?'a = int]
    by (simp add: sint_uint bit_uint_iff take_bit_eq_mod signed_take_bit_eq_take_bit_minus bit_simps)
  moreover have "bit w 31 \<longleftrightarrow> 2 ^ 31 \<le> unat w"
  proof -
    have "bit w 31 \<longleftrightarrow> bit (unat w) 31" by (simp add: bit_unsigned_iff)
    then have "bit w 31 \<longleftrightarrow> odd (unat w div 2 ^ 31)" by (simp only: bit_iff_odd)
    moreover have "unat w < 2 * 2 ^ 31" using unsigned_less [of w, where ?'a = nat] by simp
    ultimately show ?thesis using odd_div_half [of "unat w" "2 ^ 31"] by blast
  qed
  ultimately have "sint w = (if 2 ^ 31 \<le> unat w then uint w - 2 ^ 32 else uint w)" by (simp only:)
  then have "sint w = (if 2 ^ 31 \<le> unat w then int (unat w) - 2 * int (2 ^ 31) else int (unat w))"
    by simp
  moreover have "unat w < 2 * 2 ^ 31" using unsigned_less [of w, where ?'a = nat] by simp
  ultimately show ?thesis by (rule signed_pos)
qed

definition wait_time :: "u32 \<Rightarrow> bool" where
  "wait_time time \<longleftrightarrow> time \<noteq> 0x7fffffff"

lemma wait_time_half: "wait_time time \<Longrightarrow> 0 < sint time \<Longrightarrow> time < RT_TICK_MAX div 2"
  unfolding half_ticks sint_pos by (auto simp: wait_time_def word_less_nat_alt word_unat_eq_iff)

text \<open>A caller that waits: it is suspended on the list, its timer runs when it gave a time, and
  the most urgent of the other ready threads runs.\<close>

lemma ipc_wait_spec:
  assumes inv: "kinv s" and r: "stat s t = RT_THREAD_READY" and q: "wait_queue q"
    and f: "flag = RT_IPC_FLAG_FIFO \<or> flag = RT_IPC_FLAG_PRIO" and time: "wait_time time"
  obtains s' where "ipc_wait q t flag time s = Some s'" "kinv s'" "kframe s s'"
    "threads s' = (threads s)(t := (threads s t)\<lparr>t_stat := RT_THREAD_SUSPEND\<rparr>)"
    "tlists s' = (tl_remove t (tlists s))(q := wait_place flag (prio s) t (tlists s q))"
    "rt_current_thread s' = rt_current_thread s" "frames s' = frames s" "object_lists s' = object_lists s"
    "\<And>b. b \<noteq> ObjTimer (ThreadTimer t) \<Longrightarrow> objects s' b = objects s b"
    "\<And>x. x \<noteq> ThreadTimer t \<Longrightarrow> timers s' x = timers s x"
    "0 < sint time \<and> \<not> activated s (ThreadTimer t) \<longrightarrow> ThreadTimer t \<in> set (rt_timer_list s') \<and>
       tm_timeout_tick (timers s' (ThreadTimer t)) = rt_tick s + time"
    "set (rt_timer_list s') \<subseteq> insert (ThreadTimer t) (set (rt_timer_list s))"
proof -
  obtain g where g: "rt_ipc_list_suspend q t flag s = Some (s\<lparr>
      threads := (threads s)(t := (threads s t)\<lparr>t_stat := RT_THREAD_SUSPEND\<rparr>),
      tlists := (tl_remove t (tlists s))(q := wait_place flag (prio s) t (tlists s q)),
      rt_thread_ready_priority_group := g\<rparr>)" (is "_ = Some ?s1")
    "kinv (s\<lparr>threads := (threads s)(t := (threads s t)\<lparr>t_stat := RT_THREAD_SUSPEND\<rparr>),
      tlists := (tl_remove t (tlists s))(q := wait_place flag (prio s) t (tlists s q)),
      rt_thread_ready_priority_group := g\<rparr>)"
    using rt_ipc_list_suspend_spec [OF inv r q f] by metis
  show thesis
  proof (cases "0 < sint time")
    case True
    have st: "stat ?s1 t = RT_THREAD_SUSPEND" by simp
    have act: "activated ?s1 (ThreadTimer t) = activated s (ThreadTimer t)"
      by (simp add: activated_def timer_flag_def)
    show thesis
    proof (rule own_timer_start [OF g(2) st wait_time_half [OF time True]], goal_cases)
      case (1 s' r)
      then show thesis using g(1) True act
        by (intro that [of s']) (simp_all add: ipc_wait_def kframe_def)
    qed
  next
    case False
    then show thesis using g by (intro that [of ?s1]) (auto simp: ipc_wait_def)
  qed
qed

lemma ipc_block_spec:
  assumes inv: "kinv s" and c: "rt_current_thread s = Some t" and r: "stat s t = RT_THREAD_READY"
    and q: "wait_queue q" and f: "flag = RT_IPC_FLAG_FIFO \<or> flag = RT_IPC_FLAG_PRIO"
    and time: "wait_time time" and u: "stat s u = RT_THREAD_READY" "u \<noteq> t"
  obtains s1 s' c' where "ipc_wait q t flag time s = Some s1"
    "rt_schedule (s1\<lparr>frames := (frames s1)(t := Some fr)\<rparr>) = Some s'" "kinv s'" "kframe s s'"
    "threads s' = (threads s)(t := (threads s t)\<lparr>t_stat := RT_THREAD_SUSPEND\<rparr>)"
    "tlists s' = (tl_remove t (tlists s))(q := wait_place flag (prio s) t (tlists s q))"
    "frames s' = (frames s)(t := Some fr)" "object_lists s' = object_lists s"
    "\<And>b. b \<noteq> ObjTimer (ThreadTimer t) \<Longrightarrow> objects s' b = objects s b"
    "0 < sint time \<and> \<not> activated s (ThreadTimer t) \<longrightarrow> ThreadTimer t \<in> set (rt_timer_list s') \<and>
       tm_timeout_tick (timers s' (ThreadTimer t)) = rt_tick s + time"
    "rt_current_thread s' = Some c'" "if rt_scheduler_lock_nest s = 0 then highest_ready s' c' else c' = t"
proof -
  obtain s1 where 1: "ipc_wait q t flag time s = Some s1" "kinv s1" "kframe s s1"
    "threads s1 = (threads s)(t := (threads s t)\<lparr>t_stat := RT_THREAD_SUSPEND\<rparr>)"
    "tlists s1 = (tl_remove t (tlists s))(q := wait_place flag (prio s) t (tlists s q))"
    "rt_current_thread s1 = rt_current_thread s" "frames s1 = frames s" "object_lists s1 = object_lists s"
    "\<And>b. b \<noteq> ObjTimer (ThreadTimer t) \<Longrightarrow> objects s1 b = objects s b"
    "\<And>x. x \<noteq> ThreadTimer t \<Longrightarrow> timers s1 x = timers s x"
    "0 < sint time \<and> \<not> activated s (ThreadTimer t) \<longrightarrow> ThreadTimer t \<in> set (rt_timer_list s1) \<and>
       tm_timeout_tick (timers s1 (ThreadTimer t)) = rt_tick s + time"
    by (rule ipc_wait_spec [OF inv r q f time]) blast
  let ?s2 = "s1\<lparr>frames := (frames s1)(t := Some fr)\<rparr>"
  have k2: "kinv ?s2" using 1(2) by simp
  have u2: "stat ?s2 u = RT_THREAD_READY" using 1(4) u by simp
  have c2: "rt_current_thread ?s2 = Some t" using 1(6) c by simp
  obtain c' p where sc: "rt_schedule ?s2 = Some (?s2\<lparr>rt_current_thread := Some c', rt_current_priority := p\<rparr>)"
    "kinv (?s2\<lparr>rt_current_thread := Some c', rt_current_priority := p\<rparr>)"
    "if rt_scheduler_lock_nest ?s2 = 0 then highest_ready ?s2 c' else c' = t"
    by (rule kinv_schedule [OF k2 u2 c2])
  have h: "if rt_scheduler_lock_nest s = 0
      then highest_ready (?s2\<lparr>rt_current_thread := Some c', rt_current_priority := p\<rparr>) c' else c' = t"
    using sc(3) kframeD(3) [OF 1(3)] by (simp split: if_splits)
  show thesis
    by (rule that [OF 1(1) sc(1,2) _ _ _ _ _ _ _ _ h]) (use 1 in simp_all)
qed

text \<open>Waking: the first waiting thread becomes ready and is the last of its priority.\<close>

lemma rt_ipc_list_resume_spec:
  assumes inv: "kinv s" and q: "wait_queue q" "tlists s q = t # ts"
  obtains s' where "rt_ipc_list_resume q s = Some s'" "kinv s'" "kframe s s'"
    "stat s t = RT_THREAD_SUSPEND"
    "threads s' = (threads s)(t := (threads s t)\<lparr>t_stat := RT_THREAD_READY\<rparr>)"
    "tlists s' = tl_insert_before (Ready (unat (prio s t))) t (tl_remove t (tlists s))"
    "tlists s' q = ts" "rt_timer_list s' = remove1 (ThreadTimer t) (rt_timer_list s)" "timers s' = timers s"
    "rt_current_thread s' = rt_current_thread s" "frames s' = frames s"
    "object_lists s' = object_lists s"
    "\<And>b. b \<noteq> ObjTimer (ThreadTimer t) \<Longrightarrow> objects s' b = objects s b"
proof -
  note S = sched_okD [OF kinvD(1) [OF inv]]
  have st: "stat s t = RT_THREAD_SUSPEND"
    using S(2) [of t q] queue_ok_wait [OF q(1), of "threads s t"] q(2) by simp
  have f: "first_thread q s = Some t" using q(2) by (simp add: first_thread_def)
  have qr: "q \<noteq> Ready p" for p using q(1) by (auto simp: wait_queue_def)
  have e: "tl_insert_before (Ready (unat (prio s t))) t (tl_remove t (tlists s)) q = ts"
    using q(2) qr by (simp add: tl_insert_before_def tl_remove_def)
  show thesis
  proof (rule rt_thread_resume_spec [OF inv st], goal_cases)
    case (1 s')
    then show thesis by (intro that [of s']) (simp_all add: rt_ipc_list_resume_def f st e)
  qed
qed

lemma rt_ipc_list_resume_all_spec:
  assumes "kinv s" "wait_queue q"
  shows "\<exists>s'. rt_ipc_list_resume_all q s = Some s' \<and> kinv s' \<and> kframe s s' \<and> tlists s' q = [] \<and>
    (\<forall>q'. wait_queue q' \<longrightarrow> q' \<noteq> q \<longrightarrow> tlists s' q' = tlists s q') \<and>
    threads s' = (\<lambda>t. if t \<in> set (tlists s q) then (threads s t)\<lparr>t_error := - RT_ERROR, t_stat := RT_THREAD_READY\<rparr>
                      else threads s t) \<and>
    rt_current_thread s' = rt_current_thread s \<and> frames s' = frames s \<and> object_lists s' = object_lists s \<and>
    (\<forall>b. (\<forall>t. b \<noteq> ObjTimer (ThreadTimer t)) \<longrightarrow> objects s' b = objects s b)"
  using assms(1)
proof (induction "tlists s q" arbitrary: s)
  case Nil
  then show ?case by (intro exI [of _ s]) (simp add: rt_ipc_list_resume_all.simps)
next
  case (Cons t ts)
  let ?s0 = "thread_at t (t_error_update (\<lambda>_. - RT_ERROR)) s"
  have k0: "kinv ?s0" using Cons.prems by simp
  have L: "tlists s q = t # ts" using Cons.hyps(2) by simp
  note S = sched_okD [OF kinvD(1) [OF Cons.prems]]
  have st: "stat s t = RT_THREAD_SUSPEND"
    using S(2) [of t q] queue_ok_wait [OF assms(2), of "threads s t"] L by simp
  have st0: "stat ?s0 t = RT_THREAD_SUSPEND" using st by simp
  have nt: "t \<notin> set ts" using wf_listsD(1) [OF S(1), of q] L by simp
  have qr: "q \<noteq> Ready p" for p using assms(2) by (auto simp: wait_queue_def)
  obtain s1 where s1: "rt_thread_resume t ?s0 = Some (RT_EOK, s1)" "kinv s1" "kframe ?s0 s1"
    "threads s1 = (threads ?s0)(t := (threads ?s0 t)\<lparr>t_stat := RT_THREAD_READY\<rparr>)"
    "tlists s1 = tl_insert_before (Ready (unat (prio ?s0 t))) t (tl_remove t (tlists ?s0))"
    "rt_current_thread s1 = rt_current_thread ?s0" "frames s1 = frames ?s0"
    "object_lists s1 = object_lists ?s0"
    "\<And>b. b \<noteq> ObjTimer (ThreadTimer t) \<Longrightarrow> objects s1 b = objects ?s0 b"
    using rt_thread_resume_spec [OF k0 st0] by metis
  have q1: "ts = tlists s1 q" using L qr by (simp add: s1(5) tl_insert_before_def tl_remove_def)
  have other: "tlists s1 q' = tlists s q'" if "wait_queue q'" "q' \<noteq> q" for q'
  proof -
    have "t \<notin> set (tlists s q')" using wf_listsD(2) [OF S(1), of t q' q] that(2) L by auto
    moreover have "q' \<noteq> Ready p" for p using that(1) by (auto simp: wait_queue_def)
    ultimately show ?thesis by (simp add: s1(5) tl_insert_before_def tl_remove_def remove1_idem)
  qed
  obtain s' where s': "rt_ipc_list_resume_all q s1 = Some s'" "kinv s'" "kframe s1 s'" "tlists s' q = []"
    "\<forall>q'. wait_queue q' \<longrightarrow> q' \<noteq> q \<longrightarrow> tlists s' q' = tlists s1 q'"
    "threads s' = (\<lambda>t. if t \<in> set (tlists s1 q) then (threads s1 t)\<lparr>t_error := - RT_ERROR, t_stat := RT_THREAD_READY\<rparr>
                      else threads s1 t)"
    "rt_current_thread s' = rt_current_thread s1" "frames s' = frames s1" "object_lists s' = object_lists s1"
    "\<forall>b. (\<forall>t. b \<noteq> ObjTimer (ThreadTimer t)) \<longrightarrow> objects s' b = objects s1 b"
    using Cons.hyps(1) [OF q1 s1(2)] by blast
  have "kframe s s'" using s1(3) s'(3) by (simp add: kframe_def)
  moreover have "threads s' = (\<lambda>t. if t \<in> set (tlists s q)
      then (threads s t)\<lparr>t_error := - RT_ERROR, t_stat := RT_THREAD_READY\<rparr> else threads s t)"
    unfolding s'(6) q1 [symmetric] L s1(4) using nt by (auto simp: fun_eq_iff)
  moreover have "rt_ipc_list_resume_all q s = Some s'"
    using s1(1) s'(1) L by (simp add: rt_ipc_list_resume_all.simps [of q s])
  ultimately show ?case using s' s1 other by (intro exI [of _ s']) auto
qed

subsection \<open>What a call that waits and a call that wakes do\<close>

text \<open>A thread that may wait: it runs, outside of an interrupt and of a critical region, and
  there is another ready thread, as the idle thread always is.\<close>

definition can_wait :: "kstate \<Rightarrow> nat \<Rightarrow> bool" where
  "can_wait s t \<longleftrightarrow> rt_current_thread s = Some t \<and> stat s t = RT_THREAD_READY \<and>
     rt_interrupt_nest s = 0 \<and> rt_scheduler_lock_nest s = 0 \<and>
     (\<exists>u. u \<noteq> t \<and> stat s u = RT_THREAD_READY)"

text \<open>From \<open>s\<close> to \<open>s'\<close> the thread, now \<open>th\<close>, has gone to the list \<open>q\<close> with its place in the call in
  \<open>fr\<close>; its timer runs if the time is positive; and the most urgent ready thread runs.\<close>

definition waits_on ::
  "list_head \<Rightarrow> nat \<Rightarrow> u8 \<Rightarrow> u32 \<Rightarrow> frame \<Rightarrow> rt_thread \<Rightarrow> kstate \<Rightarrow> kstate \<Rightarrow> bool" where
  "waits_on q t flag time fr th s s' \<longleftrightarrow> kinv s' \<and> kframe s s' \<and>
     threads s' = (threads s)(t := th\<lparr>t_stat := RT_THREAD_SUSPEND\<rparr>) \<and>
     tlists s' = (tl_remove t (tlists s))(q := wait_place flag (prio s) t (tlists s q)) \<and>
     frames s' = (frames s)(t := Some fr) \<and> object_lists s' = object_lists s \<and>
     (\<forall>b. b \<noteq> ObjTimer (ThreadTimer t) \<longrightarrow> objects s' b = objects s b) \<and>
     (0 < sint time \<and> \<not> activated s (ThreadTimer t) \<longrightarrow> ThreadTimer t \<in> set (rt_timer_list s') \<and>
       tm_timeout_tick (timers s' (ThreadTimer t)) = rt_tick s + time) \<and>
     (\<exists>c. rt_current_thread s' = Some c \<and> c \<noteq> t \<and> highest_ready s' c)"

lemma ipc_block:
  assumes inv: "kinv s" and w: "can_wait s t" and q: "wait_queue q"
    and f: "flag = RT_IPC_FLAG_FIFO \<or> flag = RT_IPC_FLAG_PRIO" and time: "wait_time time"
    and th: "same_sched th (threads s t)" "stack_ok th = stack_ok (threads s t)"
  shows "\<exists>s1 s'. ipc_wait q t flag time (s\<lparr>threads := (threads s)(t := th)\<rparr>) = Some s1 \<and>
    rt_schedule (s1\<lparr>frames := (frames s1)(t := Some fr)\<rparr>) = Some s' \<and>
    waits_on q t flag time fr th s s'"
proof -
  let ?s0 = "s\<lparr>threads := (threads s)(t := th)\<rparr>"
  have k0: "kinv ?s0"
    using inv kinv_threads [of "(threads s)(t := th)" s] th by (simp add: same_sched_def)
  have p0: "prio ?s0 = prio s" and st0: "stat ?s0 v = stat s v" for v
    using th(1) by (auto simp: same_sched_def)
  have a0: "activated ?s0 x = activated s x" for x by (simp add: activated_def timer_flag_def)
  obtain u where u: "u \<noteq> t" "stat s u = RT_THREAD_READY" using w by (auto simp: can_wait_def)
  have c0: "rt_current_thread ?s0 = Some t" and r0: "stat ?s0 t = RT_THREAD_READY"
    and u0: "stat ?s0 u = RT_THREAD_READY"
    unfolding st0 using w u by (simp_all add: can_wait_def)
  have lock: "rt_scheduler_lock_nest s = 0" using w by (simp add: can_wait_def)
  obtain s1 s' c' where b: "ipc_wait q t flag time ?s0 = Some s1"
    "rt_schedule (s1\<lparr>frames := (frames s1)(t := Some fr)\<rparr>) = Some s'" "kinv s'" "kframe ?s0 s'"
    "threads s' = (threads ?s0)(t := (threads ?s0 t)\<lparr>t_stat := RT_THREAD_SUSPEND\<rparr>)"
    "tlists s' = (tl_remove t (tlists ?s0))(q := wait_place flag (prio ?s0) t (tlists ?s0 q))"
    "frames s' = (frames ?s0)(t := Some fr)" "object_lists s' = object_lists ?s0"
    "\<And>b. b \<noteq> ObjTimer (ThreadTimer t) \<Longrightarrow> objects s' b = objects ?s0 b"
    "0 < sint time \<and> \<not> activated ?s0 (ThreadTimer t) \<longrightarrow> ThreadTimer t \<in> set (rt_timer_list s') \<and>
       tm_timeout_tick (timers s' (ThreadTimer t)) = rt_tick ?s0 + time"
    "rt_current_thread s' = Some c'" "if rt_scheduler_lock_nest ?s0 = 0 then highest_ready s' c' else c' = t"
    by (rule ipc_block_spec [OF k0 c0 r0 q f time u0 u(1)]) blast
  have h: "highest_ready s' c'" using b(12) lock by simp
  then have "c' \<noteq> t" using b(5) by (auto simp: highest_ready_def)
  moreover have "kframe s s'" using b(4) by (simp add: kframe_def)
  ultimately have "waits_on q t flag time fr th s s'"
    using b(3-11) h p0 a0 unfolding waits_on_def by auto
  with b(1,2) show ?thesis by blast
qed

text \<open>From \<open>s\<close> to \<open>s'\<close> the first thread \<open>t\<close> of the list \<open>q\<close> has become ready.\<close>

definition woken :: "list_head \<Rightarrow> nat \<Rightarrow> kstate \<Rightarrow> kstate \<Rightarrow> bool" where
  "woken q t s s' \<longleftrightarrow> kinv s' \<and> kframe s s' \<and> stat s t = RT_THREAD_SUSPEND \<and>
     threads s' = (threads s)(t := (threads s t)\<lparr>t_stat := RT_THREAD_READY\<rparr>) \<and>
     tlists s' = tl_insert_before (Ready (unat (prio s t))) t (tl_remove t (tlists s)) \<and>
     tlists s' q = tl (tlists s q) \<and> rt_timer_list s' = remove1 (ThreadTimer t) (rt_timer_list s) \<and>
     frames s' = frames s \<and> object_lists s' = object_lists s \<and>
     (\<forall>b. b \<noteq> ObjTimer (ThreadTimer t) \<longrightarrow> objects s' b = objects s b) \<and>
     (\<forall>c. rt_current_thread s = Some c \<longrightarrow> (\<exists>c'. rt_current_thread s' = Some c' \<and>
        (if rt_scheduler_lock_nest s = 0 then highest_ready s' c' else c' = c)))"

lemma ipc_resume:
  assumes inv: "kinv s" and c: "rt_current_thread s = Some c" and q: "wait_queue q" "tlists s q = t # ts"
  shows "\<exists>s1 s'. rt_ipc_list_resume q s = Some s1 \<and> rt_schedule s1 = Some s' \<and> woken q t s s'"
proof -
  obtain s1 where s1: "rt_ipc_list_resume q s = Some s1" "kinv s1" "kframe s s1"
    "stat s t = RT_THREAD_SUSPEND"
    "threads s1 = (threads s)(t := (threads s t)\<lparr>t_stat := RT_THREAD_READY\<rparr>)"
    "tlists s1 = tl_insert_before (Ready (unat (prio s t))) t (tl_remove t (tlists s))"
    "tlists s1 q = ts" "rt_timer_list s1 = remove1 (ThreadTimer t) (rt_timer_list s)" "timers s1 = timers s"
    "rt_current_thread s1 = rt_current_thread s" "frames s1 = frames s"
    "object_lists s1 = object_lists s"
    "\<And>b. b \<noteq> ObjTimer (ThreadTimer t) \<Longrightarrow> objects s1 b = objects s b"
    by (rule rt_ipc_list_resume_spec [OF inv q]) blast
  have u: "stat s1 t = RT_THREAD_READY" using s1(5) by simp
  have c1: "rt_current_thread s1 = Some c" using s1(10) c by simp
  obtain c' p where sc: "rt_schedule s1 = Some (s1\<lparr>rt_current_thread := Some c', rt_current_priority := p\<rparr>)"
    "kinv (s1\<lparr>rt_current_thread := Some c', rt_current_priority := p\<rparr>)"
    "if rt_scheduler_lock_nest s1 = 0 then highest_ready s1 c' else c' = c"
    by (rule kinv_schedule [OF s1(2) u c1])
  have "if rt_scheduler_lock_nest s = 0
      then highest_ready (s1\<lparr>rt_current_thread := Some c', rt_current_priority := p\<rparr>) c' else c' = c"
    using sc(3) kframeD(3) [OF s1(3)] by (simp split: if_splits)
  then have "woken q t s (s1\<lparr>rt_current_thread := Some c', rt_current_priority := p\<rparr>)"
    using s1 sc(2) q(2) c unfolding woken_def by simp
  with s1(1) sc(1) show ?thesis by blast
qed

lemma wokenD:
  assumes "woken q t s s'"
  shows "kinv s'" "kframe s s'" "stat s t = RT_THREAD_SUSPEND"
    "threads s' = (threads s)(t := (threads s t)\<lparr>t_stat := RT_THREAD_READY\<rparr>)"
    "tlists s' q = tl (tlists s q)"
    "tlists s' = tl_insert_before (Ready (unat (prio s t))) t (tl_remove t (tlists s))"
    "frames s' = frames s" "object_lists s' = object_lists s"
    "\<And>b. b \<noteq> ObjTimer (ThreadTimer t) \<Longrightarrow> objects s' b = objects s b"
    "\<And>c. rt_current_thread s = Some c \<Longrightarrow> \<exists>c'. rt_current_thread s' = Some c' \<and>
        (if rt_scheduler_lock_nest s = 0 then highest_ready s' c' else c' = c)"
    "rt_timer_list s' = remove1 (ThreadTimer t) (rt_timer_list s)"
  using assms unfolding woken_def by blast+

lemma woken_current:
  "woken q t s s' \<Longrightarrow> rt_current_thread s \<noteq> None \<Longrightarrow> rt_current_thread s' \<noteq> None"
  unfolding woken_def by auto

text \<open>The calls that start their timeout again after each wait note the tick when they wait, and
  clear the error of the last call.\<close>

definition wait_start :: "u32 \<Rightarrow> u32 \<Rightarrow> kstate \<Rightarrow> u32" where
  "wait_start timeout tick_delta s = (if 0 < sint timeout then rt_tick s else tick_delta)"

definition no_error :: "nat \<Rightarrow> kstate \<Rightarrow> rt_thread" where
  "no_error t s = (threads s t)\<lparr>t_error := RT_EOK\<rparr>"

subsection \<open>States for the witnesses\<close>

lemma demo_can_wait [simp]: "can_wait demo 3"
  unfolding can_wait_def by (auto intro!: exI [of _ 10])

lemma demo_objects [simp]:
  "semaphores demo a = \<lparr>sem_value = 0\<rparr>" "events demo a = \<lparr>ev_set = 0\<rparr>" "frames demo t = None"
  "mutexes demo a = \<lparr>mu_value = 1, mu_original_priority = 0xff, mu_hold = 0, mu_owner = None\<rparr>"
  "mailboxes demo a = \<lparr>mb_msg_pool = 0, mb_msgs = (\<lambda>i. 0), mb_size = 4, mb_entry = 0, mb_in_offset = 0, mb_out_offset = 0\<rparr>"
  "wait_queue q \<Longrightarrow> tlists demo q = []"
  by (auto simp: demo_def wait_queue_def)

text \<open>The suspended thread waits on a list.\<close>

definition demo_waiting :: "list_head \<Rightarrow> kstate" where
  "demo_waiting q = demo\<lparr>tlists := (tlists demo)(q := [2])\<rparr>"

lemma demo_waiting_simps [simp]:
  "wait_queue q \<Longrightarrow> kinv (demo_waiting q)" "tlists (demo_waiting q) q = [2]"
  "can_wait (demo_waiting q) 3" "rt_current_thread (demo_waiting q) = Some 3"
proof -
  show "kinv (demo_waiting q)" if q: "wait_queue q"
  proof -
    have e: "tlists demo q = []" using q by (auto simp: demo_def wait_queue_def)
    have "sched_inv (demo_waiting q)"
      using sched_ok_wait [OF demo_inv, of 2 q "[2]"] q e by (simp add: demo_waiting_def)
    then show ?thesis using kinvD(2,3) [OF demo_kinv] by (simp add: kinv_def demo_waiting_def stacks_ok_def)
  qed
  show "can_wait (demo_waiting q) 3"
    using demo_can_wait by (simp add: can_wait_def demo_waiting_def)
qed (simp_all add: demo_waiting_def)

lemma demo_flag [simp]: "obj_flag b demo = RT_IPC_FLAG_FIFO" "obj_flag b (demo_waiting q) = RT_IPC_FLAG_FIFO"
  by (simp_all add: obj_flag_def demo_waiting_def demo_def)

end
