(* ===== verification/RtCompletion.thy ===== *)
theory RtCompletion
  imports RtIpc
begin

text \<open>
  The completions of \<^verbatim>\<open>components/drivers/src/completion.c\<close>: a flag, and a list for at most one
  thread that waits until it is set.
\<close>

subsection \<open>Operations\<close>

abbreviation RT_COMPLETED :: u32 where "RT_COMPLETED \<equiv> 1"
abbreviation RT_UNCOMPLETED :: u32 where "RT_UNCOMPLETED \<equiv> 0"

record completion_state =
  ck :: kstate
  completion_flag :: "nat \<Rightarrow> u32"

abbreviation flag_at :: "nat \<Rightarrow> u32 \<Rightarrow> completion_state \<Rightarrow> completion_state" where
  "flag_at a v s \<equiv> s\<lparr>completion_flag := (completion_flag s)(a := v)\<rparr>"

definition rt_completion_init :: "nat \<Rightarrow> completion_state \<Rightarrow> completion_state" where
  "rt_completion_init a s =
     (let s = flag_at a RT_UNCOMPLETED s in s\<lparr>ck := rt_ipc_object_init (CompletionQ a) (ck s)\<rparr>)"

definition rt_completion_wait ::
  "nat \<Rightarrow> u32 \<Rightarrow> completion_state \<Rightarrow> (rt_err_t call \<times> completion_state) option" where
  "rt_completion_wait a timeout s =
     (if completion_flag s a \<noteq> RT_COMPLETED
      then RT_ASSERT (tlists (ck s) (CompletionQ a) = [])
        (if timeout = 0 then Some (Returns (- RT_ETIMEOUT), s)
         else do {
           t \<leftarrow> rt_thread_self (ck s);
           let k = thread_at t (t_error_update (\<lambda>_. RT_EOK)) (ck s);
           RT_DEBUG_NOT_IN_INTERRUPT k (do {
             k \<leftarrow> ipc_wait (CompletionQ a) t RT_IPC_FLAG_FIFO timeout k;
             k \<leftarrow> rt_schedule (k\<lparr>frames := (frames k)(t := Some (InCompletion a))\<rparr>);
             Some (Waits, s\<lparr>ck := k\<rparr>) }) })
      else Some (Returns RT_EOK, s))"

definition rt_completion_wait_wake ::
  "nat \<Rightarrow> nat \<Rightarrow> completion_state \<Rightarrow> rt_err_t \<times> completion_state" where
  "rt_completion_wait_wake t a s =
     (t_error (threads (ck s) t),
      flag_at a RT_UNCOMPLETED (s\<lparr>ck := (ck s)\<lparr>frames := (frames (ck s))(t := None)\<rparr>\<rparr>))"

definition rt_completion_done :: "nat \<Rightarrow> completion_state \<Rightarrow> completion_state option" where
  "rt_completion_done a s =
     (if completion_flag s a = RT_COMPLETED then Some s
      else let s = flag_at a RT_COMPLETED s
        in if tlists (ck s) (CompletionQ a) \<noteq> []
           then do {
             k \<leftarrow> rt_ipc_list_resume (CompletionQ a) (ck s);
             k \<leftarrow> rt_schedule k;
             Some (s\<lparr>ck := k\<rparr>) }
           else Some s)"

subsection \<open>What the operations do\<close>

lemma rt_completion_wait_spec:
  assumes "kinv (ck s)" "can_wait (ck s) t" "wait_time timeout" "tlists (ck s) (CompletionQ a) = []"
  shows "\<exists>r s'. rt_completion_wait a timeout s = Some (r, s') \<and> completion_flag s' = completion_flag s \<and>
    (if completion_flag s a = RT_COMPLETED then r = Returns RT_EOK \<and> s' = s
     else if timeout = 0 then r = Returns (- RT_ETIMEOUT) \<and> s' = s
     else r = Waits \<and> waits_on (CompletionQ a) t RT_IPC_FLAG_FIFO timeout (InCompletion a)
       (no_error t (ck s)) (ck s) (ck s'))"
proof -
  consider "completion_flag s a = RT_COMPLETED" | "completion_flag s a \<noteq> RT_COMPLETED" "timeout = 0"
    | (wait) "completion_flag s a \<noteq> RT_COMPLETED" "timeout \<noteq> 0" by blast
  then show ?thesis
  proof cases
    case wait
    have th: "same_sched (no_error t (ck s)) (threads (ck s) t)"
      "stack_ok (no_error t (ck s)) = stack_ok (threads (ck s) t)"
      by (simp_all add: same_sched_def stack_ok_def no_error_def)
    obtain k1 k' where b: "ipc_wait (CompletionQ a) t RT_IPC_FLAG_FIFO timeout
        ((ck s)\<lparr>threads := (threads (ck s))(t := no_error t (ck s))\<rparr>) = Some k1"
      "rt_schedule (k1\<lparr>frames := (frames k1)(t := Some (InCompletion a))\<rparr>) = Some k'"
      "waits_on (CompletionQ a) t RT_IPC_FLAG_FIFO timeout (InCompletion a) (no_error t (ck s)) (ck s) k'"
      using ipc_block [OF assms(1,2) _ _ assms(3) th, of "CompletionQ a" RT_IPC_FLAG_FIFO "InCompletion a"] by auto
    have "rt_completion_wait a timeout s = Some (Waits, s\<lparr>ck := k'\<rparr>)"
      using wait assms(2,4) b(1,2)
      by (simp add: rt_completion_wait_def can_wait_def rt_thread_self_def no_error_def)
    then show ?thesis using wait b(3) by simp
  qed (use assms(4) in \<open>auto simp: rt_completion_wait_def\<close>)
qed

lemma rt_completion_done_spec:
  assumes "kinv (ck s)" "rt_current_thread (ck s) = Some c"
  shows "\<exists>s'. rt_completion_done a s = Some s' \<and> completion_flag s' = (completion_flag s)(a := RT_COMPLETED) \<and>
    (case tlists (ck s) (CompletionQ a) of
       [] \<Rightarrow> ck s' = ck s
     | t # _ \<Rightarrow> if completion_flag s a = RT_COMPLETED then ck s' = ck s else woken (CompletionQ a) t (ck s) (ck s'))"
proof (cases "tlists (ck s) (CompletionQ a) = [] \<or> completion_flag s a = RT_COMPLETED")
  case True
  then show ?thesis by (auto simp: rt_completion_done_def split: list.splits)
next
  case False
  then obtain t ts where L: "tlists (ck s) (CompletionQ a) = t # ts" by (cases "tlists (ck s) (CompletionQ a)") auto
  from ipc_resume [OF assms _ L]
  obtain k1 k' where "rt_ipc_list_resume (CompletionQ a) (ck s) = Some k1" "rt_schedule k1 = Some k'"
    "woken (CompletionQ a) t (ck s) k'" by auto
  then show ?thesis using False L by (simp add: rt_completion_done_def)
qed



text \<open>A completion that comes between the end of a thread's timeout and its next turn is lost: the
  thread returns \<open>-RT_ETIMEOUT\<close> and takes the flag back.\<close>

lemma completion_lost_after_timeout:
  assumes "tlists (ck s) (CompletionQ a) = []" "t_error (threads (ck s) t) = - RT_ETIMEOUT"
  shows "\<exists>s1. rt_completion_done a s = Some s1 \<and>
    fst (rt_completion_wait_wake t a s1) = - RT_ETIMEOUT \<and>
    completion_flag (snd (rt_completion_wait_wake t a s1)) a = RT_UNCOMPLETED"
  using assms by (simp add: rt_completion_done_def rt_completion_wait_wake_def Let_def)

text \<open>A wait that does not block leaves the flag set: every later wait returns at once as well.\<close>

lemma completion_not_consumed:
  "completion_flag s a = RT_COMPLETED \<Longrightarrow> rt_completion_wait a timeout s = Some (Returns RT_EOK, s)"
  by (simp add: rt_completion_wait_def)

end
