(* ===== verification/RtChannel.thy ===== *)
theory RtChannel
  imports Main
begin

text \<open>
  What the mailboxes and the message queues promise to their users: values come out in the order
  they went in. The contract is a locale over the two calls that do not wait, one law for each;
  the components that provide a channel interpret it on their own calls.
\<close>

datatype 'v channel_op = Put 'v | Get

text \<open>A sequence of calls: the values taken in, the values given out, and the last state.\<close>

fun channel_run ::
  "('v \<Rightarrow> 's \<Rightarrow> (bool \<times> 's) option) \<Rightarrow> ('s \<Rightarrow> ('v option \<times> 's) option) \<Rightarrow>
   'v channel_op list \<Rightarrow> 's \<Rightarrow> ('v list \<times> 'v list \<times> 's) option" where
  "channel_run put get [] s = Some ([], [], s)"
| "channel_run put get (Put v # ops) s =
     (case put v s of
        None \<Rightarrow> None
      | Some (ok, s1) \<Rightarrow>
          (case channel_run put get ops s1 of
             None \<Rightarrow> None
           | Some (ins, outs, s2) \<Rightarrow> Some (if ok then v # ins else ins, outs, s2)))"
| "channel_run put get (Get # ops) s =
     (case get s of
        None \<Rightarrow> None
      | Some (r, s1) \<Rightarrow>
          (case channel_run put get ops s1 of
             None \<Rightarrow> None
           | Some (ins, outs, s2) \<Rightarrow>
               Some (ins, case r of None \<Rightarrow> outs | Some v \<Rightarrow> v # outs, s2)))"

text \<open>The reference: the same calls on a list of bounded length.\<close>

fun bounded_run :: "nat \<Rightarrow> 'v channel_op list \<Rightarrow> 'v list \<Rightarrow> 'v list \<times> 'v list \<times> 'v list" where
  "bounded_run cap [] xs = ([], [], xs)"
| "bounded_run cap (Put v # ops) xs =
     (if length xs < cap
      then (case bounded_run cap ops (xs @ [v]) of (ins, outs, ys) \<Rightarrow> (v # ins, outs, ys))
      else bounded_run cap ops xs)"
| "bounded_run cap (Get # ops) xs =
     (case xs of
        [] \<Rightarrow> bounded_run cap ops []
      | x # rest \<Rightarrow> (case bounded_run cap ops rest of (ins, outs, ys) \<Rightarrow> (ins, x # outs, ys)))"

lemma bounded_run_fifo:
  "bounded_run cap ops xs = (ins, outs, ys) \<Longrightarrow> xs @ ins = outs @ ys"
  by (induction cap ops xs arbitrary: ins outs ys rule: bounded_run.induct)
    (auto split: if_splits list.splits prod.splits)

locale channel =
  fixes inv :: "'s \<Rightarrow> bool"
    and items :: "'s \<Rightarrow> 'v list"
    and cap :: "'s \<Rightarrow> nat"
    and msg :: "'s \<Rightarrow> 'v \<Rightarrow> bool"
    and put :: "'v \<Rightarrow> 's \<Rightarrow> (bool \<times> 's) option"
    and get :: "'s \<Rightarrow> ('v option \<times> 's) option"
  assumes put_law: "inv s \<Longrightarrow> msg s v \<Longrightarrow> \<exists>s'. put v s = Some (length (items s) < cap s, s') \<and> inv s' \<and>
      cap s' = cap s \<and> msg s' = msg s \<and> items s' = (if length (items s) < cap s then items s @ [v] else items s)"
    and get_law: "inv s \<Longrightarrow> \<exists>s'. get s = Some (case items s of [] \<Rightarrow> None | v # _ \<Rightarrow> Some v, s') \<and> inv s' \<and>
      cap s' = cap s \<and> msg s' = msg s \<and> items s' = tl (items s)"
begin

lemma run_refines:
  assumes "inv s" "\<forall>v. Put v \<in> set ops \<longrightarrow> msg s v"
  shows "\<exists>ins outs s'. channel_run put get ops s = Some (ins, outs, s') \<and> inv s' \<and>
    bounded_run (cap s) ops (items s) = (ins, outs, items s')"
  using assms
proof (induction ops arbitrary: s)
  case Nil
  then show ?case by simp
next
  case (Cons opn ops)
  show ?case
  proof (cases opn)
    case (Put v)
    obtain s1 where s1: "put v s = Some (length (items s) < cap s, s1)" "inv s1" "cap s1 = cap s"
      "msg s1 = msg s" "items s1 = (if length (items s) < cap s then items s @ [v] else items s)"
      using put_law Cons.prems Put by (metis list.set_intros(1))
    have "\<forall>v. Put v \<in> set ops \<longrightarrow> msg s1 v" using Cons.prems(2) s1(4) by simp
    from Cons.IH [OF s1(2) this] show ?thesis
      using s1 Put by (auto split: prod.splits)
  next
    case Get
    obtain s1 where s1: "get s = Some (case items s of [] \<Rightarrow> None | v # _ \<Rightarrow> Some v, s1)" "inv s1"
      "cap s1 = cap s" "msg s1 = msg s" "items s1 = tl (items s)"
      using get_law [OF Cons.prems(1)] by blast
    have "\<forall>v. Put v \<in> set ops \<longrightarrow> msg s1 v" using Cons.prems(2) s1(4) by simp
    from Cons.IH [OF s1(2) this] show ?thesis
      using s1 Get by (cases "items s") (auto split: prod.splits)
  qed
qed

lemma run_fifo:
  assumes "inv s" "\<forall>v. Put v \<in> set ops \<longrightarrow> msg s v"
  shows "\<exists>ins outs s'. channel_run put get ops s = Some (ins, outs, s') \<and> inv s' \<and>
    bounded_run (cap s) ops (items s) = (ins, outs, items s') \<and> items s @ ins = outs @ items s'"
  using run_refines [OF assms] bounded_run_fifo by metis

end

end
