(* ===== verification/RtDataQueue.thy ===== *)
theory RtDataQueue
  imports RtIpc RtChannel
begin

text \<open>
  The data queues of \<^verbatim>\<open>components/drivers/src/dataqueue.c\<close>: a ring of pointers with their lengths
  between two counters of 16 bits, a list of the threads that wait to push and one of those that
  wait to pop. The notification function is a parameter: what a call of it does with the state.
\<close>

subsection \<open>Data\<close>

record rt_data_queue =
  dq_size :: u16
  dq_lwm :: u16
  dq_waiting_lwm :: bool
  dq_get_index :: u16
  dq_put_index :: u16
  dq_queue :: "nat option"
  dq_cells :: "nat \<Rightarrow> u32 \<times> u32"
  dq_evt_notify :: "nat option"

record dq_state =
  dqk :: kstate
  dqs :: "nat \<Rightarrow> rt_data_queue"

type_synonym notify = "nat \<Rightarrow> nat \<Rightarrow> u32 \<Rightarrow> dq_state \<Rightarrow> dq_state option"

abbreviation RT_DATAQUEUE_EVENT_UNKNOWN :: u32 where "RT_DATAQUEUE_EVENT_UNKNOWN \<equiv> 0"
abbreviation RT_DATAQUEUE_EVENT_POP :: u32 where "RT_DATAQUEUE_EVENT_POP \<equiv> 1"
abbreviation RT_DATAQUEUE_EVENT_PUSH :: u32 where "RT_DATAQUEUE_EVENT_PUSH \<equiv> 2"
abbreviation RT_DATAQUEUE_EVENT_LWM :: u32 where "RT_DATAQUEUE_EVENT_LWM \<equiv> 3"

abbreviation dq_at :: "nat \<Rightarrow> (rt_data_queue \<Rightarrow> rt_data_queue) \<Rightarrow> dq_state \<Rightarrow> dq_state" where
  "dq_at a f s \<equiv> s\<lparr>dqs := (dqs s)(a := f (dqs s a))\<rparr>"

subsection \<open>Operations\<close>

definition notify_event :: "notify \<Rightarrow> nat \<Rightarrow> u32 \<Rightarrow> dq_state \<Rightarrow> dq_state option" where
  "notify_event call a event s =
     (case dq_evt_notify (dqs s a) of None \<Rightarrow> Some s | Some f \<Rightarrow> call f a event s)"

text \<open>The counters are promoted to \<^verbatim>\<open>int\<close> before they are subtracted; the place in the ring is taken
  with the mask.\<close>

definition dq_filled :: "rt_data_queue \<Rightarrow> int" where
  "dq_filled q = uint (dq_put_index q) - uint (dq_get_index q)"

definition dq_place :: "u16 \<Rightarrow> rt_data_queue \<Rightarrow> nat" where
  "dq_place i q = unat (i AND (dq_size q - 1))"

definition rt_data_queue_init ::
  "nat \<Rightarrow> u16 \<Rightarrow> u16 \<Rightarrow> nat option \<Rightarrow> dq_state \<Rightarrow> (rt_err_t \<times> dq_state) option" where
  "rt_data_queue_init a sz lwm evt_notify s =
     do {
       let s = dq_at a (\<lambda>q. q\<lparr>dq_evt_notify := evt_notify, dq_size := sz, dq_lwm := lwm,
         dq_waiting_lwm := False, dq_get_index := 0, dq_put_index := 0\<rparr>) s;
       let s = s\<lparr>dqk := rt_ipc_object_init (DqPopQ a) (rt_ipc_object_init (DqPushQ a) (dqk s))\<rparr>;
       (r, k) \<leftarrow> k_malloc (8 * ucast sz) (dqk s);
       let s = dq_at a (dq_queue_update (\<lambda>_. r)) (s\<lparr>dqk := k\<rparr>);
       Some (if r = None then - RT_ENOMEM else RT_EOK, s) }"

text \<open>The caller waits on a list of the queue.\<close>

definition dq_wait :: "list_head \<Rightarrow> frame \<Rightarrow> u32 \<Rightarrow> dq_state \<Rightarrow> (rt_err_t call \<times> dq_state) option" where
  "dq_wait q fr timeout s =
     RT_DEBUG_NOT_IN_INTERRUPT (dqk s)
       (do {
          t \<leftarrow> rt_thread_self (dqk s);
          let k = thread_at t (t_error_update (\<lambda>_. RT_EOK)) (dqk s);
          k \<leftarrow> ipc_wait q t RT_IPC_FLAG_FIFO timeout k;
          k \<leftarrow> rt_schedule (k\<lparr>frames := (frames k)(t := Some fr)\<rparr>);
          Some (Waits, s\<lparr>dqk := k\<rparr>) })"

text \<open>The first waiting thread of a list goes on.\<close>

definition dq_wake :: "list_head \<Rightarrow> dq_state \<Rightarrow> dq_state option" where
  "dq_wake q s =
     do {
       k \<leftarrow> rt_ipc_list_resume q (dqk s);
       k \<leftarrow> rt_schedule k;
       Some (s\<lparr>dqk := k\<rparr>) }"

definition dq_store :: "u32 \<Rightarrow> u32 \<Rightarrow> rt_data_queue \<Rightarrow> rt_data_queue" where
  "dq_store data_ptr data_size q =
     q\<lparr>dq_cells := (dq_cells q)(dq_place (dq_put_index q) q := (data_ptr, data_size)),
       dq_put_index := dq_put_index q + 1\<rparr>"

definition dq_push_loop ::
  "notify \<Rightarrow> nat \<Rightarrow> u32 \<Rightarrow> u32 \<Rightarrow> u32 \<Rightarrow> dq_state \<Rightarrow> (rt_err_t call \<times> dq_state) option" where
  "dq_push_loop call a data_ptr data_size timeout s =
     (if dq_filled (dqs s a) = uint (dq_size (dqs s a))
      then let s = dq_at a (dq_waiting_lwm_update (\<lambda>_. True)) s
        in if timeout = 0 then Some (Returns (- RT_ETIMEOUT), s)
           else dq_wait (DqPushQ a) (InDqPush a data_ptr data_size timeout) timeout s
      else let s = dq_at a (dq_store data_ptr data_size) s
        in if tlists (dqk s) (DqPopQ a) \<noteq> []
           then map_option (Pair (Returns RT_EOK)) (dq_wake (DqPopQ a) s)
           else map_option (Pair (Returns RT_EOK)) (notify_event call a RT_DATAQUEUE_EVENT_PUSH s))"

definition rt_data_queue_push ::
  "notify \<Rightarrow> nat \<Rightarrow> u32 \<Rightarrow> u32 \<Rightarrow> u32 \<Rightarrow> dq_state \<Rightarrow> (rt_err_t call \<times> dq_state) option" where
  "rt_data_queue_push call a data_ptr data_size timeout s = dq_push_loop call a data_ptr data_size timeout s"

definition rt_data_queue_push_wake ::
  "notify \<Rightarrow> nat \<Rightarrow> nat \<Rightarrow> u32 \<Rightarrow> u32 \<Rightarrow> u32 \<Rightarrow> dq_state \<Rightarrow> (rt_err_t call \<times> dq_state) option" where
  "rt_data_queue_push_wake call t a data_ptr data_size timeout s =
     (let s = s\<lparr>dqk := (dqk s)\<lparr>frames := (frames (dqk s))(t := None)\<rparr>\<rparr>;
          result = t_error (threads (dqk s) t)
      in if result \<noteq> RT_EOK then Some (Returns result, s)
         else dq_push_loop call a data_ptr data_size timeout s)"

text \<open>A pop gives the error and what it stores through its pointers. When the thread it wakes runs
  at once, the notification is what is left of it.\<close>

definition dq_first :: "rt_data_queue \<Rightarrow> u32 \<times> u32" where
  "dq_first q = dq_cells q (dq_place (dq_get_index q) q)"

definition dq_pop_loop ::
  "notify \<Rightarrow> nat \<Rightarrow> u32 \<Rightarrow> dq_state \<Rightarrow> ((rt_err_t \<times> (u32 \<times> u32) option) call \<times> dq_state) option" where
  "dq_pop_loop call a timeout s =
     (if dq_get_index (dqs s a) = dq_put_index (dqs s a)
      then if timeout = 0 then Some (Returns (- RT_ETIMEOUT, None), s)
           else do {
             (_, s) \<leftarrow> dq_wait (DqPopQ a) (InDqPop a timeout) timeout s;
             Some (Waits, s) }
      else do {
        let v = dq_first (dqs s a);
        let s = dq_at a (\<lambda>q. q\<lparr>dq_get_index := dq_get_index q + 1\<rparr>) s;
        if dq_waiting_lwm (dqs s a) \<and> dq_filled (dqs s a) \<le> uint (dq_lwm (dqs s a))
        then do {
          let s = dq_at a (dq_waiting_lwm_update (\<lambda>_. False)) s;
          let self = rt_thread_self (dqk s);
          s \<leftarrow> (if tlists (dqk s) (DqPushQ a) \<noteq> [] then dq_wake (DqPushQ a) s else Some s);
          if dq_evt_notify (dqs s a) \<noteq> None \<and> rt_thread_self (dqk s) \<noteq> self \<and> rt_interrupt_get_nest (dqk s) = 0
          then do {
            t \<leftarrow> self;
            Some (Waits, s\<lparr>dqk := (dqk s)\<lparr>frames := (frames (dqk s))(t := Some (InDqNotify a (fst v) (snd v)))\<rparr>\<rparr>) }
          else do {
            s \<leftarrow> notify_event call a RT_DATAQUEUE_EVENT_LWM s;
            Some (Returns (RT_EOK, Some v), s) } }
        else do {
          s \<leftarrow> notify_event call a RT_DATAQUEUE_EVENT_POP s;
          Some (Returns (RT_EOK, Some v), s) } })"

definition rt_data_queue_pop ::
  "notify \<Rightarrow> nat \<Rightarrow> u32 \<Rightarrow> dq_state \<Rightarrow> ((rt_err_t \<times> (u32 \<times> u32) option) call \<times> dq_state) option" where
  "rt_data_queue_pop call a timeout s = dq_pop_loop call a timeout s"

definition rt_data_queue_pop_wake ::
  "notify \<Rightarrow> nat \<Rightarrow> nat \<Rightarrow> u32 \<Rightarrow> dq_state \<Rightarrow> ((rt_err_t \<times> (u32 \<times> u32) option) call \<times> dq_state) option" where
  "rt_data_queue_pop_wake call t a timeout s =
     (let s = s\<lparr>dqk := (dqk s)\<lparr>frames := (frames (dqk s))(t := None)\<rparr>\<rparr>;
          result = t_error (threads (dqk s) t)
      in if result \<noteq> RT_EOK then Some (Returns (result, None), s)
         else dq_pop_loop call a timeout s)"

definition rt_data_queue_pop_notify ::
  "notify \<Rightarrow> nat \<Rightarrow> nat \<Rightarrow> u32 \<Rightarrow> u32 \<Rightarrow> dq_state \<Rightarrow> ((rt_err_t \<times> (u32 \<times> u32) option) call \<times> dq_state) option" where
  "rt_data_queue_pop_notify call t a data_ptr data_size s =
     do {
       s \<leftarrow> notify_event call a RT_DATAQUEUE_EVENT_LWM
         (s\<lparr>dqk := (dqk s)\<lparr>frames := (frames (dqk s))(t := None)\<rparr>\<rparr>);
       Some (Returns (RT_EOK, Some (data_ptr, data_size)), s) }"

definition rt_data_queue_peak :: "nat \<Rightarrow> dq_state \<Rightarrow> rt_err_t \<times> (u32 \<times> u32) option" where
  "rt_data_queue_peak a s =
     (if dq_get_index (dqs s a) = dq_put_index (dqs s a) then (- RT_EEMPTY, None)
      else (RT_EOK, Some (dq_first (dqs s a))))"

definition rt_data_queue_reset :: "nat \<Rightarrow> dq_state \<Rightarrow> dq_state option" where
  "rt_data_queue_reset a s =
     do {
       let k = rt_enter_critical (dqk s);
       k \<leftarrow> rt_ipc_list_resume_all (DqPopQ a) k;
       k \<leftarrow> rt_ipc_list_resume_all (DqPushQ a) k;
       k \<leftarrow> rt_exit_critical k;
       k \<leftarrow> rt_schedule k;
       Some (s\<lparr>dqk := k\<rparr>) }"


subsection \<open>The ring as a list\<close>

definition dq_count :: "rt_data_queue \<Rightarrow> nat" where
  "dq_count q = unat (dq_put_index q - dq_get_index q)"

definition dq_wf :: "rt_data_queue \<Rightarrow> bool" where
  "dq_wf q \<longleftrightarrow> (\<exists>j < 16. unat (dq_size q) = 2 ^ j) \<and> dq_count q \<le> unat (dq_size q)"

definition dq_items :: "rt_data_queue \<Rightarrow> (u32 \<times> u32) list" where
  "dq_items q = map (\<lambda>i. dq_cells q (dq_place (dq_get_index q + of_nat i) q)) [0..<dq_count q]"

lemma length_dq_items [simp]: "length (dq_items q) = dq_count q"
  by (simp add: dq_items_def)

lemma dq_place_mod:
  assumes "unat (dq_size q) = 2 ^ j" "j < 16"
  shows "dq_place i q = unat i mod 2 ^ j"
proof -
  have "unat (dq_size q - 1) = 2 ^ j - 1"
    using assms by (subst unat_sub) (simp_all add: word_le_nat_alt)
  then have "unat (dq_size q - 1) = mask j" by (simp add: mask_eq_exp_minus_1)
  moreover have "unat (i AND (dq_size q - 1)) = unat i AND unat (dq_size q - 1)"
    by (rule unsigned_and_eq)
  ultimately show ?thesis by (simp only: dq_place_def take_bit_eq_mask [symmetric] take_bit_eq_mod)
qed

lemma dq_place_nth:
  assumes "unat (dq_size q) = 2 ^ j" "j < 16"
  shows "dq_place (dq_get_index q + of_nat i) q = (unat (dq_get_index q) + i) mod 2 ^ j"
proof -
  have d: "(2 :: nat) ^ j dvd 2 ^ 16" using assms(2) by (intro le_imp_power_dvd) simp
  have "unat (dq_get_index q + of_nat i) = (unat (dq_get_index q) + i mod 2 ^ 16) mod 2 ^ 16"
    by (simp only: unat_word_ariths unat_of_nat len_num0) simp
  also have "\<dots> = (unat (dq_get_index q) + i) mod 2 ^ 16" by (simp only: mod_add_right_eq)
  also have "\<dots> mod 2 ^ j = (unat (dq_get_index q) + i) mod 2 ^ j"
    using d by (rule mod_mod_cancel)
  finally show ?thesis unfolding dq_place_mod [OF assms] .
qed


lemma dq_put_index_count: "dq_put_index q = dq_get_index q + of_nat (dq_count q)"
  by (simp add: dq_count_def)

lemma dq_store_simps [simp]:
  "dq_size (dq_store x y q) = dq_size q" "dq_get_index (dq_store x y q) = dq_get_index q"
  "dq_lwm (dq_store x y q) = dq_lwm q" "dq_waiting_lwm (dq_store x y q) = dq_waiting_lwm q"
  "dq_evt_notify (dq_store x y q) = dq_evt_notify q" "dq_put_index (dq_store x y q) = dq_put_index q + 1"
  by (simp_all add: dq_store_def)

lemma places_apart:
  assumes "i < n" "n < (m :: nat)"
  shows "(g + i) mod m \<noteq> (g + n) mod m"
proof
  assume "(g + i) mod m = (g + n) mod m"
  then have "m dvd (g + n) - (g + i)" using assms(1) by (subst mod_eq_dvd_iff_nat [symmetric]) simp_all
  then show False using assms by (auto dest: dvd_imp_le)
qed

lemma dq_push_items:
  assumes wf: "dq_wf q" and room: "dq_count q < unat (dq_size q)"
  shows "dq_items (dq_store x y q) = dq_items q @ [(x, y)]" "dq_wf (dq_store x y q)"
    "dq_count (dq_store x y q) = dq_count q + 1"
proof -
  obtain j where j: "unat (dq_size q) = 2 ^ j" "j < 16" using wf by (auto simp: dq_wf_def)
  have "(2 :: nat) ^ j < 2 ^ 16" using j(2) by (intro power_strict_increasing) simp_all
  then have small: "dq_count q + 1 < 2 ^ 16" using room j(1) by simp
  have "dq_put_index (dq_store x y q) - dq_get_index (dq_store x y q) =
      (dq_put_index q - dq_get_index q) + 1" by simp
  then have "dq_count (dq_store x y q) = (dq_count q + 1) mod 2 ^ 16"
    by (simp only: dq_count_def unat_word_ariths len_num0) simp
  then show c: "dq_count (dq_store x y q) = dq_count q + 1" using small by simp
  then show "dq_wf (dq_store x y q)" using wf room by (simp add: dq_wf_def)
  have j': "unat (dq_size (dq_store x y q)) = 2 ^ j" using j(1) by simp
  note place = dq_place_nth [OF j] dq_place_nth [OF j' j(2)]
  have "dq_cells (dq_store x y q) (dq_place (dq_get_index (dq_store x y q) + of_nat i) (dq_store x y q)) =
      (if i = dq_count q then (x, y) else dq_cells q (dq_place (dq_get_index q + of_nat i) q))"
    if "i \<le> dq_count q" for i
    using that places_apart [of i "dq_count q" "2 ^ j" "unat (dq_get_index q)"] room j(1)
    unfolding place by (auto simp: dq_store_def dq_put_index_count place(1) le_less)
  then have "map (\<lambda>i. dq_cells (dq_store x y q) (dq_place (dq_get_index (dq_store x y q) + of_nat i) (dq_store x y q))) [0..<dq_count q] =
      dq_items q" unfolding dq_items_def by (intro map_cong refl) auto
  moreover have "dq_cells (dq_store x y q) (dq_place (dq_get_index (dq_store x y q) + of_nat (dq_count q)) (dq_store x y q)) = (x, y)"
    using \<open>\<And>i. i \<le> dq_count q \<Longrightarrow> _\<close> [of "dq_count q"] by simp
  ultimately show "dq_items (dq_store x y q) = dq_items q @ [(x, y)]"
    unfolding dq_items_def [of "dq_store x y q"] c by simp
qed

lemma dq_pop_items:
  assumes wf: "dq_wf q" and some: "0 < dq_count q"
  defines "q' \<equiv> q\<lparr>dq_get_index := dq_get_index q + 1\<rparr>"
  shows "dq_items q = dq_first q # dq_items q'" "dq_wf q'" "dq_count q' = dq_count q - 1"
proof -
  have ne: "dq_put_index q - dq_get_index q \<noteq> 0" using some by (auto simp: dq_count_def)
  have "dq_put_index q' - dq_get_index q' = (dq_put_index q - dq_get_index q) - 1" by (simp add: q'_def)
  then show c: "dq_count q' = dq_count q - 1"
    by (simp only: dq_count_def unat_minus_one [OF ne])
  then show "dq_wf q'" using wf by (auto simp: dq_wf_def q'_def)
  have "dq_place i q' = dq_place i q" for i by (simp add: dq_place_def q'_def)
  then have "dq_items q' = map (\<lambda>i. dq_cells q (dq_place (dq_get_index q + of_nat i) q)) (map Suc [0..<dq_count q'])"
    by (simp add: dq_items_def q'_def add.assoc o_def)
  also have "map Suc [0..<dq_count q'] = [1..<dq_count q]" using c some by (simp add: map_Suc_upt)
  finally show "dq_items q = dq_first q # dq_items q'"
    using some by (simp add: dq_items_def dq_first_def upt_conv_Cons)
qed

lemma dq_empty: "dq_get_index q = dq_put_index q \<longleftrightarrow> dq_count q = 0"
  by (auto simp: dq_count_def unat_eq_0)

text \<open>The test for a full queue sees a full queue only while the counters have not wrapped apart.\<close>

lemma dq_full:
  assumes "dq_wf q"
  shows "dq_filled q = uint (dq_size q) \<longleftrightarrow>
    dq_count q = unat (dq_size q) \<and> dq_get_index q \<le> dq_put_index q"
proof (cases "dq_get_index q \<le> dq_put_index q")
  case True
  then have "dq_count q = unat (dq_put_index q) - unat (dq_get_index q)"
    by (simp add: dq_count_def unat_sub)
  moreover have "unat (dq_get_index q) \<le> unat (dq_put_index q)" using True by (simp add: word_le_nat_alt)
  ultimately have "dq_filled q = int (dq_count q)"
    by (simp add: dq_filled_def of_nat_diff)
  then show ?thesis using True by (metis of_nat_eq_iff uint_nat)
next
  case False
  then have "dq_filled q < 0" by (simp add: dq_filled_def word_le_def)
  moreover have "0 \<le> uint (dq_size q)" by simp
  ultimately show ?thesis using False by linarith
qed


lemma dq_filled_count: "dq_get_index q \<le> dq_put_index q \<Longrightarrow> dq_filled q = int (dq_count q)"
proof -
  assume le: "dq_get_index q \<le> dq_put_index q"
  then have "unat (dq_get_index q) \<le> unat (dq_put_index q)" by (simp add: word_le_nat_alt)
  then show ?thesis by (simp add: dq_filled_def dq_count_def unat_sub [OF le] of_nat_diff)
qed

subsection \<open>Calls that do not wait\<close>

definition dq_try_push :: "notify \<Rightarrow> nat \<Rightarrow> u32 \<times> u32 \<Rightarrow> dq_state \<Rightarrow> (bool \<times> dq_state) option" where
  "dq_try_push call a v s =
     (case rt_data_queue_push call a (fst v) (snd v) 0 s of
        Some (Returns r, s') \<Rightarrow> Some (r = RT_EOK, s') | _ \<Rightarrow> None)"

definition dq_try_pop :: "notify \<Rightarrow> nat \<Rightarrow> dq_state \<Rightarrow> ((u32 \<times> u32) option \<times> dq_state) option" where
  "dq_try_pop call a s =
     (case rt_data_queue_pop call a 0 s of
        Some (Returns (r, v), s') \<Rightarrow> Some (if r = RT_EOK then v else None, s') | _ \<Rightarrow> None)"

text \<open>Nobody waits for the queue and nobody wants to be told.\<close>

definition dq_quiet :: "nat \<Rightarrow> dq_state \<Rightarrow> bool" where
  "dq_quiet a s \<longleftrightarrow> tlists (dqk s) (DqPushQ a) = [] \<and> tlists (dqk s) (DqPopQ a) = [] \<and>
     dq_evt_notify (dqs s a) = None"

lemma dq_items_waiting [simp]:
  "dq_items (dq_waiting_lwm_update f q) = dq_items q" "dq_wf (dq_waiting_lwm_update f q) = dq_wf q"
  "dq_count (dq_waiting_lwm_update f q) = dq_count q" "dq_first (dq_waiting_lwm_update f q) = dq_first q"
  by (simp_all add: dq_items_def dq_wf_def dq_count_def dq_place_def dq_first_def)

lemma dq_push_law:
  assumes wf: "dq_wf (dqs s a)" and quiet: "dq_quiet a s" and flat: "dq_get_index (dqs s a) \<le> dq_put_index (dqs s a)"
  shows "\<exists>s'. dq_try_push call a v s = Some (length (dq_items (dqs s a)) < unat (dq_size (dqs s a)), s') \<and>
    dq_wf (dqs s' a) \<and> dq_quiet a s' \<and> dqk s' = dqk s \<and> dq_size (dqs s' a) = dq_size (dqs s a) \<and>
    dq_get_index (dqs s' a) = dq_get_index (dqs s a) \<and>
    dq_put_index (dqs s' a) \<in> {dq_put_index (dqs s a), dq_put_index (dqs s a) + 1} \<and>
    dq_items (dqs s' a) = (if length (dq_items (dqs s a)) < unat (dq_size (dqs s a))
      then dq_items (dqs s a) @ [v] else dq_items (dqs s a))"
proof (cases "dq_count (dqs s a) < unat (dq_size (dqs s a))")
  case True
  then have nf: "dq_filled (dqs s a) \<noteq> uint (dq_size (dqs s a))" by (simp add: dq_full [OF wf])
  show ?thesis using quiet True nf dq_push_items [OF wf True, of "fst v" "snd v"]
    by (simp add: dq_try_push_def rt_data_queue_push_def dq_push_loop_def dq_quiet_def notify_event_def)
next
  case False
  then have "dq_count (dqs s a) = unat (dq_size (dqs s a))" using wf by (simp add: dq_wf_def)
  then have f: "dq_filled (dqs s a) = uint (dq_size (dqs s a))" using flat by (simp add: dq_full [OF wf])
  show ?thesis using quiet False f wf
    by (simp add: dq_try_push_def rt_data_queue_push_def dq_push_loop_def dq_quiet_def)
qed

lemma dq_pop_law:
  assumes wf: "dq_wf (dqs s a)" and quiet: "dq_quiet a s"
  shows "\<exists>s'. dq_try_pop call a s = Some (case dq_items (dqs s a) of [] \<Rightarrow> None | v # _ \<Rightarrow> Some v, s') \<and>
    dq_wf (dqs s' a) \<and> dq_quiet a s' \<and> dqk s' = dqk s \<and> dq_size (dqs s' a) = dq_size (dqs s a) \<and>
    dq_put_index (dqs s' a) = dq_put_index (dqs s a) \<and>
    dq_get_index (dqs s' a) = (if dq_items (dqs s a) = [] then dq_get_index (dqs s a) else dq_get_index (dqs s a) + 1) \<and>
    dq_items (dqs s' a) = tl (dq_items (dqs s a))"
proof (cases "dq_count (dqs s a) = 0")
  case True
  then have "dq_items (dqs s a) = []" by (simp add: dq_items_def)
  then show ?thesis using quiet wf True
    by (simp add: dq_try_pop_def rt_data_queue_pop_def dq_pop_loop_def dq_empty)
next
  case False
  then have ne: "dq_get_index (dqs s a) \<noteq> dq_put_index (dqs s a)" by (simp add: dq_empty)
  show ?thesis using quiet False ne dq_pop_items [OF wf]
    by (auto simp: dq_try_pop_def rt_data_queue_pop_def dq_pop_loop_def dq_quiet_def notify_event_def Let_def)
qed

fun put_count :: "'v channel_op list \<Rightarrow> nat" where
  "put_count [] = 0"
| "put_count (Put v # ops) = Suc (put_count ops)"
| "put_count (Get # ops) = put_count ops"

lemma index_suc: "unat (i :: u16) + 1 < 2 ^ 16 \<Longrightarrow> unat (i + 1) = unat i + 1"
  by (simp add: unat_word_ariths)

lemma dq_run:
  assumes "dq_wf (dqs s a)" "dq_quiet a s" "dq_get_index (dqs s a) \<le> dq_put_index (dqs s a)"
    and "unat (dq_put_index (dqs s a)) + put_count ops < 2 ^ 16"
  shows "\<exists>ins outs s'. channel_run (dq_try_push call a) (dq_try_pop call a) ops s = Some (ins, outs, s') \<and>
    dq_wf (dqs s' a) \<and> dqk s' = dqk s \<and>
    bounded_run (unat (dq_size (dqs s a))) ops (dq_items (dqs s a)) = (ins, outs, dq_items (dqs s' a))"
  using assms
proof (induction ops arbitrary: s)
  case Nil
  then show ?case by simp
next
  case (Cons opn ops)
  show ?case
  proof (cases opn)
    case (Put v)
    obtain s1 where s1: "dq_try_push call a v s = Some (length (dq_items (dqs s a)) < unat (dq_size (dqs s a)), s1)"
      "dq_wf (dqs s1 a)" "dq_quiet a s1" "dqk s1 = dqk s" "dq_size (dqs s1 a) = dq_size (dqs s a)"
      "dq_get_index (dqs s1 a) = dq_get_index (dqs s a)"
      "dq_put_index (dqs s1 a) \<in> {dq_put_index (dqs s a), dq_put_index (dqs s a) + 1}"
      "dq_items (dqs s1 a) = (if length (dq_items (dqs s a)) < unat (dq_size (dqs s a))
        then dq_items (dqs s a) @ [v] else dq_items (dqs s a))"
      using dq_push_law [OF Cons.prems(1-3)] by blast
    have up: "unat (dq_put_index (dqs s a) + 1) = unat (dq_put_index (dqs s a)) + 1"
      using Cons.prems(4) Put by (intro index_suc) simp
    have "dq_get_index (dqs s1 a) \<le> dq_put_index (dqs s1 a)"
      "unat (dq_put_index (dqs s1 a)) + put_count ops < 2 ^ 16"
      using s1(6,7) Cons.prems(3,4) Put up by (auto simp: word_le_nat_alt)
    from Cons.IH [OF s1(2,3) this] show ?thesis
      using s1 Put by (auto split: prod.splits)
  next
    case Get
    obtain s1 where s1: "dq_try_pop call a s = Some (case dq_items (dqs s a) of [] \<Rightarrow> None | v # _ \<Rightarrow> Some v, s1)"
      "dq_wf (dqs s1 a)" "dq_quiet a s1" "dqk s1 = dqk s" "dq_size (dqs s1 a) = dq_size (dqs s a)"
      "dq_put_index (dqs s1 a) = dq_put_index (dqs s a)"
      "dq_get_index (dqs s1 a) = (if dq_items (dqs s a) = [] then dq_get_index (dqs s a) else dq_get_index (dqs s a) + 1)"
      "dq_items (dqs s1 a) = tl (dq_items (dqs s a))"
      using dq_pop_law [OF Cons.prems(1,2)] by blast
    have "dq_get_index (dqs s1 a) \<le> dq_put_index (dqs s1 a)"
    proof (cases "dq_items (dqs s a) = []")
      case False
      then have "dq_get_index (dqs s a) \<noteq> dq_put_index (dqs s a)" unfolding dq_empty dq_items_def by simp
      then have "dq_get_index (dqs s a) < dq_put_index (dqs s a)" using Cons.prems(3) by simp
      then show ?thesis using s1(6,7) False by (simp add: inc_le)
    qed (use s1 Cons.prems(3) in simp)
    from Cons.IH [OF s1(2,3) this] show ?thesis
      using s1 Get Cons.prems(4) by (cases "dq_items (dqs s a)") (auto split: prod.splits)
  qed
qed


text \<open>A push on a full queue whose counters have wrapped apart takes the place of the oldest item.\<close>

lemma dq_overrun_run:
  assumes wf: "dq_wf (dqs s a)" and quiet: "dq_quiet a s"
    and full: "dq_count (dqs s a) = unat (dq_size (dqs s a))" "dq_put_index (dqs s a) < dq_get_index (dqs s a)"
  shows "\<exists>s'. rt_data_queue_push call a x y timeout s = Some (Returns RT_EOK, s') \<and>
    (\<exists>s''. rt_data_queue_pop call a 0 s' = Some (Returns (RT_EOK, Some (x, y)), s''))"
proof -
  let ?q = "dqs s a"
  obtain j where j: "unat (dq_size ?q) = 2 ^ j" "j < 16" using wf by (auto simp: dq_wf_def)
  have nf: "dq_filled ?q \<noteq> uint (dq_size ?q)" using full(2) by (simp add: dq_full [OF wf] not_le)
  have "dq_place (dq_put_index ?q) ?q = dq_place (dq_get_index ?q) ?q"
    using dq_place_nth [OF j, of "dq_count ?q"] dq_place_nth [OF j, of 0]
    unfolding dq_put_index_count by (simp add: full(1) j(1))
  then have first: "dq_first (dq_store x y ?q) = (x, y)"
    by (simp add: dq_first_def dq_store_def dq_place_def)
  have "dq_count ?q + 1 < 2 ^ 16"
  proof -
    have "(2 :: nat) ^ j \<le> 2 ^ 15" using j(2) by (intro power_increasing) simp_all
    then show ?thesis using full(1) j(1) by simp
  qed
  then have "unat ((dq_put_index ?q - dq_get_index ?q) + 1) = dq_count ?q + 1"
    unfolding dq_count_def by (rule index_suc)
  then have ne: "dq_get_index (dq_store x y ?q) \<noteq> dq_put_index (dq_store x y ?q)"
    unfolding dq_empty dq_count_def by (simp add: algebra_simps)
  define s' where "s' = dq_at a (dq_store x y) s"
  have push: "rt_data_queue_push call a x y timeout s = Some (Returns RT_EOK, s')"
    using quiet nf by (simp add: rt_data_queue_push_def dq_push_loop_def dq_quiet_def notify_event_def s'_def)
  have "\<exists>s''. rt_data_queue_pop call a 0 s' = Some (Returns (RT_EOK, Some (x, y)), s'')"
    using quiet ne first
    by (auto simp: rt_data_queue_pop_def dq_pop_loop_def dq_quiet_def notify_event_def s'_def Let_def)
  with push show ?thesis by blast
qed

subsection \<open>Calls that wait and calls that wake\<close>

lemma dq_wait_spec:
  assumes "kinv (dqk s)" "can_wait (dqk s) t" "wait_queue q" "wait_time timeout"
  shows "\<exists>s'. dq_wait q fr timeout s = Some (Waits, s') \<and> dqs s' = dqs s \<and>
    waits_on q t RT_IPC_FLAG_FIFO timeout fr (no_error t (dqk s)) (dqk s) (dqk s')"
proof -
  have th: "same_sched (no_error t (dqk s)) (threads (dqk s) t)"
    "stack_ok (no_error t (dqk s)) = stack_ok (threads (dqk s) t)"
    by (simp_all add: same_sched_def stack_ok_def no_error_def)
  obtain k1 k' where b: "ipc_wait q t RT_IPC_FLAG_FIFO timeout
      ((dqk s)\<lparr>threads := (threads (dqk s))(t := no_error t (dqk s))\<rparr>) = Some k1"
    "rt_schedule (k1\<lparr>frames := (frames k1)(t := Some fr)\<rparr>) = Some k'"
    "waits_on q t RT_IPC_FLAG_FIFO timeout fr (no_error t (dqk s)) (dqk s) k'"
    using ipc_block [OF assms(1-3) _ assms(4) th, of RT_IPC_FLAG_FIFO fr] by auto
  show ?thesis using assms(2) b
    by (intro exI [of _ "s\<lparr>dqk := k'\<rparr>"])
      (simp add: dq_wait_def can_wait_def rt_thread_self_def no_error_def)
qed

lemma dq_wake_spec:
  assumes "kinv (dqk s)" "rt_current_thread (dqk s) = Some c" "wait_queue q" "tlists (dqk s) q = t # ts"
  shows "\<exists>s'. dq_wake q s = Some s' \<and> dqs s' = dqs s \<and> woken q t (dqk s) (dqk s')"
  using ipc_resume [OF assms] by (auto simp: dq_wake_def)

lemma rt_data_queue_push_spec:
  assumes inv: "kinv (dqk s)" "can_wait (dqk s) t" "wait_time timeout"
    and wf: "dq_wf (dqs s a)" "dq_get_index (dqs s a) \<le> dq_put_index (dqs s a)"
    and n: "dq_evt_notify (dqs s a) = None"
  shows "\<exists>r s'. rt_data_queue_push call a x y timeout s = Some (r, s') \<and>
    (if dq_count (dqs s a) = unat (dq_size (dqs s a))
     then dqs s' = (dqs s)(a := (dqs s a)\<lparr>dq_waiting_lwm := True\<rparr>) \<and>
       (if timeout = 0 then r = Returns (- RT_ETIMEOUT) \<and> dqk s' = dqk s
        else r = Waits \<and> waits_on (DqPushQ a) t RT_IPC_FLAG_FIFO timeout (InDqPush a x y timeout)
          (no_error t (dqk s)) (dqk s) (dqk s'))
     else r = Returns RT_EOK \<and> dq_items (dqs s' a) = dq_items (dqs s a) @ [(x, y)] \<and>
       (case tlists (dqk s) (DqPopQ a) of
          [] \<Rightarrow> dqk s' = dqk s
        | u # _ \<Rightarrow> woken (DqPopQ a) u (dqk s) (dqk s')))"
proof (cases "dq_count (dqs s a) = unat (dq_size (dqs s a))")
  case True
  then have f: "dq_filled (dqs s a) = uint (dq_size (dqs s a))" using wf(2) by (simp add: dq_full [OF wf(1)])
  let ?s = "dq_at a (dq_waiting_lwm_update (\<lambda>_. True)) s"
  obtain s' where "dq_wait (DqPushQ a) (InDqPush a x y timeout) timeout ?s = Some (Waits, s')" "dqs s' = dqs ?s"
    "waits_on (DqPushQ a) t RT_IPC_FLAG_FIFO timeout (InDqPush a x y timeout) (no_error t (dqk ?s)) (dqk ?s) (dqk s')"
    using dq_wait_spec [of ?s t "DqPushQ a" timeout "InDqPush a x y timeout"] inv by auto
  then show ?thesis using True f by (auto simp: rt_data_queue_push_def dq_push_loop_def Let_def)
next
  case False
  then have nf: "dq_filled (dqs s a) \<noteq> uint (dq_size (dqs s a))" by (simp add: dq_full [OF wf(1)])
  have room: "dq_count (dqs s a) < unat (dq_size (dqs s a))" using False wf(1) by (simp add: dq_wf_def)
  let ?s = "dq_at a (dq_store x y) s"
  have c: "rt_current_thread (dqk ?s) = Some t" using inv(2) by (simp add: can_wait_def)
  show ?thesis
  proof (cases "tlists (dqk s) (DqPopQ a)")
    case Nil
    then show ?thesis using False nf n dq_push_items(1) [OF wf(1) room]
      by (simp add: rt_data_queue_push_def dq_push_loop_def notify_event_def)
  next
    case (Cons u us)
    obtain s' where "dq_wake (DqPopQ a) ?s = Some s'" "dqs s' = dqs ?s" "woken (DqPopQ a) u (dqk ?s) (dqk s')"
      using dq_wake_spec [of ?s t "DqPopQ a" u us] inv(1) c Cons by auto
    then show ?thesis using False nf Cons dq_push_items(1) [OF wf(1) room]
      by (simp add: rt_data_queue_push_def dq_push_loop_def)
  qed
qed

lemma rt_data_queue_pop_full:
  assumes inv: "kinv (dqk s)" "can_wait (dqk s) t" "wait_time timeout"
    and wf: "dq_wf (dqs s a)" "dq_get_index (dqs s a) \<le> dq_put_index (dqs s a)"
    and n: "dq_evt_notify (dqs s a) = None"
  shows "\<exists>r s'. rt_data_queue_pop call a timeout s = Some (r, s') \<and>
    (dq_wf (dqs s' a) \<and> dq_evt_notify (dqs s' a) = None) \<and>
    (case dq_items (dqs s a) of
       [] \<Rightarrow> dqs s' = dqs s \<and>
         (if timeout = 0 then r = Returns (- RT_ETIMEOUT, None) \<and> dqk s' = dqk s
          else r = Waits \<and> waits_on (DqPopQ a) t RT_IPC_FLAG_FIFO timeout (InDqPop a timeout)
            (no_error t (dqk s)) (dqk s) (dqk s'))
     | v # vs \<Rightarrow> r = Returns (RT_EOK, Some v) \<and> dq_items (dqs s' a) = vs \<and>
         (let low = dq_waiting_lwm (dqs s a) \<and> length vs \<le> unat (dq_lwm (dqs s a))
          in dq_waiting_lwm (dqs s' a) = (dq_waiting_lwm (dqs s a) \<and> \<not> low) \<and>
            (if low then (case tlists (dqk s) (DqPushQ a) of
                [] \<Rightarrow> dqk s' = dqk s | u # _ \<Rightarrow> woken (DqPushQ a) u (dqk s) (dqk s'))
             else dqk s' = dqk s)))"
proof (cases "dq_count (dqs s a) = 0")
  case True
  then have e: "dq_items (dqs s a) = []" "dq_get_index (dqs s a) = dq_put_index (dqs s a)"
    by (simp_all add: dq_items_def dq_empty)
  obtain s' where "dq_wait (DqPopQ a) (InDqPop a timeout) timeout s = Some (Waits, s')" "dqs s' = dqs s"
    "waits_on (DqPopQ a) t RT_IPC_FLAG_FIFO timeout (InDqPop a timeout) (no_error t (dqk s)) (dqk s) (dqk s')"
    using dq_wait_spec [of s t "DqPopQ a" timeout "InDqPop a timeout"] inv by auto
  then show ?thesis using e wf(1) n by (auto simp: rt_data_queue_pop_def dq_pop_loop_def)
next
  case False
  let ?q = "(dqs s a)\<lparr>dq_get_index := dq_get_index (dqs s a) + 1\<rparr>"
  have ne: "dq_get_index (dqs s a) \<noteq> dq_put_index (dqs s a)" using False by (simp add: dq_empty)
  have items: "dq_items (dqs s a) = dq_first (dqs s a) # dq_items ?q" "dq_wf ?q"
    using dq_pop_items [OF wf(1)] False by simp_all
  have "dq_get_index ?q \<le> dq_put_index ?q" using ne wf(2) by (simp add: inc_le)
  then have fill: "dq_filled ?q = int (length (dq_items ?q))"
    using dq_filled_count by simp
  have upd: "dq_get_index_update (\<lambda>i. i + 1) v = v\<lparr>dq_get_index := dq_get_index v + 1\<rparr>" for v by simp
  have low: "dq_filled ?q \<le> uint (dq_lwm (dqs s a)) \<longleftrightarrow> length (dq_items ?q) \<le> unat (dq_lwm (dqs s a))"
    unfolding fill by (simp only: uint_nat of_nat_le_iff)
  let ?low = "dq_waiting_lwm (dqs s a) \<and> length (dq_items ?q) \<le> unat (dq_lwm (dqs s a))"
  show ?thesis
  proof (cases ?low)
    case True
    let ?s = "dq_at a (\<lambda>q. q\<lparr>dq_get_index := dq_get_index q + 1, dq_waiting_lwm := False\<rparr>) s"
    have c: "rt_current_thread (dqk ?s) = Some t" using inv(2) by (simp add: can_wait_def)
    obtain s' where s': "(if tlists (dqk s) (DqPushQ a) \<noteq> [] then dq_wake (DqPushQ a) ?s else Some ?s) = Some s'"
      "dqs s' = dqs ?s" "case tlists (dqk s) (DqPushQ a) of [] \<Rightarrow> dqk s' = dqk s | u # _ \<Rightarrow> woken (DqPushQ a) u (dqk s) (dqk s')"
      using dq_wake_spec [of ?s t "DqPushQ a"] inv(1) c by (cases "tlists (dqk s) (DqPushQ a)") fastforce+
    have "rt_data_queue_pop call a timeout s = Some (Returns (RT_EOK, Some (dq_first (dqs s a))), s')"
    proof -
      have n': "dq_evt_notify (dqs s' a) = None" using s'(2) n by simp
      have le: "dq_filled ?q \<le> uint (dq_lwm (dqs s a))" using True low by blast
      have k: "dqk s' = dqk s" if "tlists (dqk s) (DqPushQ a) = []" using s'(3) that by simp
      show ?thesis
        by (cases "tlists (dqk s) (DqPushQ a) = []")
          (use s'(1) k ne n n' True le in \<open>simp_all add: rt_data_queue_pop_def dq_pop_loop_def notify_event_def Let_def\<close>)
    qed
    then show ?thesis using items True s'(2,3) n by simp
  next
    case False
    then show ?thesis using ne n items low
      by (auto simp: rt_data_queue_pop_def dq_pop_loop_def notify_event_def)
  qed
qed

lemma rt_data_queue_pop_spec:
  assumes inv: "kinv (dqk s)" "can_wait (dqk s) t" "wait_time timeout"
    and wf: "dq_wf (dqs s a)" "dq_get_index (dqs s a) \<le> dq_put_index (dqs s a)"
    and n: "dq_evt_notify (dqs s a) = None"
  shows "\<exists>r s'. rt_data_queue_pop call a timeout s = Some (r, s') \<and>
    (case dq_items (dqs s a) of
       [] \<Rightarrow> dqs s' = dqs s \<and>
         (if timeout = 0 then r = Returns (- RT_ETIMEOUT, None) \<and> dqk s' = dqk s
          else r = Waits \<and> waits_on (DqPopQ a) t RT_IPC_FLAG_FIFO timeout (InDqPop a timeout)
            (no_error t (dqk s)) (dqk s) (dqk s'))
     | v # vs \<Rightarrow> r = Returns (RT_EOK, Some v) \<and> dq_items (dqs s' a) = vs \<and>
         (let low = dq_waiting_lwm (dqs s a) \<and> length vs \<le> unat (dq_lwm (dqs s a))
          in dq_waiting_lwm (dqs s' a) = (dq_waiting_lwm (dqs s a) \<and> \<not> low) \<and>
            (if low then (case tlists (dqk s) (DqPushQ a) of
                [] \<Rightarrow> dqk s' = dqk s | u # _ \<Rightarrow> woken (DqPushQ a) u (dqk s) (dqk s'))
             else dqk s' = dqk s)))"
  using rt_data_queue_pop_full [OF assms, of call] by blast

subsection \<open>The properties\<close>

text \<open>
  Property C23.
  Any sequence of pushes and pops that do not wait does on a data queue, whose size is a power of
  two, what it does on a list of that many items, as long as the 16-bit counter of the pushes does
  not wrap: what comes out is what went in, in order.\<close>

theorem rt_data_queue_fifo:
  assumes "dq_wf (dqs s a)" "dq_quiet a s" "dq_get_index (dqs s a) \<le> dq_put_index (dqs s a)"
    and "unat (dq_put_index (dqs s a)) + put_count ops < 2 ^ 16"
  shows "\<exists>ins outs s'. channel_run (dq_try_push call a) (dq_try_pop call a) ops s = Some (ins, outs, s') \<and>
    bounded_run (unat (dq_size (dqs s a))) ops (dq_items (dqs s a)) = (ins, outs, dq_items (dqs s' a)) \<and>
    dq_items (dqs s a) @ ins = outs @ dq_items (dqs s' a) \<and> dqk s' = dqk s"
proof -
  obtain ins outs s' where r: "channel_run (dq_try_push call a) (dq_try_pop call a) ops s = Some (ins, outs, s')"
    "dqk s' = dqk s" "bounded_run (unat (dq_size (dqs s a))) ops (dq_items (dqs s a)) = (ins, outs, dq_items (dqs s' a))"
    using dq_run [OF assms] by blast
  with bounded_run_fifo [OF r(3)] show ?thesis by blast
qed

definition demo_queue :: "u16 \<Rightarrow> u16 \<Rightarrow> rt_data_queue" where
  "demo_queue get put = \<lparr>dq_size = 4, dq_lwm = 2, dq_waiting_lwm = False, dq_get_index = get, dq_put_index = put,
     dq_queue = Some 5000, dq_cells = (\<lambda>i. (of_nat i, 10)), dq_evt_notify = None\<rparr>"

definition demo_dq :: "kstate \<Rightarrow> rt_data_queue \<Rightarrow> dq_state" where
  "demo_dq k q = \<lparr>dqk = k, dqs = (\<lambda>_. q)\<rparr>"

lemma demo_queue_wf: "unat (put - get) \<le> 4 \<Longrightarrow> dq_wf (demo_queue get put)"
  unfolding dq_wf_def by (intro conjI exI [of _ 2]) (simp_all add: demo_queue_def dq_count_def)

theorem rt_data_queue_fifo_witness:
  "\<exists>s'. channel_run (dq_try_push (\<lambda>f a e s. None) 1) (dq_try_pop (\<lambda>f a e s. None) 1)
      [Get, Put (7, 1), Put (8, 2), Get, Get] (demo_dq demo (demo_queue 0 0)) =
    Some ([(7, 1), (8, 2)], [(7, 1), (8, 2)], s')"
proof -
  let ?s = "demo_dq demo (demo_queue 0 0)"
  have wf: "dq_wf (dqs ?s 1)" by (simp add: demo_dq_def demo_queue_wf)
  have quiet: "dq_quiet 1 ?s" by (simp add: dq_quiet_def demo_dq_def demo_queue_def)
  have le: "dq_get_index (dqs ?s 1) \<le> dq_put_index (dqs ?s 1)" by (simp add: demo_dq_def demo_queue_def)
  have n: "unat (dq_put_index (dqs ?s 1)) + put_count [Get, Put (7, 1), Put (8, 2), Get, Get :: (u32 \<times> u32) channel_op] < 2 ^ 16"
    by (simp add: demo_dq_def demo_queue_def)
  have "dq_items (dqs ?s 1) = []" "dq_size (dqs ?s 1) = 4"
    by (simp_all add: demo_dq_def dq_items_def dq_count_def demo_queue_def)
  then show ?thesis
    using rt_data_queue_fifo [OF wf quiet le n, of "\<lambda>f a e s. None"] by auto
qed

text \<open>
  Property C24.
  Once the counters have wrapped apart, the counter of the pushes at a small number and that of
  the pops at a large one, a push on the full queue is not refused: it returns \<open>RT_EOK\<close>
  at any timeout and takes the place of the oldest item, which the next pop does not find
  any more.\<close>

theorem rt_data_queue_overrun:
  assumes "dq_wf (dqs s a)" "dq_quiet a s" "length (dq_items (dqs s a)) = unat (dq_size (dqs s a))"
    and "dq_put_index (dqs s a) < dq_get_index (dqs s a)"
  shows "\<exists>s'. rt_data_queue_push call a x y timeout s = Some (Returns RT_EOK, s') \<and>
    (\<exists>s''. rt_data_queue_pop call a 0 s' = Some (Returns (RT_EOK, Some (x, y)), s''))"
  by (rule dq_overrun_run) (use assms in simp_all)

theorem rt_data_queue_overrun_witness:
  "dq_items (demo_queue 65534 2) = [(2, 10), (3, 10), (0, 10), (1, 10)] \<and>
   (\<exists>s'. rt_data_queue_push (\<lambda>f a e s. None) 1 99 9 5 (demo_dq demo (demo_queue 65534 2)) = Some (Returns RT_EOK, s') \<and>
    (\<exists>s''. rt_data_queue_pop (\<lambda>f a e s. None) 1 0 s' = Some (Returns (RT_EOK, Some (99, 9)), s'')))"
proof (intro conjI rt_data_queue_overrun)
  show "dq_items (demo_queue 65534 2) = [(2, 10), (3, 10), (0, 10), (1, 10)]"
    by (simp add: dq_items_def dq_count_def dq_place_def demo_queue_def upt_rec)
  show "dq_wf (dqs (demo_dq demo (demo_queue 65534 2)) 1)" by (simp add: demo_dq_def demo_queue_wf)
qed (simp_all add: demo_dq_def dq_quiet_def demo_queue_def dq_count_def)


text \<open>
  A push on a full queue gives \<open>-RT_ETIMEOUT\<close> at once or makes the caller wait, and otherwise
  appends its item and makes the first thread that waits to pop ready. A pop on an empty queue
  gives up or waits; otherwise it takes the first item, and the first thread that waits to push
  becomes ready when the queue has been found full before and is now down to its low-water mark.
  The promise of the scheduler holds after each.\<close>

theorem rt_data_queue_correct:
  assumes "kinv (dqk s)" "can_wait (dqk s) t" "wait_time timeout"
    and "dq_wf (dqs s a)" "dq_get_index (dqs s a) \<le> dq_put_index (dqs s a)" "dq_evt_notify (dqs s a) = None"
  shows "(\<exists>r s'. rt_data_queue_push call a x y timeout s = Some (r, s') \<and>
      (if length (dq_items (dqs s a)) = unat (dq_size (dqs s a))
       then dqs s' = (dqs s)(a := (dqs s a)\<lparr>dq_waiting_lwm := True\<rparr>) \<and>
         (if timeout = 0 then r = Returns (- RT_ETIMEOUT) \<and> dqk s' = dqk s
          else r = Waits \<and> waits_on (DqPushQ a) t RT_IPC_FLAG_FIFO timeout (InDqPush a x y timeout)
            (no_error t (dqk s)) (dqk s) (dqk s'))
       else r = Returns RT_EOK \<and> dq_items (dqs s' a) = dq_items (dqs s a) @ [(x, y)] \<and>
         (case tlists (dqk s) (DqPopQ a) of
            [] \<Rightarrow> dqk s' = dqk s
          | u # _ \<Rightarrow> woken (DqPopQ a) u (dqk s) (dqk s')))) \<and>
    (\<exists>r s'. rt_data_queue_pop call a timeout s = Some (r, s') \<and>
      (case dq_items (dqs s a) of
         [] \<Rightarrow> dqs s' = dqs s \<and>
           (if timeout = 0 then r = Returns (- RT_ETIMEOUT, None) \<and> dqk s' = dqk s
            else r = Waits \<and> waits_on (DqPopQ a) t RT_IPC_FLAG_FIFO timeout (InDqPop a timeout)
              (no_error t (dqk s)) (dqk s) (dqk s'))
       | v # vs \<Rightarrow> r = Returns (RT_EOK, Some v) \<and> dq_items (dqs s' a) = vs \<and>
           (let low = dq_waiting_lwm (dqs s a) \<and> length vs \<le> unat (dq_lwm (dqs s a))
            in dq_waiting_lwm (dqs s' a) = (dq_waiting_lwm (dqs s a) \<and> \<not> low) \<and>
              (if low then (case tlists (dqk s) (DqPushQ a) of
                  [] \<Rightarrow> dqk s' = dqk s | u # _ \<Rightarrow> woken (DqPushQ a) u (dqk s) (dqk s'))
               else dqk s' = dqk s))))"
  using rt_data_queue_push_spec [OF assms, of call x y] rt_data_queue_pop_spec [OF assms, of call] by simp

theorem rt_data_queue_correct_witness:
  "\<exists>s'. rt_data_queue_push (\<lambda>f a e s. None) 1 7 8 5 (demo_dq (demo_waiting (DqPopQ 1)) (demo_queue 0 0)) =
      Some (Returns RT_EOK, s') \<and>
    dq_items (dqs s' 1) = [(7, 8)] \<and> woken (DqPopQ 1) 2 (demo_waiting (DqPopQ 1)) (dqk s')"
proof -
  let ?s = "demo_dq (demo_waiting (DqPopQ 1)) (demo_queue 0 0)"
  have wf: "dq_wf (dqs ?s 1)" by (simp add: demo_dq_def demo_queue_wf)
  have q: "dq_get_index (dqs ?s 1) \<le> dq_put_index (dqs ?s 1)" "dq_evt_notify (dqs ?s 1) = None"
    by (simp_all add: demo_dq_def demo_queue_def)
  have k: "kinv (dqk ?s)" "can_wait (dqk ?s) 3" "wait_time 5" by (simp_all add: demo_dq_def wait_time_def)
  have e: "dq_items (dqs ?s 1) = []" "dq_size (dqs ?s 1) = 4" "tlists (dqk ?s) (DqPopQ 1) = [2]" "dqk ?s = demo_waiting (DqPopQ 1)"
    by (simp_all add: demo_dq_def dq_items_def dq_count_def demo_queue_def)
  from rt_data_queue_correct [OF k wf q, of "\<lambda>f a e s. None" 7 8, THEN conjunct1] show ?thesis
    unfolding e by simp
qed

text \<open>Pops until the queue is empty.\<close>

primrec pop_times :: "notify \<Rightarrow> nat \<Rightarrow> nat \<Rightarrow> dq_state \<Rightarrow> ((u32 \<times> u32) option list \<times> dq_state) option" where
  "pop_times call a 0 s = Some ([], s)"
| "pop_times call a (Suc n) s =
     (case rt_data_queue_pop call a 0 s of
        Some (Returns (r, v), s) \<Rightarrow> map_option (\<lambda>(vs, s). (v # vs, s)) (pop_times call a n s)
      | _ \<Rightarrow> None)"

lemma pop_times_silent:
  assumes "dq_wf (dqs s a)" "\<not> dq_waiting_lwm (dqs s a)" "dq_evt_notify (dqs s a) = None"
  shows "\<exists>s'. pop_times call a (dq_count (dqs s a)) s = Some (map Some (dq_items (dqs s a)), s') \<and>
    dqk s' = dqk s \<and> dq_items (dqs s' a) = []"
  using assms
proof (induction "dq_count (dqs s a)" arbitrary: s)
  case 0
  then show ?case by (simp add: dq_items_def flip: 0(1))
next
  case (Suc n)
  let ?s = "dq_at a (\<lambda>q. q\<lparr>dq_get_index := dq_get_index q + 1\<rparr>) s"
  have ne: "dq_get_index (dqs s a) \<noteq> dq_put_index (dqs s a)" using Suc.hyps(2) by (simp add: dq_empty)
  have pop: "rt_data_queue_pop call a 0 s = Some (Returns (RT_EOK, Some (dq_first (dqs s a))), ?s)"
    using ne Suc.prems by (simp add: rt_data_queue_pop_def dq_pop_loop_def notify_event_def)
  have items: "dq_items (dqs s a) = dq_first (dqs s a) # dq_items (dqs ?s a)" "dq_wf (dqs ?s a)"
    "dq_count (dqs ?s a) = dq_count (dqs s a) - 1"
    using dq_pop_items [OF Suc.prems(1)] Suc.hyps(2) by simp_all
  have n: "n = dq_count (dqs ?s a)" using items(3) Suc.hyps(2) by simp
  obtain s' where "pop_times call a n ?s = Some (map Some (dq_items (dqs ?s a)), s')"
    "dqk s' = dqk ?s" "dq_items (dqs s' a) = []"
    using Suc.hyps(1) [OF n items(2)] Suc.prems n by auto
  then show ?case using pop items(1) by (simp flip: Suc.hyps(2))
qed

text \<open>
  Property C25.
  When two threads wait to push, the pop that reaches the low-water mark makes the first ready and
  forgets that the queue has been full: the pops that empty the queue then leave the second
  one waiting on an empty queue.\<close>

theorem rt_data_queue_forgets_pusher:
  assumes "kinv (dqk s)" "can_wait (dqk s) t"
    and "dq_wf (dqs s a)" "dq_get_index (dqs s a) \<le> dq_put_index (dqs s a)" "dq_evt_notify (dqs s a) = None"
    and "tlists (dqk s) (DqPushQ a) = u # v # us" "dq_waiting_lwm (dqs s a)"
    and "dq_items (dqs s a) \<noteq> []" "length (dq_items (dqs s a)) \<le> unat (dq_lwm (dqs s a)) + 1"
  shows "\<exists>s'. pop_times call a (length (dq_items (dqs s a))) s = Some (map Some (dq_items (dqs s a)), s') \<and>
    dq_items (dqs s' a) = [] \<and> tlists (dqk s') (DqPushQ a) = v # us \<and> stat (dqk s') u = RT_THREAD_READY \<and>
    stat (dqk s') v = RT_THREAD_SUSPEND"
proof -
  obtain x xs where L: "dq_items (dqs s a) = x # xs" using assms(8) by (cases "dq_items (dqs s a)") auto
  have wt: "wait_time 0" by (simp add: wait_time_def)
  have low: "length xs \<le> unat (dq_lwm (dqs s a))" using assms(9) L by simp
  obtain s1 where s1: "rt_data_queue_pop call a 0 s = Some (Returns (RT_EOK, Some x), s1)"
    "dq_wf (dqs s1 a)" "dq_evt_notify (dqs s1 a) = None" "dq_items (dqs s1 a) = xs"
    "\<not> dq_waiting_lwm (dqs s1 a)" "woken (DqPushQ a) u (dqk s) (dqk s1)"
    using rt_data_queue_pop_full [OF assms(1,2) wt assms(3-5), of call] L low assms(6,7) by auto
  have n: "length xs = dq_count (dqs s1 a)" unfolding s1(4) [symmetric] by simp
  obtain s' where s': "pop_times call a (length xs) s1 = Some (map Some xs, s')" "dqk s' = dqk s1" "dq_items (dqs s' a) = []"
    using pop_times_silent [OF s1(2,5,3)] unfolding n s1(4) by blast
  note S = sched_okD [OF kinvD(1) [OF assms(1)]]
  have "u \<noteq> v" using wf_listsD(1) [OF S(1), of "DqPushQ a"] assms(6) by auto
  moreover have "stat (dqk s) v = RT_THREAD_SUSPEND" using S(2) [of v "DqPushQ a"] assms(6) by simp
  ultimately have "tlists (dqk s') (DqPushQ a) = v # us" "stat (dqk s') u = RT_THREAD_READY"
    "stat (dqk s') v = RT_THREAD_SUSPEND"
    using wokenD(4,5) [OF s1(6)] assms(6) s'(2) by simp_all
  then show ?thesis using L s1(1) s'(1,3) by simp
qed


definition two_waiting :: kstate where
  "two_waiting = demo\<lparr>threads := (threads demo)(4 := demo_thread RT_THREAD_SUSPEND 4),
     tlists := (tlists demo)(DqPushQ 1 := [2, 4])\<rparr>"

lemma two_waiting_kinv: "kinv two_waiting"
proof -
  note S = sched_okD [OF demo_inv]
  have e: "t \<noteq> 4 \<and> t \<noteq> 2" if "t \<in> set (tlists demo q)" for q t
    using that by (auto simp: demo_def split: if_splits)
  have "sched_inv two_waiting"
    unfolding sched_ok_def
  proof (intro conjI allI impI)
    show "wf_lists (tlists two_waiting)"
      using S(1) e by (auto simp: wf_lists_def two_waiting_def)
    show "queue_ok q (threads two_waiting t)" if "t \<in> set (tlists two_waiting q)" for q t
      using that S(2) e by (auto simp: two_waiting_def split: if_splits)
    show "t \<in> set (tlists two_waiting (Ready (unat (prio two_waiting t))))"
      if "stat two_waiting t = RT_THREAD_READY" for t
      using that S(3) by (auto simp: two_waiting_def split: if_splits)
    show "mask_ok (threads two_waiting t)" if "started (stat two_waiting t)" for t
      using that S(4) by (auto simp: two_waiting_def mask_ok_def split: if_splits)
    show "bit (rt_thread_ready_priority_group two_waiting) p \<longleftrightarrow> tlists two_waiting (Ready p) \<noteq> []"
      if "p < RT_THREAD_PRIORITY_MAX" for p
      using S(5) [OF that] by (simp add: two_waiting_def)
  qed
  moreover have "timer_inv two_waiting"
    by (auto simp: timer_inv_def own_timer_ok_def timer_flag_def two_waiting_def demo_def)
  moreover have "stacks_ok two_waiting" using kinvD(3) [OF demo_kinv] by (simp add: stacks_ok_def two_waiting_def)
  ultimately show ?thesis by (simp add: kinv_def)
qed

theorem rt_data_queue_forgets_pusher_witness:
  "\<exists>s'. pop_times (\<lambda>f a e s. None) 1 3 (demo_dq two_waiting ((demo_queue 0 3)\<lparr>dq_waiting_lwm := True\<rparr>)) =
      Some ([Some (0, 10), Some (1, 10), Some (2, 10)], s') \<and>
    dq_items (dqs s' 1) = [] \<and> tlists (dqk s') (DqPushQ 1) = [4] \<and> stat (dqk s') 4 = RT_THREAD_SUSPEND"
proof -
  let ?s = "demo_dq two_waiting ((demo_queue 0 3)\<lparr>dq_waiting_lwm := True\<rparr>)"
  have k: "kinv (dqk ?s)" "can_wait (dqk ?s) 3"
    using two_waiting_kinv by (simp_all add: demo_dq_def can_wait_def two_waiting_def exI [of _ 10])
  have items: "dq_items (dqs ?s 1) = [(0, 10), (1, 10), (2, 10)]"
    by (simp add: demo_dq_def) (simp add: dq_items_def dq_count_def dq_place_def demo_queue_def upt_rec)
  have wf: "dq_wf (dqs ?s 1)" by (simp add: demo_dq_def demo_queue_wf)
  have q: "dq_get_index (dqs ?s 1) \<le> dq_put_index (dqs ?s 1)" "dq_evt_notify (dqs ?s 1) = None"
    "tlists (dqk ?s) (DqPushQ 1) = 2 # 4 # []" "dq_waiting_lwm (dqs ?s 1)"
    by (simp_all add: demo_dq_def demo_queue_def two_waiting_def)
  have n: "dq_items (dqs ?s 1) \<noteq> []" "length (dq_items (dqs ?s 1)) \<le> unat (dq_lwm (dqs ?s 1)) + 1"
    unfolding items by (simp_all add: demo_dq_def demo_queue_def)
  from rt_data_queue_forgets_pusher [OF k wf q n, of "\<lambda>f a e s. None"] show ?thesis
    unfolding items by (auto simp: numeral_3_eq_3)
qed

end
