(* ===== verification/RingBuffer.thy ===== *)
theory RingBuffer
  imports Prelude RtChannel
begin

text \<open>
  \<^verbatim>\<open>components/drivers/src/ringbuffer.c\<close> and the inline functions of its header: the ring buffer
  of the device drivers, with a mirror bit for each index that tells a full buffer from an empty one.
  The bytes behind \<^verbatim>\<open>buffer_ptr\<close> are a list; the indices are below \<open>2 ^ 15\<close>, and the differences the
  code takes are never negative while the invariant below holds.
\<close>

subsection \<open>State\<close>

record rt_ringbuffer =
  rb_buffer :: "u8 list"
  read_mirror :: bool
  read_index :: nat
  write_mirror :: bool
  write_index :: nat
  buffer_size :: nat

datatype rt_ringbuffer_state = RT_RINGBUFFER_EMPTY | RT_RINGBUFFER_FULL | RT_RINGBUFFER_HALFFULL

definition rt_ringbuffer_status :: "rt_ringbuffer \<Rightarrow> rt_ringbuffer_state" where
  "rt_ringbuffer_status rb =
     (if read_index rb = write_index rb
      then if read_mirror rb = write_mirror rb then RT_RINGBUFFER_EMPTY else RT_RINGBUFFER_FULL
      else RT_RINGBUFFER_HALFFULL)"

definition rt_ringbuffer_data_len :: "rt_ringbuffer \<Rightarrow> nat" where
  "rt_ringbuffer_data_len rb =
     (case rt_ringbuffer_status rb of
        RT_RINGBUFFER_EMPTY \<Rightarrow> 0
      | RT_RINGBUFFER_FULL \<Rightarrow> buffer_size rb
      | RT_RINGBUFFER_HALFFULL \<Rightarrow>
          if write_index rb > read_index rb then write_index rb - read_index rb
          else buffer_size rb - (read_index rb - write_index rb))"

definition rt_ringbuffer_space_len :: "rt_ringbuffer \<Rightarrow> nat" where
  "rt_ringbuffer_space_len rb = buffer_size rb - rt_ringbuffer_data_len rb"

text \<open>\<^verbatim>\<open>memcpy\<close> of \<open>n\<close> bytes to an index of the buffer, and from one.\<close>

definition copy_in :: "nat \<Rightarrow> u8 list \<Rightarrow> nat \<Rightarrow> rt_ringbuffer \<Rightarrow> rt_ringbuffer" where
  "copy_in i src n rb =
     rb\<lparr>rb_buffer := take i (rb_buffer rb) @ take n src @ drop (i + n) (rb_buffer rb)\<rparr>"

definition copy_out :: "nat \<Rightarrow> nat \<Rightarrow> rt_ringbuffer \<Rightarrow> u8 list" where
  "copy_out i n rb = take n (drop i (rb_buffer rb))"

subsection \<open>Operations\<close>

definition rt_ringbuffer_init :: "u8 list \<Rightarrow> int \<Rightarrow> rt_ringbuffer option" where
  "rt_ringbuffer_init pool sz =
     (if sz > 0
      then Some \<lparr>rb_buffer = pool, read_mirror = False, read_index = 0, write_mirror = False,
             write_index = 0, buffer_size = nat sz div 4 * 4\<rparr>
      else None)"

definition rt_ringbuffer_put :: "u8 list \<Rightarrow> rt_ringbuffer \<Rightarrow> nat \<times> rt_ringbuffer" where
  "rt_ringbuffer_put ptr rb =
     (let sz = rt_ringbuffer_space_len rb in
      if sz = 0 then (0, rb)
      else
        let len = (if sz < length ptr then sz else length ptr);
            to_end = buffer_size rb - write_index rb in
        if to_end > len
        then (len, (copy_in (write_index rb) ptr len rb)\<lparr>write_index := write_index rb + len\<rparr>)
        else (len, (copy_in 0 (drop to_end ptr) (len - to_end) (copy_in (write_index rb) ptr to_end rb))
               \<lparr>write_mirror := \<not> write_mirror rb, write_index := len - to_end\<rparr>))"

definition rt_ringbuffer_put_force :: "u8 list \<Rightarrow> rt_ringbuffer \<Rightarrow> nat \<times> rt_ringbuffer" where
  "rt_ringbuffer_put_force ptr rb =
     (let old_state = rt_ringbuffer_status rb;
          len = (if length ptr > buffer_size rb then buffer_size rb else length ptr);
          to_end = buffer_size rb - write_index rb in
      if to_end > len
      then
        let rb1 = (copy_in (write_index rb) ptr len rb)\<lparr>write_index := write_index rb + len\<rparr>
        in (len, if old_state = RT_RINGBUFFER_FULL then rb1\<lparr>read_index := write_index rb1\<rparr> else rb1)
      else
        let rb1 = (copy_in 0 (drop to_end ptr) (len - to_end) (copy_in (write_index rb) ptr to_end rb))
                    \<lparr>write_mirror := \<not> write_mirror rb, write_index := len - to_end\<rparr>
        in (len, if old_state = RT_RINGBUFFER_FULL
                 then rb1\<lparr>read_mirror := \<not> read_mirror rb1, read_index := write_index rb1\<rparr> else rb1))"

definition rt_ringbuffer_get :: "nat \<Rightarrow> rt_ringbuffer \<Rightarrow> u8 list \<times> rt_ringbuffer" where
  "rt_ringbuffer_get n rb =
     (let sz = rt_ringbuffer_data_len rb in
      if sz = 0 then ([], rb)
      else
        let len = (if sz < n then sz else n);
            to_end = buffer_size rb - read_index rb in
        if to_end > len
        then (copy_out (read_index rb) len rb, rb\<lparr>read_index := read_index rb + len\<rparr>)
        else (copy_out (read_index rb) to_end rb @ copy_out 0 (len - to_end) rb,
              rb\<lparr>read_mirror := \<not> read_mirror rb, read_index := len - to_end\<rparr>))"

text \<open>One byte stored at the write index, which moves on or flips to the other mirror.\<close>

definition store_char :: "u8 \<Rightarrow> rt_ringbuffer \<Rightarrow> rt_ringbuffer" where
  "store_char c rb =
     (let rb1 = rb\<lparr>rb_buffer := (rb_buffer rb)[write_index rb := c]\<rparr> in
      if write_index rb1 = buffer_size rb1 - 1
      then rb1\<lparr>write_mirror := \<not> write_mirror rb1, write_index := 0\<rparr>
      else rb1\<lparr>write_index := write_index rb1 + 1\<rparr>)"

definition rt_ringbuffer_putchar :: "u8 \<Rightarrow> rt_ringbuffer \<Rightarrow> nat \<times> rt_ringbuffer" where
  "rt_ringbuffer_putchar c rb =
     (if rt_ringbuffer_space_len rb = 0 then (0, rb) else (1, store_char c rb))"

definition rt_ringbuffer_putchar_force :: "u8 \<Rightarrow> rt_ringbuffer \<Rightarrow> nat \<times> rt_ringbuffer" where
  "rt_ringbuffer_putchar_force c rb =
     (let old_state = rt_ringbuffer_status rb; rb1 = store_char c rb in
      (1, if old_state \<noteq> RT_RINGBUFFER_FULL then rb1
          else if write_index rb = buffer_size rb - 1
               then rb1\<lparr>read_mirror := \<not> read_mirror rb1, read_index := write_index rb1\<rparr>
               else rb1\<lparr>read_index := write_index rb1\<rparr>))"

definition rt_ringbuffer_getchar :: "rt_ringbuffer \<Rightarrow> u8 option \<times> rt_ringbuffer" where
  "rt_ringbuffer_getchar rb =
     (if rt_ringbuffer_data_len rb = 0 then (None, rb)
      else (Some (rb_buffer rb ! read_index rb),
            if read_index rb = buffer_size rb - 1
            then rb\<lparr>read_mirror := \<not> read_mirror rb, read_index := 0\<rparr>
            else rb\<lparr>read_index := read_index rb + 1\<rparr>))"

subsection \<open>The ring is a bounded queue of bytes\<close>

definition rb_wf :: "rt_ringbuffer \<Rightarrow> bool" where
  "rb_wf rb \<longleftrightarrow> 0 < buffer_size rb \<and> buffer_size rb \<le> length (rb_buffer rb) \<and> buffer_size rb < 0x8000 \<and>
     read_index rb < buffer_size rb \<and> write_index rb < buffer_size rb \<and>
     (if read_mirror rb = write_mirror rb then read_index rb \<le> write_index rb else write_index rb \<le> read_index rb)"

definition rb_items :: "rt_ringbuffer \<Rightarrow> u8 list" where
  "rb_items rb = (if read_mirror rb = write_mirror rb
     then take (write_index rb - read_index rb) (drop (read_index rb) (rb_buffer rb))
     else take (buffer_size rb - read_index rb) (drop (read_index rb) (rb_buffer rb)) @ take (write_index rb) (rb_buffer rb))"

lemma data_len:
  assumes "rb_wf rb"
  shows "rt_ringbuffer_data_len rb = (if read_mirror rb = write_mirror rb then write_index rb - read_index rb
     else buffer_size rb - read_index rb + write_index rb)"
  using assms by (cases "read_mirror rb = write_mirror rb")
    (auto simp: rt_ringbuffer_data_len_def rt_ringbuffer_status_def rb_wf_def)

lemma length_rb_items: "rb_wf rb \<Longrightarrow> length (rb_items rb) = rt_ringbuffer_data_len rb"
  unfolding data_len by (auto simp: rb_wf_def rb_items_def)

lemma space_len: "rb_wf rb \<Longrightarrow> rt_ringbuffer_space_len rb = buffer_size rb - length (rb_items rb)"
  by (simp add: rt_ringbuffer_space_len_def length_rb_items)

lemma split_run:
  assumes "r \<le> w" "w \<le> length b"
  shows "\<exists>A I. take w b = A @ I \<and> length A = r \<and> length I = w - r \<and> take (w - r) (drop r b) = I"
proof -
  have "take w b = take r b @ take (w - r) (drop r b)" using assms(1) by (metis le_add_diff_inverse take_add)
  then show ?thesis using assms by (intro exI [of _ "take r b"] exI [of _ "take (w - r) (drop r b)"]) simp
qed

lemma put_near:
  assumes "rb_wf rb" "n \<le> length ptr" "n \<le> buffer_size rb - length (rb_items rb)" "n < buffer_size rb - write_index rb"
  defines "rb' \<equiv> (copy_in (write_index rb) ptr n rb)\<lparr>write_index := write_index rb + n\<rparr>"
  shows "rb_wf rb'" "buffer_size rb' = buffer_size rb" "rb_items rb' = rb_items rb @ take n ptr"
proof -
  let ?B = "buffer_size rb" and ?w = "write_index rb" and ?r = "read_index rb" and ?b = "rb_buffer rb"
  have w: "0 < ?B" "?B \<le> length ?b" "?r < ?B" "?w < ?B" using assms(1) by (simp_all add: rb_wf_def)
  show "buffer_size rb' = buffer_size rb" by (simp add: rb'_def copy_in_def)
  have l: "length (rb_items rb) = (if read_mirror rb = write_mirror rb then ?w - ?r else ?B - ?r + ?w)"
    using length_rb_items [OF assms(1)] data_len [OF assms(1)] by simp
  show "rb_wf rb'" using assms(1-4) l by (auto simp: rb'_def copy_in_def rb_wf_def split: if_splits)
  show "rb_items rb' = rb_items rb @ take n ptr"
  proof (cases "read_mirror rb = write_mirror rb")
    case True
    then have "?r \<le> ?w" using assms(1) by (simp add: rb_wf_def)
    have wl: "?w \<le> length ?b" using w by simp
    obtain A I where b: "take ?w ?b = A @ I" "length A = ?r" "length I = ?w - ?r" "take (?w - ?r) (drop ?r ?b) = I"
      using split_run [OF \<open>?r \<le> ?w\<close> wl] by (elim exE conjE)
    show ?thesis using True w assms(2) b \<open>?r \<le> ?w\<close> by (simp add: rb'_def copy_in_def rb_items_def)
  next
    case False
    then have "?w \<le> ?r" "n \<le> ?r - ?w" using assms(1,3) l by (simp_all add: rb_wf_def)
    then have "?w + n \<le> ?r" by linarith
    then show ?thesis using False w assms(2) by (simp add: rb'_def copy_in_def rb_items_def min_def)
  qed
qed

lemma put_far:
  assumes "rb_wf rb" "n \<le> length ptr" "n \<le> buffer_size rb - length (rb_items rb)" "buffer_size rb - write_index rb \<le> n"
  defines "e \<equiv> buffer_size rb - write_index rb"
  defines "rb' \<equiv> (copy_in 0 (drop e ptr) (n - e) (copy_in (write_index rb) ptr e rb))
      \<lparr>write_mirror := \<not> write_mirror rb, write_index := n - e\<rparr>"
  shows "rb_wf rb'" "buffer_size rb' = buffer_size rb" "rb_items rb' = rb_items rb @ take n ptr"
proof -
  let ?B = "buffer_size rb" and ?w = "write_index rb" and ?r = "read_index rb" and ?b = "rb_buffer rb"
  have w: "0 < ?B" "?B \<le> length ?b" "?r < ?B" "?w < ?B" using assms(1) by (simp_all add: rb_wf_def)
  show "buffer_size rb' = buffer_size rb" by (simp add: rb'_def copy_in_def)
  have l: "length (rb_items rb) = (if read_mirror rb = write_mirror rb then ?w - ?r else ?B - ?r + ?w)"
    using length_rb_items [OF assms(1)] data_len [OF assms(1)] by simp
  have m: "read_mirror rb = write_mirror rb"
    using l assms(1,3,4) w by (auto simp: rb_wf_def split: if_splits)
  have rw: "?r \<le> ?w" "n - e \<le> ?r" "?w + e = ?B" "e \<le> n"
    using m l assms(1,3,4) w by (auto simp: rb_wf_def e_def)
  have ne: "n - e \<le> length ptr - e" using assms(2) by simp
  show "rb_wf rb'" using assms(1) rw w m ne assms(2) by (auto simp: rb'_def copy_in_def rb_wf_def)
  have wl: "?w \<le> length ?b" using w by simp
  obtain A I where b: "take ?w ?b = A @ I" "length A = ?r" "length I = ?w - ?r" "take (?w - ?r) (drop ?r ?b) = I"
    using split_run [OF rw(1) wl] by (elim exE conjE)
  have t: "?B - ?r = length I + e" using b(3) rw w by simp
  have "e \<le> length ptr" "n - e \<le> length (drop e ptr)" using rw(4) assms(2) by simp_all
  then have "rb_items rb' = I @ take e ptr @ take (n - e) (drop e ptr)"
    using m b rw(2) unfolding rb_items_def rb'_def copy_in_def by (simp add: t)
  moreover have "take n ptr = take e ptr @ take (n - e) (drop e ptr)" using rw(4) by (metis le_add_diff_inverse take_add)
  ultimately show "rb_items rb' = rb_items rb @ take n ptr" using m b(4) by (simp add: rb_items_def)
qed

lemma put_spec:
  assumes "rb_wf rb"
    and n_def: "n = min (length ptr) (buffer_size rb - length (rb_items rb))"
  shows "\<exists>rb'. rt_ringbuffer_put ptr rb = (n, rb') \<and> rb_wf rb' \<and> buffer_size rb' = buffer_size rb \<and>
     rb_items rb' = rb_items rb @ take n ptr"
proof (cases "rt_ringbuffer_space_len rb = 0")
  case True
  then show ?thesis using assms by (simp add: rt_ringbuffer_put_def space_len)
next
  case False
  have n: "(if rt_ringbuffer_space_len rb < length ptr then rt_ringbuffer_space_len rb else length ptr) = n"
    by (simp add: n_def space_len [OF assms(1)])
  have le: "n \<le> length ptr" "n \<le> buffer_size rb - length (rb_items rb)" by (simp_all add: n_def)
  show ?thesis
  proof (cases "n < buffer_size rb - write_index rb")
    case True
    then show ?thesis using False put_near [OF assms(1) le True]
      unfolding rt_ringbuffer_put_def Let_def n by simp
  next
    case far: False
    then have "buffer_size rb - write_index rb \<le> n" by simp
    then show ?thesis using False far put_far [OF assms(1) le]
      unfolding rt_ringbuffer_put_def Let_def n by simp
  qed
qed

lemma get_spec:
  assumes "rb_wf rb"
  shows "\<exists>rb'. rt_ringbuffer_get n rb = (take n (rb_items rb), rb') \<and> rb_wf rb' \<and> buffer_size rb' = buffer_size rb \<and>
     rb_items rb' = drop n (rb_items rb)"
proof (cases "rt_ringbuffer_data_len rb = 0")
  case True
  then show ?thesis using assms length_rb_items [OF assms] by (simp add: rt_ringbuffer_get_def)
next
  case False
  let ?B = "buffer_size rb" and ?w = "write_index rb" and ?r = "read_index rb" and ?b = "rb_buffer rb"
  have w: "0 < ?B" "?B \<le> length ?b" "?r < ?B" "?w < ?B" using assms(1) by (simp_all add: rb_wf_def)
  define l where "l = (if rt_ringbuffer_data_len rb < n then rt_ringbuffer_data_len rb else n)"
  have l: "l \<le> length (rb_items rb)" "take n (rb_items rb) = take l (rb_items rb)" "drop n (rb_items rb) = drop l (rb_items rb)"
    using length_rb_items [OF assms] by (auto simp: l_def)
  have len: "length (rb_items rb) = (if read_mirror rb = write_mirror rb then ?w - ?r else ?B - ?r + ?w)"
    using length_rb_items [OF assms(1)] data_len [OF assms(1)] by simp
  show ?thesis
  proof (cases "l < ?B - ?r")
    case True
    let ?rb = "rb\<lparr>read_index := ?r + l\<rparr>"
    have run: "rt_ringbuffer_get n rb = (copy_out ?r l rb, ?rb)"
      using False True unfolding rt_ringbuffer_get_def Let_def l_def by simp
    have "rb_wf ?rb \<and> copy_out ?r l rb = take l (rb_items rb) \<and> rb_items ?rb = drop l (rb_items rb)"
    proof (cases "read_mirror rb = write_mirror rb")
      case eq: True
      then have "l \<le> ?w - ?r" "?r \<le> ?w" using l(1) len assms by (simp_all add: rb_wf_def)
      then show ?thesis using eq w assms by (auto simp: copy_out_def rb_items_def rb_wf_def drop_take add.commute)
    next
      case ne: False
      then have "?w \<le> ?r" using assms by (simp add: rb_wf_def)
      then show ?thesis using ne w assms True
        by (auto simp: copy_out_def rb_items_def rb_wf_def drop_take add.commute)
    qed
    then show ?thesis using run l by (intro exI [of _ ?rb]) simp
  next
    case far: False
    let ?e = "?B - ?r"
    let ?rb = "rb\<lparr>read_mirror := \<not> read_mirror rb, read_index := l - ?e\<rparr>"
    have run: "rt_ringbuffer_get n rb = (copy_out ?r ?e rb @ copy_out 0 (l - ?e) rb, ?rb)"
      using False far unfolding rt_ringbuffer_get_def Let_def l_def by simp
    have ne: "read_mirror rb \<noteq> write_mirror rb" "?w \<le> ?r"
      using l(1) len far w assms by (auto simp: rb_wf_def split: if_splits)
    have "l - ?e \<le> ?w" using l(1) len ne by simp
    then have "rb_wf ?rb \<and> copy_out ?r ?e rb @ copy_out 0 (l - ?e) rb = take l (rb_items rb) \<and> rb_items ?rb = drop l (rb_items rb)"
      using ne w assms far by (auto simp: copy_out_def rb_items_def rb_wf_def drop_take)
    then show ?thesis using run l by (intro exI [of _ ?rb]) simp
  qed
qed

text \<open>The calls for one byte are those for blocks of one byte.\<close>

lemma store_char_put:
  assumes "rb_wf rb" "rt_ringbuffer_space_len rb \<noteq> 0"
  shows "(1, store_char c rb) = rt_ringbuffer_put [c] rb"
proof -
  have w: "write_index rb < buffer_size rb" "buffer_size rb \<le> length (rb_buffer rb)" using assms(1) by (simp_all add: rb_wf_def)
  have u: "(rb_buffer rb)[write_index rb := c] = take (write_index rb) (rb_buffer rb) @ c # drop (Suc (write_index rb)) (rb_buffer rb)"
    using w by (simp add: upd_conv_take_nth_drop)
  have s: "\<not> rt_ringbuffer_space_len rb < 1" using assms(2) by simp
  show ?thesis
  proof (cases "write_index rb = buffer_size rb - 1")
    case True
    then have "buffer_size rb - write_index rb = 1" using w by simp
    then show ?thesis using True assms(2) s u
      by (simp add: store_char_def rt_ringbuffer_put_def copy_in_def Let_def)
  next
    case False
    then have "1 < buffer_size rb - write_index rb" using w by simp
    then show ?thesis using False assms(2) s u
      by (simp add: store_char_def rt_ringbuffer_put_def copy_in_def Let_def)
  qed
qed

lemma putchar_put: "rb_wf rb \<Longrightarrow> rt_ringbuffer_putchar c rb = rt_ringbuffer_put [c] rb"
  using store_char_put [of rb c] by (auto simp: rt_ringbuffer_putchar_def rt_ringbuffer_put_def)

lemma getchar_spec:
  assumes "rb_wf rb"
  shows "\<exists>rb'. rt_ringbuffer_getchar rb = (case rb_items rb of [] \<Rightarrow> None | c # _ \<Rightarrow> Some c, rb') \<and> rb_wf rb' \<and>
     buffer_size rb' = buffer_size rb \<and> rb_items rb' = tl (rb_items rb)"
proof (cases "rb_items rb")
  case Nil
  then show ?thesis using assms length_rb_items [OF assms] by (simp add: rt_ringbuffer_getchar_def)
next
  case (Cons c cs)
  have l: "rt_ringbuffer_data_len rb \<noteq> 0" using length_rb_items [OF assms] Cons by simp
  then have one: "(if rt_ringbuffer_data_len rb < 1 then rt_ringbuffer_data_len rb else 1) = 1" by simp
  have r: "read_index rb < buffer_size rb" "buffer_size rb \<le> length (rb_buffer rb)" using assms by (simp_all add: rb_wf_def)
  obtain rb' where g: "rt_ringbuffer_get 1 rb = (take 1 (rb_items rb), rb')" "rb_wf rb'" "buffer_size rb' = buffer_size rb"
    "rb_items rb' = drop 1 (rb_items rb)" using get_spec [OF assms] by blast
  have b: "take 1 (drop (read_index rb) (rb_buffer rb)) = [rb_buffer rb ! read_index rb]"
    using r by (simp add: take_Suc_conv_app_nth hd_drop_conv_nth take_Suc)
  have "rt_ringbuffer_getchar rb = (Some c, rb')"
  proof (cases "read_index rb = buffer_size rb - 1")
    case True
    then have "buffer_size rb - read_index rb = 1" using r by simp
    then show ?thesis using g(1) l b True Cons unfolding rt_ringbuffer_get_def Let_def one
      by (simp add: rt_ringbuffer_getchar_def copy_out_def)
  next
    case False
    then have "1 < buffer_size rb - read_index rb" using r by simp
    then show ?thesis using g(1) l b False Cons unfolding rt_ringbuffer_get_def Let_def one
      by (simp add: rt_ringbuffer_getchar_def copy_out_def)
  qed
  then show ?thesis using g Cons by (intro exI [of _ rb']) simp
qed

subsection \<open>Discarding old data\<close>

lemma items_le: "rb_wf rb \<Longrightarrow> length (rb_items rb) \<le> buffer_size rb"
  using length_rb_items [of rb] data_len [of rb] by (auto simp: rb_wf_def split: if_splits)

lemma full_items:
  assumes "rb_wf rb"
  shows "rt_ringbuffer_status rb = RT_RINGBUFFER_FULL \<longleftrightarrow> length (rb_items rb) = buffer_size rb"
  using assms length_rb_items [OF assms] data_len [OF assms]
  by (cases "read_mirror rb = write_mirror rb") (auto simp: rt_ringbuffer_status_def rb_wf_def)

lemma put_force_room:
  assumes "rb_wf rb" "length ptr \<le> buffer_size rb - length (rb_items rb)" "rt_ringbuffer_status rb \<noteq> RT_RINGBUFFER_FULL"
  shows "rt_ringbuffer_put_force ptr rb = rt_ringbuffer_put ptr rb"
proof -
  have s: "rt_ringbuffer_space_len rb \<noteq> 0"
    using assms(1,3) full_items [OF assms(1)] length_rb_items [OF assms(1)] data_len [OF assms(1)]
    by (auto simp: space_len rb_wf_def split: if_splits)
  have l: "(if buffer_size rb < length ptr then buffer_size rb else length ptr) = length ptr"
    "(if rt_ringbuffer_space_len rb < length ptr then rt_ringbuffer_space_len rb else length ptr) = length ptr"
    using assms(2) by (simp_all add: space_len [OF assms(1)])
  show ?thesis unfolding rt_ringbuffer_put_force_def rt_ringbuffer_put_def Let_def l using s assms(3) by simp
qed

lemma put_force_full:
  assumes "rb_wf rb" "rt_ringbuffer_status rb = RT_RINGBUFFER_FULL"
    and n_def: "n = min (length ptr) (buffer_size rb)"
  shows "\<exists>rb'. rt_ringbuffer_put_force ptr rb = (n, rb') \<and> rb_wf rb' \<and> buffer_size rb' = buffer_size rb \<and>
     rb_items rb' = drop n (rb_items rb) @ take n ptr"
proof -
  let ?B = "buffer_size rb" and ?w = "write_index rb" and ?b = "rb_buffer rb"
  have w: "0 < ?B" "?B \<le> length ?b" "?w < ?B" using assms(1) by (simp_all add: rb_wf_def)
  have m: "read_index rb = ?w" "read_mirror rb = (\<not> write_mirror rb)"
    using assms(2) by (auto simp: rt_ringbuffer_status_def split: if_splits)
  have n: "(if ?B < length ptr then ?B else length ptr) = n" by (simp add: n_def)
  have le: "n \<le> length ptr" "n \<le> ?B" by (simp_all add: n_def)
  have items: "rb_items rb = take (?B - ?w) (drop ?w ?b) @ take ?w ?b" using m by (simp add: rb_items_def)
  show ?thesis
  proof (cases "n < ?B - ?w")
    case True
    let ?rb = "rb\<lparr>rb_buffer := take ?w ?b @ take n ptr @ drop (?w + n) ?b, write_index := ?w + n, read_index := ?w + n\<rparr>"
    have run: "rt_ringbuffer_put_force ptr rb = (n, ?rb)"
      unfolding rt_ringbuffer_put_force_def Let_def n using True assms(2) by (simp add: copy_in_def)
    have "rb_wf ?rb" using assms(1) True m le w by (auto simp: rb_wf_def)
    moreover have "rb_items ?rb = drop n (rb_items rb) @ take n ptr"
      unfolding items using True m le w by (simp add: rb_items_def drop_take add.commute)
    ultimately show ?thesis using run by (intro exI [of _ ?rb]) simp
  next
    case False
    let ?e = "?B - ?w"
    have e: "?e \<le> n" "n - ?e \<le> ?w" "?w + ?e = ?B" "?e \<le> length ptr" "n - ?e \<le> length (drop ?e ptr)"
      using False le w by auto
    let ?b1 = "take ?w ?b @ take ?e ptr @ drop ?B ?b"
    let ?rb = "rb\<lparr>rb_buffer := take (n - ?e) (drop ?e ptr) @ drop (n - ?e) ?b1, write_mirror := \<not> write_mirror rb,
        write_index := n - ?e, read_mirror := \<not> read_mirror rb, read_index := n - ?e\<rparr>"
    have run: "rt_ringbuffer_put_force ptr rb = (n, ?rb)"
      unfolding rt_ringbuffer_put_force_def Let_def n using False assms(2) e by (simp add: copy_in_def)
    have "rb_wf ?rb" using assms(1) m le w e by (auto simp: rb_wf_def)
    moreover have "rb_items ?rb = drop n (rb_items rb) @ take n ptr"
    proof -
      have d: "drop (n - ?e) ?b1 = drop (n - ?e) (take ?w ?b) @ take ?e ptr @ drop ?B ?b" using e(2) w by simp
      have l: "length (drop (n - ?e) (take ?w ?b)) = ?w - (n - ?e)" "length (take ?e ptr) = ?e" using w e by simp_all
      have s: "?B - (n - ?e) = ?w - (n - ?e) + ?e" using e w by simp
      have "rb_items ?rb = drop (n - ?e) (take ?w ?b) @ take ?e ptr @ take (n - ?e) (drop ?e ptr)"
        using m e(5) l unfolding d by (simp add: rb_items_def s)
      moreover have "take n ptr = take ?e ptr @ take (n - ?e) (drop ?e ptr)" using e(1) by (metis le_add_diff_inverse take_add)
      moreover have "drop n (rb_items rb) = drop (n - ?e) (take ?w ?b)" unfolding items using e(1) w by simp
      ultimately show ?thesis by simp
    qed
    ultimately show ?thesis using run by (intro exI [of _ ?rb]) simp
  qed
qed

text \<open>A block that is longer than the room in a buffer not yet full: the bytes overwritten are not
  taken off the front, and the buffer then reads as if most of them had never been there.\<close>

lemma put_force_half_full_loses:
  "let rb = snd (rt_ringbuffer_put [1, 2, 3] (the (rt_ringbuffer_init [0, 0, 0, 0] 4)))
   in rb_items rb = [1, 2, 3] \<and> fst (rt_ringbuffer_get 4 (snd (rt_ringbuffer_put_force [4, 5] rb))) = [5]"
  by code_simp

interpretation ringbuffer: channel rb_wf rb_items buffer_size "\<lambda>_ _. True"
    "\<lambda>c rb. let (n, rb) = rt_ringbuffer_putchar c rb in Some (n = 1, rb)"
    "\<lambda>rb. Some (rt_ringbuffer_getchar rb)"
proof (unfold_locales, goal_cases)
  case (1 rb c)
  from put_spec [OF 1(1) refl, of "[c]"] show ?case
    using length_rb_items [OF 1(1)] by (auto simp: putchar_put [OF 1(1)] min_def split: if_splits)
next
  case (2 rb)
  then show ?case using getchar_spec by (auto split: list.splits)
qed

lemma init_spec:
  assumes "4 \<le> sz" "sz < 0x8000" "nat sz \<le> length pool"
  shows "\<exists>rb. rt_ringbuffer_init pool sz = Some rb \<and> rb_wf rb \<and> rb_items rb = [] \<and> buffer_size rb = nat sz div 4 * 4"
proof -
  have n: "nat sz < 0x8000" "4 \<le> nat sz" using assms(1,2) by auto
  then have "0 < nat sz div 4" "nat sz div 4 < 8192" by simp_all
  moreover have "nat sz div 4 * 4 \<le> length pool" using assms(3) div_times_less_eq_dividend le_trans by blast
  ultimately have "0 < nat sz div 4" "nat sz div 4 < 8192" "nat sz div 4 * 4 \<le> length pool" by blast+
  then show ?thesis using assms by (simp add: rt_ringbuffer_init_def rb_wf_def rb_items_def)
qed

lemma putchar_force_spec:
  assumes "rb_wf rb"
  shows "\<exists>rb'. rt_ringbuffer_putchar_force c rb = (1, rb') \<and> rb_wf rb' \<and> buffer_size rb' = buffer_size rb \<and>
     rb_items rb' = (if length (rb_items rb) = buffer_size rb then tl (rb_items rb) else rb_items rb) @ [c]"
proof (cases "rt_ringbuffer_status rb = RT_RINGBUFFER_FULL")
  case False
  have l: "length (rb_items rb) \<le> buffer_size rb" "length (rb_items rb) \<noteq> buffer_size rb"
    using False full_items [OF assms] length_rb_items [OF assms] data_len [OF assms] assms
    by (auto simp: rb_wf_def split: if_splits)
  then have s: "rt_ringbuffer_space_len rb \<noteq> 0" using space_len [OF assms] by simp
  have "rt_ringbuffer_putchar_force c rb = rt_ringbuffer_put [c] rb"
    unfolding store_char_put [OF assms s, symmetric] using False by (simp add: rt_ringbuffer_putchar_force_def Let_def)
  then show ?thesis using put_spec [OF assms refl, of "[c]"] l by simp
next
  case True
  have w: "0 < buffer_size rb" "write_index rb < buffer_size rb" "buffer_size rb \<le> length (rb_buffer rb)"
    using assms by (simp_all add: rb_wf_def)
  have u: "(rb_buffer rb)[write_index rb := c] = take (write_index rb) (rb_buffer rb) @ c # drop (Suc (write_index rb)) (rb_buffer rb)"
    using w by (simp add: upd_conv_take_nth_drop)
  have one: "(if buffer_size rb < length [c] then buffer_size rb else length [c]) = 1" using w by simp
  have "rt_ringbuffer_putchar_force c rb = rt_ringbuffer_put_force [c] rb"
  proof (cases "write_index rb = buffer_size rb - 1")
    case last: True
    then have "buffer_size rb - write_index rb = 1" using w by simp
    then show ?thesis using True last u unfolding rt_ringbuffer_put_force_def Let_def one
      by (simp add: rt_ringbuffer_putchar_force_def store_char_def copy_in_def Let_def)
  next
    case mid: False
    then have "1 < buffer_size rb - write_index rb" using w by simp
    then show ?thesis using True mid u unfolding rt_ringbuffer_put_force_def Let_def one
      by (simp add: rt_ringbuffer_putchar_force_def store_char_def copy_in_def Let_def)
  qed
  moreover have "min (length [c]) (buffer_size rb) = 1" using w by simp
  ultimately show ?thesis using put_force_full [OF assms True refl, of "[c]"] full_items [OF assms] True
    by (simp add: drop_Suc)
qed

subsection \<open>Properties\<close>



end
