(* ===== verification/RtPipe.thy ===== *)
theory RtPipe
  imports RtDevice RtIpc RingBuffer
begin

text \<open>
  The pipes of \<^verbatim>\<open>components/drivers/src/pipe.c\<close> and the portals of \<^verbatim>\<open>portal.c\<close>: drivers on the devices of
  \<open>RtDevice\<close>. A pipe is a ring buffer of \<open>RingBuffer\<close> with a list of the threads that wait to read and
  one of those that wait to write; a portal passes its calls on to two pipes. The buffers of the
  callers lie in the memory of the I/O state, the ring's bytes in the pipe.
\<close>

subsection \<open>Data\<close>

abbreviation RT_PIPE_FLAG_BLOCK_RD :: u32 where "RT_PIPE_FLAG_BLOCK_RD \<equiv> 1"
abbreviation RT_PIPE_FLAG_BLOCK_WR :: u32 where "RT_PIPE_FLAG_BLOCK_WR \<equiv> 2"
abbreviation RT_PIPE_FLAG_FORCE_WR :: u32 where "RT_PIPE_FLAG_FORCE_WR \<equiv> 4"
abbreviation RT_DEVICE_FLAG_RDWR :: u16 where "RT_DEVICE_FLAG_RDWR \<equiv> 3"
abbreviation RT_DEVICE_OFLAG_RDONLY :: u16 where "RT_DEVICE_OFLAG_RDONLY \<equiv> 1"
abbreviation RT_DEVICE_OFLAG_WRONLY :: u16 where "RT_DEVICE_OFLAG_WRONLY \<equiv> 2"
abbreviation PIPE_CTRL_GET_SPACE :: u8 where "PIPE_CTRL_GET_SPACE \<equiv> 0x14"

record rt_pipe_device =
  p_ringbuffer :: rt_ringbuffer
  p_buffer_ptr :: nat
  p_flag :: u32
  p_write_portal :: "nat option"
  p_read_portal :: "nat option"

record rt_portal_device =
  pt_write_dev :: "nat option"
  pt_read_dev :: "nat option"

record pipe_hw =
  pipes :: "nat \<Rightarrow> rt_pipe_device"
  portals :: "nat \<Rightarrow> rt_portal_device"

type_synonym pipe_io = "pipe_hw io_state"

text \<open>A call of a function \<^verbatim>\<open>rx_indicate\<close> or \<^verbatim>\<open>tx_complete\<close> of the application.\<close>

record pipe_callbacks =
  call_rx :: "nat \<Rightarrow> nat \<Rightarrow> u32 \<Rightarrow> pipe_io \<Rightarrow> (rt_err_t \<times> pipe_io) option"
  call_tx :: "nat \<Rightarrow> nat \<Rightarrow> nat \<Rightarrow> pipe_io \<Rightarrow> (rt_err_t \<times> pipe_io) option"

abbreviation pipe_at :: "nat \<Rightarrow> (rt_pipe_device \<Rightarrow> rt_pipe_device) \<Rightarrow> pipe_io \<Rightarrow> pipe_io" where
  "pipe_at d f s \<equiv> s\<lparr>hw := (hw s)\<lparr>pipes := (pipes (hw s))(d := f (pipes (hw s) d))\<rparr>\<rparr>"

abbreviation portal_at :: "nat \<Rightarrow> (rt_portal_device \<Rightarrow> rt_portal_device) \<Rightarrow> pipe_io \<Rightarrow> pipe_io" where
  "portal_at d f s \<equiv> s\<lparr>hw := (hw s)\<lparr>portals := (portals (hw s))(d := f (portals (hw s) d))\<rparr>\<rparr>"

text \<open>The addresses of the functions of the two drivers.\<close>

abbreviation RT_PIPE_READ :: nat where "RT_PIPE_READ \<equiv> 1"
abbreviation RT_PIPE_WRITE :: nat where "RT_PIPE_WRITE \<equiv> 2"
abbreviation RT_PIPE_CONTROL :: nat where "RT_PIPE_CONTROL \<equiv> 3"
abbreviation PORTAL_INIT :: nat where "PORTAL_INIT \<equiv> 4"
abbreviation PORTAL_OPEN :: nat where "PORTAL_OPEN \<equiv> 5"
abbreviation PORTAL_CLOSE :: nat where "PORTAL_CLOSE \<equiv> 6"
abbreviation PORTAL_READ :: nat where "PORTAL_READ \<equiv> 7"
abbreviation PORTAL_WRITE :: nat where "PORTAL_WRITE \<equiv> 8"
abbreviation PORTAL_RX_INDICATE :: nat where "PORTAL_RX_INDICATE \<equiv> 9"
abbreviation PORTAL_TX_COMPLETE :: nat where "PORTAL_TX_COMPLETE \<equiv> 10"

subsection \<open>Reading from a pipe\<close>

definition store_bytes :: "nat \<Rightarrow> u8 list \<Rightarrow> memory \<Rightarrow> memory" where
  "store_bytes a bs m = (\<lambda>i. if a \<le> i \<and> i < a + length bs then bs ! (i - a) else m i)"

definition load_bytes :: "nat \<Rightarrow> nat \<Rightarrow> memory \<Rightarrow> u8 list" where
  "load_bytes a n m = map m [a..<a + n]"

text \<open>The length is passed to the ring buffer as a \<^verbatim>\<open>rt_uint16_t\<close>.\<close>

definition ring_length :: "u32 \<Rightarrow> nat" where
  "ring_length sz = unat (ucast sz :: u16)"

definition pipe_get :: "nat \<Rightarrow> nat \<Rightarrow> u32 \<Rightarrow> pipe_io \<Rightarrow> nat \<times> pipe_io" where
  "pipe_get d buffer sz s =
     (let (bs, rb) = rt_ringbuffer_get (ring_length sz) (p_ringbuffer (pipes (hw s) d))
      in (length bs, pipe_at d (p_ringbuffer_update (\<lambda>_. rb)) (s\<lparr>mem := store_bytes buffer bs (mem s)\<rparr>)))"

definition resume_first :: "list_head \<Rightarrow> pipe_io \<Rightarrow> pipe_io option" where
  "resume_first q s =
     do {
       k \<leftarrow> rt_ipc_list_resume q (kern s);
       k \<leftarrow> rt_schedule k;
       Some (s\<lparr>kern := k\<rparr>) }"

definition rt_pipe_resume_writer :: "nat \<Rightarrow> pipe_io \<Rightarrow> pipe_io option" where
  "rt_pipe_resume_writer d s =
     (if tlists (kern s) (PipeWriteQ d) \<noteq> []
      then RT_ASSERT (p_flag (pipes (hw s) d) AND RT_PIPE_FLAG_BLOCK_WR \<noteq> 0) (resume_first (PipeWriteQ d) s)
      else Some s)"

definition pipe_suspend :: "list_head \<Rightarrow> frame \<Rightarrow> pipe_io \<Rightarrow> pipe_io option" where
  "pipe_suspend q fr s =
     do {
       t \<leftarrow> rt_thread_self (kern s);
       k \<leftarrow> rt_ipc_list_suspend q t RT_IPC_FLAG_FIFO (kern s);
       k \<leftarrow> rt_schedule (k\<lparr>frames := (frames k)(t := Some fr)\<rparr>);
       Some (s\<lparr>kern := k\<rparr>) }"

definition pipe_read_loop :: "nat \<Rightarrow> nat \<Rightarrow> u32 \<Rightarrow> pipe_io \<Rightarrow> (u32 call \<times> pipe_io) option" where
  "pipe_read_loop d buffer sz s =
     (let (read_nbytes, s) = pipe_get d buffer sz s
      in if read_nbytes = 0
         then map_option (Pair Waits) (pipe_suspend (PipeReadQ d) (InPipeRead d buffer sz) s)
         else map_option (Pair (Returns (of_nat read_nbytes))) (rt_pipe_resume_writer d s))"

definition rt_pipe_read :: "nat \<Rightarrow> u32 \<Rightarrow> nat \<Rightarrow> u32 \<Rightarrow> pipe_io \<Rightarrow> (u32 call \<times> pipe_io) option" where
  "rt_pipe_read d pos buffer sz s =
     (if p_flag (pipes (hw s) d) AND RT_PIPE_FLAG_BLOCK_RD = 0
      then let (read_nbytes, s) = pipe_get d buffer sz s
        in map_option (Pair (Returns (of_nat read_nbytes)))
          (if read_nbytes \<noteq> 0 then rt_pipe_resume_writer d s else Some s)
      else RT_DEBUG_NOT_IN_INTERRUPT (kern s) (pipe_read_loop d buffer sz s))"

definition leave_frame :: "nat \<Rightarrow> pipe_io \<Rightarrow> pipe_io" where
  "leave_frame t s = s\<lparr>kern := (kern s)\<lparr>frames := (frames (kern s))(t := None)\<rparr>\<rparr>"

definition rt_pipe_read_wake :: "nat \<Rightarrow> nat \<Rightarrow> nat \<Rightarrow> u32 \<Rightarrow> pipe_io \<Rightarrow> (u32 call \<times> pipe_io) option" where
  "rt_pipe_read_wake t d buffer sz s = pipe_read_loop d buffer sz (leave_frame t s)"

subsection \<open>The indications\<close>

text \<open>A portal passes the indication of its pipe on to its own function. If that is this function
  again, its assertion fails, as a portal is no pipe.\<close>

definition portal_rx_indicate ::
  "pipe_callbacks \<Rightarrow> nat \<Rightarrow> u32 \<Rightarrow> pipe_io \<Rightarrow> (rt_err_t \<times> pipe_io) option" where
  "portal_rx_indicate C d sz s =
     RT_ASSERT (d_type (devices s d) = PipeDevice) (do {
       p \<leftarrow> p_read_portal (pipes (hw s) d);
       (case d_rx_indicate (devices s p) of
          Some f \<Rightarrow> RT_ASSERT (f \<noteq> PORTAL_RX_INDICATE) (call_rx C f p sz s)
        | None \<Rightarrow> Some (- RT_ENOSYS, s)) })"

definition portal_tx_complete ::
  "pipe_callbacks \<Rightarrow> nat \<Rightarrow> nat \<Rightarrow> pipe_io \<Rightarrow> (rt_err_t \<times> pipe_io) option" where
  "portal_tx_complete C d buf s =
     RT_ASSERT (d_type (devices s d) = PipeDevice) (do {
       p \<leftarrow> p_write_portal (pipes (hw s) d);
       (case d_tx_complete (devices s p) of
          Some f \<Rightarrow> RT_ASSERT (f \<noteq> PORTAL_TX_COMPLETE) (call_tx C f p buf s)
        | None \<Rightarrow> Some (- RT_ENOSYS, s)) })"

definition pipe_rx_indicate ::
  "pipe_callbacks \<Rightarrow> nat \<Rightarrow> nat \<Rightarrow> u32 \<Rightarrow> pipe_io \<Rightarrow> (rt_err_t \<times> pipe_io) option" where
  "pipe_rx_indicate C f d sz s =
     (if f = PORTAL_RX_INDICATE then portal_rx_indicate C d sz s else call_rx C f d sz s)"

definition rt_pipe_resume_reader :: "pipe_callbacks \<Rightarrow> nat \<Rightarrow> pipe_io \<Rightarrow> pipe_io option" where
  "rt_pipe_resume_reader C d s =
     do {
       s \<leftarrow> (case d_rx_indicate (devices s d) of
          Some f \<Rightarrow> map_option snd (pipe_rx_indicate C f d
            (of_nat (rt_ringbuffer_data_len (p_ringbuffer (pipes (hw s) d)))) s)
        | None \<Rightarrow> Some s);
       if tlists (kern s) (PipeReadQ d) \<noteq> []
       then RT_ASSERT (p_flag (pipes (hw s) d) AND RT_PIPE_FLAG_BLOCK_RD \<noteq> 0) (resume_first (PipeReadQ d) s)
       else Some s }"

subsection \<open>Writing to a pipe\<close>

definition pipe_put ::
  "(u8 list \<Rightarrow> rt_ringbuffer \<Rightarrow> nat \<times> rt_ringbuffer) \<Rightarrow> nat \<Rightarrow> nat \<Rightarrow> u32 \<Rightarrow> pipe_io \<Rightarrow> nat \<times> pipe_io" where
  "pipe_put put d buffer sz s =
     (let (n, rb) = put (load_bytes buffer (ring_length sz) (mem s)) (p_ringbuffer (pipes (hw s) d))
      in (n, pipe_at d (p_ringbuffer_update (\<lambda>_. rb)) s))"

definition pipe_write_loop ::
  "pipe_callbacks \<Rightarrow> nat \<Rightarrow> nat \<Rightarrow> u32 \<Rightarrow> pipe_io \<Rightarrow> (u32 call \<times> pipe_io) option" where
  "pipe_write_loop C d buffer sz s =
     (let (write_nbytes, s) = pipe_put rt_ringbuffer_put d buffer sz s
      in if write_nbytes = 0
         then map_option (Pair Waits) (pipe_suspend (PipeWriteQ d) (InPipeWrite d buffer sz) s)
         else map_option (Pair (Returns (of_nat write_nbytes))) (rt_pipe_resume_reader C d s))"

definition rt_pipe_write ::
  "pipe_callbacks \<Rightarrow> nat \<Rightarrow> u32 \<Rightarrow> nat \<Rightarrow> u32 \<Rightarrow> pipe_io \<Rightarrow> (u32 call \<times> pipe_io) option" where
  "rt_pipe_write C d pos buffer sz s =
     (if p_flag (pipes (hw s) d) AND RT_PIPE_FLAG_FORCE_WR \<noteq> 0 \<or> p_flag (pipes (hw s) d) AND RT_PIPE_FLAG_BLOCK_WR = 0
      then let (write_nbytes, s) =
          (if p_flag (pipes (hw s) d) AND RT_PIPE_FLAG_FORCE_WR \<noteq> 0
           then pipe_put rt_ringbuffer_put_force d buffer sz s
           else pipe_put rt_ringbuffer_put d buffer sz s)
        in map_option (Pair (Returns (of_nat write_nbytes))) (rt_pipe_resume_reader C d s)
      else RT_DEBUG_NOT_IN_INTERRUPT (kern s) (pipe_write_loop C d buffer sz s))"

definition rt_pipe_write_wake ::
  "pipe_callbacks \<Rightarrow> nat \<Rightarrow> nat \<Rightarrow> nat \<Rightarrow> u32 \<Rightarrow> pipe_io \<Rightarrow> (u32 call \<times> pipe_io) option" where
  "rt_pipe_write_wake C t d buffer sz s = pipe_write_loop C d buffer sz (leave_frame t s)"

definition rt_pipe_control :: "nat \<Rightarrow> u8 \<Rightarrow> nat \<Rightarrow> pipe_io \<Rightarrow> rt_err_t \<times> pipe_io" where
  "rt_pipe_control d cmd args s =
     (RT_EOK,
      if cmd = PIPE_CTRL_GET_SPACE \<and> args \<noteq> 0
      then s\<lparr>mem := put_word args (of_nat (rt_ringbuffer_space_len (p_ringbuffer (pipes (hw s) d)))) (mem s)\<rparr>
      else s)"


subsection \<open>Pipes as devices\<close>

definition k_calloc :: "u32 \<Rightarrow> u32 \<Rightarrow> kstate \<Rightarrow> (nat option \<times> kstate) option" where
  "k_calloc cnt sz s =
     (if cnt * sz = 0 then Some (None, s)
      else RT_DEBUG_NOT_IN_INTERRUPT s
        (do { (r, h) \<leftarrow> rt_calloc cnt sz (heap s); Some (r, s\<lparr>heap := h\<rparr>) }))"

definition zero_device :: rt_device where
  "zero_device = \<lparr>d_type = CharDevice, d_flag = 0, d_open_flag = 0, d_ref_count = 0, d_device_id = 0,
     d_rx_indicate = None, d_tx_complete = None, d_init = None, d_open = None, d_close = None,
     d_read = None, d_write = None, d_control = None, d_user_data = 0\<rparr>"

definition rt_pipe_init ::
  "nat option \<Rightarrow> u8 list \<Rightarrow> u32 \<Rightarrow> nat option \<Rightarrow> u32 \<Rightarrow> pipe_io \<Rightarrow> (rt_err_t \<times> pipe_io) option" where
  "rt_pipe_init pipe name flag buf sz s =
     do {
       d \<leftarrow> pipe;
       b \<leftarrow> buf;
       let s = s\<lparr>kern := rt_ipc_object_init (PipeWriteQ d) (rt_ipc_object_init (PipeReadQ d) (kern s))\<rparr>;
       rb \<leftarrow> rt_ringbuffer_init (load_bytes b (unat sz) (mem s)) (sint (ucast sz :: u16));
       let s = pipe_at d (\<lambda>p. p\<lparr>p_ringbuffer := rb, p_buffer_ptr := b, p_flag := flag\<rparr>) s;
       let s = device_at d (\<lambda>v. v\<lparr>d_type := PipeDevice, d_init := None, d_open := None, d_close := None,
         d_read := Some RT_PIPE_READ, d_write := Some RT_PIPE_WRITE, d_control := Some RT_PIPE_CONTROL\<rparr>) s;
       rt_device_register (Some d) name RT_DEVICE_FLAG_RDWR s }"

definition rt_pipe_detach :: "nat \<Rightarrow> pipe_io \<Rightarrow> (rt_err_t \<times> pipe_io) option" where
  "rt_pipe_detach d s = rt_device_unregister (Some d) s"

definition rt_pipe_create :: "u8 list \<Rightarrow> u32 \<Rightarrow> u32 \<Rightarrow> pipe_io \<Rightarrow> (rt_err_t \<times> pipe_io) option" where
  "rt_pipe_create name flag sz s =
     (let sz = RT_ALIGN sz RT_ALIGN_SIZE
      in do {
        (pipe, k) \<leftarrow> k_calloc 1 108 (kern s);
        (case pipe of
           None \<Rightarrow> Some (- RT_ENOMEM, s\<lparr>kern := k\<rparr>)
         | Some d \<Rightarrow> do {
             let s = pipe_at d (\<lambda>p. p\<lparr>p_write_portal := None, p_read_portal := None\<rparr>)
               (device_at d (\<lambda>_. zero_device) (s\<lparr>kern := k\<rparr>));
             (rb_memptr, k) \<leftarrow> k_malloc sz (kern s);
             (case rb_memptr of
                None \<Rightarrow> do {
                  k \<leftarrow> k_free (Some d) k;
                  Some (- RT_ENOMEM, s\<lparr>kern := k\<rparr>) }
              | Some b \<Rightarrow> rt_pipe_init (Some d) name flag (Some b) sz (s\<lparr>kern := k\<rparr>)) }) })"

definition rt_pipe_destroy :: "nat option \<Rightarrow> pipe_io \<Rightarrow> pipe_io option" where
  "rt_pipe_destroy pipe s =
     (case pipe of
        None \<Rightarrow> Some s
      | Some d \<Rightarrow> do {
          (_, s) \<leftarrow> rt_pipe_detach d s;
          k \<leftarrow> k_free (Some (p_buffer_ptr (pipes (hw s) d))) (kern s);
          k \<leftarrow> k_free (Some d) k;
          Some (s\<lparr>kern := k\<rparr>) })"

text \<open>The drivers as a board for \<open>RtDevice\<close>. Through \<^verbatim>\<open>rt_device_read\<close> and \<^verbatim>\<open>rt_device_write\<close> a
  call that waits has no result yet: this board serves pipes that do not block.\<close>

definition call_result :: "(u32 call \<times> pipe_io) option \<Rightarrow> (u32 \<times> pipe_io) option" where
  "call_result x = (case x of Some (Returns n, s) \<Rightarrow> Some (n, s) | _ \<Rightarrow> None)"

definition pipe_board :: "pipe_callbacks \<Rightarrow> pipe_hw board" where
  "pipe_board C = \<lparr>
     call_init = (\<lambda>f d s. None), call_open = (\<lambda>f d oflag s. None), call_close = (\<lambda>f d s. None),
     call_read = (\<lambda>f d pos b n s. if f = RT_PIPE_READ then call_result (rt_pipe_read d pos b n s) else None),
     call_write = (\<lambda>f d pos b n s. if f = RT_PIPE_WRITE then call_result (rt_pipe_write C d pos b n s) else None),
     call_control = (\<lambda>f d cmd arg s. if f = RT_PIPE_CONTROL then Some (rt_pipe_control d cmd arg s) else None),
     hw_console_output = (\<lambda>b s. Some s), rt_log_buf = 0\<rparr>"

subsection \<open>Portals\<close>

definition portal_init :: "pipe_hw board \<Rightarrow> nat \<Rightarrow> pipe_io \<Rightarrow> (rt_err_t \<times> pipe_io) option" where
  "portal_init B d s =
     do {
       (err, s) \<leftarrow> rt_device_init B (pt_write_dev (portals (hw s) d)) s;
       if err \<noteq> RT_EOK then Some (err, s)
       else rt_device_init B (pt_read_dev (portals (hw s) d)) s }"

definition portal_open :: "pipe_hw board \<Rightarrow> nat \<Rightarrow> u16 \<Rightarrow> pipe_io \<Rightarrow> (rt_err_t \<times> pipe_io) option" where
  "portal_open B d oflag s =
     (if oflag = 0 then Some (- RT_ERROR, s)
      else do {
        (err, s) \<leftarrow> (if oflag AND RT_DEVICE_OFLAG_RDONLY \<noteq> 0
          then rt_device_open B (pt_read_dev (portals (hw s) d)) RT_DEVICE_OFLAG_RDONLY s else Some (RT_EOK, s));
        if err \<noteq> RT_EOK then Some (err, s)
        else if oflag AND RT_DEVICE_OFLAG_WRONLY \<noteq> 0
        then rt_device_open B (pt_write_dev (portals (hw s) d)) RT_DEVICE_OFLAG_WRONLY s
        else Some (RT_EOK, s) })"

definition portal_close :: "pipe_hw board \<Rightarrow> nat \<Rightarrow> pipe_io \<Rightarrow> (rt_err_t \<times> pipe_io) option" where
  "portal_close B d s =
     do {
       (_, s) \<leftarrow> rt_device_close B (pt_write_dev (portals (hw s) d)) s;
       (_, s) \<leftarrow> rt_device_close B (pt_read_dev (portals (hw s) d)) s;
       Some (RT_EOK, s) }"

definition portal_read ::
  "pipe_hw board \<Rightarrow> nat \<Rightarrow> u32 \<Rightarrow> nat \<Rightarrow> u32 \<Rightarrow> pipe_io \<Rightarrow> (u32 \<times> pipe_io) option" where
  "portal_read B d pos buffer sz s = rt_device_read B (pt_read_dev (portals (hw s) d)) pos buffer sz s"

definition portal_write ::
  "pipe_hw board \<Rightarrow> nat \<Rightarrow> u32 \<Rightarrow> nat \<Rightarrow> u32 \<Rightarrow> pipe_io \<Rightarrow> (u32 \<times> pipe_io) option" where
  "portal_write B d pos buffer sz s = rt_device_write B (pt_write_dev (portals (hw s) d)) pos buffer sz s"

definition rt_portal_init ::
  "nat option \<Rightarrow> u8 list \<Rightarrow> u8 list \<Rightarrow> u8 list \<Rightarrow> pipe_io \<Rightarrow> (rt_err_t \<times> pipe_io) option" where
  "rt_portal_init portal portal_name write_dev read_dev s =
     do {
       a \<leftarrow> portal;
       let s = device_at a (\<lambda>v. v\<lparr>d_type := PortalDevice, d_init := Some PORTAL_INIT, d_open := Some PORTAL_OPEN,
         d_close := Some PORTAL_CLOSE, d_write := Some PORTAL_WRITE, d_read := Some PORTAL_READ,
         d_control := None\<rparr>) s;
       (dev, s) \<leftarrow> rt_device_find write_dev s;
       (case dev of
          None \<Rightarrow> Some (- RT_ENOSYS, s)
        | Some w \<Rightarrow> RT_ASSERT (d_type (devices s w) = PipeDevice) (do {
            let s = portal_at a (pt_write_dev_update (\<lambda>_. Some w)) s;
            (_, s) \<leftarrow> rt_device_set_tx_complete (Some a) (d_tx_complete (devices s w)) s;
            (_, s) \<leftarrow> rt_device_set_tx_complete (Some w) (Some PORTAL_TX_COMPLETE) s;
            let s = pipe_at w (p_write_portal_update (\<lambda>_. Some a)) s;
            (dev, s) \<leftarrow> rt_device_find read_dev s;
            (case dev of
               None \<Rightarrow> do {
                 (_, s) \<leftarrow> rt_device_set_tx_complete dev (d_tx_complete (devices s a)) s;
                 Some (- RT_ENOSYS, s) }
             | Some r \<Rightarrow> RT_ASSERT (d_type (devices s r) = PipeDevice) (do {
                 let s = portal_at a (pt_read_dev_update (\<lambda>_. Some r)) s;
                 (_, s) \<leftarrow> rt_device_set_rx_indicate (Some a) (d_rx_indicate (devices s r)) s;
                 (_, s) \<leftarrow> rt_device_set_rx_indicate (Some r) (Some PORTAL_RX_INDICATE) s;
                 let s = pipe_at r (p_read_portal_update (\<lambda>_. Some a)) s;
                 rt_device_register (Some a) portal_name RT_DEVICE_FLAG_RDWR s })) })) }"

definition rt_portal_detach :: "nat \<Rightarrow> pipe_io \<Rightarrow> (rt_err_t \<times> pipe_io) option" where
  "rt_portal_detach a s = rt_device_unregister (Some a) s"

definition rt_portal_create :: "u8 list \<Rightarrow> u8 list \<Rightarrow> u8 list \<Rightarrow> pipe_io \<Rightarrow> (rt_err_t \<times> pipe_io) option" where
  "rt_portal_create name write_dev read_dev s =
     do {
       (portal, k) \<leftarrow> k_calloc 1 76 (kern s);
       (case portal of
          None \<Rightarrow> Some (- RT_ENOMEM, s\<lparr>kern := k\<rparr>)
        | Some a \<Rightarrow> rt_portal_init (Some a) name write_dev read_dev
            (portal_at a (\<lambda>_. \<lparr>pt_write_dev = None, pt_read_dev = None\<rparr>)
              (device_at a (\<lambda>_. zero_device) (s\<lparr>kern := k\<rparr>)))) }"

definition rt_portal_destroy :: "nat option \<Rightarrow> pipe_io \<Rightarrow> pipe_io option" where
  "rt_portal_destroy portal s =
     (case portal of
        None \<Rightarrow> Some s
      | Some a \<Rightarrow> do {
          (_, s) \<leftarrow> rt_portal_detach a s;
          k \<leftarrow> k_free (Some a) (kern s);
          Some (s\<lparr>kern := k\<rparr>) })"


definition driver_board :: "pipe_callbacks \<Rightarrow> pipe_hw board" where
  "driver_board C = (pipe_board C)\<lparr>
     call_init := (\<lambda>f d s. if f = PORTAL_INIT then portal_init (pipe_board C) d s else None),
     call_open := (\<lambda>f d oflag s. if f = PORTAL_OPEN then portal_open (pipe_board C) d oflag s else None),
     call_close := (\<lambda>f d s. if f = PORTAL_CLOSE then portal_close (pipe_board C) d s else None),
     call_read := (\<lambda>f d pos b n s. if f = PORTAL_READ then portal_read (pipe_board C) d pos b n s
       else call_read (pipe_board C) f d pos b n s),
     call_write := (\<lambda>f d pos b n s. if f = PORTAL_WRITE then portal_write (pipe_board C) d pos b n s
       else call_write (pipe_board C) f d pos b n s)\<rparr>"

lemma device_write_call:
  "d_ref_count (devices s x) \<noteq> 0 \<Longrightarrow> d_write (devices s x) = Some f \<Longrightarrow>
   rt_device_write B (Some x) pos b n s = call_write B f x pos b n s"
  by (simp add: rt_device_write_def)

lemma device_read_call:
  "d_ref_count (devices s x) \<noteq> 0 \<Longrightarrow> d_read (devices s x) = Some f \<Longrightarrow>
   rt_device_read B (Some x) pos b n s = call_read B f x pos b n s"
  by (simp add: rt_device_read_def)

lemma driver_board_portal:
  "call_write (driver_board C) PORTAL_WRITE = portal_write (pipe_board C)"
  "call_read (driver_board C) PORTAL_READ = portal_read (pipe_board C)"
  by (simp_all add: driver_board_def fun_eq_iff)

subsection \<open>A pipe that does not block is a stream of bytes\<close>

definition pipe_items :: "nat \<Rightarrow> pipe_io \<Rightarrow> u8 list" where
  "pipe_items d s = rb_items (p_ringbuffer (pipes (hw s) d))"

definition pipe_room :: "nat \<Rightarrow> pipe_io \<Rightarrow> nat" where
  "pipe_room d s = buffer_size (p_ringbuffer (pipes (hw s) d)) - length (pipe_items d s)"

definition pipe_ok :: "nat \<Rightarrow> pipe_io \<Rightarrow> bool" where
  "pipe_ok d s \<longleftrightarrow> rb_wf (p_ringbuffer (pipes (hw s) d)) \<and> p_flag (pipes (hw s) d) = 0 \<and>
     tlists (kern s) (PipeReadQ d) = [] \<and> tlists (kern s) (PipeWriteQ d) = [] \<and>
     d_rx_indicate (devices s d) = None \<and> d_ref_count (devices s d) \<noteq> 0 \<and>
     d_read (devices s d) = Some RT_PIPE_READ \<and> d_write (devices s d) = Some RT_PIPE_WRITE"

lemma load_store [simp]: "load_bytes a (length bs) (store_bytes a bs m) = bs"
  by (rule nth_equalityI) (simp_all add: load_bytes_def store_bytes_def)

lemma length_load [simp]: "length (load_bytes a n m) = n"
  by (simp add: load_bytes_def)

lemma take_load: "k \<le> n \<Longrightarrow> take k (load_bytes a n m) = load_bytes a k m"
  by (rule nth_equalityI) (simp_all add: load_bytes_def)

lemma store_nothing [simp]: "store_bytes a [] m = m"
  by (auto simp: store_bytes_def fun_eq_iff)

lemma ring_length_less: "ring_length sz < 2 ^ 16"
  using unsigned_less [of "ucast sz :: u16", where 'a = nat] by (simp add: ring_length_def)

lemma unat_small: "n < 2 ^ 16 \<Longrightarrow> unat (of_nat n :: u32) = n"
  by (simp add: unat_of_nat)

lemma pipe_get_spec:
  assumes "rb_wf (p_ringbuffer (pipes (hw s) d))"
  obtains rb where "pipe_get d b sz s = (min (ring_length sz) (length (pipe_items d s)),
      pipe_at d (p_ringbuffer_update (\<lambda>_. rb)) (s\<lparr>mem := store_bytes b (take (ring_length sz) (pipe_items d s)) (mem s)\<rparr>))"
    "rb_wf rb" "rb_items rb = drop (ring_length sz) (pipe_items d s)"
    "buffer_size rb = buffer_size (p_ringbuffer (pipes (hw s) d))"
  using get_spec [OF assms, of "ring_length sz"] that
  by (auto simp: pipe_get_def pipe_items_def min.commute)

lemma pipe_put_spec:
  fixes sz :: u32
  assumes "rb_wf (p_ringbuffer (pipes (hw s) d))"
  defines "k \<equiv> min (ring_length sz) (pipe_room d s)"
  obtains rb where "pipe_put rt_ringbuffer_put d b sz s = (k, pipe_at d (p_ringbuffer_update (\<lambda>_. rb)) s)"
    "rb_wf rb" "rb_items rb = pipe_items d s @ load_bytes b k (mem s)"
    "buffer_size rb = buffer_size (p_ringbuffer (pipes (hw s) d))"
proof -
  let ?bs = "load_bytes b (ring_length sz) (mem s)"
  have k: "k = min (length ?bs) (buffer_size (p_ringbuffer (pipes (hw s) d)) -
      length (rb_items (p_ringbuffer (pipes (hw s) d))))"
    by (simp add: k_def pipe_room_def pipe_items_def)
  have "take k ?bs = load_bytes b k (mem s)" by (rule take_load) (simp add: k_def)
  then show thesis
    using put_spec [OF assms(1) k] that by (auto simp: pipe_put_def pipe_items_def)
qed

lemma pipe_write_law:
  fixes sz :: u32
  assumes ok: "pipe_ok d s"
  defines "k \<equiv> min (ring_length sz) (pipe_room d s)"
  shows "\<exists>s'. rt_device_write (pipe_board C) (Some d) pos b sz s = Some (of_nat k, s') \<and> pipe_ok d s' \<and>
    pipe_items d s' = pipe_items d s @ load_bytes b k (mem s) \<and> mem s' = mem s \<and>
    devices s' = devices s \<and> portals (hw s') = portals (hw s) \<and> pipe_room d s' = pipe_room d s - k"
proof -
  obtain rb where rb: "pipe_put rt_ringbuffer_put d b sz s = (k, pipe_at d (p_ringbuffer_update (\<lambda>_. rb)) s)"
    "rb_wf rb" "rb_items rb = pipe_items d s @ load_bytes b k (mem s)"
    "buffer_size rb = buffer_size (p_ringbuffer (pipes (hw s) d))"
    using ok pipe_put_spec [where s = s and d = d and b = b and sz = sz] unfolding k_def pipe_ok_def by blast
  show ?thesis
    using ok rb by (auto simp: rt_device_write_def pipe_board_def rt_pipe_write_def rt_pipe_resume_reader_def
        call_result_def pipe_ok_def pipe_items_def pipe_room_def)
qed

lemma pipe_read_law:
  fixes sz :: u32
  assumes ok: "pipe_ok d s"
  defines "k \<equiv> min (ring_length sz) (length (pipe_items d s))"
  shows "\<exists>s'. rt_device_read (pipe_board C) (Some d) pos b sz s = Some (of_nat k, s') \<and> pipe_ok d s' \<and>
    pipe_items d s' = drop k (pipe_items d s) \<and> load_bytes b k (mem s') = take k (pipe_items d s) \<and>
    devices s' = devices s \<and> portals (hw s') = portals (hw s)"
proof -
  obtain rb where rb: "pipe_get d b sz s = (k,
      pipe_at d (p_ringbuffer_update (\<lambda>_. rb)) (s\<lparr>mem := store_bytes b (take (ring_length sz) (pipe_items d s)) (mem s)\<rparr>))"
    "rb_wf rb" "rb_items rb = drop (ring_length sz) (pipe_items d s)"
    using ok pipe_get_spec [where s = s and d = d and b = b and sz = sz] unfolding k_def pipe_ok_def by blast
  have t: "take (ring_length sz) (pipe_items d s) = take k (pipe_items d s)"
    "drop (ring_length sz) (pipe_items d s) = drop k (pipe_items d s)"
    by (simp_all add: k_def min_def)
  have l: "load_bytes b k (store_bytes b (take k (pipe_items d s)) (mem s)) = take k (pipe_items d s)"
    using load_store [of b "take k (pipe_items d s)" "mem s"] by (simp add: k_def)
  show ?thesis
    using ok rb(1,2) rb(3) [unfolded t] l t
    by (auto simp: rt_device_read_def pipe_board_def rt_pipe_read_def rt_pipe_resume_writer_def
        call_result_def pipe_ok_def pipe_items_def)
qed


datatype pipe_op = WritePipe nat u32 | ReadPipe nat u32

text \<open>A sequence of calls on one device: the bytes it took from the callers and the bytes it gave.\<close>

primrec pipe_run ::
  "pipe_hw board \<Rightarrow> nat \<Rightarrow> pipe_op list \<Rightarrow> pipe_io \<Rightarrow> (u8 list \<times> u8 list \<times> pipe_io) option" where
  "pipe_run B d [] s = Some ([], [], s)"
| "pipe_run B d (x # xs) s =
     (case x of
        WritePipe b n \<Rightarrow> do {
          (r, s') \<leftarrow> rt_device_write B (Some d) 0 b n s;
          (ins, outs, s'') \<leftarrow> pipe_run B d xs s';
          Some (load_bytes b (unat r) (mem s) @ ins, outs, s'') }
      | ReadPipe b n \<Rightarrow> do {
          (r, s') \<leftarrow> rt_device_read B (Some d) 0 b n s;
          (ins, outs, s'') \<leftarrow> pipe_run B d xs s';
          Some (ins, load_bytes b (unat r) (mem s') @ outs, s'') })"

lemma min_small: "unat (of_nat (min (ring_length sz) n) :: u32) = min (ring_length sz) n"
  using ring_length_less [of sz] by (intro unat_small) simp

lemma pipe_run_stream:
  assumes "pipe_ok d s"
  shows "\<exists>ins outs s'. pipe_run (pipe_board C) d xs s = Some (ins, outs, s') \<and> pipe_ok d s' \<and>
    pipe_items d s @ ins = outs @ pipe_items d s'"
  using assms
proof (induction xs arbitrary: s)
  case Nil
  then show ?case by simp
next
  case (Cons x xs)
  show ?case
  proof (cases x)
    case (WritePipe b n)
    obtain s1 where s1: "rt_device_write (pipe_board C) (Some d) 0 b n s = Some (of_nat (min (ring_length n) (pipe_room d s)), s1)"
      "pipe_ok d s1" "pipe_items d s1 = pipe_items d s @ load_bytes b (min (ring_length n) (pipe_room d s)) (mem s)"
      using pipe_write_law [OF Cons.prems, where C = C and pos = 0 and b = b and sz = n] by blast
    obtain ins outs s' where "pipe_run (pipe_board C) d xs s1 = Some (ins, outs, s')" "pipe_ok d s'"
      "pipe_items d s1 @ ins = outs @ pipe_items d s'"
      using Cons.IH [OF s1(2)] by blast
    then show ?thesis using WritePipe s1(1,3) by (simp add: min_small)
  next
    case (ReadPipe b n)
    let ?k = "min (ring_length n) (length (pipe_items d s))"
    obtain s1 where s1: "rt_device_read (pipe_board C) (Some d) 0 b n s = Some (of_nat ?k, s1)"
      "pipe_ok d s1" "pipe_items d s1 = drop ?k (pipe_items d s)" "load_bytes b ?k (mem s1) = take ?k (pipe_items d s)"
      using pipe_read_law [OF Cons.prems, where C = C and pos = 0 and b = b and sz = n] by blast
    obtain ins outs s' where r: "pipe_run (pipe_board C) d xs s1 = Some (ins, outs, s')" "pipe_ok d s'"
      "pipe_items d s1 @ ins = outs @ pipe_items d s'"
      using Cons.IH [OF s1(2)] by blast
    have "take ?k (pipe_items d s) @ outs @ pipe_items d s' = pipe_items d s @ ins"
      unfolding r(3) [symmetric] s1(3) append_assoc [symmetric] append_take_drop_id ..
    then show ?thesis using ReadPipe s1(1,4) r(1,2) by (simp add: min_small)
  qed
qed

subsection \<open>A pipe that blocks\<close>

lemma pipe_suspend_spec:
  assumes "kinv (kern s)" "can_wait (kern s) t" "wait_queue q"
  obtains s' where "pipe_suspend q fr s = Some s'" "devices s' = devices s" "hw s' = hw s" "mem s' = mem s"
    "waits_on q t RT_IPC_FLAG_FIFO 0 fr (threads (kern s) t) (kern s) (kern s')"
proof -
  have th: "same_sched (threads (kern s) t) (threads (kern s) t)" by (simp add: same_sched_def)
  have wt: "wait_time 0" by (simp add: wait_time_def)
  obtain k1 k' where b: "ipc_wait q t RT_IPC_FLAG_FIFO 0 (kern s) = Some k1"
    "rt_schedule (k1\<lparr>frames := (frames k1)(t := Some fr)\<rparr>) = Some k'"
    "waits_on q t RT_IPC_FLAG_FIFO 0 fr (threads (kern s) t) (kern s) k'"
    using ipc_block [OF assms _ wt th refl, of RT_IPC_FLAG_FIFO fr] by auto
  have "rt_ipc_list_suspend q t RT_IPC_FLAG_FIFO (kern s) = Some k1" using b(1) by (auto simp: ipc_wait_def)
  then have "pipe_suspend q fr s = Some (s\<lparr>kern := k'\<rparr>)"
    using assms(2) b(2) by (simp add: pipe_suspend_def can_wait_def rt_thread_self_def)
  then show thesis by (rule that [of "s\<lparr>kern := k'\<rparr>"]) (use b(3) in simp_all)
qed

lemma resume_first_spec:
  assumes "kinv (kern s)" "rt_current_thread (kern s) = Some c" "wait_queue q" "tlists (kern s) q = t # ts"
  obtains s' where "resume_first q s = Some s'" "devices s' = devices s" "hw s' = hw s" "mem s' = mem s"
    "woken q t (kern s) (kern s')"
proof -
  obtain k1 k' where "rt_ipc_list_resume q (kern s) = Some k1" "rt_schedule k1 = Some k'" "woken q t (kern s) k'"
    using ipc_resume [OF assms] by blast
  then show thesis by (intro that [of "s\<lparr>kern := k'\<rparr>"]) (simp_all add: resume_first_def)
qed

text \<open>A write that stores nothing waits, also on an empty pipe: so does a write of no bytes, or of
  a multiple of 65536.\<close>

lemma pipe_write_nothing_waits:
  assumes "rb_wf (p_ringbuffer (pipes (hw s) d))" "kinv (kern s)" "can_wait (kern s) t"
    and "p_flag (pipes (hw s) d) = RT_PIPE_FLAG_BLOCK_WR" "sz = 0 \<or> sz = 0x10000"
  shows "\<exists>s'. rt_pipe_write C d pos b sz s = Some (Waits, s')"
proof -
  have z: "ring_length sz = 0" using assms(5) by (auto simp: ring_length_def)
  obtain rb where rb: "pipe_put rt_ringbuffer_put d b sz s = (0, pipe_at d (p_ringbuffer_update (\<lambda>_. rb)) s)"
    using pipe_put_spec [OF assms(1), where b = b and sz = sz] z by auto
  let ?s = "pipe_at d (p_ringbuffer_update (\<lambda>_. rb)) s"
  obtain s' where "pipe_suspend (PipeWriteQ d) (InPipeWrite d b sz) ?s = Some s'"
    by (rule pipe_suspend_spec [of ?s t "PipeWriteQ d" "InPipeWrite d b sz"]) (use assms(2,3) in simp_all)
  then show ?thesis using rb assms(3,4)
    by (simp add: rt_pipe_write_def pipe_write_loop_def can_wait_def)
qed

lemma pipe_rendezvous_run:
  assumes inv: "kinv (kern s)" "can_wait (kern s) t"
    and wf: "rb_wf (p_ringbuffer (pipes (hw s) d))" "pipe_items d s = []"
    and fl: "p_flag (pipes (hw s) d) = RT_PIPE_FLAG_BLOCK_RD"
    and ls: "tlists (kern s) (PipeReadQ d) = []" "tlists (kern s) (PipeWriteQ d) = []" "d_rx_indicate (devices s d) = None"
    and n: "0 < ring_length m"
  defines "k \<equiv> min (ring_length m) (pipe_room d s)"
  shows "\<exists>s1 s2 s3. rt_pipe_read d 0 b n s = Some (Waits, s1) \<and> stat (kern s1) t = RT_THREAD_SUSPEND \<and>
    rt_pipe_write C d 0 w m s1 = Some (Returns (of_nat k), s2) \<and> kinv (kern s2) \<and> stat (kern s2) t = RT_THREAD_READY \<and>
    (0 < ring_length n \<longrightarrow> rt_pipe_read_wake t d b n s2 = Some (Returns (of_nat (min (ring_length n) k)), s3) \<and>
      load_bytes b (min (ring_length n) k) (mem s3) = load_bytes w (min (ring_length n) k) (mem s) \<and>
      pipe_items d s3 = drop (min (ring_length n) k) (load_bytes w k (mem s)))"
proof -
  let ?q = "PipeReadQ d"
  obtain rb1 where get1: "pipe_get d b n s = (0, pipe_at d (p_ringbuffer_update (\<lambda>_. rb1)) s)"
    "rb_wf rb1" "rb_items rb1 = []" "buffer_size rb1 = buffer_size (p_ringbuffer (pipes (hw s) d))"
    using pipe_get_spec [OF wf(1), where b = b and sz = n] wf(2) by auto
  let ?sa = "pipe_at d (p_ringbuffer_update (\<lambda>_. rb1)) s"
  obtain s1 where s1: "pipe_suspend ?q (InPipeRead d b n) ?sa = Some s1" "devices s1 = devices s" "hw s1 = hw ?sa" "mem s1 = mem s"
    "waits_on ?q t RT_IPC_FLAG_FIFO 0 (InPipeRead d b n) (threads (kern s) t) (kern s) (kern s1)"
    by (rule pipe_suspend_spec [of ?sa t ?q "InPipeRead d b n"]) (use inv in simp_all)
  have read: "rt_pipe_read d 0 b n s = Some (Waits, s1)"
    using fl get1(1) s1(1) inv(2) by (simp add: rt_pipe_read_def pipe_read_loop_def can_wait_def)
  have k1: "kinv (kern s1)" "tlists (kern s1) ?q = [t]" "tlists (kern s1) (PipeWriteQ d) = []"
    "stat (kern s1) t = RT_THREAD_SUSPEND"
    using s1(5) ls by (simp_all add: waits_on_def wait_place_def tl_remove_def)
  obtain c where c: "rt_current_thread (kern s1) = Some c" using s1(5) by (auto simp: waits_on_def)
  have p1: "p_ringbuffer (pipes (hw s1) d) = rb1" "pipe_items d s1 = []" "p_flag (pipes (hw s1) d) = RT_PIPE_FLAG_BLOCK_RD"
    using s1(3) get1(3) fl by (simp_all add: pipe_items_def)
  have room: "pipe_room d s1 = pipe_room d s" using p1 get1(4) wf(2) by (simp add: pipe_room_def)
  obtain rb2 where put: "pipe_put rt_ringbuffer_put d w m s1 = (k, pipe_at d (p_ringbuffer_update (\<lambda>_. rb2)) s1)"
    "rb_wf rb2" "rb_items rb2 = load_bytes w k (mem s)"
    using pipe_put_spec [where s = s1 and d = d and b = w and sz = m] get1(2) p1(1,2) s1(4)
    unfolding room k_def by auto
  let ?sb = "pipe_at d (p_ringbuffer_update (\<lambda>_. rb2)) s1"
  obtain s2 where s2: "resume_first ?q ?sb = Some s2" "devices s2 = devices s" "hw s2 = hw ?sb" "mem s2 = mem s"
    "woken ?q t (kern s1) (kern s2)"
    by (rule resume_first_spec [of ?sb c ?q t "[]"]) (use k1 c s1(2,4) in simp_all)
  have writes: "rt_pipe_write C d 0 w m s1 = Some (Returns (of_nat k), s2)"
    using p1(3) put(1) s2(1) k1(2) s1(2) ls(3) by (simp add: rt_pipe_write_def rt_pipe_resume_reader_def)
  have k2: "kinv (kern s2)" "stat (kern s2) t = RT_THREAD_READY" "tlists (kern s2) (PipeWriteQ d) = []"
    using wokenD(1,4,6) [OF s2(5)] k1(3) by (simp_all add: tl_insert_before_def tl_remove_def)
  show ?thesis
  proof (cases "0 < ring_length n")
    case False
    then show ?thesis
      by (intro exI [of _ s1] exI [of _ s2] conjI) (use read writes k1(4) k2 in simp_all)
  next
    case True
    let ?sc = "leave_frame t s2"
    have pc: "p_ringbuffer (pipes (hw ?sc) d) = rb2" "pipe_items d ?sc = load_bytes w k (mem s)"
      using s2(3) put(3) by (simp_all add: leave_frame_def pipe_items_def)
    let ?j = "min (ring_length n) k"
    obtain rb3 where get2: "pipe_get d b n ?sc = (?j, pipe_at d (p_ringbuffer_update (\<lambda>_. rb3))
        (?sc\<lparr>mem := store_bytes b (take (ring_length n) (load_bytes w k (mem s))) (mem ?sc)\<rparr>))"
      "rb_items rb3 = drop (ring_length n) (load_bytes w k (mem s))"
      using pipe_get_spec [where s = ?sc and d = d and b = b and sz = n] put(2) pc by auto
    have "0 < k" using n wf by (simp add: k_def pipe_room_def rb_wf_def)
    then have j: "?j \<noteq> 0" using True by simp
    have t: "take (ring_length n) (load_bytes w k (mem s)) = load_bytes w ?j (mem s)"
      "drop (ring_length n) (load_bytes w k (mem s)) = drop ?j (load_bytes w k (mem s))"
      by (cases "ring_length n \<le> k"; simp add: take_load min_def)+
    let ?s3 = "pipe_at d (p_ringbuffer_update (\<lambda>_. rb3)) (?sc\<lparr>mem := store_bytes b (load_bytes w ?j (mem s)) (mem ?sc)\<rparr>)"
    have wakes: "rt_pipe_read_wake t d b n s2 = Some (Returns (of_nat ?j), ?s3)"
      using get2(1) j k2(3) unfolding t
      by (simp add: rt_pipe_read_wake_def pipe_read_loop_def rt_pipe_resume_writer_def leave_frame_def)
    have "load_bytes b ?j (mem ?s3) = load_bytes w ?j (mem s)"
      using load_store [of b "load_bytes w ?j (mem s)" "mem ?sc"] by simp
    moreover have "pipe_items d ?s3 = drop ?j (load_bytes w k (mem s))"
      using get2(2) t(2) by (simp add: pipe_items_def)
    ultimately show ?thesis using read writes k1(4) k2(1,2) wakes
      by (intro exI [of _ s1] exI [of _ s2] exI [of _ ?s3] conjI impI)
  qed
qed


subsection \<open>The properties\<close>

text \<open>
  Property C27.
  Through \<open>rt_device_write\<close> and \<open>rt_device_read\<close> a pipe that does not block is a stream of bytes: a
  write takes as many of its bytes as there is room for, a read gives as many as there are, and in
  any sequence of calls what was in the pipe and what the writes took is what the reads gave
  and what is left, byte by byte.\<close>

theorem pipe_stream:
  assumes "pipe_ok d s"
  shows "(\<exists>s'. rt_device_write (pipe_board C) (Some d) pos b n s =
      Some (of_nat (min (ring_length n) (pipe_room d s)), s')) \<and>
    (\<exists>s'. rt_device_read (pipe_board C) (Some d) pos b n s =
      Some (of_nat (min (ring_length n) (length (pipe_items d s))), s')) \<and>
    (\<exists>ins outs s'. pipe_run (pipe_board C) d xs s = Some (ins, outs, s') \<and> pipe_ok d s' \<and>
      pipe_items d s @ ins = outs @ pipe_items d s')"
  using pipe_write_law [OF assms, where C = C and pos = pos and b = b and sz = n]
    pipe_read_law [OF assms, where C = C and pos = pos and b = b and sz = n]
    pipe_run_stream [OF assms, of C xs] by blast

definition no_callbacks :: pipe_callbacks where
  "no_callbacks = \<lparr>call_rx = (\<lambda>f d n s. None), call_tx = (\<lambda>f d b s. None)\<rparr>"

definition demo_pipe :: "u32 \<Rightarrow> pipe_io" where
  "demo_pipe flag = (demo_io \<lparr>pipes = (\<lambda>_. \<lparr>p_ringbuffer = the (rt_ringbuffer_init [0, 0, 0, 0] 4),
       p_buffer_ptr = 3000, p_flag = flag, p_write_portal = None, p_read_portal = None\<rparr>),
     portals = (\<lambda>_. \<lparr>pt_write_dev = Some 7, pt_read_dev = Some 7\<rparr>)\<rparr>)
     \<lparr>kern := demo, devices := (\<lambda>d. demo_device\<lparr>d_ref_count := 1,
       d_read := Some (if d = 7 then RT_PIPE_READ else PORTAL_READ),
       d_write := Some (if d = 7 then RT_PIPE_WRITE else PORTAL_WRITE)\<rparr>), mem := of_nat\<rparr>"

lemma demo_ring: "the (rt_ringbuffer_init [0, 0, 0, 0] 4) =
    \<lparr>rb_buffer = [0, 0, 0, 0], read_mirror = False, read_index = 0, write_mirror = False, write_index = 0, buffer_size = 4\<rparr>"
  by (simp add: rt_ringbuffer_init_def)

lemma demo_pipe_simps [simp]:
  "rb_wf (p_ringbuffer (pipes (hw (demo_pipe flag)) d))" "pipe_items d (demo_pipe flag) = []"
  "p_flag (pipes (hw (demo_pipe flag)) d) = flag" "kern (demo_pipe flag) = demo"
  "d_rx_indicate (devices (demo_pipe flag) d) = None" "d_ref_count (devices (demo_pipe flag) d) = 1"
  "d_read (devices (demo_pipe flag) d) = Some (if d = 7 then RT_PIPE_READ else PORTAL_READ)"
  "d_write (devices (demo_pipe flag) d) = Some (if d = 7 then RT_PIPE_WRITE else PORTAL_WRITE)"
  "pipe_room d (demo_pipe flag) = 4" "mem (demo_pipe flag) = of_nat"
  "portals (hw (demo_pipe flag)) d = \<lparr>pt_write_dev = Some 7, pt_read_dev = Some 7\<rparr>"
  by (simp_all add: demo_pipe_def demo_io_def demo_device_def demo_ring rb_wf_def rb_items_def pipe_items_def pipe_room_def)

lemma demo_pipe_ok: "pipe_ok 7 (demo_pipe 0)"
  by (simp add: pipe_ok_def)

theorem pipe_stream_witness:
  "\<exists>ins outs s'. pipe_run (pipe_board no_callbacks) 7 [WritePipe 100 3, ReadPipe 200 2] (demo_pipe 0) = Some (ins, outs, s') \<and>
    ins = outs @ pipe_items 7 s'"
  using pipe_stream [OF demo_pipe_ok, of no_callbacks 0 100 3 "[WritePipe 100 3, ReadPipe 200 2]",
    THEN conjunct2, THEN conjunct2]
  by (auto simp del: pipe_run.simps)

text \<open>
  Property C28.
  A thread that reads from an empty pipe whose reads block goes to sleep; a write of at least one
  byte takes what there is room for and wakes it; and when it next runs its call returns with
  the first bytes of the write, as many as it asked for, in its buffer, and the rest stays
  in the pipe.\<close>

theorem pipe_rendezvous:
  fixes m n :: u32
  assumes "kinv (kern s)" "can_wait (kern s) t"
    and "rb_wf (p_ringbuffer (pipes (hw s) d))" "pipe_items d s = []"
    and "p_flag (pipes (hw s) d) = RT_PIPE_FLAG_BLOCK_RD"
    and "tlists (kern s) (PipeReadQ d) = []" "tlists (kern s) (PipeWriteQ d) = []" "d_rx_indicate (devices s d) = None"
    and "0 < ring_length m"
  defines "k \<equiv> min (ring_length m) (pipe_room d s)"
  shows "\<exists>s1 s2 s3. rt_pipe_read d 0 b n s = Some (Waits, s1) \<and> stat (kern s1) t = RT_THREAD_SUSPEND \<and>
    rt_pipe_write C d 0 w m s1 = Some (Returns (of_nat k), s2) \<and> kinv (kern s2) \<and> stat (kern s2) t = RT_THREAD_READY \<and>
    (0 < ring_length n \<longrightarrow> rt_pipe_read_wake t d b n s2 = Some (Returns (of_nat (min (ring_length n) k)), s3) \<and>
      load_bytes b (min (ring_length n) k) (mem s3) = load_bytes w (min (ring_length n) k) (mem s) \<and>
      pipe_items d s3 = drop (min (ring_length n) k) (load_bytes w k (mem s)))"
  unfolding k_def by (rule pipe_rendezvous_run [OF assms(1-9)])

theorem pipe_rendezvous_witness:
  "\<exists>s1 s2 s3. rt_pipe_read 7 0 200 2 (demo_pipe RT_PIPE_FLAG_BLOCK_RD) = Some (Waits, s1) \<and>
    rt_pipe_write no_callbacks 7 0 100 3 s1 = Some (Returns 3, s2) \<and>
    rt_pipe_read_wake 3 7 200 2 s2 = Some (Returns 2, s3) \<and> load_bytes 200 2 (mem s3) = [100, 101] \<and>
    pipe_items 7 s3 = [102]"
proof -
  let ?s = "demo_pipe RT_PIPE_FLAG_BLOCK_RD"
  have n: "ring_length 3 = 3" "ring_length 2 = 2" by (simp_all add: ring_length_def)
  have "kinv (kern ?s)" "can_wait (kern ?s) 3" "rb_wf (p_ringbuffer (pipes (hw ?s) 7))" "pipe_items 7 ?s = []"
    "p_flag (pipes (hw ?s) 7) = RT_PIPE_FLAG_BLOCK_RD" "tlists (kern ?s) (PipeReadQ 7) = []"
    "tlists (kern ?s) (PipeWriteQ 7) = []" "d_rx_indicate (devices ?s 7) = None" "0 < ring_length 3"
    by (simp_all add: n)
  from pipe_rendezvous [OF this, of 200 2 no_callbacks 100] obtain s1 s2 s3 where
    "rt_pipe_read 7 0 200 2 ?s = Some (Waits, s1)" "rt_pipe_write no_callbacks 7 0 100 3 s1 = Some (Returns 3, s2)"
    "rt_pipe_read_wake 3 7 200 2 s2 = Some (Returns 2, s3)" "load_bytes 200 2 (mem s3) = load_bytes 100 2 of_nat"
    "pipe_items 7 s3 = drop 2 (load_bytes 100 3 of_nat)"
    by (auto simp: n)
  moreover have "load_bytes 100 2 of_nat = ([100, 101] :: u8 list)" "drop 2 (load_bytes 100 3 of_nat) = ([102] :: u8 list)"
    by (simp_all add: load_bytes_def upt_rec)
  ultimately show ?thesis by metis
qed

text \<open>
  Two portals on one pipe: what is written into the one comes out of the other, in order, through
  \<open>rt_device_write\<close>, the portal's driver, \<open>rt_device_write\<close> again and the pipe's driver, and the
  same way back.\<close>

theorem portal_crossing:
  fixes n n' :: u32
  assumes "pipe_ok w s" "pipe_items w s = []"
    and "d_write (devices s x) = Some PORTAL_WRITE" "d_ref_count (devices s x) \<noteq> 0"
    and "d_read (devices s y) = Some PORTAL_READ" "d_ref_count (devices s y) \<noteq> 0"
    and "pt_write_dev (portals (hw s) x) = Some w" "pt_read_dev (portals (hw s) y) = Some w"
  defines "k \<equiv> min (ring_length n) (pipe_room w s)"
  shows "\<exists>s1 s2. rt_device_write (driver_board C) (Some x) 0 b n s = Some (of_nat k, s1) \<and>
    rt_device_read (driver_board C) (Some y) 0 b' n' s1 = Some (of_nat (min (ring_length n') k), s2) \<and>
    load_bytes b' (min (ring_length n') k) (mem s2) = load_bytes b (min (ring_length n') k) (mem s) \<and>
    pipe_items w s2 = drop (min (ring_length n') k) (load_bytes b k (mem s))"
proof -
  obtain s1 where s1: "rt_device_write (pipe_board C) (Some w) 0 b n s = Some (of_nat k, s1)" "pipe_ok w s1"
    "pipe_items w s1 = load_bytes b k (mem s)" "devices s1 = devices s" "portals (hw s1) = portals (hw s)"
    using pipe_write_law [OF assms(1), where C = C and pos = 0 and b = b and sz = n] assms(2)
    unfolding k_def by auto
  let ?j = "min (ring_length n') k"
  obtain s2 where s2: "rt_device_read (pipe_board C) (Some w) 0 b' n' s1 = Some (of_nat ?j, s2)"
    "pipe_items w s2 = drop ?j (load_bytes b k (mem s))" "load_bytes b' ?j (mem s2) = take ?j (load_bytes b k (mem s))"
    using pipe_read_law [OF s1(2), where C = C and pos = 0 and b = b' and sz = n'] s1(3) by auto
  have "rt_device_write (driver_board C) (Some x) 0 b n s = Some (of_nat k, s1)"
    using assms(3,4,7) s1(1) by (simp add: device_write_call driver_board_portal portal_write_def)
  moreover have "rt_device_read (driver_board C) (Some y) 0 b' n' s1 = Some (of_nat ?j, s2)"
    using assms(5,6,8) s1(4,5) s2(1) by (simp add: device_read_call driver_board_portal portal_read_def)
  moreover have "take ?j (load_bytes b k (mem s)) = load_bytes b ?j (mem s)" by (rule take_load) simp
  ultimately show ?thesis using s2(2,3) by auto
qed

theorem portal_crossing_witness:
  "\<exists>s1 s2. rt_device_write (driver_board no_callbacks) (Some 8) 0 100 6 (demo_pipe 0) = Some (4, s1) \<and>
    rt_device_read (driver_board no_callbacks) (Some 9) 0 200 2 s1 = Some (2, s2) \<and>
    load_bytes 200 2 (mem s2) = [100, 101]"
proof -
  have n: "ring_length 6 = 6" "ring_length 2 = 2" by (simp_all add: ring_length_def)
  have "load_bytes 100 2 of_nat = ([100, 101] :: u8 list)" by (simp add: load_bytes_def upt_rec)
  then show ?thesis
    using portal_crossing [OF demo_pipe_ok, where x = 8 and y = 9 and n = 6 and C = no_callbacks and b = 100 and b' = 200 and n' = 2]
    by (auto simp: n)
qed

end
