(* ===== verification/RtSem.thy ===== *)
theory RtSem
  imports RtIpc
begin

text \<open>The semaphores of \<^verbatim>\<open>src/ipc.c\<close>: a 16-bit count and a list of waiting threads.\<close>

subsection \<open>Operations\<close>

definition rt_sem_init :: "nat \<Rightarrow> u8 list \<Rightarrow> u32 \<Rightarrow> u8 \<Rightarrow> kstate \<Rightarrow> (rt_err_t \<times> kstate) option" where
  "rt_sem_init a name value flag s =
     do {
       s1 \<leftarrow> rt_object_init (ObjSem a) name s;
       let s2 = rt_ipc_object_init (SemQ a) s1;
       let s3 = sem_at a (\<lambda>x. x\<lparr>sem_value := ucast value\<rparr>) s2;
       Some (RT_EOK, set_obj_flag (ObjSem a) flag s3) }"

definition rt_sem_detach :: "nat \<Rightarrow> kstate \<Rightarrow> (rt_err_t \<times> kstate) option" where
  "rt_sem_detach a s =
     do {
       s1 \<leftarrow> rt_ipc_list_resume_all (SemQ a) s;
       Some (RT_EOK, rt_object_detach (ObjSem a) s1) }"

definition rt_sem_create :: "u8 list \<Rightarrow> u32 \<Rightarrow> u8 \<Rightarrow> kstate \<Rightarrow> (nat option \<times> kstate) option" where
  "rt_sem_create name value flag s =
     RT_DEBUG_NOT_IN_INTERRUPT s
       (do {
          (r, s1) \<leftarrow> rt_object_allocate ObjSem name s;
          (case r of
             None \<Rightarrow> Some (None, s1)
           | Some a \<Rightarrow>
               let s2 = rt_ipc_object_init (SemQ a) s1;
                   s3 = sem_at a (\<lambda>x. x\<lparr>sem_value := ucast value\<rparr>) s2
               in Some (Some a, set_obj_flag (ObjSem a) flag s3)) })"

definition rt_sem_delete :: "nat \<Rightarrow> kstate \<Rightarrow> (rt_err_t \<times> kstate) option" where
  "rt_sem_delete a s =
     RT_DEBUG_NOT_IN_INTERRUPT s
       (do {
          s1 \<leftarrow> rt_ipc_list_resume_all (SemQ a) s;
          s2 \<leftarrow> rt_object_delete (ObjSem a) s1;
          Some (RT_EOK, s2) })"

definition rt_sem_take :: "nat \<Rightarrow> u32 \<Rightarrow> kstate \<Rightarrow> (rt_err_t call \<times> kstate) option" where
  "rt_sem_take a time s =
     (if sem_value (semaphores s a) > 0
      then Some (Returns RT_EOK, sem_at a (\<lambda>x. x\<lparr>sem_value := sem_value x - 1\<rparr>) s)
      else if time = 0 then Some (Returns (- RT_ETIMEOUT), s)
      else RT_DEBUG_IN_THREAD_CONTEXT s
        (do {
           t \<leftarrow> rt_thread_self s;
           let s1 = thread_at t (t_error_update (\<lambda>_. RT_EOK)) s;
           s2 \<leftarrow> ipc_wait (SemQ a) t (obj_flag (ObjSem a) s1) time s1;
           s3 \<leftarrow> rt_schedule (s2\<lparr>frames := (frames s2)(t := Some (InSemTake a))\<rparr>);
           Some (Waits, s3) }))"

definition rt_sem_take_wake :: "nat \<Rightarrow> kstate \<Rightarrow> rt_err_t \<times> kstate" where
  "rt_sem_take_wake t s =
     (if t_error (threads s t) \<noteq> RT_EOK then t_error (threads s t) else RT_EOK,
      s\<lparr>frames := (frames s)(t := None)\<rparr>)"

definition rt_sem_trytake :: "nat \<Rightarrow> kstate \<Rightarrow> (rt_err_t call \<times> kstate) option" where
  "rt_sem_trytake a s = rt_sem_take a 0 s"

definition rt_sem_release :: "nat \<Rightarrow> kstate \<Rightarrow> (rt_err_t \<times> kstate) option" where
  "rt_sem_release a s =
     (if tlists s (SemQ a) \<noteq> []
      then do {
        s1 \<leftarrow> rt_ipc_list_resume (SemQ a) s;
        s2 \<leftarrow> rt_schedule s1;
        Some (RT_EOK, s2) }
      else Some (RT_EOK, sem_at a (\<lambda>x. x\<lparr>sem_value := sem_value x + 1\<rparr>) s))"

definition rt_sem_control :: "nat \<Rightarrow> u8 \<Rightarrow> u32 \<Rightarrow> kstate \<Rightarrow> (rt_err_t \<times> kstate) option" where
  "rt_sem_control a cmd arg s =
     (if cmd = RT_IPC_CMD_RESET
      then do {
        s1 \<leftarrow> rt_ipc_list_resume_all (SemQ a) s;
        s2 \<leftarrow> rt_schedule (sem_at a (\<lambda>x. x\<lparr>sem_value := ucast arg\<rparr>) s1);
        Some (RT_EOK, s2) }
      else Some (- RT_ERROR, s))"

subsection \<open>What the operations do\<close>

lemma rt_sem_take_spec:
  assumes "kinv s" "can_wait s t" "wait_time time"
    and "obj_flag (ObjSem a) s = RT_IPC_FLAG_FIFO \<or> obj_flag (ObjSem a) s = RT_IPC_FLAG_PRIO"
  shows "\<exists>r s'. rt_sem_take a time s = Some (r, s') \<and> kinv s' \<and>
    (if sem_value (semaphores s a) > 0
     then r = Returns RT_EOK \<and>
       s' = s\<lparr>semaphores := (semaphores s)(a := (semaphores s a)\<lparr>sem_value := sem_value (semaphores s a) - 1\<rparr>)\<rparr>
     else if time = 0 then r = Returns (- RT_ETIMEOUT) \<and> s' = s
     else r = Waits \<and> waits_on (SemQ a) t (obj_flag (ObjSem a) s) time (InSemTake a)
                        ((threads s t)\<lparr>t_error := RT_EOK\<rparr>) s s')"
proof -
  consider (some) "sem_value (semaphores s a) > 0" | (none) "sem_value (semaphores s a) = 0" "time = 0"
    | (wait) "sem_value (semaphores s a) = 0" "time \<noteq> 0"
    by (auto simp: word_gt_0)
  then show ?thesis
  proof cases
    case some
    then show ?thesis using assms(1) by (simp add: rt_sem_take_def)
  next
    case none
    then show ?thesis using assms(1) by (simp add: rt_sem_take_def)
  next
    case wait
    let ?th = "(threads s t)\<lparr>t_error := RT_EOK\<rparr>"
    have th: "same_sched ?th (threads s t)" "stack_ok ?th = stack_ok (threads s t)"
      by (simp_all add: same_sched_def stack_ok_def)
    obtain s1 s' where b: "ipc_wait (SemQ a) t (obj_flag (ObjSem a) s) time
        (s\<lparr>threads := (threads s)(t := ?th)\<rparr>) = Some s1"
      "rt_schedule (s1\<lparr>frames := (frames s1)(t := Some (InSemTake a))\<rparr>) = Some s'"
      "waits_on (SemQ a) t (obj_flag (ObjSem a) s) time (InSemTake a) ?th s s'"
      using ipc_block [OF assms(1,2) _ assms(4,3) th] by (metis wait_queue_simps(1))
    have "rt_sem_take a time s = Some (Waits, s')"
      using wait assms(2) b(1,2) by (simp add: rt_sem_take_def can_wait_def rt_thread_self_def obj_flag_def)
    then show ?thesis using wait b(3) by (simp add: waits_on_def)
  qed
qed

lemma rt_sem_release_spec:
  assumes "kinv s" "rt_current_thread s = Some c"
  shows "\<exists>s'. rt_sem_release a s = Some (RT_EOK, s') \<and> kinv s' \<and>
    (case tlists s (SemQ a) of
       [] \<Rightarrow> s' = s\<lparr>semaphores := (semaphores s)(a := (semaphores s a)\<lparr>sem_value := sem_value (semaphores s a) + 1\<rparr>)\<rparr>
     | t # ts \<Rightarrow> woken (SemQ a) t s s' \<and> tlists s' (SemQ a) = ts)"
proof (cases "tlists s (SemQ a)")
  case Nil
  then show ?thesis using assms(1) by (simp add: rt_sem_release_def)
next
  case (Cons t ts)
  from ipc_resume [OF assms _ Cons]
  obtain s1 s' where b: "rt_ipc_list_resume (SemQ a) s = Some s1" "rt_schedule s1 = Some s'"
    "woken (SemQ a) t s s'" by auto
  then show ?thesis using Cons wokenD(1,5) [OF b(3)] by (simp add: rt_sem_release_def)
qed

text \<open>Releases in a row wake the waiting threads in the order of the list.\<close>

primrec release_times :: "nat \<Rightarrow> nat \<Rightarrow> kstate \<Rightarrow> kstate option" where
  "release_times a 0 s = Some s"
| "release_times a (Suc n) s = do { (_, s1) \<leftarrow> rt_sem_release a s; release_times a n s1 }"

lemma release_times_spec:
  assumes "kinv s" "rt_current_thread s = Some c" "n \<le> length (tlists s (SemQ a))"
  shows "\<exists>s' c'. release_times a n s = Some s' \<and> kinv s' \<and> rt_current_thread s' = Some c' \<and>
    semaphores s' = semaphores s \<and> tlists s' (SemQ a) = drop n (tlists s (SemQ a)) \<and>
    (\<forall>t \<in> set (take n (tlists s (SemQ a))). stat s' t = RT_THREAD_READY \<and>
       t_error (threads s' t) = t_error (threads s t)) \<and>
    (\<forall>t. t \<notin> set (take n (tlists s (SemQ a))) \<longrightarrow> threads s' t = threads s t)"
  using assms
proof (induction n arbitrary: s c)
  case 0
  then show ?case by simp
next
  case (Suc n)
  obtain t ts where L: "tlists s (SemQ a) = t # ts" using Suc.prems(3) by (cases "tlists s (SemQ a)") auto
  obtain s1 where s1: "rt_sem_release a s = Some (RT_EOK, s1)" "woken (SemQ a) t s s1" "tlists s1 (SemQ a) = ts"
    using rt_sem_release_spec [OF Suc.prems(1,2), of a] L by auto
  have nt: "t \<notin> set ts" "distinct ts"
    using wf_listsD(1) [OF sched_okD(1) [OF kinvD(1) [OF Suc.prems(1)]], of "SemQ a"] L by simp_all
  have w: "kinv s1" "semaphores s1 = semaphores s"
    "threads s1 = (threads s)(t := (threads s t)\<lparr>t_stat := RT_THREAD_READY\<rparr>)"
    using s1(2) by (simp_all add: woken_def kframe_def)
  obtain c1 where c1: "rt_current_thread s1 = Some c1" using s1(2) Suc.prems(2) by (auto simp: woken_def)
  have "n \<le> length (tlists s1 (SemQ a))" using Suc.prems(3) L s1(3) by simp
  from Suc.IH [OF w(1) c1 this] obtain s' c' where s': "release_times a n s1 = Some s'" "kinv s'"
    "rt_current_thread s' = Some c'" "semaphores s' = semaphores s1" "tlists s' (SemQ a) = drop n ts"
    "\<forall>t \<in> set (take n ts). stat s' t = RT_THREAD_READY \<and> t_error (threads s' t) = t_error (threads s1 t)"
    "\<forall>t. t \<notin> set (take n ts) \<longrightarrow> threads s' t = threads s1 t"
    unfolding s1(3) by blast
  have "t \<notin> set (take n ts)" using nt(1) by (meson in_set_takeD)
  then show ?case using s' s1(1) w nt L
    by (intro exI [of _ s'] exI [of _ c']) (auto dest: in_set_takeD)
qed

text \<open>
  \<open>rt_sem_take\<close> takes one from a positive count and changes nothing else; with a count of zero
  it gives \<open>-RT_ETIMEOUT\<close> at once if the caller does not wait, and otherwise the caller goes to
  the semaphore's list, by its arrival or its priority, the count stays, and the most urgent
  other thread runs.
\<close>

theorem rt_sem_take_correct:
  assumes "kinv s" "can_wait s t" "wait_time time"
    and "obj_flag (ObjSem a) s = RT_IPC_FLAG_FIFO \<or> obj_flag (ObjSem a) s = RT_IPC_FLAG_PRIO"
  shows "\<exists>r s'. rt_sem_take a time s = Some (r, s') \<and> kinv s' \<and>
    (if sem_value (semaphores s a) > 0
     then r = Returns RT_EOK \<and>
       s' = s\<lparr>semaphores := (semaphores s)(a := (semaphores s a)\<lparr>sem_value := sem_value (semaphores s a) - 1\<rparr>)\<rparr>
     else if time = 0 then r = Returns (- RT_ETIMEOUT) \<and> s' = s
     else r = Waits \<and> waits_on (SemQ a) t (obj_flag (ObjSem a) s) time (InSemTake a)
                        ((threads s t)\<lparr>t_error := RT_EOK\<rparr>) s s')"
  by (rule rt_sem_take_spec [OF assms])

theorem rt_sem_take_correct_witness:
  "\<exists>r s'. rt_sem_take 40 (5::u32) demo = Some (r, s') \<and> kinv s' \<and>
    (if sem_value (semaphores demo 40) > 0
     then r = Returns RT_EOK \<and>
       s' = demo\<lparr>semaphores := (semaphores demo)(40 := (semaphores demo 40)\<lparr>sem_value := sem_value (semaphores demo 40) - 1\<rparr>)\<rparr>
     else if (5::u32) = 0 then r = Returns (- RT_ETIMEOUT) \<and> s' = demo
     else r = Waits \<and> waits_on (SemQ 40) 3 (obj_flag (ObjSem 40) demo) (5::u32) (InSemTake 40)
                        ((threads demo 3)\<lparr>t_error := RT_EOK\<rparr>) demo s')"
  by (rule rt_sem_take_correct [OF demo_kinv demo_can_wait]) (simp_all add: wait_time_def)

text \<open>
  \<open>rt_sem_release\<close> hands its token to the first waiting thread, which becomes ready
  and the count stays; with no waiting thread it adds one to the count.
\<close>

theorem rt_sem_release_correct:
  assumes "kinv s" "rt_current_thread s = Some c"
  shows "\<exists>s'. rt_sem_release a s = Some (RT_EOK, s') \<and> kinv s' \<and>
    (case tlists s (SemQ a) of
       [] \<Rightarrow> s' = s\<lparr>semaphores := (semaphores s)(a := (semaphores s a)\<lparr>sem_value := sem_value (semaphores s a) + 1\<rparr>)\<rparr>
     | t # ts \<Rightarrow> woken (SemQ a) t s s' \<and> tlists s' (SemQ a) = ts)"
  by (rule rt_sem_release_spec [OF assms])

theorem rt_sem_release_correct_witness:
  "\<exists>s'. rt_sem_release 40 (demo_waiting (SemQ 40)) = Some (RT_EOK, s') \<and> kinv s' \<and>
    (case tlists (demo_waiting (SemQ 40)) (SemQ 40) of
       [] \<Rightarrow> s' = (demo_waiting (SemQ 40))\<lparr>semaphores := (semaphores (demo_waiting (SemQ 40)))(40 := (semaphores (demo_waiting (SemQ 40)) 40)\<lparr>sem_value := sem_value (semaphores (demo_waiting (SemQ 40)) 40) + 1\<rparr>)\<rparr>
     | t # ts \<Rightarrow> woken (SemQ 40) t (demo_waiting (SemQ 40)) s' \<and> tlists s' (SemQ 40) = ts)"
  by (rule rt_sem_release_correct [where c = 3]) simp_all

text \<open>
  Property C15.
  No waiting thread is passed over: as many releases as its place on the semaphore's list make a
  thread ready, with the error its wait will give unchanged, in the order of the list and without
  touching the threads behind it or the count.
\<close>

theorem rt_sem_release_serves_in_order:
  assumes "kinv s" "rt_current_thread s = Some c" "tlists s (SemQ a) = us @ t # vs"
  shows "\<exists>s'. release_times a (Suc (length us)) s = Some s' \<and> kinv s' \<and>
    stat s' t = RT_THREAD_READY \<and> t_error (threads s' t) = t_error (threads s t) \<and>
    tlists s' (SemQ a) = vs \<and> semaphores s' = semaphores s \<and>
    (\<forall>v \<in> set vs. threads s' v = threads s v)"
proof -
  have n: "Suc (length us) \<le> length (tlists s (SemQ a))" unfolding assms(3) by simp
  have vs: "v \<notin> set (us @ [t])" if "v \<in> set vs" for v
    using wf_listsD(1) [OF sched_okD(1) [OF kinvD(1) [OF assms(1)]], of "SemQ a"] assms(3) that by auto
  have e: "take (Suc (length us)) (us @ t # vs) = us @ [t]" "drop (Suc (length us)) (us @ t # vs) = vs"
    by simp_all
  obtain s' c' where "release_times a (Suc (length us)) s = Some s'" "kinv s'" "semaphores s' = semaphores s"
    "tlists s' (SemQ a) = vs" "\<forall>t \<in> set (us @ [t]). stat s' t = RT_THREAD_READY \<and>
       t_error (threads s' t) = t_error (threads s t)"
    "\<forall>v. v \<notin> set (us @ [t]) \<longrightarrow> threads s' v = threads s v"
    using release_times_spec [OF assms(1,2) n] unfolding assms(3) e by blast
  with vs show ?thesis by (metis in_set_conv_decomp)
qed

theorem rt_sem_release_serves_in_order_witness:
  "\<exists>s'. release_times 40 (Suc (length ([] :: nat list))) (demo_waiting (SemQ 40)) = Some s' \<and> kinv s' \<and>
    stat s' 2 = RT_THREAD_READY \<and> t_error (threads s' 2) = t_error (threads (demo_waiting (SemQ 40)) 2) \<and>
    tlists s' (SemQ 40) = ([] :: nat list) \<and> semaphores s' = semaphores (demo_waiting (SemQ 40)) \<and>
    (\<forall>v \<in> set ([] :: nat list). threads s' v = threads (demo_waiting (SemQ 40)) v)"
  by (rule rt_sem_release_serves_in_order [where c = 3]) simp_all

end
