(* ===== verification/RtMutex.thy ===== *)
theory RtMutex
  imports RtIpc
begin

text \<open>The mutexes of \<^verbatim>\<open>src/ipc.c\<close>: an owner, the number of times it holds the mutex, and the
  priority it had before a waiting thread lent it its own.\<close>

subsection \<open>Operations\<close>

definition mutex_reset :: "nat \<Rightarrow> kstate \<Rightarrow> kstate" where
  "mutex_reset a s =
     mutex_at a (\<lambda>m. m\<lparr>mu_value := 1, mu_owner := None, mu_original_priority := 0xFF, mu_hold := 0\<rparr>) s"

definition rt_mutex_init :: "nat \<Rightarrow> u8 list \<Rightarrow> u8 \<Rightarrow> kstate \<Rightarrow> (rt_err_t \<times> kstate) option" where
  "rt_mutex_init a name flag s =
     do {
       s1 \<leftarrow> rt_object_init (ObjMutex a) name s;
       let s2 = mutex_reset a (rt_ipc_object_init (MutexQ a) s1);
       Some (RT_EOK, set_obj_flag (ObjMutex a) flag s2) }"

definition rt_mutex_detach :: "nat \<Rightarrow> kstate \<Rightarrow> (rt_err_t \<times> kstate) option" where
  "rt_mutex_detach a s =
     do {
       s1 \<leftarrow> rt_ipc_list_resume_all (MutexQ a) s;
       Some (RT_EOK, rt_object_detach (ObjMutex a) s1) }"

definition rt_mutex_create :: "u8 list \<Rightarrow> u8 \<Rightarrow> kstate \<Rightarrow> (nat option \<times> kstate) option" where
  "rt_mutex_create name flag s =
     RT_DEBUG_NOT_IN_INTERRUPT s
       (do {
          (r, s1) \<leftarrow> rt_object_allocate ObjMutex name s;
          (case r of
             None \<Rightarrow> Some (None, s1)
           | Some a \<Rightarrow>
               Some (Some a, set_obj_flag (ObjMutex a) flag
                 (mutex_reset a (rt_ipc_object_init (MutexQ a) s1)))) })"

definition rt_mutex_delete :: "nat \<Rightarrow> kstate \<Rightarrow> (rt_err_t \<times> kstate) option" where
  "rt_mutex_delete a s =
     RT_DEBUG_NOT_IN_INTERRUPT s
       (do {
          s1 \<leftarrow> rt_ipc_list_resume_all (MutexQ a) s;
          s2 \<leftarrow> rt_object_delete (ObjMutex a) s1;
          Some (RT_EOK, s2) })"

definition rt_mutex_take :: "nat \<Rightarrow> u32 \<Rightarrow> kstate \<Rightarrow> (rt_err_t call \<times> kstate) option" where
  "rt_mutex_take a time s =
     RT_DEBUG_IN_THREAD_CONTEXT s
       (do {
          t \<leftarrow> rt_thread_self s;
          let s1 = thread_at t (t_error_update (\<lambda>_. RT_EOK)) s;
          let m = mutexes s1 a;
          if mu_owner m = Some t
          then Some (Returns RT_EOK, mutex_at a (\<lambda>m. m\<lparr>mu_hold := mu_hold m + 1\<rparr>) s1)
          else if mu_value m > 0
          then Some (Returns RT_EOK,
                 mutex_at a (\<lambda>m. m\<lparr>mu_value := mu_value m - 1, mu_owner := Some t,
                   mu_original_priority := prio s1 t, mu_hold := mu_hold m + 1\<rparr>) s1)
          else if time = 0
          then Some (Returns (- RT_ETIMEOUT), thread_at t (t_error_update (\<lambda>_. - RT_ETIMEOUT)) s1)
          else do {
            owner \<leftarrow> mu_owner m;
            (_, s2) \<leftarrow> (if prio s1 t < prio s1 owner
                       then rt_thread_control owner RT_THREAD_CTRL_CHANGE_PRIORITY (prio s1 t) s1
                       else Some (RT_EOK, s1));
            s3 \<leftarrow> ipc_wait (MutexQ a) t (obj_flag (ObjMutex a) s2) time s2;
            s4 \<leftarrow> rt_schedule (s3\<lparr>frames := (frames s3)(t := Some (InMutexTake a))\<rparr>);
            Some (Waits, s4) } })"

definition rt_mutex_take_wake :: "nat \<Rightarrow> kstate \<Rightarrow> rt_err_t \<times> kstate" where
  "rt_mutex_take_wake t s =
     (if t_error (threads s t) \<noteq> RT_EOK then t_error (threads s t) else RT_EOK,
      s\<lparr>frames := (frames s)(t := None)\<rparr>)"

text \<open>The last release: back to the old priority, and on to the first waiting thread.\<close>

definition mutex_pass_on :: "nat \<Rightarrow> nat \<Rightarrow> kstate \<Rightarrow> kstate option" where
  "mutex_pass_on a t s =
     do {
       let m = mutexes s a;
       (_, s1) \<leftarrow> (if mu_original_priority m \<noteq> prio s t
                  then rt_thread_control t RT_THREAD_CTRL_CHANGE_PRIORITY (mu_original_priority m) s
                  else Some (RT_EOK, s));
       (case tlists s1 (MutexQ a) of
          u # _ \<Rightarrow> do {
            let s2 = mutex_at a (\<lambda>m. m\<lparr>mu_owner := Some u, mu_original_priority := prio s1 u,
                                       mu_hold := mu_hold m + 1\<rparr>) s1;
            s3 \<leftarrow> rt_ipc_list_resume (MutexQ a) s2;
            rt_schedule s3 }
        | [] \<Rightarrow> Some (mutex_at a (\<lambda>m. m\<lparr>mu_value := mu_value m + 1, mu_owner := None,
                                         mu_original_priority := 0xff\<rparr>) s1)) }"

definition rt_mutex_release :: "nat \<Rightarrow> kstate \<Rightarrow> (rt_err_t \<times> kstate) option" where
  "rt_mutex_release a s =
     RT_DEBUG_IN_THREAD_CONTEXT s
       (do {
          t \<leftarrow> rt_thread_self s;
          if mu_owner (mutexes s a) \<noteq> Some t
          then Some (- RT_ERROR, thread_at t (t_error_update (\<lambda>_. - RT_ERROR)) s)
          else do {
            let s1 = mutex_at a (\<lambda>m. m\<lparr>mu_hold := mu_hold m - 1\<rparr>) s;
            s2 \<leftarrow> (if mu_hold (mutexes s1 a) = 0 then mutex_pass_on a t s1 else Some s1);
            Some (RT_EOK, s2) } })"

definition rt_mutex_control :: "nat \<Rightarrow> u8 \<Rightarrow> u32 \<Rightarrow> kstate \<Rightarrow> rt_err_t \<times> kstate" where
  "rt_mutex_control a cmd arg s = (- RT_ERROR, s)"

subsection \<open>What the operations do\<close>

text \<open>A mutex is free, with no thread waiting, or it is owned and held at least once.\<close>

definition mutex_ok :: "nat \<Rightarrow> kstate \<Rightarrow> bool" where
  "mutex_ok a s \<longleftrightarrow>
     (case mu_owner (mutexes s a) of
        None \<Rightarrow> mu_value (mutexes s a) = 1 \<and> mu_hold (mutexes s a) = 0 \<and> tlists s (MutexQ a) = []
      | Some t \<Rightarrow> mu_value (mutexes s a) = 0 \<and> mu_hold (mutexes s a) \<noteq> 0 \<and>
          unat (mu_original_priority (mutexes s a)) < RT_THREAD_PRIORITY_MAX)"

text \<open>Lending a priority.\<close>

lemma change_prio_control:
  assumes "kinv s" "unat p < RT_THREAD_PRIORITY_MAX"
  obtains s' where "rt_thread_control t RT_THREAD_CTRL_CHANGE_PRIORITY p s = Some (RT_EOK, s')" "kinv s'" "kframe s s'"
    "threads s' = (threads s)(t := (threads s t)\<lparr>t_current_priority := p, t_number_mask := push_bit (unat p) 1\<rparr>)"
    "\<And>q. wait_queue q \<Longrightarrow> tlists s' q = tlists s q" "rt_timer_list s' = rt_timer_list s" "timers s' = timers s"
    "objects s' = objects s" "object_lists s' = object_lists s" "frames s' = frames s"
    "rt_current_thread s' = rt_current_thread s"
proof -
  obtain s' where s': "change_priority t p s = Some s'" "kinv s'" "kframe s s'"
    "threads s' = (threads s)(t := (threads s t)\<lparr>t_current_priority := p, t_number_mask := push_bit (unat p) 1\<rparr>)"
    "tlists s' = (if stat s t = RT_THREAD_READY
      then tl_insert_before (Ready (unat p)) t (tl_remove t (tlists s)) else tlists s)"
    "rt_timer_list s' = rt_timer_list s" "timers s' = timers s" "objects s' = objects s"
    "object_lists s' = object_lists s" "frames s' = frames s" "rt_current_thread s' = rt_current_thread s"
    using change_priority_spec [OF assms, of t] by blast
  have q: "tlists s' q = tlists s q" if "wait_queue q" for q
  proof (cases "stat s t = RT_THREAD_READY")
    case True
    have "t \<notin> set (tlists s q)"
      using sched_okD(2) [OF kinvD(1) [OF assms(1)], of t q] queue_ok_wait [OF that, of "threads s t"] True by auto
    moreover have "q \<noteq> Ready n" for n using that by (auto simp: wait_queue_def)
    ultimately show ?thesis using True by (simp add: s'(5) tl_insert_before_def tl_remove_def remove1_idem)
  qed (simp add: s'(5))
  show thesis
    by (rule that [OF _ s'(2-4) q s'(6-11)]) (simp_all add: rt_thread_control_def s'(1))
qed

text \<open>The state a waiting caller leaves behind: its owner is at least as urgent as the caller.\<close>

definition lent :: "nat \<Rightarrow> nat \<Rightarrow> kstate \<Rightarrow> kstate \<Rightarrow> bool" where
  "lent t ow s s' \<longleftrightarrow> kinv s' \<and> kframe s s' \<and>
     threads s' = (if prio s t < prio s ow
       then (threads s)(ow := (threads s ow)\<lparr>t_current_priority := prio s t,
                                            t_number_mask := push_bit (unat (prio s t)) 1\<rparr>)
       else threads s) \<and>
     (\<forall>q. wait_queue q \<longrightarrow> tlists s' q = tlists s q) \<and> rt_timer_list s' = rt_timer_list s \<and>
     timers s' = timers s \<and> objects s' = objects s \<and> object_lists s' = object_lists s \<and>
     frames s' = frames s \<and> rt_current_thread s' = rt_current_thread s"

lemma lend_priority:
  assumes "kinv s" "stat s t = RT_THREAD_READY"
  shows "\<exists>r s'. (if prio s t < prio s ow
       then rt_thread_control ow RT_THREAD_CTRL_CHANGE_PRIORITY (prio s t) s else Some (RT_EOK, s)) = Some (r, s') \<and>
     lent t ow s s'"
proof (cases "prio s t < prio s ow")
  case True
  have p: "unat (prio s t) < RT_THREAD_PRIORITY_MAX" using kinv_mask [OF assms(1), of t] assms(2) by (simp add: mask_ok_def)
  show ?thesis
    by (rule change_prio_control [OF assms(1) p, of ow]) (use True in \<open>auto simp: lent_def\<close>)
next
  case False
  then show ?thesis using assms(1) by (simp add: lent_def)
qed

lemma rt_mutex_take_spec:
  assumes inv: "kinv s" and w: "can_wait s t" and time: "wait_time time" and ok: "mutex_ok a s"
    and f: "obj_flag (ObjMutex a) s = RT_IPC_FLAG_FIFO \<or> obj_flag (ObjMutex a) s = RT_IPC_FLAG_PRIO"
  defines "e \<equiv> \<lambda>err. (threads s)(t := (threads s t)\<lparr>t_error := err\<rparr>)"
  shows "\<exists>r s'. rt_mutex_take a time s = Some (r, s') \<and> kinv s' \<and>
    (case mu_owner (mutexes s a) of
       None \<Rightarrow> r = Returns RT_EOK \<and> s' = s\<lparr>threads := e RT_EOK, mutexes := (mutexes s)(a := (mutexes s a)
         \<lparr>mu_value := 0, mu_owner := Some t, mu_original_priority := prio s t, mu_hold := 1\<rparr>)\<rparr>
     | Some ow \<Rightarrow>
         if ow = t then r = Returns RT_EOK \<and> s' = s\<lparr>threads := e RT_EOK,
           mutexes := (mutexes s)(a := (mutexes s a)\<lparr>mu_hold := mu_hold (mutexes s a) + 1\<rparr>)\<rparr>
         else if time = 0 then r = Returns (- RT_ETIMEOUT) \<and> s' = s\<lparr>threads := e (- RT_ETIMEOUT)\<rparr>
         else r = Waits \<and> (\<exists>s1. lent t ow (s\<lparr>threads := e RT_EOK\<rparr>) s1 \<and>
           waits_on (MutexQ a) t (obj_flag (ObjMutex a) s) time (InMutexTake a) (threads s1 t) s1 s'))"
proof -
  let ?s1 = "s\<lparr>threads := e RT_EOK\<rparr>"
  have ctx: "rt_current_thread s = Some t" "rt_interrupt_nest s = 0" "stat s t = RT_THREAD_READY"
    using w by (simp_all add: can_wait_def)
  have k1: "kinv ?s1" and ke: "kinv (s\<lparr>threads := e (- RT_ETIMEOUT)\<rparr>)" using inv by (simp_all add: e_def)
  have r1: "stat ?s1 t = RT_THREAD_READY" using ctx by (simp add: e_def)
  note base = rt_mutex_take_def rt_thread_self_def
  show ?thesis
  proof (cases "mu_owner (mutexes s a)")
    case None
    then have v: "mu_value (mutexes s a) = 1" "mu_hold (mutexes s a) = 0" using ok by (simp_all add: mutex_ok_def)
    then show ?thesis using None ctx k1 by (simp add: base e_def)
  next
    case (Some ow)
    then have v: "mu_value (mutexes s a) = 0" using ok by (simp add: mutex_ok_def)
    consider (own) "ow = t" | (none) "ow \<noteq> t" "time = 0" | (wait) "ow \<noteq> t" "time \<noteq> 0" by blast
    then show ?thesis
    proof cases
      case own
      then show ?thesis using Some ctx k1 by (simp add: base e_def Let_def)
    next
      case none
      then show ?thesis using Some v ctx ke by (simp add: base e_def)
    next
      case wait
      obtain r s2 where l: "(if prio ?s1 t < prio ?s1 ow
         then rt_thread_control ow RT_THREAD_CTRL_CHANGE_PRIORITY (prio ?s1 t) ?s1 else Some (RT_EOK, ?s1)) = Some (r, s2)"
        "lent t ow ?s1 s2"
        using lend_priority [OF k1 r1, of ow] by blast
      have s2: "kinv s2" "rt_current_thread s2 = Some t" "rt_interrupt_nest s2 = 0"
        "rt_scheduler_lock_nest s2 = 0" "obj_flag (ObjMutex a) s2 = obj_flag (ObjMutex a) s"
        using l(2) w by (simp_all add: lent_def kframe_def can_wait_def obj_flag_def)
      have st: "stat s2 v = stat s v" for v using l(2) by (auto simp: lent_def e_def)
      have w2: "can_wait s2 t" using w s2(2-4) by (simp add: can_wait_def st)
      have f2: "obj_flag (ObjMutex a) s2 = RT_IPC_FLAG_FIFO \<or> obj_flag (ObjMutex a) s2 = RT_IPC_FLAG_PRIO"
        using f s2(5) by simp
      have th: "same_sched (threads s2 t) (threads s2 t)" by (simp add: same_sched_def)
      obtain s3 s' where b: "ipc_wait (MutexQ a) t (obj_flag (ObjMutex a) s2) time
          (s2\<lparr>threads := (threads s2)(t := threads s2 t)\<rparr>) = Some s3"
        "rt_schedule (s3\<lparr>frames := (frames s3)(t := Some (InMutexTake a))\<rparr>) = Some s'"
        "waits_on (MutexQ a) t (obj_flag (ObjMutex a) s2) time (InMutexTake a) (threads s2 t) s2 s'"
        using ipc_block [OF s2(1) w2 _ f2 time th refl] by (metis wait_queue_simps(2))
      have b1: "ipc_wait (MutexQ a) t (obj_flag (ObjMutex a) s2) time s2 = Some s3" using b(1) by simp
      have "rt_mutex_take a time s = Some (Waits, s')"
        using Some wait v ctx l(1) [unfolded e_def] b1 b(2)
        by (cases "prio s t < prio s ow") (auto simp: base)
      then show ?thesis using Some wait b(3) l(2) s2(5) by (auto simp: waits_on_def)
    qed
  qed
qed

lemma rt_mutex_release_spec:
  assumes inv: "kinv s" and c: "rt_current_thread s = Some t" "rt_interrupt_nest s = 0" "stat s t = RT_THREAD_READY"
    and ok: "mutex_ok a s"
  shows "\<exists>r s'. rt_mutex_release a s = Some (r, s') \<and> kinv s' \<and>
    (if mu_owner (mutexes s a) \<noteq> Some t
     then r = - RT_ERROR \<and> s' = s\<lparr>threads := (threads s)(t := (threads s t)\<lparr>t_error := - RT_ERROR\<rparr>)\<rparr>
     else r = RT_EOK \<and>
      (if mu_hold (mutexes s a) \<noteq> 1
       then s' = s\<lparr>mutexes := (mutexes s)(a := (mutexes s a)\<lparr>mu_hold := mu_hold (mutexes s a) - 1\<rparr>)\<rparr>
       else prio s' t = mu_original_priority (mutexes s a) \<and>
         (case tlists s (MutexQ a) of
            [] \<Rightarrow> stat s' t = RT_THREAD_READY \<and> tlists s' (MutexQ a) = [] \<and>
              mutexes s' = (mutexes s)(a := (mutexes s a)\<lparr>mu_hold := 0, mu_value := 1, mu_owner := None, mu_original_priority := 0xff\<rparr>)
          | u # us \<Rightarrow> stat s' u = RT_THREAD_READY \<and> t_error (threads s' u) = t_error (threads s u) \<and>
              tlists s' (MutexQ a) = us \<and> frames s' = frames s \<and>
              mutexes s' = (mutexes s)(a := (mutexes s a)\<lparr>mu_owner := Some u, mu_original_priority := prio s u, mu_hold := 1\<rparr>) \<and>
              (rt_scheduler_lock_nest s = 0 \<longrightarrow> (\<exists>c'. rt_current_thread s' = Some c' \<and> highest_ready s' c')))))"
proof -
  let ?m = "mutexes s a"
  note base = rt_mutex_release_def rt_thread_self_def
  show ?thesis
  proof (cases "mu_owner ?m = Some t")
    case False
    then show ?thesis using c inv by (simp add: base)
  next
    case own: True
    then have m: "mu_value ?m = 0" "mu_hold ?m \<noteq> 0" "unat (mu_original_priority ?m) < RT_THREAD_PRIORITY_MAX"
      using ok by (simp_all add: mutex_ok_def)
    let ?s1 = "s\<lparr>mutexes := (mutexes s)(a := ?m\<lparr>mu_hold := mu_hold ?m - 1\<rparr>)\<rparr>"
    show ?thesis
    proof (cases "mu_hold ?m = 1")
      case False
      then have "mu_hold ?m - 1 \<noteq> 0" by simp
      then show ?thesis using own False c inv by (simp add: base)
    next
      case True
      have k1: "kinv ?s1" using inv by simp
      obtain s2 r where s2: "(if mu_original_priority (mutexes ?s1 a) \<noteq> prio ?s1 t
          then rt_thread_control t RT_THREAD_CTRL_CHANGE_PRIORITY (mu_original_priority (mutexes ?s1 a)) ?s1
          else Some (RT_EOK, ?s1)) = Some (r, s2)" "kinv s2" "kframe ?s1 s2" "prio s2 t = mu_original_priority ?m"
        "stat s2 t = RT_THREAD_READY" "\<And>v. v \<noteq> t \<Longrightarrow> threads s2 v = threads s v"
        "tlists s2 (MutexQ a) = tlists s (MutexQ a)" "frames s2 = frames s" "rt_current_thread s2 = Some t"
      proof (cases "mu_original_priority ?m = prio s t")
        case True
        then show thesis using k1 c by (intro that [of RT_EOK ?s1]) simp_all
      next
        case False
        show thesis
          by (rule change_prio_control [OF k1 m(3), of t], rule that) (use False c in simp_all)
      qed
      have mx: "mutexes s2 = (mutexes s)(a := ?m\<lparr>mu_hold := 0\<rparr>)" and lock: "rt_scheduler_lock_nest s2 = rt_scheduler_lock_nest s"
        using s2(3) True by (simp_all add: kframe_def)
      have po: "rt_mutex_release a s = do { s' \<leftarrow> mutex_pass_on a t ?s1; Some (RT_EOK, s') }"
        using own True c by (simp add: base)
      show ?thesis
      proof (cases "tlists s (MutexQ a)")
        case Nil
        let ?s' = "s2\<lparr>mutexes := (mutexes s)(a := ?m\<lparr>mu_hold := 0, mu_value := 1, mu_owner := None, mu_original_priority := 0xff\<rparr>)\<rparr>"
        have "mutex_pass_on a t ?s1 = Some ?s'"
          unfolding mutex_pass_on_def Let_def s2(1) using s2(7) Nil mx m(1) by simp
        then show ?thesis using own True Nil po s2(2,4,5,7) by (intro exI [of _ RT_EOK] exI [of _ ?s']) simp
      next
        case (Cons u us)
        let ?s3 = "s2\<lparr>mutexes := (mutexes s)(a := ?m\<lparr>mu_owner := Some u, mu_original_priority := prio s2 u, mu_hold := 1\<rparr>)\<rparr>"
        have q3: "tlists ?s3 (MutexQ a) = u # us" and k3: "kinv ?s3" and c3: "rt_current_thread ?s3 = Some t"
          using s2(2,7,9) Cons by simp_all
        obtain s4 s' where b: "rt_ipc_list_resume (MutexQ a) ?s3 = Some s4" "rt_schedule s4 = Some s'"
          "woken (MutexQ a) u ?s3 s'"
          using ipc_resume [OF k3 c3 _ q3] by auto
        note W = wokenD [OF b(3)]
        have ut: "u \<noteq> t" using W(3) s2(5) by auto
        have "mutex_pass_on a t ?s1 = Some s'"
          unfolding mutex_pass_on_def Let_def s2(1) using s2(7) Cons mx b(1,2) by simp
        then have e: "rt_mutex_release a s = Some (RT_EOK, s')" using po by simp
        have th: "prio s' t = mu_original_priority ?m" "stat s' u = RT_THREAD_READY"
          "t_error (threads s' u) = t_error (threads s u)"
          using W(4) ut s2(4,6) by simp_all
        have mm: "mutexes s' = (mutexes s)(a := ?m\<lparr>mu_owner := Some u, mu_original_priority := prio s u, mu_hold := 1\<rparr>)"
          using W(2) s2(6) [OF ut] by (simp add: kframe_def)
        have qq: "tlists s' (MutexQ a) = us" "frames s' = frames s" using W(5,7) q3 s2(8) by simp_all
        have "\<exists>c'. rt_current_thread s' = Some c' \<and> highest_ready s' c'" if "rt_scheduler_lock_nest s = 0"
          using W(10) [of t] c3 lock that by auto
        then show ?thesis using own True Cons e W(1) th mm qq
          by (intro exI [of _ RT_EOK] exI [of _ s']) simp
      qed
    qed
  qed
qed

text \<open>Both keep the mutex well formed; so does the caller that wakes up with the mutex.\<close>

lemma rt_mutex_take_ok:
  assumes "kinv s" "can_wait s t" "wait_time time" "mutex_ok a s" "mu_hold (mutexes s a) \<noteq> 255"
    and "obj_flag (ObjMutex a) s = RT_IPC_FLAG_FIFO \<or> obj_flag (ObjMutex a) s = RT_IPC_FLAG_PRIO"
    and "rt_mutex_take a time s = Some (r, s')"
  shows "mutex_ok a s'"
proof -
  have p: "unat (prio s t) < RT_THREAD_PRIORITY_MAX"
    using kinv_mask [OF assms(1), of t] assms(2) by (simp add: mask_ok_def can_wait_def)
  have h: "mu_hold (mutexes s a) + 1 \<noteq> 0"
  proof
    assume "mu_hold (mutexes s a) + 1 = 0"
    then have "mu_hold (mutexes s a) = - 1" by (simp add: eq_neg_iff_add_eq_0)
    then show False using assms(5) by simp
  qed
  note T = rt_mutex_take_spec [OF assms(1-4,6)]
  show ?thesis
  proof (cases "mu_owner (mutexes s a)")
    case None
    then show ?thesis using T assms(7) p by (auto simp: mutex_ok_def)
  next
    case (Some ow)
    then have o: "mu_value (mutexes s a) = 0" "mu_hold (mutexes s a) \<noteq> 0"
      "unat (mu_original_priority (mutexes s a)) < RT_THREAD_PRIORITY_MAX"
      using assms(4) by (simp_all add: mutex_ok_def)
    show ?thesis
    proof (cases "ow = t")
      case True
      then show ?thesis using T Some assms(7) o h by (auto simp: mutex_ok_def)
    next
      case False
      then have "mutexes s' = mutexes s"
        using T Some assms(7) by (auto simp: lent_def waits_on_def kframe_def split: if_splits)
      then show ?thesis using Some o by (simp add: mutex_ok_def)
    qed
  qed
qed

lemma rt_mutex_release_ok:
  assumes "kinv s" "rt_current_thread s = Some t" "rt_interrupt_nest s = 0" "stat s t = RT_THREAD_READY"
    and "mutex_ok a s" "rt_mutex_release a s = Some (r, s')"
  shows "mutex_ok a s'"
proof -
  have p: "unat (prio s u) < RT_THREAD_PRIORITY_MAX" if "u \<in> set (tlists s (MutexQ a))" for u
    using kinv_mask [OF assms(1), of u] sched_okD(2) [OF kinvD(1) [OF assms(1)] that]
    by (simp add: mask_ok_def)
  have h: "mu_hold (mutexes s a) - 1 \<noteq> 0" if "mu_hold (mutexes s a) \<noteq> 1" using that by simp
  note R = rt_mutex_release_spec [OF assms(1-5)]
  show ?thesis
  proof (cases "mu_owner (mutexes s a) = Some t")
    case False
    then have "s' = s\<lparr>threads := (threads s)(t := (threads s t)\<lparr>t_error := - RT_ERROR\<rparr>)\<rparr>"
      using R assms(6) by simp
    then show ?thesis using assms(5) by (simp add: mutex_ok_def split: option.splits)
  next
    case own: True
    show ?thesis
    proof (cases "mu_hold (mutexes s a) = 1")
      case False
      then have "s' = s\<lparr>mutexes := (mutexes s)(a := (mutexes s a)\<lparr>mu_hold := mu_hold (mutexes s a) - 1\<rparr>)\<rparr>"
        using R own assms(6) by simp
      then show ?thesis using assms(5) own h [OF False] by (simp add: mutex_ok_def)
    next
      case True
      show ?thesis
      proof (cases "tlists s (MutexQ a)")
        case Nil
        then show ?thesis using R own True assms(6) by (auto simp: mutex_ok_def)
      next
        case (Cons u us)
        then have "mutexes s' = (mutexes s)(a := (mutexes s a)\<lparr>mu_owner := Some u, mu_original_priority := prio s u, mu_hold := 1\<rparr>)"
          using R own True assms(6) by simp
        then show ?thesis using assms(5) own p [of u] Cons by (simp add: mutex_ok_def)
      qed
    qed
  qed
qed

subsection \<open>Properties\<close>

text \<open>
  \<open>rt_mutex_take\<close> gives a free mutex to the caller, counts a further take of its owner, and gives any other
  caller \<open>-RT_ETIMEOUT\<close> if it does not wait. A caller that waits goes to the list, after it has lent its
  priority to a less urgent owner; the owner keeps the mutex, and is then at least as urgent.
\<close>

theorem rt_mutex_take_correct:
  assumes "kinv s" "can_wait s t" "wait_time time" "mutex_ok a s" "mu_hold (mutexes s a) \<noteq> 255"
    and "obj_flag (ObjMutex a) s = RT_IPC_FLAG_FIFO \<or> obj_flag (ObjMutex a) s = RT_IPC_FLAG_PRIO"
  shows "\<exists>r s'. rt_mutex_take a time s = Some (r, s') \<and> kinv s' \<and> mutex_ok a s' \<and>
    (case mu_owner (mutexes s a) of
       None \<Rightarrow> r = Returns RT_EOK \<and> mutexes s' = (mutexes s)(a := (mutexes s a)
         \<lparr>mu_value := 0, mu_owner := Some t, mu_original_priority := prio s t, mu_hold := 1\<rparr>)
     | Some ow \<Rightarrow>
         if ow = t then r = Returns RT_EOK \<and>
           mutexes s' = (mutexes s)(a := (mutexes s a)\<lparr>mu_hold := mu_hold (mutexes s a) + 1\<rparr>)
         else mutexes s' = mutexes s \<and>
           (if time = 0 then r = Returns (- RT_ETIMEOUT)
            else r = Waits \<and> stat s' t = RT_THREAD_SUSPEND \<and> t_error (threads s' t) = RT_EOK \<and>
              tlists s' (MutexQ a) = wait_place (obj_flag (ObjMutex a) s) (prio s') t (tlists s (MutexQ a)) \<and>
              unat (prio s' ow) \<le> unat (prio s t)))"
proof -
  note T = rt_mutex_take_spec [OF assms(1-4,6)] and O = rt_mutex_take_ok [OF assms]
  show ?thesis
  proof (cases "mu_owner (mutexes s a)")
    case None
    then show ?thesis using T O by auto
  next
    case (Some ow)
    show ?thesis
    proof (cases "ow = t \<or> time = 0")
      case True
      then consider "ow = t" | "ow \<noteq> t" "time = 0" by blast
      then show ?thesis
      proof cases
        case 1
        then show ?thesis using T O Some by auto
      next
        case 2
        then show ?thesis using T O Some by auto
      qed
    next
      case False
      obtain s' s1 where w: "rt_mutex_take a time s = Some (Waits, s')" "kinv s'"
        "lent t ow (s\<lparr>threads := (threads s)(t := (threads s t)\<lparr>t_error := RT_EOK\<rparr>)\<rparr>) s1"
        "waits_on (MutexQ a) t (obj_flag (ObjMutex a) s) time (InMutexTake a) (threads s1 t) s1 s'"
        using T Some False by auto
      have th: "threads s' = (threads s1)(t := (threads s1 t)\<lparr>t_stat := RT_THREAD_SUSPEND\<rparr>)"
        using w(4) by (simp add: waits_on_def)
      have pr: "prio s' v = prio s1 v" for v by (simp add: th)
      have l: "prio s1 t = prio s t" "t_error (threads s1 t) = RT_EOK" "unat (prio s1 ow) \<le> unat (prio s t)"
        "tlists s1 (MutexQ a) = tlists s (MutexQ a)" "mutexes s1 = mutexes s"
        using w(3) False by (auto simp: lent_def kframe_def word_less_nat_alt)
      have "tlists s' (MutexQ a) = wait_place (obj_flag (ObjMutex a) s) (prio s') t (tlists s (MutexQ a))"
        using w(4) l(4) pr by (simp add: waits_on_def fun_eq_iff)
      moreover have "mutexes s' = mutexes s" using w(4) l(5) by (simp add: waits_on_def kframe_def)
      ultimately show ?thesis
        using w(1,2) O [OF w(1)] Some False l th pr by (intro exI [of _ Waits] exI [of _ s']) simp
    qed
  qed
qed

theorem rt_mutex_take_correct_witness:
  "\<exists>r s'. rt_mutex_take 40 (5::u32) demo = Some (r, s') \<and> kinv s' \<and> mutex_ok 40 s' \<and>
    (case mu_owner (mutexes demo 40) of
       None \<Rightarrow> r = Returns RT_EOK \<and> mutexes s' = (mutexes demo)(40 := (mutexes demo 40)
         \<lparr>mu_value := 0, mu_owner := Some 3, mu_original_priority := prio demo 3, mu_hold := 1\<rparr>)
     | Some ow \<Rightarrow>
         if ow = 3 then r = Returns RT_EOK \<and>
           mutexes s' = (mutexes demo)(40 := (mutexes demo 40)\<lparr>mu_hold := mu_hold (mutexes demo 40) + 1\<rparr>)
         else mutexes s' = mutexes demo \<and>
           (if (5::u32) = 0 then r = Returns (- RT_ETIMEOUT)
            else r = Waits \<and> stat s' 3 = RT_THREAD_SUSPEND \<and> t_error (threads s' 3) = RT_EOK \<and>
              tlists s' (MutexQ 40) = wait_place (obj_flag (ObjMutex 40) demo) (prio s') 3 (tlists demo (MutexQ 40)) \<and>
              unat (prio s' ow) \<le> unat (prio demo 3)))"
  by (rule rt_mutex_take_correct [OF demo_kinv demo_can_wait]) (simp_all add: wait_time_def mutex_ok_def)

text \<open>
  Property C10.
  \<open>rt_mutex_release\<close> is refused to all but the owner. The owner's last release gives it back the priority
  it had at its take, and passes the mutex to the first waiting thread, which becomes ready as its
  owner, or frees it; the mutex has an owner whenever a thread waits for it.
\<close>

theorem rt_mutex_release_correct:
  assumes "kinv s" "rt_current_thread s = Some t" "rt_interrupt_nest s = 0" "stat s t = RT_THREAD_READY"
    and "mutex_ok a s"
  shows "\<exists>r s'. rt_mutex_release a s = Some (r, s') \<and> kinv s' \<and> mutex_ok a s' \<and>
    (if mu_owner (mutexes s a) \<noteq> Some t then r = - RT_ERROR \<and> mutexes s' = mutexes s
     else r = RT_EOK \<and>
      (if mu_hold (mutexes s a) \<noteq> 1 then mu_owner (mutexes s' a) = Some t
       else prio s' t = mu_original_priority (mutexes s a) \<and>
         (case tlists s (MutexQ a) of
            [] \<Rightarrow> mu_owner (mutexes s' a) = None
          | u # us \<Rightarrow> stat s' u = RT_THREAD_READY \<and> t_error (threads s' u) = t_error (threads s u) \<and>
              mu_owner (mutexes s' a) = Some u \<and> mu_hold (mutexes s' a) = 1 \<and> tlists s' (MutexQ a) = us)))"
proof -
  note R = rt_mutex_release_spec [OF assms] and O = rt_mutex_release_ok [OF assms]
  show ?thesis
  proof (cases "mu_owner (mutexes s a) = Some t \<and> mu_hold (mutexes s a) = 1")
    case False
    then consider "mu_owner (mutexes s a) \<noteq> Some t" | "mu_owner (mutexes s a) = Some t" "mu_hold (mutexes s a) \<noteq> 1"
      by blast
    then show ?thesis
    proof cases
      case 1
      then show ?thesis using R O by auto
    next
      case 2
      then show ?thesis using R O by auto
    qed
  next
    case True
    then show ?thesis using R O by (cases "tlists s (MutexQ a)") auto
  qed
qed

theorem rt_mutex_release_correct_witness:
  "\<exists>r s'. rt_mutex_release 40 (demo_waiting (MutexQ 40)\<lparr>mutexes := (mutexes demo)(40 := \<lparr>mu_value = 0, mu_original_priority = 5, mu_hold = 1, mu_owner = Some 3\<rparr>)\<rparr>) = Some (r, s') \<and> kinv s' \<and> mutex_ok 40 s' \<and>
    (if mu_owner (mutexes (demo_waiting (MutexQ 40)\<lparr>mutexes := (mutexes demo)(40 := \<lparr>mu_value = 0, mu_original_priority = 5, mu_hold = 1, mu_owner = Some 3\<rparr>)\<rparr>) 40) \<noteq> Some 3 then r = - RT_ERROR \<and> mutexes s' = mutexes (demo_waiting (MutexQ 40)\<lparr>mutexes := (mutexes demo)(40 := \<lparr>mu_value = 0, mu_original_priority = 5, mu_hold = 1, mu_owner = Some 3\<rparr>)\<rparr>)
     else r = RT_EOK \<and>
      (if mu_hold (mutexes (demo_waiting (MutexQ 40)\<lparr>mutexes := (mutexes demo)(40 := \<lparr>mu_value = 0, mu_original_priority = 5, mu_hold = 1, mu_owner = Some 3\<rparr>)\<rparr>) 40) \<noteq> 1 then mu_owner (mutexes s' 40) = Some 3
       else prio s' 3 = mu_original_priority (mutexes (demo_waiting (MutexQ 40)\<lparr>mutexes := (mutexes demo)(40 := \<lparr>mu_value = 0, mu_original_priority = 5, mu_hold = 1, mu_owner = Some 3\<rparr>)\<rparr>) 40) \<and>
         (case tlists (demo_waiting (MutexQ 40)\<lparr>mutexes := (mutexes demo)(40 := \<lparr>mu_value = 0, mu_original_priority = 5, mu_hold = 1, mu_owner = Some 3\<rparr>)\<rparr>) (MutexQ 40) of
            [] \<Rightarrow> mu_owner (mutexes s' 40) = None
          | u # us \<Rightarrow> stat s' u = RT_THREAD_READY \<and> t_error (threads s' u) = t_error (threads (demo_waiting (MutexQ 40)\<lparr>mutexes := (mutexes demo)(40 := \<lparr>mu_value = 0, mu_original_priority = 5, mu_hold = 1, mu_owner = Some 3\<rparr>)\<rparr>) u) \<and>
              mu_owner (mutexes s' 40) = Some u \<and> mu_hold (mutexes s' 40) = 1 \<and> tlists s' (MutexQ 40) = us)))"
  by (rule rt_mutex_release_correct) (simp_all add: mutex_ok_def, simp_all add: demo_waiting_def)

text \<open>
  The count of takes has 8 bits: when the owner of a mutex held 255 times takes it twice more, a
  single release frees the mutex under it.
\<close>

theorem rt_mutex_hold_wraps:
  assumes "can_wait s t" "mu_owner (mutexes s a) = Some t" "mu_hold (mutexes s a) = 255"
    and "mu_original_priority (mutexes s a) = prio s t" "tlists s (MutexQ a) = []"
  shows "\<exists>s1 s2 s3. rt_mutex_take a time s = Some (Returns RT_EOK, s1) \<and>
    rt_mutex_take a time s1 = Some (Returns RT_EOK, s2) \<and> rt_mutex_release a s2 = Some (RT_EOK, s3) \<and>
    mu_owner (mutexes s3 a) = None"
proof -
  have c: "rt_current_thread s = Some t" "rt_interrupt_nest s = 0" using assms(1) by (simp_all add: can_wait_def)
  let ?s = "\<lambda>h. s\<lparr>threads := (threads s)(t := (threads s t)\<lparr>t_error := RT_EOK\<rparr>),
    mutexes := (mutexes s)(a := (mutexes s a)\<lparr>mu_hold := h\<rparr>)\<rparr>"
  have h: "mu_hold (mutexes s a) + 1 = 0" unfolding assms(3) by simp
  have "rt_mutex_take a time s = Some (Returns RT_EOK, ?s 0)" "rt_mutex_take a time (?s 0) = Some (Returns RT_EOK, ?s 1)"
    using c assms(2) h by (simp_all add: rt_mutex_take_def rt_thread_self_def Let_def)
  moreover have "\<exists>s3. rt_mutex_release a (?s 1) = Some (RT_EOK, s3) \<and> mu_owner (mutexes s3 a) = None"
    using c assms(2,4,5) by (simp add: rt_mutex_release_def rt_thread_self_def mutex_pass_on_def Let_def)
  ultimately show ?thesis by blast
qed

theorem rt_mutex_hold_wraps_witness:
  "\<exists>s1 s2 s3. rt_mutex_take 40 0 (demo\<lparr>mutexes := (mutexes demo)(40 := \<lparr>mu_value = 0, mu_original_priority = 5, mu_hold = 255, mu_owner = Some 3\<rparr>)\<rparr>) = Some (Returns RT_EOK, s1) \<and>
    rt_mutex_take 40 0 s1 = Some (Returns RT_EOK, s2) \<and> rt_mutex_release 40 s2 = Some (RT_EOK, s3) \<and>
    mu_owner (mutexes s3 40) = None"
  proof (rule rt_mutex_hold_wraps [where t = 3])
    show "can_wait (demo\<lparr>mutexes := (mutexes demo)(40 := \<lparr>mu_value = 0, mu_original_priority = 5, mu_hold = 255, mu_owner = Some 3\<rparr>)\<rparr>) 3"
      using demo_can_wait by (simp add: can_wait_def)
  qed simp_all

text \<open>
  Property C11.
  A release need not be followed by a switch: when nobody waits for the mutex any more, its
  owner's last release takes the lent priority back and does not call the scheduler, so the owner
  runs on although a more urgent thread is ready.
\<close>

theorem rt_mutex_release_keeps_running:
  assumes "kinv s" "rt_current_thread s = Some t" "rt_interrupt_nest s = 0" "stat s t = RT_THREAD_READY"
    and "mu_owner (mutexes s a) = Some t" "mu_hold (mutexes s a) = 1" "tlists s (MutexQ a) = []"
    and "unat (mu_original_priority (mutexes s a)) < RT_THREAD_PRIORITY_MAX"
    and "stat s u = RT_THREAD_READY" "u \<noteq> t" "prio s t < prio s u" "prio s u < mu_original_priority (mutexes s a)"
  shows "\<exists>s'. rt_mutex_release a s = Some (RT_EOK, s') \<and> kinv s' \<and> rt_current_thread s' = Some t \<and>
    stat s' u = RT_THREAD_READY \<and> prio s' u < prio s' t"
proof -
  let ?m = "mutexes s a"
  let ?s1 = "s\<lparr>mutexes := (mutexes s)(a := ?m\<lparr>mu_hold := 0\<rparr>)\<rparr>"
  have k1: "kinv ?s1" using assms(1) by simp
  obtain s2 where s2: "rt_thread_control t RT_THREAD_CTRL_CHANGE_PRIORITY (mu_original_priority ?m) ?s1 = Some (RT_EOK, s2)"
    "kinv s2" "threads s2 = (threads ?s1)(t := (threads ?s1 t)\<lparr>t_current_priority := mu_original_priority ?m,
       t_number_mask := push_bit (unat (mu_original_priority ?m)) 1\<rparr>)"
    "tlists s2 (MutexQ a) = tlists ?s1 (MutexQ a)" "rt_current_thread s2 = rt_current_thread ?s1"
    by (rule change_prio_control [OF k1 assms(8), of t]) (auto intro: that)
  have ne: "mu_original_priority ?m \<noteq> prio s t" using assms(11,12) by auto
  have "mutex_pass_on a t ?s1 = Some (mutex_at a (\<lambda>m. m\<lparr>mu_value := mu_value m + 1, mu_owner := None,
      mu_original_priority := 0xff\<rparr>) s2)"
    using s2(1,4) ne assms(7) by (simp add: mutex_pass_on_def Let_def)
  then have "rt_mutex_release a s = Some (RT_EOK, mutex_at a (\<lambda>m. m\<lparr>mu_value := mu_value m + 1, mu_owner := None,
      mu_original_priority := 0xff\<rparr>) s2)"
    using assms(2,3,5,6) by (simp add: rt_mutex_release_def rt_thread_self_def)
  then show ?thesis using s2(2,3,5) assms by auto
qed

text \<open>The owner 3 runs at the priority 5 it was lent, its own is 25, and the thread 10 is at 20.\<close>

theorem rt_mutex_release_keeps_running_witness:
  "\<exists>s s'. rt_thread_control 10 RT_THREAD_CTRL_CHANGE_PRIORITY 20
       (demo\<lparr>mutexes := (mutexes demo)(50 := \<lparr>mu_value = 0, mu_original_priority = 25, mu_hold = 1, mu_owner = Some 3\<rparr>)\<rparr>) =
       Some (RT_EOK, s) \<and>
     rt_mutex_release 50 s = Some (RT_EOK, s') \<and> kinv s' \<and> rt_current_thread s' = Some 3 \<and>
     stat s' 10 = RT_THREAD_READY \<and> prio s' 10 < prio s' 3"
proof -
  let ?s0 = "demo\<lparr>mutexes := (mutexes demo)(50 := \<lparr>mu_value = 0, mu_original_priority = 25, mu_hold = 1, mu_owner = Some 3\<rparr>)\<rparr>"
  have k0: "kinv ?s0" by simp
  obtain s where s: "rt_thread_control 10 RT_THREAD_CTRL_CHANGE_PRIORITY 20 ?s0 = Some (RT_EOK, s)" "kinv s" "kframe ?s0 s"
    "threads s = (threads ?s0)(10 := (threads ?s0 10)\<lparr>t_current_priority := 20, t_number_mask := push_bit (unat (20 :: u8)) 1\<rparr>)"
    "tlists s (MutexQ 50) = tlists ?s0 (MutexQ 50)" "rt_current_thread s = rt_current_thread ?s0"
    by (rule change_prio_control [OF k0, of 20 10]) (auto intro: that)
  note F = kframeD [OF s(3)]
  have "\<exists>s'. rt_mutex_release 50 s = Some (RT_EOK, s') \<and> kinv s' \<and> rt_current_thread s' = Some 3 \<and>
    stat s' 10 = RT_THREAD_READY \<and> prio s' 10 < prio s' 3"
    by (rule rt_mutex_release_keeps_running [OF s(2)]) (simp_all add: s(4-6) F)
  with s(1) show ?thesis by blast
qed

end
