(* ===== verification/RtEvent.thy ===== *)
theory RtEvent
  imports RtIpc
begin

text \<open>The event sets of \<^verbatim>\<open>src/ipc.c\<close>: 32 flags, and threads that wait for all or for some of the
  flags they name.\<close>

subsection \<open>Operations\<close>

definition rt_event_init :: "nat \<Rightarrow> u8 list \<Rightarrow> u8 \<Rightarrow> kstate \<Rightarrow> (rt_err_t \<times> kstate) option" where
  "rt_event_init a name flag s =
     do {
       s1 \<leftarrow> rt_object_init (ObjEvent a) name s;
       let s2 = rt_ipc_object_init (EventQ a) (set_obj_flag (ObjEvent a) flag s1);
       Some (RT_EOK, event_at a (\<lambda>e. e\<lparr>ev_set := 0\<rparr>) s2) }"

definition rt_event_detach :: "nat \<Rightarrow> kstate \<Rightarrow> (rt_err_t \<times> kstate) option" where
  "rt_event_detach a s =
     do {
       s1 \<leftarrow> rt_ipc_list_resume_all (EventQ a) s;
       Some (RT_EOK, rt_object_detach (ObjEvent a) s1) }"

definition rt_event_create :: "u8 list \<Rightarrow> u8 \<Rightarrow> kstate \<Rightarrow> (nat option \<times> kstate) option" where
  "rt_event_create name flag s =
     RT_DEBUG_NOT_IN_INTERRUPT s
       (do {
          (r, s1) \<leftarrow> rt_object_allocate ObjEvent name s;
          (case r of
             None \<Rightarrow> Some (None, s1)
           | Some a \<Rightarrow>
               let s2 = rt_ipc_object_init (EventQ a) (set_obj_flag (ObjEvent a) flag s1)
               in Some (Some a, event_at a (\<lambda>e. e\<lparr>ev_set := 0\<rparr>) s2)) })"

definition rt_event_delete :: "nat \<Rightarrow> kstate \<Rightarrow> (rt_err_t \<times> kstate) option" where
  "rt_event_delete a s =
     RT_DEBUG_NOT_IN_INTERRUPT s
       (do {
          s1 \<leftarrow> rt_ipc_list_resume_all (EventQ a) s;
          s2 \<leftarrow> rt_object_delete (ObjEvent a) s1;
          Some (RT_EOK, s2) })"

text \<open>One waiting thread: is what it waits for there, and the flags it then gets.\<close>

definition event_met :: "u8 \<Rightarrow> u32 \<Rightarrow> u32 \<Rightarrow> u32 option" where
  "event_met info want cur =
     (if info AND RT_EVENT_FLAG_AND \<noteq> 0
      then if want AND cur = want then Some want else None
      else if info AND RT_EVENT_FLAG_OR \<noteq> 0
      then if want AND cur \<noteq> 0 then Some (want AND cur) else None
      else None)"

text \<open>The walk of \<open>rt_event_send\<close>. It reads the next node before it resumes a thread, and resuming
  takes only that thread off the list, so the walk meets the threads that were on the list at
  its start, each once.\<close>

primrec event_send_walk :: "nat \<Rightarrow> nat list \<Rightarrow> bool \<Rightarrow> kstate \<Rightarrow> (bool \<times> kstate) option" where
  "event_send_walk a [] need s = Some (need, s)"
| "event_send_walk a (t # ts) need s =
     (case event_met (t_event_info (threads s t)) (t_event_set (threads s t)) (ev_set (events s a)) of
        None \<Rightarrow> event_send_walk a ts need s
      | Some got \<Rightarrow> do {
          let s1 = thread_at t (\<lambda>th. th\<lparr>t_event_set := got\<rparr>) s;
          let s2 = (if t_event_info (threads s1 t) AND RT_EVENT_FLAG_CLEAR \<noteq> 0
                    then event_at a (\<lambda>e. e\<lparr>ev_set := ev_set e AND NOT (t_event_set (threads s1 t))\<rparr>) s1
                    else s1);
          (_, s3) \<leftarrow> rt_thread_resume t s2;
          event_send_walk a ts True s3 })"

definition rt_event_send :: "nat \<Rightarrow> u32 \<Rightarrow> kstate \<Rightarrow> (rt_err_t \<times> kstate) option" where
  "rt_event_send a bits s =
     (if bits = 0 then Some (- RT_ERROR, s)
      else do {
        let s1 = event_at a (\<lambda>e. e\<lparr>ev_set := ev_set e OR bits\<rparr>) s;
        (need, s2) \<leftarrow> event_send_walk a (tlists s1 (EventQ a)) False s1;
        s3 \<leftarrow> (if need then rt_schedule s2 else Some s2);
        Some (RT_EOK, s3) })"

text \<open>\<open>rt_event_recv\<close>: the flags it stores through \<open>recved\<close> come with the result.\<close>

definition rt_event_recv ::
  "nat \<Rightarrow> u32 \<Rightarrow> u8 \<Rightarrow> u32 \<Rightarrow> kstate \<Rightarrow> ((rt_err_t \<times> u32 option) call \<times> kstate) option" where
  "rt_event_recv a want option timeout s =
     RT_DEBUG_IN_THREAD_CONTEXT s
       (if want = 0 then Some (Returns (- RT_ERROR, None), s)
        else do {
          t \<leftarrow> rt_thread_self s;
          let s1 = thread_at t (t_error_update (\<lambda>_. RT_EOK)) s;
          RT_ASSERT (option AND RT_EVENT_FLAG_AND \<noteq> 0 \<or> option AND RT_EVENT_FLAG_OR \<noteq> 0)
            (if event_met option want (ev_set (events s1 a)) \<noteq> None
             then Some (Returns (t_error (threads s1 t), Some (ev_set (events s1 a) AND want)),
                    if option AND RT_EVENT_FLAG_CLEAR \<noteq> 0
                    then event_at a (\<lambda>e. e\<lparr>ev_set := ev_set e AND NOT want\<rparr>) s1 else s1)
             else if timeout = 0
             then let s2 = thread_at t (t_error_update (\<lambda>_. - RT_ETIMEOUT)) s1
                  in Some (Returns (t_error (threads s2 t), None), s2)
             else do {
               let s2 = thread_at t (\<lambda>th. th\<lparr>t_event_set := want, t_event_info := option\<rparr>) s1;
               s3 \<leftarrow> ipc_wait (EventQ a) t (obj_flag (ObjEvent a) s2) timeout s2;
               s4 \<leftarrow> rt_schedule (s3\<lparr>frames := (frames s3)(t := Some (InEventRecv a))\<rparr>);
               Some (Waits, s4) }) })"

definition rt_event_recv_wake :: "nat \<Rightarrow> kstate \<Rightarrow> (rt_err_t \<times> u32 option) \<times> kstate" where
  "rt_event_recv_wake t s =
     (if t_error (threads s t) \<noteq> RT_EOK then (t_error (threads s t), None)
      else (t_error (threads s t), Some (t_event_set (threads s t))),
      s\<lparr>frames := (frames s)(t := None)\<rparr>)"

definition rt_event_control :: "nat \<Rightarrow> u8 \<Rightarrow> u32 \<Rightarrow> kstate \<Rightarrow> (rt_err_t \<times> kstate) option" where
  "rt_event_control a cmd arg s =
     (if cmd = RT_IPC_CMD_RESET
      then do {
        s1 \<leftarrow> rt_ipc_list_resume_all (EventQ a) s;
        s2 \<leftarrow> rt_schedule (event_at a (\<lambda>e. e\<lparr>ev_set := 0\<rparr>) s1);
        Some (RT_EOK, s2) }
      else Some (- RT_ERROR, s))"

subsection \<open>Flags\<close>

definition flags_in :: "u32 \<Rightarrow> u32 \<Rightarrow> bool" where
  "flags_in x y \<longleftrightarrow> x AND y = x"

lemma flags_in_refl [simp]: "flags_in x x" by (simp add: flags_in_def)

lemma flags_in_trans: "flags_in x y \<Longrightarrow> flags_in y z \<Longrightarrow> flags_in x z"
  unfolding flags_in_def by (metis and.assoc)

lemma flags_in_clear [simp]: "flags_in (x AND NOT y) x"
  unfolding flags_in_def by (simp add: and.assoc and.commute and.left_commute)

text \<open>Fewer flags meet no more waits.\<close>

lemma event_met_mono:
  assumes "event_met info want cur = None" "flags_in cur' cur"
  shows "event_met info want cur' = None"
proof -
  have e: "want AND cur' = (want AND cur) AND cur'"
    using assms(2) unfolding flags_in_def by (metis and.assoc and.commute)
  have "want AND cur = want" if "want AND cur' = want"
    using that e by (metis and.assoc and.commute and.right_idem)
  moreover have "want AND cur' = 0" if "want AND cur = 0" using that e by simp
  ultimately show ?thesis using assms(1) by (auto simp: event_met_def split: if_splits)
qed

lemma event_met_got:
  "event_met info want cur = Some got \<Longrightarrow> flags_in got want \<and> flags_in got cur"
  by (auto simp: event_met_def flags_in_def and.assoc and.commute and.left_commute split: if_splits)

subsection \<open>What the operations do\<close>

lemma rt_event_recv_spec:
  assumes "kinv s" "can_wait s t" "wait_time time" "want \<noteq> 0"
    and "obj_flag (ObjEvent a) s = RT_IPC_FLAG_FIFO \<or> obj_flag (ObjEvent a) s = RT_IPC_FLAG_PRIO"
    and "option AND RT_EVENT_FLAG_AND \<noteq> 0 \<or> option AND RT_EVENT_FLAG_OR \<noteq> 0"
  shows "\<exists>r s'. rt_event_recv a want option time s = Some (r, s') \<and> kinv s' \<and>
    (if event_met option want (ev_set (events s a)) \<noteq> None
     then r = Returns (RT_EOK, Some (ev_set (events s a) AND want)) \<and>
       s' = s\<lparr>threads := (threads s)(t := (threads s t)\<lparr>t_error := RT_EOK\<rparr>),
              events := (if option AND RT_EVENT_FLAG_CLEAR \<noteq> 0
                then (events s)(a := (events s a)\<lparr>ev_set := ev_set (events s a) AND NOT want\<rparr>)
                else events s)\<rparr>
     else if time = 0
     then r = Returns (- RT_ETIMEOUT, None) \<and>
       s' = s\<lparr>threads := (threads s)(t := (threads s t)\<lparr>t_error := - RT_ETIMEOUT\<rparr>)\<rparr>
     else r = Waits \<and> waits_on (EventQ a) t (obj_flag (ObjEvent a) s) time (InEventRecv a)
       ((threads s t)\<lparr>t_error := RT_EOK, t_event_set := want, t_event_info := option\<rparr>) s s')"
proof -
  have ctx: "rt_current_thread s = Some t" "rt_interrupt_nest s = 0" using assms(2) by (simp_all add: can_wait_def)
  note base = rt_event_recv_def rt_thread_self_def
  consider (met) "event_met option want (ev_set (events s a)) \<noteq> None"
    | (none) "event_met option want (ev_set (events s a)) = None" "time = 0"
    | (wait) "event_met option want (ev_set (events s a)) = None" "time \<noteq> 0" by blast
  then show ?thesis
  proof cases
    case met
    then show ?thesis using assms ctx by (simp add: base)
  next
    case none
    then show ?thesis using assms ctx by (simp add: base)
  next
    case wait
    let ?th = "(threads s t)\<lparr>t_error := RT_EOK, t_event_set := want, t_event_info := option\<rparr>"
    have th: "same_sched ?th (threads s t)" "stack_ok ?th = stack_ok (threads s t)"
      by (simp_all add: same_sched_def stack_ok_def)
    obtain s1 s' where b: "ipc_wait (EventQ a) t (obj_flag (ObjEvent a) s) time
        (s\<lparr>threads := (threads s)(t := ?th)\<rparr>) = Some s1"
      "rt_schedule (s1\<lparr>frames := (frames s1)(t := Some (InEventRecv a))\<rparr>) = Some s'"
      "waits_on (EventQ a) t (obj_flag (ObjEvent a) s) time (InEventRecv a) ?th s s'"
      using ipc_block [OF assms(1,2) _ assms(5,3) th] by (metis wait_queue_simps(3))
    have "rt_event_recv a want option time s = Some (Waits, s')"
      using wait assms(4,6) ctx b(1,2) by (simp add: base obj_flag_def)
    then show ?thesis using wait b(3) by (simp add: waits_on_def)
  qed
qed

text \<open>No thread waits for what is there.\<close>

definition event_inv :: "nat \<Rightarrow> kstate \<Rightarrow> bool" where
  "event_inv a s \<longleftrightarrow> (\<forall>t \<in> set (tlists s (EventQ a)).
     event_met (t_event_info (threads s t)) (t_event_set (threads s t)) (ev_set (events s a)) = None)"

definition event_woken :: "nat \<Rightarrow> kstate \<Rightarrow> kstate \<Rightarrow> nat \<Rightarrow> bool" where
  "event_woken a s s' t \<longleftrightarrow> stat s' t = RT_THREAD_READY \<and> t_error (threads s' t) = t_error (threads s t) \<and>
     (\<exists>cur. flags_in cur (ev_set (events s a)) \<and>
       event_met (t_event_info (threads s t)) (t_event_set (threads s t)) cur = Some (t_event_set (threads s' t)))"

lemma event_send_walk_spec:
  assumes "kinv s" "tlists s (EventQ a) = us @ ts"
    and "\<forall>t \<in> set us. event_met (t_event_info (threads s t)) (t_event_set (threads s t)) (ev_set (events s a)) = None"
  shows "\<exists>need' s' vs. event_send_walk a ts need s = Some (need', s') \<and> kinv s' \<and> event_inv a s' \<and>
    tlists s' (EventQ a) = us @ vs \<and> set vs \<subseteq> set ts \<and>
    (\<forall>t \<in> set ts - set vs. event_woken a s s' t) \<and> (\<forall>t. t \<notin> set ts - set vs \<longrightarrow> threads s' t = threads s t) \<and>
    (need' \<longleftrightarrow> need \<or> set vs \<noteq> set ts) \<and> flags_in (ev_set (events s' a)) (ev_set (events s a)) \<and>
    (\<forall>a'. a' \<noteq> a \<longrightarrow> events s' a' = events s a') \<and>
    kframe (s\<lparr>events := events s'\<rparr>) s' \<and> frames s' = frames s \<and> object_lists s' = object_lists s \<and>
    rt_current_thread s' = rt_current_thread s \<and>
    (\<forall>q. wait_queue q \<longrightarrow> q \<noteq> EventQ a \<longrightarrow> tlists s' q = tlists s q)"
  using assms
proof (induction ts arbitrary: s us need)
  case Nil
  then show ?case by (intro exI [of _ need] exI [of _ s] exI [of _ "[]"]) (simp add: event_inv_def)
next
  case (Cons t ts)
  let ?i = "t_event_info (threads s t)" and ?w = "t_event_set (threads s t)" and ?cur = "ev_set (events s a)"
  note S = sched_okD [OF kinvD(1) [OF Cons.prems(1)]]
  have d: "distinct (us @ t # ts)" using wf_listsD(1) [OF S(1), of "EventQ a"] Cons.prems(2) by simp
  show ?case
  proof (cases "event_met ?i ?w ?cur")
    case None
    have q: "tlists s (EventQ a) = (us @ [t]) @ ts" using Cons.prems(2) by simp
    have u: "\<forall>t \<in> set (us @ [t]). event_met (t_event_info (threads s t)) (t_event_set (threads s t)) ?cur = None"
      using Cons.prems(3) None by auto
    from Cons.IH [OF Cons.prems(1) q u, of need] obtain need' s' vs where
      I: "event_send_walk a ts need s = Some (need', s')" "kinv s'" "event_inv a s'"
      "tlists s' (EventQ a) = us @ t # vs" "set vs \<subseteq> set ts"
      "\<forall>t \<in> set ts - set vs. event_woken a s s' t" "\<forall>t. t \<notin> set ts - set vs \<longrightarrow> threads s' t = threads s t"
      "need' \<longleftrightarrow> need \<or> set vs \<noteq> set ts" "flags_in (ev_set (events s' a)) ?cur"
      "\<forall>a'. a' \<noteq> a \<longrightarrow> events s' a' = events s a'"
      "kframe (s\<lparr>events := events s'\<rparr>) s'" "frames s' = frames s" "object_lists s' = object_lists s"
      "rt_current_thread s' = rt_current_thread s"
      "\<forall>q. wait_queue q \<longrightarrow> q \<noteq> EventQ a \<longrightarrow> tlists s' q = tlists s q"
      by auto
    have "set (t # ts) - set (t # vs) = set ts - set vs" using d by auto
    moreover have "set (t # vs) \<noteq> set (t # ts) \<longleftrightarrow> set vs \<noteq> set ts"
      using d I(5) by (auto simp: insert_eq_iff)
    ultimately show ?thesis
      using I None by (intro exI [of _ need'] exI [of _ s'] exI [of _ "t # vs"]) auto
  next
    case (Some got)
    define E where "E = (if ?i AND RT_EVENT_FLAG_CLEAR \<noteq> 0
        then (events s)(a := (events s a)\<lparr>ev_set := ?cur AND NOT got\<rparr>) else events s)"
    define s2 where "s2 = s\<lparr>threads := (threads s)(t := (threads s t)\<lparr>t_event_set := got\<rparr>), events := E\<rparr>"
    have k2: "kinv s2" using Cons.prems(1) by (simp add: s2_def)
    have "stat s t = RT_THREAD_SUSPEND"
      using S(2) [of t "EventQ a"] queue_ok_wait [of "EventQ a" "threads s t"] Cons.prems(2) by simp
    then have st2: "stat s2 t = RT_THREAD_SUSPEND" by (simp add: s2_def)
    obtain s3 where s3: "rt_thread_resume t s2 = Some (RT_EOK, s3)" "kinv s3" "kframe s2 s3"
      "threads s3 = (threads s2)(t := (threads s2 t)\<lparr>t_stat := RT_THREAD_READY\<rparr>)"
      "tlists s3 = tl_insert_before (Ready (unat (prio s2 t))) t (tl_remove t (tlists s2))"
      "rt_current_thread s3 = rt_current_thread s2" "frames s3 = frames s2" "object_lists s3 = object_lists s2"
      using rt_thread_resume_spec [OF k2 st2] by metis
    have walk: "event_send_walk a (t # ts) need s = event_send_walk a ts True s3"
      using Some s3(1) by (cases "?i AND RT_EVENT_FLAG_CLEAR \<noteq> 0") (simp_all add: s2_def E_def)
    have ev3: "events s3 = E" using s3(3) by (simp add: kframe_def s2_def)
    have fl: "flags_in (ev_set (events s3 a)) ?cur" by (simp add: ev3 E_def)
    have q3: "tlists s3 (EventQ a) = us @ ts"
      using Cons.prems(2) d by (simp add: s3(5) s2_def tl_insert_before_def tl_remove_def remove1_append)
    have th3: "threads s3 v = threads s v" if "v \<noteq> t" for v using that by (simp add: s3(4) s2_def)
    have u3: "\<forall>t \<in> set us. event_met (t_event_info (threads s3 t)) (t_event_set (threads s3 t)) (ev_set (events s3 a)) = None"
    proof
      fix v assume v: "v \<in> set us"
      then have "v \<noteq> t" using d by auto
      then show "event_met (t_event_info (threads s3 v)) (t_event_set (threads s3 v)) (ev_set (events s3 a)) = None"
        using event_met_mono [OF _ fl] Cons.prems(3) v th3 by simp
    qed
    have other: "tlists s3 q' = tlists s q'" if "wait_queue q'" "q' \<noteq> EventQ a" for q'
    proof -
      have "t \<notin> set (tlists s q')" using wf_listsD(2) [OF S(1), of t q' "EventQ a"] that(2) Cons.prems(2) by auto
      moreover have "q' \<noteq> Ready p" for p using that(1) by (auto simp: wait_queue_def)
      ultimately show ?thesis by (simp add: s3(5) s2_def tl_insert_before_def tl_remove_def remove1_idem)
    qed
    from Cons.IH [OF s3(2) q3 u3, of True] obtain need' s' vs where
      I: "event_send_walk a ts True s3 = Some (need', s')" "kinv s'" "event_inv a s'"
      "tlists s' (EventQ a) = us @ vs" "set vs \<subseteq> set ts"
      "\<forall>t \<in> set ts - set vs. event_woken a s3 s' t" "\<forall>t. t \<notin> set ts - set vs \<longrightarrow> threads s' t = threads s3 t"
      "need'" "flags_in (ev_set (events s' a)) (ev_set (events s3 a))"
      "\<forall>a'. a' \<noteq> a \<longrightarrow> events s' a' = events s3 a'"
      "kframe (s3\<lparr>events := events s'\<rparr>) s'" "frames s' = frames s3" "object_lists s' = object_lists s3"
      "rt_current_thread s' = rt_current_thread s3"
      "\<forall>q. wait_queue q \<longrightarrow> q \<noteq> EventQ a \<longrightarrow> tlists s' q = tlists s3 q"
      by auto
    have tt: "threads s' t = (threads s t)\<lparr>t_event_set := got, t_stat := RT_THREAD_READY\<rparr>"
      using I(7) d s3(4) by (simp add: s2_def)
    have wt: "event_woken a s s' t"
      using Some tt flags_in_refl unfolding event_woken_def by (intro conjI exI [of _ ?cur]) simp_all
    have wv: "event_woken a s s' v" if "v \<in> set ts - set vs" for v
    proof -
      have "v \<noteq> t" using that d by auto
      then show ?thesis
        using I(6) that th3 [of v] flags_in_trans [OF _ fl] unfolding event_woken_def by metis
    qed
    have e: "set (t # ts) - set vs = insert t (set ts - set vs)" using d I(5) by auto
    have "kframe (s\<lparr>events := events s'\<rparr>) s'"
      using I(11) s3(3) by (simp add: kframe_def s2_def)
    moreover have "\<forall>v. v \<notin> set (t # ts) - set vs \<longrightarrow> threads s' v = threads s v"
      using I(7) th3 unfolding e by auto
    moreover have "\<forall>v \<in> set (t # ts) - set vs. event_woken a s s' v" using wt wv unfolding e by auto
    moreover have "set vs \<noteq> set (t # ts)" using d I(5) by auto
    moreover have "\<forall>a'. a' \<noteq> a \<longrightarrow> events s' a' = events s a'" using I(10) ev3 by (simp add: E_def)
    moreover have "frames s' = frames s" "object_lists s' = object_lists s" "rt_current_thread s' = rt_current_thread s"
      using I(12-14) s3(6-8) by (simp_all add: s2_def)
    moreover have "set vs \<subseteq> set (t # ts)" using I(5) by auto
    ultimately show ?thesis
      using I(1-4,8) I(15) other walk flags_in_trans [OF I(9) fl]
      by (intro exI [of _ need'] exI [of _ s'] exI [of _ vs] conjI) (simp_all only:, auto)
  qed
qed

lemma event_inv_upd [simp]:
  "event_inv a (s\<lparr>rt_current_thread := c\<rparr>) = event_inv a s" "event_inv a (s\<lparr>rt_current_priority := p\<rparr>) = event_inv a s"
  by (simp_all add: event_inv_def)

lemma rt_event_send_spec:
  assumes "kinv s" "rt_current_thread s = Some c" "bits \<noteq> 0"
  shows "\<exists>s' c' W. rt_event_send a bits s = Some (RT_EOK, s') \<and> kinv s' \<and> event_inv a s' \<and>
    flags_in (ev_set (events s' a)) (ev_set (events s a) OR bits) \<and>
    W \<subseteq> set (tlists s (EventQ a)) \<and> set (tlists s' (EventQ a)) = set (tlists s (EventQ a)) - W \<and>
    (\<forall>t \<in> W. event_woken a (s\<lparr>events := (events s)(a := (events s a)\<lparr>ev_set := ev_set (events s a) OR bits\<rparr>)\<rparr>) s' t) \<and>
    (\<forall>t. t \<notin> W \<longrightarrow> threads s' t = threads s t) \<and>
    (\<forall>q. wait_queue q \<longrightarrow> q \<noteq> EventQ a \<longrightarrow> tlists s' q = tlists s q) \<and>
    (\<forall>a'. a' \<noteq> a \<longrightarrow> events s' a' = events s a') \<and> kframe (s\<lparr>events := events s'\<rparr>) s' \<and>
    frames s' = frames s \<and> object_lists s' = object_lists s \<and> rt_current_thread s' = Some c' \<and>
    (if W \<noteq> {} \<and> rt_scheduler_lock_nest s = 0 then highest_ready s' c' else c' = c)"
proof -
  let ?s1 = "s\<lparr>events := (events s)(a := (events s a)\<lparr>ev_set := ev_set (events s a) OR bits\<rparr>)\<rparr>"
  let ?ts = "tlists s (EventQ a)"
  have k1: "kinv ?s1" using assms(1) by simp
  have q1: "tlists ?s1 (EventQ a) = [] @ ?ts" by simp
  obtain need s2 vs where I: "event_send_walk a ?ts False ?s1 = Some (need, s2)" "kinv s2" "event_inv a s2"
    "tlists s2 (EventQ a) = vs" "set vs \<subseteq> set ?ts" "\<forall>t \<in> set ?ts - set vs. event_woken a ?s1 s2 t"
    "\<forall>t. t \<notin> set ?ts - set vs \<longrightarrow> threads s2 t = threads ?s1 t" "need \<longleftrightarrow> set vs \<noteq> set ?ts"
    "flags_in (ev_set (events s2 a)) (ev_set (events ?s1 a))" "\<forall>a'. a' \<noteq> a \<longrightarrow> events s2 a' = events ?s1 a'"
    "kframe (?s1\<lparr>events := events s2\<rparr>) s2" "frames s2 = frames ?s1" "object_lists s2 = object_lists ?s1"
    "rt_current_thread s2 = rt_current_thread ?s1"
    "\<forall>q. wait_queue q \<longrightarrow> q \<noteq> EventQ a \<longrightarrow> tlists s2 q = tlists ?s1 q"
    using event_send_walk_spec [OF k1 q1, of False] by auto
  let ?W = "set ?ts - set vs"
  have lock: "rt_scheduler_lock_nest s2 = rt_scheduler_lock_nest s" using I(11) by (simp add: kframe_def)
  have c2: "rt_current_thread s2 = Some c" using I(14) assms(2) by simp
  obtain c' p where sc: "(if need then rt_schedule s2 else Some s2) = Some (s2\<lparr>rt_current_thread := Some c', rt_current_priority := p\<rparr>)"
    "if ?W \<noteq> {} \<and> rt_scheduler_lock_nest s = 0 then highest_ready s2 c' else c' = c"
  proof (cases need)
    case True
    then obtain u where u: "u \<in> ?W" using I(5,8) by auto
    then have "stat s2 u = RT_THREAD_READY" using I(6) by (simp add: event_woken_def)
    then show thesis
      using kinv_schedule [OF I(2) _ c2, of u] lock True u that by (metis empty_iff)
  next
    case False
    then have "?W = {}" using I(8) by simp
    then show thesis using False c2 by (intro that [of "rt_current_priority s2" c]) simp_all
  qed
  let ?s' = "s2\<lparr>rt_current_thread := Some c', rt_current_priority := p\<rparr>"
  have "rt_event_send a bits s = Some (RT_EOK, ?s')"
    using assms(3) I(1) sc(1) by (simp add: rt_event_send_def)
  moreover have "\<forall>t \<in> ?W. event_woken a ?s1 ?s' t" using I(6) by (simp add: event_woken_def)
  moreover have "set (tlists ?s' (EventQ a)) = set ?ts - ?W" using I(4,5) by auto
  moreover have "kframe (s\<lparr>events := events ?s'\<rparr>) ?s'" using I(11) by (simp add: kframe_def)
  moreover have "if ?W \<noteq> {} \<and> rt_scheduler_lock_nest s = 0 then highest_ready ?s' c' else c' = c"
    using sc(2) by (simp split: if_splits)
  ultimately show ?thesis
    using I(2,3,7,9,10,12,13,15) by (intro exI [of _ ?s'] exI [of _ c'] exI [of _ ?W]) auto
qed

subsection \<open>Properties\<close>

text \<open>
  \<open>rt_event_recv\<close> with a non-empty set of flags and a valid option returns the flags at once when
  they are there, clearing them if asked to; otherwise it gives \<open>-RT_ETIMEOUT\<close> when the time is
  zero, and else records what the caller wants and puts it on the list.
\<close>

theorem rt_event_recv_correct:
  assumes "kinv s" "can_wait s t" "wait_time time" "want \<noteq> 0"
    and "obj_flag (ObjEvent a) s = RT_IPC_FLAG_FIFO \<or> obj_flag (ObjEvent a) s = RT_IPC_FLAG_PRIO"
    and "option AND RT_EVENT_FLAG_AND \<noteq> 0 \<or> option AND RT_EVENT_FLAG_OR \<noteq> 0"
  shows "\<exists>r s'. rt_event_recv a want option time s = Some (r, s') \<and> kinv s' \<and>
    (if event_met option want (ev_set (events s a)) \<noteq> None
     then r = Returns (RT_EOK, Some (ev_set (events s a) AND want)) \<and>
       s' = s\<lparr>threads := (threads s)(t := (threads s t)\<lparr>t_error := RT_EOK\<rparr>),
              events := (if option AND RT_EVENT_FLAG_CLEAR \<noteq> 0
                then (events s)(a := (events s a)\<lparr>ev_set := ev_set (events s a) AND NOT want\<rparr>)
                else events s)\<rparr>
     else if time = 0
     then r = Returns (- RT_ETIMEOUT, None) \<and>
       s' = s\<lparr>threads := (threads s)(t := (threads s t)\<lparr>t_error := - RT_ETIMEOUT\<rparr>)\<rparr>
     else r = Waits \<and> waits_on (EventQ a) t (obj_flag (ObjEvent a) s) time (InEventRecv a)
       ((threads s t)\<lparr>t_error := RT_EOK, t_event_set := want, t_event_info := option\<rparr>) s s')"
  by (rule rt_event_recv_spec [OF assms])

theorem rt_event_recv_correct_witness:
  "\<exists>r s'. rt_event_recv 40 6 1 (5::u32) demo = Some (r, s') \<and> kinv s' \<and>
    (if event_met 1 6 (ev_set (events demo 40)) \<noteq> None
     then r = Returns (RT_EOK, Some (ev_set (events demo 40) AND 6)) \<and>
       s' = demo\<lparr>threads := (threads demo)(3 := (threads demo 3)\<lparr>t_error := RT_EOK\<rparr>),
              events := (if 1 AND RT_EVENT_FLAG_CLEAR \<noteq> 0
                then (events demo)(40 := (events demo 40)\<lparr>ev_set := ev_set (events demo 40) AND NOT 6\<rparr>)
                else events demo)\<rparr>
     else if (5::u32) = 0
     then r = Returns (- RT_ETIMEOUT, None) \<and>
       s' = demo\<lparr>threads := (threads demo)(3 := (threads demo 3)\<lparr>t_error := - RT_ETIMEOUT\<rparr>)\<rparr>
     else r = Waits \<and> waits_on (EventQ 40) 3 (obj_flag (ObjEvent 40) demo) (5::u32) (InEventRecv 40)
       ((threads demo 3)\<lparr>t_error := RT_EOK, t_event_set := 6, t_event_info := 1\<rparr>) demo s')"
  by (rule rt_event_recv_correct [OF demo_kinv demo_can_wait]) (simp_all add: wait_time_def)



end
