(* ===== verification/RtMailbox.thy ===== *)
theory RtMailbox
  imports RtIpc RtChannel
begin

text \<open>The mailboxes of \<^verbatim>\<open>src/ipc.c\<close>: a ring of words, with threads that wait for room and
  threads that wait for a mail.\<close>

subsection \<open>Operations\<close>

definition mb_empty :: "nat \<Rightarrow> kstate \<Rightarrow> kstate" where
  "mb_empty a s = mb_at a (\<lambda>m. m\<lparr>mb_entry := 0, mb_in_offset := 0, mb_out_offset := 0\<rparr>) s"

definition rt_mb_init ::
  "nat \<Rightarrow> u8 list \<Rightarrow> nat \<Rightarrow> u32 \<Rightarrow> u8 \<Rightarrow> kstate \<Rightarrow> (rt_err_t \<times> kstate) option" where
  "rt_mb_init a name msgpool sz flag s =
     do {
       s1 \<leftarrow> rt_object_init (ObjMb a) name s;
       let s2 = rt_ipc_object_init (MbRecvQ a) (set_obj_flag (ObjMb a) flag s1);
       let s3 = mb_empty a (mb_at a (\<lambda>m. m\<lparr>mb_msg_pool := msgpool, mb_size := ucast sz\<rparr>) s2);
       Some (RT_EOK, rt_ipc_object_init (MbSendQ a) s3) }"

definition rt_mb_detach :: "nat \<Rightarrow> kstate \<Rightarrow> (rt_err_t \<times> kstate) option" where
  "rt_mb_detach a s =
     do {
       s1 \<leftarrow> rt_ipc_list_resume_all (MbRecvQ a) s;
       s2 \<leftarrow> rt_ipc_list_resume_all (MbSendQ a) s1;
       Some (RT_EOK, rt_object_detach (ObjMb a) s2) }"

definition rt_mb_create :: "u8 list \<Rightarrow> u32 \<Rightarrow> u8 \<Rightarrow> kstate \<Rightarrow> (nat option \<times> kstate) option" where
  "rt_mb_create name sz flag s =
     RT_DEBUG_NOT_IN_INTERRUPT s
       (do {
          (r, s1) \<leftarrow> rt_object_allocate ObjMb name s;
          (case r of
             None \<Rightarrow> Some (None, s1)
           | Some a \<Rightarrow> do {
               let s2 = rt_ipc_object_init (MbRecvQ a) (set_obj_flag (ObjMb a) flag s1);
               let s3 = mb_at a (\<lambda>m. m\<lparr>mb_size := ucast sz\<rparr>) s2;
               (p, s4) \<leftarrow> k_malloc (ucast (mb_size (mailboxes s3 a)) * 4) s3;
               (case p of
                  None \<Rightarrow> do { s5 \<leftarrow> rt_object_delete (ObjMb a) s4; Some (None, s5) }
                | Some pool \<Rightarrow>
                    let s5 = mb_empty a (mb_at a (\<lambda>m. m\<lparr>mb_msg_pool := pool\<rparr>) s4)
                    in Some (Some a, rt_ipc_object_init (MbSendQ a) s5)) }) })"

definition rt_mb_delete :: "nat \<Rightarrow> kstate \<Rightarrow> (rt_err_t \<times> kstate) option" where
  "rt_mb_delete a s =
     RT_DEBUG_NOT_IN_INTERRUPT s
       (do {
          s1 \<leftarrow> rt_ipc_list_resume_all (MbRecvQ a) s;
          s2 \<leftarrow> rt_ipc_list_resume_all (MbSendQ a) s1;
          s3 \<leftarrow> k_free (Some (mb_msg_pool (mailboxes s2 a))) s2;
          s4 \<leftarrow> rt_object_delete (ObjMb a) s3;
          Some (RT_EOK, s4) })"

text \<open>The ring: a mail goes in at one offset and comes out at the other.\<close>

definition mb_next :: "u16 \<Rightarrow> rt_mailbox \<Rightarrow> u16" where
  "mb_next off m = (if off + 1 \<ge> mb_size m then 0 else off + 1)"

definition mb_put :: "u32 \<Rightarrow> rt_mailbox \<Rightarrow> rt_mailbox" where
  "mb_put v m =
     m\<lparr>mb_msgs := (mb_msgs m)(unat (mb_in_offset m) := v),
       mb_in_offset := mb_next (mb_in_offset m) m, mb_entry := mb_entry m + 1\<rparr>"

definition mb_get :: "rt_mailbox \<Rightarrow> u32 \<times> rt_mailbox" where
  "mb_get m =
     (mb_msgs m (unat (mb_out_offset m)),
      m\<lparr>mb_out_offset := mb_next (mb_out_offset m) m, mb_entry := mb_entry m - 1\<rparr>)"

text \<open>\<open>rt_mb_send_wait\<close> from the head of its loop on.\<close>

definition mb_send_loop ::
  "nat \<Rightarrow> u32 \<Rightarrow> u32 \<Rightarrow> u32 \<Rightarrow> kstate \<Rightarrow> (rt_err_t call \<times> kstate) option" where
  "mb_send_loop a v timeout tick_delta s =
     (if mb_entry (mailboxes s a) = mb_size (mailboxes s a)
      then do {
        t \<leftarrow> rt_thread_self s;
        let s1 = thread_at t (t_error_update (\<lambda>_. RT_EOK)) s;
        if timeout = 0 then Some (Returns (- RT_EFULL), s1)
        else RT_DEBUG_IN_THREAD_CONTEXT s1
          (do {
             let tick_delta = (if 0 < sint timeout then rt_tick s1 else tick_delta);
             s2 \<leftarrow> ipc_wait (MbSendQ a) t (obj_flag (ObjMb a) s1) timeout s1;
             s3 \<leftarrow> rt_schedule
               (s2\<lparr>frames := (frames s2)(t := Some (InMbSend a v timeout tick_delta))\<rparr>);
             Some (Waits, s3) }) }
      else do {
        let s1 = mb_at a (mb_put v) s;
        if tlists s1 (MbRecvQ a) \<noteq> []
        then do {
          s2 \<leftarrow> rt_ipc_list_resume (MbRecvQ a) s1;
          s3 \<leftarrow> rt_schedule s2;
          Some (Returns RT_EOK, s3) }
        else Some (Returns RT_EOK, s1) })"

definition rt_mb_send_wait :: "nat \<Rightarrow> u32 \<Rightarrow> u32 \<Rightarrow> kstate \<Rightarrow> (rt_err_t call \<times> kstate) option" where
  "rt_mb_send_wait a v timeout s =
     (if mb_entry (mailboxes s a) = mb_size (mailboxes s a) \<and> timeout = 0
      then Some (Returns (- RT_EFULL), s)
      else mb_send_loop a v timeout 0 s)"

definition rt_mb_send_wait_wake ::
  "nat \<Rightarrow> nat \<Rightarrow> u32 \<Rightarrow> u32 \<Rightarrow> u32 \<Rightarrow> kstate \<Rightarrow> (rt_err_t call \<times> kstate) option" where
  "rt_mb_send_wait_wake t a v timeout tick_delta s =
     (let s1 = s\<lparr>frames := (frames s)(t := None)\<rparr>
      in if t_error (threads s1 t) \<noteq> RT_EOK then Some (Returns (t_error (threads s1 t)), s1)
         else mb_send_loop a v (time_left timeout tick_delta s1) (elapsed timeout tick_delta s1) s1)"

definition rt_mb_send :: "nat \<Rightarrow> u32 \<Rightarrow> kstate \<Rightarrow> (rt_err_t call \<times> kstate) option" where
  "rt_mb_send a v s = rt_mb_send_wait a v 0 s"

text \<open>\<open>rt_mb_recv\<close>: the mail it stores through \<open>value\<close> comes with the result.\<close>

definition mb_recv_loop ::
  "nat \<Rightarrow> u32 \<Rightarrow> u32 \<Rightarrow> kstate \<Rightarrow> ((rt_err_t \<times> u32 option) call \<times> kstate) option" where
  "mb_recv_loop a timeout tick_delta s =
     (if mb_entry (mailboxes s a) = 0
      then do {
        t \<leftarrow> rt_thread_self s;
        let s1 = thread_at t (t_error_update (\<lambda>_. RT_EOK)) s;
        if timeout = 0
        then Some (Returns (- RT_ETIMEOUT, None), thread_at t (t_error_update (\<lambda>_. - RT_ETIMEOUT)) s1)
        else RT_DEBUG_IN_THREAD_CONTEXT s1
          (do {
             let tick_delta = (if 0 < sint timeout then rt_tick s1 else tick_delta);
             s2 \<leftarrow> ipc_wait (MbRecvQ a) t (obj_flag (ObjMb a) s1) timeout s1;
             s3 \<leftarrow> rt_schedule
               (s2\<lparr>frames := (frames s2)(t := Some (InMbRecv a timeout tick_delta))\<rparr>);
             Some (Waits, s3) }) }
      else do {
        let (v, m) = mb_get (mailboxes s a);
        let s1 = mb_at a (\<lambda>_. m) s;
        if tlists s1 (MbSendQ a) \<noteq> []
        then do {
          s2 \<leftarrow> rt_ipc_list_resume (MbSendQ a) s1;
          s3 \<leftarrow> rt_schedule s2;
          Some (Returns (RT_EOK, Some v), s3) }
        else Some (Returns (RT_EOK, Some v), s1) })"

definition rt_mb_recv ::
  "nat \<Rightarrow> u32 \<Rightarrow> kstate \<Rightarrow> ((rt_err_t \<times> u32 option) call \<times> kstate) option" where
  "rt_mb_recv a timeout s =
     (if mb_entry (mailboxes s a) = 0 \<and> timeout = 0
      then Some (Returns (- RT_ETIMEOUT, None), s)
      else mb_recv_loop a timeout 0 s)"

definition rt_mb_recv_wake ::
  "nat \<Rightarrow> nat \<Rightarrow> u32 \<Rightarrow> u32 \<Rightarrow> kstate \<Rightarrow> ((rt_err_t \<times> u32 option) call \<times> kstate) option" where
  "rt_mb_recv_wake t a timeout tick_delta s =
     (let s1 = s\<lparr>frames := (frames s)(t := None)\<rparr>
      in if t_error (threads s1 t) \<noteq> RT_EOK then Some (Returns (t_error (threads s1 t), None), s1)
         else mb_recv_loop a (time_left timeout tick_delta s1) (elapsed timeout tick_delta s1) s1)"

definition rt_mb_control :: "nat \<Rightarrow> u8 \<Rightarrow> u32 \<Rightarrow> kstate \<Rightarrow> (rt_err_t \<times> kstate) option" where
  "rt_mb_control a cmd arg s =
     (if cmd = RT_IPC_CMD_RESET
      then do {
        s1 \<leftarrow> rt_ipc_list_resume_all (MbRecvQ a) s;
        s2 \<leftarrow> rt_ipc_list_resume_all (MbSendQ a) s1;
        s3 \<leftarrow> rt_schedule (mb_empty a s2);
        Some (RT_EOK, s3) }
      else Some (- RT_ERROR, s))"

subsection \<open>The ring is a queue\<close>

definition mb_wf :: "rt_mailbox \<Rightarrow> bool" where
  "mb_wf m \<longleftrightarrow> 0 < mb_size m \<and> mb_entry m \<le> mb_size m \<and> mb_out_offset m < mb_size m \<and>
     unat (mb_in_offset m) = (unat (mb_out_offset m) + unat (mb_entry m)) mod unat (mb_size m)"

definition mb_items :: "rt_mailbox \<Rightarrow> u32 list" where
  "mb_items m = map (\<lambda>i. mb_msgs m ((unat (mb_out_offset m) + i) mod unat (mb_size m))) [0..<unat (mb_entry m)]"

lemma unat_suc: "x < (y :: u16) \<Longrightarrow> unat (x + 1) = Suc (unat x)"
  using unsigned_less [of y, where ?'a = nat] by (simp add: unat_word_ariths word_less_nat_alt)

lemma mod_add_neq: "k < e \<Longrightarrow> e < n \<Longrightarrow> (b + k) mod n \<noteq> (b + e) mod n" for k :: nat
proof
  assume "k < e" "e < n" "(b + k) mod n = (b + e) mod n"
  then have "n dvd (b + e) - (b + k)" using mod_eq_dvd_iff_nat [of "b + k" "b + e" n] by simp
  then have "n dvd e - k" by (simp only: add_diff_cancel_left)
  then show False using \<open>k < e\<close> \<open>e < n\<close> by (auto dest: dvd_imp_le)
qed

lemma unat_mb_next: "off < mb_size m \<Longrightarrow> unat (mb_next off m) = Suc (unat off) mod unat (mb_size m)"
  using unat_suc [of off "mb_size m"] by (auto simp: mb_next_def word_le_nat_alt word_less_nat_alt mod_Suc)

lemma mb_items_length [simp]: "length (mb_items m) = unat (mb_entry m)"
  by (simp add: mb_items_def)

lemma mb_put_spec:
  assumes wf: "mb_wf m" and room: "mb_entry m \<noteq> mb_size m"
  shows "mb_wf (mb_put v m)" "mb_items (mb_put v m) = mb_items m @ [v]"
proof -
  have lt: "mb_entry m < mb_size m" using wf room by (simp add: mb_wf_def order.strict_iff_order)
  note e = unat_suc [OF lt]
  have n: "unat (mb_entry m) < unat (mb_size m)" using lt by (simp add: word_less_nat_alt)
  have o: "unat (mb_out_offset m) < unat (mb_size m)" using wf by (simp add: mb_wf_def word_less_nat_alt)
  have i: "unat (mb_in_offset m) = (unat (mb_out_offset m) + unat (mb_entry m)) mod unat (mb_size m)"
    using wf by (simp add: mb_wf_def)
  have ilt: "mb_in_offset m < mb_size m" using i n by (simp add: word_less_nat_alt)
  have nx: "unat (mb_next (mb_in_offset m) m) = Suc (unat (mb_in_offset m)) mod unat (mb_size m)"
    by (rule unat_mb_next [OF ilt])
  show "mb_wf (mb_put v m)"
    using wf nx e lt unfolding mb_wf_def mb_put_def
    by (simp add: word_le_nat_alt word_less_nat_alt i mod_Suc_eq)
  have ne: "(unat (mb_out_offset m) + k) mod unat (mb_size m) \<noteq> unat (mb_in_offset m)" if "k < unat (mb_entry m)" for k
    unfolding i using that n by (rule mod_add_neq)
  show "mb_items (mb_put v m) = mb_items m @ [v]"
    using ne e by (simp add: mb_items_def mb_put_def mb_next_def i)
qed


lemma mb_get_spec:
  assumes wf: "mb_wf m" and some: "mb_entry m \<noteq> 0"
  shows "mb_items m = fst (mb_get m) # mb_items (snd (mb_get m))" "mb_wf (snd (mb_get m))"
proof -
  let ?n = "unat (mb_size m)" and ?o = "unat (mb_out_offset m)" and ?e = "unat (mb_entry m)"
  have o: "mb_out_offset m < mb_size m" and n: "0 < ?n" and oo: "?o < ?n" and en: "?e \<le> ?n"
    using wf by (simp_all add: mb_wf_def word_less_nat_alt word_le_nat_alt)
  have e: "?e = Suc (unat (mb_entry m - 1))" using some by (simp add: unat_minus_one unat_gt_0)
  have nx: "unat (mb_next (mb_out_offset m) m) = Suc ?o mod ?n" by (rule unat_mb_next [OF o])
  show "mb_items m = fst (mb_get m) # mb_items (snd (mb_get m))"
    unfolding mb_items_def mb_get_def
    by (simp add: mb_next_def e upt_conv_Cons map_Suc_upt [symmetric] o_def nx [unfolded mb_next_def] oo mod_simps del: upt_Suc)
  show "mb_wf (snd (mb_get m))"
    using wf e nx unfolding mb_wf_def mb_get_def
    by (simp add: mb_next_def nx [unfolded mb_next_def] word_less_nat_alt word_le_nat_alt mod_simps)
qed


lemma mb_put_fields [simp]:
  "mb_entry (mb_put v m) = mb_entry m + 1" "mb_size (mb_put v m) = mb_size m"
  "mb_entry (snd (mb_get m)) = mb_entry m - 1" "mb_size (snd (mb_get m)) = mb_size m"
  by (simp_all add: mb_put_def mb_get_def)

subsection \<open>What the operations do\<close>

lemma kinv_mb_at [simp]: "kinv (s\<lparr>mailboxes := m\<rparr>) = kinv s"
  by (simp add: kinv_def stacks_ok_def)

lemma mb_send_loop_room:
  assumes "kinv s" "rt_current_thread s = Some c" "mb_entry (mailboxes s a) \<noteq> mb_size (mailboxes s a)"
  shows "\<exists>s'. mb_send_loop a v timeout d s = Some (Returns RT_EOK, s') \<and> kinv s' \<and>
    mailboxes s' = (mailboxes s)(a := mb_put v (mailboxes s a)) \<and>
    (case tlists s (MbRecvQ a) of [] \<Rightarrow> s' = mb_at a (mb_put v) s
     | u # us \<Rightarrow> woken (MbRecvQ a) u (mb_at a (mb_put v) s) s')"
proof (cases "tlists s (MbRecvQ a)")
  case Nil
  then show ?thesis using assms by (simp add: mb_send_loop_def)
next
  case (Cons u us)
  let ?s1 = "mb_at a (mb_put v) s"
  have k: "kinv ?s1" "rt_current_thread ?s1 = Some c" "tlists ?s1 (MbRecvQ a) = u # us"
    using assms Cons by simp_all
  obtain s2 s' where b: "rt_ipc_list_resume (MbRecvQ a) ?s1 = Some s2" "rt_schedule s2 = Some s'"
    "woken (MbRecvQ a) u ?s1 s'"
    using ipc_resume [OF k(1,2) _ k(3)] by auto
  have "mailboxes s' = mailboxes ?s1" using wokenD(2) [OF b(3)] by (simp add: kframe_def)
  then show ?thesis using assms b Cons wokenD(1) [OF b(3)] by (simp add: mb_send_loop_def)
qed

lemma mb_send_loop_full:
  assumes "kinv s" "can_wait s t" "wait_time timeout" "timeout \<noteq> 0"
    and "obj_flag (ObjMb a) s = RT_IPC_FLAG_FIFO \<or> obj_flag (ObjMb a) s = RT_IPC_FLAG_PRIO"
    and "mb_entry (mailboxes s a) = mb_size (mailboxes s a)"
  shows "\<exists>s'. mb_send_loop a v timeout d s = Some (Waits, s') \<and>
    waits_on (MbSendQ a) t (obj_flag (ObjMb a) s) timeout (InMbSend a v timeout (wait_start timeout d s))
      (no_error t s) s s'"
proof -
  have th: "same_sched (no_error t s) (threads s t)" "stack_ok (no_error t s) = stack_ok (threads s t)"
    by (simp_all add: same_sched_def stack_ok_def no_error_def)
  obtain s1 s' where b: "ipc_wait (MbSendQ a) t (obj_flag (ObjMb a) s) timeout
      (s\<lparr>threads := (threads s)(t := no_error t s)\<rparr>) = Some s1"
    "rt_schedule (s1\<lparr>frames := (frames s1)(t := Some (InMbSend a v timeout (wait_start timeout d s)))\<rparr>) = Some s'"
    "waits_on (MbSendQ a) t (obj_flag (ObjMb a) s) timeout (InMbSend a v timeout (wait_start timeout d s))
      (no_error t s) s s'"
    using ipc_block [OF assms(1,2) _ assms(5,3) th] by (metis wait_queue_simps)
  have "mb_send_loop a v timeout d s = Some (Waits, s')"
    using assms(2,4,6) b(1,2) by (cases "0 < sint timeout")
      (simp_all add: mb_send_loop_def can_wait_def rt_thread_self_def obj_flag_def no_error_def wait_start_def)
  with b(3) show ?thesis by blast
qed


lemma mb_recv_loop_some:
  assumes "kinv s" "rt_current_thread s = Some c" "mb_entry (mailboxes s a) \<noteq> 0"
  shows "\<exists>s'. mb_recv_loop a timeout d s = Some (Returns (RT_EOK, Some (fst (mb_get (mailboxes s a)))), s') \<and> kinv s' \<and>
    mailboxes s' = (mailboxes s)(a := snd (mb_get (mailboxes s a))) \<and>
    (case tlists s (MbSendQ a) of [] \<Rightarrow> s' = mb_at a (\<lambda>m. snd (mb_get m)) s
     | u # us \<Rightarrow> woken (MbSendQ a) u (mb_at a (\<lambda>m. snd (mb_get m)) s) s')"
proof (cases "tlists s (MbSendQ a)")
  case Nil
  then show ?thesis using assms by (simp add: mb_recv_loop_def mb_get_def)
next
  case (Cons u us)
  let ?s1 = "mb_at a (\<lambda>m. snd (mb_get m)) s"
  have k: "kinv ?s1" "rt_current_thread ?s1 = Some c" "tlists ?s1 (MbSendQ a) = u # us"
    using assms Cons by simp_all
  obtain s2 s' where b: "rt_ipc_list_resume (MbSendQ a) ?s1 = Some s2" "rt_schedule s2 = Some s'"
    "woken (MbSendQ a) u ?s1 s'"
    using ipc_resume [OF k(1,2) _ k(3)] by auto
  have "mailboxes s' = mailboxes ?s1" using wokenD(2) [OF b(3)] by (simp add: kframe_def)
  then show ?thesis using assms b Cons wokenD(1) [OF b(3)]
    by (cases "mb_get (mailboxes s a)") (simp add: mb_recv_loop_def)
qed

lemma mb_recv_loop_empty:
  assumes "kinv s" "can_wait s t" "wait_time timeout" "timeout \<noteq> 0"
    and "obj_flag (ObjMb a) s = RT_IPC_FLAG_FIFO \<or> obj_flag (ObjMb a) s = RT_IPC_FLAG_PRIO"
    and "mb_entry (mailboxes s a) = 0"
  shows "\<exists>s'. mb_recv_loop a timeout d s = Some (Waits, s') \<and>
    waits_on (MbRecvQ a) t (obj_flag (ObjMb a) s) timeout (InMbRecv a timeout (wait_start timeout d s))
      (no_error t s) s s'"
proof -
  have th: "same_sched (no_error t s) (threads s t)" "stack_ok (no_error t s) = stack_ok (threads s t)"
    by (simp_all add: same_sched_def stack_ok_def no_error_def)
  obtain s1 s' where b: "ipc_wait (MbRecvQ a) t (obj_flag (ObjMb a) s) timeout
      (s\<lparr>threads := (threads s)(t := no_error t s)\<rparr>) = Some s1"
    "rt_schedule (s1\<lparr>frames := (frames s1)(t := Some (InMbRecv a timeout (wait_start timeout d s)))\<rparr>) = Some s'"
    "waits_on (MbRecvQ a) t (obj_flag (ObjMb a) s) timeout (InMbRecv a timeout (wait_start timeout d s))
      (no_error t s) s s'"
    using ipc_block [OF assms(1,2) _ assms(5,3) th] by (metis wait_queue_simps)
  have "mb_recv_loop a timeout d s = Some (Waits, s')"
    using assms(2,4,6) b(1,2) by (cases "0 < sint timeout")
      (simp_all add: mb_recv_loop_def can_wait_def rt_thread_self_def obj_flag_def no_error_def wait_start_def)
  with b(3) show ?thesis by blast
qed

lemma rt_mb_send_wait_spec:
  assumes "kinv s" "can_wait s t" "wait_time timeout" "mb_wf (mailboxes s a)"
    and "obj_flag (ObjMb a) s = RT_IPC_FLAG_FIFO \<or> obj_flag (ObjMb a) s = RT_IPC_FLAG_PRIO"
  shows "\<exists>r s'. rt_mb_send_wait a v timeout s = Some (r, s') \<and> kinv s' \<and> mb_wf (mailboxes s' a) \<and>
    (if length (mb_items (mailboxes s a)) < unat (mb_size (mailboxes s a))
     then r = Returns RT_EOK \<and> mb_items (mailboxes s' a) = mb_items (mailboxes s a) @ [v] \<and>
       (case tlists s (MbRecvQ a) of [] \<Rightarrow> s' = mb_at a (mb_put v) s
        | u # us \<Rightarrow> woken (MbRecvQ a) u (mb_at a (mb_put v) s) s')
     else if timeout = 0 then r = Returns (- RT_EFULL) \<and> s' = s
     else r = Waits \<and> waits_on (MbSendQ a) t (obj_flag (ObjMb a) s) timeout
            (InMbSend a v timeout (wait_start timeout 0 s)) (no_error t s) s s')"
proof -
  have c: "rt_current_thread s = Some t" using assms(2) by (simp add: can_wait_def)
  have fu: "mb_entry (mailboxes s a) = mb_size (mailboxes s a) \<longleftrightarrow>
      \<not> length (mb_items (mailboxes s a)) < unat (mb_size (mailboxes s a))"
    using assms(4) by (auto simp: mb_wf_def word_le_nat_alt word_unat_eq_iff)
  consider (room) "mb_entry (mailboxes s a) \<noteq> mb_size (mailboxes s a)"
    | (full) "mb_entry (mailboxes s a) = mb_size (mailboxes s a)" "timeout = 0"
    | (wait) "mb_entry (mailboxes s a) = mb_size (mailboxes s a)" "timeout \<noteq> 0" by blast
  then show ?thesis
  proof cases
    case room
    note b = mb_put_spec [OF assms(4) room]
    from mb_send_loop_room [OF assms(1) c room, of v timeout 0]
    obtain s' where "mb_send_loop a v timeout 0 s = Some (Returns RT_EOK, s')" "kinv s'"
      "mailboxes s' = (mailboxes s)(a := mb_put v (mailboxes s a))"
      "case tlists s (MbRecvQ a) of [] \<Rightarrow> s' = mb_at a (mb_put v) s
       | u # us \<Rightarrow> woken (MbRecvQ a) u (mb_at a (mb_put v) s) s'" by blast
    then show ?thesis using room fu b [of v] by (simp add: rt_mb_send_wait_def)
  next
    case full
    then show ?thesis using assms fu by (simp add: rt_mb_send_wait_def)
  next
    case wait
    from mb_send_loop_full [OF assms(1-3) wait(2) assms(5) wait(1)]
    obtain s' where b: "mb_send_loop a v timeout 0 s = Some (Waits, s')"
      "waits_on (MbSendQ a) t (obj_flag (ObjMb a) s) timeout (InMbSend a v timeout (wait_start timeout 0 s))
        (no_error t s) s s'" by blast
    then have "kinv s'" "mailboxes s' = mailboxes s" by (simp_all add: waits_on_def kframe_def)
    then show ?thesis using b wait fu assms(4) by (simp add: rt_mb_send_wait_def)
  qed
qed

lemma rt_mb_recv_spec:
  assumes "kinv s" "can_wait s t" "wait_time timeout" "mb_wf (mailboxes s a)"
    and "obj_flag (ObjMb a) s = RT_IPC_FLAG_FIFO \<or> obj_flag (ObjMb a) s = RT_IPC_FLAG_PRIO"
  shows "\<exists>r s'. rt_mb_recv a timeout s = Some (r, s') \<and> kinv s' \<and> mb_wf (mailboxes s' a) \<and>
    (case mb_items (mailboxes s a) of
       v # vs \<Rightarrow> r = Returns (RT_EOK, Some v) \<and> mb_items (mailboxes s' a) = vs \<and>
       (case tlists s (MbSendQ a) of [] \<Rightarrow> s' = mb_at a (\<lambda>m. snd (mb_get m)) s
        | u # us \<Rightarrow> woken (MbSendQ a) u (mb_at a (\<lambda>m. snd (mb_get m)) s) s')
     | [] \<Rightarrow> if timeout = 0 then r = Returns (- RT_ETIMEOUT, None) \<and> s' = s
       else r = Waits \<and> waits_on (MbRecvQ a) t (obj_flag (ObjMb a) s) timeout
            (InMbRecv a timeout (wait_start timeout 0 s)) (no_error t s) s s')"
proof -
  have c: "rt_current_thread s = Some t" using assms(2) by (simp add: can_wait_def)
  have em: "mb_entry (mailboxes s a) = 0 \<longleftrightarrow> mb_items (mailboxes s a) = []"
    by (simp add: length_0_conv [symmetric] word_unat_eq_iff del: length_0_conv)
  consider (some) "mb_entry (mailboxes s a) \<noteq> 0"
    | (empty) "mb_entry (mailboxes s a) = 0" "timeout = 0"
    | (wait) "mb_entry (mailboxes s a) = 0" "timeout \<noteq> 0" by blast
  then show ?thesis
  proof cases
    case some
    note b = mb_get_spec [OF assms(4) some]
    from mb_recv_loop_some [OF assms(1) c some, of timeout 0]
    obtain s' where "mb_recv_loop a timeout 0 s = Some (Returns (RT_EOK, Some (fst (mb_get (mailboxes s a)))), s')" "kinv s'"
      "mailboxes s' = (mailboxes s)(a := snd (mb_get (mailboxes s a)))"
      "case tlists s (MbSendQ a) of [] \<Rightarrow> s' = mb_at a (\<lambda>m. snd (mb_get m)) s
        | u # us \<Rightarrow> woken (MbSendQ a) u (mb_at a (\<lambda>m. snd (mb_get m)) s) s'" by blast
    then show ?thesis using some b by (simp add: rt_mb_recv_def)
  next
    case empty
    then show ?thesis using assms em by (simp add: rt_mb_recv_def)
  next
    case wait
    from mb_recv_loop_empty [OF assms(1-3) wait(2) assms(5) wait(1)]
    obtain s' where b: "mb_recv_loop a timeout 0 s = Some (Waits, s')"
      "waits_on (MbRecvQ a) t (obj_flag (ObjMb a) s) timeout (InMbRecv a timeout (wait_start timeout 0 s))
        (no_error t s) s s'" by blast
    then have "kinv s'" "mailboxes s' = mailboxes s" by (simp_all add: waits_on_def kframe_def)
    then show ?thesis using b wait em assms(4) by (simp add: rt_mb_recv_def)
  qed
qed


subsection \<open>The mailbox as a channel\<close>

definition mb_inv :: "nat \<Rightarrow> kstate \<Rightarrow> bool" where
  "mb_inv a s \<longleftrightarrow> kinv s \<and> rt_current_thread s \<noteq> None \<and> mb_wf (mailboxes s a)"

definition mb_try_send :: "nat \<Rightarrow> u32 \<Rightarrow> kstate \<Rightarrow> (bool \<times> kstate) option" where
  "mb_try_send a v s =
     (case rt_mb_send a v s of Some (Returns e, s') \<Rightarrow> Some (e = RT_EOK, s') | _ \<Rightarrow> None)"

definition mb_try_recv :: "nat \<Rightarrow> kstate \<Rightarrow> (u32 option \<times> kstate) option" where
  "mb_try_recv a s =
     (case rt_mb_recv a 0 s of Some (Returns (e, r), s') \<Rightarrow> Some (r, s') | _ \<Rightarrow> None)"

lemma mb_try_send_law:
  assumes "mb_inv a s"
  shows "\<exists>s'. mb_try_send a v s =
      Some (length (mb_items (mailboxes s a)) < unat (mb_size (mailboxes s a)), s') \<and>
    mb_inv a s' \<and> mb_size (mailboxes s' a) = mb_size (mailboxes s a) \<and>
    mb_items (mailboxes s' a) = (if length (mb_items (mailboxes s a)) < unat (mb_size (mailboxes s a))
      then mb_items (mailboxes s a) @ [v] else mb_items (mailboxes s a))"
proof -
  obtain c where c: "rt_current_thread s = Some c" and i: "kinv s" "mb_wf (mailboxes s a)"
    using assms by (auto simp: mb_inv_def)
  have fu: "mb_entry (mailboxes s a) = mb_size (mailboxes s a) \<longleftrightarrow>
      \<not> length (mb_items (mailboxes s a)) < unat (mb_size (mailboxes s a))"
    using i(2) by (auto simp: mb_wf_def word_le_nat_alt word_unat_eq_iff)
  show ?thesis
  proof (cases "mb_entry (mailboxes s a) = mb_size (mailboxes s a)")
    case True
    then show ?thesis using fu assms by (simp add: mb_try_send_def rt_mb_send_def rt_mb_send_wait_def)
  next
    case False
    obtain s' where b: "mb_send_loop a v 0 0 s = Some (Returns RT_EOK, s')" "kinv s'"
      "mailboxes s' = (mailboxes s)(a := mb_put v (mailboxes s a))"
      "case tlists s (MbRecvQ a) of [] \<Rightarrow> s' = mb_at a (mb_put v) s
       | u # us \<Rightarrow> woken (MbRecvQ a) u (mb_at a (mb_put v) s) s'"
      using mb_send_loop_room [OF i(1) c False] by blast
    have "rt_current_thread s' \<noteq> None"
      using b(4) c woken_current by (fastforce split: list.splits)
    then show ?thesis using b(1-3) False fu mb_put_spec [OF i(2) False, of v]
      by (simp add: mb_try_send_def rt_mb_send_def rt_mb_send_wait_def mb_inv_def)
  qed
qed

lemma mb_try_recv_law:
  assumes "mb_inv a s"
  shows "\<exists>s'. mb_try_recv a s =
      Some (case mb_items (mailboxes s a) of [] \<Rightarrow> None | v # _ \<Rightarrow> Some v, s') \<and>
    mb_inv a s' \<and> mb_size (mailboxes s' a) = mb_size (mailboxes s a) \<and>
    mb_items (mailboxes s' a) = tl (mb_items (mailboxes s a))"
proof -
  obtain c where c: "rt_current_thread s = Some c" and i: "kinv s" "mb_wf (mailboxes s a)"
    using assms by (auto simp: mb_inv_def)
  have em: "mb_entry (mailboxes s a) = 0 \<longleftrightarrow> mb_items (mailboxes s a) = []"
    by (simp add: length_0_conv [symmetric] word_unat_eq_iff del: length_0_conv)
  show ?thesis
  proof (cases "mb_entry (mailboxes s a) = 0")
    case True
    then show ?thesis using em assms by (simp add: mb_try_recv_def rt_mb_recv_def)
  next
    case False
    obtain s' where b: "mb_recv_loop a 0 0 s = Some (Returns (RT_EOK, Some (fst (mb_get (mailboxes s a)))), s')" "kinv s'"
      "mailboxes s' = (mailboxes s)(a := snd (mb_get (mailboxes s a)))"
      "case tlists s (MbSendQ a) of [] \<Rightarrow> s' = mb_at a (\<lambda>m. snd (mb_get m)) s
        | u # us \<Rightarrow> woken (MbSendQ a) u (mb_at a (\<lambda>m. snd (mb_get m)) s) s'"
      using mb_recv_loop_some [OF i(1) c False] by blast
    have "rt_current_thread s' \<noteq> None"
      using b(4) c woken_current by (fastforce split: list.splits)
    then show ?thesis using b(1-3) False mb_get_spec [OF i(2) False]
      by (simp add: mb_try_recv_def rt_mb_recv_def mb_inv_def)
  qed
qed

interpretation mb: channel "mb_inv a" "\<lambda>s. mb_items (mailboxes s a)" "\<lambda>s. unat (mb_size (mailboxes s a))"
    "\<lambda>_ _. True" "mb_try_send a" "mb_try_recv a" for a
proof (unfold_locales, goal_cases)
  case (1 s v)
  then show ?case using mb_try_send_law [of a s v] by auto
next
  case (2 s)
  then show ?case using mb_try_recv_law [of a s] by auto
qed

subsection \<open>Properties\<close>

text \<open>
  \<open>rt_mb_send_wait\<close> appends the mail to those in the ring while there is room, which also makes
  the first waiting reader ready; a full ring gives \<open>-RT_EFULL\<close> at once if the caller does not
  wait, and otherwise the caller goes to the list of the senders with its mail kept for when it
  next runs.
\<close>

theorem rt_mb_send_correct:
  assumes "kinv s" "can_wait s t" "wait_time timeout" "mb_wf (mailboxes s a)"
    and "obj_flag (ObjMb a) s = RT_IPC_FLAG_FIFO \<or> obj_flag (ObjMb a) s = RT_IPC_FLAG_PRIO"
  shows "\<exists>r s'. rt_mb_send_wait a v timeout s = Some (r, s') \<and> kinv s' \<and> mb_wf (mailboxes s' a) \<and>
    (if length (mb_items (mailboxes s a)) < unat (mb_size (mailboxes s a))
     then r = Returns RT_EOK \<and> mb_items (mailboxes s' a) = mb_items (mailboxes s a) @ [v] \<and>
       (case tlists s (MbRecvQ a) of [] \<Rightarrow> s' = mb_at a (mb_put v) s
        | u # us \<Rightarrow> woken (MbRecvQ a) u (mb_at a (mb_put v) s) s')
     else if timeout = 0 then r = Returns (- RT_EFULL) \<and> s' = s
     else r = Waits \<and> waits_on (MbSendQ a) t (obj_flag (ObjMb a) s) timeout
            (InMbSend a v timeout (wait_start timeout 0 s)) (no_error t s) s s')"
  by (rule rt_mb_send_wait_spec [OF assms])

theorem rt_mb_send_correct_witness:
  "\<exists>r s'. rt_mb_send_wait 60 (9::u32) (5::u32) demo = Some (r, s') \<and> kinv s' \<and> mb_wf (mailboxes s' 60) \<and>
    (if length (mb_items (mailboxes demo 60)) < unat (mb_size (mailboxes demo 60))
     then r = Returns RT_EOK \<and> mb_items (mailboxes s' 60) = mb_items (mailboxes demo 60) @ [(9::u32)] \<and>
       (case tlists demo (MbRecvQ 60) of [] \<Rightarrow> s' = mb_at 60 (mb_put (9::u32)) demo
        | u # us \<Rightarrow> woken (MbRecvQ 60) u (mb_at 60 (mb_put (9::u32)) demo) s')
     else if (5::u32) = 0 then r = Returns (- RT_EFULL) \<and> s' = demo
     else r = Waits \<and> waits_on (MbSendQ 60) 3 (obj_flag (ObjMb 60) demo) (5::u32)
            (InMbSend 60 (9::u32) (5::u32) (wait_start (5::u32) 0 demo)) (no_error 3 demo) demo s')"
  by (rule rt_mb_send_correct [OF demo_kinv demo_can_wait]) (simp_all add: wait_time_def mb_wf_def)

text \<open>
  \<open>rt_mb_recv\<close> takes the oldest mail out of the ring, which also makes the first waiting sender
  ready; with no mail it gives \<open>-RT_ETIMEOUT\<close> at once if the caller does not wait, and otherwise
  the caller goes to the list of the readers.
\<close>

theorem rt_mb_recv_correct:
  assumes "kinv s" "can_wait s t" "wait_time timeout" "mb_wf (mailboxes s a)"
    and "obj_flag (ObjMb a) s = RT_IPC_FLAG_FIFO \<or> obj_flag (ObjMb a) s = RT_IPC_FLAG_PRIO"
  shows "\<exists>r s'. rt_mb_recv a timeout s = Some (r, s') \<and> kinv s' \<and> mb_wf (mailboxes s' a) \<and>
    (case mb_items (mailboxes s a) of
       v # vs \<Rightarrow> r = Returns (RT_EOK, Some v) \<and> mb_items (mailboxes s' a) = vs \<and>
       (case tlists s (MbSendQ a) of [] \<Rightarrow> s' = mb_at a (\<lambda>m. snd (mb_get m)) s
        | u # us \<Rightarrow> woken (MbSendQ a) u (mb_at a (\<lambda>m. snd (mb_get m)) s) s')
     | [] \<Rightarrow> if timeout = 0 then r = Returns (- RT_ETIMEOUT, None) \<and> s' = s
       else r = Waits \<and> waits_on (MbRecvQ a) t (obj_flag (ObjMb a) s) timeout
            (InMbRecv a timeout (wait_start timeout 0 s)) (no_error t s) s s')"
  by (rule rt_mb_recv_spec [OF assms])

theorem rt_mb_recv_correct_witness:
  "\<exists>r s'. rt_mb_recv 60 (5::u32) demo = Some (r, s') \<and> kinv s' \<and> mb_wf (mailboxes s' 60) \<and>
    (case mb_items (mailboxes demo 60) of
       v # vs \<Rightarrow> r = Returns (RT_EOK, Some v) \<and> mb_items (mailboxes s' 60) = vs \<and>
       (case tlists demo (MbSendQ 60) of [] \<Rightarrow> s' = mb_at 60 (\<lambda>m. snd (mb_get m)) demo
        | u # us \<Rightarrow> woken (MbSendQ 60) u (mb_at 60 (\<lambda>m. snd (mb_get m)) demo) s')
     | [] \<Rightarrow> if (5::u32) = 0 then r = Returns (- RT_ETIMEOUT, None) \<and> s' = demo
       else r = Waits \<and> waits_on (MbRecvQ 60) 3 (obj_flag (ObjMb 60) demo) (5::u32)
            (InMbRecv 60 (5::u32) (wait_start (5::u32) 0 demo)) (no_error 3 demo) demo s')"
  by (rule rt_mb_recv_correct [OF demo_kinv demo_can_wait]) (simp_all add: wait_time_def mb_wf_def)

text \<open>
  Property C12.
  Any sequence of sends and receives that do not wait returns, and does on the kernel what it
  does on a list of at most \<open>size\<close> words: no mail is lost, doubled or overtaken, whatever threads
  the calls wake and however often the offsets of the ring wrap around.
\<close>

theorem rt_mb_fifo:
  assumes "mb_inv a s"
  shows "\<exists>ins outs s'. channel_run (mb_try_send a) (mb_try_recv a) ops s = Some (ins, outs, s') \<and>
    mb_inv a s' \<and>
    bounded_run (unat (mb_size (mailboxes s a))) ops (mb_items (mailboxes s a)) =
      (ins, outs, mb_items (mailboxes s' a)) \<and>
    mb_items (mailboxes s a) @ ins = outs @ mb_items (mailboxes s' a)"
  using mb.run_fifo [OF assms, of ops] by simp

theorem rt_mb_fifo_witness:
  "\<exists>ins outs s'. channel_run (mb_try_send 60) (mb_try_recv 60) [Put 7, Put (8::u32), Get, Put 9] demo = Some (ins, outs, s') \<and>
    mb_inv 60 s' \<and>
    bounded_run (unat (mb_size (mailboxes demo 60))) [Put 7, Put (8::u32), Get, Put 9] (mb_items (mailboxes demo 60)) =
      (ins, outs, mb_items (mailboxes s' 60)) \<and>
    mb_items (mailboxes demo 60) @ ins = outs @ mb_items (mailboxes s' 60)"
  by (rule rt_mb_fifo) (simp add: mb_inv_def mb_wf_def)

end
