(* ===== verification/RtMq.thy ===== *)
theory RtMq
  imports RtIpc RtChannel
begin

text \<open>
  The message queues of \<^verbatim>\<open>src/ipc.c\<close>. The pool is an array of slots, each a link and
  \<open>msg_size\<close> bytes; a pointer into the pool is the index of its slot. The slots that hold a
  message are linked from \<open>msg_queue_head\<close> to \<open>msg_queue_tail\<close>, the others from
  \<open>msg_queue_free\<close>. A buffer of the caller is the list of its bytes.
\<close>

subsection \<open>Operations\<close>

text \<open>The loop that links all slots into the free list.\<close>

primrec mq_link_slots :: "nat \<Rightarrow> rt_messagequeue \<Rightarrow> rt_messagequeue" where
  "mq_link_slots 0 m = m"
| "mq_link_slots (Suc k) m =
     (let m = mq_link_slots k m
      in m\<lparr>mq_link := (mq_link m)(k := mq_msg_queue_free m), mq_msg_queue_free := Some k\<rparr>)"

definition mq_format :: "rt_messagequeue \<Rightarrow> rt_messagequeue" where
  "mq_format m =
     (let m1 = m\<lparr>mq_msg_queue_head := None, mq_msg_queue_tail := None, mq_msg_queue_free := None\<rparr>
      in (mq_link_slots (unat (mq_max_msgs m1)) m1)\<lparr>mq_entry := 0\<rparr>)"

definition rt_mq_init ::
  "nat \<Rightarrow> u8 list \<Rightarrow> nat \<Rightarrow> u32 \<Rightarrow> u32 \<Rightarrow> u8 \<Rightarrow> kstate \<Rightarrow> (rt_err_t \<times> kstate) option" where
  "rt_mq_init a name msgpool msg_sz pool_sz flag s =
     do {
       s1 \<leftarrow> rt_object_init (ObjMq a) name s;
       let s2 = rt_ipc_object_init (MqQ a) (set_obj_flag (ObjMq a) flag s1);
       let s3 = mq_at a (\<lambda>m. m\<lparr>mq_msg_pool := msgpool, mq_msg_size := ucast (RT_ALIGN msg_sz RT_ALIGN_SIZE)\<rparr>) s2;
       let s4 = mq_at a (\<lambda>m. m\<lparr>mq_max_msgs := ucast (pool_sz div (ucast (mq_msg_size m) + 4))\<rparr>) s3;
       Some (RT_EOK, mq_at a mq_format s4) }"

definition rt_mq_detach :: "nat \<Rightarrow> kstate \<Rightarrow> (rt_err_t \<times> kstate) option" where
  "rt_mq_detach a s =
     do {
       s1 \<leftarrow> rt_ipc_list_resume_all (MqQ a) s;
       Some (RT_EOK, rt_object_detach (ObjMq a) s1) }"

definition rt_mq_delete_pool :: "nat \<Rightarrow> nat option \<Rightarrow> kstate \<Rightarrow> (rt_err_t \<times> kstate) option" where
  "rt_mq_delete_pool a pool s =
     RT_DEBUG_NOT_IN_INTERRUPT s
       (do {
          s1 \<leftarrow> rt_ipc_list_resume_all (MqQ a) s;
          s2 \<leftarrow> k_free pool s1;
          s3 \<leftarrow> rt_object_delete (ObjMq a) s2;
          Some (RT_EOK, s3) })"

definition rt_mq_delete :: "nat \<Rightarrow> kstate \<Rightarrow> (rt_err_t \<times> kstate) option" where
  "rt_mq_delete a s = rt_mq_delete_pool a (Some (mq_msg_pool (messagequeues s a))) s"

definition rt_mq_create ::
  "u8 list \<Rightarrow> u32 \<Rightarrow> u32 \<Rightarrow> u8 \<Rightarrow> kstate \<Rightarrow> (nat option \<times> kstate) option" where
  "rt_mq_create name msg_sz max_msgs flag s =
     RT_DEBUG_NOT_IN_INTERRUPT s
       (do {
          (r, s1) \<leftarrow> rt_object_allocate ObjMq name s;
          (case r of
             None \<Rightarrow> Some (None, s1)
           | Some a \<Rightarrow> do {
               let s2 = rt_ipc_object_init (MqQ a) (set_obj_flag (ObjMq a) flag s1);
               let s3 = mq_at a (\<lambda>m. m\<lparr>mq_msg_size := ucast (RT_ALIGN msg_sz RT_ALIGN_SIZE),
                                       mq_max_msgs := ucast max_msgs\<rparr>) s2;
               let m = messagequeues s3 a;
               (p, s4) \<leftarrow> k_malloc ((ucast (mq_msg_size m) + 4) * ucast (mq_max_msgs m)) s3;
               (case p of
                  None \<Rightarrow> do { (_, s5) \<leftarrow> rt_mq_delete_pool a None s4; Some (None, s5) }
                | Some pool \<Rightarrow>
                    Some (Some a, mq_at a mq_format (mq_at a (\<lambda>m. m\<lparr>mq_msg_pool := pool\<rparr>) s4))) }) })"

text \<open>The parts of \<open>rt_mq_send\<close> and \<open>rt_mq_urgent\<close>: a slot is taken from the free list, filled,
  and linked at one end of the queue. The copy reads \<open>size\<close> bytes of the buffer.\<close>

definition mq_take_slot :: "rt_messagequeue \<Rightarrow> (nat \<times> rt_messagequeue) option" where
  "mq_take_slot m =
     (case mq_msg_queue_free m of
        None \<Rightarrow> None
      | Some i \<Rightarrow> Some (i, m\<lparr>mq_msg_queue_free := mq_link m i\<rparr>))"

definition mq_fill_slot :: "nat \<Rightarrow> u8 list \<Rightarrow> nat \<Rightarrow> rt_messagequeue \<Rightarrow> rt_messagequeue" where
  "mq_fill_slot i buffer sz m =
     m\<lparr>mq_data := (mq_data m)(i := (\<lambda>j. if j < sz then buffer ! j else mq_data m i j))\<rparr>"

definition mq_link_last :: "nat \<Rightarrow> rt_messagequeue \<Rightarrow> rt_messagequeue" where
  "mq_link_last i m =
     (let m1 = (case mq_msg_queue_tail m of
                  Some j \<Rightarrow> m\<lparr>mq_link := (mq_link m)(j := Some i)\<rparr>
                | None \<Rightarrow> m);
          m2 = m1\<lparr>mq_msg_queue_tail := Some i\<rparr>;
          m3 = (if mq_msg_queue_head m2 = None then m2\<lparr>mq_msg_queue_head := Some i\<rparr> else m2)
      in m3\<lparr>mq_entry := mq_entry m3 + 1\<rparr>)"

definition mq_link_first :: "nat \<Rightarrow> rt_messagequeue \<Rightarrow> rt_messagequeue" where
  "mq_link_first i m =
     (let m1 = m\<lparr>mq_link := (mq_link m)(i := mq_msg_queue_head m), mq_msg_queue_head := Some i\<rparr>;
          m2 = (if mq_msg_queue_tail m1 = None then m1\<lparr>mq_msg_queue_tail := Some i\<rparr> else m1)
      in m2\<lparr>mq_entry := mq_entry m2 + 1\<rparr>)"

definition mq_wake_reader :: "nat \<Rightarrow> kstate \<Rightarrow> (rt_err_t \<times> kstate) option" where
  "mq_wake_reader a s =
     (if tlists s (MqQ a) \<noteq> []
      then do {
        s1 \<leftarrow> rt_ipc_list_resume (MqQ a) s;
        s2 \<leftarrow> rt_schedule s1;
        Some (RT_EOK, s2) }
      else Some (RT_EOK, s))"

definition rt_mq_send :: "nat \<Rightarrow> u8 list \<Rightarrow> u32 \<Rightarrow> kstate \<Rightarrow> (rt_err_t \<times> kstate) option" where
  "rt_mq_send a buffer sz s =
     RT_ASSERT (sz \<noteq> 0)
       (if sz > ucast (mq_msg_size (messagequeues s a)) then Some (- RT_ERROR, s)
        else (case mq_take_slot (messagequeues s a) of
                None \<Rightarrow> Some (- RT_EFULL, s)
              | Some (i, m) \<Rightarrow>
                  if unat sz \<le> length buffer
                  then let m1 = m\<lparr>mq_link := (mq_link m)(i := None)\<rparr>;
                           m2 = mq_fill_slot i buffer (unat sz) m1
                       in mq_wake_reader a (mq_at a (\<lambda>_. mq_link_last i m2) s)
                  else None))"

definition rt_mq_urgent :: "nat \<Rightarrow> u8 list \<Rightarrow> u32 \<Rightarrow> kstate \<Rightarrow> (rt_err_t \<times> kstate) option" where
  "rt_mq_urgent a buffer sz s =
     RT_ASSERT (sz \<noteq> 0)
       (if sz > ucast (mq_msg_size (messagequeues s a)) then Some (- RT_ERROR, s)
        else (case mq_take_slot (messagequeues s a) of
                None \<Rightarrow> Some (- RT_EFULL, s)
              | Some (i, m) \<Rightarrow>
                  if unat sz \<le> length buffer
                  then mq_wake_reader a
                         (mq_at a (\<lambda>_. mq_link_first i (mq_fill_slot i buffer (unat sz) m)) s)
                  else None))"

text \<open>The end of \<open>rt_mq_recv\<close>: the first message leaves the queue, its bytes are copied, and its
  slot goes back to the free list.\<close>

definition mq_unlink_first :: "rt_messagequeue \<Rightarrow> (nat \<times> rt_messagequeue) option" where
  "mq_unlink_first m =
     do {
       i \<leftarrow> mq_msg_queue_head m;
       let m1 = m\<lparr>mq_msg_queue_head := mq_link m i\<rparr>;
       let m2 = (if mq_msg_queue_tail m1 = Some i then m1\<lparr>mq_msg_queue_tail := None\<rparr> else m1);
       Some (i, m2) }"

definition mq_free_slot :: "nat \<Rightarrow> rt_messagequeue \<Rightarrow> rt_messagequeue" where
  "mq_free_slot i m = m\<lparr>mq_link := (mq_link m)(i := mq_msg_queue_free m), mq_msg_queue_free := Some i\<rparr>"

definition mq_bytes :: "rt_messagequeue \<Rightarrow> nat \<Rightarrow> nat \<Rightarrow> u8 list" where
  "mq_bytes m i n = map (mq_data m i) [0..<n]"

definition mq_recv_loop ::
  "nat \<Rightarrow> u32 \<Rightarrow> u32 \<Rightarrow> u32 \<Rightarrow> kstate \<Rightarrow> ((rt_err_t \<times> u8 list) call \<times> kstate) option" where
  "mq_recv_loop a sz timeout tick_delta s =
     (if mq_entry (messagequeues s a) = 0
      then RT_DEBUG_IN_THREAD_CONTEXT s
        (do {
           t \<leftarrow> rt_thread_self s;
           let s1 = thread_at t (t_error_update (\<lambda>_. RT_EOK)) s;
           if timeout = 0
           then Some (Returns (- RT_ETIMEOUT, []), thread_at t (t_error_update (\<lambda>_. - RT_ETIMEOUT)) s1)
           else do {
             let tick_delta = (if 0 < sint timeout then rt_tick s1 else tick_delta);
             s2 \<leftarrow> ipc_wait (MqQ a) t (obj_flag (ObjMq a) s1) timeout s1;
             s3 \<leftarrow> rt_schedule
               (s2\<lparr>frames := (frames s2)(t := Some (InMqRecv a sz timeout tick_delta))\<rparr>);
             Some (Waits, s3) } })
      else do {
        (i, m1) \<leftarrow> mq_unlink_first (messagequeues s a);
        let m2 = m1\<lparr>mq_entry := mq_entry m1 - 1\<rparr>;
        let bytes = mq_bytes m2 i (unat (if sz > ucast (mq_msg_size m2) then ucast (mq_msg_size m2) else sz));
        Some (Returns (RT_EOK, bytes), mq_at a (\<lambda>_. mq_free_slot i m2) s) })"

definition rt_mq_recv ::
  "nat \<Rightarrow> u32 \<Rightarrow> u32 \<Rightarrow> kstate \<Rightarrow> ((rt_err_t \<times> u8 list) call \<times> kstate) option" where
  "rt_mq_recv a sz timeout s =
     RT_ASSERT (sz \<noteq> 0)
       (if mq_entry (messagequeues s a) = 0 \<and> timeout = 0
        then Some (Returns (- RT_ETIMEOUT, []), s)
        else mq_recv_loop a sz timeout 0 s)"

definition rt_mq_recv_wake ::
  "nat \<Rightarrow> nat \<Rightarrow> u32 \<Rightarrow> u32 \<Rightarrow> u32 \<Rightarrow> kstate \<Rightarrow> ((rt_err_t \<times> u8 list) call \<times> kstate) option" where
  "rt_mq_recv_wake t a sz timeout tick_delta s =
     (let s1 = s\<lparr>frames := (frames s)(t := None)\<rparr>
      in if t_error (threads s1 t) \<noteq> RT_EOK then Some (Returns (t_error (threads s1 t), []), s1)
         else mq_recv_loop a sz (time_left timeout tick_delta s1) (elapsed timeout tick_delta s1) s1)"

text \<open>The loop of the reset, which moves every message to the free list.\<close>

partial_function (option) mq_drain :: "rt_messagequeue \<Rightarrow> rt_messagequeue option" where
  "mq_drain m =
     (if mq_msg_queue_head m = None then Some m
      else do { (i, m1) \<leftarrow> mq_unlink_first m; mq_drain (mq_free_slot i m1) })"

definition rt_mq_control :: "nat \<Rightarrow> u8 \<Rightarrow> u32 \<Rightarrow> kstate \<Rightarrow> (rt_err_t \<times> kstate) option" where
  "rt_mq_control a cmd arg s =
     (if cmd = RT_IPC_CMD_RESET
      then do {
        s1 \<leftarrow> rt_ipc_list_resume_all (MqQ a) s;
        m \<leftarrow> mq_drain (messagequeues s1 a);
        s2 \<leftarrow> rt_schedule (mq_at a (\<lambda>_. m\<lparr>mq_entry := 0\<rparr>) s1);
        Some (RT_EOK, s2) }
      else Some (- RT_ERROR, s))"

subsection \<open>The slots\<close>

text \<open>The slots on a list that starts at \<open>h\<close> and follows the links.\<close>

primrec mq_chain :: "(nat \<Rightarrow> nat option) \<Rightarrow> nat option \<Rightarrow> nat list \<Rightarrow> bool" where
  "mq_chain lk h [] \<longleftrightarrow> h = None"
| "mq_chain lk h (i # is) \<longleftrightarrow> h = Some i \<and> mq_chain lk (lk i) is"

primrec mq_walk :: "(nat \<Rightarrow> nat option) \<Rightarrow> nat option \<Rightarrow> nat \<Rightarrow> nat list" where
  "mq_walk lk h 0 = []"
| "mq_walk lk h (Suc n) = (case h of None \<Rightarrow> [] | Some i \<Rightarrow> i # mq_walk lk (lk i) n)"

lemma mq_walk_chain: "mq_chain lk h is \<Longrightarrow> mq_walk lk h (length is) = is"
  by (induction "is" arbitrary: h) auto

lemma mq_chain_other [simp]: "i \<notin> set is \<Longrightarrow> mq_chain (lk(i := x)) h is = mq_chain lk h is"
  by (induction "is" arbitrary: h) auto

lemma mq_chain_snoc:
  "mq_chain lk h (is @ [j]) \<Longrightarrow> i \<notin> set (is @ [j]) \<Longrightarrow> j \<notin> set is \<Longrightarrow> lk i = None \<Longrightarrow>
   mq_chain (lk(j := Some i)) h (is @ [j, i])"
  by (induction "is" arbitrary: h) auto

text \<open>Every slot is on one of the two lists: a message in the first, free in the second.\<close>

definition mq_shape :: "rt_messagequeue \<Rightarrow> nat list \<Rightarrow> nat list \<Rightarrow> bool" where
  "mq_shape m used free \<longleftrightarrow>
     mq_chain (mq_link m) (mq_msg_queue_head m) used \<and> mq_chain (mq_link m) (mq_msg_queue_free m) free \<and>
     distinct (used @ free) \<and> set (used @ free) = {..<unat (mq_max_msgs m)} \<and>
     mq_msg_queue_tail m = (if used = [] then None else Some (last used)) \<and>
     unat (mq_entry m) = length used"

definition mq_wf :: "rt_messagequeue \<Rightarrow> bool" where
  "mq_wf m \<longleftrightarrow> (\<exists>used free. mq_shape m used free)"

definition mq_slots :: "rt_messagequeue \<Rightarrow> nat list" where
  "mq_slots m = mq_walk (mq_link m) (mq_msg_queue_head m) (unat (mq_entry m))"

definition mq_items :: "rt_messagequeue \<Rightarrow> u8 list list" where
  "mq_items m = map (\<lambda>i. mq_bytes m i (unat (mq_msg_size m))) (mq_slots m)"

lemma mq_shape_slots: "mq_shape m used free \<Longrightarrow> mq_slots m = used"
  unfolding mq_shape_def mq_slots_def by (metis mq_walk_chain)

lemma mq_shape_count:
  assumes "mq_shape m used free" shows "length used + length free = unat (mq_max_msgs m)"
  using assms distinct_card [of "used @ free"] by (simp add: mq_shape_def)

lemma mq_bytes_length [simp]: "length (mq_bytes m i n) = n"
  by (simp add: mq_bytes_def)

lemma unat_mq_entry_Suc:
  assumes "mq_shape m used (i # free)" shows "unat (mq_entry m + 1) = Suc (length used)"
proof -
  have "Suc (unat (mq_entry m)) \<le> unat (mq_max_msgs m)"
    using mq_shape_count [OF assms] assms by (simp add: mq_shape_def)
  then have "Suc (unat (mq_entry m)) < 2 ^ 16"
    using unsigned_less [of "mq_max_msgs m", where ?'a = nat] by simp
  then show ?thesis using assms by (simp add: unat_word_ariths mq_shape_def)
qed

definition mq_put_last :: "nat \<Rightarrow> u8 list \<Rightarrow> nat \<Rightarrow> rt_messagequeue \<Rightarrow> rt_messagequeue" where
  "mq_put_last i buffer n m =
     mq_link_last i (mq_fill_slot i buffer n (m\<lparr>mq_msg_queue_free := mq_link m i, mq_link := (mq_link m)(i := None)\<rparr>))"

definition mq_put_first :: "nat \<Rightarrow> u8 list \<Rightarrow> nat \<Rightarrow> rt_messagequeue \<Rightarrow> rt_messagequeue" where
  "mq_put_first i buffer n m = mq_link_first i (mq_fill_slot i buffer n (m\<lparr>mq_msg_queue_free := mq_link m i\<rparr>))"

text \<open>The message that a buffer leaves in a slot: its bytes, then what the slot held.\<close>

definition mq_message :: "rt_messagequeue \<Rightarrow> nat \<Rightarrow> u8 list \<Rightarrow> nat \<Rightarrow> u8 list" where
  "mq_message m i buffer n = take n buffer @ drop n (mq_bytes m i (unat (mq_msg_size m)))"

lemma mq_put_last_shape:
  assumes "mq_shape m used (i # free)"
  shows "mq_shape (mq_put_last i buffer n m) (used @ [i]) free"
proof -
  have d: "i \<notin> set used" "i \<notin> set free" "distinct used" "distinct free" "set used \<inter> set free = {}"
    "set (used @ i # free) = {..<unat (mq_max_msgs m)}"
    using assms by (auto simp: mq_shape_def)
  have c: "mq_chain (mq_link m) (mq_msg_queue_head m) used" "mq_chain (mq_link m) (mq_link m i) free"
    and t: "mq_msg_queue_tail m = (if used = [] then None else Some (last used))"
    using assms by (auto simp: mq_shape_def)
  note e = unat_mq_entry_Suc [OF assms]
  show ?thesis
  proof (cases used rule: rev_cases)
    case Nil
    then show ?thesis using d c t e
      by (auto simp: mq_shape_def mq_put_last_def mq_link_last_def mq_fill_slot_def Let_def)
  next
    case (snoc us j)
    have "mq_chain ((mq_link m)(i := None, j := Some i)) (mq_msg_queue_head m) (us @ [j, i])"
      using c(1) d snoc by (intro mq_chain_snoc) auto
    moreover have "mq_chain ((mq_link m)(i := None, j := Some i)) (mq_link m i) free"
      using c(2) d snoc by auto
    moreover have "mq_msg_queue_head m \<noteq> None" using c(1) snoc by (cases us) auto
    ultimately show ?thesis using d t e snoc
      by (auto simp: mq_shape_def mq_put_last_def mq_link_last_def mq_fill_slot_def Let_def)
  qed
qed

lemma mq_put_first_shape:
  assumes "mq_shape m used (i # free)"
  shows "mq_shape (mq_put_first i buffer n m) (i # used) free"
proof -
  have d: "i \<notin> set used" "i \<notin> set free" "distinct used" "distinct free" "set used \<inter> set free = {}"
    "set (used @ i # free) = {..<unat (mq_max_msgs m)}"
    using assms by (auto simp: mq_shape_def)
  have c: "mq_chain (mq_link m) (mq_msg_queue_head m) used" "mq_chain (mq_link m) (mq_link m i) free"
    and t: "mq_msg_queue_tail m = (if used = [] then None else Some (last used))"
    using assms by (auto simp: mq_shape_def)
  note e = unat_mq_entry_Suc [OF assms]
  show ?thesis using d c t e
    by (auto simp: mq_shape_def mq_put_first_def mq_link_first_def mq_fill_slot_def Let_def)
qed

lemma mq_put_fields [simp]:
  "mq_msg_size (mq_put_last i buffer n m) = mq_msg_size m" "mq_max_msgs (mq_put_last i buffer n m) = mq_max_msgs m"
  "mq_data (mq_put_last i buffer n m) = (mq_data m)(i := (\<lambda>j. if j < n then buffer ! j else mq_data m i j))"
  "mq_msg_size (mq_put_first i buffer n m) = mq_msg_size m" "mq_max_msgs (mq_put_first i buffer n m) = mq_max_msgs m"
  "mq_data (mq_put_first i buffer n m) = (mq_data m)(i := (\<lambda>j. if j < n then buffer ! j else mq_data m i j))"
  by (simp_all add: mq_put_last_def mq_put_first_def mq_link_last_def mq_link_first_def mq_fill_slot_def Let_def
      split: option.splits cong: if_cong)

lemma mq_message_bytes:
  assumes "n \<le> length buffer" "n \<le> unat (mq_msg_size m)"
    "mq_data m' = (mq_data m)(i := (\<lambda>j. if j < n then buffer ! j else mq_data m i j))"
  shows "mq_bytes m' i (unat (mq_msg_size m)) = mq_message m i buffer n"
  using assms by (auto simp: mq_bytes_def mq_message_def list_eq_iff_nth_eq nth_append)

lemma mq_bytes_other:
  "mq_data m' k = mq_data m k \<Longrightarrow> mq_bytes m' k n = mq_bytes m k n"
  by (simp add: mq_bytes_def)

lemma mq_put_last_spec:
  assumes "mq_shape m used (i # free)" "n \<le> length buffer" "n \<le> unat (mq_msg_size m)"
  shows "mq_wf (mq_put_last i buffer n m)"
    "mq_items (mq_put_last i buffer n m) = mq_items m @ [mq_message m i buffer n]"
proof -
  note s = mq_put_last_shape [OF assms(1), of buffer n]
  show "mq_wf (mq_put_last i buffer n m)" using s by (auto simp: mq_wf_def)
  have other: "mq_bytes (mq_put_last i buffer n m) k l = mq_bytes m k l" if "k \<noteq> i" for k l
    using that by (intro mq_bytes_other) simp
  have "i \<notin> set used" using assms(1) by (simp add: mq_shape_def)
  then show "mq_items (mq_put_last i buffer n m) = mq_items m @ [mq_message m i buffer n]"
    using mq_message_bytes [OF assms(2,3), of "mq_put_last i buffer n m" i]
    by (auto simp: mq_items_def mq_shape_slots [OF s] mq_shape_slots [OF assms(1)] intro!: other)
qed

lemma mq_put_first_spec:
  assumes "mq_shape m used (i # free)" "n \<le> length buffer" "n \<le> unat (mq_msg_size m)"
  shows "mq_wf (mq_put_first i buffer n m)"
    "mq_items (mq_put_first i buffer n m) = mq_message m i buffer n # mq_items m"
proof -
  note s = mq_put_first_shape [OF assms(1), of buffer n]
  show "mq_wf (mq_put_first i buffer n m)" using s by (auto simp: mq_wf_def)
  have other: "mq_bytes (mq_put_first i buffer n m) k l = mq_bytes m k l" if "k \<noteq> i" for k l
    using that by (intro mq_bytes_other) simp
  have "i \<notin> set used" using assms(1) by (simp add: mq_shape_def)
  then show "mq_items (mq_put_first i buffer n m) = mq_message m i buffer n # mq_items m"
    using mq_message_bytes [OF assms(2,3), of "mq_put_first i buffer n m" i]
    by (auto simp: mq_items_def mq_shape_slots [OF s] mq_shape_slots [OF assms(1)] intro!: other)
qed

text \<open>The first message leaves, and its slot becomes the first free one.\<close>

lemma mq_unlink_first_spec:
  assumes "mq_shape m (i # used) free"
  obtains m1 where "mq_unlink_first m = Some (i, m1)" "mq_data m1 = mq_data m" "mq_msg_size m1 = mq_msg_size m"
    "mq_max_msgs m1 = mq_max_msgs m" "mq_entry m1 = mq_entry m"
    "mq_shape (mq_free_slot i (m1\<lparr>mq_entry := mq_entry m1 - 1\<rparr>)) used (i # free)"
proof -
  have d: "i \<notin> set used" "i \<notin> set free" "distinct used" "distinct free" "set used \<inter> set free = {}"
    "insert i (set used \<union> set free) = {..<unat (mq_max_msgs m)}"
    using assms by (auto simp: mq_shape_def)
  have c: "mq_msg_queue_head m = Some i" "mq_chain (mq_link m) (mq_link m i) used"
      "mq_chain (mq_link m) (mq_msg_queue_free m) free"
    and t: "mq_msg_queue_tail m = Some (last (i # used))"
    and e: "unat (mq_entry m) = Suc (length used)"
    using assms by (auto simp: mq_shape_def)
  have "mq_entry m \<noteq> 0" using e by auto
  then have e1: "unat (mq_entry m - 1) = length used" using e by (simp add: unat_minus_one)
  have l: "used \<noteq> [] \<Longrightarrow> last used \<noteq> i" using d(1) last_in_set [of used] by auto
  show thesis
    by (rule that, simp add: mq_unlink_first_def c(1) Let_def)
      (use c d t e1 l in \<open>auto simp: mq_shape_def mq_free_slot_def\<close>)
qed


lemma kinv_mq_at [simp]: "kinv (s\<lparr>messagequeues := m\<rparr>) = kinv s"
  by (simp add: kinv_def stacks_ok_def)

subsection \<open>What the operations do\<close>

lemma mq_wake_reader_spec:
  assumes "kinv s" "rt_current_thread s = Some c"
  shows "\<exists>s'. mq_wake_reader a s = Some (RT_EOK, s') \<and> kinv s' \<and> messagequeues s' = messagequeues s \<and>
    (case tlists s (MqQ a) of [] \<Rightarrow> s' = s | u # us \<Rightarrow> woken (MqQ a) u s s')"
proof (cases "tlists s (MqQ a)")
  case Nil
  then show ?thesis using assms by (simp add: mq_wake_reader_def)
next
  case (Cons u us)
  obtain s1 s' where b: "rt_ipc_list_resume (MqQ a) s = Some s1" "rt_schedule s1 = Some s'"
    "woken (MqQ a) u s s'"
    using ipc_resume [OF assms _ Cons] by auto
  then show ?thesis using Cons wokenD(1,2) [OF b(3)] by (simp add: mq_wake_reader_def kframe_def)
qed

text \<open>What sending does, at either end: \<open>place\<close> says where the message goes.\<close>

definition mq_sent :: "nat \<Rightarrow> u8 list \<Rightarrow> u32 \<Rightarrow> (u8 list \<Rightarrow> u8 list list \<Rightarrow> u8 list list) \<Rightarrow>
    kstate \<Rightarrow> rt_err_t \<Rightarrow> kstate \<Rightarrow> bool" where
  "mq_sent a buffer sz place s r s' \<longleftrightarrow> kinv s' \<and> mq_wf (messagequeues s' a) \<and>
    (if unat (mq_msg_size (messagequeues s a)) < unat sz then r = - RT_ERROR \<and> s' = s
     else if length (mq_items (messagequeues s a)) = unat (mq_max_msgs (messagequeues s a))
     then r = - RT_EFULL \<and> s' = s
     else r = RT_EOK \<and> mq_msg_size (messagequeues s' a) = mq_msg_size (messagequeues s a) \<and>
       mq_max_msgs (messagequeues s' a) = mq_max_msgs (messagequeues s a) \<and>
       (\<exists>msg. length msg = unat (mq_msg_size (messagequeues s a)) \<and>
         take (unat sz) msg = take (unat sz) buffer \<and>
         mq_items (messagequeues s' a) = place msg (mq_items (messagequeues s a))) \<and>
       (let s1 = s\<lparr>messagequeues := messagequeues s'\<rparr> in
        case tlists s (MqQ a) of [] \<Rightarrow> s' = s1 | u # us \<Rightarrow> woken (MqQ a) u s1 s') \<and>
       (\<forall>a'. a' \<noteq> a \<longrightarrow> messagequeues s' a' = messagequeues s a') \<and> rt_current_thread s' \<noteq> None)"

lemma ucast_le_iff: "ucast (w :: u16) < (sz :: u32) \<longleftrightarrow> unat w < unat sz"
  using unsigned_less [of w, where ?'a = nat] by (simp add: word_less_nat_alt unsigned_ucast_eq take_bit_eq_mod)

lemma mq_send_cases:
  assumes inv: "kinv s" "rt_current_thread s = Some c" and wf: "mq_wf (messagequeues s a)"
    and n: "unat sz \<le> length buffer"
    and f: "\<And>used i free. mq_shape (messagequeues s a) used (i # free) \<Longrightarrow> unat sz \<le> unat (mq_msg_size (messagequeues s a)) \<Longrightarrow>
      mq_wf (f i) \<and> mq_items (f i) = place (mq_message (messagequeues s a) i buffer (unat sz)) (mq_items (messagequeues s a)) \<and>
      mq_msg_size (f i) = mq_msg_size (messagequeues s a) \<and> mq_max_msgs (f i) = mq_max_msgs (messagequeues s a)"
  shows "\<exists>r s'. (if sz > ucast (mq_msg_size (messagequeues s a)) then Some (- RT_ERROR, s)
      else (case mq_msg_queue_free (messagequeues s a) of None \<Rightarrow> Some (- RT_EFULL, s)
            | Some i \<Rightarrow> mq_wake_reader a (mq_at a (\<lambda>_. f i) s))) = Some (r, s') \<and>
    mq_sent a buffer sz place s r s'"
proof -
  let ?m = "messagequeues s a"
  obtain used free where sh: "mq_shape ?m used free" using wf by (auto simp: mq_wf_def)
  have cnt: "length used + length free = unat (mq_max_msgs ?m)" by (rule mq_shape_count [OF sh])
  have it: "length (mq_items ?m) = length used" by (simp add: mq_items_def mq_shape_slots [OF sh])
  have ch: "mq_chain (mq_link ?m) (mq_msg_queue_free ?m) free" using sh by (simp add: mq_shape_def)
  consider (big) "unat (mq_msg_size ?m) < unat sz"
    | (full) "unat sz \<le> unat (mq_msg_size ?m)" "free = []"
    | (room) i fr where "unat sz \<le> unat (mq_msg_size ?m)" "free = i # fr"
    by (cases free) force+
  then show ?thesis
  proof cases
    case big
    then show ?thesis using inv wf by (simp add: mq_sent_def ucast_le_iff)
  next
    case full
    then show ?thesis using inv wf ch cnt it by (simp add: mq_sent_def ucast_le_iff)
  next
    case room
    note F = f [OF sh [unfolded room(2)] room(1)]
    let ?s1 = "mq_at a (\<lambda>_. f i) s"
    have k: "kinv ?s1" "rt_current_thread ?s1 = Some c" using inv by simp_all
    obtain s' where w: "mq_wake_reader a ?s1 = Some (RT_EOK, s')" "kinv s'"
      "messagequeues s' = (messagequeues s)(a := f i)"
      "case tlists s (MqQ a) of [] \<Rightarrow> s' = ?s1 | u # us \<Rightarrow> woken (MqQ a) u ?s1 s'"
      using mq_wake_reader_spec [OF k, of a] by auto
    have cur: "rt_current_thread s' \<noteq> None"
      using w(4) inv(2) woken_current by (fastforce split: list.splits)
    have len: "length (mq_message ?m i buffer (unat sz)) = unat (mq_msg_size ?m)"
      "take (unat sz) (mq_message ?m i buffer (unat sz)) = take (unat sz) buffer"
      using n room(1) by (simp_all add: mq_message_def)
    have "mq_sent a buffer sz place s RT_EOK s'"
      unfolding mq_sent_def using w(2-4) F cur len room cnt it by (auto simp: Let_def)
    then show ?thesis using w(1) ch room by (simp add: ucast_le_iff)
  qed
qed

lemma rt_mq_send_spec:
  assumes "kinv s" "rt_current_thread s = Some c" "mq_wf (messagequeues s a)" "sz \<noteq> 0" "unat sz \<le> length buffer"
  shows "\<exists>r s'. rt_mq_send a buffer sz s = Some (r, s') \<and>
    mq_sent a buffer sz (\<lambda>msg msgs. msgs @ [msg]) s r s'"
proof -
  have e: "rt_mq_send a buffer sz s =
     (if sz > ucast (mq_msg_size (messagequeues s a)) then Some (- RT_ERROR, s)
      else (case mq_msg_queue_free (messagequeues s a) of None \<Rightarrow> Some (- RT_EFULL, s)
            | Some i \<Rightarrow> mq_wake_reader a (mq_at a (\<lambda>_. mq_put_last i buffer (unat sz) (messagequeues s a)) s)))"
    using assms(4,5) by (simp add: rt_mq_send_def mq_take_slot_def mq_put_last_def Let_def split: option.splits)
  show ?thesis unfolding e
    by (rule mq_send_cases [OF assms(1,2,3,5)]) (simp add: mq_put_last_spec assms(5))
qed

lemma rt_mq_urgent_spec:
  assumes "kinv s" "rt_current_thread s = Some c" "mq_wf (messagequeues s a)" "sz \<noteq> 0" "unat sz \<le> length buffer"
  shows "\<exists>r s'. rt_mq_urgent a buffer sz s = Some (r, s') \<and>
    mq_sent a buffer sz (\<lambda>msg msgs. msg # msgs) s r s'"
proof -
  have e: "rt_mq_urgent a buffer sz s =
     (if sz > ucast (mq_msg_size (messagequeues s a)) then Some (- RT_ERROR, s)
      else (case mq_msg_queue_free (messagequeues s a) of None \<Rightarrow> Some (- RT_EFULL, s)
            | Some i \<Rightarrow> mq_wake_reader a (mq_at a (\<lambda>_. mq_put_first i buffer (unat sz) (messagequeues s a)) s)))"
    using assms(4,5) by (simp add: rt_mq_urgent_def mq_take_slot_def mq_put_first_def Let_def split: option.splits)
  show ?thesis unfolding e
    by (rule mq_send_cases [OF assms(1,2,3,5)]) (simp add: mq_put_first_spec assms(5))
qed


lemma mq_recv_loop_some:
  assumes "mq_wf (messagequeues s a)" "mq_items (messagequeues s a) = msg # msgs"
  shows "\<exists>m. mq_recv_loop a sz timeout d s =
      Some (Returns (RT_EOK, take (unat sz) msg), mq_at a (\<lambda>_. m) s) \<and>
    mq_wf m \<and> mq_items m = msgs \<and> mq_msg_size m = mq_msg_size (messagequeues s a) \<and>
    mq_max_msgs m = mq_max_msgs (messagequeues s a)"
proof -
  let ?m = "messagequeues s a"
  obtain us free where sh: "mq_shape ?m us free" using assms(1) by (auto simp: mq_wf_def)
  then obtain i used where us: "us = i # used" using assms(2) mq_shape_slots [OF sh]
    by (cases us) (simp_all add: mq_items_def)
  have e: "mq_entry ?m \<noteq> 0" using sh us by (auto simp: mq_shape_def)
  obtain m1 where m1: "mq_unlink_first ?m = Some (i, m1)" "mq_data m1 = mq_data ?m" "mq_msg_size m1 = mq_msg_size ?m"
    "mq_max_msgs m1 = mq_max_msgs ?m" "mq_entry m1 = mq_entry ?m"
    "mq_shape (mq_free_slot i (m1\<lparr>mq_entry := mq_entry m1 - 1\<rparr>)) used (i # free)" (is "mq_shape ?m2 _ _")
    by (rule mq_unlink_first_spec [OF sh [unfolded us]])
  have byt: "mq_bytes ?m2 k n = mq_bytes ?m k n" "mq_bytes (m1\<lparr>mq_entry := x\<rparr>) k n = mq_bytes ?m k n" for k n x
    by (simp_all add: mq_bytes_def mq_free_slot_def m1(2))
  have f: "mq_msg_size ?m2 = mq_msg_size ?m" "mq_max_msgs ?m2 = mq_max_msgs ?m"
    by (simp_all add: mq_free_slot_def m1(3,4))
  have it: "mq_items ?m2 = msgs" "msg = mq_bytes ?m i (unat (mq_msg_size ?m))"
    using assms(2) by (simp_all add: mq_items_def mq_shape_slots [OF m1(6)] mq_shape_slots [OF sh] us byt f)
  have tk: "mq_bytes ?m i (unat (if sz > ucast (mq_msg_size ?m) then ucast (mq_msg_size ?m) else sz)) =
      take (unat sz) msg"
    using unsigned_less [of "mq_msg_size ?m", where ?'a = nat]
    by (simp add: it(2) mq_bytes_def take_map ucast_le_iff take_upt unsigned_ucast_eq take_bit_eq_mod not_less)
  have "mq_recv_loop a sz timeout d s = Some (Returns (RT_EOK, take (unat sz) msg), mq_at a (\<lambda>_. ?m2) s)"
    using e m1(1) by (simp add: mq_recv_loop_def byt m1(3) tk [symmetric])
  moreover have "mq_wf ?m2" using m1(6) by (auto simp: mq_wf_def)
  ultimately show ?thesis using it f by blast
qed

lemma mq_recv_loop_empty:
  assumes "kinv s" "can_wait s t" "wait_time timeout" "timeout \<noteq> 0"
    and "obj_flag (ObjMq a) s = RT_IPC_FLAG_FIFO \<or> obj_flag (ObjMq a) s = RT_IPC_FLAG_PRIO"
    and "mq_entry (messagequeues s a) = 0"
  shows "\<exists>s'. mq_recv_loop a sz timeout d s = Some (Waits, s') \<and>
    waits_on (MqQ a) t (obj_flag (ObjMq a) s) timeout (InMqRecv a sz timeout (wait_start timeout d s))
      (no_error t s) s s'"
proof -
  have th: "same_sched (no_error t s) (threads s t)" "stack_ok (no_error t s) = stack_ok (threads s t)"
    by (simp_all add: same_sched_def stack_ok_def no_error_def)
  obtain s1 s' where b: "ipc_wait (MqQ a) t (obj_flag (ObjMq a) s) timeout
      (s\<lparr>threads := (threads s)(t := no_error t s)\<rparr>) = Some s1"
    "rt_schedule (s1\<lparr>frames := (frames s1)(t := Some (InMqRecv a sz timeout (wait_start timeout d s)))\<rparr>) = Some s'"
    "waits_on (MqQ a) t (obj_flag (ObjMq a) s) timeout (InMqRecv a sz timeout (wait_start timeout d s))
      (no_error t s) s s'"
    using ipc_block [OF assms(1,2) _ assms(5,3) th] by (metis wait_queue_simps)
  have "mq_recv_loop a sz timeout d s = Some (Waits, s')"
    using assms(2,4,6) b(1,2) by (cases "0 < sint timeout")
      (simp_all add: mq_recv_loop_def can_wait_def rt_thread_self_def obj_flag_def no_error_def wait_start_def)
  with b(3) show ?thesis by blast
qed

lemma mq_empty: "mq_wf m \<Longrightarrow> mq_entry m = 0 \<longleftrightarrow> mq_items m = []"
  by (auto simp: mq_wf_def mq_items_def mq_shape_slots) (auto simp: mq_shape_def word_unat_eq_iff)

lemma rt_mq_recv_spec:
  assumes "kinv s" "can_wait s t" "wait_time timeout" "mq_wf (messagequeues s a)" "sz \<noteq> 0"
    and "obj_flag (ObjMq a) s = RT_IPC_FLAG_FIFO \<or> obj_flag (ObjMq a) s = RT_IPC_FLAG_PRIO"
  shows "\<exists>r s'. rt_mq_recv a sz timeout s = Some (r, s') \<and> kinv s' \<and> mq_wf (messagequeues s' a) \<and>
    (case mq_items (messagequeues s a) of
       msg # msgs \<Rightarrow> r = Returns (RT_EOK, take (unat sz) msg) \<and> mq_items (messagequeues s' a) = msgs \<and>
         s' = s\<lparr>messagequeues := (messagequeues s)(a := messagequeues s' a)\<rparr>
     | [] \<Rightarrow> if timeout = 0 then r = Returns (- RT_ETIMEOUT, []) \<and> s' = s
       else r = Waits \<and> waits_on (MqQ a) t (obj_flag (ObjMq a) s) timeout
            (InMqRecv a sz timeout (wait_start timeout 0 s)) (no_error t s) s s')"
proof (cases "mq_items (messagequeues s a)")
  case (Cons msg msgs)
  obtain m where m: "mq_recv_loop a sz timeout 0 s = Some (Returns (RT_EOK, take (unat sz) msg), mq_at a (\<lambda>_. m) s)"
    "mq_wf m" "mq_items m = msgs" using mq_recv_loop_some [OF assms(4) Cons] by blast
  then show ?thesis using assms Cons mq_empty [OF assms(4)]
    by (intro exI [of _ "Returns (RT_EOK, take (unat sz) msg)"] exI [of _ "mq_at a (\<lambda>_. m) s"])
      (simp add: rt_mq_recv_def)
next
  case Nil
  have e: "mq_entry (messagequeues s a) = 0" using mq_empty [OF assms(4)] Nil by simp
  show ?thesis
  proof (cases "timeout = 0")
    case True
    then show ?thesis using assms Nil e by (simp add: rt_mq_recv_def)
  next
    case False
    obtain s' where b: "mq_recv_loop a sz timeout 0 s = Some (Waits, s')"
      "waits_on (MqQ a) t (obj_flag (ObjMq a) s) timeout (InMqRecv a sz timeout (wait_start timeout 0 s))
        (no_error t s) s s'"
      using mq_recv_loop_empty [OF assms(1-3) False assms(6) e] by blast
    have "rt_mq_recv a sz timeout s = Some (Waits, s')" using b(1) assms(5) False by (simp add: rt_mq_recv_def)
    moreover have "kinv s'" "messagequeues s' = messagequeues s" using b(2) by (simp_all add: waits_on_def kframe_def)
    ultimately show ?thesis using b(2) Nil False assms(4) by simp
  qed
qed


subsection \<open>A new queue and a reset one\<close>

lemma mq_link_slots_shape:
  "mq_msg_queue_free m = None \<Longrightarrow>
   mq_chain (mq_link (mq_link_slots k m)) (mq_msg_queue_free (mq_link_slots k m)) (rev [0..<k]) \<and>
   mq_msg_queue_head (mq_link_slots k m) = mq_msg_queue_head m \<and>
   mq_msg_queue_tail (mq_link_slots k m) = mq_msg_queue_tail m \<and>
   mq_max_msgs (mq_link_slots k m) = mq_max_msgs m \<and> mq_msg_size (mq_link_slots k m) = mq_msg_size m"
  by (induction k) (simp_all add: Let_def)

lemma mq_format_shape: "mq_shape (mq_format m) [] (rev [0..<unat (mq_max_msgs m)])"
proof -
  let ?m1 = "m\<lparr>mq_msg_queue_head := None, mq_msg_queue_tail := None, mq_msg_queue_free := None\<rparr>"
  have "mq_msg_queue_free ?m1 = None" by simp
  from mq_link_slots_shape [OF this, of "unat (mq_max_msgs m)"] show ?thesis
    by (auto simp: mq_format_def mq_shape_def Let_def)
qed

text \<open>The loop of the reset ends, and leaves every slot free.\<close>

lemma mq_drain_spec:
  assumes "mq_chain (mq_link m) (mq_msg_queue_head m) used" "mq_chain (mq_link m) (mq_msg_queue_free m) free"
    "distinct (used @ free)" "mq_msg_queue_tail m = (if used = [] then None else Some (last used))"
  shows "\<exists>m'. mq_drain m = Some m' \<and> mq_msg_queue_head m' = None \<and> mq_msg_queue_tail m' = None \<and>
    mq_chain (mq_link m') (mq_msg_queue_free m') (rev used @ free) \<and> mq_max_msgs m' = mq_max_msgs m \<and>
    mq_msg_size m' = mq_msg_size m \<and> mq_msg_pool m' = mq_msg_pool m"
  using assms
proof (induction used arbitrary: m free)
  case Nil
  then show ?case by (simp add: mq_drain.simps)
next
  case (Cons i used)
  have l: "used \<noteq> [] \<Longrightarrow> last used \<noteq> i" using Cons.prems(3) last_in_set [of used] by auto
  obtain m1 where m1: "mq_unlink_first m = Some (i, m1)"
    "m1 = m\<lparr>mq_msg_queue_head := mq_link m i, mq_msg_queue_tail := (if used = [] then None else Some (last used))\<rparr>"
    using Cons.prems(1,4) l by (auto simp: mq_unlink_first_def Let_def)
  have "mq_chain (mq_link (mq_free_slot i m1)) (mq_msg_queue_head (mq_free_slot i m1)) used"
    "mq_chain (mq_link (mq_free_slot i m1)) (mq_msg_queue_free (mq_free_slot i m1)) (i # free)"
    "distinct (used @ i # free)"
    "mq_msg_queue_tail (mq_free_slot i m1) = (if used = [] then None else Some (last used))"
    using Cons.prems m1(2) by (auto simp: mq_free_slot_def)
  from Cons.IH [OF this] Cons.prems(1) m1 show ?case
    by (auto simp: mq_drain.simps [of m] mq_free_slot_def)
qed


lemma rt_mq_control_reset_spec:
  assumes "kinv s" "rt_current_thread s = Some c" "stat s c = RT_THREAD_READY" "mq_wf (messagequeues s a)"
  shows "\<exists>s'. rt_mq_control a RT_IPC_CMD_RESET arg s = Some (RT_EOK, s') \<and> kinv s' \<and>
    mq_wf (messagequeues s' a) \<and> mq_items (messagequeues s' a) = [] \<and> tlists s' (MqQ a) = [] \<and>
    mq_max_msgs (messagequeues s' a) = mq_max_msgs (messagequeues s a) \<and>
    threads s' = (\<lambda>t. if t \<in> set (tlists s (MqQ a))
      then (threads s t)\<lparr>t_error := - RT_ERROR, t_stat := RT_THREAD_READY\<rparr> else threads s t)"
proof -
  obtain s1 where s1: "rt_ipc_list_resume_all (MqQ a) s = Some s1" "kinv s1" "kframe s s1" "tlists s1 (MqQ a) = []"
    "threads s1 = (\<lambda>t. if t \<in> set (tlists s (MqQ a)) then (threads s t)\<lparr>t_error := - RT_ERROR, t_stat := RT_THREAD_READY\<rparr>
                      else threads s t)" "rt_current_thread s1 = rt_current_thread s"
    using rt_ipc_list_resume_all_spec [OF assms(1), of "MqQ a"] by auto
  have mq: "messagequeues s1 = messagequeues s" using s1(3) by (simp add: kframe_def)
  obtain used free where sh: "mq_shape (messagequeues s a) used free" using assms(4) by (auto simp: mq_wf_def)
  obtain m where m: "mq_drain (messagequeues s a) = Some m" "mq_msg_queue_head m = None" "mq_msg_queue_tail m = None"
    "mq_chain (mq_link m) (mq_msg_queue_free m) (rev used @ free)" "mq_max_msgs m = mq_max_msgs (messagequeues s a)"
    using mq_drain_spec [of "messagequeues s a" used free] sh by (auto simp: mq_shape_def)
  let ?m = "m\<lparr>mq_entry := 0\<rparr>"
  have shm: "mq_shape ?m [] (rev used @ free)" using sh m(2-5) by (auto simp: mq_shape_def)
  let ?s2 = "mq_at a (\<lambda>_. ?m) s1"
  have k: "kinv ?s2" "stat ?s2 c = RT_THREAD_READY" "rt_current_thread ?s2 = Some c"
    using s1 assms by simp_all
  obtain c' p where sc: "rt_schedule ?s2 = Some (?s2\<lparr>rt_current_thread := Some c', rt_current_priority := p\<rparr>)"
    "kinv (?s2\<lparr>rt_current_thread := Some c', rt_current_priority := p\<rparr>)"
    "if rt_scheduler_lock_nest ?s2 = 0 then highest_ready ?s2 c' else c' = c"
    by (rule kinv_schedule [OF k])
  have "mq_wf ?m" "mq_items ?m = []"
    using shm mq_shape_slots [OF shm] by (auto simp: mq_wf_def mq_items_def)
  then show ?thesis
    using s1 sc(1,2) m(1,5) mq
    by (intro exI [of _ "?s2\<lparr>rt_current_thread := Some c', rt_current_priority := p\<rparr>"]) (simp add: rt_mq_control_def)
qed

subsection \<open>The message queue as a channel\<close>

definition mq_inv :: "nat \<Rightarrow> kstate \<Rightarrow> bool" where
  "mq_inv a s \<longleftrightarrow> kinv s \<and> rt_current_thread s \<noteq> None \<and> mq_wf (messagequeues s a) \<and>
     mq_msg_size (messagequeues s a) \<noteq> 0"

definition mq_try_send :: "nat \<Rightarrow> u8 list \<Rightarrow> kstate \<Rightarrow> (bool \<times> kstate) option" where
  "mq_try_send a msg s =
     (case rt_mq_send a msg (of_nat (length msg)) s of Some (e, s') \<Rightarrow> Some (e = RT_EOK, s') | None \<Rightarrow> None)"

definition mq_try_recv :: "nat \<Rightarrow> kstate \<Rightarrow> (u8 list option \<times> kstate) option" where
  "mq_try_recv a s =
     (case rt_mq_recv a (ucast (mq_msg_size (messagequeues s a))) 0 s of
        Some (Returns (e, msg), s') \<Rightarrow> Some (if e = RT_EOK then Some msg else None, s')
      | _ \<Rightarrow> None)"

lemma mq_try_send_law:
  assumes "mq_inv a s" "length msg = unat (mq_msg_size (messagequeues s a))"
  shows "\<exists>s'. mq_try_send a msg s =
      Some (length (mq_items (messagequeues s a)) < unat (mq_max_msgs (messagequeues s a)), s') \<and> mq_inv a s' \<and>
    mq_max_msgs (messagequeues s' a) = mq_max_msgs (messagequeues s a) \<and>
    mq_msg_size (messagequeues s' a) = mq_msg_size (messagequeues s a) \<and>
    mq_items (messagequeues s' a) = (if length (mq_items (messagequeues s a)) < unat (mq_max_msgs (messagequeues s a))
      then mq_items (messagequeues s a) @ [msg] else mq_items (messagequeues s a))"
proof -
  let ?m = "messagequeues s a"
  obtain c where c: "rt_current_thread s = Some c" and i: "kinv s" "mq_wf ?m" "mq_msg_size ?m \<noteq> 0"
    using assms(1) by (auto simp: mq_inv_def)
  have n: "unat (of_nat (length msg) :: u32) = length msg"
    using unsigned_less [of "mq_msg_size ?m", where ?'a = nat] assms(2)
    by (simp add: unsigned_of_nat unsigned_ucast_eq take_bit_eq_mod)
  have nz: "(of_nat (length msg) :: u32) \<noteq> 0" using n assms(2) i(3) by (auto simp: word_unat_eq_iff)
  obtain r s' where r: "rt_mq_send a msg (of_nat (length msg)) s = Some (r, s')"
    "mq_sent a msg (of_nat (length msg)) (\<lambda>msg msgs. msgs @ [msg]) s r s'"
    using rt_mq_send_spec [OF i(1) c i(2) nz, of msg] n by auto
  have le: "length (mq_items ?m) \<le> unat (mq_max_msgs ?m)"
    using i(2) mq_shape_count by (fastforce simp: mq_wf_def mq_items_def mq_shape_slots)
  have fits: "\<not> unat (mq_msg_size ?m) < length msg" using assms(2) by simp
  note sent = r(2) [unfolded mq_sent_def n if_not_P [OF fits]]
  show ?thesis
  proof (cases "length (mq_items ?m) = unat (mq_max_msgs ?m)")
    case True
    then have "r = - RT_EFULL" "s' = s" using sent by simp_all
    then show ?thesis using r(1) True assms(1) by (simp add: mq_try_send_def)
  next
    case False
    then have s': "kinv s'" "mq_wf (messagequeues s' a)" "r = RT_EOK" "mq_msg_size (messagequeues s' a) = mq_msg_size ?m"
      "mq_max_msgs (messagequeues s' a) = mq_max_msgs ?m" "rt_current_thread s' \<noteq> None"
      "\<exists>ms. length ms = unat (mq_msg_size ?m) \<and> take (length msg) ms = take (length msg) msg \<and>
         mq_items (messagequeues s' a) = mq_items ?m @ [ms]"
      using sent by simp_all
    then have "mq_items (messagequeues s' a) = mq_items ?m @ [msg]" using assms(2) by auto
    then show ?thesis using r(1) s'(1-6) False le i(3) by (simp add: mq_try_send_def mq_inv_def)
  qed
qed

lemma mq_try_recv_law:
  assumes "mq_inv a s"
  shows "\<exists>s'. mq_try_recv a s =
      Some (case mq_items (messagequeues s a) of [] \<Rightarrow> None | v # _ \<Rightarrow> Some v, s') \<and> mq_inv a s' \<and>
    mq_max_msgs (messagequeues s' a) = mq_max_msgs (messagequeues s a) \<and>
    mq_msg_size (messagequeues s' a) = mq_msg_size (messagequeues s a) \<and>
    mq_items (messagequeues s' a) = tl (mq_items (messagequeues s a))"
proof -
  let ?m = "messagequeues s a"
  let ?z = "ucast (mq_msg_size ?m) :: u32"
  have i: "kinv s" "mq_wf ?m" "mq_msg_size ?m \<noteq> 0" using assms(1) by (auto simp: mq_inv_def)
  have z: "unat ?z = unat (mq_msg_size ?m)"
    using unsigned_less [of "mq_msg_size ?m", where ?'a = nat] by (simp add: unsigned_ucast_eq take_bit_eq_mod)
  have nz: "?z \<noteq> 0" using z i(3) by (auto simp: word_unat_eq_iff)
  show ?thesis
  proof (cases "mq_items ?m")
    case Nil
    then show ?thesis using nz mq_empty [OF i(2)] assms by (simp add: mq_try_recv_def rt_mq_recv_def)
  next
    case (Cons msg msgs)
    obtain m where m: "mq_recv_loop a ?z 0 0 s = Some (Returns (RT_EOK, take (unat ?z) msg), mq_at a (\<lambda>_. m) s)"
      "mq_wf m" "mq_items m = msgs" "mq_msg_size m = mq_msg_size ?m" "mq_max_msgs m = mq_max_msgs ?m"
      using mq_recv_loop_some [OF i(2) Cons] by blast
    have "length msg = unat (mq_msg_size ?m)" using Cons by (auto simp: mq_items_def)
    then show ?thesis using m nz z mq_empty [OF i(2)] Cons assms i
      by (simp add: mq_try_recv_def rt_mq_recv_def mq_inv_def)
  qed
qed

interpretation mq: channel "mq_inv a" "\<lambda>s. mq_items (messagequeues s a)" "\<lambda>s. unat (mq_max_msgs (messagequeues s a))"
    "\<lambda>s msg. length msg = unat (mq_msg_size (messagequeues s a))" "mq_try_send a" "mq_try_recv a" for a
proof (unfold_locales, goal_cases)
  case (1 s v)
  then show ?case using mq_try_send_law [of a s v] by auto
next
  case (2 s)
  then show ?case using mq_try_recv_law [of a s] by auto
qed

lemma demo_waiting_threads [simp]: "threads (demo_waiting q) = threads demo"
  by (simp add: demo_waiting_def)

lemma demo_mq [simp]: "mq_wf (messagequeues demo a)" "mq_wf (messagequeues (demo_waiting q) a)"
    "mq_msg_size (messagequeues demo a) = 8"
proof -
  have "mq_shape (messagequeues demo a) [] [1, 0]" by (auto simp: mq_shape_def demo_def)
  then show "mq_wf (messagequeues demo a)" "mq_wf (messagequeues (demo_waiting q) a)"
    by (auto simp: mq_wf_def demo_waiting_def)
qed (simp add: demo_def)

subsection \<open>Properties\<close>

text \<open>
  \<open>rt_mq_send\<close> puts a message behind all others and \<open>rt_mq_urgent\<close> in front of them, with the
  sender's bytes at its start, and makes the first waiting reader ready. A message that is too
  long gives \<open>-RT_ERROR\<close>, a full queue \<open>-RT_EFULL\<close>, and then nothing has changed.
\<close>

theorem rt_mq_send_urgent_correct:
  assumes "kinv s" "rt_current_thread s = Some c" "mq_wf (messagequeues s a)" "sz \<noteq> 0" "unat sz \<le> length buffer"
  shows "(\<exists>r s'. rt_mq_send a buffer sz s = Some (r, s') \<and>
      mq_sent a buffer sz (\<lambda>msg msgs. msgs @ [msg]) s r s') \<and>
    (\<exists>r s'. rt_mq_urgent a buffer sz s = Some (r, s') \<and>
      mq_sent a buffer sz (\<lambda>msg msgs. msg # msgs) s r s')"
  using rt_mq_send_spec [OF assms] rt_mq_urgent_spec [OF assms] by blast

theorem rt_mq_send_urgent_correct_witness:
  "(\<exists>r s'. rt_mq_send 70 [1::u8, 2, 3] (3::u32) (demo_waiting (MqQ 70)) = Some (r, s') \<and>
      mq_sent 70 [1::u8, 2, 3] (3::u32) (\<lambda>msg msgs. msgs @ [msg]) (demo_waiting (MqQ 70)) r s') \<and>
    (\<exists>r s'. rt_mq_urgent 70 [1::u8, 2, 3] (3::u32) (demo_waiting (MqQ 70)) = Some (r, s') \<and>
      mq_sent 70 [1::u8, 2, 3] (3::u32) (\<lambda>msg msgs. msg # msgs) (demo_waiting (MqQ 70)) r s')"
  by (rule rt_mq_send_urgent_correct [where c = 3]) simp_all

text \<open>
  \<open>rt_mq_recv\<close> gives the first message, cut to the reader's buffer, and frees its slot; with no
  message it gives \<open>-RT_ETIMEOUT\<close> at once if the caller does not wait, and otherwise the caller
  goes to the queue's list.
\<close>

theorem rt_mq_recv_correct:
  assumes "kinv s" "can_wait s t" "wait_time timeout" "mq_wf (messagequeues s a)" "sz \<noteq> 0"
    and "obj_flag (ObjMq a) s = RT_IPC_FLAG_FIFO \<or> obj_flag (ObjMq a) s = RT_IPC_FLAG_PRIO"
  shows "\<exists>r s'. rt_mq_recv a sz timeout s = Some (r, s') \<and> kinv s' \<and> mq_wf (messagequeues s' a) \<and>
    (case mq_items (messagequeues s a) of
       msg # msgs \<Rightarrow> r = Returns (RT_EOK, take (unat sz) msg) \<and> mq_items (messagequeues s' a) = msgs \<and>
         s' = s\<lparr>messagequeues := (messagequeues s)(a := messagequeues s' a)\<rparr>
     | [] \<Rightarrow> if timeout = 0 then r = Returns (- RT_ETIMEOUT, []) \<and> s' = s
       else r = Waits \<and> waits_on (MqQ a) t (obj_flag (ObjMq a) s) timeout
            (InMqRecv a sz timeout (wait_start timeout 0 s)) (no_error t s) s s')"
  by (rule rt_mq_recv_spec [OF assms])

theorem rt_mq_recv_correct_witness:
  "\<exists>r s'. rt_mq_recv 70 (8::u32) (5::u32) demo = Some (r, s') \<and> kinv s' \<and> mq_wf (messagequeues s' 70) \<and>
    (case mq_items (messagequeues demo 70) of
       msg # msgs \<Rightarrow> r = Returns (RT_EOK, take (unat (8::u32)) msg) \<and> mq_items (messagequeues s' 70) = msgs \<and>
         s' = demo\<lparr>messagequeues := (messagequeues demo)(70 := messagequeues s' 70)\<rparr>
     | [] \<Rightarrow> if (5::u32) = 0 then r = Returns (- RT_ETIMEOUT, []) \<and> s' = demo
       else r = Waits \<and> waits_on (MqQ 70) 3 (obj_flag (ObjMq 70) demo) (5::u32)
            (InMqRecv 70 (8::u32) (5::u32) (wait_start (5::u32) 0 demo)) (no_error 3 demo) demo s')"
  by (rule rt_mq_recv_correct [OF demo_kinv demo_can_wait]) (simp_all add: wait_time_def)

text \<open>
  Property C13.
  Any sequence of sends of full messages and receives that do not wait returns, and does on the
  kernel what it does on a list of at most \<open>max_msgs\<close> messages: the slots' links lose no message,
  double none and keep their order, and no byte of a message changes while it is queued.
\<close>

theorem rt_mq_fifo:
  assumes "mq_inv a s" "\<forall>msg. Put msg \<in> set ops \<longrightarrow> length msg = unat (mq_msg_size (messagequeues s a))"
  shows "\<exists>ins outs s'. channel_run (mq_try_send a) (mq_try_recv a) ops s = Some (ins, outs, s') \<and>
    mq_inv a s' \<and>
    bounded_run (unat (mq_max_msgs (messagequeues s a))) ops (mq_items (messagequeues s a)) =
      (ins, outs, mq_items (messagequeues s' a)) \<and>
    mq_items (messagequeues s a) @ ins = outs @ mq_items (messagequeues s' a)"
  using mq.run_fifo [OF assms(1), of ops] assms(2) by simp

theorem rt_mq_fifo_witness:
  "\<exists>ins outs s'. channel_run (mq_try_send 70) (mq_try_recv 70) [Put (replicate 8 (7::u8)), Get, Get] demo = Some (ins, outs, s') \<and>
    mq_inv 70 s' \<and>
    bounded_run (unat (mq_max_msgs (messagequeues demo 70))) [Put (replicate 8 (7::u8)), Get, Get] (mq_items (messagequeues demo 70)) =
      (ins, outs, mq_items (messagequeues s' 70)) \<and>
    mq_items (messagequeues demo 70) @ ins = outs @ mq_items (messagequeues s' 70)"
  by (rule rt_mq_fifo) (auto simp: mq_inv_def)

text \<open>
  The reset of \<open>rt_mq_control\<close> ends: its loop empties the queue, every slot is free afterwards, and
  every thread that waited is ready, with \<open>-RT_ERROR\<close> for its call.
\<close>

theorem rt_mq_control_reset:
  assumes "kinv s" "rt_current_thread s = Some c" "stat s c = RT_THREAD_READY" "mq_wf (messagequeues s a)"
  shows "\<exists>s'. rt_mq_control a RT_IPC_CMD_RESET arg s = Some (RT_EOK, s') \<and> kinv s' \<and>
    mq_wf (messagequeues s' a) \<and> mq_items (messagequeues s' a) = [] \<and> tlists s' (MqQ a) = [] \<and>
    mq_max_msgs (messagequeues s' a) = mq_max_msgs (messagequeues s a) \<and>
    threads s' = (\<lambda>t. if t \<in> set (tlists s (MqQ a))
      then (threads s t)\<lparr>t_error := - RT_ERROR, t_stat := RT_THREAD_READY\<rparr> else threads s t)"
  by (rule rt_mq_control_reset_spec [OF assms])

theorem rt_mq_control_reset_witness:
  "\<exists>s'. rt_mq_control 70 RT_IPC_CMD_RESET (0::u32) (demo_waiting (MqQ 70)) = Some (RT_EOK, s') \<and> kinv s' \<and>
    mq_wf (messagequeues s' 70) \<and> mq_items (messagequeues s' 70) = [] \<and> tlists s' (MqQ 70) = [] \<and>
    mq_max_msgs (messagequeues s' 70) = mq_max_msgs (messagequeues (demo_waiting (MqQ 70)) 70) \<and>
    threads s' = (\<lambda>t. if t \<in> set (tlists (demo_waiting (MqQ 70)) (MqQ 70))
      then (threads (demo_waiting (MqQ 70)) t)\<lparr>t_error := - RT_ERROR, t_stat := RT_THREAD_READY\<rparr> else threads (demo_waiting (MqQ 70)) t)"
  by (rule rt_mq_control_reset [where c = 3]) simp_all

end
