(* ===== verification/RtMempool.thy ===== *)
theory RtMempool
  imports RtIpc
begin

text \<open>
  The memory pools of \<^verbatim>\<open>src/mempool.c\<close>: blocks of one size, each with a word in front of it
  that links the free blocks and names the pool of the others. Addresses are numbers; a pool
  that does not lie below \<open>2^32\<close>, or whose list of blocks would be written outside of it, gives
  \<open>None\<close>.
\<close>

subsection \<open>Operations\<close>

definition mp_stride :: "u32 \<Rightarrow> nat" where
  "mp_stride block_size = unat block_size + 4"

definition mp_word_at :: "nat \<Rightarrow> mp_word \<Rightarrow> kstate \<Rightarrow> kstate" where
  "mp_word_at p w s = s\<lparr>mp_words := (mp_words s)(p := w)\<rparr>"

text \<open>The loop that links each block to the next one.\<close>

primrec mp_link_blocks :: "nat \<Rightarrow> nat \<Rightarrow> nat \<Rightarrow> kstate \<Rightarrow> kstate" where
  "mp_link_blocks p stride 0 s = s"
| "mp_link_blocks p stride (Suc k) s =
     mp_word_at (p + k * stride) (NextBlock (Some (p + (k + 1) * stride))) (mp_link_blocks p stride k s)"

definition mp_format :: "nat \<Rightarrow> kstate \<Rightarrow> kstate option" where
  "mp_format a s =
     (let s1 = rt_ipc_object_init (MpQ a) s;
          s2 = mp_at a (\<lambda>m. m\<lparr>mp_suspend_thread_count := 0\<rparr>) s1;
          m = mempools s2 a;
          n = unat (mp_block_total_count m); stride = mp_stride (mp_block_size m);
          s3 = mp_link_blocks (mp_start_address m) stride n s2
      in if n = 0 \<or> 2 ^ 32 < mp_start_address m + n * stride then None
         else Some (mp_at a (\<lambda>m. m\<lparr>mp_block_list := Some (mp_start_address m)\<rparr>)
           (mp_word_at (mp_start_address m + (n - 1) * stride) (NextBlock None) s3)))"

definition rt_mp_init ::
  "nat \<Rightarrow> u8 list \<Rightarrow> nat \<Rightarrow> u32 \<Rightarrow> u32 \<Rightarrow> kstate \<Rightarrow> (rt_err_t \<times> kstate) option" where
  "rt_mp_init a name start sz block_size s =
     do {
       s1 \<leftarrow> rt_object_init (ObjMp a) name s;
       let bs = RT_ALIGN block_size RT_ALIGN_SIZE;
       let s2 = mp_at a (\<lambda>m. m\<lparr>mp_start_address := start, mp_size := RT_ALIGN_DOWN sz RT_ALIGN_SIZE,
                               mp_block_size := bs\<rparr>) s1;
       if bs + 4 = 0 then None
       else do {
         let s3 = mp_at a (\<lambda>m. m\<lparr>mp_block_total_count := mp_size m div (mp_block_size m + 4)\<rparr>) s2;
         let s4 = mp_at a (\<lambda>m. m\<lparr>mp_block_free_count := mp_block_total_count m\<rparr>) s3;
         s5 \<leftarrow> mp_format a s4;
         Some (RT_EOK, s5) } }"

text \<open>The loop of the two operations that give up a pool.\<close>

partial_function (option) mp_resume_all :: "nat \<Rightarrow> kstate \<Rightarrow> kstate option" where
  "mp_resume_all a s =
     (case tlists s (MpQ a) of
        [] \<Rightarrow> Some s
      | t # _ \<Rightarrow> do {
          (_, s1) \<leftarrow> rt_thread_resume t (thread_at t (t_error_update (\<lambda>_. - RT_ERROR)) s);
          mp_resume_all a
            (mp_at a (\<lambda>m. m\<lparr>mp_suspend_thread_count := mp_suspend_thread_count m - 1\<rparr>) s1) })"

definition rt_mp_detach :: "nat \<Rightarrow> kstate \<Rightarrow> (rt_err_t \<times> kstate) option" where
  "rt_mp_detach a s =
     do { s1 \<leftarrow> mp_resume_all a s; Some (RT_EOK, rt_object_detach (ObjMp a) s1) }"

definition rt_mp_create :: "u8 list \<Rightarrow> u32 \<Rightarrow> u32 \<Rightarrow> kstate \<Rightarrow> (nat option \<times> kstate) option" where
  "rt_mp_create name block_count block_size s =
     RT_DEBUG_NOT_IN_INTERRUPT s
       (do {
          (r, s1) \<leftarrow> rt_object_allocate ObjMp name s;
          (case r of
             None \<Rightarrow> Some (None, s1)
           | Some a \<Rightarrow> do {
               let bs = RT_ALIGN block_size RT_ALIGN_SIZE;
               let s2 = mp_at a (\<lambda>m. m\<lparr>mp_block_size := bs, mp_size := (bs + 4) * block_count\<rparr>) s1;
               (p, s3) \<leftarrow> k_malloc ((bs + 4) * block_count) s2;
               (case p of
                  None \<Rightarrow> do { s4 \<leftarrow> rt_object_delete (ObjMp a) s3; Some (None, s4) }
                | Some start \<Rightarrow> do {
                    let s4 = mp_at a (\<lambda>m. m\<lparr>mp_start_address := start, mp_block_total_count := block_count,
                                            mp_block_free_count := block_count\<rparr>) s3;
                    s5 \<leftarrow> mp_format a s4;
                    Some (Some a, s5) }) }) })"

definition rt_mp_delete :: "nat \<Rightarrow> kstate \<Rightarrow> (rt_err_t \<times> kstate) option" where
  "rt_mp_delete a s =
     RT_DEBUG_NOT_IN_INTERRUPT s
       (do {
          s1 \<leftarrow> mp_resume_all a s;
          s2 \<leftarrow> k_free (Some (mp_start_address (mempools s1 a))) s1;
          s3 \<leftarrow> rt_object_delete (ObjMp a) s2;
          Some (RT_EOK, s3) })"

text \<open>The lines that take the first free block, with the pool's address left in its word. What
  the word holds must be a link, and the list must not be empty.\<close>

definition mp_take_block :: "nat \<Rightarrow> kstate \<Rightarrow> (nat \<times> kstate) option" where
  "mp_take_block a s =
     do {
       let s1 = mp_at a (\<lambda>m. m\<lparr>mp_block_free_count := mp_block_free_count m - 1\<rparr>) s;
       p \<leftarrow> mp_block_list (mempools s1 a);
       (case mp_words s1 p of
          NextBlock n \<Rightarrow>
            Some (p, mp_word_at p (OwnerPool a) (mp_at a (\<lambda>m. m\<lparr>mp_block_list := n\<rparr>) s1))
        | OwnerPool _ \<Rightarrow> None) }"

definition rt_mp_alloc :: "nat \<Rightarrow> u32 \<Rightarrow> kstate \<Rightarrow> (nat option call \<times> kstate) option" where
  "rt_mp_alloc a time s =
     (if mp_block_free_count (mempools s a) \<noteq> 0
      then do { (p, s1) \<leftarrow> mp_take_block a s; Some (Returns (Some (p + 4)), s1) }
      else if time = 0 then Some (Returns None, s)
      else RT_DEBUG_NOT_IN_INTERRUPT s
        (do {
           t \<leftarrow> rt_thread_self s;
           (_, s1) \<leftarrow> rt_thread_suspend t s;
           let s2 = lists_at (tl_insert_after (MpQ a) t) s1;
           let s3 = mp_at a (\<lambda>m. m\<lparr>mp_suspend_thread_count := mp_suspend_thread_count m + 1\<rparr>) s2;
           s4 \<leftarrow> (if 0 < sint time
                  then do {
                    let s4 = snd (rt_timer_control (ThreadTimer t) RT_TIMER_CTRL_SET_TIME time s3);
                    (_, s5) \<leftarrow> rt_timer_start (ThreadTimer t) s4;
                    Some s5 }
                  else Some s3);
           s5 \<leftarrow> rt_schedule (s4\<lparr>frames := (frames s4)(t := Some (InMpAlloc a))\<rparr>);
           Some (Waits, s5) }))"

definition rt_mp_alloc_wake :: "nat \<Rightarrow> nat \<Rightarrow> kstate \<Rightarrow> (nat option \<times> kstate) option" where
  "rt_mp_alloc_wake t a s =
     (let s1 = s\<lparr>frames := (frames s)(t := None)\<rparr>
      in if t_error (threads s1 t) \<noteq> RT_EOK then Some (None, s1)
         else do { (p, s2) \<leftarrow> mp_take_block a s1; Some (Some (p + 4), s2) })"

definition rt_mp_free :: "nat \<Rightarrow> kstate \<Rightarrow> kstate option" where
  "rt_mp_free block s =
     (let p = block - 4 in
      case mp_words s p of
        NextBlock _ \<Rightarrow> None
      | OwnerPool a \<Rightarrow> do {
          let s1 = mp_at a (\<lambda>m. m\<lparr>mp_block_free_count := mp_block_free_count m + 1\<rparr>) s;
          let s2 = mp_word_at p (NextBlock (mp_block_list (mempools s1 a))) s1;
          let s3 = mp_at a (\<lambda>m. m\<lparr>mp_block_list := Some p\<rparr>) s2;
          if mp_suspend_thread_count (mempools s3 a) > 0
          then do {
            t \<leftarrow> first_thread (MpQ a) s3;
            (_, s4) \<leftarrow> rt_thread_resume t (thread_at t (t_error_update (\<lambda>_. RT_EOK)) s3);
            let s5 = mp_at a (\<lambda>m. m\<lparr>mp_suspend_thread_count := mp_suspend_thread_count m - 1\<rparr>) s4;
            rt_schedule s5 }
          else Some s3 })"

subsection \<open>The blocks of a pool\<close>

primrec mp_chain :: "(nat \<Rightarrow> mp_word) \<Rightarrow> nat option \<Rightarrow> nat list \<Rightarrow> bool" where
  "mp_chain W h [] \<longleftrightarrow> h = None"
| "mp_chain W h (p # ps) \<longleftrightarrow> h = Some p \<and>
     (case W p of NextBlock n \<Rightarrow> mp_chain W n ps | OwnerPool _ \<Rightarrow> False)"

definition mp_blocks :: "rt_mempool \<Rightarrow> nat list" where
  "mp_blocks m = map (\<lambda>i. mp_start_address m + i * mp_stride (mp_block_size m)) [0..<unat (mp_block_total_count m)]"

text \<open>The free blocks of the pool in the order of their links, and the others, which carry the
  pool's address.\<close>

definition mp_shape :: "nat \<Rightarrow> nat list \<Rightarrow> nat list \<Rightarrow> kstate \<Rightarrow> bool" where
  "mp_shape a free used s \<longleftrightarrow>
     mp_chain (mp_words s) (mp_block_list (mempools s a)) free \<and>
     distinct (free @ used) \<and> set (free @ used) = set (mp_blocks (mempools s a)) \<and>
     (\<forall>p \<in> set used. mp_words s p = OwnerPool a) \<and>
     unat (mp_block_free_count (mempools s a)) = length free"

definition mp_waits_ok :: "nat \<Rightarrow> kstate \<Rightarrow> bool" where
  "mp_waits_ok a s \<longleftrightarrow> unat (mp_suspend_thread_count (mempools s a)) = length (tlists s (MpQ a))"

lemma mp_chain_other [simp]: "p \<notin> set ps \<Longrightarrow> mp_chain (W(p := w)) h ps = mp_chain W h ps"
  by (induction ps arbitrary: h) (auto split: mp_word.splits)

lemma mp_stride_pos [simp]: "0 < mp_stride b"
  by (simp add: mp_stride_def)

lemma distinct_mp_blocks [simp]: "distinct (mp_blocks m)"
  using mp_stride_pos [of "mp_block_size m"]
  by (auto simp: mp_blocks_def distinct_map inj_on_def simp del: mp_stride_pos)

lemma length_mp_blocks [simp]: "length (mp_blocks m) = unat (mp_block_total_count m)"
  by (simp add: mp_blocks_def)

lemma mp_blocks_same [simp]:
  "mp_blocks (m\<lparr>mp_block_list := x\<rparr>) = mp_blocks m" "mp_blocks (m\<lparr>mp_block_free_count := n\<rparr>) = mp_blocks m"
  "mp_blocks (m\<lparr>mp_suspend_thread_count := n\<rparr>) = mp_blocks m"
  by (simp_all add: mp_blocks_def)

lemma mp_shape_cong:
  "mempools s' a = mempools s a \<Longrightarrow> mp_words s' = mp_words s \<Longrightarrow> mp_shape a free used s' = mp_shape a free used s"
  by (simp add: mp_shape_def)

lemma mp_shape_count:
  assumes "mp_shape a free used s"
  shows "length free + length used = unat (mp_block_total_count (mempools s a))"
  using assms distinct_card [of "free @ used"] distinct_card [of "mp_blocks (mempools s a)"]
  by (simp add: mp_shape_def)

text \<open>The state after the first free block is taken, and after a block is given back.\<close>

definition mp_taken :: "nat \<Rightarrow> nat \<Rightarrow> kstate \<Rightarrow> kstate" where
  "mp_taken a p s =
     mp_word_at p (OwnerPool a) (mp_at a (\<lambda>m. m\<lparr>mp_block_free_count := mp_block_free_count m - 1,
       mp_block_list := (case mp_words s p of NextBlock n \<Rightarrow> n | OwnerPool _ \<Rightarrow> None)\<rparr>) s)"

definition mp_given :: "nat \<Rightarrow> nat \<Rightarrow> kstate \<Rightarrow> kstate" where
  "mp_given a p s =
     mp_at a (\<lambda>m. m\<lparr>mp_block_free_count := mp_block_free_count m + 1, mp_block_list := Some p\<rparr>)
       (mp_word_at p (NextBlock (mp_block_list (mempools s a))) s)"

lemma mp_take_block_spec:
  assumes "mp_shape a (p # free) used s"
  shows "mp_take_block a s = Some (p, mp_taken a p s)" "mp_shape a free (p # used) (mp_taken a p s)"
proof -
  obtain n where n: "mp_words s p = NextBlock n" "mp_chain (mp_words s) n free"
    using assms by (cases "mp_words s p") (auto simp: mp_shape_def)
  have h: "mp_block_list (mempools s a) = Some p" using assms by (simp add: mp_shape_def)
  show "mp_take_block a s = Some (p, mp_taken a p s)"
    using n h by (simp add: mp_take_block_def mp_taken_def mp_word_at_def)
  have "mp_block_free_count (mempools s a) \<noteq> 0" using assms by (auto simp: mp_shape_def)
  then have "unat (mp_block_free_count (mempools s a) - 1) = length free"
    using assms by (simp add: unat_minus_one mp_shape_def)
  then show "mp_shape a free (p # used) (mp_taken a p s)"
    using assms n by (auto simp: mp_shape_def mp_taken_def mp_word_at_def)
qed

lemma mp_given_spec:
  assumes sh: "mp_shape a free (us @ p # vs) s"
  shows "mp_shape a (p # free) (us @ vs) (mp_given a p s)" "mp_words s p = OwnerPool a"
proof -
  have "Suc (unat (mp_block_free_count (mempools s a))) \<le> unat (mp_block_total_count (mempools s a))"
    using mp_shape_count [OF sh] sh by (simp add: mp_shape_def)
  then have "Suc (unat (mp_block_free_count (mempools s a))) < 2 ^ 32"
    using unsigned_less [of "mp_block_total_count (mempools s a)", where ?'a = nat] by simp
  then have "unat (mp_block_free_count (mempools s a) + 1) = Suc (length free)"
    using sh by (simp add: unat_word_ariths mp_shape_def)
  then show "mp_shape a (p # free) (us @ vs) (mp_given a p s)"
    using sh by (auto simp: mp_shape_def mp_given_def mp_word_at_def)
  show "mp_words s p = OwnerPool a" using sh by (simp add: mp_shape_def)
qed

text \<open>The loop of \<open>rt_mp_init\<close> and \<open>rt_mp_create\<close>.\<close>

lemma mp_link_blocks_words:
  assumes "0 < stride"
  shows "mp_words (mp_link_blocks p stride n s) (p + i * stride) =
    (if i < n then NextBlock (Some (p + Suc i * stride)) else mp_words s (p + i * stride))"
proof (induction n)
  case (Suc n)
  have "p + i * stride = p + n * stride \<longleftrightarrow> i = n" using assms by simp
  then show ?case using Suc by (auto simp: mp_word_at_def)
qed simp

lemma mp_link_blocks_same:
  "mempools (mp_link_blocks p stride n s) = mempools s" "tlists (mp_link_blocks p stride n s) = tlists s"
  by (induction n) (simp_all add: mp_word_at_def)


lemma mp_chain_from:
  assumes "\<And>i. k \<le> i \<Longrightarrow> i < n \<Longrightarrow>
      W (p + i * d) = NextBlock (if Suc i < n then Some (p + Suc i * d) else None)"
    and "k \<le> n"
  shows "mp_chain W (if k < n then Some (p + k * d) else None) (map (\<lambda>i. p + i * d) [k..<n])"
  using assms
proof (induction "n - k" arbitrary: k)
  case (Suc j)
  have "mp_chain W (if Suc k < n then Some (p + Suc k * d) else None) (map (\<lambda>i. p + i * d) [Suc k..<n])"
    using Suc.prems Suc.hyps(2) by (intro Suc.hyps(1)) auto
  then show ?case using Suc.hyps(2) Suc.prems(1) [of k] by (simp add: upt_conv_Cons)
qed simp

text \<open>A new pool: every block is free, in the order of the addresses.\<close>

lemma mp_format_spec:
  assumes n: "0 < unat (mp_block_total_count (mempools s a))"
    and fits: "mp_start_address (mempools s a) +
      unat (mp_block_total_count (mempools s a)) * mp_stride (mp_block_size (mempools s a)) \<le> 2 ^ 32"
    and cnt: "mp_block_free_count (mempools s a) = mp_block_total_count (mempools s a)"
  shows "\<exists>s'. mp_format a s = Some s' \<and> mp_shape a (mp_blocks (mempools s a)) [] s' \<and> mp_waits_ok a s' \<and>
    tlists s' = (tlists s)(MpQ a := []) \<and>
    mempools s' = (mempools s)(a := (mempools s a)\<lparr>mp_suspend_thread_count := 0,
      mp_block_list := Some (mp_start_address (mempools s a))\<rparr>)"
proof -
  let ?m = "mempools s a"
  let ?d = "mp_stride (mp_block_size ?m)" and ?n = "unat (mp_block_total_count ?m)" and ?p = "mp_start_address ?m"
  let ?s2 = "mp_at a (\<lambda>m. m\<lparr>mp_suspend_thread_count := 0\<rparr>) (rt_ipc_object_init (MpQ a) s)"
  let ?s3 = "mp_link_blocks ?p ?d ?n ?s2"
  let ?s4 = "mp_word_at (?p + (?n - 1) * ?d) (NextBlock None) ?s3"
  let ?s' = "mp_at a (\<lambda>m. m\<lparr>mp_block_list := Some (mp_start_address m)\<rparr>) ?s4"
  have f: "mp_format a s = Some ?s'"
    using n fits by (simp add: mp_format_def Let_def rt_ipc_object_init_def mp_link_blocks_same mp_word_at_def not_less)
  have w: "mp_words ?s' (?p + i * ?d) = NextBlock (if Suc i < ?n then Some (?p + Suc i * ?d) else None)"
    if "i < ?n" for i
  proof (cases "i = ?n - 1")
    case True
    then show ?thesis using n by (simp add: mp_word_at_def)
  next
    case False
    then have "?p + i * ?d \<noteq> ?p + (?n - 1) * ?d" by simp
    moreover have "Suc i < ?n" using False that by simp
    ultimately show ?thesis using that mp_link_blocks_words [of ?d ?p ?n ?s2 i]
      by (simp add: mp_word_at_def)
  qed
  have "mp_chain (mp_words ?s') (if 0 < ?n then Some (?p + 0 * ?d) else None) (map (\<lambda>i. ?p + i * ?d) [0..<?n])"
    by (rule mp_chain_from) (use w in auto)
  then have "mp_shape a (mp_blocks ?m) [] ?s'"
    using n cnt by (simp add: mp_shape_def mp_word_at_def mp_link_blocks_same rt_ipc_object_init_def)
      (simp add: mp_blocks_def)
  then show ?thesis
    using f by (intro exI [of _ ?s'])
      (simp add: mp_waits_ok_def mp_word_at_def mp_link_blocks_same rt_ipc_object_init_def)
qed


subsection \<open>What the operations do\<close>

lemma mp_taken_same [simp]:
  "kinv (mp_taken a p s) = kinv s" "tlists (mp_taken a p s) = tlists s"
  "rt_current_thread (mp_taken a p s) = rt_current_thread s" "threads (mp_taken a p s) = threads s"
  "mp_waits_ok a (mp_taken a p s) = mp_waits_ok a s"
  "kinv (mp_given a p s) = kinv s" "tlists (mp_given a p s) = tlists s"
  "rt_current_thread (mp_given a p s) = rt_current_thread s" "threads (mp_given a p s) = threads s"
  "mp_waits_ok a (mp_given a p s) = mp_waits_ok a s"
  by (simp_all add: mp_taken_def mp_given_def mp_word_at_def kinv_def stacks_ok_def mp_waits_ok_def)

text \<open>A caller that finds no block and waits: it becomes the first thread of the pool's list.\<close>

definition mp_waits_on :: "nat \<Rightarrow> nat \<Rightarrow> u32 \<Rightarrow> kstate \<Rightarrow> kstate \<Rightarrow> bool" where
  "mp_waits_on a t time s s' \<longleftrightarrow> kinv s' \<and>
     threads s' = (threads s)(t := (threads s t)\<lparr>t_stat := RT_THREAD_SUSPEND\<rparr>) \<and>
     tlists s' = (tl_remove t (tlists s))(MpQ a := t # tlists s (MpQ a)) \<and>
     mempools s' = (mempools s)(a := (mempools s a)\<lparr>mp_suspend_thread_count := mp_suspend_thread_count (mempools s a) + 1\<rparr>) \<and>
     mp_words s' = mp_words s \<and> frames s' = (frames s)(t := Some (InMpAlloc a)) \<and>
     (0 < sint time \<and> \<not> activated s (ThreadTimer t) \<longrightarrow> ThreadTimer t \<in> set (rt_timer_list s') \<and>
       tm_timeout_tick (timers s' (ThreadTimer t)) = rt_tick s + time) \<and>
     (\<exists>c. rt_current_thread s' = Some c \<and> c \<noteq> t \<and> highest_ready s' c)"

lemma mp_alloc_wait:
  assumes inv: "kinv s" and w: "can_wait s t" and time: "wait_time time" "time \<noteq> 0"
    and none: "mp_block_free_count (mempools s a) = 0"
  shows "\<exists>s'. rt_mp_alloc a time s = Some (Waits, s') \<and> mp_waits_on a t time s s'"
proof -
  have c: "rt_current_thread s = Some t" and r: "stat s t = RT_THREAD_READY" and lock: "rt_scheduler_lock_nest s = 0"
    and irq: "rt_interrupt_nest s = 0" using w by (simp_all add: can_wait_def)
  obtain u where u: "u \<noteq> t" "stat s u = RT_THREAD_READY" using w by (auto simp: can_wait_def)
  obtain g where g: "rt_thread_suspend t s = Some (RT_EOK, s\<lparr>
      threads := (threads s)(t := (threads s t)\<lparr>t_stat := RT_THREAD_SUSPEND\<rparr>),
      tlists := tl_remove t (tlists s), rt_thread_ready_priority_group := g\<rparr>)" (is "_ = Some (_, ?s1)")
    "kinv (s\<lparr>threads := (threads s)(t := (threads s t)\<lparr>t_stat := RT_THREAD_SUSPEND\<rparr>),
      tlists := tl_remove t (tlists s), rt_thread_ready_priority_group := g\<rparr>)"
    "unlinked t (tl_remove t (tlists s))"
    using rt_thread_suspend_spec [OF inv r] by metis
  note S = sched_okD [OF kinvD(1) [OF inv]]
  have nq: "t \<notin> set (tlists s (MpQ a))"
    using S(2) [of t "MpQ a"] queue_ok_wait [of "MpQ a" "threads s t"] r by auto
  then have e: "tl_remove t (tlists s) (MpQ a) = tlists s (MpQ a)" by (simp add: tl_remove_def remove1_idem)
  let ?L = "(tl_remove t (tlists s))(MpQ a := t # tlists s (MpQ a))"
  let ?s2 = "?s1\<lparr>tlists := ?L\<rparr>"
  have "sched_inv ?s2"
    using sched_ok_wait [OF kinvD(1) [OF g(2)], of t "MpQ a" "t # tlists s (MpQ a)"]
      nq e g(3) wf_listsD(1) [OF S(1), of "MpQ a"] by simp
  then have k2: "kinv ?s2" using kinvD(2,3) [OF g(2)] unfolding kinv_def by (simp add: stacks_ok_def)
  let ?s3 = "mp_at a (\<lambda>m. m\<lparr>mp_suspend_thread_count := mp_suspend_thread_count m + 1\<rparr>) ?s2"
  have k3: "kinv ?s3" and st3: "stat ?s3 t = RT_THREAD_SUSPEND" using k2 by (simp_all add: kinv_def stacks_ok_def)
  have act: "activated ?s3 (ThreadTimer t) = activated s (ThreadTimer t)"
    by (simp add: activated_def timer_flag_def)
  have "\<exists>s4. (if 0 < sint time
      then do {
        let s4 = snd (rt_timer_control (ThreadTimer t) RT_TIMER_CTRL_SET_TIME time ?s3);
        (_, s5) \<leftarrow> rt_timer_start (ThreadTimer t) s4;
        Some s5 }
      else Some ?s3) = Some s4 \<and> kinv s4 \<and> kframe ?s3 s4 \<and> threads s4 = threads ?s3 \<and> tlists s4 = tlists ?s3 \<and>
      rt_current_thread s4 = rt_current_thread ?s3 \<and> frames s4 = frames ?s3 \<and>
      (0 < sint time \<and> \<not> activated s (ThreadTimer t) \<longrightarrow> ThreadTimer t \<in> set (rt_timer_list s4) \<and>
        tm_timeout_tick (timers s4 (ThreadTimer t)) = rt_tick s + time)"
  proof (cases "0 < sint time")
    case True
    show ?thesis
    proof (rule own_timer_start [OF k3 st3 wait_time_half [OF time(1) True]], goal_cases)
      case (1 s4 r)
      then show ?case using True act by simp
    qed
  next
    case False
    then show ?thesis using k3 by simp
  qed
  then obtain s4 where s4: "(if 0 < sint time
      then do {
        let s4 = snd (rt_timer_control (ThreadTimer t) RT_TIMER_CTRL_SET_TIME time ?s3);
        (_, s5) \<leftarrow> rt_timer_start (ThreadTimer t) s4;
        Some s5 }
      else Some ?s3) = Some s4" "kinv s4" "kframe ?s3 s4" "threads s4 = threads ?s3" "tlists s4 = tlists ?s3"
      "rt_current_thread s4 = rt_current_thread ?s3" "frames s4 = frames ?s3"
      "0 < sint time \<and> \<not> activated s (ThreadTimer t) \<longrightarrow> ThreadTimer t \<in> set (rt_timer_list s4) \<and>
        tm_timeout_tick (timers s4 (ThreadTimer t)) = rt_tick s + time" by blast
  let ?s5 = "s4\<lparr>frames := (frames s4)(t := Some (InMpAlloc a))\<rparr>"
  have k5: "kinv ?s5" "stat ?s5 u = RT_THREAD_READY" "rt_current_thread ?s5 = Some t"
    using s4(2,4,6) u c by simp_all
  obtain c' p where sc: "rt_schedule ?s5 = Some (?s5\<lparr>rt_current_thread := Some c', rt_current_priority := p\<rparr>)"
    "kinv (?s5\<lparr>rt_current_thread := Some c', rt_current_priority := p\<rparr>)"
    "if rt_scheduler_lock_nest ?s5 = 0 then highest_ready ?s5 c' else c' = t"
    by (rule kinv_schedule [OF k5])
  have h: "highest_ready ?s5 c'" using sc(3) kframeD(3) [OF s4(3)] lock by simp
  then have "c' \<noteq> t" using s4(4) by (auto simp: highest_ready_def)
  moreover have "rt_mp_alloc a time s = Some (Waits, ?s5\<lparr>rt_current_thread := Some c', rt_current_priority := p\<rparr>)"
    using none time(2) irq c g(1) s4(1) sc(1) e
    by (cases "0 < sint time") (auto simp: rt_mp_alloc_def rt_thread_self_def tl_insert_after_def Let_def)
  ultimately show ?thesis
    using sc(2) h s4(3-8) kframeD(9,10) [OF s4(3)]
    by (intro exI [of _ "?s5\<lparr>rt_current_thread := Some c', rt_current_priority := p\<rparr>"]) (simp add: mp_waits_on_def)
qed

lemma rt_mp_alloc_spec:
  assumes "kinv s" "can_wait s t" "wait_time time" "mp_shape a free used s"
  shows "\<exists>r s'. rt_mp_alloc a time s = Some (r, s') \<and> kinv s' \<and>
    (case free of
       p # ps \<Rightarrow> r = Returns (Some (p + 4)) \<and> s' = mp_taken a p s \<and> mp_shape a ps (p # used) s'
     | [] \<Rightarrow> if time = 0 then r = Returns None \<and> s' = s
       else r = Waits \<and> mp_waits_on a t time s s')"
proof (cases free)
  case (Cons p ps)
  have "mp_block_free_count (mempools s a) \<noteq> 0" using assms(4) Cons by (auto simp: mp_shape_def)
  then show ?thesis using assms(1) Cons mp_take_block_spec [OF assms(4) [unfolded Cons]]
    by (simp add: rt_mp_alloc_def)
next
  case Nil
  have e: "mp_block_free_count (mempools s a) = 0" using assms(4) Nil by (auto simp: mp_shape_def word_unat_eq_iff)
  show ?thesis
  proof (cases "time = 0")
    case True
    then show ?thesis using e Nil assms(1) by (simp add: rt_mp_alloc_def)
  next
    case False
    from mp_alloc_wait [OF assms(1-3) False e] show ?thesis using Nil False by (auto simp: mp_waits_on_def)
  qed
qed

text \<open>The thread that a freed block wakes.\<close>

definition mp_wakes :: "nat \<Rightarrow> nat \<Rightarrow> kstate \<Rightarrow> kstate \<Rightarrow> bool" where
  "mp_wakes a t s s' \<longleftrightarrow>
     threads s' = (threads s)(t := (threads s t)\<lparr>t_error := RT_EOK, t_stat := RT_THREAD_READY\<rparr>) \<and>
     tlists s' = tl_insert_before (Ready (unat (prio s t))) t (tl_remove t (tlists s)) \<and>
     tlists s' (MpQ a) = tl (tlists s (MpQ a)) \<and> frames s' = frames s"

lemma rt_mp_free_spec:
  assumes inv: "kinv s" "rt_current_thread s = Some c" and sh: "mp_shape a free (us @ p # vs) s"
    and ok: "mp_waits_ok a s"
  shows "\<exists>s'. rt_mp_free (p + 4) s = Some s' \<and> kinv s' \<and> mp_shape a (p # free) (us @ vs) s' \<and> mp_waits_ok a s' \<and>
    rt_current_thread s' \<noteq> None \<and>
    (case tlists s (MpQ a) of [] \<Rightarrow> s' = mp_given a p s | t # ts \<Rightarrow> mp_wakes a t s s')"
proof -
  note gv = mp_given_spec [OF sh]
  have base: "rt_mp_free (p + 4) s =
      (if mp_suspend_thread_count (mempools s a) > 0
       then do {
         t \<leftarrow> first_thread (MpQ a) (mp_given a p s);
         (_, s4) \<leftarrow> rt_thread_resume t (thread_at t (t_error_update (\<lambda>_. RT_EOK)) (mp_given a p s));
         let s5 = mp_at a (\<lambda>m. m\<lparr>mp_suspend_thread_count := mp_suspend_thread_count m - 1\<rparr>) s4;
         rt_schedule s5 }
       else Some (mp_given a p s))"
    using gv(2) by (simp add: rt_mp_free_def mp_given_def mp_word_at_def Let_def)
  show ?thesis
  proof (cases "tlists s (MpQ a)")
    case Nil
    then have "mp_suspend_thread_count (mempools s a) = 0" using ok by (simp add: mp_waits_ok_def word_unat_eq_iff)
    then show ?thesis using base Nil inv ok gv(1) by simp
  next
    case (Cons t ts)
    then have cnt: "unat (mp_suspend_thread_count (mempools s a)) = Suc (length ts)"
      using ok by (simp add: mp_waits_ok_def)
    then have pos: "0 < mp_suspend_thread_count (mempools s a)" by (simp add: word_less_nat_alt)
    let ?s1 = "thread_at t (t_error_update (\<lambda>_. RT_EOK)) (mp_given a p s)"
    note S = sched_okD [OF kinvD(1) [OF inv(1)]]
    have "kinv (thread_at t (t_error_update (\<lambda>_. RT_EOK)) s2)" if "kinv s2" for s2 using that by simp
    then have k1: "kinv ?s1" using inv(1) mp_taken_same(6) by metis
    have "stat s t = RT_THREAD_SUSPEND"
      using S(2) [of t "MpQ a"] queue_ok_wait [of "MpQ a" "threads s t"] Cons by simp
    then have st1: "stat ?s1 t = RT_THREAD_SUSPEND" by simp
    obtain s4 where s4: "rt_thread_resume t ?s1 = Some (RT_EOK, s4)" "kinv s4" "kframe ?s1 s4"
      "threads s4 = (threads ?s1)(t := (threads ?s1 t)\<lparr>t_stat := RT_THREAD_READY\<rparr>)"
      "tlists s4 = tl_insert_before (Ready (unat (prio ?s1 t))) t (tl_remove t (tlists ?s1))"
      "rt_current_thread s4 = rt_current_thread ?s1" "frames s4 = frames ?s1"
      using rt_thread_resume_spec [OF k1 st1] by metis
    let ?s5 = "mp_at a (\<lambda>m. m\<lparr>mp_suspend_thread_count := mp_suspend_thread_count m - 1\<rparr>) s4"
    have k5: "kinv ?s5" "stat ?s5 t = RT_THREAD_READY" "rt_current_thread ?s5 = Some c"
      using s4 inv by (simp_all add: kinv_def stacks_ok_def)
    obtain c' pr where sc: "rt_schedule ?s5 = Some (?s5\<lparr>rt_current_thread := Some c', rt_current_priority := pr\<rparr>)"
      "kinv (?s5\<lparr>rt_current_thread := Some c', rt_current_priority := pr\<rparr>)"
      by (rule kinv_schedule [OF k5])
    let ?s' = "?s5\<lparr>rt_current_thread := Some c', rt_current_priority := pr\<rparr>"
    have res: "rt_mp_free (p + 4) s = Some ?s'"
      using base pos Cons s4(1) sc(1) by (simp add: first_thread_def)
    have tl: "tlists ?s' (MpQ a) = ts"
      using s4(5) Cons by (simp add: tl_insert_before_def tl_remove_def)
    have mp: "mempools s4 = mempools (mp_given a p s)" "mp_words s4 = mp_words (mp_given a p s)"
      using kframeD(9,10) [OF s4(3)] by simp_all
    have "mp_shape a (p # free) (us @ vs) ?s'"
      using gv(1) by (simp add: mp_shape_def mp)
    moreover have "mp_suspend_thread_count (mempools s a) \<noteq> 0" using pos by auto
    then have "mp_waits_ok a ?s'"
      using cnt tl by (simp add: mp_waits_ok_def mp mp_given_def mp_word_at_def unat_minus_one)
    moreover have "frames (mp_given a p s) = frames s" by (simp add: mp_given_def mp_word_at_def)
    then have "mp_wakes a t s ?s'"
      using s4 Cons tl by (simp add: mp_wakes_def)
    ultimately show ?thesis using res sc(2) Cons by (intro exI [of _ ?s']) simp
  qed
qed


text \<open>A thread whose wait times out leaves the pool's list, but the count of the waiting threads
  stays. The next freed block then goes to a thread that is not there.\<close>

lemma rt_mp_free_no_waiter:
  assumes "mp_words s p = OwnerPool a" "tlists s (MpQ a) = []" "mp_suspend_thread_count (mempools s a) \<noteq> 0"
  shows "rt_mp_free (p + 4) s = None"
  using assms by (simp add: rt_mp_free_def mp_word_at_def Let_def first_thread_def word_gt_0)

lemma mp_timeout_free:
  assumes inv: "kinv s" "rt_current_thread s = Some c" and sh: "mp_shape a free (us @ p # vs) s"
    and ok: "mp_waits_ok a s" and t: "tlists s (MpQ a) = [t]" "ThreadTimer t \<notin> set (rt_timer_list s)"
  shows "\<exists>s'. rt_thread_timeout t s = Some s' \<and> kinv s' \<and> tlists s' (MpQ a) = [] \<and>
    mp_suspend_thread_count (mempools s' a) = 1 \<and> rt_mp_free (p + 4) s' = None"
proof -
  note S = sched_okD [OF kinvD(1) [OF inv(1)]]
  have st: "stat s t = RT_THREAD_SUSPEND"
    using S(2) [of t "MpQ a"] queue_ok_wait [of "MpQ a" "threads s t"] t(1) by simp
  obtain s' c' where s': "rt_thread_timeout t s = Some s'" "kinv s'" "kframe s s'"
    "tlists s' = tl_insert_before (Ready (unat (prio s t))) t (tl_remove t (tlists s))"
    by (rule rt_thread_timeout_spec [OF inv(1) st t(2) inv(2)]) blast
  have "mp_suspend_thread_count (mempools s' a) = 1"
    using ok t(1) kframeD(9) [OF s'(3)] by (simp add: mp_waits_ok_def word_unat_eq_iff)
  moreover have "tlists s' (MpQ a) = []" using t(1) by (simp add: s'(4) tl_insert_before_def tl_remove_def)
  moreover have "mp_words s' p = OwnerPool a" using mp_given_spec(2) [OF sh] kframeD(10) [OF s'(3)] by simp
  ultimately show ?thesis using s'(1,2) rt_mp_free_no_waiter [of s' p a] by simp
qed

subsection \<open>Sequences of allocations and frees\<close>

text \<open>A program that keeps the blocks it was given, and gives back only those.\<close>

datatype mp_op = Alloc | Free nat

primrec mp_run :: "nat \<Rightarrow> mp_op list \<Rightarrow> nat list \<Rightarrow> kstate \<Rightarrow> (nat list \<times> kstate) option" where
  "mp_run a [] held s = Some (held, s)"
| "mp_run a (opn # ops) held s =
     (case opn of
        Alloc \<Rightarrow> (case rt_mp_alloc a 0 s of
            Some (Returns (Some b), s1) \<Rightarrow> mp_run a ops (b # held) s1
          | Some (Returns None, s1) \<Rightarrow> mp_run a ops held s1
          | _ \<Rightarrow> None)
      | Free i \<Rightarrow> if i < length held
          then do { s1 \<leftarrow> rt_mp_free (held ! i) s; mp_run a ops (take i held @ drop (Suc i) held) s1 }
          else mp_run a ops held s)"

lemma mp_run_spec:
  assumes "kinv s" "rt_current_thread s \<noteq> None" "mp_shape a free used s" "mp_waits_ok a s"
  shows "\<exists>free' used' s'. mp_run a ops (map (\<lambda>p. p + 4) used) s = Some (map (\<lambda>p. p + 4) used', s') \<and>
    kinv s' \<and> mp_shape a free' used' s' \<and> mp_waits_ok a s' \<and>
    set (mp_blocks (mempools s' a)) = set (mp_blocks (mempools s a))"
  using assms
proof (induction ops arbitrary: s free used)
  case Nil
  then show ?case by auto
next
  case (Cons opn ops)
  obtain c where c: "rt_current_thread s = Some c" using Cons.prems(2) by blast
  show ?case
  proof (cases opn)
    case Alloc
    show ?thesis
    proof (cases free)
      case Nil
      then have "mp_block_free_count (mempools s a) = 0" using Cons.prems(3) by (auto simp: mp_shape_def word_unat_eq_iff)
      then show ?thesis using Cons.IH [OF Cons.prems] Alloc by (simp add: rt_mp_alloc_def)
    next
      case (Cons p ps)
      note tk = mp_take_block_spec [OF Cons.prems(3) [unfolded Cons]]
      have nz: "mp_block_free_count (mempools s a) \<noteq> 0" using Cons.prems(3) Cons by (auto simp: mp_shape_def)
      have b: "mp_blocks (mempools (mp_taken a p s) a) = mp_blocks (mempools s a)"
        by (simp add: mp_taken_def mp_word_at_def mp_blocks_def)
      from Cons.IH [of "mp_taken a p s" ps "p # used"] tk(2) Cons.prems show ?thesis
        using Alloc nz tk(1) b by (simp add: rt_mp_alloc_def)
    qed
  next
    case (Free i)
    show ?thesis
    proof (cases "i < length used")
      case False
      then show ?thesis using Cons.IH [OF Cons.prems] Free by simp
    next
      case True
      then have u: "used = take i used @ used ! i # drop (Suc i) used" by (rule id_take_nth_drop)
      obtain s1 where s1: "rt_mp_free (used ! i + 4) s = Some s1" "kinv s1"
        "mp_shape a (used ! i # free) (take i used @ drop (Suc i) used) s1" "mp_waits_ok a s1"
        "rt_current_thread s1 \<noteq> None"
        using rt_mp_free_spec [OF Cons.prems(1) c, of a free "take i used" "used ! i" "drop (Suc i) used"]
          Cons.prems(3,4) u by auto
      have b: "set (mp_blocks (mempools s1 a)) = set (mp_blocks (mempools s a))"
        using s1(3) Cons.prems(3) u by (metis (no_types, lifting) mp_shape_def Un_insert_left Un_insert_right list.simps(15) set_append sup_assoc)
      from Cons.IH [OF s1(2,5,3,4)] show ?thesis
        using True Free s1(1) b by (simp add: take_map drop_map)
    qed
  qed
qed


subsection \<open>Properties\<close>

lemma demo_mp [simp]: "mp_shape a [0x1000, 0x1008] [] demo" "mp_waits_ok a demo"
  by (auto simp: mp_shape_def mp_waits_ok_def mp_blocks_def mp_stride_def demo_def upt_conv_Cons)

text \<open>A pool with both blocks taken, and one whose block a thread waits for.\<close>

definition demo_pool :: kstate where
  "demo_pool = mp_taken 80 0x1008 (mp_taken 80 0x1000 demo)"

lemma demo_pool_simps [simp]:
  "kinv demo_pool" "rt_current_thread demo_pool = Some 3" "mp_shape 80 [] [0x1008, 0x1000] demo_pool"
  "mp_waits_ok 80 demo_pool" "can_wait demo_pool 3"
proof -
  have 1: "mp_shape 80 [0x1008] [0x1000] (mp_taken 80 0x1000 demo)"
    by (rule mp_take_block_spec(2)) simp
  show "mp_shape 80 [] [0x1008, 0x1000] demo_pool"
    unfolding demo_pool_def by (rule mp_take_block_spec(2) [OF 1])
  show "can_wait demo_pool 3"
    using demo_can_wait by (simp add: can_wait_def demo_pool_def) (simp add: mp_taken_def mp_word_at_def)
qed (simp_all add: demo_pool_def)

lemma mp_shape_waits [simp]:
  "mp_shape a free used (s\<lparr>tlists := L, mempools := (mempools s)(a := (mempools s a)\<lparr>mp_suspend_thread_count := n\<rparr>)\<rparr>) =
     mp_shape a free used s"
  by (simp add: mp_shape_def)

definition demo_pool_waited :: kstate where
  "demo_pool_waited = demo_pool\<lparr>tlists := (tlists demo)(MpQ 80 := [2]),
     mempools := (mempools demo_pool)(80 := (mempools demo_pool 80)\<lparr>mp_suspend_thread_count := 1\<rparr>)\<rparr>"

lemma demo_pool_waited_simps [simp]:
  "kinv demo_pool_waited" "rt_current_thread demo_pool_waited = Some 3"
  "mp_shape 80 [] [0x1008, 0x1000] demo_pool_waited" "mp_waits_ok 80 demo_pool_waited"
  "tlists demo_pool_waited (MpQ 80) = [2]" "ThreadTimer 2 \<notin> set (rt_timer_list demo_pool_waited)"
proof -
  have k: "kinv (demo_waiting (MpQ 80))" by simp
  show "kinv demo_pool_waited"
    using k by (simp add: demo_pool_waited_def demo_pool_def mp_taken_def mp_word_at_def demo_waiting_def
        kinv_def stacks_ok_def)
  show "mp_shape 80 [] [0x1008, 0x1000] demo_pool_waited"
    unfolding demo_pool_waited_def by (simp only: mp_shape_waits demo_pool_simps)
qed (simp_all add: demo_pool_waited_def mp_waits_ok_def demo_pool_def mp_taken_def mp_word_at_def demo_def)

text \<open>
  \<open>rt_mp_alloc\<close> hands out the first free block, whose word then carries the pool's address; with
  no free block it gives NULL at once if the caller does not wait, and otherwise the caller goes
  to the front of the pool's list and is counted.
\<close>

theorem rt_mp_alloc_correct:
  assumes "kinv s" "can_wait s t" "wait_time time" "mp_shape a free used s"
  shows "\<exists>r s'. rt_mp_alloc a time s = Some (r, s') \<and> kinv s' \<and>
    (case free of
       p # ps \<Rightarrow> r = Returns (Some (p + 4)) \<and> s' = mp_taken a p s \<and> mp_shape a ps (p # used) s'
     | [] \<Rightarrow> if time = 0 then r = Returns None \<and> s' = s
       else r = Waits \<and> mp_waits_on a t time s s')"
  by (rule rt_mp_alloc_spec [OF assms])

theorem rt_mp_alloc_correct_witness:
  "\<exists>r s'. rt_mp_alloc 80 (5::u32) demo_pool = Some (r, s') \<and> kinv s' \<and>
    (case ([] :: nat list) of
       p # ps \<Rightarrow> r = Returns (Some (p + 4)) \<and> s' = mp_taken 80 p demo_pool \<and> mp_shape 80 ps (p # [0x1008, 0x1000 :: nat]) s'
     | [] \<Rightarrow> if (5::u32) = 0 then r = Returns None \<and> s' = demo_pool
       else r = Waits \<and> mp_waits_on 80 3 (5::u32) demo_pool s')"
  by (rule rt_mp_alloc_correct [where used = "[0x1008, 0x1000]"]) (simp_all add: wait_time_def)

text \<open>
  \<open>rt_mp_free\<close> of a block that was handed out makes it the first free block of its own pool, and
  makes the first waiting thread ready with no error.
\<close>

theorem rt_mp_free_correct:
  assumes "kinv s" "rt_current_thread s = Some c" "mp_shape a free (us @ p # vs) s" "mp_waits_ok a s"
  shows "\<exists>s'. rt_mp_free (p + 4) s = Some s' \<and> kinv s' \<and> mp_shape a (p # free) (us @ vs) s' \<and> mp_waits_ok a s' \<and>
    rt_current_thread s' \<noteq> None \<and>
    (case tlists s (MpQ a) of [] \<Rightarrow> s' = mp_given a p s | t # ts \<Rightarrow> mp_wakes a t s s')"
  by (rule rt_mp_free_spec [OF assms])

theorem rt_mp_free_correct_witness:
  "\<exists>s'. rt_mp_free (0x1000 + 4) demo_pool_waited = Some s' \<and> kinv s' \<and> mp_shape 80 (0x1000 # []) ([0x1008 :: nat] @ []) s' \<and> mp_waits_ok 80 s' \<and>
    rt_current_thread s' \<noteq> None \<and>
    (case tlists demo_pool_waited (MpQ 80) of [] \<Rightarrow> s' = mp_given 80 0x1000 demo_pool_waited | t # ts \<Rightarrow> mp_wakes 80 t demo_pool_waited s')"
  by (rule rt_mp_free_correct [where c = 3]) simp_all



text \<open>
  Property C17.
  A timed wait breaks the pool: when the only waiting thread times out, \<open>suspend_thread_count\<close>
  stays one with nobody on the list, and the next \<open>rt_mp_free\<close> takes the list head itself for a
  thread.
\<close>

theorem rt_mp_free_after_timeout:
  assumes "kinv s" "rt_current_thread s = Some c" "mp_shape a free (us @ p # vs) s" "mp_waits_ok a s"
    and "tlists s (MpQ a) = [t]" "ThreadTimer t \<notin> set (rt_timer_list s)"
  shows "\<exists>s'. rt_thread_timeout t s = Some s' \<and> kinv s' \<and> tlists s' (MpQ a) = [] \<and>
    mp_suspend_thread_count (mempools s' a) = 1 \<and> rt_mp_free (p + 4) s' = None"
  by (rule mp_timeout_free [OF assms])

theorem rt_mp_free_after_timeout_witness:
  "\<exists>s'. rt_thread_timeout 2 demo_pool_waited = Some s' \<and> kinv s' \<and> tlists s' (MpQ 80) = [] \<and>
    mp_suspend_thread_count (mempools s' 80) = 1 \<and> rt_mp_free (0x1000 + 4) s' = None"
  by (rule rt_mp_free_after_timeout [where us = "[0x1008]" and vs = "[]" and c = 3 and free = "[]"]) simp_all

end
