(* ===== verification/RtClock.thy ===== *)
theory RtClock
  imports RtThread
begin

text \<open>
  The system tick of \<^verbatim>\<open>src/clock.c\<close>, the timers that run out (\<open>rt_timer_check\<close> of
  \<^verbatim>\<open>src/timer.c\<close>), and the idle thread of \<^verbatim>\<open>src/idle.c\<close>, which gives back what closed threads
  leave. Functions of the application are a parameter: \<open>call f x s\<close> is the state the function
  at address \<open>f\<close> leaves when it is called with \<open>x\<close>, or \<open>None\<close> when it does not return. The
  idle hook is taken as not set.
\<close>

type_synonym callbacks = "nat \<Rightarrow> nat \<Rightarrow> kstate \<Rightarrow> kstate option"

subsection \<open>Timers that run out\<close>

definition timer_call :: "callbacks \<Rightarrow> timer_id \<Rightarrow> kstate \<Rightarrow> kstate option" where
  "timer_call call x s =
     (case tm_timeout_func (timers s x) of
        TimeoutThread \<Rightarrow> rt_thread_timeout (tm_parameter (timers s x)) s
      | TimeoutUser f \<Rightarrow> call f (tm_parameter (timers s x)) s)"

text \<open>One round of the loop, for a timer whose tick has come.\<close>

definition timer_expire :: "callbacks \<Rightarrow> timer_id \<Rightarrow> kstate \<Rightarrow> kstate option" where
  "timer_expire call x s =
     do {
       let s1 = timer_remove x s;
       s2 \<leftarrow> timer_call call x s1;
       let s3 = set_timer_flag x (timer_flag x s2 AND NOT RT_TIMER_FLAG_ACTIVATED) s2;
       if timer_flag x s2 AND RT_TIMER_FLAG_PERIODIC \<noteq> 0 \<and> timer_flag x s2 AND RT_TIMER_FLAG_ACTIVATED \<noteq> 0
       then do { (_, s4) \<leftarrow> rt_timer_start x s3; Some s4 }
       else Some s3 }"

definition due :: "timer_id \<Rightarrow> kstate \<Rightarrow> bool" where
  "due x s \<longleftrightarrow> rt_tick s - tm_timeout_tick (timers s x) < RT_TICK_MAX div 2"

partial_function (option) rt_timer_check :: "callbacks \<Rightarrow> kstate \<Rightarrow> kstate option" where
  "rt_timer_check call s =
     (case rt_timer_list s of
        [] \<Rightarrow> Some s
      | x # _ \<Rightarrow>
          if due x s then do { s1 \<leftarrow> timer_expire call x s; rt_timer_check call s1 }
          else Some s)"

subsection \<open>The tick\<close>

definition rt_system_tick_init :: "kstate \<Rightarrow> kstate" where
  "rt_system_tick_init s = s"

definition rt_tick_get :: "kstate \<Rightarrow> rt_tick_t" where
  "rt_tick_get s = rt_tick s"

definition rt_tick_set :: "rt_tick_t \<Rightarrow> kstate \<Rightarrow> kstate" where
  "rt_tick_set tick s = s\<lparr>rt_tick := tick\<rparr>"

definition rt_tick_increase :: "callbacks \<Rightarrow> kstate \<Rightarrow> kstate option" where
  "rt_tick_increase call s =
     do {
       let s1 = s\<lparr>rt_tick := rt_tick s + 1\<rparr>;
       t \<leftarrow> rt_thread_self s1;
       let s2 = thread_at t (\<lambda>th. th\<lparr>t_remaining_tick := t_remaining_tick th - 1\<rparr>) s1;
       s3 \<leftarrow> (if t_remaining_tick (threads s2 t) = 0
              then do {
                (_, s3) \<leftarrow> rt_thread_yield
                  (thread_at t (\<lambda>th. th\<lparr>t_remaining_tick := t_init_tick th\<rparr>) s2);
                Some s3 }
              else Some s2);
       rt_timer_check call s3 }"

abbreviation RT_TICK_PER_SECOND :: u32 where "RT_TICK_PER_SECOND \<equiv> 100"

definition rt_tick_from_millisecond :: "u32 \<Rightarrow> u32" where
  "rt_tick_from_millisecond ms = (RT_TICK_PER_SECOND * ms + 999) div 1000"

subsection \<open>The idle thread\<close>

definition thread_cleanup :: "callbacks \<Rightarrow> nat \<Rightarrow> kstate \<Rightarrow> kstate option" where
  "thread_cleanup call t s =
     (case t_cleanup (threads s t) of None \<Rightarrow> Some s | Some f \<Rightarrow> call f t s)"

text \<open>One round for the first closed thread: a thread in memory of the application ends the
  call, any other gives its stack and its structure back to the heap.\<close>

definition idle_reap :: "callbacks \<Rightarrow> nat \<Rightarrow> kstate \<Rightarrow> (bool \<times> kstate) option" where
  "idle_reap call t s =
     RT_DEBUG_NOT_IN_INTERRUPT s
       (do {
          let s1 = lists_at (tl_remove t) s;
          s2 \<leftarrow> thread_cleanup call t s1;
          if rt_object_is_systemobject (ObjThread t) s2 then Some (False, s2)
          else do {
            s3 \<leftarrow> k_free (Some (t_stack_addr (threads s2 t))) s2;
            s4 \<leftarrow> rt_object_delete (ObjThread t) s3;
            Some (True, s4) } })"

partial_function (option) rt_thread_idle_excute :: "callbacks \<Rightarrow> kstate \<Rightarrow> kstate option" where
  "rt_thread_idle_excute call s =
     (case tlists s Defunct of
        [] \<Rightarrow> Some s
      | t # _ \<Rightarrow> do {
          (again, s1) \<leftarrow> idle_reap call t s;
          if again then rt_thread_idle_excute call s1 else Some s1 })"

abbreviation IDLE_THREAD_STACK_SIZE :: u32 where "IDLE_THREAD_STACK_SIZE \<equiv> 256"

definition rt_thread_idle_init :: "nat \<Rightarrow> nat \<Rightarrow> nat \<Rightarrow> kstate \<Rightarrow> kstate option" where
  "rt_thread_idle_init idle entry stack s =
     do {
       (_, s1) \<leftarrow> rt_thread_init idle [0x74, 0x69, 0x64, 0x6c, 0x65, 0] entry 0 stack
         IDLE_THREAD_STACK_SIZE 31 32 s;
       (_, s2) \<leftarrow> rt_thread_startup idle s1;
       Some s2 }"

subsection \<open>The loop ends, and no due timer is left\<close>

text \<open>Some thread runs, and it is ready.\<close>

definition running :: "kstate \<Rightarrow> bool" where
  "running s \<longleftrightarrow> (\<exists>c. rt_current_thread s = Some c \<and> stat s c = RT_THREAD_READY)"

lemma running_cong:
  "rt_current_thread s' = rt_current_thread s \<Longrightarrow> threads s' = threads s \<Longrightarrow> running s' = running s"
  by (simp add: running_def)

text \<open>
  Functions of the application that may be called: they return, keep the invariant of the
  kernel and the tick, and start no timer and change no period; they may stop timers, as a call that
  wakes a thread does.
\<close>

definition quiet :: "callbacks \<Rightarrow> bool" where
  "quiet call \<longleftrightarrow> (\<forall>f x s. kinv s \<and> running s \<longrightarrow>
     (\<exists>s' P. call f x s = Some s' \<and> kinv s' \<and> running s' \<and> rt_tick s' = rt_tick s \<and>
        timers s' = timers s \<and> rt_timer_list s' = filter P (rt_timer_list s) \<and>
        (\<forall>y. periodic s' y = periodic s y)))"

abbreviation timeout_tick :: "kstate \<Rightarrow> timer_id \<Rightarrow> rt_tick_t" where
  "timeout_tick s x \<equiv> tm_timeout_tick (timers s x)"

text \<open>Seen from a tick \<open>b\<close> not after now nor after any timeout, the list is sorted and all of it, and
  every period that starts now, lies within half the range of the ticks.\<close>

definition timers_ok :: "rt_tick_t \<Rightarrow> kstate \<Rightarrow> bool" where
  "timers_ok b s \<longleftrightarrow> rt_tick s - b < RT_TICK_MAX div 2 \<and> window b (timeout_tick s) (rt_timer_list s) \<and>
     in_order b (timeout_tick s) (rt_timer_list s) \<and>
     (\<forall>n. Timer n \<in> set (rt_timer_list s) \<longrightarrow> (\<exists>f. tm_timeout_func (timers s (Timer n)) = TimeoutUser f)) \<and>
     (\<forall>x \<in> set (rt_timer_list s). periodic s x \<longrightarrow> tm_init_tick (timers s x) \<noteq> 0 \<and>
        unat (rt_tick s - b) + unat (tm_init_tick (timers s x)) < 0x7fffffff)"

lemma due_iff:
  assumes "rt_tick s - b < RT_TICK_MAX div 2" "timeout_tick s x - b < RT_TICK_MAX div 2"
  shows "due x s \<longleftrightarrow> unat (timeout_tick s x - b) \<le> unat (rt_tick s - b)"
proof -
  note d = tick_diff [of "rt_tick s" b "timeout_tick s x"]
  show ?thesis
  proof (cases "rt_tick s - timeout_tick s x = 0")
    case True
    then show ?thesis using d(1) assms by (simp add: due_def half_ticks)
  next
    case False
    then have "unat (rt_tick s - b) \<noteq> unat (timeout_tick s x - b)" using d(1) assms by (simp add: half_ticks)
    then show ?thesis using d(2) [OF _ _ False] assms by (auto simp: due_def half_ticks)
  qed
qed

text \<open>A timer that starts now is not due.\<close>

lemma not_due_started:
  assumes "timeout_tick s x = rt_tick s + k" "k \<noteq> 0" "unat k < 0x7fffffff"
  shows "\<not> due x s"
proof -
  have k: "0 < unat k" using assms(2) by (metis unat_0_iff neq0_conv)
  have "unat (- k) = 2 ^ 32 - unat k"
    using k unat_sub_if' [of 0 k] by simp
  then have "0x7fffffff \<le> unat (- k)" using assms(3) by simp
  then show ?thesis
    using assms(1) by (simp add: due_def half_ticks word_less_nat_alt not_less)
qed

lemma sublist_ok:
  assumes "window b tick l" "in_order b tick l"
  shows "window b tick (filter P l)" "in_order b tick (filter P l)" "window b tick (remove1 x l)"
  using assms by (auto simp: window_def in_order_def sorted_filter dest: notin_set_remove1 [THEN notE])

lemma filter_insert_length:
  "length (filter P (timer_list_insert tick x l)) = length (filter P (x # l))"
  by (induction l) auto

lemma timer_start_ok:
  assumes inv: "kinv s" and n: "x = Timer n" and ok: "timers_ok b s" and x: "x \<notin> set (rt_timer_list s)"
    and k: "periodic s x \<longrightarrow> tm_init_tick (timers s x) \<noteq> 0"
      "unat (rt_tick s - b) + unat (tm_init_tick (timers s x)) < 0x7fffffff"
    and f: "tm_timeout_func (timers s x) = TimeoutUser f" and na: "\<not> activated s x"
  shows "\<exists>s'. rt_timer_start x s = Some (RT_EOK, s') \<and> kinv s' \<and> timers_ok b s' \<and>
    rt_tick s' = rt_tick s \<and> threads s' = threads s \<and> rt_current_thread s' = rt_current_thread s \<and>
    timers s' = (timers s)(x := (timers s x)\<lparr>tm_timeout_tick := rt_tick s + tm_init_tick (timers s x)\<rparr>) \<and>
    rt_timer_list s' = timer_list_insert (timeout_tick s') x (rt_timer_list s) \<and>
    window b (timeout_tick s') (x # rt_timer_list s) \<and> activated s' x"
proof -
  let ?k = "tm_init_tick (timers s x)" and ?l = "rt_timer_list s"
  let ?tm = "(timers s)(x := (timers s x)\<lparr>tm_timeout_tick := rt_tick s + ?k\<rparr>)"
  let ?tick = "\<lambda>y. tm_timeout_tick (?tm y)"
  have half: "?k < RT_TICK_MAX div 2" using k(2) by (simp add: half_ticks word_less_nat_alt)
  have own: "stat s t = RT_THREAD_SUSPEND" if "x = ThreadTimer t" for t using n that by simp
  obtain fl where st: "bit fl 0" "bit fl 1 = bit (timer_flag x s) 1"
    "rt_timer_start x s = Some (RT_EOK, set_timer_flag x fl
       (s\<lparr>timers := ?tm, rt_timer_list := timer_list_insert ?tick x ?l\<rparr>))" (is "_ = Some (_, ?s')")
    "timer_inv (set_timer_flag x fl (s\<lparr>timers := ?tm, rt_timer_list := timer_list_insert ?tick x ?l\<rparr>))"
    using rt_timer_start_spec [OF kinvD(2) [OF inv] own half] na by (metis (no_types, lifting))
  have k': "kinv ?s'" using st(4) kinvD [OF inv] by (simp add: kinv_def stacks_ok_def)
  have f': "timers ?s' = ?tm" "rt_timer_list ?s' = timer_list_insert ?tick x ?l" "rt_tick ?s' = rt_tick s"
    by simp_all
  have same: "?tick y = timeout_tick s y" if "y \<in> set ?l" for y using that x by auto
  have ww: "window b (timeout_tick s) ?l" "in_order b (timeout_tick s) ?l"
    using ok by (simp_all add: timers_ok_def)
  have "rt_tick s + ?k - b = (rt_tick s - b) + ?k" by simp
  moreover have "unat ((rt_tick s - b) + ?k) = unat (rt_tick s - b) + unat ?k"
    using k(2) by (intro unat_add_lem [THEN iffD1]) simp
  ultimately have "unat (rt_tick s + ?k - b) < 0x7fffffff" using k(2) by metis
  then have "?tick x - b < RT_TICK_MAX div 2" by (simp add: half_ticks word_less_nat_alt)
  then have w: "window b ?tick (x # ?l)" using ww(1) same by (auto simp: window_def)
  have "in_order b ?tick ?l = in_order b (timeout_tick s) ?l" using same by (rule in_order_cong)
  with ww(2) have o: "in_order b ?tick (timer_list_insert ?tick x ?l)"
    using timer_list_insert_in_order [OF w] by simp
  have per: "periodic ?s' y = periodic s y" for y
    using st(2) flag_bits(2) [of "timer_flag y s"] flag_bits(2) [of fl] by (auto simp: periodic_def)
  have "timers_ok b ?s'"
    unfolding timers_ok_def f' per
    using ok o w k f by (auto simp: timers_ok_def window_def)
  moreover have "activated ?s' x" using st(1) flag_bits(1) [of fl] by (simp add: activated_def)
  ultimately show ?thesis
    using st(3) k' w by (intro exI [of _ ?s']) simp
qed

lemma periodic_start:
  assumes inv: "kinv s" and n: "x = Timer n" and ok: "timers_ok b s" and x: "x \<notin> set (rt_timer_list s)"
    and k: "tm_init_tick (timers s x) \<noteq> 0"
      "unat (rt_tick s - b) + unat (tm_init_tick (timers s x)) < 0x7fffffff"
    and f: "tm_timeout_func (timers s x) = TimeoutUser f" and na: "\<not> activated s x"
  shows "\<exists>r s'. rt_timer_start x s = Some (r, s') \<and> kinv s' \<and> running s' = running s \<and>
    timers_ok b s' \<and> rt_tick s' = rt_tick s \<and>
    length (filter (\<lambda>y. due y s') (rt_timer_list s')) = length (filter (\<lambda>y. due y s) (rt_timer_list s))"
proof -
  obtain s' where s': "rt_timer_start x s = Some (RT_EOK, s')" "kinv s'" "timers_ok b s'" "rt_tick s' = rt_tick s"
    "threads s' = threads s" "rt_current_thread s' = rt_current_thread s"
    "timers s' = (timers s)(x := (timers s x)\<lparr>tm_timeout_tick := rt_tick s + tm_init_tick (timers s x)\<rparr>)"
    "rt_timer_list s' = timer_list_insert (timeout_tick s') x (rt_timer_list s)"
    using timer_start_ok [OF inv n ok x _ k(2) f na] k(1) by blast
  have "\<not> due x s'"
    using not_due_started [of s' x "tm_init_tick (timers s x)"] k by (simp add: s'(4,7))
  moreover have "due y s' = due y s" if "y \<in> set (rt_timer_list s)" for y
    using that x unfolding due_def s'(4,7) by auto
  then have "filter (\<lambda>y. due y s') (rt_timer_list s) = filter (\<lambda>y. due y s) (rt_timer_list s)"
    by (rule filter_cong [OF refl])
  moreover have "running s' = running s" using s'(5,6) by (simp add: running_def)
  ultimately show ?thesis using s'(1-4,8) by (intro exI [of _ RT_EOK] exI [of _ s']) (simp add: filter_insert_length)
qed

lemma timer_expire_spec:
  assumes inv: "kinv s" and run: "running s" and q: "quiet call"
    and ok: "timers_ok b s" and l: "rt_timer_list s = x # l" and due: "due x s"
  shows "\<exists>s'. timer_expire call x s = Some s' \<and> kinv s' \<and> running s' \<and>
    timers_ok b s' \<and> rt_tick s' = rt_tick s \<and>
    length (filter (\<lambda>y. due y s') (rt_timer_list s')) < length (filter (\<lambda>y. due y s) (rt_timer_list s)) \<and>
    (\<forall>t. x = ThreadTimer t \<longrightarrow> rt_timer_list s' = l \<and> timers s' = timers s \<and> frames s' = frames s \<and>
       threads s' = (threads s)(t := (threads s t)\<lparr>t_error := - RT_ETIMEOUT, t_stat := RT_THREAD_READY\<rparr>))"
proof -
  obtain c where c: "rt_current_thread s = Some c" and rc: "stat s c = RT_THREAD_READY"
    using run by (auto simp: running_def)
  note T = timer_invD [OF kinvD(2) [OF inv]]
  have d: "x \<notin> set l" "distinct l" using T(1) l by simp_all
  let ?s1 = "timer_remove x s"
  have l1: "rt_timer_list ?s1 = l" using l by (simp add: timer_remove_def)
  have k1: "kinv ?s1"
    using kinvD [OF inv] timer_inv_remove [of s x] by (simp add: kinv_def stacks_ok_def)
  have nf: "length (filter (\<lambda>y. due y s) l) < length (filter (\<lambda>y. due y s) (rt_timer_list s))"
    using l due by simp
  have bt: "rt_tick s - b < RT_TICK_MAX div 2" and w: "window b (timeout_tick s) (x # l)"
    and o: "in_order b (timeout_tick s) (x # l)" using ok l by (simp_all add: timers_ok_def)
  have wl: "window b (timeout_tick s) l" "in_order b (timeout_tick s) l"
    using w o by (simp_all add: window_def in_order_def)
  show ?thesis
  proof (cases x)
    case (ThreadTimer t)
    have st: "stat s t = RT_THREAD_SUSPEND" using T(3) [of t] l ThreadTimer by simp
    have own: "own_timer_ok s t" using T(4) [of t] st by simp
    have st1: "stat ?s1 t = RT_THREAD_SUSPEND" using st by simp
    have nt1: "ThreadTimer t \<notin> set (rt_timer_list ?s1)" using d(1) l1 ThreadTimer by simp
    have c1: "rt_current_thread ?s1 = Some c" using c by simp
    obtain s2 c2 where s2: "rt_thread_timeout t ?s1 = Some s2" "kinv s2" "kframe ?s1 s2"
      "threads s2 = (threads ?s1)(t := (threads ?s1 t)\<lparr>t_error := - RT_ETIMEOUT, t_stat := RT_THREAD_READY\<rparr>)"
      "rt_timer_list s2 = rt_timer_list ?s1" "timers s2 = timers ?s1" "objects s2 = objects ?s1"
      "frames s2 = frames ?s1" "rt_current_thread s2 = Some c2"
      "if rt_scheduler_lock_nest ?s1 = 0 then highest_ready s2 c2 else c2 = c"
      by (rule rt_thread_timeout_spec [OF k1 st1 nt1 c1]) blast
    have fl: "timer_flag y s2 = timer_flag y s" for y using s2(7) by (simp add: timer_flag_def timer_remove_def)
    have np: "timer_flag x s2 AND RT_TIMER_FLAG_PERIODIC = 0"
      using own ThreadTimer flag_bits(2) [of "timer_flag x s"] by (auto simp: own_timer_ok_def fl)
    define s3 where "s3 = set_timer_flag x (timer_flag x s2 AND NOT RT_TIMER_FLAG_ACTIVATED) s2"
    have e: "timer_expire call x s = Some s3"
      using s2(1) own np ThreadTimer
      by (simp add: timer_expire_def timer_call_def own_timer_ok_def s3_def)
    have "x \<notin> set (rt_timer_list s2)" using nt1 s2(5) ThreadTimer by simp
    then have "timer_inv s3" unfolding s3_def using timer_inv_clear kinvD(2) [OF s2(2)] by blast
    then have k3: "kinv s3" using kinvD [OF s2(2)] by (simp add: kinv_def stacks_ok_def s3_def)
    have f3: "timers s3 = timers s" "rt_timer_list s3 = l" "rt_tick s3 = rt_tick s"
      using s2(3,5,6) l1 by (simp_all add: kframe_def s3_def)
    have due3: "due y s3 = due y s" for y unfolding due_def f3 ..
    have per: "periodic s3 y = periodic s y" if "y \<in> set l" for y
      using that d(1) fl by (auto simp: periodic_def s3_def)
    have ok3: "timers_ok b s3"
      using ok wl per unfolding timers_ok_def f3 l by simp
    have n3: "length (filter (\<lambda>y. due y s3) (rt_timer_list s3)) < length (filter (\<lambda>y. due y s) (rt_timer_list s))"
      unfolding due3 f3 by (rule nf)
    have "stat s2 c2 = RT_THREAD_READY"
      using s2(4,10) rc by (auto simp: highest_ready_def split: if_splits)
    then have run3: "running s3" using s2(9) by (simp add: running_def s3_def)
    have g3: "frames s3 = frames s"
      "threads s3 = (threads s)(t := (threads s t)\<lparr>t_error := - RT_ETIMEOUT, t_stat := RT_THREAD_READY\<rparr>)"
      using s2(4,8) by (simp_all add: set_timer_flag_def timer_remove_def s3_def)
    show ?thesis
    proof (intro exI [of _ s3] conjI allI impI)
      fix u assume "x = ThreadTimer u"
      then have "u = t" using ThreadTimer by simp
      then show "threads s3 = (threads s)(u := (threads s u)\<lparr>t_error := - RT_ETIMEOUT, t_stat := RT_THREAD_READY\<rparr>)"
        using g3(2) by simp
    qed (rule e k3 run3 g3 ok3 f3 n3)+
  next
    case (Timer n)
    then obtain f where f: "tm_timeout_func (timers s x) = TimeoutUser f"
      using ok l unfolding timers_ok_def by auto
    have c1: "running ?s1" using run by (simp add: running_def)
    obtain s2 P where s2: "call f (tm_parameter (timers s x)) ?s1 = Some s2" "kinv s2"
      "running s2" "rt_tick s2 = rt_tick ?s1" "timers s2 = timers ?s1"
      "rt_timer_list s2 = filter P (rt_timer_list ?s1)" "\<forall>y. periodic s2 y = periodic ?s1 y"
      using q k1 c1 unfolding quiet_def by blast
    have k2: "length (filter (\<lambda>y. due y s2) (rt_timer_list s2)) \<le> length (filter (\<lambda>y. due y s) l)"
    proof -
      have "due y s2 = due y s" for y using s2(4,5) by (simp add: due_def)
      then have e: "filter (\<lambda>y. due y s2) (rt_timer_list s2) = filter P (filter (\<lambda>y. due y s) l)"
        using s2(6) l1 by (simp add: conj_commute)
      show ?thesis unfolding e by (rule length_filter_le)
    qed
    let ?fl = "timer_flag x s2 AND NOT RT_TIMER_FLAG_ACTIVATED"
    let ?s3 = "set_timer_flag x ?fl s2"
    have x2: "x \<notin> set (rt_timer_list s2)" using d(1) s2(6) l1 by simp
    then have "timer_inv ?s3" using timer_inv_clear kinvD(2) [OF s2(2)] by blast
    then have k3: "kinv ?s3" using kinvD [OF s2(2)] by (simp add: kinv_def stacks_ok_def)
    have f3: "timers ?s3 = timers s" "rt_timer_list ?s3 = filter P l" "rt_tick ?s3 = rt_tick s"
      using s2(4-6) l1 by simp_all
    have per: "periodic ?s3 y = periodic s y" for y
      using s2(7) flag_bits(2) [of "timer_flag x s2"] flag_bits(2) [of ?fl]
      by (auto simp: periodic_def)
    have ok3: "timers_ok b ?s3"
      using ok wl sublist_ok [OF wl] unfolding timers_ok_def f3 l per by auto
    have due3: "due y ?s3 = due y s2" for y using s2(4,5) by (simp add: due_def)
    have na: "\<not> activated ?s3 x" by (simp add: activated_def flag_bits)
    have run3: "running ?s3" using s2(3) by (simp add: running_def)
    have call: "timer_call call x ?s1 = Some s2" using f s2(1) by (simp add: timer_call_def)
    show ?thesis
    proof (cases "timer_flag x s2 AND RT_TIMER_FLAG_PERIODIC \<noteq> 0 \<and> timer_flag x s2 AND RT_TIMER_FLAG_ACTIVATED \<noteq> 0")
      case True
      then have "periodic s x" using s2(7) by (simp add: periodic_def)
      then have k: "tm_init_tick (timers s x) \<noteq> 0"
        "unat (rt_tick s - b) + unat (tm_init_tick (timers s x)) < 0x7fffffff"
        using ok l by (simp_all add: timers_ok_def)
      obtain r s4 where s4: "rt_timer_start x ?s3 = Some (r, s4)" "kinv s4"
        "running s4 = running ?s3" "timers_ok b s4" "rt_tick s4 = rt_tick ?s3"
        "length (filter (\<lambda>y. due y s4) (rt_timer_list s4)) = length (filter (\<lambda>y. due y ?s3) (rt_timer_list ?s3))"
        using periodic_start [OF k3 Timer ok3, of f] x2 k f na f3 by auto
      have "timer_expire call x s = Some s4" using True call s4(1) by (simp add: timer_expire_def)
      moreover have "length (filter (\<lambda>y. due y s4) (rt_timer_list s4)) < length (filter (\<lambda>y. due y s) (rt_timer_list s))"
        using s4(6) k2 nf due3 by simp
      ultimately show ?thesis using s4(2-5) f3(3) run3 Timer by (intro exI [of _ s4]) simp
    next
      case False
      then have "timer_expire call x s = Some ?s3" using call by (auto simp: timer_expire_def)
      moreover have "length (filter (\<lambda>y. due y ?s3) (rt_timer_list ?s3)) < length (filter (\<lambda>y. due y s) (rt_timer_list s))"
        using k2 nf due3 by simp
      ultimately show ?thesis using k3 ok3 f3(3) run3 Timer by (intro exI [of _ ?s3]) simp
    qed
  qed
qed

lemma rt_timer_check_spec:
  assumes "kinv s" "running s" "quiet call" "timers_ok b s"
  shows "\<exists>s'. rt_timer_check call s = Some s' \<and> kinv s' \<and> running s' \<and>
    timers_ok b s' \<and> rt_tick s' = rt_tick s \<and> (\<forall>x \<in> set (rt_timer_list s'). \<not> due x s') \<and>
    ((\<forall>x \<in> set (rt_timer_list s). due x s \<longrightarrow> (\<exists>t. x = ThreadTimer t)) \<longrightarrow>
       rt_timer_list s' = filter (\<lambda>x. \<not> due x s) (rt_timer_list s) \<and> frames s' = frames s \<and> timers s' = timers s \<and>
       (\<forall>t. threads s' t = (if ThreadTimer t \<in> set (rt_timer_list s) \<and> due (ThreadTimer t) s
          then (threads s t)\<lparr>t_error := - RT_ETIMEOUT, t_stat := RT_THREAD_READY\<rparr> else threads s t)))"
  using assms(1,2,4)
proof (induction "length (filter (\<lambda>y. due y s) (rt_timer_list s))" arbitrary: s rule: less_induct)
  case less
  have stop: ?case if none: "\<And>x. x \<in> set (rt_timer_list s) \<Longrightarrow> \<not> due x s"
  proof -
    have "rt_timer_check call s = Some s"
      using none by (subst rt_timer_check.simps) (simp split: list.split)
    moreover have "filter (\<lambda>x. \<not> due x s) (rt_timer_list s) = rt_timer_list s"
      using none by (simp add: filter_id_conv)
    ultimately show ?thesis using less.prems none by (intro exI [of _ s]) auto
  qed
  show ?case
  proof (cases "rt_timer_list s")
    case Nil
    then show ?thesis by (intro stop) simp
  next
    case (Cons x l)
    show ?thesis
    proof (cases "due x s")
      case False
      have ok: "rt_tick s - b < RT_TICK_MAX div 2" "window b (timeout_tick s) (x # l)"
        "in_order b (timeout_tick s) (x # l)" using less.prems(3) Cons by (simp_all add: timers_ok_def)
      have "\<not> due y s" if y: "y \<in> set (rt_timer_list s)" for y
      proof -
        have wx: "timeout_tick s x - b < RT_TICK_MAX div 2" and wy: "timeout_tick s y - b < RT_TICK_MAX div 2"
          using ok(2) y Cons by (auto simp: window_def)
        have "unat (timeout_tick s x - b) \<le> unat (timeout_tick s y - b)"
          using ok(3) y Cons by (auto simp: in_order_def)
        then show ?thesis using False due_iff [of s b x] due_iff [of s b y] ok(1) wx wy by simp
      qed
      then show ?thesis by (rule stop)
    next
      case True
      obtain s1 where s1: "timer_expire call x s = Some s1" "kinv s1" "running s1"
        "timers_ok b s1" "rt_tick s1 = rt_tick s"
        "length (filter (\<lambda>y. due y s1) (rt_timer_list s1)) < length (filter (\<lambda>y. due y s) (rt_timer_list s))"
        "\<forall>t. x = ThreadTimer t \<longrightarrow> rt_timer_list s1 = l \<and> timers s1 = timers s \<and> frames s1 = frames s \<and>
          threads s1 = (threads s)(t := (threads s t)\<lparr>t_error := - RT_ETIMEOUT, t_stat := RT_THREAD_READY\<rparr>)"
        using timer_expire_spec [OF less.prems(1,2) assms(3) less.prems(3) Cons True] by blast
      have chk: "rt_timer_check call s = rt_timer_check call s1"
        using s1(1) Cons True by (subst rt_timer_check.simps) simp
      obtain s' where s': "rt_timer_check call s1 = Some s'" "kinv s'" "running s'"
        "timers_ok b s'" "rt_tick s' = rt_tick s1" "\<forall>x \<in> set (rt_timer_list s'). \<not> due x s'"
        "(\<forall>x \<in> set (rt_timer_list s1). due x s1 \<longrightarrow> (\<exists>t. x = ThreadTimer t)) \<longrightarrow>
           rt_timer_list s' = filter (\<lambda>x. \<not> due x s1) (rt_timer_list s1) \<and> frames s' = frames s1 \<and> timers s' = timers s1 \<and>
           (\<forall>t. threads s' t = (if ThreadTimer t \<in> set (rt_timer_list s1) \<and> due (ThreadTimer t) s1
              then (threads s1 t)\<lparr>t_error := - RT_ETIMEOUT, t_stat := RT_THREAD_READY\<rparr> else threads s1 t))"
        using less.hyps [OF s1(6,2,3,4)] by blast
      have th: "rt_timer_list s' = filter (\<lambda>x. \<not> due x s) (rt_timer_list s) \<and> frames s' = frames s \<and> timers s' = timers s \<and>
           (\<forall>t. threads s' t = (if ThreadTimer t \<in> set (rt_timer_list s) \<and> due (ThreadTimer t) s
              then (threads s t)\<lparr>t_error := - RT_ETIMEOUT, t_stat := RT_THREAD_READY\<rparr> else threads s t))"
        if all: "\<forall>x \<in> set (rt_timer_list s). due x s \<longrightarrow> (\<exists>t. x = ThreadTimer t)"
      proof -
        obtain t where t: "x = ThreadTimer t" using all True Cons by auto
        have f1: "rt_timer_list s1 = l" "timers s1 = timers s" "frames s1 = frames s"
          "threads s1 = (threads s)(t := (threads s t)\<lparr>t_error := - RT_ETIMEOUT, t_stat := RT_THREAD_READY\<rparr>)"
          using s1(7) t by blast+
        have due1: "due y s1 = due y s" for y unfolding due_def f1 s1(5) ..
        have nx: "x \<notin> set l" using timer_invD(1) [OF kinvD(2) [OF less.prems(1)]] Cons by simp
        have "\<forall>x \<in> set (rt_timer_list s1). due x s1 \<longrightarrow> (\<exists>t. x = ThreadTimer t)"
          using all Cons unfolding f1 due1 by simp
        with s'(7) have r: "rt_timer_list s' = filter (\<lambda>x. \<not> due x s) l" "frames s' = frames s" "timers s' = timers s"
          "\<And>u. threads s' u = (if ThreadTimer u \<in> set l \<and> due (ThreadTimer u) s
              then (threads s1 u)\<lparr>t_error := - RT_ETIMEOUT, t_stat := RT_THREAD_READY\<rparr> else threads s1 u)"
          unfolding f1 due1 by blast+
        show ?thesis
          using r nx t True unfolding Cons f1(4) by auto
      qed
      show ?thesis using chk s'(1-6) s1(5) th by (intro exI [of _ s']) simp
    qed
  qed
qed

subsection \<open>Ticks\<close>

definition thread_timers :: "kstate \<Rightarrow> bool" where
  "thread_timers s \<longleftrightarrow> (\<forall>x \<in> set (rt_timer_list s). \<exists>t. x = ThreadTimer t)"

lemma thread_timers_not_periodic:
  assumes "kinv s" "thread_timers s" "x \<in> set (rt_timer_list s)"
  shows "\<not> periodic s x"
proof -
  obtain t where t: "x = ThreadTimer t" using assms(2,3) by (auto simp: thread_timers_def)
  have "own_timer_ok s t"
    using timer_invD(3,4) [OF kinvD(2) [OF assms(1)], of t] assms(3) t by simp
  then show ?thesis using flag_bits(2) [of "timer_flag x s"] t by (auto simp: own_timer_ok_def periodic_def)
qed

lemma thread_timers_ok:
  assumes "kinv s" "thread_timers s"
  shows "timers_ok b s \<longleftrightarrow> rt_tick s - b < RT_TICK_MAX div 2 \<and>
    window b (timeout_tick s) (rt_timer_list s) \<and> in_order b (timeout_tick s) (rt_timer_list s)"
  using assms thread_timers_not_periodic [OF assms] by (auto simp: timers_ok_def thread_timers_def)

text \<open>The share of \<open>rt_tick_increase\<close> that is not about timers.\<close>

definition tick_step :: "kstate \<Rightarrow> kstate option" where
  "tick_step s =
     do {
       let s1 = s\<lparr>rt_tick := rt_tick s + 1\<rparr>;
       t \<leftarrow> rt_thread_self s1;
       let s2 = thread_at t (\<lambda>th. th\<lparr>t_remaining_tick := t_remaining_tick th - 1\<rparr>) s1;
       (if t_remaining_tick (threads s2 t) = 0
        then do {
          (_, s3) \<leftarrow> rt_thread_yield
            (thread_at t (\<lambda>th. th\<lparr>t_remaining_tick := t_init_tick th\<rparr>) s2);
          Some s3 }
        else Some s2) }"

lemma rt_tick_increase_eq: "rt_tick_increase call s = do { s3 \<leftarrow> tick_step s; rt_timer_check call s3 }"
  by (simp add: rt_tick_increase_def tick_step_def Let_def split: bind_split)

text \<open>What a thread is waiting for is not touched.\<close>

definition same_wait :: "rt_thread \<Rightarrow> rt_thread \<Rightarrow> bool" where
  "same_wait a b \<longleftrightarrow> t_stat a = t_stat b \<and> t_error a = t_error b"

lemma tick_step_spec:
  assumes "kinv s" "running s"
  shows "\<exists>s'. tick_step s = Some s' \<and> kinv s' \<and> running s' \<and> rt_tick s' = rt_tick s + 1 \<and>
    rt_timer_list s' = rt_timer_list s \<and> timers s' = timers s \<and> frames s' = frames s \<and>
    (\<forall>t. same_wait (threads s' t) (threads s t))"
proof -
  obtain c where c: "rt_current_thread s = Some c" "stat s c = RT_THREAD_READY"
    using assms(2) by (auto simp: running_def)
  let ?s2 = "\<lambda>k. s\<lparr>rt_tick := rt_tick s + 1, threads := (threads s)(c := (threads s c)\<lparr>t_remaining_tick := k\<rparr>)\<rparr>"
  have k2: "kinv (?s2 k)" for k
    using kinv_threads [of "(threads s)(c := (threads s c)\<lparr>t_remaining_tick := k\<rparr>)" "s\<lparr>rt_tick := rt_tick s + 1\<rparr>"]
      assms(1) by (simp add: same_sched_def stack_ok_def)
  have r2: "running (?s2 k)" for k using c by (simp add: running_def)
  show ?thesis
  proof (cases "t_remaining_tick (threads s c) - 1 = 0")
    case False
    then have "tick_step s = Some (?s2 (t_remaining_tick (threads s c) - 1))"
      using c(1) by (simp add: tick_step_def rt_thread_self_def Let_def)
    then show ?thesis using k2 r2
      by (intro exI [of _ "?s2 (t_remaining_tick (threads s c) - 1)"]) (simp add: same_wait_def)
  next
    case True
    let ?s3 = "?s2 (t_init_tick (threads s c))"
    have c3: "rt_current_thread ?s3 = Some c" "stat ?s3 c = RT_THREAD_READY" using c by simp_all
    obtain s' c' where y: "rt_thread_yield ?s3 = Some (RT_EOK, s')" "kinv s'" "kframe ?s3 s'" "threads s' = threads ?s3"
      "rt_timer_list s' = rt_timer_list ?s3" "timers s' = timers ?s3" "frames s' = frames ?s3"
      "rt_current_thread s' = Some c'"
      "if tlists ?s3 (Ready (unat (prio ?s3 c))) \<noteq> [c] \<and> rt_scheduler_lock_nest ?s3 = 0 then highest_ready s' c' else c' = c"
      using rt_thread_yield_spec [OF k2 c3] by metis
    have "stat s' c' = RT_THREAD_READY"
      using y(4,9) c by (auto simp: highest_ready_def split: if_splits)
    then have "running s'" using y(8) by (simp add: running_def)
    moreover have "tick_step s = Some s'"
      using c(1) True y(1) by (simp add: tick_step_def rt_thread_self_def)
    ultimately show ?thesis using y(2-7) by (intro exI [of _ s']) (simp add: same_wait_def kframe_def)
  qed
qed

primrec ticks :: "callbacks \<Rightarrow> nat \<Rightarrow> kstate \<Rightarrow> kstate option" where
  "ticks call 0 s = Some s"
| "ticks call (Suc n) s = do { s1 \<leftarrow> ticks call n s; rt_tick_increase call s1 }"

text \<open>How far away a timeout is.\<close>

abbreviation ticks_to :: "kstate \<Rightarrow> timer_id \<Rightarrow> nat" where
  "ticks_to s x \<equiv> unat (timeout_tick s x - rt_tick s)"

lemma ticks_spec:
  assumes "kinv s" "running s" "quiet call" "thread_timers s" "timers_ok (rt_tick s) s"
    and "\<And>x. x \<in> set (rt_timer_list s) \<Longrightarrow> ticks_to s x \<noteq> 0" "n < 0x7fffffff"
  shows "\<exists>s'. ticks call n s = Some s' \<and> kinv s' \<and> running s' \<and> rt_tick s' = rt_tick s + of_nat n \<and>
    timers s' = timers s \<and> frames s' = frames s \<and>
    rt_timer_list s' = filter (\<lambda>x. n < ticks_to s x) (rt_timer_list s) \<and>
    (\<forall>t. if ThreadTimer t \<in> set (rt_timer_list s) \<and> ticks_to s (ThreadTimer t) \<le> n
         then stat s' t = RT_THREAD_READY \<and> t_error (threads s' t) = - RT_ETIMEOUT
         else same_wait (threads s' t) (threads s t))"
  using assms(7)
proof (induction n)
  case 0
  have "filter (\<lambda>x. 0 < ticks_to s x) (rt_timer_list s) = rt_timer_list s"
    using assms(6) by (simp add: filter_id_conv)
  moreover have "if ThreadTimer t \<in> set (rt_timer_list s) \<and> ticks_to s (ThreadTimer t) \<le> 0
      then stat s t = RT_THREAD_READY \<and> t_error (threads s t) = - RT_ETIMEOUT
      else same_wait (threads s t) (threads s t)" for t
    using assms(6) [of "ThreadTimer t"] by (auto simp: same_wait_def)
  ultimately show ?case using assms(1,2) by (intro exI [of _ s]) simp
next
  case (Suc n)
  let ?b = "rt_tick s"
  obtain s1 where s1: "ticks call n s = Some s1" "kinv s1" "running s1" "rt_tick s1 = ?b + of_nat n"
    "timers s1 = timers s" "frames s1 = frames s" "rt_timer_list s1 = filter (\<lambda>x. n < ticks_to s x) (rt_timer_list s)"
    "\<forall>t. if ThreadTimer t \<in> set (rt_timer_list s) \<and> ticks_to s (ThreadTimer t) \<le> n
         then stat s1 t = RT_THREAD_READY \<and> t_error (threads s1 t) = - RT_ETIMEOUT
         else same_wait (threads s1 t) (threads s t)"
    using Suc by auto
  obtain s2 where s2: "tick_step s1 = Some s2" "kinv s2" "running s2" "rt_tick s2 = rt_tick s1 + 1"
    "rt_timer_list s2 = rt_timer_list s1" "timers s2 = timers s1" "frames s2 = frames s1"
    "\<forall>t. same_wait (threads s2 t) (threads s1 t)"
    using tick_step_spec [OF s1(2,3)] by blast
  have now: "unat (rt_tick s2 - ?b) = Suc n"
  proof -
    have "rt_tick s2 - ?b = of_nat (Suc n)" using s2(4) s1(4) by simp
    moreover have "unat (of_nat (Suc n) :: u32) = Suc n"
      using Suc.prems by (simp add: unsigned_of_nat take_bit_eq_mod del: of_nat_Suc)
    ultimately show ?thesis by metis
  qed
  have tt2: "thread_timers s2" using assms(4) s2(5) s1(7) by (auto simp: thread_timers_def)
  have ok0: "window ?b (timeout_tick s) (rt_timer_list s)" "in_order ?b (timeout_tick s) (rt_timer_list s)"
    using assms(5) by (simp_all add: timers_ok_def)
  have half: "rt_tick s2 - ?b < RT_TICK_MAX div 2"
    using now Suc.prems by (simp add: half_ticks word_less_nat_alt)
  have ok2: "timers_ok ?b s2"
    unfolding thread_timers_ok [OF s2(2) tt2] s2(5,6) s1(5,7) using half sublist_ok(1,2) [OF ok0] by blast
  have due2: "due x s2 \<longleftrightarrow> ticks_to s x \<le> Suc n" if x: "x \<in> set (rt_timer_list s)" for x
  proof -
    have "timeout_tick s2 x - ?b < RT_TICK_MAX div 2" using ok0(1) x by (simp add: window_def s2(6) s1(5))
    then show ?thesis using due_iff [OF half] now by (simp add: s2(6) s1(5))
  qed
  obtain s' where s': "rt_timer_check call s2 = Some s'" "kinv s'" "running s'" "rt_tick s' = rt_tick s2"
    "rt_timer_list s' = filter (\<lambda>x. \<not> due x s2) (rt_timer_list s2)" "frames s' = frames s2" "timers s' = timers s2"
    "\<And>t. threads s' t = (if ThreadTimer t \<in> set (rt_timer_list s2) \<and> due (ThreadTimer t) s2
          then (threads s2 t)\<lparr>t_error := - RT_ETIMEOUT, t_stat := RT_THREAD_READY\<rparr> else threads s2 t)"
    using rt_timer_check_spec [OF s2(2,3) assms(3) ok2] tt2 unfolding thread_timers_def by blast
  have e: "ticks call (Suc n) s = Some s'"
    using s1(1) s2(1) s'(1) by (simp add: rt_tick_increase_eq)
  have l': "rt_timer_list s' = filter (\<lambda>x. Suc n < ticks_to s x) (rt_timer_list s)"
    unfolding s'(5) s2(5) s1(7) filter_filter by (rule filter_cong [OF refl]) (use due2 in auto)
  have th: "if ThreadTimer t \<in> set (rt_timer_list s) \<and> ticks_to s (ThreadTimer t) \<le> Suc n
         then stat s' t = RT_THREAD_READY \<and> t_error (threads s' t) = - RT_ETIMEOUT
         else same_wait (threads s' t) (threads s t)" for t
  proof (cases "ThreadTimer t \<in> set (rt_timer_list s)")
    case True
    then show ?thesis
      using s'(8) [of t] s1(8) [rule_format, of t] s2(8) [rule_format, of t] due2 [OF True]
      unfolding s2(5) s1(7) by (auto simp: same_wait_def split: if_splits)
  next
    case False
    then show ?thesis
      using s'(8) [of t] s1(8) [rule_format, of t] s2(8) [rule_format, of t]
      unfolding s2(5) s1(7) by (auto simp: same_wait_def split: if_splits)
  qed
  show ?case
    using e s'(2-4) s'(6,7) s1(4-6) s2(4,6,7) l' th by (intro exI [of _ s']) (simp add: add.assoc add.commute)
qed

subsection \<open>Sleeping and waking\<close>

lemma sleep_timers:
  assumes k: "kinv s" "thread_timers s" "timers_ok (rt_tick s) s"
    and n: "unat n < 0x7fffffff" "x \<notin> set (rt_timer_list s)" "x = ThreadTimer t"
    and s': "kinv s'" "rt_tick s' = rt_tick s" "timeout_tick s' x = rt_tick s + n"
      "\<forall>y. y \<noteq> x \<longrightarrow> timers s' y = timers s y"
      "rt_timer_list s' = timer_list_insert (timeout_tick s') x (rt_timer_list s)"
  shows "thread_timers s'" "timers_ok (rt_tick s') s'"
proof -
  show tt: "thread_timers s'" using k(2) n(3) s'(5) by (simp add: thread_timers_def)
  have same: "timeout_tick s' y = timeout_tick s y" if "y \<in> set (rt_timer_list s)" for y
    using s'(4) that n(2) by metis
  have w0: "window (rt_tick s) (timeout_tick s) (rt_timer_list s)" "in_order (rt_tick s) (timeout_tick s) (rt_timer_list s)"
    using k(3) by (simp_all add: timers_ok_def)
  have w: "window (rt_tick s) (timeout_tick s') (x # rt_timer_list s)"
    using w0(1) same s'(3) n(1) by (auto simp: window_def half_ticks word_less_nat_alt)
  have o: "in_order (rt_tick s) (timeout_tick s') (rt_timer_list s)"
    using in_order_cong [of "rt_timer_list s" "timeout_tick s'" "timeout_tick s"] same w0(2) by blast
  show "timers_ok (rt_tick s') s'"
    unfolding thread_timers_ok [OF s'(1) tt] s'(2,5)
    using timer_list_insert_in_order [OF w o] w by (simp add: window_def half_ticks)
qed

lemma sleep_then_ticks:
  assumes "kinv s" "rt_current_thread s = Some t" "stat s t = RT_THREAD_READY"
    and "stat s u = RT_THREAD_READY" "u \<noteq> t" "rt_scheduler_lock_nest s = 0" "quiet call"
    and "thread_timers s" "timers_ok (rt_tick s) s" "\<forall>x \<in> set (rt_timer_list s). ticks_to s x \<noteq> 0"
    and "\<not> activated s (ThreadTimer t)" "0 < n" "n < 0x7fffffff" "m < 0x7fffffff"
  shows "\<exists>s1 s2. rt_thread_sleep (of_nat n) s = Some s1 \<and> ticks call m s1 = Some s2 \<and> kinv s2 \<and> running s2 \<and>
    frames s2 t = Some InSleep \<and>
    (if m < n then stat s2 t = RT_THREAD_SUSPEND
     else stat s2 t = RT_THREAD_READY \<and> t_error (threads s2 t) = - RT_ETIMEOUT)"
proof -
  have un: "unat (of_nat n :: u32) = n" using assms(13) by (simp add: unsigned_of_nat take_bit_eq_mod)
  have tick: "(of_nat n :: u32) < RT_TICK_MAX div 2" using un assms(13) by (simp add: half_ticks word_less_nat_alt)
  obtain s1 c' where s1: "rt_thread_sleep (of_nat n) s = Some s1" "kinv s1" "kframe s s1"
    "threads s1 = (threads s)(t := (threads s t)\<lparr>t_stat := RT_THREAD_SUSPEND\<rparr>)"
    "frames s1 = (frames s)(t := Some InSleep)" "\<forall>x. x \<noteq> ThreadTimer t \<longrightarrow> timers s1 x = timers s x"
    "ThreadTimer t \<in> set (rt_timer_list s1)" "timeout_tick s1 (ThreadTimer t) = rt_tick s + of_nat n"
    "ThreadTimer t \<notin> set (rt_timer_list s)"
    "rt_timer_list s1 = timer_list_insert (timeout_tick s1) (ThreadTimer t) (rt_timer_list s)"
    "rt_current_thread s1 = Some c'" "highest_ready s1 c'"
    using rt_thread_sleep_spec [OF assms(1-3) tick assms(4,5)] assms(6,11) by auto
  have tk: "rt_tick s1 = rt_tick s" using s1(3) by (simp add: kframe_def)
  have run: "running s1" using s1(11,12) by (simp add: running_def highest_ready_def)
  have un1: "unat (of_nat n :: u32) < 0x7fffffff" using un assms(13) by simp
  note T = sleep_timers [OF assms(1,8,9) un1 s1(9) refl s1(2) tk s1(8,6,10)]
  have d0: "ticks_to s1 (ThreadTimer t) = n" using s1(8) tk un by simp
  have nz: "ticks_to s1 x \<noteq> 0" if "x \<in> set (rt_timer_list s1)" for x
  proof (cases "x = ThreadTimer t")
    case True
    then show ?thesis using d0 assms(12) by simp
  next
    case False
    then show ?thesis using that s1(6,10) tk assms(10) by simp
  qed
  obtain s2 where s2: "ticks call m s1 = Some s2" "kinv s2" "running s2" "frames s2 = frames s1"
    "if ThreadTimer t \<in> set (rt_timer_list s1) \<and> ticks_to s1 (ThreadTimer t) \<le> m
         then stat s2 t = RT_THREAD_READY \<and> t_error (threads s2 t) = - RT_ETIMEOUT
         else same_wait (threads s2 t) (threads s1 t)"
    using ticks_spec [OF s1(2) run assms(7) T nz assms(14)] by blast
  show ?thesis
    using s1(1,4,5,7) s2 d0 by (intro exI [of _ s1] exI [of _ s2]) (auto simp: same_wait_def split: if_splits)
qed

text \<open>A periodic timer with the period zero that is the only timer and due.\<close>

definition zero_period :: "nat \<Rightarrow> kstate \<Rightarrow> bool" where
  "zero_period n s \<longleftrightarrow> rt_timer_list s = [Timer n] \<and> (\<exists>f. tm_timeout_func (timers s (Timer n)) = TimeoutUser f) \<and>
     tm_init_tick (timers s (Timer n)) = 0 \<and> timeout_tick s (Timer n) = rt_tick s \<and>
     bit (timer_flag (Timer n) s) 0 \<and> bit (timer_flag (Timer n) s) 1"

lemma zero_period_again:
  assumes "zero_period n s"
  shows "\<exists>s'. timer_expire (\<lambda>f x s. Some s) (Timer n) s = Some s' \<and> zero_period n s'"
proof -
  obtain f where z: "rt_timer_list s = [Timer n]" "tm_timeout_func (timers s (Timer n)) = TimeoutUser f"
    "tm_init_tick (timers s (Timer n)) = 0" "timeout_tick s (Timer n) = rt_tick s"
    "bit (timer_flag (Timer n) s) 0" "bit (timer_flag (Timer n) s) 1"
    using assms unfolding zero_period_def by blast
  let ?x = "Timer n" and ?s1 = "timer_remove (Timer n) s"
  let ?fl = "timer_flag ?x ?s1 AND NOT RT_TIMER_FLAG_ACTIVATED"
  let ?s3 = "set_timer_flag ?x ?fl ?s1"
  have fl: "timer_flag ?x ?s1 AND RT_TIMER_FLAG_PERIODIC \<noteq> 0" "timer_flag ?x ?s1 AND RT_TIMER_FLAG_ACTIVATED \<noteq> 0"
    using z(5,6) flag_bits by simp_all
  have na: "timer_flag ?x ?s3 AND RT_TIMER_FLAG_ACTIVATED = 0"
    using flag_bits(1) [of "timer_flag ?x ?s3"] by simp
  have b1: "bit (timer_flag ?x ?s3) 1" using z(6) by simp
  let ?s4 = "set_timer_flag ?x (timer_flag ?x ?s3 OR RT_TIMER_FLAG_ACTIVATED)
      (?s3\<lparr>timers := (timers s)(?x := (timers s ?x)\<lparr>tm_timeout_tick := rt_tick s\<rparr>), rt_timer_list := [?x]\<rparr>)"
  have st: "rt_timer_start ?x ?s3 = Some (RT_EOK, ?s4)"
    unfolding rt_timer_start_def using na z by (simp add: half_ticks Let_def)
  have "timer_expire (\<lambda>f x s. Some s) ?x s = Some ?s4"
    using fl st z(2) by (simp add: timer_expire_def timer_call_def)
  moreover have "zero_period n ?s4"
    using z(2,3) b1 by (simp add: zero_period_def)
  ultimately show ?thesis by blast
qed

lemma zero_period_no_result: "rt_timer_check call s = Some s' \<Longrightarrow> call = (\<lambda>f x s. Some s) \<Longrightarrow> \<not> zero_period n s"
proof (induction rule: rt_timer_check.raw_induct [rotated 1, consumes 1])
  case (1 check call s s')
  show ?case
  proof
    assume z: "zero_period n s"
    then obtain s1 where s1: "timer_expire call (Timer n) s = Some s1" "zero_period n s1"
      using zero_period_again 1(3) by blast
    have "due (Timer n) s" using z by (simp add: zero_period_def due_def half_ticks)
    then have "check call s1 = Some s'" using 1(2) z s1(1) by (simp add: zero_period_def)
    from 1(1) [OF this 1(3)] s1(2) show False by blast
  qed
qed

subsection \<open>Properties\<close>

lemma quiet_skip: "quiet (\<lambda>f x s. Some s)"
  unfolding quiet_def by (auto intro!: exI [of _ "\<lambda>y. True"])

text \<open>The suspended thread of the example has a timer that ran out ten ticks ago.\<close>

definition demo_asleep :: kstate where
  "demo_asleep = demo\<lparr>rt_timer_list := [ThreadTimer 2],
     timers := (timers demo)(ThreadTimer 2 := (timers demo (ThreadTimer 2))\<lparr>tm_timeout_tick := 90\<rparr>),
     objects := (objects demo)(ObjTimer (ThreadTimer 2) := (objects demo (ObjTimer (ThreadTimer 2)))\<lparr>o_flag := 1\<rparr>)\<rparr>"

lemma demo_asleep_ok: "kinv demo_asleep" "running demo_asleep" "timers_ok 80 demo_asleep"
proof -
  have "timer_inv demo_asleep"
    by (auto simp: timer_inv_def own_timer_ok_def timer_flag_def demo_asleep_def demo_def)
  then show "kinv demo_asleep" using kinvD [OF demo_kinv] by (simp add: kinv_def demo_asleep_def stacks_ok_def)
  show "running demo_asleep" by (simp add: running_def demo_asleep_def)
  show "timers_ok 80 demo_asleep"
    by (simp add: timers_ok_def window_def in_order_def half_ticks periodic_def timer_flag_def demo_asleep_def)
qed

lemma remove1_timer_list_insert: "x \<notin> set l \<Longrightarrow> remove1 x (timer_list_insert tick x l) = l"
  by (induction l) auto

text \<open>
  \<open>rt_timer_start\<close> puts a stopped timer behind the timers that run out before it or with it and before
  all others, due after its time, and \<open>rt_timer_stop\<close> takes exactly this back, also when the ticks wrap around.
\<close>

theorem rt_timer_start_stop:
  assumes "kinv s" "timers_ok b s" "Timer n \<notin> set (rt_timer_list s)" "\<not> activated s (Timer n)"
    and "periodic s (Timer n) \<longrightarrow> tm_init_tick (timers s (Timer n)) \<noteq> 0"
    and "unat (rt_tick s - b) + unat (tm_init_tick (timers s (Timer n))) < 0x7fffffff"
    and "tm_timeout_func (timers s (Timer n)) = TimeoutUser f"
  defines "before \<equiv> \<lambda>y. unat (timeout_tick s y - b) \<le> unat (rt_tick s + tm_init_tick (timers s (Timer n)) - b)"
  shows "\<exists>s' s''. rt_timer_start (Timer n) s = Some (RT_EOK, s') \<and> kinv s' \<and> timers_ok b s' \<and>
    timeout_tick s' (Timer n) = rt_tick s + tm_init_tick (timers s (Timer n)) \<and>
    rt_timer_list s' = takeWhile before (rt_timer_list s) @ Timer n # dropWhile before (rt_timer_list s) \<and>
    rt_timer_stop (Timer n) s' = (RT_EOK, s'') \<and> rt_timer_list s'' = rt_timer_list s \<and> \<not> activated s'' (Timer n)"
proof -
  let ?x = "Timer n" and ?l = "rt_timer_list s"
  obtain s' where s': "rt_timer_start ?x s = Some (RT_EOK, s')" "kinv s'" "timers_ok b s'"
    "timers s' = (timers s)(?x := (timers s ?x)\<lparr>tm_timeout_tick := rt_tick s + tm_init_tick (timers s ?x)\<rparr>)"
    "rt_timer_list s' = timer_list_insert (timeout_tick s') ?x ?l"
    "window b (timeout_tick s') (?x # ?l)" "activated s' ?x"
    using timer_start_ok [OF assms(1) refl assms(2,3,5-7,4)] by blast
  have same: "unat (timeout_tick s' y - b) \<le> unat (timeout_tick s' ?x - b) \<longleftrightarrow> before y" if "y \<in> set ?l" for y
    using that assms(3) by (auto simp: s'(4) before_def)
  have l': "rt_timer_list s' = takeWhile before ?l @ ?x # dropWhile before ?l"
    unfolding s'(5) timer_list_insert_split [OF s'(6)] using same
    by (metis (no_types, lifting) takeWhile_cong dropWhile_cong)
  have "timer_flag ?x s' AND RT_TIMER_FLAG_ACTIVATED \<noteq> 0" using s'(7) by (simp add: activated_def)
  then obtain s'' where st: "rt_timer_stop ?x s' = (RT_EOK, s'')" "rt_timer_list s'' = remove1 ?x (rt_timer_list s')"
    "timer_flag ?x s'' = timer_flag ?x s' AND NOT RT_TIMER_FLAG_ACTIVATED"
    by (simp add: rt_timer_stop_def)
  have "rt_timer_list s'' = ?l"
    unfolding st(2) s'(5) by (rule remove1_timer_list_insert [OF assms(3)])
  moreover have "\<not> activated s'' ?x"
    using flag_bits(1) [of "timer_flag ?x s''"] st(3) by (simp add: activated_def)
  moreover have "timeout_tick s' ?x = rt_tick s + tm_init_tick (timers s ?x)" by (simp add: s'(4))
  ultimately show ?thesis using s'(1-3) l' st(1) by blast
qed

theorem rt_timer_start_stop_witness:
  "let s = demo\<lparr>timers := (timers demo)(Timer 7 := \<lparr>tm_timeout_func = TimeoutUser 1, tm_parameter = 0,
         tm_init_tick = 5, tm_timeout_tick = 0\<rparr>)\<rparr>;
       before = \<lambda>y. unat (timeout_tick s y - 100) \<le> unat (rt_tick s + tm_init_tick (timers s (Timer 7)) - 100)
   in \<exists>s' s''. rt_timer_start (Timer 7) s = Some (RT_EOK, s') \<and> kinv s' \<and> timers_ok 100 s' \<and>
    timeout_tick s' (Timer 7) = rt_tick s + tm_init_tick (timers s (Timer 7)) \<and>
    rt_timer_list s' = takeWhile before (rt_timer_list s) @ Timer 7 # dropWhile before (rt_timer_list s) \<and>
    rt_timer_stop (Timer 7) s' = (RT_EOK, s'') \<and> rt_timer_list s'' = rt_timer_list s \<and> \<not> activated s'' (Timer 7)"
  unfolding Let_def
proof (rule rt_timer_start_stop [where f = 1])
  let ?s = "demo\<lparr>timers := (timers demo)(Timer 7 := \<lparr>tm_timeout_func = TimeoutUser 1, tm_parameter = 0,
         tm_init_tick = 5, tm_timeout_tick = 0\<rparr>)\<rparr>"
  have "timer_inv ?s" using kinvD(2) [OF demo_kinv] by (simp add: timer_inv_def own_timer_ok_def timer_flag_def)
  then show "kinv ?s" using kinvD [OF demo_kinv] by (simp add: kinv_def stacks_ok_def)
  show "timers_ok 100 ?s" by (simp add: timers_ok_def window_def in_order_def half_ticks)
  show "\<not> activated ?s (Timer 7)" by (simp add: activated_def timer_flag_def demo_def)
  show "periodic ?s (Timer 7) \<longrightarrow> tm_init_tick (timers ?s (Timer 7)) \<noteq> 0" by simp
qed simp_all



text \<open>
  When only timers of threads are due, \<open>rt_timer_check\<close> wakes exactly the threads whose time ran out,
  with the error \<open>-RT_ETIMEOUT\<close>, and touches no other thread and no other timer.
\<close>

theorem rt_timer_check_wakes_due:
  assumes "kinv s" "running s" "quiet call" "timers_ok b s"
    and "\<forall>x \<in> set (rt_timer_list s). due x s \<longrightarrow> (\<exists>t. x = ThreadTimer t)"
  shows "\<exists>s'. rt_timer_check call s = Some s' \<and> kinv s' \<and> timers s' = timers s \<and>
    rt_timer_list s' = filter (\<lambda>x. \<not> due x s) (rt_timer_list s) \<and>
    (\<forall>t. threads s' t = (if ThreadTimer t \<in> set (rt_timer_list s) \<and> due (ThreadTimer t) s
       then (threads s t)\<lparr>t_error := - RT_ETIMEOUT, t_stat := RT_THREAD_READY\<rparr> else threads s t))"
  using rt_timer_check_spec [OF assms(1-4)] assms(5) by blast

theorem rt_timer_check_wakes_due_witness:
  "\<exists>s'. rt_timer_check (\<lambda>f x s. Some s) demo_asleep = Some s' \<and> kinv s' \<and> timers s' = timers demo_asleep \<and>
    rt_timer_list s' = filter (\<lambda>x. \<not> due x demo_asleep) (rt_timer_list demo_asleep) \<and>
    (\<forall>t. threads s' t = (if ThreadTimer t \<in> set (rt_timer_list demo_asleep) \<and> due (ThreadTimer t) demo_asleep
       then (threads demo_asleep t)\<lparr>t_error := - RT_ETIMEOUT, t_stat := RT_THREAD_READY\<rparr> else threads demo_asleep t))"
  by (rule rt_timer_check_wakes_due [OF demo_asleep_ok(1,2) quiet_skip demo_asleep_ok(3)]) (simp add: demo_asleep_def)

text \<open>
  Property C8.
  A thread that sleeps for \<open>n\<close> ticks is suspended through the first \<open>n - 1\<close> of them and is ready from the
  \<open>n\<close>-th on; every one of these \<open>rt_tick_increase\<close> returns, also where the tick wraps around.
\<close>

theorem rt_thread_sleep_wakes_on_time:
  assumes "kinv s" "rt_current_thread s = Some t" "stat s t = RT_THREAD_READY"
    and "stat s u = RT_THREAD_READY" "u \<noteq> t" "rt_scheduler_lock_nest s = 0" "quiet call"
    and "thread_timers s" "timers_ok (rt_tick s) s" "\<forall>x \<in> set (rt_timer_list s). ticks_to s x \<noteq> 0"
    and "\<not> activated s (ThreadTimer t)" "0 < n" "n < 0x7fffffff" "m < 0x7fffffff"
  shows "\<exists>s1 s2. rt_thread_sleep (of_nat n) s = Some s1 \<and> ticks call m s1 = Some s2 \<and> kinv s2 \<and> running s2 \<and>
    frames s2 t = Some InSleep \<and>
    (if m < n then stat s2 t = RT_THREAD_SUSPEND
     else stat s2 t = RT_THREAD_READY \<and> t_error (threads s2 t) = - RT_ETIMEOUT)"
  by (rule sleep_then_ticks [OF assms])

theorem rt_thread_sleep_wakes_on_time_witness:
  "\<exists>s1 s2. rt_thread_sleep (of_nat 5) demo = Some s1 \<and> ticks (\<lambda>f x s. Some s) 5 s1 = Some s2 \<and> kinv s2 \<and> running s2 \<and>
    frames s2 3 = Some InSleep \<and>
    (if (5::nat) < 5 then stat s2 3 = RT_THREAD_SUSPEND
     else stat s2 3 = RT_THREAD_READY \<and> t_error (threads s2 3) = - RT_ETIMEOUT)"
proof (rule rt_thread_sleep_wakes_on_time [where u = 10])
  show "thread_timers demo" "timers_ok (rt_tick demo) demo"
    by (simp_all add: thread_timers_def timers_ok_def window_def in_order_def half_ticks)
  show "\<not> activated demo (ThreadTimer 3)" by (simp add: activated_def timer_flag_def demo_def)
qed (simp_all add: quiet_skip)

text \<open>
  The periods must be positive: with a periodic timer of period zero that is due, \<open>rt_timer_check\<close>
  does not return.
\<close>

theorem rt_timer_check_zero_period:
  assumes "zero_period n s"
  shows "rt_timer_check (\<lambda>f x s. Some s) s = None"
  using zero_period_no_result [OF _ refl, of s _ n] assms by (cases "rt_timer_check (\<lambda>f x s. Some s) s") auto

theorem rt_timer_check_zero_period_witness:
  "rt_timer_check (\<lambda>f x s. Some s)
     (demo\<lparr>rt_timer_list := [Timer 7],
        timers := (timers demo)(Timer 7 := \<lparr>tm_timeout_func = TimeoutUser 1, tm_parameter = 0, tm_init_tick = 0, tm_timeout_tick = 100\<rparr>),
        objects := (objects demo)(ObjTimer (Timer 7) := (objects demo (ObjTimer (Timer 7)))\<lparr>o_flag := 3\<rparr>)\<rparr>) = None"
  by (rule rt_timer_check_zero_period [where n = 7]) (simp add: zero_period_def timer_flag_def)

end
