(* ===== verification/RtSystem.thy ===== *)
theory RtSystem
  imports RtSem RtEvent RtMailbox RtMq RtClock
begin

text \<open>
  The kernel as a whole: threads that call semaphores, events, mailboxes, message queues, sleep and
  yield, are switched out in a call and go on in it later, and ticks that come at any time. Every
  step is a call of one of the other theories; what is shown is that the scheduler's promise and
  the invariants of the components survive all of their interleavings. The memory pools and the
  mutexes are left out here: their theories show why the promise fails for them (a pool with a
  timed-out waiter, a release that takes a lent priority back).
\<close>


subsection \<open>Calls\<close>

datatype kcall =
    SemTake nat u32
  | SemRelease nat
  | EventRecv nat u32 u8 u32
  | EventSend nat u32
  | MbSend nat u32 u32
  | MbRecv nat u32
  | MqSend nat "u8 list" u32
  | MqUrgent nat "u8 list" u32
  | MqRecv nat u32 u32
  | Yield
  | Sleep rt_tick_t
  | Continue
  | Tick

text \<open>The running thread goes on in the call it was switched out of.\<close>

fun resume_call :: "nat \<Rightarrow> frame \<Rightarrow> kstate \<Rightarrow> kstate option" where
  "resume_call t InSleep s = Some (snd (rt_thread_sleep_wake t s))"
| "resume_call t (InSemTake a) s = Some (snd (rt_sem_take_wake t s))"
| "resume_call t (InEventRecv a) s = Some (snd (rt_event_recv_wake t s))"
| "resume_call t (InMbSend a v timeout d) s = map_option snd (rt_mb_send_wait_wake t a v timeout d s)"
| "resume_call t (InMbRecv a timeout d) s = map_option snd (rt_mb_recv_wake t a timeout d s)"
| "resume_call t (InMqRecv a sz timeout d) s = map_option snd (rt_mq_recv_wake t a sz timeout d s)"
| "resume_call t _ s = None"

fun kcall_exec :: "callbacks \<Rightarrow> kcall \<Rightarrow> kstate \<Rightarrow> kstate option" where
  "kcall_exec call (SemTake a time) s = map_option snd (rt_sem_take a time s)"
| "kcall_exec call (SemRelease a) s = map_option snd (rt_sem_release a s)"
| "kcall_exec call (EventRecv a want option time) s = map_option snd (rt_event_recv a want option time s)"
| "kcall_exec call (EventSend a bits) s = map_option snd (rt_event_send a bits s)"
| "kcall_exec call (MbSend a v timeout) s = map_option snd (rt_mb_send_wait a v timeout s)"
| "kcall_exec call (MbRecv a timeout) s = map_option snd (rt_mb_recv a timeout s)"
| "kcall_exec call (MqSend a buffer sz) s = map_option snd (rt_mq_send a buffer sz s)"
| "kcall_exec call (MqUrgent a buffer sz) s = map_option snd (rt_mq_urgent a buffer sz s)"
| "kcall_exec call (MqRecv a sz timeout) s = map_option snd (rt_mq_recv a sz timeout s)"
| "kcall_exec call Yield s = map_option snd (rt_thread_yield s)"
| "kcall_exec call (Sleep tick) s = rt_thread_sleep tick s"
| "kcall_exec call Continue s =
     (case rt_current_thread s of
        None \<Rightarrow> None
      | Some t \<Rightarrow> (case frames s t of None \<Rightarrow> None | Some fr \<Rightarrow> resume_call t fr s))"
| "kcall_exec call Tick s = rt_tick_increase call s"

text \<open>What a program must keep to: the thread \<open>idle\<close> never waits, arguments are what the
  assertions of the calls ask for, and a timer is never set half the range of the ticks ahead.\<close>

definition resume_ok :: "frame \<Rightarrow> kstate \<Rightarrow> bool" where
  "resume_ok fr s = (case fr of
       InMutexTake _ \<Rightarrow> False
     | InMpAlloc _ \<Rightarrow> False
     | InCompletion _ \<Rightarrow> False
     | InDqPush _ _ _ _ \<Rightarrow> False
     | InDqPop _ _ \<Rightarrow> False
     | InDqNotify _ _ _ \<Rightarrow> False
     | InPipeRead _ _ _ \<Rightarrow> False
     | InPipeWrite _ _ _ \<Rightarrow> False
     | InMbSend a v timeout d \<Rightarrow> wait_time (time_left timeout d s)
     | InMbRecv a timeout d \<Rightarrow> wait_time (time_left timeout d s)
     | InMqRecv a sz timeout d \<Rightarrow> wait_time (time_left timeout d s) \<and> sz \<noteq> 0
     | _ \<Rightarrow> True)"

definition may_call :: "nat \<Rightarrow> kcall \<Rightarrow> kstate \<Rightarrow> bool" where
  "may_call idle k s = (case k of
       SemTake a time \<Rightarrow> rt_current_thread s \<noteq> Some idle \<and> wait_time time
     | SemRelease a \<Rightarrow> True
     | EventRecv a want option time \<Rightarrow> rt_current_thread s \<noteq> Some idle \<and> wait_time time \<and> want \<noteq> 0 \<and>
         (option AND RT_EVENT_FLAG_AND \<noteq> 0 \<or> option AND RT_EVENT_FLAG_OR \<noteq> 0)
     | EventSend a bits \<Rightarrow> bits \<noteq> 0
     | MbSend a v timeout \<Rightarrow> rt_current_thread s \<noteq> Some idle \<and> wait_time timeout
     | MbRecv a timeout \<Rightarrow> rt_current_thread s \<noteq> Some idle \<and> wait_time timeout
     | MqSend a buffer sz \<Rightarrow> sz \<noteq> 0 \<and> unat sz \<le> length buffer
     | MqUrgent a buffer sz \<Rightarrow> sz \<noteq> 0 \<and> unat sz \<le> length buffer
     | MqRecv a sz timeout \<Rightarrow> rt_current_thread s \<noteq> Some idle \<and> wait_time timeout \<and> sz \<noteq> 0
     | Yield \<Rightarrow> True
     | Sleep tick \<Rightarrow> rt_current_thread s \<noteq> Some idle \<and> tick < RT_TICK_MAX div 2
     | Continue \<Rightarrow> (\<exists>t fr. rt_current_thread s = Some t \<and> t \<noteq> idle \<and> frames s t = Some fr \<and> resume_ok fr s)
     | Tick \<Rightarrow> thread_timers s \<and> (\<exists>b. timers_ok b (s\<lparr>rt_tick := rt_tick s + 1\<rparr>)))"

subsection \<open>The invariant\<close>

definition flags_ok :: "kstate \<Rightarrow> bool" where
  "flags_ok s \<longleftrightarrow> (\<forall>b. (\<forall>x. b \<noteq> ObjTimer x) \<longrightarrow>
     obj_flag b s = RT_IPC_FLAG_FIFO \<or> obj_flag b s = RT_IPC_FLAG_PRIO)"

definition runs_highest :: "kstate \<Rightarrow> bool" where
  "runs_highest s \<longleftrightarrow> (\<exists>c. rt_current_thread s = Some c \<and> highest_ready s c)"

definition channels_ok :: "kstate \<Rightarrow> bool" where
  "channels_ok s \<longleftrightarrow> (\<forall>a. mb_wf (mailboxes s a)) \<and> (\<forall>a. mq_wf (messagequeues s a))"

definition sys_inv :: "nat \<Rightarrow> kstate \<Rightarrow> bool" where
  "sys_inv idle s \<longleftrightarrow> kinv s \<and> rt_interrupt_nest s = 0 \<and> rt_scheduler_lock_nest s = 0 \<and>
     stat s idle = RT_THREAD_READY \<and> runs_highest s \<and> flags_ok s \<and> channels_ok s"

lemma sys_invD:
  assumes "sys_inv idle s"
  shows "kinv s" "rt_interrupt_nest s = 0" "rt_scheduler_lock_nest s = 0" "stat s idle = RT_THREAD_READY"
    "runs_highest s" "flags_ok s" "channels_ok s"
  using assms by (simp_all add: sys_inv_def)

lemma sys_current:
  assumes "sys_inv idle s" obtains t where "rt_current_thread s = Some t" "stat s t = RT_THREAD_READY" "highest_ready s t"
  using assms by (auto simp: sys_inv_def runs_highest_def highest_ready_def)

lemma sys_can_wait:
  assumes "sys_inv idle s" "rt_current_thread s = Some t" "t \<noteq> idle"
  shows "can_wait s t"
  using assms by (auto simp: sys_inv_def runs_highest_def highest_ready_def can_wait_def)

lemma sys_flag:
  assumes "sys_inv idle s" "\<And>x. b \<noteq> ObjTimer x"
  shows "obj_flag b s = RT_IPC_FLAG_FIFO \<or> obj_flag b s = RT_IPC_FLAG_PRIO"
  using assms by (simp add: sys_inv_def flags_ok_def)

text \<open>What carries the invariant over a step.\<close>

lemma sys_inv_step:
  assumes "sys_inv idle s" "kinv s'" "rt_interrupt_nest s' = rt_interrupt_nest s"
    "rt_scheduler_lock_nest s' = rt_scheduler_lock_nest s" "stat s' idle = RT_THREAD_READY" "runs_highest s'"
    "\<And>b. (\<And>x. b \<noteq> ObjTimer x) \<Longrightarrow> objects s' b = objects s b" "channels_ok s'"
  shows "sys_inv idle s'"
  using assms unfolding sys_inv_def flags_ok_def obj_flag_def by auto

lemma sys_waits:
  assumes inv: "sys_inv idle s" and t: "t \<noteq> idle" and w: "waits_on q t flag time fr th s s'"
  shows "sys_inv idle s'"
proof (rule sys_inv_step [OF inv])
  note k = kframeD [of s s']
  have kf: "kframe s s'" using w by (simp add: waits_on_def)
  show "kinv s'" "stat s' idle = RT_THREAD_READY" "runs_highest s'"
    using w t sys_invD(4) [OF inv] by (auto simp: waits_on_def runs_highest_def)
  show "rt_interrupt_nest s' = rt_interrupt_nest s" "rt_scheduler_lock_nest s' = rt_scheduler_lock_nest s"
    "channels_ok s'"
    using k [OF kf] sys_invD(7) [OF inv] by (simp_all add: channels_ok_def)
  show "objects s' b = objects s b" if "\<And>x. b \<noteq> ObjTimer x" for b
    using w that by (simp add: waits_on_def)
qed

lemma sys_woken:
  assumes inv: "sys_inv idle s" and w: "woken q t s s'"
  shows "sys_inv idle s'"
proof (rule sys_inv_step [OF inv])
  note D = wokenD [OF w] and k = kframeD [OF wokenD(2) [OF w]]
  show "kinv s'" by (rule D(1))
  show "stat s' idle = RT_THREAD_READY" using D(4) sys_invD(4) [OF inv] by simp
  show "runs_highest s'" using inv D(10) sys_invD(3) [OF inv] by (auto simp: runs_highest_def elim!: sys_current)
  show "rt_interrupt_nest s' = rt_interrupt_nest s" "rt_scheduler_lock_nest s' = rt_scheduler_lock_nest s"
    "channels_ok s'"
    using k sys_invD(7) [OF inv] by (simp_all add: channels_ok_def)
  show "objects s' b = objects s b" if "\<And>x. b \<noteq> ObjTimer x" for b
    using D(9) that by simp
qed

lemma highest_ready_cong:
  assumes "tlists s' = tlists s" "\<And>u. t_stat (threads s' u) = t_stat (threads s u)" "\<And>u. prio s' u = prio s u"
  shows "highest_ready s' t = highest_ready s t"
  using assms by (simp add: highest_ready_def)

text \<open>Changes that no scheduling depends on.\<close>

lemma sys_inv_upd [simp]:
  "sys_inv idle (s\<lparr>semaphores := x\<rparr>) = sys_inv idle s"
  "sys_inv idle (s\<lparr>events := y\<rparr>) = sys_inv idle s"
  "sys_inv idle (s\<lparr>frames := f\<rparr>) = sys_inv idle s"
  by (simp_all add: sys_inv_def runs_highest_def flags_ok_def channels_ok_def obj_flag_def
      highest_ready_def)

lemma sys_inv_error [simp]:
  "sys_inv idle (s\<lparr>threads := (threads s)(t := (threads s t)\<lparr>t_error := e\<rparr>)\<rparr>) = sys_inv idle s"
proof -
  have "stat (s\<lparr>threads := (threads s)(t := (threads s t)\<lparr>t_error := e\<rparr>)\<rparr>) u = stat s u"
    "prio (s\<lparr>threads := (threads s)(t := (threads s t)\<lparr>t_error := e\<rparr>)\<rparr>) u = prio s u" for u by simp_all
  then have "highest_ready (s\<lparr>threads := (threads s)(t := (threads s t)\<lparr>t_error := e\<rparr>)\<rparr>) c = highest_ready s c" for c
    by (intro highest_ready_cong) simp_all
  then show ?thesis by (simp add: sys_inv_def runs_highest_def flags_ok_def channels_ok_def obj_flag_def)
qed

lemma sys_inv_mb [simp]:
  "sys_inv idle s \<Longrightarrow> mb_wf m \<Longrightarrow> sys_inv idle (s\<lparr>mailboxes := (mailboxes s)(a := m)\<rparr>)"
  by (simp add: sys_inv_def runs_highest_def flags_ok_def channels_ok_def obj_flag_def highest_ready_def)

lemma sys_inv_mq [simp]:
  "sys_inv idle s \<Longrightarrow> mq_wf m \<Longrightarrow> sys_inv idle (s\<lparr>messagequeues := (messagequeues s)(a := m)\<rparr>)"
  by (simp add: sys_inv_def runs_highest_def flags_ok_def channels_ok_def obj_flag_def highest_ready_def)


subsection \<open>Every call returns and keeps the invariant\<close>

lemma sys_sem_take:
  assumes "sys_inv idle s" "may_call idle (SemTake a time) s"
  shows "\<exists>s'. kcall_exec call (SemTake a time) s = Some s' \<and> sys_inv idle s'"
proof -
  obtain t where t: "rt_current_thread s = Some t" by (rule sys_current [OF assms(1)])
  then have ti: "t \<noteq> idle" "wait_time time" using assms(2) by (simp_all add: may_call_def)
  obtain r s' where r: "rt_sem_take a time s = Some (r, s')"
    "if sem_value (semaphores s a) > 0
     then r = Returns RT_EOK \<and>
       s' = s\<lparr>semaphores := (semaphores s)(a := (semaphores s a)\<lparr>sem_value := sem_value (semaphores s a) - 1\<rparr>)\<rparr>
     else if time = 0 then r = Returns (- RT_ETIMEOUT) \<and> s' = s
     else r = Waits \<and> waits_on (SemQ a) t (obj_flag (ObjSem a) s) time (InSemTake a)
                        ((threads s t)\<lparr>t_error := RT_EOK\<rparr>) s s'"
    using rt_sem_take_spec [OF sys_invD(1) [OF assms(1)] sys_can_wait [OF assms(1) t ti(1)] ti(2)
      sys_flag [OF assms(1), of "ObjSem a"]] by blast
  have "sys_inv idle s'" using r(2) assms(1) sys_waits [OF assms(1) ti(1)] by (auto split: if_splits)
  then show ?thesis using r(1) by simp
qed

lemma sys_sem_release:
  assumes "sys_inv idle s"
  shows "\<exists>s'. kcall_exec call (SemRelease a) s = Some s' \<and> sys_inv idle s'"
proof -
  obtain t where t: "rt_current_thread s = Some t" by (rule sys_current [OF assms])
  obtain s' where r: "rt_sem_release a s = Some (RT_EOK, s')"
    "case tlists s (SemQ a) of
       [] \<Rightarrow> s' = s\<lparr>semaphores := (semaphores s)(a := (semaphores s a)\<lparr>sem_value := sem_value (semaphores s a) + 1\<rparr>)\<rparr>
     | t # ts \<Rightarrow> woken (SemQ a) t s s' \<and> tlists s' (SemQ a) = ts"
    using rt_sem_release_spec [OF sys_invD(1) [OF assms] t, of a] by blast
  have "sys_inv idle s'" using r(2) assms sys_woken [OF assms] by (auto split: list.splits)
  then show ?thesis using r(1) by simp
qed

lemma sys_inv_set_threads:
  assumes "sys_inv idle s" "\<And>u. same_sched (th u) (threads s u)" "\<And>u. stack_ok (th u) = stack_ok (threads s u)"
  shows "sys_inv idle (s\<lparr>threads := th\<rparr>)"
proof (rule sys_inv_step [OF assms(1)])
  have st: "t_stat (th u) = stat s u" "t_current_priority (th u) = prio s u" for u
    using assms(2) [of u] by (simp_all add: same_sched_def)
  show "kinv (s\<lparr>threads := th\<rparr>)" using kinv_threads [of th s] assms sys_invD(1) [OF assms(1)] by simp
  show "stat (s\<lparr>threads := th\<rparr>) idle = RT_THREAD_READY" using st sys_invD(4) [OF assms(1)] by simp
  have "highest_ready (s\<lparr>threads := th\<rparr>) c = highest_ready s c" for c
    by (rule highest_ready_cong) (simp_all add: st)
  then show "runs_highest (s\<lparr>threads := th\<rparr>)" using sys_invD(5) [OF assms(1)] by (simp add: runs_highest_def)
  show "channels_ok (s\<lparr>threads := th\<rparr>)" using sys_invD(7) [OF assms(1)] by (simp add: channels_ok_def)
qed simp_all

lemma sys_event_recv:
  assumes "sys_inv idle s" "may_call idle (EventRecv a want option time) s"
  shows "\<exists>s'. kcall_exec call (EventRecv a want option time) s = Some s' \<and> sys_inv idle s'"
proof -
  obtain t where t: "rt_current_thread s = Some t" by (rule sys_current [OF assms(1)])
  then have ti: "t \<noteq> idle" "wait_time time" "want \<noteq> 0"
    "option AND RT_EVENT_FLAG_AND \<noteq> 0 \<or> option AND RT_EVENT_FLAG_OR \<noteq> 0"
    using assms(2) by (simp_all add: may_call_def)
  obtain r s' where r: "rt_event_recv a want option time s = Some (r, s')"
    "if event_met option want (ev_set (events s a)) \<noteq> None
     then r = Returns (RT_EOK, Some (ev_set (events s a) AND want)) \<and>
       s' = s\<lparr>threads := (threads s)(t := (threads s t)\<lparr>t_error := RT_EOK\<rparr>),
              events := (if option AND RT_EVENT_FLAG_CLEAR \<noteq> 0
                then (events s)(a := (events s a)\<lparr>ev_set := ev_set (events s a) AND NOT want\<rparr>)
                else events s)\<rparr>
     else if time = 0
     then r = Returns (- RT_ETIMEOUT, None) \<and>
       s' = s\<lparr>threads := (threads s)(t := (threads s t)\<lparr>t_error := - RT_ETIMEOUT\<rparr>)\<rparr>
     else r = Waits \<and> waits_on (EventQ a) t (obj_flag (ObjEvent a) s) time (InEventRecv a)
       ((threads s t)\<lparr>t_error := RT_EOK, t_event_set := want, t_event_info := option\<rparr>) s s'"
    using rt_event_recv_spec [OF sys_invD(1) [OF assms(1)] sys_can_wait [OF assms(1) t ti(1)] ti(2,3)
      sys_flag [OF assms(1), of "ObjEvent a"] ti(4)] by blast
  consider (met) "event_met option want (ev_set (events s a)) \<noteq> None"
    | (none) "event_met option want (ev_set (events s a)) = None" "time = 0"
    | (wait) "event_met option want (ev_set (events s a)) = None" "time \<noteq> 0" by blast
  then have "sys_inv idle s'"
  proof cases
    case met
    then show ?thesis using r(2) assms(1) by (simp only: if_True) simp
  next
    case none
    then show ?thesis using r(2) assms(1) by simp
  next
    case wait
    then show ?thesis using r(2) sys_waits [OF assms(1) ti(1)] by simp blast
  qed
  then show ?thesis using r(1) by simp
qed

text \<open>The walk of \<open>rt_event_send\<close>: what it does not touch.\<close>

lemma rt_thread_resume_objects:
  "rt_thread_resume t s = Some (r, s') \<Longrightarrow> (\<And>x. b \<noteq> ObjTimer x) \<Longrightarrow> objects s' b = objects s b"
  by (auto simp: rt_thread_resume_def rt_schedule_insert_thread_def rt_timer_stop_def set_timer_flag_def
      timer_remove_def Let_def split: if_splits)

lemma event_send_walk_frame:
  assumes "event_send_walk a ts need s = Some (need', s')"
  shows "(\<forall>b. (\<forall>x. b \<noteq> ObjTimer x) \<longrightarrow> objects s' b = objects s b) \<and> (need \<longrightarrow> need') \<and> (\<not> need' \<longrightarrow> s' = s)"
  using assms
proof (induction ts arbitrary: s need)
  case (Cons t ts)
  show ?case
  proof (cases "event_met (t_event_info (threads s t)) (t_event_set (threads s t)) (ev_set (events s a))")
    case None
    then show ?thesis using Cons.IH [of need s] Cons.prems by auto
  next
    case (Some got)
    define s2 where "s2 = (let s1 = thread_at t (\<lambda>th. th\<lparr>t_event_set := got\<rparr>) s in
        if t_event_info (threads s1 t) AND RT_EVENT_FLAG_CLEAR \<noteq> 0
        then event_at a (\<lambda>e. e\<lparr>ev_set := ev_set e AND NOT (t_event_set (threads s1 t))\<rparr>) s1 else s1)"
    have "(do { (_, s3) \<leftarrow> rt_thread_resume t s2; event_send_walk a ts True s3 }) = Some (need', s')"
      using Cons.prems Some by (simp add: s2_def Let_def)
    then obtain r s3 where e: "objects s2 = objects s" "rt_thread_resume t s2 = Some (r, s3)"
      "event_send_walk a ts True s3 = Some (need', s')"
      by (auto simp: s2_def Let_def)
    then show ?thesis using Cons.IH [OF e(3)] rt_thread_resume_objects [OF e(2)] by simp
  qed
qed simp

lemma sys_event_send:
  assumes "sys_inv idle s" "bits \<noteq> 0"
  shows "\<exists>s'. kcall_exec call (EventSend a bits) s = Some s' \<and> sys_inv idle s'"
proof -
  obtain c where c: "rt_current_thread s = Some c" by (rule sys_current [OF assms(1)])
  let ?s1 = "event_at a (\<lambda>e. e\<lparr>ev_set := ev_set e OR bits\<rparr>) s"
  let ?ts = "tlists s (EventQ a)"
  have k1: "kinv ?s1" "tlists ?s1 (EventQ a) = [] @ ?ts" using sys_invD(1) [OF assms(1)] by simp_all
  have i1: "sys_inv idle ?s1" using assms(1) by simp
  obtain need s2 vs where I: "event_send_walk a ?ts False ?s1 = Some (need, s2)" "kinv s2"
    "\<forall>t \<in> set ?ts - set vs. event_woken a ?s1 s2 t" "\<forall>t. t \<notin> set ?ts - set vs \<longrightarrow> threads s2 t = threads ?s1 t"
    "kframe (?s1\<lparr>events := events s2\<rparr>) s2" "rt_current_thread s2 = rt_current_thread ?s1"
    using event_send_walk_spec [OF k1, of False] by auto
  note F = event_send_walk_frame [OF I(1)]
  show ?thesis
  proof (cases need)
    case False
    then show ?thesis using F assms I(1) i1 by (simp add: rt_event_send_def)
  next
    case True
    have idl: "stat s2 idle = RT_THREAD_READY"
    proof (cases "idle \<in> set ?ts - set vs")
      case True
      then show ?thesis using I(3) by (simp add: event_woken_def)
    next
      case False
      then show ?thesis using I(4) sys_invD(4) [OF assms(1)] by simp
    qed
    have c2: "rt_current_thread s2 = Some c" using I(6) c by simp
    have lock: "rt_scheduler_lock_nest s2 = 0" "rt_interrupt_nest s2 = 0" "channels_ok s2"
      using kframeD [OF I(5)] sys_invD [OF assms(1)] by (simp_all add: channels_ok_def)
    obtain c' p where sc: "rt_schedule s2 = Some (s2\<lparr>rt_current_thread := Some c', rt_current_priority := p\<rparr>)"
      "kinv (s2\<lparr>rt_current_thread := Some c', rt_current_priority := p\<rparr>)"
      "if rt_scheduler_lock_nest s2 = 0 then highest_ready s2 c' else c' = c"
      by (rule kinv_schedule [OF I(2) idl c2])
    have "sys_inv idle (s2\<lparr>rt_current_thread := Some c', rt_current_priority := p\<rparr>)"
      by (rule sys_inv_step [OF assms(1) sc(2)])
        (use lock sc(3) idl F sys_invD [OF assms(1)] in \<open>simp_all add: runs_highest_def channels_ok_def\<close>)
    then show ?thesis using I(1) sc(1) True assms(2) by (simp add: rt_event_send_def)
  qed
qed

lemma sys_yield:
  assumes "sys_inv idle s"
  shows "\<exists>s'. kcall_exec call Yield s = Some s' \<and> sys_inv idle s'"
proof -
  obtain t where t: "rt_current_thread s = Some t" "stat s t = RT_THREAD_READY" "highest_ready s t"
    by (rule sys_current [OF assms])
  let ?q = "Ready (unat (prio s t))"
  obtain s' c' where r: "rt_thread_yield s = Some (RT_EOK, s')" "kinv s'" "kframe s s'" "threads s' = threads s"
    "tlists s' = (if tlists s ?q = [t] then tlists s else (tlists s)(?q := remove1 t (tlists s ?q) @ [t]))"
    "objects s' = objects s" "rt_current_thread s' = Some c'"
    "if tlists s ?q \<noteq> [t] \<and> rt_scheduler_lock_nest s = 0 then highest_ready s' c' else c' = t"
    using rt_thread_yield_spec [OF sys_invD(1) [OF assms] t(1,2)] by metis
  have "highest_ready s' c'"
  proof (cases "tlists s ?q = [t]")
    case True
    then show ?thesis using r(4,5,8) t(3) by (simp add: highest_ready_def)
  next
    case False
    then show ?thesis using r(8) sys_invD(3) [OF assms] by simp
  qed
  then have "sys_inv idle s'"
    using sys_inv_step [OF assms r(2)] r(3,4,6,7) kframeD [OF r(3)] sys_invD [OF assms]
    by (simp add: runs_highest_def channels_ok_def)
  then show ?thesis using r(1) by simp
qed

lemma sys_sleep:
  assumes "sys_inv idle s" "may_call idle (Sleep tick) s"
  shows "\<exists>s'. kcall_exec call (Sleep tick) s = Some s' \<and> sys_inv idle s'"
proof -
  obtain t where t: "rt_current_thread s = Some t" "stat s t = RT_THREAD_READY" by (rule sys_current [OF assms(1)])
  then have ti: "idle \<noteq> t" "tick < RT_TICK_MAX div 2" using assms(2) by (auto simp: may_call_def)
  obtain s' c' where r: "rt_thread_sleep tick s = Some s'" "kinv s'" "kframe s s'"
    "threads s' = (threads s)(t := (threads s t)\<lparr>t_stat := RT_THREAD_SUSPEND\<rparr>)"
    "\<forall>b. b \<noteq> ObjTimer (ThreadTimer t) \<longrightarrow> objects s' b = objects s b"
    "rt_current_thread s' = Some c'" "if rt_scheduler_lock_nest s = 0 then highest_ready s' c' else c' = t"
    using rt_thread_sleep_spec [OF sys_invD(1) [OF assms(1)] t ti(2) sys_invD(4) [OF assms(1)] ti(1)] by blast
  have "sys_inv idle s'"
    using sys_inv_step [OF assms(1) r(2)] r(3-7) kframeD [OF r(3)] sys_invD [OF assms(1)] ti(1)
    by (simp add: runs_highest_def channels_ok_def)
  then show ?thesis using r(1) by simp
qed


lemma sys_mb_send_loop:
  assumes "sys_inv idle s" "rt_current_thread s = Some t" "t \<noteq> idle" "wait_time timeout"
  shows "\<exists>r s'. mb_send_loop a v timeout d s = Some (r, s') \<and> sys_inv idle s'"
proof -
  have wf: "mb_wf (mailboxes s a)" using sys_invD(7) [OF assms(1)] by (simp add: channels_ok_def)
  consider (room) "mb_entry (mailboxes s a) \<noteq> mb_size (mailboxes s a)"
    | (full) "mb_entry (mailboxes s a) = mb_size (mailboxes s a)" "timeout = 0"
    | (wait) "mb_entry (mailboxes s a) = mb_size (mailboxes s a)" "timeout \<noteq> 0" by blast
  then show ?thesis
  proof cases
    case room
    let ?s1 = "mb_at a (mb_put v) s"
    have i1: "sys_inv idle ?s1" using assms(1) mb_put_spec(1) [OF wf room] by simp
    obtain s' where s': "mb_send_loop a v timeout d s = Some (Returns RT_EOK, s')"
      "case tlists s (MbRecvQ a) of [] \<Rightarrow> s' = ?s1 | u # us \<Rightarrow> woken (MbRecvQ a) u ?s1 s'"
      using mb_send_loop_room [OF sys_invD(1) [OF assms(1)] assms(2) room, of v timeout d] by blast
    then show ?thesis using i1 sys_woken [OF i1] by (auto split: list.splits)
  next
    case full
    then show ?thesis using assms(1,2) by (simp add: mb_send_loop_def rt_thread_self_def)
  next
    case wait
    then show ?thesis
      using mb_send_loop_full [OF sys_invD(1) [OF assms(1)] sys_can_wait [OF assms(1-3)] assms(4) wait(2)
        sys_flag [OF assms(1), of "ObjMb a"] wait(1)] sys_waits [OF assms(1,3)] by blast
  qed
qed

lemma sys_mb_recv_loop:
  assumes "sys_inv idle s" "rt_current_thread s = Some t" "t \<noteq> idle" "wait_time timeout"
  shows "\<exists>r s'. mb_recv_loop a timeout d s = Some (r, s') \<and> sys_inv idle s'"
proof -
  have wf: "mb_wf (mailboxes s a)" using sys_invD(7) [OF assms(1)] by (simp add: channels_ok_def)
  consider (some) "mb_entry (mailboxes s a) \<noteq> 0"
    | (empty) "mb_entry (mailboxes s a) = 0" "timeout = 0"
    | (wait) "mb_entry (mailboxes s a) = 0" "timeout \<noteq> 0" by blast
  then show ?thesis
  proof cases
    case some
    let ?s1 = "mb_at a (\<lambda>m. snd (mb_get m)) s"
    have i1: "sys_inv idle ?s1" using assms(1) mb_get_spec(2) [OF wf some] by simp
    obtain r s' where s': "mb_recv_loop a timeout d s = Some (r, s')"
      "case tlists s (MbSendQ a) of [] \<Rightarrow> s' = ?s1 | u # us \<Rightarrow> woken (MbSendQ a) u ?s1 s'"
      using mb_recv_loop_some [OF sys_invD(1) [OF assms(1)] assms(2) some, of timeout d] by blast
    then show ?thesis using i1 sys_woken [OF i1] by (auto split: list.splits)
  next
    case empty
    then show ?thesis using assms(1,2) by (simp add: mb_recv_loop_def rt_thread_self_def)
  next
    case wait
    then show ?thesis
      using mb_recv_loop_empty [OF sys_invD(1) [OF assms(1)] sys_can_wait [OF assms(1-3)] assms(4) wait(2)
        sys_flag [OF assms(1), of "ObjMb a"] wait(1)] sys_waits [OF assms(1,3)] by blast
  qed
qed

lemma sys_mq_recv_loop:
  assumes "sys_inv idle s" "rt_current_thread s = Some t" "t \<noteq> idle" "wait_time timeout"
  shows "\<exists>r s'. mq_recv_loop a sz timeout d s = Some (r, s') \<and> sys_inv idle s'"
proof (cases "mq_items (messagequeues s a)")
  case (Cons msg msgs)
  have wf: "mq_wf (messagequeues s a)" using sys_invD(7) [OF assms(1)] by (simp add: channels_ok_def)
  obtain m where "mq_recv_loop a sz timeout d s = Some (Returns (RT_EOK, take (unat sz) msg), mq_at a (\<lambda>_. m) s)" "mq_wf m"
    using mq_recv_loop_some [OF wf Cons, of sz timeout d] by blast
  then show ?thesis using assms(1) by simp
next
  case Nil
  have wf: "mq_wf (messagequeues s a)" using sys_invD(7) [OF assms(1)] by (simp add: channels_ok_def)
  have e: "mq_entry (messagequeues s a) = 0" using mq_empty [OF wf] Nil by simp
  show ?thesis
  proof (cases "timeout = 0")
    case True
    then show ?thesis using assms(1,2) e sys_invD(2) [OF assms(1)]
      by (simp add: mq_recv_loop_def rt_thread_self_def)
  next
    case False
    then show ?thesis
      using mq_recv_loop_empty [OF sys_invD(1) [OF assms(1)] sys_can_wait [OF assms(1-3)] assms(4) False
        sys_flag [OF assms(1), of "ObjMq a"] e] sys_waits [OF assms(1,3)] by blast
  qed
qed


lemma sys_mb_calls:
  assumes "sys_inv idle s"
  shows "may_call idle (MbSend a v timeout) s \<Longrightarrow>
      \<exists>s'. kcall_exec call (MbSend a v timeout) s = Some s' \<and> sys_inv idle s'"
    and "may_call idle (MbRecv a timeout) s \<Longrightarrow>
      \<exists>s'. kcall_exec call (MbRecv a timeout) s = Some s' \<and> sys_inv idle s'"
    and "may_call idle (MqRecv a sz timeout) s \<Longrightarrow>
      \<exists>s'. kcall_exec call (MqRecv a sz timeout) s = Some s' \<and> sys_inv idle s'"
proof -
  obtain t where t: "rt_current_thread s = Some t" by (rule sys_current [OF assms])
  show "\<exists>s'. kcall_exec call (MbSend a v timeout) s = Some s' \<and> sys_inv idle s'"
    if "may_call idle (MbSend a v timeout) s"
    using that sys_mb_send_loop [OF assms t, of timeout a v 0] assms t
    by (auto simp: may_call_def rt_mb_send_wait_def)
  show "\<exists>s'. kcall_exec call (MbRecv a timeout) s = Some s' \<and> sys_inv idle s'"
    if "may_call idle (MbRecv a timeout) s"
    using that sys_mb_recv_loop [OF assms t, of timeout a 0] assms t
    by (auto simp: may_call_def rt_mb_recv_def)
  show "\<exists>s'. kcall_exec call (MqRecv a sz timeout) s = Some s' \<and> sys_inv idle s'"
    if "may_call idle (MqRecv a sz timeout) s"
    using that sys_mq_recv_loop [OF assms t, of timeout a sz 0] assms t
    by (auto simp: may_call_def rt_mq_recv_def)
qed

lemma sys_mq_sent:
  assumes "sys_inv idle s" "mq_sent a buffer sz place s r s'"
  shows "sys_inv idle s'"
proof -
  let ?m = "messagequeues s a"
  have w: "mq_wf (messagequeues s' a)" using assms(2) by (simp add: mq_sent_def)
  show ?thesis
  proof (cases "unat (mq_msg_size ?m) < unat sz \<or> length (mq_items ?m) = unat (mq_max_msgs ?m)")
    case True
    then have "s' = s" using assms(2) unfolding mq_sent_def by (simp split: if_splits)
    then show ?thesis using assms(1) by simp
  next
    case False
    then have sent: "let s1 = s\<lparr>messagequeues := messagequeues s'\<rparr> in
        case tlists s (MqQ a) of [] \<Rightarrow> s' = s1 | u # us \<Rightarrow> woken (MqQ a) u s1 s'"
      "\<forall>a'. a' \<noteq> a \<longrightarrow> messagequeues s' a' = messagequeues s a'"
      using assms(2) unfolding mq_sent_def by simp_all
    have e: "messagequeues s' = (messagequeues s)(a := messagequeues s' a)" using sent(2) by auto
    have i1: "sys_inv idle (s\<lparr>messagequeues := messagequeues s'\<rparr>)"
      by (subst e) (rule sys_inv_mq [OF assms(1) w])
    show ?thesis
    proof (cases "tlists s (MqQ a)")
      case Nil
      then show ?thesis using sent(1) i1 by (simp add: Let_def)
    next
      case (Cons u us)
      then show ?thesis using sent(1) sys_woken [OF i1] by (auto simp add: Let_def)
    qed
  qed
qed

lemma sys_mq_sends:
  assumes "sys_inv idle s"
  shows "may_call idle (MqSend a buffer sz) s \<Longrightarrow>
      \<exists>s'. kcall_exec call (MqSend a buffer sz) s = Some s' \<and> sys_inv idle s'"
    and "may_call idle (MqUrgent a buffer sz) s \<Longrightarrow>
      \<exists>s'. kcall_exec call (MqUrgent a buffer sz) s = Some s' \<and> sys_inv idle s'"
proof -
  obtain t where t: "rt_current_thread s = Some t" by (rule sys_current [OF assms])
  have wf: "mq_wf (messagequeues s a)" using sys_invD(7) [OF assms] by (simp add: channels_ok_def)
  note k = sys_invD(1) [OF assms]
  show "\<exists>s'. kcall_exec call (MqSend a buffer sz) s = Some s' \<and> sys_inv idle s'"
    if "may_call idle (MqSend a buffer sz) s"
    using rt_mq_send_spec [OF k t wf, of sz buffer] that sys_mq_sent [OF assms] by (fastforce simp: may_call_def)
  show "\<exists>s'. kcall_exec call (MqUrgent a buffer sz) s = Some s' \<and> sys_inv idle s'"
    if "may_call idle (MqUrgent a buffer sz) s"
    using rt_mq_urgent_spec [OF k t wf, of sz buffer] that sys_mq_sent [OF assms] by (fastforce simp: may_call_def)
qed

lemma sys_continue:
  assumes "sys_inv idle s" "may_call idle Continue s"
  shows "\<exists>s'. kcall_exec call Continue s = Some s' \<and> sys_inv idle s'"
proof -
  obtain t fr where t: "rt_current_thread s = Some t" "t \<noteq> idle" "frames s t = Some fr" "resume_ok fr s"
    using assms(2) by (auto simp: may_call_def)
  let ?s1 = "s\<lparr>frames := (frames s)(t := None)\<rparr>"
  have i1: "sys_inv idle ?s1" "rt_current_thread ?s1 = Some t" using assms(1) t by simp_all
  have tl: "time_left timeout d ?s1 = time_left timeout d s" for timeout d
    by (simp add: time_left_def elapsed_def)
  have "\<exists>s'. resume_call t fr s = Some s' \<and> sys_inv idle s'"
  proof (cases fr)
    case InSleep
    then show ?thesis using i1 sys_inv_error [of idle ?s1 t RT_EOK] by (auto simp: rt_thread_sleep_wake_def Let_def)
  next
    case (InMbSend a v timeout d)
    then show ?thesis
      using sys_mb_send_loop [OF i1(1,2) t(2), of "time_left timeout d s" a v "elapsed timeout d ?s1"] t(4) i1(1) tl
      by (auto simp: rt_mb_send_wait_wake_def resume_ok_def Let_def)
  next
    case (InMbRecv a timeout d)
    then show ?thesis
      using sys_mb_recv_loop [OF i1(1,2) t(2), of "time_left timeout d s" a "elapsed timeout d ?s1"] t(4) i1(1) tl
      by (auto simp: rt_mb_recv_wake_def resume_ok_def Let_def)
  next
    case (InMqRecv a sz timeout d)
    then show ?thesis
      using sys_mq_recv_loop [OF i1(1,2) t(2), of "time_left timeout d s" a sz "elapsed timeout d ?s1"] t(4) i1(1) tl
      by (auto simp: rt_mq_recv_wake_def resume_ok_def Let_def)
  qed (use t i1 in \<open>simp_all add: rt_sem_take_wake_def rt_event_recv_wake_def resume_ok_def\<close>)
  then show ?thesis using t by simp
qed


lemma sys_inv_tick [simp]: "sys_inv idle (s\<lparr>rt_tick := k\<rparr>) = sys_inv idle s"
  by (simp add: sys_inv_def runs_highest_def flags_ok_def channels_ok_def obj_flag_def highest_ready_def)

lemma sys_tick_step:
  assumes "sys_inv idle s" "tick_step s = Some s'"
  shows "sys_inv idle s'"
proof -
  obtain c where c: "rt_current_thread s = Some c" by (rule sys_current [OF assms(1)])
  let ?s2 = "\<lambda>k. s\<lparr>rt_tick := rt_tick s + 1, threads := (threads s)(c := (threads s c)\<lparr>t_remaining_tick := k\<rparr>)\<rparr>"
  have i2: "sys_inv idle (?s2 k)" for k
    using sys_inv_set_threads [of idle "s\<lparr>rt_tick := rt_tick s + 1\<rparr>" "(threads s)(c := (threads s c)\<lparr>t_remaining_tick := k\<rparr>)"]
      assms(1) by (simp add: same_sched_def stack_ok_def)
  show ?thesis
  proof (cases "t_remaining_tick (threads s c) - 1 = 0")
    case False
    then have "tick_step s = Some (?s2 (t_remaining_tick (threads s c) - 1))"
      using c by (simp add: tick_step_def rt_thread_self_def Let_def)
    then show ?thesis using i2 assms(2) by simp
  next
    case True
    have "tick_step s = map_option snd (rt_thread_yield (?s2 (t_init_tick (threads s c))))"
      using c True by (cases "rt_thread_yield (?s2 (t_init_tick (threads s c)))")
        (auto simp: tick_step_def rt_thread_self_def Let_def)
    then show ?thesis using sys_yield [OF i2 [of "t_init_tick (threads s c)"]] assms(2) by auto
  qed
qed

lemma sys_timer_expire:
  assumes inv: "sys_inv idle s" and q: "quiet call" and ok: "timers_ok b s" "thread_timers s"
    and l: "rt_timer_list s = x # l" and due: "due x s"
  shows "\<exists>s'. timer_expire call x s = Some s' \<and> sys_inv idle s' \<and> timers_ok b s' \<and> rt_timer_list s' = l"
proof -
  obtain c where c: "rt_current_thread s = Some c" "stat s c = RT_THREAD_READY" by (rule sys_current [OF inv])
  have run: "running s" using c by (simp add: running_def)
  obtain t where x: "x = ThreadTimer t" using ok(2) l by (auto simp: thread_timers_def)
  obtain s' where s': "timer_expire call x s = Some s'" "kinv s'" "timers_ok b s'" "rt_timer_list s' = l"
    "threads s' = (threads s)(t := (threads s t)\<lparr>t_error := - RT_ETIMEOUT, t_stat := RT_THREAD_READY\<rparr>)"
    using timer_expire_spec [OF sys_invD(1) [OF inv] run q ok(1) l due] x by blast
  note T = timer_invD [OF kinvD(2) [OF sys_invD(1) [OF inv]]]
  let ?s1 = "timer_remove x s"
  have k1: "kinv ?s1"
    using kinvD [OF sys_invD(1) [OF inv]] timer_inv_remove [of s x] by (simp add: kinv_def stacks_ok_def)
  have st1: "stat ?s1 t = RT_THREAD_SUSPEND" using T(3) [of t] l x by simp
  have own: "own_timer_ok s t" using T(4) [of t] st1 by simp
  have nt1: "ThreadTimer t \<notin> set (rt_timer_list ?s1)" using T(1) l x by (simp add: timer_remove_def)
  have c1: "rt_current_thread ?s1 = Some c" using c by simp
  obtain s2 c2 where s2: "rt_thread_timeout t ?s1 = Some s2" "kframe ?s1 s2" "objects s2 = objects ?s1"
    "rt_current_thread s2 = Some c2" "if rt_scheduler_lock_nest ?s1 = 0 then highest_ready s2 c2 else c2 = c"
    by (rule rt_thread_timeout_spec [OF k1 st1 nt1 c1]) blast
  have fl: "timer_flag x s2 = timer_flag x s" using s2(3) by (simp add: timer_flag_def timer_remove_def)
  have np: "timer_flag x s2 AND RT_TIMER_FLAG_PERIODIC = 0"
    unfolding fl using own x flag_bits(2) [of "timer_flag x s"] by (auto simp: own_timer_ok_def)
  have call: "timer_call call x ?s1 = rt_thread_timeout t ?s1"
    using own x by (simp add: timer_call_def own_timer_ok_def timer_remove_def)
  let ?s3 = "set_timer_flag x (timer_flag x s2 AND NOT RT_TIMER_FLAG_ACTIVATED) s2"
  have e: "s' = ?s3" using s'(1) np s2(1) call by (simp add: timer_expire_def)
  have kf: "kframe s s2" using s2(2) by (simp add: kframe_def timer_remove_def)
  have "highest_ready s2 c2" using s2(5) sys_invD(3) [OF inv] by (simp add: timer_remove_def)
  then have "runs_highest s'" using s2(4) e by (auto simp: runs_highest_def highest_ready_def set_timer_flag_def)
  moreover have "stat s' idle = RT_THREAD_READY" using s'(5) sys_invD(4) [OF inv] by simp
  moreover have "rt_interrupt_nest s' = rt_interrupt_nest s" "rt_scheduler_lock_nest s' = rt_scheduler_lock_nest s"
    "channels_ok s'"
    using e kframeD [OF kf] sys_invD(7) [OF inv] by (simp_all add: set_timer_flag_def channels_ok_def)
  moreover have "objects s' b = objects s b" if "\<And>x. b \<noteq> ObjTimer x" for b
    using e that [of x] s2(3) by (simp add: set_timer_flag_def timer_remove_def)
  ultimately have "sys_inv idle s'" using sys_inv_step [OF inv s'(2)] by blast
  then show ?thesis using s' by blast
qed

lemma sys_timer_check:
  assumes "sys_inv idle s" "quiet call" "timers_ok b s" "thread_timers s"
  shows "\<exists>s'. rt_timer_check call s = Some s' \<and> sys_inv idle s'"
  using assms
proof (induction "rt_timer_list s" arbitrary: s)
  case Nil
  then show ?case by (subst rt_timer_check.simps) (auto split: list.split)
next
  case (Cons x l)
  note l = Cons.hyps(2) [symmetric]
  show ?case
  proof (cases "due x s")
    case False
    then show ?thesis using Cons.prems(1) l by (subst rt_timer_check.simps) simp
  next
    case True
    obtain s' where s': "timer_expire call x s = Some s'" "sys_inv idle s'" "timers_ok b s'" "rt_timer_list s' = l"
      using sys_timer_expire [OF Cons.prems l True] by blast
    have "thread_timers s'" using Cons.prems(4) l s'(4) by (simp add: thread_timers_def)
    from Cons.hyps(1) [OF s'(4) [symmetric] s'(2) Cons.prems(2) s'(3) this]
    show ?thesis using True l s'(1) by (subst rt_timer_check.simps) simp
  qed
qed

lemma sys_tick:
  assumes "sys_inv idle s" "quiet call" "may_call idle Tick s"
  shows "\<exists>s'. kcall_exec call Tick s = Some s' \<and> sys_inv idle s'"
proof -
  obtain b where b: "thread_timers s" "timers_ok b (s\<lparr>rt_tick := rt_tick s + 1\<rparr>)"
    using assms(3) by (auto simp: may_call_def)
  have run: "running s" using sys_current [OF assms(1)] by (metis running_def)
  obtain s1 where s1: "tick_step s = Some s1" "kinv s1" "rt_tick s1 = rt_tick s + 1" "rt_timer_list s1 = rt_timer_list s"
    "timers s1 = timers s" using tick_step_spec [OF sys_invD(1) [OF assms(1)] run] by blast
  have i1: "sys_inv idle s1" by (rule sys_tick_step [OF assms(1) s1(1)])
  have tt: "thread_timers s1" "thread_timers (s\<lparr>rt_tick := rt_tick s + 1\<rparr>)" using b(1) s1(4) by (simp_all add: thread_timers_def)
  have k: "kinv (s\<lparr>rt_tick := rt_tick s + 1\<rparr>)" using sys_invD(1) [OF assms(1)] by simp
  have "timers_ok b s1"
    using b(2) unfolding thread_timers_ok [OF s1(2) tt(1)] thread_timers_ok [OF k tt(2)] by (simp add: s1(3-5))
  from sys_timer_check [OF i1 assms(2) this tt(1)] show ?thesis using s1(1) by (simp add: rt_tick_increase_eq)
qed


lemma sys_call:
  assumes "sys_inv idle s" "quiet call" "may_call idle k s"
  shows "\<exists>s'. kcall_exec call k s = Some s' \<and> sys_inv idle s'"
proof (cases k)
  case (SemTake a time)
  then show ?thesis using sys_sem_take [OF assms(1), of a time call] assms(3) by blast
next
  case (SemRelease a)
  then show ?thesis using sys_sem_release [OF assms(1), of call a] by blast
next
  case (EventRecv a want option time)
  then show ?thesis using sys_event_recv [OF assms(1), of a want option time call] assms(3) by blast
next
  case (EventSend a bits)
  then show ?thesis using sys_event_send [OF assms(1), of bits call a] assms(3) by (simp add: may_call_def)
next
  case (MbSend a v timeout)
  then show ?thesis using sys_mb_calls(1) [OF assms(1), of a v timeout call] assms(3) by blast
next
  case (MbRecv a timeout)
  then show ?thesis using sys_mb_calls(2) [OF assms(1), of a timeout call] assms(3) by blast
next
  case (MqSend a buffer sz)
  then show ?thesis using sys_mq_sends(1) [OF assms(1), of a buffer sz call] assms(3) by blast
next
  case (MqUrgent a buffer sz)
  then show ?thesis using sys_mq_sends(2) [OF assms(1), of a buffer sz call] assms(3) by blast
next
  case (MqRecv a sz timeout)
  then show ?thesis using sys_mb_calls(3) [OF assms(1), of a sz timeout call] assms(3) by blast
next
  case Yield
  then show ?thesis using sys_yield [OF assms(1), of call] by blast
next
  case (Sleep tick)
  then show ?thesis using sys_sleep [OF assms(1), of tick call] assms(3) by blast
next
  case Continue
  then show ?thesis using sys_continue [OF assms(1), of call] assms(3) by blast
next
  case Tick
  then show ?thesis using sys_tick [OF assms(1,2)] assms(3) by blast
qed

subsection \<open>Reachable states\<close>

text \<open>Threads call and are switched, and ticks come, in any order.\<close>

inductive reachable :: "callbacks \<Rightarrow> nat \<Rightarrow> kstate \<Rightarrow> kstate \<Rightarrow> bool" for call idle s0 where
  start: "reachable call idle s0 s0"
| step: "reachable call idle s0 s \<Longrightarrow> may_call idle k s \<Longrightarrow> kcall_exec call k s = Some s' \<Longrightarrow>
    reachable call idle s0 s'"

lemma reachable_inv:
  assumes "reachable call idle s0 s" "sys_inv idle s0" "quiet call"
  shows "sys_inv idle s"
  using assms(1)
proof (induction rule: reachable.induct)
  case start
  show ?case by (rule assms(2))
next
  case (step s k s')
  then show ?case using sys_call [OF step.IH assms(3) step.hyps(2)] by simp
qed

lemma demo_sys_inv: "sys_inv 10 demo"
proof -
  have "highest_ready demo 3" by (auto simp: highest_ready_def demo_def)
  then show ?thesis
    using demo_kinv by (simp add: sys_inv_def runs_highest_def flags_ok_def channels_ok_def mb_wf_def)
qed

text \<open>A first run: the running thread waits for a mail, and the idle thread runs.\<close>

lemma demo_first_step:
  "\<exists>s'. kcall_exec (\<lambda>f x s. Some s) (MbRecv 60 5) demo = Some s' \<and> reachable (\<lambda>f x s. Some s) 10 demo s'"
proof -
  have m: "may_call 10 (MbRecv 60 5) demo" by (simp add: may_call_def wait_time_def)
  obtain s' where "kcall_exec (\<lambda>f x s. Some s) (MbRecv 60 5) demo = Some s'"
    using sys_call [OF demo_sys_inv quiet_skip m] by blast
  then show ?thesis using reachable.step [OF reachable.start m] by blast
qed

subsection \<open>Properties\<close>

text \<open>
  Property C1.
  Strict priorities, in every reachable state: however threads that use semaphores, events,
  mailboxes, message queues, sleeps and yields interleave with the ticks, the running thread is
  ready and first of the most urgent ready threads, and the invariants of the scheduler, the
  timers, the rings and the message slots hold.
\<close>

theorem reachable_runs_highest:
  assumes "reachable call idle s0 s" "sys_inv idle s0" "quiet call"
  shows "sys_inv idle s \<and> (\<exists>c. rt_current_thread s = Some c \<and> stat s c = RT_THREAD_READY \<and>
    (\<forall>u. stat s u = RT_THREAD_READY \<longrightarrow> unat (prio s c) \<le> unat (prio s u)))"
proof -
  have i: "sys_inv idle s" by (rule reachable_inv [OF assms])
  then show ?thesis using sys_invD(5) [OF i] by (auto simp: runs_highest_def highest_ready_def)
qed

theorem reachable_runs_highest_witness:
  "\<exists>s. kcall_exec (\<lambda>f x s. Some s) (MbRecv 60 5) demo = Some s \<and>
    sys_inv 10 s \<and> (\<exists>c. rt_current_thread s = Some c \<and> stat s c = RT_THREAD_READY \<and>
    (\<forall>u. stat s u = RT_THREAD_READY \<longrightarrow> unat (prio s c) \<le> unat (prio s u)))"
  using demo_first_step reachable_runs_highest [OF _ demo_sys_inv quiet_skip] by blast

text \<open>
  Property C2.
  No call gets stuck: in every reachable state each call a program may make returns, or switches
  to another thread; no assertion of the kernel fails, no empty list is read, and every loop ends.
\<close>

theorem reachable_calls_return:
  assumes "reachable call idle s0 s" "sys_inv idle s0" "quiet call" "may_call idle k s"
  shows "\<exists>s'. kcall_exec call k s = Some s'"
  using sys_call [OF reachable_inv [OF assms(1-3)] assms(3,4)] by blast

theorem reachable_calls_return_witness:
  "\<exists>s'. kcall_exec (\<lambda>f x s. Some s) (SemTake 40 7) demo = Some s'"
proof (rule reachable_calls_return [OF reachable.start demo_sys_inv quiet_skip])
  show "may_call 10 (SemTake 40 7) demo" by (simp add: may_call_def wait_time_def)
qed

end
