(* ===== verification/AppEvent.thy ===== *)
theory AppEvent
  imports RtMailbox RtHeap
begin

text \<open>
  \<^verbatim>\<open>bsp/easyio_core/app_ev.c\<close>: the events of the application and its main loop, on the mailboxes
  and the heap of the kernel. An event is a structure in memory, one of the ten of the static
  array or a block of the heap, and its address travels through the mailbox.
\<close>

subsection \<open>State\<close>

record app_event =
  enable :: u8
  ev_type :: u8
  simple_data :: "nat \<Rightarrow> u32"

record app_state =
  ev_kernel :: kstate
  ev_heap :: heap_state
  ev_at :: "nat \<Rightarrow> app_event"
  app_event_base :: nat
  mainloop_mb :: nat

abbreviation APP_EVENT_BUFFER :: nat where "APP_EVENT_BUFFER \<equiv> 10"
abbreviation SIZEOF_APP_EVENT :: nat where "SIZEOF_APP_EVENT \<equiv> 36"
abbreviation APP_EV_DEFAULT_TYPE :: u8 where "APP_EV_DEFAULT_TYPE \<equiv> 0"
abbreviation APP_EV_HW_INT_TYPE :: u8 where "APP_EV_HW_INT_TYPE \<equiv> 1"
abbreviation RT_WAITING_FOREVER :: u32 where "RT_WAITING_FOREVER \<equiv> 0xffffffff"

text \<open>\<^verbatim>\<open>&app_event[i]\<close>\<close>

definition event_slot :: "nat \<Rightarrow> app_state \<Rightarrow> nat" where
  "event_slot i s = app_event_base s + SIZEOF_APP_EVENT * i"

definition event_put :: "nat \<Rightarrow> (app_event \<Rightarrow> app_event) \<Rightarrow> app_state \<Rightarrow> app_state" where
  "event_put p f s = s\<lparr>ev_at := (ev_at s)(p := f (ev_at s p))\<rparr>"

subsection \<open>The static events\<close>

definition init_app_event :: "app_state \<Rightarrow> app_state" where
  "init_app_event s = fold (\<lambda>i. event_put (event_slot i s) (enable_update (\<lambda>_. 0))) [0..<APP_EVENT_BUFFER] s"

fun alloc_event_loop :: "nat list \<Rightarrow> app_state \<Rightarrow> nat option \<times> app_state" where
  "alloc_event_loop [] s = (None, s)"
| "alloc_event_loop (i # is) s =
     (if enable (ev_at s (event_slot i s)) = 0
      then (Some (event_slot i s), event_put (event_slot i s) (enable_update (\<lambda>_. 1)) s)
      else alloc_event_loop is s)"

definition alloc_app_event :: "app_state \<Rightarrow> nat option \<times> app_state" where
  "alloc_app_event s = alloc_event_loop [0..<APP_EVENT_BUFFER] s"

definition destory_app_event :: "nat \<Rightarrow> app_state \<Rightarrow> app_state" where
  "destory_app_event ev s = event_put ev (enable_update (\<lambda>_. 0)) s"

subsection \<open>Posting\<close>

definition fill_event :: "u8 \<Rightarrow> u32 \<Rightarrow> u32 \<Rightarrow> u32 \<Rightarrow> u32 \<Rightarrow> app_event \<Rightarrow> app_event" where
  "fill_event ty func arg func_resp arg_resp ev =
     ev\<lparr>ev_type := ty, simple_data := (simple_data ev)(0 := func, 1 := arg, 2 := func_resp, 3 := arg_resp)\<rparr>"

definition post_hw_int_event ::
  "u32 \<Rightarrow> u32 \<Rightarrow> u32 \<Rightarrow> u32 \<Rightarrow> app_state \<Rightarrow> (rt_err_t call \<times> app_state) option" where
  "post_hw_int_event func arg func_resp arg_resp s =
     (case alloc_app_event s of
        (None, s1) \<Rightarrow> Some (Returns (- RT_ERROR), s1)
      | (Some ev, s1) \<Rightarrow>
          (let s2 = event_put ev (fill_event APP_EV_HW_INT_TYPE func arg func_resp arg_resp) s1 in
           case rt_mb_send (mainloop_mb s2) (of_nat ev) (ev_kernel s2) of
             None \<Rightarrow> None
           | Some (Waits, k) \<Rightarrow> Some (Waits, s2\<lparr>ev_kernel := k\<rparr>)
           | Some (Returns res, k) \<Rightarrow>
               (let s3 = s2\<lparr>ev_kernel := k\<rparr> in
                Some (Returns res, if res \<noteq> RT_EOK then destory_app_event ev s3 else s3))))"

text \<open>What follows \<^verbatim>\<open>rt_mb_send_wait\<close> in the two functions below: an event that was not taken is
  freed again.\<close>

definition post_default_sent :: "nat \<Rightarrow> rt_err_t \<Rightarrow> app_state \<Rightarrow> (rt_err_t call \<times> app_state) option" where
  "post_default_sent ev res s =
     (if res \<noteq> RT_EOK
      then map_option (\<lambda>h. (Returns res, s\<lparr>ev_heap := h\<rparr>)) (rt_free (Some ev) (ev_heap s))
      else Some (Returns res, s))"

definition post_default_event_wait ::
  "u32 \<Rightarrow> u32 \<Rightarrow> u32 \<Rightarrow> u32 \<Rightarrow> u32 \<Rightarrow> app_state \<Rightarrow> (rt_err_t call \<times> app_state) option" where
  "post_default_event_wait func arg func_resp arg_resp timeout s =
     (case rt_malloc (of_nat SIZEOF_APP_EVENT) (ev_heap s) of
        None \<Rightarrow> None
      | Some (None, h) \<Rightarrow> Some (Returns (- RT_ERROR), s\<lparr>ev_heap := h\<rparr>)
      | Some (Some ev, h) \<Rightarrow>
          (let s2 = event_put ev (fill_event APP_EV_DEFAULT_TYPE func arg func_resp arg_resp) (s\<lparr>ev_heap := h\<rparr>) in
           case rt_mb_send_wait (mainloop_mb s2) (of_nat ev) timeout (ev_kernel s2) of
             None \<Rightarrow> None
           | Some (Waits, k) \<Rightarrow> Some (Waits, s2\<lparr>ev_kernel := k\<rparr>)
           | Some (Returns res, k) \<Rightarrow> post_default_sent ev res (s2\<lparr>ev_kernel := k\<rparr>)))"

definition post_default_event ::
  "u32 \<Rightarrow> u32 \<Rightarrow> u32 \<Rightarrow> u32 \<Rightarrow> app_state \<Rightarrow> (rt_err_t call \<times> app_state) option" where
  "post_default_event func arg func_resp arg_resp s =
     (case rt_malloc (of_nat SIZEOF_APP_EVENT) (ev_heap s) of
        None \<Rightarrow> None
      | Some (None, h) \<Rightarrow> Some (Returns (- RT_ERROR), s\<lparr>ev_heap := h\<rparr>)
      | Some (Some ev, h) \<Rightarrow>
          (let s2 = event_put ev (fill_event APP_EV_DEFAULT_TYPE func arg func_resp arg_resp) (s\<lparr>ev_heap := h\<rparr>) in
           case rt_mb_send (mainloop_mb s2) (of_nat ev) (ev_kernel s2) of
             None \<Rightarrow> None
           | Some (Waits, k) \<Rightarrow> Some (Waits, s2\<lparr>ev_kernel := k\<rparr>)
           | Some (Returns res, k) \<Rightarrow> post_default_sent ev res (s2\<lparr>ev_kernel := k\<rparr>)))"

subsection \<open>The main loop\<close>

text \<open>\<^verbatim>\<open>call\<close> is what a callback, code reached through its address, does to the state when it is
  called with an argument. A step also gives the calls it made.\<close>

type_synonym callback = "u32 \<Rightarrow> u32 \<Rightarrow> app_state \<Rightarrow> app_state option"

definition run_callback :: "callback \<Rightarrow> u32 \<Rightarrow> u32 \<Rightarrow> app_state \<Rightarrow> app_state option" where
  "run_callback call func arg s = (if 0 < func then call func arg s else Some s)"

definition called :: "u32 \<Rightarrow> u32 \<Rightarrow> (u32 \<times> u32) list" where
  "called func arg = (if 0 < func then [(func, arg)] else [])"

definition dispatch_event :: "callback \<Rightarrow> nat \<Rightarrow> app_state \<Rightarrow> ((u32 \<times> u32) list \<times> app_state) option" where
  "dispatch_event call ev s =
     (let cb = simple_data (ev_at s ev) 0; cb_reply = simple_data (ev_at s ev) 2; ty = ev_type (ev_at s ev) in
      if 0 < ev \<and> (ty = APP_EV_DEFAULT_TYPE \<or> ty = APP_EV_HW_INT_TYPE) then
        do { s1 \<leftarrow> run_callback call cb (simple_data (ev_at s ev) 1) s;
             s2 \<leftarrow> run_callback call cb_reply (simple_data (ev_at s1 ev) 3) s1;
             s3 \<leftarrow> (if ty = APP_EV_DEFAULT_TYPE
                   then map_option (\<lambda>h. s2\<lparr>ev_heap := h\<rparr>) (rt_free (Some ev) (ev_heap s2))
                   else Some (destory_app_event ev s2));
             Some (called cb (simple_data (ev_at s ev) 1) @ called cb_reply (simple_data (ev_at s1 ev) 3), s3) }
      else Some ([], s))"

text \<open>One turn of the loop of \<^verbatim>\<open>appev_thread_entry\<close>; \<open>Waits\<close> when there is no mail.\<close>

definition appev_turn :: "callback \<Rightarrow> app_state \<Rightarrow> ((u32 \<times> u32) list call \<times> app_state) option" where
  "appev_turn call s =
     (case rt_mb_recv (mainloop_mb s) RT_WAITING_FOREVER (ev_kernel s) of
        None \<Rightarrow> None
      | Some (Waits, k) \<Rightarrow> Some (Waits, s\<lparr>ev_kernel := k\<rparr>)
      | Some (Returns (res, v), k) \<Rightarrow>
          (let s1 = s\<lparr>ev_kernel := k\<rparr> in
           case v of
             Some tmp \<Rightarrow>
               if res = RT_EOK then map_option (\<lambda>(cs, s2). (Returns cs, s2)) (dispatch_event call (unat tmp) s1)
               else Some (Returns [], s1)
           | None \<Rightarrow> Some (Returns [], s1)))"

text \<open>The start of \<^verbatim>\<open>appev_thread_entry\<close> up to its timers; \<open>pool\<close> is the address of
  \<^verbatim>\<open>mainloop_mb_pool\<close>, 128 bytes.\<close>

definition appev_start :: "u8 list \<Rightarrow> nat \<Rightarrow> app_state \<Rightarrow> (rt_err_t \<times> app_state) option" where
  "appev_start name pool s =
     map_option (\<lambda>(res, k). (res, if res \<noteq> RT_EOK then s\<lparr>ev_kernel := k\<rparr> else init_app_event (s\<lparr>ev_kernel := k\<rparr>)))
       (rt_mb_init (mainloop_mb s) name pool (128 div 4) RT_IPC_FLAG_FIFO (ev_kernel s))"

subsection \<open>The heap stays where it is\<close>

lemma heap_ptr_frame [simp]:
  "heap_ptr (mem_at p f h) = heap_ptr h" "heap_ptr (count_used n h) = heap_ptr h"
  "heap_ptr (malloc_split p sz h) = heap_ptr h" "heap_ptr (plug_forward p h) = heap_ptr h"
  "heap_ptr (plug_backward p h) = heap_ptr h"
proof -
  show m: "heap_ptr (mem_at p f h) = heap_ptr h" for p f h by (simp add: mem_at_def)
  show c: "heap_ptr (count_used n h) = heap_ptr h" for n h by (simp add: count_used_def Let_def)
  show "heap_ptr (malloc_split p sz h) = heap_ptr h"
    by (simp only: malloc_split_def Let_def c m if_distrib [of heap_ptr] if_cancel)
  show "heap_ptr (plug_forward p h) = heap_ptr h"
    by (simp add: plug_forward_def Let_def m)
  show "heap_ptr (plug_backward p h) = heap_ptr h"
    by (simp add: plug_backward_def Let_def m)
qed

lemma malloc_take_heap_ptr: "malloc_take p sz h = Some (r, h') \<Longrightarrow> heap_ptr h' = heap_ptr h"
proof -
  assume a: "malloc_take p sz h = Some (r, h')"
  define h1 where "h1 = mem_at p (hm_magic_update (\<lambda>_. HEAP_MAGIC)) (malloc_split p sz h)"
  have "heap_ptr h1 = heap_ptr h" by (simp add: h1_def)
  moreover have "heap_ptr h' = heap_ptr h1"
    using a unfolding malloc_take_def Let_def h1_def [symmetric] by (auto split: if_splits)
  ultimately show ?thesis by simp
qed

lemma rt_malloc_heap_ptr: "rt_malloc sz h = Some (r, h') \<Longrightarrow> heap_ptr h' = heap_ptr h"
  unfolding rt_malloc_def Let_def
  by (cases "sz = 0") (auto dest: malloc_take_heap_ptr split: if_splits option.splits)

lemma plug_holes_heap_ptr: "plug_holes p h = Some h' \<Longrightarrow> heap_ptr h' = heap_ptr h"
  by (auto simp: plug_holes_def Let_def split: if_splits)

lemma rt_free_heap_ptr: "rt_free (Some a) h = Some h' \<Longrightarrow> heap_ptr h' = heap_ptr h"
  unfolding rt_free_def Let_def
  by (auto dest!: plug_holes_heap_ptr split: if_splits)

lemma heap_rel_above: "heap_rel h L \<Longrightarrow> (a, n) \<in> L \<Longrightarrow> heap_ptr h < a \<and> a < 2 ^ 32"
  by (fastforce simp: heap_rel_def live_def heap_wf_def)

subsection \<open>Sending and receiving\<close>

definition mb_has_room :: "nat \<Rightarrow> kstate \<Rightarrow> bool" where
  "mb_has_room a k \<longleftrightarrow> length (mb_items (mailboxes k a)) < unat (mb_size (mailboxes k a))"

lemma rt_mb_send_law:
  assumes "mb_inv a k"
  shows "\<exists>e k'. rt_mb_send a v k = Some (Returns e, k') \<and> (e = RT_EOK \<longleftrightarrow> mb_has_room a k) \<and> mb_inv a k' \<and>
    mb_size (mailboxes k' a) = mb_size (mailboxes k a) \<and>
    mb_items (mailboxes k' a) = (if mb_has_room a k then mb_items (mailboxes k a) @ [v] else mb_items (mailboxes k a))"
proof -
  obtain k' where k': "mb_try_send a v k = Some (mb_has_room a k, k')" "mb_inv a k'"
    "mb_size (mailboxes k' a) = mb_size (mailboxes k a)"
    "mb_items (mailboxes k' a) = (if mb_has_room a k then mb_items (mailboxes k a) @ [v] else mb_items (mailboxes k a))"
    using mb_try_send_law [OF assms, of v] unfolding mb_has_room_def by auto
  from k'(1) obtain e where "rt_mb_send a v k = Some (Returns e, k')" "e = RT_EOK \<longleftrightarrow> mb_has_room a k"
    by (auto simp: mb_try_send_def split: option.splits prod.splits call.splits)
  then show ?thesis using k'(2-4) by blast
qed

lemma rt_mb_recv_law:
  assumes "mb_inv a k" "mb_items (mailboxes k a) = v # vs"
  shows "\<exists>k'. rt_mb_recv a timeout k = Some (Returns (RT_EOK, Some v), k') \<and> mb_inv a k' \<and>
    mb_size (mailboxes k' a) = mb_size (mailboxes k a) \<and> mb_items (mailboxes k' a) = vs"
proof -
  obtain c where c: "rt_current_thread k = Some c" and i: "kinv k" "mb_wf (mailboxes k a)"
    using assms(1) by (auto simp: mb_inv_def)
  have ne: "mb_entry (mailboxes k a) \<noteq> 0"
    using assms(2) by (auto simp: mb_items_def)
  obtain k' where b: "mb_recv_loop a timeout 0 k = Some (Returns (RT_EOK, Some (fst (mb_get (mailboxes k a)))), k')" "kinv k'"
    "mailboxes k' = (mailboxes k)(a := snd (mb_get (mailboxes k a)))"
    "case tlists k (MbSendQ a) of [] \<Rightarrow> k' = mb_at a (\<lambda>m. snd (mb_get m)) k
      | u # us \<Rightarrow> woken (MbSendQ a) u (mb_at a (\<lambda>m. snd (mb_get m)) k) k'"
    using mb_recv_loop_some [OF i(1) c ne] by blast
  have "rt_current_thread k' \<noteq> None"
    using b(4) c woken_current by (fastforce split: list.splits)
  then show ?thesis using b(1-3) ne mb_get_spec [OF i(2) ne] assms(2)
    by (simp add: rt_mb_recv_def mb_inv_def)
qed

subsection \<open>The invariant\<close>

definition queued :: "app_state \<Rightarrow> nat list" where
  "queued s = map unat (mb_items (mailboxes (ev_kernel s) (mainloop_mb s)))"

definition event_data :: "app_event \<Rightarrow> u32 \<times> u32 \<times> u32 \<times> u32" where
  "event_data ev = (simple_data ev 0, simple_data ev 1, simple_data ev 2, simple_data ev 3)"

text \<open>The events posted and not yet taken by the main loop.\<close>

definition pending :: "app_state \<Rightarrow> (u32 \<times> u32 \<times> u32 \<times> u32) list" where
  "pending s = map (\<lambda>p. event_data (ev_at s p)) (queued s)"

definition event_ok :: "(nat \<times> nat) set \<Rightarrow> app_state \<Rightarrow> nat \<Rightarrow> bool" where
  "event_ok L s p \<longleftrightarrow>
     (\<exists>i < APP_EVENT_BUFFER. p = event_slot i s) \<and> ev_type (ev_at s p) = APP_EV_HW_INT_TYPE \<or>
     (\<exists>n. (p, n) \<in> L) \<and> ev_type (ev_at s p) = APP_EV_DEFAULT_TYPE"

text \<open>\<open>H\<close>: the events taken out of the mailbox and still in work; \<open>L\<close>: the blocks of the heap.\<close>

definition app_inv :: "nat list \<Rightarrow> (nat \<times> nat) set \<Rightarrow> app_state \<Rightarrow> bool" where
  "app_inv H L s \<longleftrightarrow>
     mb_inv (mainloop_mb s) (ev_kernel s) \<and> heap_rel (ev_heap s) L \<and> 0 < app_event_base s \<and>
     app_event_base s + SIZEOF_APP_EVENT * APP_EVENT_BUFFER \<le> heap_ptr (ev_heap s) \<and>
     distinct (queued s @ H) \<and> (\<forall>p \<in> set (queued s @ H). event_ok L s p) \<and>
     (\<forall>i < APP_EVENT_BUFFER. enable (ev_at s (event_slot i s)) = (if event_slot i s \<in> set (queued s @ H) then 1 else 0))"

definition same_place :: "app_state \<Rightarrow> app_state \<Rightarrow> bool" where
  "same_place s s' \<longleftrightarrow> app_event_base s' = app_event_base s \<and> mainloop_mb s' = mainloop_mb s"

lemma event_put_fields [simp]:
  "ev_kernel (event_put p f s) = ev_kernel s" "ev_heap (event_put p f s) = ev_heap s"
  "app_event_base (event_put p f s) = app_event_base s" "mainloop_mb (event_put p f s) = mainloop_mb s"
  "event_slot i (event_put p f s) = event_slot i s" "queued (event_put p f s) = queued s"
  "ev_at (event_put p f s) = (ev_at s)(p := f (ev_at s p))"
  by (simp_all add: event_put_def event_slot_def queued_def)

lemma event_slot_fields [simp]:
  "event_slot i (s\<lparr>ev_kernel := k\<rparr>) = event_slot i s" "event_slot i (s\<lparr>ev_heap := h\<rparr>) = event_slot i s"
  "queued (s\<lparr>ev_heap := h\<rparr>) = queued s"
  by (simp_all add: event_slot_def queued_def)

lemma event_slot_inj: "event_slot i s = event_slot j s \<Longrightarrow> i = j"
  by (simp add: event_slot_def)

lemma event_ok_cong:
  "ev_at s' p = ev_at s p \<Longrightarrow> app_event_base s' = app_event_base s \<Longrightarrow> event_ok L s' p = event_ok L s p"
  by (simp add: event_ok_def event_slot_def)

lemma app_invD:
  assumes "app_inv H L s"
  shows "mb_inv (mainloop_mb s) (ev_kernel s)" "heap_rel (ev_heap s) L" "distinct (queued s @ H)"
    "\<And>p. p \<in> set (queued s @ H) \<Longrightarrow> event_ok L s p"
    "\<And>i. i < APP_EVENT_BUFFER \<Longrightarrow> enable (ev_at s (event_slot i s)) = (if event_slot i s \<in> set (queued s @ H) then 1 else 0)"
    "\<And>i. i < APP_EVENT_BUFFER \<Longrightarrow> 0 < event_slot i s \<and> event_slot i s < heap_ptr (ev_heap s)"
  using assms by (auto simp: app_inv_def event_slot_def)

lemma slot_word:
  assumes "app_inv H L s" "i < APP_EVENT_BUFFER"
  shows "unat (of_nat (event_slot i s) :: u32) = event_slot i s"
proof -
  have "heap_ptr (ev_heap s) < 2 ^ 32"
    using app_invD(2) [OF assms(1)] by (auto simp: heap_rel_def heap_wf_def)
  then have "event_slot i s < 2 ^ 32" using app_invD(6) [OF assms] by simp
  then show ?thesis by (simp add: unsigned_of_nat take_bit_nat_eq_self)
qed

lemma alloc_loop_cases:
  "(\<forall>i \<in> set is. enable (ev_at s (event_slot i s)) \<noteq> 0) \<and> alloc_event_loop is s = (None, s) \<or>
   (\<exists>i \<in> set is. enable (ev_at s (event_slot i s)) = 0 \<and>
      alloc_event_loop is s = (Some (event_slot i s), event_put (event_slot i s) (enable_update (\<lambda>_. 1)) s))"
  by (induction "is") auto

definition slot_free :: "app_state \<Rightarrow> bool" where
  "slot_free s \<longleftrightarrow> (\<exists>i < APP_EVENT_BUFFER. enable (ev_at s (event_slot i s)) = 0)"

lemma alloc_app_event_cases:
  obtains (none) "\<not> slot_free s" "alloc_app_event s = (None, s)"
  | (some) i where "slot_free s" "i < APP_EVENT_BUFFER" "enable (ev_at s (event_slot i s)) = 0"
      "alloc_app_event s = (Some (event_slot i s), event_put (event_slot i s) (enable_update (\<lambda>_. 1)) s)"
  using alloc_loop_cases [of "[0..<APP_EVENT_BUFFER]" s]
  unfolding alloc_app_event_def [symmetric] slot_free_def by (auto simp: atLeast0LessThan)

subsection \<open>What a post does\<close>

text \<open>The event at \<open>p\<close>, in use by nobody, goes into the mailbox.\<close>

lemma app_inv_enqueue:
  assumes "app_inv H L s" "p \<notin> set (queued s @ H)"
    and "mb_inv (mainloop_mb s) k" "mb_items (mailboxes k (mainloop_mb s)) = mb_items (mailboxes (ev_kernel s) (mainloop_mb s)) @ [v]"
    and "unat v = p" "heap_rel h L'" "heap_ptr h = heap_ptr (ev_heap s)" "L \<subseteq> L'"
    and "event_ok L' s' p" "(\<exists>i < APP_EVENT_BUFFER. p = event_slot i s) \<longrightarrow> enable ev = 1"
    and "s' = s\<lparr>ev_kernel := k, ev_heap := h, ev_at := (ev_at s)(p := ev)\<rparr>"
  shows "app_inv H L' s'" "pending s' = pending s @ [event_data ev]"
proof -
  have q: "queued s' = queued s @ [p]" using assms(4,5,11) by (simp add: queued_def)
  have sl: "event_slot i s' = event_slot i s" for i using assms(11) by (simp add: event_slot_def)
  have ok: "event_ok L' s' r" if "r \<in> set (queued s @ H)" for r
  proof -
    have "r \<noteq> p" using that assms(2) by auto
    then have "event_ok L s' r" using app_invD(4) [OF assms(1) that] event_ok_cong [of s' r s L] assms(11) by simp
    then show ?thesis using assms(8) by (auto simp: event_ok_def)
  qed
  have "enable (ev_at s' (event_slot i s)) = (if event_slot i s \<in> set (queued s' @ H) then 1 else 0)"
    if "i < APP_EVENT_BUFFER" for i
    using app_invD(5) [OF assms(1) that] assms(10,11) q that by auto
  then show "app_inv H L' s'"
    using assms(1,2,3,6,7,9) ok q sl assms(11) unfolding app_inv_def by auto
  have "map (\<lambda>r. event_data (ev_at s' r)) (queued s) = map (\<lambda>r. event_data (ev_at s r)) (queued s)"
    using assms(2,11) by auto
  then show "pending s' = pending s @ [event_data ev]"
    using q assms(11) by (simp add: pending_def)
qed

text \<open>An event in use by nobody may hold anything.\<close>

lemma app_inv_unused:
  assumes "app_inv H L s" "p \<notin> set (queued s @ H)" "mb_inv (mainloop_mb s) k"
    and "mb_items (mailboxes k (mainloop_mb s)) = mb_items (mailboxes (ev_kernel s) (mainloop_mb s))"
    and "heap_rel h L" "heap_ptr h = heap_ptr (ev_heap s)"
    and "(\<exists>i < APP_EVENT_BUFFER. p = event_slot i s) \<longrightarrow> enable ev = 0"
    and "s' = s\<lparr>ev_kernel := k, ev_heap := h, ev_at := (ev_at s)(p := ev)\<rparr>"
  shows "app_inv H L s'" "pending s' = pending s"
proof -
  have q: "queued s' = queued s" using assms(4,8) by (simp add: queued_def)
  have sl: "event_slot i s' = event_slot i s" for i using assms(8) by (simp add: event_slot_def)
  have ok: "event_ok L s' r" if "r \<in> set (queued s @ H)" for r
  proof -
    have "r \<noteq> p" using that assms(2) by auto
    then show ?thesis using app_invD(4) [OF assms(1) that] event_ok_cong [of s' r s L] assms(8) by simp
  qed
  have "enable (ev_at s' (event_slot i s)) = (if event_slot i s \<in> set (queued s' @ H) then 1 else 0)"
    if "i < APP_EVENT_BUFFER" for i
    using app_invD(5) [OF assms(1) that] assms(2,7,8) q that by auto
  then show "app_inv H L s'"
    using assms(1,3,5,6) ok q sl assms(8) unfolding app_inv_def by auto
  show "pending s' = pending s"
    using q assms(2,8) by (auto simp: pending_def)
qed

lemma app_state_order:
  "s\<lparr>ev_heap := h, ev_at := e, ev_kernel := k\<rparr> = s\<lparr>ev_kernel := k, ev_heap := h, ev_at := e\<rparr>"
  by (cases s) simp

lemma post_hw_law:
  assumes "app_inv H L s"
  shows "\<exists>r s'. post_hw_int_event f a fr ar s = Some (Returns r, s') \<and> app_inv H L s' \<and> same_place s s' \<and>
     (r = RT_EOK \<longleftrightarrow> slot_free s \<and> mb_has_room (mainloop_mb s) (ev_kernel s)) \<and>
     pending s' = (if r = RT_EOK then pending s @ [(f, a, fr, ar)] else pending s) \<and>
     (\<forall>v \<in> set H. ev_at s' v = ev_at s v) \<and> ev_heap s' = ev_heap s \<and>
     mb_size (mailboxes (ev_kernel s') (mainloop_mb s)) = mb_size (mailboxes (ev_kernel s) (mainloop_mb s)) \<and>
     (queued s' = queued s \<or> (\<exists>i < APP_EVENT_BUFFER. queued s' = queued s @ [event_slot i s]))"
proof (cases rule: alloc_app_event_cases [of s])
  case none
  then show ?thesis using assms by (simp add: post_hw_int_event_def same_place_def)
next
  case (some i)
  let ?p = "event_slot i s"
  let ?ev = "fill_event APP_EV_HW_INT_TYPE f a fr ar (enable_update (\<lambda>_. 1) (ev_at s ?p))"
  let ?k = "ev_kernel s" and ?mb = "mainloop_mb s"
  have new: "?p \<notin> set (queued s @ H)" using app_invD(5) [OF assms some(2)] some(3) by (auto split: if_splits)
  then have keep: "v \<noteq> ?p" if "v \<in> set H" for v using that by auto
  obtain e k' where k': "rt_mb_send ?mb (of_nat ?p) ?k = Some (Returns e, k')" "e = RT_EOK \<longleftrightarrow> mb_has_room ?mb ?k"
    "mb_inv ?mb k'" "mb_size (mailboxes k' ?mb) = mb_size (mailboxes ?k ?mb)"
    "mb_items (mailboxes k' ?mb) = (if mb_has_room ?mb ?k then mb_items (mailboxes ?k ?mb) @ [of_nat ?p] else mb_items (mailboxes ?k ?mb))"
    using rt_mb_send_law [OF app_invD(1) [OF assms]] by blast
  have run: "post_hw_int_event f a fr ar s = Some (Returns e,
      if e = RT_EOK then s\<lparr>ev_kernel := k', ev_at := (ev_at s)(?p := ?ev)\<rparr>
      else s\<lparr>ev_kernel := k', ev_at := (ev_at s)(?p := enable_update (\<lambda>_. 0) ?ev)\<rparr>)"
    using some(4) k'(1) by (simp add: post_hw_int_event_def event_put_def destory_app_event_def fill_event_def)
  show ?thesis
  proof (cases "e = RT_EOK")
    case True
    let ?s = "s\<lparr>ev_kernel := k', ev_heap := ev_heap s, ev_at := (ev_at s)(?p := ?ev)\<rparr>"
    have "event_ok L ?s ?p" using some(2) by (auto simp: event_ok_def event_slot_def fill_event_def)
    then have "app_inv H L ?s" "pending ?s = pending s @ [event_data ?ev]"
      using app_inv_enqueue [OF assms new k'(3) _ slot_word [OF assms some(2)] app_invD(2) [OF assms] refl subset_refl _ _ refl,
          of ?ev] True k'(2,5) some(2) by (simp_all add: fill_event_def)
    moreover have "event_data ?ev = (f, a, fr, ar)" by (simp add: event_data_def fill_event_def)
    moreover have "?s = s\<lparr>ev_kernel := k', ev_at := (ev_at s)(?p := ?ev)\<rparr>" by simp
    moreover have "queued ?s = queued s @ [?p]"
      using True k'(2,5) slot_word [OF assms some(2)] by (simp add: queued_def)
    ultimately show ?thesis using run True k' some(1,2) keep by (auto simp: same_place_def)
  next
    case False
    let ?ev0 = "enable_update (\<lambda>_. 0) ?ev"
    let ?s = "s\<lparr>ev_kernel := k', ev_heap := ev_heap s, ev_at := (ev_at s)(?p := ?ev0)\<rparr>"
    have "app_inv H L ?s" "pending ?s = pending s"
      using app_inv_unused [OF assms new k'(3) _ app_invD(2) [OF assms] refl _ refl, of ?ev0] False k'(2,5)
      by simp_all
    moreover have "?s = s\<lparr>ev_kernel := k', ev_at := (ev_at s)(?p := ?ev0)\<rparr>" by simp
    moreover have "queued ?s = queued s" using False k'(2,5) by (simp add: queued_def)
    ultimately show ?thesis using run False k' some(1,2) keep by (simp add: same_place_def)
  qed
qed

lemma post_default_law:
  assumes "app_inv H L s"
  shows "\<exists>r s' L'. post_default_event f a fr ar s = Some (Returns r, s') \<and> app_inv H L' s' \<and> same_place s s' \<and>
     (r = RT_EOK \<longleftrightarrow> mb_has_room (mainloop_mb s) (ev_kernel s) \<and>
        (\<exists>p h. rt_malloc (of_nat SIZEOF_APP_EVENT) (ev_heap s) = Some (Some p, h))) \<and>
     (if r = RT_EOK then pending s' = pending s @ [(f, a, fr, ar)] \<and>
          (\<exists>p n. p \<notin> fst ` L \<and> L' = insert (p, n) L \<and> queued s' = queued s @ [p])
      else pending s' = pending s \<and> L' = L) \<and>
     (\<forall>v \<in> set H. ev_at s' v = ev_at s v) \<and>
     mb_size (mailboxes (ev_kernel s') (mainloop_mb s)) = mb_size (mailboxes (ev_kernel s) (mainloop_mb s))"
proof -
  note hr = app_invD(2) [OF assms]
  let ?k = "ev_kernel s" and ?mb = "mainloop_mb s"
  show ?thesis
  proof (rule heap_rel_malloc [OF hr, of "of_nat SIZEOF_APP_EVENT"])
    assume "rt_malloc (of_nat SIZEOF_APP_EVENT) (ev_heap s) = Some (None, ev_heap s)"
    then show ?thesis using assms by (intro exI [of _ "- RT_ERROR"] exI [of _ s] exI [of _ L])
      (simp add: post_default_event_def same_place_def)
  next
    fix p h n
    assume m: "rt_malloc (of_nat SIZEOF_APP_EVENT) (ev_heap s) = Some (Some p, h)" "heap_rel h (insert (p, n) L)"
      "p \<notin> fst ` L"
    have hp: "heap_ptr h = heap_ptr (ev_heap s)" by (rule rt_malloc_heap_ptr [OF m(1)])
    have above: "heap_ptr (ev_heap s) < p" "p < 2 ^ 32" using heap_rel_above [OF m(2), of p n] hp by simp_all
    have noslot: "p \<noteq> event_slot i s" if "i < APP_EVENT_BUFFER" for i
      using app_invD(6) [OF assms that] above(1) by auto
    have new: "p \<notin> set (queued s @ H)"
    proof
      assume "p \<in> set (queued s @ H)"
      from app_invD(4) [OF assms this] show False using noslot m(3) by (force simp: event_ok_def)
    qed
    then have keep: "v \<noteq> p" if "v \<in> set H" for v using that by auto
    let ?ev = "fill_event APP_EV_DEFAULT_TYPE f a fr ar (ev_at s p)"
    have w: "unat (of_nat p :: u32) = p" using above(2) by (simp add: unsigned_of_nat take_bit_nat_eq_self)
    obtain e k' where k': "rt_mb_send ?mb (of_nat p) ?k = Some (Returns e, k')" "e = RT_EOK \<longleftrightarrow> mb_has_room ?mb ?k"
      "mb_inv ?mb k'" "mb_size (mailboxes k' ?mb) = mb_size (mailboxes ?k ?mb)"
      "mb_items (mailboxes k' ?mb) = (if mb_has_room ?mb ?k then mb_items (mailboxes ?k ?mb) @ [of_nat p] else mb_items (mailboxes ?k ?mb))"
      using rt_mb_send_law [OF app_invD(1) [OF assms]] by blast
    let ?s = "s\<lparr>ev_kernel := k', ev_heap := h, ev_at := (ev_at s)(p := ?ev)\<rparr>"
    have run: "post_default_event f a fr ar s = post_default_sent p e ?s"
      using m(1) k'(1) by (simp add: post_default_event_def event_put_def app_state_order)
    show ?thesis
    proof (cases "e = RT_EOK")
      case True
      have "event_ok (insert (p, n) L) ?s p" by (auto simp: event_ok_def fill_event_def)
      then have "app_inv H (insert (p, n) L) ?s" "pending ?s = pending s @ [event_data ?ev]"
        using app_inv_enqueue [OF assms new k'(3) _ w m(2) hp _ _ _ refl, of ?ev] True k'(2,5) noslot by auto
      moreover have "event_data ?ev = (f, a, fr, ar)" by (simp add: event_data_def fill_event_def)
      moreover have "queued ?s = queued s @ [p]" using True k'(2,5) w by (simp add: queued_def)
      ultimately show ?thesis using run True k' m keep
        by (intro exI [of _ RT_EOK] exI [of _ ?s] exI [of _ "insert (p, n) L"])
          (auto simp: post_default_sent_def same_place_def)
    next
      case False
      obtain h' where h': "rt_free (Some p) h = Some h'" "heap_rel h' (insert (p, n) L - {(p, n)})"
        using heap_rel_free [OF m(2), of p n] by blast
      have L: "insert (p, n) L - {(p, n)} = L" using m(3) by force
      have hp': "heap_ptr h' = heap_ptr (ev_heap s)" using rt_free_heap_ptr [OF h'(1)] hp by simp
      let ?s' = "s\<lparr>ev_kernel := k', ev_heap := h', ev_at := (ev_at s)(p := ?ev)\<rparr>"
      have "app_inv H L ?s'" "pending ?s' = pending s"
        using app_inv_unused [OF assms new k'(3) _ h'(2) [unfolded L] hp' _ refl, of ?ev] False k'(2,5) noslot by auto
      then show ?thesis using run False k' m keep h'(1)
        by (intro exI [of _ e] exI [of _ ?s'] exI [of _ L]) (simp add: post_default_sent_def same_place_def)
    qed
  qed
qed

subsection \<open>What a turn of the main loop does\<close>

text \<open>A callback may do to the application what its own functions do: it keeps the invariant and
  the events in work, and may post further events.\<close>

definition well_behaved :: "callback \<Rightarrow> bool" where
  "well_behaved call \<longleftrightarrow> (\<forall>f a s H L. app_inv H L s \<longrightarrow>
     (\<exists>s' L' new. call f a s = Some s' \<and> app_inv H L' s' \<and> same_place s s' \<and> pending s' = pending s @ new \<and>
        (\<forall>v \<in> set H. ev_at s' v = ev_at s v) \<and> (\<forall>v \<in> set H. \<forall>n. (v, n) \<in> L \<longrightarrow> (v, n) \<in> L')))"

lemma run_callback_ok:
  assumes "well_behaved call" "app_inv H L s"
  shows "\<exists>s' L' new. run_callback call f a s = Some s' \<and> app_inv H L' s' \<and> same_place s s' \<and>
     pending s' = pending s @ new \<and> (\<forall>v \<in> set H. ev_at s' v = ev_at s v) \<and>
     (\<forall>v \<in> set H. \<forall>n. (v, n) \<in> L \<longrightarrow> (v, n) \<in> L')"
proof (cases "0 < f")
  case True
  then show ?thesis using assms unfolding run_callback_def well_behaved_def by simp
next
  case False
  then show ?thesis using assms(2)
    by (intro exI [of _ s] exI [of _ L] exI [of _ "[]"]) (simp add: run_callback_def same_place_def)
qed

definition calls_of :: "u32 \<times> u32 \<times> u32 \<times> u32 \<Rightarrow> (u32 \<times> u32) list" where
  "calls_of e = (case e of (f, a, fr, ar) \<Rightarrow> called f a @ called fr ar)"

lemma dispatch_law:
  assumes "well_behaved call" "app_inv (p # H) L s"
  shows "\<exists>s' L' new. dispatch_event call p s = Some (calls_of (event_data (ev_at s p)), s') \<and>
     app_inv H L' s' \<and> same_place s s' \<and> pending s' = pending s @ new \<and>
     p \<notin> fst ` L' \<and> (\<forall>i < APP_EVENT_BUFFER. p = event_slot i s \<longrightarrow> enable (ev_at s' p) = 0)"
proof -
  let ?ev = "ev_at s p"
  obtain s1 L1 n1 where s1: "run_callback call (simple_data ?ev 0) (simple_data ?ev 1) s = Some s1"
    "app_inv (p # H) L1 s1" "same_place s s1" "pending s1 = pending s @ n1" "ev_at s1 p = ?ev"
    "\<forall>n. (p, n) \<in> L \<longrightarrow> (p, n) \<in> L1"
    using run_callback_ok [OF assms, of "simple_data ?ev 0" "simple_data ?ev 1"] by auto
  obtain s2 L2 n2 where s2: "run_callback call (simple_data ?ev 2) (simple_data ?ev 3) s1 = Some s2"
    "app_inv (p # H) L2 s2" "same_place s1 s2" "pending s2 = pending s1 @ n2" "ev_at s2 p = ?ev"
    "\<forall>n. (p, n) \<in> L1 \<longrightarrow> (p, n) \<in> L2"
    using run_callback_ok [OF assms(1) s1(2), of "simple_data ?ev 2" "simple_data ?ev 3"] s1(5) by auto
  have place: "same_place s s2" using s1(3) s2(3) by (simp add: same_place_def)
  have slot: "event_slot i s2 = event_slot i s" for i using place by (simp add: event_slot_def same_place_def)
  have "p \<in> set (queued s2 @ p # H)" by simp
  note ok = app_invD(4) [OF s2(2) this]
  note hr = app_invD(2) [OF s2(2)]
  have hp: "heap_ptr (ev_heap s2) < v" if "(v, n) \<in> L2" for v n using heap_rel_above [OF hr that] by simp
  have p0: "0 < p" using ok app_invD(6) [OF s2(2)] hp by (fastforce simp: event_ok_def)
  have run: "dispatch_event call p s =
      map_option (\<lambda>s3. (calls_of (event_data ?ev), s3))
        (if ev_type ?ev = APP_EV_DEFAULT_TYPE
         then map_option (\<lambda>h. s2\<lparr>ev_heap := h\<rparr>) (rt_free (Some p) (ev_heap s2)) else Some (destory_app_event p s2))"
    using p0 ok s1(1,5) s2(1,5) by (cases "rt_free (Some p) (ev_heap s2)")
      (auto simp: dispatch_event_def event_ok_def Let_def calls_of_def event_data_def)
  have q: "p \<notin> set (queued s2 @ H)" "distinct (queued s2 @ H)"
    using app_invD(3) [OF s2(2)] by auto
  have sub: "set (queued s2 @ H) \<subseteq> set (queued s2 @ p # H)" by auto
  show ?thesis
  proof (cases "ev_type ?ev = APP_EV_DEFAULT_TYPE")
    case True
    then obtain n where n: "(p, n) \<in> L2" using ok s2(5) by (auto simp: event_ok_def)
    obtain h where h: "rt_free (Some p) (ev_heap s2) = Some h" "heap_rel h (L2 - {(p, n)})"
      using heap_rel_free [OF hr n] by blast
    let ?s = "s2\<lparr>ev_heap := h\<rparr>"
    have noslot: "p \<noteq> event_slot i s" if "i < APP_EVENT_BUFFER" for i
      using app_invD(6) [OF s2(2) that] hp [OF n] slot by (metis less_asym)
    have "event_ok (L2 - {(p, n)}) ?s r" if "r \<in> set (queued s2 @ H)" for r
    proof -
      have "event_ok L2 s2 r" using app_invD(4) [OF s2(2)] that sub by blast
      moreover have "r \<noteq> p" using that q(1) by auto
      ultimately show ?thesis by (auto simp: event_ok_def)
    qed
    moreover have "enable (ev_at s2 (event_slot i s2)) = (if event_slot i s2 \<in> set (queued s2 @ H) then 1 else 0)"
      if "i < APP_EVENT_BUFFER" for i
      using app_invD(5) [OF s2(2) that] noslot [OF that] slot by auto
    ultimately have "app_inv H (L2 - {(p, n)}) ?s"
      using s2(2) h(2) rt_free_heap_ptr [OF h(1)] q(2) unfolding app_inv_def by simp
    moreover have "p \<notin> fst ` (L2 - {(p, n)})" using heap_rel_functional [OF hr n] by force
    moreover have "pending ?s = pending s @ (n1 @ n2)" using s1(4) s2(4) by (simp add: pending_def)
    ultimately show ?thesis using run True h(1) place noslot
      by (intro exI [of _ ?s] exI [of _ "L2 - {(p, n)}"] exI [of _ "n1 @ n2"]) (auto simp: same_place_def)
  next
    case False
    then obtain i where i: "i < APP_EVENT_BUFFER" "p = event_slot i s2" using ok s2(5) by (auto simp: event_ok_def)
    let ?s = "destory_app_event p s2"
    have e: "ev_at ?s r = ev_at s2 r" if "r \<noteq> p" for r using that by (simp add: destory_app_event_def)
    have f: "ev_kernel ?s = ev_kernel s2" "ev_heap ?s = ev_heap s2" "app_event_base ?s = app_event_base s2"
      "mainloop_mb ?s = mainloop_mb s2" "queued ?s = queued s2" "event_slot j ?s = event_slot j s2" for j
      by (simp_all add: destory_app_event_def)
    have "event_ok L2 ?s r" if "r \<in> set (queued s2 @ H)" for r
    proof -
      have "event_ok L2 s2 r" using app_invD(4) [OF s2(2)] that sub by blast
      moreover have "r \<noteq> p" using that q(1) by auto
      ultimately show ?thesis using event_ok_cong [of ?s r s2 L2] e f(3) by simp
    qed
    moreover have "enable (ev_at ?s (event_slot j s2)) = (if event_slot j s2 \<in> set (queued s2 @ H) then 1 else 0)"
      if "j < APP_EVENT_BUFFER" for j
      using app_invD(5) [OF s2(2) that] q(1) i(2) by (auto simp: destory_app_event_def)
    ultimately have "app_inv H L2 ?s"
      using s2(2) q(2) f unfolding app_inv_def by simp
    moreover have "p \<notin> fst ` L2"
      using app_invD(6) [OF s2(2) i(1)] hp i(2) by (metis fst_conv imageE less_asym surj_pair)
    moreover have "pending ?s = pending s2" using q(1) by (auto simp: pending_def destory_app_event_def)
    then have "pending ?s = pending s @ (n1 @ n2)" using s1(4) s2(4) by simp
    moreover have "enable (ev_at ?s p) = 0" by (simp add: destory_app_event_def)
    ultimately show ?thesis using run False place f
      by (intro exI [of _ ?s] exI [of _ L2] exI [of _ "n1 @ n2"]) (auto simp: same_place_def)
  qed
qed

lemma app_inv_take:
  assumes "app_inv H L s" "mb_inv (mainloop_mb s) k"
    and "mb_items (mailboxes (ev_kernel s) (mainloop_mb s)) = v # mb_items (mailboxes k (mainloop_mb s))"
  shows "app_inv (unat v # H) L (s\<lparr>ev_kernel := k\<rparr>)"
    "pending s = event_data (ev_at s (unat v)) # pending (s\<lparr>ev_kernel := k\<rparr>)"
proof -
  let ?s = "s\<lparr>ev_kernel := k\<rparr>"
  have q: "queued s = unat v # queued ?s" using assms(3) by (simp add: queued_def)
  have "set (queued ?s @ unat v # H) = set (queued s @ H)" using q by simp
  moreover have "event_ok L ?s p = event_ok L s p" for p by (rule event_ok_cong) simp_all
  moreover have "distinct (queued ?s @ unat v # H)" using app_invD(3) [OF assms(1)] q by auto
  ultimately show "app_inv (unat v # H) L ?s" using assms(1,2) unfolding app_inv_def by simp
  show "pending s = event_data (ev_at s (unat v)) # pending ?s" using q by (simp add: pending_def)
qed

lemma appev_turn_law:
  assumes "well_behaved call" "app_inv [] L s" "pending s = e # es"
  shows "\<exists>s' L' new. appev_turn call s = Some (Returns (calls_of e), s') \<and> app_inv [] L' s' \<and>
     same_place s s' \<and> pending s' = es @ new \<and> hd (queued s) \<notin> fst ` L' \<and>
     (\<forall>i < APP_EVENT_BUFFER. hd (queued s) = event_slot i s \<longrightarrow> enable (ev_at s' (hd (queued s))) = 0)"
proof -
  obtain v vs where v: "mb_items (mailboxes (ev_kernel s) (mainloop_mb s)) = v # vs"
    using assms(3) by (cases "mb_items (mailboxes (ev_kernel s) (mainloop_mb s))") (auto simp: pending_def queued_def)
  obtain k where k: "rt_mb_recv (mainloop_mb s) RT_WAITING_FOREVER (ev_kernel s) = Some (Returns (RT_EOK, Some v), k)"
    "mb_inv (mainloop_mb s) k" "mb_items (mailboxes k (mainloop_mb s)) = vs"
    using rt_mb_recv_law [OF app_invD(1) [OF assms(2)] v] by blast
  let ?s = "s\<lparr>ev_kernel := k\<rparr>"
  have t: "app_inv [unat v] L ?s" "pending s = event_data (ev_at s (unat v)) # pending ?s"
    using app_inv_take [OF assms(2) k(2), of v] v k(3) by simp_all
  obtain s' L' new where s': "dispatch_event call (unat v) ?s = Some (calls_of (event_data (ev_at ?s (unat v))), s')"
    "app_inv [] L' s'" "same_place ?s s'" "pending s' = pending ?s @ new" "unat v \<notin> fst ` L'"
    "\<forall>i < APP_EVENT_BUFFER. unat v = event_slot i ?s \<longrightarrow> enable (ev_at s' (unat v)) = 0"
    using dispatch_law [OF assms(1) t(1)] by blast
  have "hd (queued s) = unat v" using v by (simp add: queued_def)
  then show ?thesis using s' k(1) t(2) assms(3)
    by (intro exI [of _ s'] exI [of _ L'] exI [of _ new]) (simp add: appev_turn_def same_place_def)
qed

lemma well_behaved_idle: "well_behaved (\<lambda>f a s. Some s)"
  unfolding well_behaved_def by (auto simp: same_place_def)

lemma well_behaved_post: "well_behaved (\<lambda>f a s. map_option snd (post_hw_int_event f a 0 0 s))"
  unfolding well_behaved_def
proof (intro allI impI)
  fix f a s H L assume "app_inv H L s"
  from post_hw_law [OF this, of f a 0 0] obtain r s' where p: "post_hw_int_event f a 0 0 s = Some (Returns r, s')"
    "app_inv H L s'" "same_place s s'" "pending s' = (if r = RT_EOK then pending s @ [(f, a, 0, 0)] else pending s)"
    "\<forall>v \<in> set H. ev_at s' v = ev_at s v" by blast
  then show "\<exists>s' L' new. map_option snd (post_hw_int_event f a 0 0 s) = Some s' \<and> app_inv H L' s' \<and> same_place s s' \<and>
      pending s' = pending s @ new \<and> (\<forall>v \<in> set H. ev_at s' v = ev_at s v) \<and> (\<forall>v \<in> set H. \<forall>n. (v, n) \<in> L \<longrightarrow> (v, n) \<in> L')"
    by (intro exI [of _ s'] exI [of _ L] exI [of _ "if r = RT_EOK then [(f, a, 0, 0)] else []"]) simp
qed

subsection \<open>Interrupt events are a channel of ten\<close>

definition hw_inv :: "app_state \<Rightarrow> bool" where
  "hw_inv s \<longleftrightarrow> (\<exists>L. app_inv [] L s) \<and> mb_size (mailboxes (ev_kernel s) (mainloop_mb s)) = 32 \<and>
     (\<forall>p \<in> set (queued s). \<exists>i < APP_EVENT_BUFFER. p = event_slot i s)"

text \<open>A post is named by the calls it asks for: none, the function, or the function and the reply.\<close>

definition post_calls :: "(u32 \<times> u32) list \<Rightarrow> app_state \<Rightarrow> (bool \<times> app_state) option" where
  "post_calls cs s =
     (case post_hw_int_event (fst (cs ! 0)) (snd (cs ! 0))
         (if length cs = 2 then fst (cs ! 1) else 0) (if length cs = 2 then snd (cs ! 1) else 0) s of
        Some (Returns r, s') \<Rightarrow> Some (r = RT_EOK, s') | _ \<Rightarrow> None)"

definition turn_calls :: "app_state \<Rightarrow> ((u32 \<times> u32) list option \<times> app_state) option" where
  "turn_calls s =
     (if queued s = [] then Some (None, s)
      else case appev_turn (\<lambda>f a s. Some s) s of Some (Returns cs, s') \<Rightarrow> Some (Some cs, s') | _ \<Rightarrow> None)"

definition callable :: "(u32 \<times> u32) list \<Rightarrow> bool" where
  "callable cs \<longleftrightarrow> (length cs = 1 \<or> length cs = 2) \<and> (\<forall>c \<in> set cs. 0 < fst c)"

lemma slot_free_length:
  assumes "hw_inv s"
  shows "slot_free s \<longleftrightarrow> length (queued s) < APP_EVENT_BUFFER"
proof -
  let ?S = "(\<lambda>i. event_slot i s) ` {..<APP_EVENT_BUFFER}"
  obtain L where L: "app_inv [] L s" using assms by (auto simp: hw_inv_def)
  have sub: "set (queued s) \<subseteq> ?S" using assms by (auto simp: hw_inv_def)
  have c: "card ?S = APP_EVENT_BUFFER"
    by (subst card_image) (auto simp: inj_on_def dest: event_slot_inj)
  have l: "length (queued s) = card (set (queued s))"
    using app_invD(3) [OF L] distinct_card by fastforce
  have "slot_free s \<longleftrightarrow> \<not> ?S \<subseteq> set (queued s)"
    using app_invD(5) [OF L] unfolding slot_free_def by auto
  also have "\<dots> \<longleftrightarrow> set (queued s) \<subset> ?S" using sub by blast
  also have "\<dots> \<longleftrightarrow> card (set (queued s)) < card ?S"
  proof
    show "set (queued s) \<subset> ?S \<Longrightarrow> card (set (queued s)) < card ?S" by (simp add: psubset_card_mono)
    show "card (set (queued s)) < card ?S \<Longrightarrow> set (queued s) \<subset> ?S" using sub by auto
  qed
  finally show ?thesis using c l by simp
qed

lemma post_hw_inv:
  assumes "hw_inv s"
  shows "\<exists>r s'. post_hw_int_event f a fr ar s = Some (Returns r, s') \<and> hw_inv s' \<and>
     (r = RT_EOK \<longleftrightarrow> length (pending s) < APP_EVENT_BUFFER) \<and>
     pending s' = (if length (pending s) < APP_EVENT_BUFFER then pending s @ [(f, a, fr, ar)] else pending s)"
proof -
  obtain L where L: "app_inv [] L s" and sz: "mb_size (mailboxes (ev_kernel s) (mainloop_mb s)) = 32"
    and hw: "\<forall>p \<in> set (queued s). \<exists>i < APP_EVENT_BUFFER. p = event_slot i s"
    using assms by (auto simp: hw_inv_def)
  have len: "length (pending s) = length (queued s)" by (simp add: pending_def)
  obtain r s' where p: "post_hw_int_event f a fr ar s = Some (Returns r, s')"
    "app_inv [] L s'" "same_place s s'" "r = RT_EOK \<longleftrightarrow> slot_free s \<and> mb_has_room (mainloop_mb s) (ev_kernel s)"
    "pending s' = (if r = RT_EOK then pending s @ [(f, a, fr, ar)] else pending s)"
    "mb_size (mailboxes (ev_kernel s') (mainloop_mb s)) = mb_size (mailboxes (ev_kernel s) (mainloop_mb s))"
    "queued s' = queued s \<or> (\<exists>i < APP_EVENT_BUFFER. queued s' = queued s @ [event_slot i s])"
    using post_hw_law [OF L, of f a fr ar] by blast
  have room: "mb_has_room (mainloop_mb s) (ev_kernel s)" if "length (queued s) < APP_EVENT_BUFFER"
    using that sz by (simp add: mb_has_room_def queued_def)
  have r: "r = RT_EOK \<longleftrightarrow> length (pending s) < APP_EVENT_BUFFER"
    using p(4) slot_free_length [OF assms(1)] room len by auto
  have "event_slot i s' = event_slot i s" for i using p(3) by (simp add: event_slot_def same_place_def)
  then have "\<forall>p \<in> set (queued s'). \<exists>i < APP_EVENT_BUFFER. p = event_slot i s'" using hw p(7) by auto
  then have "hw_inv s'" using p(2,3,6) sz unfolding hw_inv_def by (auto simp: same_place_def)
  then show ?thesis using p(1,5) r by simp
qed

lemma post_calls_law:
  assumes "hw_inv s" "callable cs"
  shows "\<exists>s'. post_calls cs s = Some (length (pending s) < APP_EVENT_BUFFER, s') \<and> hw_inv s' \<and>
     map calls_of (pending s') = (if length (pending s) < APP_EVENT_BUFFER
       then map calls_of (pending s) @ [cs] else map calls_of (pending s))"
proof -
  let ?fr = "if length cs = 2 then fst (cs ! 1) else 0" and ?ar = "if length cs = 2 then snd (cs ! 1) else 0"
  have e: "calls_of (fst (cs ! 0), snd (cs ! 0), ?fr, ?ar) = cs"
    using assms(2) by (cases cs; cases "tl cs") (auto simp: callable_def calls_of_def called_def)
  obtain r s' where "post_hw_int_event (fst (cs ! 0)) (snd (cs ! 0)) ?fr ?ar s = Some (Returns r, s')" "hw_inv s'"
     "r = RT_EOK \<longleftrightarrow> length (pending s) < APP_EVENT_BUFFER"
     "pending s' = (if length (pending s) < APP_EVENT_BUFFER then pending s @ [(fst (cs ! 0), snd (cs ! 0), ?fr, ?ar)] else pending s)"
    using post_hw_inv [OF assms(1), of "fst (cs ! 0)" "snd (cs ! 0)" ?fr ?ar] by blast
  then show ?thesis using e by (simp add: post_calls_def)
qed

lemma appev_turn_idle:
  assumes "appev_turn (\<lambda>f a s. Some s) s = Some (Returns cs, s')"
    and "rt_mb_recv (mainloop_mb s) RT_WAITING_FOREVER (ev_kernel s) = Some (Returns (RT_EOK, Some v), k)"
  shows "ev_kernel s' = k"
  using assms by (auto simp: appev_turn_def dispatch_event_def run_callback_def destory_app_event_def Let_def split: if_splits)

lemma turn_calls_law:
  assumes "hw_inv s"
  shows "\<exists>s'. turn_calls s = Some (case map calls_of (pending s) of [] \<Rightarrow> None | cs # _ \<Rightarrow> Some cs, s') \<and>
     hw_inv s' \<and> map calls_of (pending s') = tl (map calls_of (pending s))"
proof (cases "pending s")
  case Nil
  then have "queued s = []" by (simp add: pending_def)
  then show ?thesis using Nil assms by (simp add: turn_calls_def)
next
  case (Cons e es)
  let ?a = "mainloop_mb s"
  obtain L where L: "app_inv [] L s" and sz: "mb_size (mailboxes (ev_kernel s) ?a) = 32"
    and hw: "\<forall>p \<in> set (queued s). \<exists>i < APP_EVENT_BUFFER. p = event_slot i s"
    using assms(1) by (auto simp: hw_inv_def)
  have ne: "queued s \<noteq> []" using Cons by (auto simp: pending_def)
  then obtain v vs where v: "mb_items (mailboxes (ev_kernel s) ?a) = v # vs"
    by (cases "mb_items (mailboxes (ev_kernel s) ?a)") (auto simp: queued_def)
  obtain k where k: "rt_mb_recv ?a RT_WAITING_FOREVER (ev_kernel s) = Some (Returns (RT_EOK, Some v), k)"
    "mb_size (mailboxes k ?a) = mb_size (mailboxes (ev_kernel s) ?a)" "mb_items (mailboxes k ?a) = vs"
    using rt_mb_recv_law [OF app_invD(1) [OF L] v] by blast
  obtain s' L' new where s': "appev_turn (\<lambda>f a s. Some s) s = Some (Returns (calls_of e), s')" "app_inv [] L' s'"
    "same_place s s'" "pending s' = es @ new"
    using appev_turn_law [OF well_behaved_idle L Cons] by blast
  have k': "ev_kernel s' = k" by (rule appev_turn_idle [OF s'(1) k(1)])
  have q: "queued s = unat v # queued s'" using v k(3) k' s'(3) by (simp add: queued_def same_place_def)
  have "length (queued s) = Suc (length es)" using Cons by (metis length_Cons length_map pending_def)
  moreover have "length (queued s') = length (es @ new)" using s'(4) by (metis length_map pending_def)
  ultimately have n: "new = []" using q by simp
  have "event_slot i s' = event_slot i s" for i using s'(3) by (simp add: event_slot_def same_place_def)
  then have "hw_inv s'" using s'(2,3) sz k(2) k' hw q unfolding hw_inv_def by (auto simp: same_place_def)
  then show ?thesis using s'(1,4) n Cons ne by (simp add: turn_calls_def)
qed

interpretation app_events: channel hw_inv "\<lambda>s. map calls_of (pending s)" "\<lambda>_. APP_EVENT_BUFFER"
    "\<lambda>_. callable" post_calls turn_calls
proof (unfold_locales, goal_cases)
  case (1 s v)
  then show ?case using post_calls_law [of s v] by auto
next
  case (2 s)
  then show ?case using turn_calls_law [of s] by auto
qed

subsection \<open>An application for the witnesses\<close>

definition demo_app :: app_state where
  "demo_app = \<lparr>ev_kernel = demo\<lparr>mailboxes := (\<lambda>_. \<lparr>mb_msg_pool = 0, mb_msgs = (\<lambda>_. 0), mb_size = 32,
        mb_entry = 0, mb_in_offset = 0, mb_out_offset = 0\<rparr>)\<rparr>,
     ev_heap = heap_boot, ev_at = (\<lambda>_. \<lparr>enable = 0, ev_type = 0, simple_data = (\<lambda>_. 0)\<rparr>),
     app_event_base = 0x10000000, mainloop_mb = 60\<rparr>"

lemma demo_app_inv: "app_inv [] {} demo_app"
proof -
  have h: "heap_ptr heap_boot = 0x20000100"
    by (simp add: heap_boot_def rt_system_heap_init_def mem_at_def unat_RT_ALIGN unat_RT_ALIGN_DOWN Let_def)
  have "queued demo_app = []" by (simp add: demo_app_def queued_def mb_items_def)
  moreover have "mb_inv 60 (ev_kernel demo_app)"
    by (simp add: demo_app_def mb_inv_def mb_wf_def)
  ultimately show ?thesis using heap_boot_rel h by (simp add: app_inv_def demo_app_def)
qed

lemma demo_app_hw: "hw_inv demo_app"
  using demo_app_inv by (auto simp: hw_inv_def) (simp_all add: demo_app_def queued_def mb_items_def)

subsection \<open>Properties\<close>

text \<open>
  Property C29.
  Refinement of a bounded list: any sequence of posts from interrupts and turns of the main loop
  returns and does on the ten static events and the mailbox what it does on a list of at most
  ten: a post fails only when ten events wait, every event posted makes its calls, the function
  and then the reply, exactly once and in the order of the posts, and its structure can be
  allocated again afterwards, so that no event is ever lost or leaked.\<close>

theorem app_events_fifo:
  assumes "hw_inv s" "\<forall>cs. Put cs \<in> set ops \<longrightarrow> callable cs"
  shows "\<exists>ins outs s'. channel_run post_calls turn_calls ops s = Some (ins, outs, s') \<and> hw_inv s' \<and>
     bounded_run APP_EVENT_BUFFER ops (map calls_of (pending s)) = (ins, outs, map calls_of (pending s')) \<and>
     map calls_of (pending s) @ ins = outs @ map calls_of (pending s')"
  by (rule app_events.run_fifo [OF assms])

theorem app_events_fifo_witness:
  "\<exists>ins outs s'. channel_run post_calls turn_calls [Put [(7, 1)], Put [(8, 2), (9, 3)], Get] demo_app = Some (ins, outs, s') \<and>
     hw_inv s' \<and> bounded_run APP_EVENT_BUFFER [Put [(7, 1)], Put [(8, 2), (9, 3)], Get] (map calls_of (pending demo_app)) =
       (ins, outs, map calls_of (pending s')) \<and>
     map calls_of (pending demo_app) @ ins = outs @ map calls_of (pending s')"
  by (rule app_events_fifo [OF demo_app_hw]) (auto simp: callable_def)

text \<open>
  An event of the heap from its post to its end. A post that fails, for want of memory or of room in
  the mailbox, leaves the heap and the waiting events as they were. A post that succeeds takes one new
  block; when no other event waits, the next turn of the main loop makes exactly the calls asked
  for, whatever events the callbacks post themselves, and the block is given back.\<close>

theorem app_default_event_handled:
  assumes "app_inv [] L s" "well_behaved call"
  shows "\<exists>r s1 L1. post_default_event f a fr ar s = Some (Returns r, s1) \<and> app_inv [] L1 s1 \<and>
     (r \<noteq> RT_EOK \<longrightarrow> L1 = L \<and> pending s1 = pending s) \<and>
     (r = RT_EOK \<longrightarrow> (\<exists>p n. p \<notin> fst ` L \<and> L1 = insert (p, n) L \<and>
        (pending s = [] \<longrightarrow> (\<exists>s2 L2. appev_turn call s1 = Some (Returns (called f a @ called fr ar), s2) \<and>
           app_inv [] L2 s2 \<and> p \<notin> fst ` L2))))"
proof -
  obtain r s1 L1 where p: "post_default_event f a fr ar s = Some (Returns r, s1)" "app_inv [] L1 s1"
    "if r = RT_EOK then pending s1 = pending s @ [(f, a, fr, ar)] \<and>
        (\<exists>p n. p \<notin> fst ` L \<and> L1 = insert (p, n) L \<and> queued s1 = queued s @ [p])
      else pending s1 = pending s \<and> L1 = L"
    using post_default_law [OF assms(1), of f a fr ar] by blast
  show ?thesis
  proof (cases "r = RT_EOK")
    case False
    then show ?thesis using p by (intro exI [of _ r] exI [of _ s1] exI [of _ L1]) simp
  next
    case True
    then obtain b n where b: "b \<notin> fst ` L" "L1 = insert (b, n) L" "queued s1 = queued s @ [b]"
      "pending s1 = pending s @ [(f, a, fr, ar)]" using p(3) by auto
    have "\<exists>s2 L2. appev_turn call s1 = Some (Returns (called f a @ called fr ar), s2) \<and> app_inv [] L2 s2 \<and> b \<notin> fst ` L2"
      if e: "pending s = []"
    proof -
      have "hd (queued s1) = b" using b(3) e by (simp add: pending_def)
      moreover have "pending s1 = (f, a, fr, ar) # []" using b(4) e by simp
      ultimately show ?thesis using appev_turn_law [OF assms(2) p(2), of "(f, a, fr, ar)" "[]"]
        by (auto simp: calls_of_def)
    qed
    then show ?thesis using p(1,2) b(1,2) True
      by (intro exI [of _ r] exI [of _ s1] exI [of _ L1]) auto
  qed
qed

theorem app_default_event_handled_witness:
  "\<exists>r s1 L1. post_default_event 7 1 8 2 demo_app = Some (Returns r, s1) \<and> app_inv [] L1 s1 \<and>
     (r \<noteq> RT_EOK \<longrightarrow> L1 = {} \<and> pending s1 = pending demo_app)"
  using app_default_event_handled [OF demo_app_inv well_behaved_post, of 7 1 8 2] by blast

end
