(* ===== verification/AppTimer.thy ===== *)
theory AppTimer
  imports AppEvent RtTimer
begin

text \<open>
  \<^verbatim>\<open>bsp/easyio_core/app_timer.c\<close>: the clock of the application, driven by a periodic timer of the
  kernel, and its software timers, which are checked once in a second.
\<close>

subsection \<open>State\<close>

record app_timer =
  app_timer_second :: u32
  app_timer_ms :: u32

record ei_timer =
  ei_type :: u8
  ei_ticks :: u32
  ei_num :: u8
  ei_ticksleft :: u32
  ei_his_time :: u32
  ei_timeout :: u32
  ei_timeout_arg :: u32
  ei_enable :: u8
  ei_alloc :: u8

record app_system =
  tm_app :: app_state
  app_timer_data :: app_timer
  ei_timers :: "ei_timer list"
  system_timer_counter :: "u16 list"
  feed_watchdog_cnt :: u32

abbreviation TIMER_PREIOD :: nat where "TIMER_PREIOD \<equiv> 10"
abbreviation EI_TIMER_COUNT :: nat where "EI_TIMER_COUNT \<equiv> 5"
abbreviation SYSTEM_TIMER_COUNTER_CNT :: nat where "SYSTEM_TIMER_COUNTER_CNT \<equiv> 2"
abbreviation EI_TIMER_TYPE_ONE :: u8 where "EI_TIMER_TYPE_ONE \<equiv> 1"

definition app_timer0 :: app_timer where
  "app_timer0 = \<lparr>app_timer_second = 0, app_timer_ms = 0\<rparr>"

definition ei_timer0 :: ei_timer where
  "ei_timer0 = \<lparr>ei_type = 0, ei_ticks = 0, ei_num = 0, ei_ticksleft = 0, ei_his_time = 0, ei_timeout = 0,
     ei_timeout_arg = 0, ei_enable = 0, ei_alloc = 0\<rparr>"

subsection \<open>Times\<close>

definition app_timer_add :: "app_timer \<Rightarrow> u32 \<Rightarrow> app_timer" where
  "app_timer_add tmr ms =
     (let mms = ms + app_timer_ms tmr; sec = mms div 1000
      in tmr\<lparr>app_timer_second := app_timer_second tmr + sec, app_timer_ms := mms mod 1000\<rparr>)"

definition app_timer_cmp :: "app_timer \<Rightarrow> app_timer \<Rightarrow> int" where
  "app_timer_cmp tmr1 tmr2 =
     (if app_timer_second tmr1 > app_timer_second tmr2 then 1
      else if app_timer_second tmr1 < app_timer_second tmr2 then - 1
      else if app_timer_ms tmr1 > app_timer_ms tmr2 then 1
      else if app_timer_ms tmr1 < app_timer_ms tmr2 then - 1
      else 0)"

definition app_timer_copy :: "app_timer \<Rightarrow> app_timer \<Rightarrow> app_timer" where
  "app_timer_copy tmr1 tmr2 =
     tmr1\<lparr>app_timer_second := app_timer_second tmr2, app_timer_ms := app_timer_ms tmr2\<rparr>"

subsection \<open>Software timers\<close>

definition ei_timer_at :: "nat \<Rightarrow> (ei_timer \<Rightarrow> ei_timer) \<Rightarrow> app_system \<Rightarrow> app_system" where
  "ei_timer_at i f s = s\<lparr>ei_timers := (ei_timers s)[i := f (ei_timers s ! i)]\<rparr>"

fun alloc_timer_loop :: "nat list \<Rightarrow> app_system \<Rightarrow> nat option \<times> app_system" where
  "alloc_timer_loop [] s = (None, s)"
| "alloc_timer_loop (i # is) s =
     (if ei_alloc (ei_timers s ! i) = 0 then (Some i, ei_timer_at i (ei_alloc_update (\<lambda>_. 1)) s)
      else alloc_timer_loop is s)"

definition alloc_timer :: "app_system \<Rightarrow> nat option \<times> app_system" where
  "alloc_timer s = alloc_timer_loop [0..<EI_TIMER_COUNT] s"

definition timer_start :: "nat \<Rightarrow> app_system \<Rightarrow> app_system" where
  "timer_start i s =
     ei_timer_at i (\<lambda>t. t\<lparr>ei_his_time := app_timer_second (app_timer_data s), ei_enable := 1\<rparr>) s"

definition destory_timer :: "nat \<Rightarrow> app_system \<Rightarrow> app_system" where
  "destory_timer i s = ei_timer_at i (\<lambda>_. ei_timer0) (ei_timer_at i (ei_alloc_update (\<lambda>_. 0)) s)"

text \<open>\<open>call\<close> is what the function at an address does when it is called with an argument; the
  calls made are given with the result.\<close>

type_synonym sys_callback = "u32 \<Rightarrow> u32 \<Rightarrow> app_system \<Rightarrow> app_system option"

fun timerout_loop :: "sys_callback \<Rightarrow> nat list \<Rightarrow> app_system \<Rightarrow> ((u32 \<times> u32) list \<times> app_system) option" where
  "timerout_loop call [] s = Some ([], s)"
| "timerout_loop call (i # is) s =
     (let t = ei_timers s ! i; now = app_timer_second (app_timer_data s) in
      if ei_enable t = 1 \<and> now - ei_his_time t > ei_ticks t then
        do { let s1 = ei_timer_at i (ei_his_time_update (\<lambda>_. now)) s;
             s2 \<leftarrow> call (ei_timeout t) (ei_timeout_arg t) s1;
             let s3 = (if ei_type (ei_timers s2 ! i) = EI_TIMER_TYPE_ONE
                       then ei_timer_at i (ei_enable_update (\<lambda>_. 0)) s2 else s2);
             (cs, s4) \<leftarrow> timerout_loop call is s3;
             Some ((ei_timeout t, ei_timeout_arg t) # cs, s4) }
      else timerout_loop call is s)"

definition timerout_in :: "sys_callback \<Rightarrow> app_system \<Rightarrow> ((u32 \<times> u32) list \<times> app_system) option" where
  "timerout_in call s = timerout_loop call [0..<EI_TIMER_COUNT] s"

definition second_timer :: "sys_callback \<Rightarrow> app_system \<Rightarrow> ((u32 \<times> u32) list \<times> app_system) option" where
  "second_timer call s = timerout_in call s"

subsection \<open>The clock\<close>

definition post_function :: "u32 \<Rightarrow> app_system \<Rightarrow> app_system option" where
  "post_function f s = map_option (\<lambda>(_, a). s\<lparr>tm_app := a\<rparr>) (post_hw_int_event f 0 0 0 (tm_app s))"

text \<open>The timeout function; \<open>sec\<close> and \<open>wd\<close> are the addresses of \<^verbatim>\<open>second_timer\<close> and \<^verbatim>\<open>feed_watchdog\<close>.\<close>

definition app_tmr_timeout :: "u32 \<Rightarrow> u32 \<Rightarrow> app_system \<Rightarrow> app_system option" where
  "app_tmr_timeout sec wd s =
     do {
       let d = app_timer_data s;
       let d = d\<lparr>app_timer_ms := app_timer_ms d + of_nat TIMER_PREIOD\<rparr>;
       s1 \<leftarrow> (if app_timer_ms d \<ge> 1000
              then post_function sec (s\<lparr>app_timer_data :=
                     d\<lparr>app_timer_second := app_timer_second d + 1, app_timer_ms := 0\<rparr>\<rparr>)
              else Some (s\<lparr>app_timer_data := d\<rparr>));
       let s2 = s1\<lparr>feed_watchdog_cnt := feed_watchdog_cnt s1 + of_nat TIMER_PREIOD\<rparr>;
       s3 \<leftarrow> (if feed_watchdog_cnt s2 > 2000
              then map_option (feed_watchdog_cnt_update (\<lambda>_. 0)) (post_function wd s2)
              else Some s2);
       Some (s3\<lparr>system_timer_counter := map (\<lambda>c. c + of_nat TIMER_PREIOD) (system_timer_counter s3)\<rparr>) }"

text \<open>\<^verbatim>\<open>init_app_timer\<close>: \<open>x\<close> is the kernel's timer, \<open>f\<close> the number of its timeout function.\<close>

definition init_app_timer :: "timer_id \<Rightarrow> u8 list \<Rightarrow> nat \<Rightarrow> app_system \<Rightarrow> app_system option" where
  "init_app_timer x name f s =
     do { let s1 = s\<lparr>app_timer_data := app_timer0\<rparr>;
          k1 \<leftarrow> rt_timer_init x name (TimeoutUser f) 0 1 RT_TIMER_FLAG_PERIODIC (ev_kernel (tm_app s1));
          (_, k2) \<leftarrow> rt_timer_start x k1;
          Some (s1\<lparr>tm_app := (tm_app s1)\<lparr>ev_kernel := k2\<rparr>, ei_timers := replicate EI_TIMER_COUNT ei_timer0\<rparr>) }"

fun app_ticks :: "u32 \<Rightarrow> u32 \<Rightarrow> nat \<Rightarrow> app_system \<Rightarrow> app_system option" where
  "app_ticks sec wd 0 s = Some s"
| "app_ticks sec wd (Suc n) s = do { s1 \<leftarrow> app_ticks sec wd n s; app_tmr_timeout sec wd s1 }"

subsection \<open>What a tick does\<close>

definition tick_posts :: "u32 \<Rightarrow> u32 \<Rightarrow> nat \<Rightarrow> u32 list" where
  "tick_posts sec wd n =
     (if (n + 1) mod 100 = 0 then [sec] else []) @ (if (n + 1) mod 201 = 0 then [wd] else [])"

definition clock_at :: "nat \<Rightarrow> app_system \<Rightarrow> bool" where
  "clock_at n s \<longleftrightarrow> app_timer_second (app_timer_data s) = of_nat (n div 100) \<and>
     app_timer_ms (app_timer_data s) = of_nat (n mod 100 * TIMER_PREIOD) \<and>
     feed_watchdog_cnt s = of_nat (n mod 201 * TIMER_PREIOD) \<and>
     system_timer_counter s = replicate SYSTEM_TIMER_COUNTER_CNT (of_nat (n * TIMER_PREIOD))"

text \<open>Posting one function after another, as far as the ten events go.\<close>

definition with_posts :: "u32 list \<Rightarrow> app_state \<Rightarrow> app_state \<Rightarrow> bool" where
  "with_posts fs a a' \<longleftrightarrow> hw_inv a' \<and>
     pending a' = take APP_EVENT_BUFFER (pending a @ map (\<lambda>f. (f, 0, 0, 0)) fs)"

lemma hw_inv_pending: "hw_inv a \<Longrightarrow> length (pending a) \<le> APP_EVENT_BUFFER"
proof -
  assume a: "hw_inv a"
  then obtain L where L: "app_inv [] L a" by (auto simp: hw_inv_def)
  let ?S = "(\<lambda>i. event_slot i a) ` {..<APP_EVENT_BUFFER}"
  have "set (queued a) \<subseteq> ?S" using a by (auto simp: hw_inv_def)
  then have "card (set (queued a)) \<le> card ?S" by (intro card_mono) simp_all
  also have "\<dots> \<le> APP_EVENT_BUFFER" using card_image_le [of "{..<APP_EVENT_BUFFER}" "\<lambda>i. event_slot i a"] by simp
  finally show ?thesis using app_invD(3) [OF L] by (simp add: pending_def distinct_card)
qed

lemma with_posts_Nil: "hw_inv a \<Longrightarrow> with_posts [] a a"
  using hw_inv_pending [of a] by (simp add: with_posts_def)

lemma with_posts_trans:
  assumes "with_posts fs a b" "with_posts gs b c"
  shows "with_posts (fs @ gs) a c"
  using assms by (auto simp: with_posts_def min_def)

lemma post_function_law:
  assumes "hw_inv (tm_app s)"
  shows "\<exists>a. post_function f s = Some (s\<lparr>tm_app := a\<rparr>) \<and> with_posts [f] (tm_app s) a"
proof -
  obtain r a where "post_hw_int_event f 0 0 0 (tm_app s) = Some (Returns r, a)" "hw_inv a"
    "pending a = (if length (pending (tm_app s)) < APP_EVENT_BUFFER then pending (tm_app s) @ [(f, 0, 0, 0)] else pending (tm_app s))"
    using post_hw_inv [OF assms, of f 0 0 0] by blast
  then show ?thesis using hw_inv_pending [OF assms] by (auto simp: post_function_def with_posts_def)
qed

lemma small_le: "n < 2 ^ 32 \<Longrightarrow> k < 2 ^ 32 \<Longrightarrow> (of_nat k :: u32) \<le> of_nat n \<longleftrightarrow> k \<le> n"
  by (simp add: word_le_nat_alt unsigned_of_nat take_bit_nat_eq_self)

lemma tick_law:
  assumes "clock_at n s" "hw_inv (tm_app s)"
  shows "\<exists>s'. app_tmr_timeout sec wd s = Some s' \<and> clock_at (n + 1) s' \<and>
     with_posts (tick_posts sec wd n) (tm_app s) (tm_app s') \<and> ei_timers s' = ei_timers s"
proof -
  let ?d = "app_timer_data s"
  have ms: "app_timer_ms ?d + of_nat TIMER_PREIOD = of_nat (n mod 100 * TIMER_PREIOD + TIMER_PREIOD)"
    and wd: "feed_watchdog_cnt s + of_nat TIMER_PREIOD = of_nat (n mod 201 * TIMER_PREIOD + TIMER_PREIOD)"
    using assms(1) by (simp_all add: clock_at_def)
  have c1: "1000 \<le> app_timer_ms ?d + of_nat TIMER_PREIOD \<longleftrightarrow> (n + 1) mod 100 = 0"
  proof -
    define r where "r = n mod 100"
    have r: "r < 100" "(n + 1) mod 100 = (if r = 99 then 0 else r + 1)" by (simp_all add: r_def mod_Suc)
    then show ?thesis unfolding ms r_def [symmetric] using small_le [of "r * TIMER_PREIOD + TIMER_PREIOD" 1000] by auto
  qed
  have c2: "2000 < feed_watchdog_cnt s + of_nat TIMER_PREIOD \<longleftrightarrow> (n + 1) mod 201 = 0"
  proof -
    define r where "r = n mod 201"
    have r: "r < 201" "(n + 1) mod 201 = (if r = 200 then 0 else r + 1)" by (simp_all add: r_def mod_Suc)
    then show ?thesis unfolding wd r_def [symmetric] not_le [symmetric]
      using small_le [of 2000 "r * TIMER_PREIOD + TIMER_PREIOD"] by auto
  qed
  let ?P = "(n + 1) mod 100 = 0" and ?Q = "(n + 1) mod 201 = 0"
  let ?d1 = "?d\<lparr>app_timer_ms := app_timer_ms ?d + of_nat TIMER_PREIOD\<rparr>"
  let ?d2 = "if ?P then ?d1\<lparr>app_timer_second := app_timer_second ?d + 1, app_timer_ms := 0\<rparr> else ?d1"
  have "n div 100 + 1 = (n + 1) div 100 \<and> (n + 1) mod 100 = 0 \<or>
      n div 100 = (n + 1) div 100 \<and> (n + 1) mod 100 = n mod 100 + 1 \<and> (n + 1) mod 100 \<noteq> 0"
    by (simp add: div_Suc mod_Suc)
  moreover have "app_timer_second ?d + 1 = of_nat (n div 100 + 1)" "app_timer_second ?d = of_nat (n div 100)"
    using assms(1) by (simp_all add: clock_at_def)
  ultimately have d2: "app_timer_second ?d2 = of_nat ((n + 1) div 100)" "app_timer_ms ?d2 = of_nat ((n + 1) mod 100 * TIMER_PREIOD)"
    using ms by (elim disjE conjE; simp only: if_True if_False app_timer.simps; simp)+
  obtain a1 where a1: "with_posts (if ?P then [sec] else []) (tm_app s) a1"
    "(if 1000 \<le> app_timer_ms ?d1
      then post_function sec (s\<lparr>app_timer_data := ?d1\<lparr>app_timer_second := app_timer_second ?d1 + 1, app_timer_ms := 0\<rparr>\<rparr>)
      else Some (s\<lparr>app_timer_data := ?d1\<rparr>)) = Some (s\<lparr>app_timer_data := ?d2, tm_app := a1\<rparr>)"
  proof (cases ?P)
    case True
    obtain a where "post_function sec (s\<lparr>app_timer_data := ?d2\<rparr>) = Some (s\<lparr>app_timer_data := ?d2, tm_app := a\<rparr>)"
      "with_posts [sec] (tm_app s) a"
      using post_function_law [of "s\<lparr>app_timer_data := ?d2\<rparr>" sec] assms(2) by auto
    then show thesis using that [of a] True c1 by simp
  next
    case False
    then show thesis using that [of "tm_app s"] with_posts_Nil [OF assms(2)] c1 by simp
  qed
  let ?s1 = "s\<lparr>app_timer_data := ?d2, tm_app := a1\<rparr>"
  define s2 where "s2 = ?s1\<lparr>feed_watchdog_cnt := feed_watchdog_cnt ?s1 + of_nat TIMER_PREIOD\<rparr>"
  have s2: "app_timer_data s2 = ?d2" "tm_app s2 = a1" "feed_watchdog_cnt s2 = feed_watchdog_cnt s + of_nat TIMER_PREIOD"
    "system_timer_counter s2 = system_timer_counter s" "ei_timers s2 = ei_timers s"
    by (simp_all add: s2_def)
  have w: "?Q \<and> of_nat ((n + 1) mod 201 * TIMER_PREIOD) = (0 :: u32) \<or>
      \<not> ?Q \<and> feed_watchdog_cnt s2 = of_nat ((n + 1) mod 201 * TIMER_PREIOD)"
    using wd s2(3) by (auto simp: mod_Suc)
  have h: "hw_inv (tm_app s2)" using a1(1) s2(2) by (simp add: with_posts_def)
  obtain s3 where s3: "(if 2000 < feed_watchdog_cnt s2
      then map_option (feed_watchdog_cnt_update (\<lambda>_. 0)) (post_function wd s2) else Some s2) = Some s3"
    "with_posts (if ?Q then [wd] else []) a1 (tm_app s3)" "app_timer_data s3 = ?d2"
    "feed_watchdog_cnt s3 = of_nat ((n + 1) mod 201 * TIMER_PREIOD)"
    "system_timer_counter s3 = system_timer_counter s" "ei_timers s3 = ei_timers s"
  proof (cases ?Q)
    case True
    obtain a2 where "post_function wd s2 = Some (s2\<lparr>tm_app := a2\<rparr>)" "with_posts [wd] a1 a2"
      using post_function_law [OF h, of wd] s2(2) by auto
    then show thesis using that [of "s2\<lparr>tm_app := a2, feed_watchdog_cnt := 0\<rparr>"] True c2 [folded s2(3)] w s2 by simp
  next
    case False
    show thesis using that [of s2] False c2 [folded s2(3)] w s2 with_posts_Nil [OF h] by simp
  qed
  let ?s' = "s3\<lparr>system_timer_counter := map (\<lambda>c. c + of_nat TIMER_PREIOD) (system_timer_counter s3)\<rparr>"
  have "app_tmr_timeout sec wd s = Some ?s'"
    unfolding app_tmr_timeout_def Let_def a1(2) bind.bind_lunit s2_def [symmetric] s3(1) by simp
  moreover have "clock_at (n + 1) ?s'"
    using d2 s3(3-5) assms(1) by (simp add: clock_at_def)
  moreover have "with_posts (tick_posts sec wd n) (tm_app s) (tm_app ?s')"
    using with_posts_trans [OF a1(1) s3(2)] by (simp add: tick_posts_def)
  ultimately show ?thesis using s3(6) by (intro exI [of _ ?s']) simp
qed

lemma app_ticks_law:
  assumes "clock_at 0 s" "hw_inv (tm_app s)"
  shows "\<exists>s'. app_ticks sec wd n s = Some s' \<and> clock_at n s' \<and>
     with_posts (concat (map (tick_posts sec wd) [0..<n])) (tm_app s) (tm_app s') \<and> ei_timers s' = ei_timers s"
proof (induction n)
  case 0
  then show ?case using assms with_posts_Nil by simp
next
  case (Suc n)
  then obtain s1 where s1: "app_ticks sec wd n s = Some s1" "clock_at n s1"
    "with_posts (concat (map (tick_posts sec wd) [0..<n])) (tm_app s) (tm_app s1)" "ei_timers s1 = ei_timers s" by blast
  have "hw_inv (tm_app s1)" using s1(3) by (simp add: with_posts_def)
  from tick_law [OF s1(2) this] obtain s' where s': "app_tmr_timeout sec wd s1 = Some s'" "clock_at (n + 1) s'"
    "with_posts (tick_posts sec wd n) (tm_app s1) (tm_app s')" "ei_timers s' = ei_timers s1" by blast
  then show ?case using s1 with_posts_trans [OF s1(3) s'(3)] by (intro exI [of _ s']) simp
qed

subsection \<open>What a second does\<close>

definition ei_due :: "u32 \<Rightarrow> ei_timer \<Rightarrow> bool" where
  "ei_due now t \<longleftrightarrow> ei_enable t = 1 \<and> ei_ticks t < now - ei_his_time t"

definition ei_fired :: "u32 \<Rightarrow> ei_timer \<Rightarrow> ei_timer" where
  "ei_fired now t =
     (if ei_due now t
      then t\<lparr>ei_his_time := now, ei_enable := (if ei_type t = EI_TIMER_TYPE_ONE then 0 else ei_enable t)\<rparr> else t)"

text \<open>A timeout function that leaves the clock and the timers alone.\<close>

definition leaves_timers :: "sys_callback \<Rightarrow> bool" where
  "leaves_timers call \<longleftrightarrow> (\<forall>f a s. \<exists>s'. call f a s = Some s' \<and> app_timer_data s' = app_timer_data s \<and> ei_timers s' = ei_timers s)"

lemma timerout_loop_law:
  assumes "leaves_timers call" "k \<le> n" "n = length (ei_timers s)" "now = app_timer_second (app_timer_data s)"
  shows "\<exists>s'. timerout_loop call [k..<n] s =
      Some (map (\<lambda>t. (ei_timeout t, ei_timeout_arg t)) (filter (ei_due now) (drop k (ei_timers s))), s') \<and>
     app_timer_data s' = app_timer_data s \<and> ei_timers s' = take k (ei_timers s) @ map (ei_fired now) (drop k (ei_timers s))"
  using assms(2-)
proof (induction "n - k" arbitrary: k s)
  case 0
  then show ?case by simp
next
  case (Suc m)
  let ?t = "ei_timers s ! k"
  have k: "k < n" using Suc by simp
  have up: "[k..<n] = k # [k + 1..<n]" using k by (simp add: upt_conv_Cons)
  have h: "m = n - (k + 1)" "k + 1 \<le> n" using Suc.hyps(2) k by simp_all
  have dr: "drop k (ei_timers s) = ?t # drop (k + 1) (ei_timers s)"
    using k Suc.prems(2) by (simp add: Cons_nth_drop_Suc)
  show ?case
  proof (cases "ei_due now ?t")
    case False
    obtain s' where s': "timerout_loop call [k + 1..<n] s =
      Some (map (\<lambda>t. (ei_timeout t, ei_timeout_arg t)) (filter (ei_due now) (drop (k + 1) (ei_timers s))), s')"
      "app_timer_data s' = app_timer_data s"
      "ei_timers s' = take (k + 1) (ei_timers s) @ map (ei_fired now) (drop (k + 1) (ei_timers s))"
      using Suc.hyps(1) [OF h Suc.prems(2,3)] by blast
    have "timerout_loop call [k..<n] s = timerout_loop call [k + 1..<n] s"
      unfolding up timerout_loop.simps Let_def
      by (rule if_not_P) (use False Suc.prems(3) in \<open>simp add: ei_due_def\<close>)
    then show ?thesis using s' False k Suc.prems(2) unfolding dr
      by (intro exI [of _ s']) (simp add: take_Suc_conv_app_nth ei_fired_def)
  next
    case True
    let ?s1 = "ei_timer_at k (ei_his_time_update (\<lambda>_. now)) s"
    obtain s2 where s2: "call (ei_timeout ?t) (ei_timeout_arg ?t) ?s1 = Some s2" "app_timer_data s2 = app_timer_data s"
      "ei_timers s2 = (ei_timers s)[k := ?t\<lparr>ei_his_time := now\<rparr>]"
    proof -
      obtain s2 where "call (ei_timeout ?t) (ei_timeout_arg ?t) ?s1 = Some s2" "app_timer_data s2 = app_timer_data ?s1"
        "ei_timers s2 = ei_timers ?s1"
        using assms(1) unfolding leaves_timers_def by blast
      then show thesis by (intro that) (simp_all add: ei_timer_at_def)
    qed
    let ?s3 = "if ei_type (ei_timers s2 ! k) = EI_TIMER_TYPE_ONE then ei_timer_at k (ei_enable_update (\<lambda>_. 0)) s2 else s2"
    have s3: "app_timer_data ?s3 = app_timer_data s" "ei_timers ?s3 = (ei_timers s)[k := ei_fired now ?t]"
      using s2(2,3) k Suc.prems(2) True by (auto simp: ei_timer_at_def ei_fired_def)
    obtain s' where s': "timerout_loop call [k + 1..<n] ?s3 =
      Some (map (\<lambda>t. (ei_timeout t, ei_timeout_arg t)) (filter (ei_due now) (drop (k + 1) (ei_timers ?s3))), s')"
      "app_timer_data s' = app_timer_data ?s3"
      "ei_timers s' = take (k + 1) (ei_timers ?s3) @ map (ei_fired now) (drop (k + 1) (ei_timers ?s3))"
      using Suc.hyps(1) [OF h, of ?s3] Suc.prems(2,3) s3 by auto
    have d: "drop (k + 1) (ei_timers ?s3) = drop (k + 1) (ei_timers s)"
      "take (k + 1) (ei_timers ?s3) = take k (ei_timers s) @ [ei_fired now ?t]"
      using s3(2) k Suc.prems(2) by (simp_all add: take_Suc_conv_app_nth)
    have "timerout_loop call [k..<n] s = map_option (\<lambda>(cs, s4). ((ei_timeout ?t, ei_timeout_arg ?t) # cs, s4))
        (timerout_loop call [k + 1..<n] ?s3)"
      unfolding up using True Suc.prems(3) s2(1) s'(1) by (simp add: ei_due_def Let_def)
    then show ?thesis using s' d s3(1) True unfolding dr
      by (intro exI [of _ s']) simp
  qed
qed

subsection \<open>Times as milliseconds\<close>

definition normal_time :: "app_timer \<Rightarrow> bool" where
  "normal_time t \<longleftrightarrow> app_timer_ms t < 1000"

definition total_ms :: "app_timer \<Rightarrow> nat" where
  "total_ms t = 1000 * unat (app_timer_second t) + unat (app_timer_ms t)"

lemma app_timer_cmp_total:
  assumes "normal_time a" "normal_time b"
  shows "app_timer_cmp a b = sgn (int (total_ms a) - int (total_ms b))"
proof -
  have m: "unat (app_timer_ms a) < 1000" "unat (app_timer_ms b) < 1000"
    using assms by (simp_all add: normal_time_def word_less_nat_alt)
  have sg: "sgn (int x - int y) = (if y < x then 1 else if x < y then - 1 else 0)" for x y :: nat by simp
  let ?c = "if total_ms b < total_ms a then 1 else if total_ms a < total_ms b then - 1 else 0 :: int"
  have "app_timer_cmp a b = ?c"
  proof (cases "unat (app_timer_second a)" "unat (app_timer_second b)" rule: linorder_cases)
    case less
    then have "total_ms a < total_ms b" using m by (simp add: total_ms_def)
    then show ?thesis using less by (simp add: app_timer_cmp_def word_less_nat_alt)
  next
    case greater
    then have "total_ms b < total_ms a" using m by (simp add: total_ms_def)
    then show ?thesis using greater by (simp add: app_timer_cmp_def word_less_nat_alt)
  next
    case equal
    then show ?thesis by (simp add: app_timer_cmp_def word_less_nat_alt total_ms_def)
  qed
  then show ?thesis by (simp only: sg)
qed

lemma app_timer_add_total:
  assumes "normal_time a" "unat n < 2 ^ 32 - 1000" "total_ms a + unat n < 1000 * 2 ^ 32"
  shows "normal_time (app_timer_add a n)" "total_ms (app_timer_add a n) = total_ms a + unat n"
proof -
  let ?m = "n + app_timer_ms a"
  have ma: "unat (app_timer_ms a) < 1000" using assms(1) by (simp add: normal_time_def word_less_nat_alt)
  then have m: "unat ?m = unat n + unat (app_timer_ms a)" using assms(2) by (simp add: unat_word_ariths)
  have d: "unat (?m div 1000) = unat ?m div 1000" "unat (?m mod 1000) = unat ?m mod 1000"
    by (simp_all add: unat_div unat_mod)
  show "normal_time (app_timer_add a n)"
    by (simp add: normal_time_def app_timer_add_def Let_def word_less_nat_alt d)
  have "1000 * (unat (app_timer_second a) + unat ?m div 1000) \<le> total_ms a + unat n"
    using m by (simp add: total_ms_def)
  then have "unat (app_timer_second a) + unat ?m div 1000 < 2 ^ 32" using assms(3) by simp
  then have "unat (app_timer_second a + ?m div 1000) = unat (app_timer_second a) + unat ?m div 1000"
    using d(1) by (simp add: unat_word_ariths)
  then show "total_ms (app_timer_add a n) = total_ms a + unat n"
    using m d by (simp add: total_ms_def app_timer_add_def Let_def)
qed

subsection \<open>Properties\<close>

text \<open>A system at its start, for the witnesses.\<close>

definition demo_system :: app_system where
  "demo_system = \<lparr>tm_app = demo_app, app_timer_data = app_timer0, ei_timers = replicate EI_TIMER_COUNT ei_timer0,
     system_timer_counter = [0, 0], feed_watchdog_cnt = 0\<rparr>"

lemma demo_system_start: "clock_at 0 demo_system" "hw_inv (tm_app demo_system)"
  using demo_app_hw by (simp_all add: demo_system_def clock_at_def app_timer0_def numeral_2_eq_2)



text \<open>
  Property C31.
  One check of the software timers: exactly the enabled timers whose time has passed have their
  functions called, once and in the order of the table; they start a new period, or are disabled
  when they are of the one-shot type, and all others are as before. A timer of \<open>n\<close> ticks started at a
  second is due \<open>k\<close> seconds later exactly when \<open>n < k\<close>, also when the seconds wrap around, so it
  runs for one second more than its ticks say.\<close>

theorem timerout_in_correct:
  assumes "leaves_timers call" "length (ei_timers s) = EI_TIMER_COUNT" "i < EI_TIMER_COUNT" "k < 2 ^ 32"
  shows "(\<exists>s'. timerout_in call s =
      Some (map (\<lambda>t. (ei_timeout t, ei_timeout_arg t))
        (filter (ei_due (app_timer_second (app_timer_data s))) (ei_timers s)), s') \<and>
     app_timer_data s' = app_timer_data s \<and>
     ei_timers s' = map (ei_fired (app_timer_second (app_timer_data s))) (ei_timers s)) \<and>
     (ei_due (app_timer_second (app_timer_data s) + of_nat k) (ei_timers (timer_start i s) ! i) \<longleftrightarrow>
        unat (ei_ticks (ei_timers s ! i)) < k)"
proof -
  have "ei_due (app_timer_second (app_timer_data s) + of_nat k) (ei_timers (timer_start i s) ! i) \<longleftrightarrow>
      unat (ei_ticks (ei_timers s ! i)) < k"
    using assms(2-4) by (simp add: timer_start_def ei_timer_at_def ei_due_def word_less_nat_alt
        unsigned_of_nat take_bit_nat_eq_self)
  moreover have "\<exists>s'. timerout_in call s =
      Some (map (\<lambda>t. (ei_timeout t, ei_timeout_arg t))
        (filter (ei_due (app_timer_second (app_timer_data s))) (ei_timers s)), s') \<and>
     app_timer_data s' = app_timer_data s \<and>
     ei_timers s' = map (ei_fired (app_timer_second (app_timer_data s))) (ei_timers s)"
    using timerout_loop_law [OF assms(1) _ assms(2) [symmetric] refl, of 0] by (simp add: timerout_in_def)
  ultimately show ?thesis by blast
qed

theorem timerout_in_correct_witness:
  "ei_due (app_timer_second (app_timer_data demo_system) + of_nat 1) (ei_timers (timer_start 2 demo_system) ! 2)"
proof -
  have "leaves_timers (\<lambda>f a s. Some s)" by (simp add: leaves_timers_def)
  from timerout_in_correct [OF this, of demo_system 2 1] show ?thesis
    by (simp add: demo_system_def ei_timer0_def)
qed

text \<open>A one-shot timer that its own timeout function starts again is disabled all the same.\<close>

lemma one_shot_restart_lost:
  assumes "ei_timers s = [t]" "ei_due (app_timer_second (app_timer_data s)) t" "ei_type t = EI_TIMER_TYPE_ONE"
  shows "\<exists>cs s'. timerout_loop (\<lambda>f a s. Some (timer_start 0 s)) [0] s = Some (cs, s') \<and> ei_enable (ei_timers s' ! 0) = 0"
  using assms by (simp add: ei_due_def timer_start_def ei_timer_at_def Let_def)

end
