(* ===== verification/CLib.thy ===== *)
theory CLib
  imports Prelude
begin

text \<open>What the application code uses of the C library's character classes.\<close>

definition is_space :: "u8 \<Rightarrow> bool" where
  "is_space c \<longleftrightarrow> 9 \<le> c \<and> c \<le> 13 \<or> c = 32"

text \<open>The code of a character literal.\<close>

definition ch :: "char \<Rightarrow> u8" where
  "ch c = of_char c"

end
