(* ===== verification/AtParse.thy ===== *)
theory AtParse
  imports CLib
begin

text \<open>
  \<^verbatim>\<open>bsp/easyio_core/atparse.c\<close>: the parser of AT command lines and the two functions that read
  its parameters. A pointer into the command is its index, the NULL that \<^verbatim>\<open>memset\<close> leaves is
  \<open>None\<close>; a store outside \<^verbatim>\<open>param[16]\<close> is undefined in C and ends the model with \<open>None\<close>.
\<close>

subsection \<open>Data (atparse.h)\<close>

datatype at_type = ATCMD_PARAM_STRING_TYPE | ATCMD_PARAM_INTEGER_TYPE

record atcmd_param =
  p_type :: at_type
  p_pos :: "nat option"

record atcmd_data =
  at_name :: "u8 list"
  param_count :: nat
  param :: "atcmd_param list"

datatype parser_status =
    PARSER_STATUS_INIT
  | PARSER_STATUS_RECV_A
  | PARSER_STATUS_RECV_T
  | PARSER_STATUS_RECV_PLUS
  | PARSER_STATUS_STARTPARSE
  | PARSER_STATUS_PARSE_STRING
  | PARSER_STATUS_PARSE_STRING_END
  | PARSER_STATUS_PARSE_INT
  | PARSER_STATUS_PARSE_END

abbreviation ATCMD_NAME_LENGTH :: nat where "ATCMD_NAME_LENGTH \<equiv> 16"

definition at_data0 :: atcmd_data where
  "at_data0 = \<lparr>at_name = replicate ATCMD_NAME_LENGTH 0, param_count = 0,
     param = replicate 16 \<lparr>p_type = ATCMD_PARAM_STRING_TYPE, p_pos = None\<rparr>\<rparr>"

definition upper :: "u8 \<Rightarrow> bool" where
  "upper c \<longleftrightarrow> ch (CHR ''A'') \<le> c \<and> c \<le> ch (CHR ''Z'')"

definition digit :: "u8 \<Rightarrow> bool" where
  "digit c \<longleftrightarrow> ch (CHR ''0'') \<le> c \<and> c \<le> ch (CHR ''9'')"

definition quote :: u8 where "quote = 0x22"

definition line_end :: "u8 \<Rightarrow> bool" where
  "line_end c \<longleftrightarrow> c = 0x0d \<or> c = 0x00"

subsection \<open>The parser\<close>

text \<open>\<^verbatim>\<open>ad->param[ad->param_count]\<close> is filled and counted.\<close>

definition push_param :: "at_type \<Rightarrow> nat \<Rightarrow> atcmd_data \<Rightarrow> atcmd_data option" where
  "push_param ty i ad =
     (if param_count ad < 16
      then Some (ad\<lparr>param := (param ad)[param_count ad := \<lparr>p_type = ty, p_pos = Some i\<rparr>],
                   param_count := param_count ad + 1\<rparr>)
      else None)"

text \<open>The loop at index \<open>i\<close>, with the characters from there on, the NUL included; \<open>k\<close> is
  \<^verbatim>\<open>appendname_index\<close>. The result is the value returned and the data filled.\<close>

fun parse_loop ::
  "parser_status \<Rightarrow> nat \<Rightarrow> u8 list \<Rightarrow> nat \<Rightarrow> atcmd_data \<Rightarrow> (int \<times> atcmd_data) option" where
  "parse_loop st i [] k ad = Some (- 1, ad)"
| "parse_loop st i (c # cs) k ad =
    (case st of
       PARSER_STATUS_INIT \<Rightarrow>
         if i = 0 \<and> c = ch (CHR ''A'') then parse_loop PARSER_STATUS_RECV_A (i + 1) cs k ad
         else if i = 0 \<and> c = ch (CHR ''+'') then parse_loop PARSER_STATUS_RECV_PLUS (i + 1) cs k ad
         else Some (- 1, ad)
     | PARSER_STATUS_RECV_A \<Rightarrow>
         if i = 1 \<and> c = ch (CHR ''T'') then parse_loop PARSER_STATUS_RECV_T (i + 1) cs k ad
         else Some (- 1, ad)
     | PARSER_STATUS_RECV_T \<Rightarrow>
         if i = 2 \<and> c = ch (CHR ''+'') then parse_loop PARSER_STATUS_RECV_PLUS (i + 1) cs k ad
         else Some (- 1, ad)
     | PARSER_STATUS_RECV_PLUS \<Rightarrow>
         if upper c then
           let ad = ad\<lparr>at_name := (at_name ad)[k := c]\<rparr>; k = k + 1
           in if k \<ge> ATCMD_NAME_LENGTH - 1 then Some (- 1, ad)
              else parse_loop PARSER_STATUS_RECV_PLUS (i + 1) cs k ad
         else if c = ch (CHR ''='') then parse_loop PARSER_STATUS_STARTPARSE (i + 1) cs k ad
         else if line_end c then parse_loop PARSER_STATUS_PARSE_END (i + 1) cs k ad
         else Some (- 1, ad)
     | PARSER_STATUS_STARTPARSE \<Rightarrow>
         if c = quote then
           do { ad \<leftarrow> push_param ATCMD_PARAM_STRING_TYPE i ad;
                parse_loop PARSER_STATUS_PARSE_STRING (i + 1) cs k ad }
         else if digit c then
           do { ad \<leftarrow> push_param ATCMD_PARAM_INTEGER_TYPE i ad;
                parse_loop PARSER_STATUS_PARSE_INT (i + 1) cs k ad }
         else Some (- 1, ad)
     | PARSER_STATUS_PARSE_STRING \<Rightarrow>
         if c = quote then parse_loop PARSER_STATUS_PARSE_STRING_END (i + 1) cs k ad
         else parse_loop PARSER_STATUS_PARSE_STRING (i + 1) cs k ad
     | PARSER_STATUS_PARSE_STRING_END \<Rightarrow>
         if c = ch (CHR '','') then parse_loop PARSER_STATUS_STARTPARSE (i + 1) cs k ad
         else if line_end c then Some (0, ad)
         else Some (- 1, ad)
     | PARSER_STATUS_PARSE_INT \<Rightarrow>
         if c = ch (CHR '','') then parse_loop PARSER_STATUS_STARTPARSE (i + 1) cs k ad
         else if line_end c then Some (0, ad)
         else if digit c then parse_loop PARSER_STATUS_PARSE_INT (i + 1) cs k ad
         else Some (- 1, ad)
     | PARSER_STATUS_PARSE_END \<Rightarrow> Some (0, ad))"

text \<open>\<open>at\<close> holds the characters in front of the NUL.\<close>

definition parse_at_cmd_string :: "u8 list \<Rightarrow> (int \<times> atcmd_data) option" where
  "parse_at_cmd_string at = parse_loop PARSER_STATUS_INIT 0 (at @ [0]) 0 at_data0"

subsection \<open>Reading a parameter\<close>

text \<open>\<^verbatim>\<open>memset(numstr, 8, 0x0)\<close> sets no byte, so \<^verbatim>\<open>numstr\<close> starts with what the stack holds there,
  \<open>stack\<close>; \<^verbatim>\<open>sscanf\<close> skips white space, takes a sign and reads the digits that follow. \<open>None\<close>: the
  number has no end in the eight bytes, or there is none and \<^verbatim>\<open>ret\<close> is returned as it was.\<close>

fun copy_digits :: "u8 list \<Rightarrow> nat \<Rightarrow> u8 list \<Rightarrow> nat \<Rightarrow> u8 list" where
  "copy_digits str i numstr 0 = numstr"
| "copy_digits str i numstr (Suc n) =
     (if \<not> digit ((str @ [0]) ! i) then numstr
      else copy_digits str (i + 1) (numstr[i := (str @ [0]) ! i]) n)"

fun decimal :: "u8 list \<Rightarrow> int \<Rightarrow> int" where
  "decimal [] n = n"
| "decimal (c # cs) n = decimal cs (10 * n + (uint c - 48))"

definition sscanf_d :: "u8 list \<Rightarrow> int option" where
  "sscanf_d s =
     (let s = dropWhile is_space s;
          neg = (s \<noteq> [] \<and> hd s = ch (CHR ''-''));
          s = (if s \<noteq> [] \<and> (neg \<or> hd s = ch (CHR ''+'')) then tl s else s);
          ds = takeWhile digit s
      in if ds = [] \<or> ds = s then None
         else Some (if neg then - decimal ds 0 else decimal ds 0))"

definition get_at_param_int :: "u8 list \<Rightarrow> atcmd_data \<Rightarrow> nat \<Rightarrow> u8 list \<Rightarrow> int option" where
  "get_at_param_int at ad idx stack =
     (case p_pos (param ad ! idx) of None \<Rightarrow> None
      | Some p \<Rightarrow> sscanf_d (copy_digits (drop p at) 0 stack 7))"

text \<open>The bytes stored into \<^verbatim>\<open>outstrbuf\<close>, whose length is not looked at, and whether the buffer
  is returned (or NULL).\<close>

fun copy_string :: "u8 list \<Rightarrow> u8 list" where
  "copy_string [] = []"
| "copy_string (c # cs) = (if c = quote then [] else c # copy_string cs)"

definition get_at_param_string :: "u8 list \<Rightarrow> atcmd_data \<Rightarrow> nat \<Rightarrow> (bool \<times> u8 list) option" where
  "get_at_param_string at ad idx =
     (case p_pos (param ad ! idx) of None \<Rightarrow> None
      | Some p \<Rightarrow>
          let str = drop p at in
          if (str @ [0]) ! 0 \<noteq> quote then Some (False, [0])
          else Some (True, copy_string (tl str) @ [0]))"

subsection \<open>Command lines\<close>

datatype at_arg = Str "u8 list" | Num "u8 list"

fun print_arg :: "at_arg \<Rightarrow> u8 list" where
  "print_arg (Str w) = quote # w @ [quote]"
| "print_arg (Num ds) = ds"

fun arg_type :: "at_arg \<Rightarrow> at_type" where
  "arg_type (Str w) = ATCMD_PARAM_STRING_TYPE"
| "arg_type (Num ds) = ATCMD_PARAM_INTEGER_TYPE"

fun arg_ok :: "at_arg \<Rightarrow> bool" where
  "arg_ok (Str w) \<longleftrightarrow> quote \<notin> set w"
| "arg_ok (Num ds) \<longleftrightarrow> ds \<noteq> [] \<and> list_all digit ds"

fun print_more :: "at_arg list \<Rightarrow> u8 list" where
  "print_more [] = []"
| "print_more (a # as) = ch (CHR '','') # print_arg a @ print_more as"

text \<open>The parameters found when the first begins at index \<open>i\<close>.\<close>

fun place_args :: "nat \<Rightarrow> at_arg list \<Rightarrow> atcmd_param list" where
  "place_args i [] = []"
| "place_args i (a # as) = \<lparr>p_type = arg_type a, p_pos = Some i\<rparr> # place_args (i + length (print_arg a) + 1) as"

definition add_args :: "nat \<Rightarrow> at_arg list \<Rightarrow> atcmd_data \<Rightarrow> atcmd_data" where
  "add_args i as ad = ad\<lparr>param := take (param_count ad) (param ad) @ place_args i as @
       drop (param_count ad + length as) (param ad), param_count := param_count ad + length as\<rparr>"

definition ends :: "u8 list \<Rightarrow> bool" where
  "ends t \<longleftrightarrow> t \<noteq> [] \<and> line_end (hd t)"

lemma length_place_args [simp]: "length (place_args i as) = length as"
  by (induction i as rule: place_args.induct) simp_all

lemma add_args_Nil [simp]: "add_args i [] ad = ad"
  by (simp add: add_args_def)

lemma add_args_Cons:
  assumes "length (param ad) = 16" "push_param (arg_type a) i ad = Some ad'"
  shows "add_args i (a # as) ad = add_args (i + length (print_arg a) + 1) as ad'"
  using assms by (auto simp: add_args_def push_param_def upd_conv_take_nth_drop add.commute split: if_splits)

lemma ch_simps:
  "ch (CHR ''A'') = 65" "ch (CHR ''Z'') = 90" "ch (CHR ''T'') = 84" "ch (CHR ''+'') = 43"
  "ch (CHR ''='') = 61" "ch (CHR '','') = 44" "ch (CHR ''0'') = 48" "ch (CHR ''9'') = 57"
  by (simp_all add: ch_def)

lemma ch_class [simp]:
  "\<not> digit 0" "\<not> digit 13" "\<not> digit 44" "\<not> digit quote" "\<not> upper 0" "\<not> upper 13" "\<not> upper 61"
  "\<not> line_end 44" "line_end 0" "line_end 13" "quote \<noteq> 0" "0 \<noteq> quote" "quote \<noteq> 44" "\<not> line_end 61"
  by (simp_all add: digit_def upper_def line_end_def quote_def ch_simps word_le_def)

lemma digit_no: "digit c \<Longrightarrow> c \<noteq> 44 \<and> c \<noteq> quote \<and> \<not> line_end c"
  by (auto simp: line_end_def)

lemma upper_no: "upper c \<Longrightarrow> c \<noteq> 61 \<and> \<not> line_end c"
  by (auto simp: line_end_def)

lemma push_param_props:
  assumes "push_param ty i ad = Some ad'"
  shows "param_count ad' = param_count ad + 1" "length (param ad') = length (param ad)" "param_count ad < 16"
  using assms by (auto simp: push_param_def split: if_splits)

subsection \<open>What is printed is parsed\<close>

lemma parse_digits:
  assumes "list_all digit ds"
  shows "parse_loop PARSER_STATUS_PARSE_INT i (ds @ cs) k ad =
     parse_loop PARSER_STATUS_PARSE_INT (i + length ds) cs k ad"
  using assms by (induction ds arbitrary: i) (auto simp: ch_simps dest: digit_no)

lemma parse_chars:
  assumes "quote \<notin> set w"
  shows "parse_loop PARSER_STATUS_PARSE_STRING i (w @ cs) k ad =
     parse_loop PARSER_STATUS_PARSE_STRING (i + length w) cs k ad"
  using assms by (induction w arbitrary: i) auto

lemma parse_arg:
  assumes "arg_ok a" "push_param (arg_type a) i ad = Some ad'"
  shows "\<exists>st \<in> {PARSER_STATUS_PARSE_STRING_END, PARSER_STATUS_PARSE_INT}.
     parse_loop PARSER_STATUS_STARTPARSE i (print_arg a @ cs) k ad =
     parse_loop st (i + length (print_arg a)) cs k ad'"
proof (cases a)
  case (Str w)
  then show ?thesis using assms by (simp add: parse_chars)
next
  case (Num ds)
  then obtain d ds' where ds: "ds = d # ds'" "digit d" "list_all digit ds'" using assms(1) by (cases ds) auto
  then have "d \<noteq> quote" using digit_no by blast
  then show ?thesis using assms Num ds by (simp add: parse_digits)
qed

lemma parse_more:
  assumes "list_all arg_ok as" "param_count ad + length as \<le> 16" "length (param ad) = 16" "ends t"
    and "st \<in> {PARSER_STATUS_PARSE_STRING_END, PARSER_STATUS_PARSE_INT}"
  shows "parse_loop st i (print_more as @ t) k ad = Some (0, add_args (i + 1) as ad)"
  using assms
proof (induction as arbitrary: st i ad)
  case Nil
  then obtain c t' where t: "t = c # t'" "line_end c" by (cases t) (auto simp: ends_def)
  then have "c \<noteq> 44" by auto
  then have "c \<noteq> ch (CHR '','')" by (simp only: ch_simps not_False_eq_True)
  then show ?case using Nil.prems(5) t by (elim insertE emptyE) simp_all
next
  case (Cons a as)
  define ad' where "ad' = ad\<lparr>param := (param ad)[param_count ad := \<lparr>p_type = arg_type a, p_pos = Some (i + 1)\<rparr>],
    param_count := param_count ad + 1\<rparr>"
  have p: "push_param (arg_type a) (i + 1) ad = Some ad'"
    using Cons.prems by (simp add: push_param_def ad'_def)
  obtain st' where st': "st' \<in> {PARSER_STATUS_PARSE_STRING_END, PARSER_STATUS_PARSE_INT}"
    "parse_loop PARSER_STATUS_STARTPARSE (i + 1) (print_arg a @ print_more as @ t) k ad =
     parse_loop st' (i + 1 + length (print_arg a)) (print_more as @ t) k ad'"
    using parse_arg [OF _ p, of "print_more as @ t" k] Cons.prems by auto
  have "parse_loop st i (print_more (a # as) @ t) k ad =
      parse_loop PARSER_STATUS_STARTPARSE (i + 1) (print_arg a @ print_more as @ t) k ad"
    using Cons.prems(5) by (elim insertE emptyE) simp_all
  also have "\<dots> = Some (0, add_args (i + 1 + length (print_arg a) + 1) as ad')"
    using Cons.IH [of ad' st' "i + 1 + length (print_arg a)"] Cons.prems st' push_param_props [OF p] by simp
  also have "add_args (i + 1 + length (print_arg a) + 1) as ad' = add_args (i + 1) (a # as) ad"
    using add_args_Cons [OF Cons.prems(3) p, of as] by simp
  finally show ?case .
qed

lemma parse_args:
  assumes "as \<noteq> []" "list_all arg_ok as" "param_count ad + length as \<le> 16" "length (param ad) = 16" "ends t"
  shows "parse_loop PARSER_STATUS_STARTPARSE i (tl (print_more as) @ t) k ad = Some (0, add_args i as ad)"
proof -
  obtain a as' where as: "as = a # as'" using assms(1) by (cases as) auto
  define ad' where "ad' = ad\<lparr>param := (param ad)[param_count ad := \<lparr>p_type = arg_type a, p_pos = Some i\<rparr>],
    param_count := param_count ad + 1\<rparr>"
  have p: "push_param (arg_type a) i ad = Some ad'" using assms as by (simp add: push_param_def ad'_def)
  obtain st where st: "st \<in> {PARSER_STATUS_PARSE_STRING_END, PARSER_STATUS_PARSE_INT}"
    "parse_loop PARSER_STATUS_STARTPARSE i (print_arg a @ print_more as' @ t) k ad =
     parse_loop st (i + length (print_arg a)) (print_more as' @ t) k ad'"
    using parse_arg [OF _ p, of "print_more as' @ t" k] assms(2) as by auto
  have "parse_loop st (i + length (print_arg a)) (print_more as' @ t) k ad' =
      Some (0, add_args (i + length (print_arg a) + 1) as' ad')"
    using parse_more [of as' ad' t st] assms as st push_param_props [OF p] by simp
  then show ?thesis using st(2) add_args_Cons [OF assms(4) p, of as'] as by simp
qed

lemma parse_name:
  assumes "list_all upper nm" "k + length nm \<le> 14" "length (at_name ad) = 16"
  shows "parse_loop PARSER_STATUS_RECV_PLUS i (nm @ cs) k ad =
     parse_loop PARSER_STATUS_RECV_PLUS (i + length nm) cs (k + length nm)
       (ad\<lparr>at_name := take k (at_name ad) @ nm @ drop (k + length nm) (at_name ad)\<rparr>)"
  using assms
proof (induction nm arbitrary: i k ad)
  case (Cons c nm)
  have "(at_name ad)[k := c] = take k (at_name ad) @ c # drop (k + 1) (at_name ad)"
    using Cons.prems by (simp add: upd_conv_take_nth_drop)
  then show ?case using Cons.IH [of "k + 1" "ad\<lparr>at_name := (at_name ad)[k := c]\<rparr>" "i + 1"] Cons.prems
    by (simp add: add.commute)
qed simp

definition command_line :: "u8 list \<Rightarrow> u8 list \<Rightarrow> at_arg list \<Rightarrow> nat \<Rightarrow> bool" where
  "command_line s nm as p \<longleftrightarrow>
     (\<exists>pre t. (pre = map ch ''AT+'' \<or> pre = map ch ''+'') \<and> list_all upper nm \<and> length nm \<le> 14 \<and>
        list_all arg_ok as \<and> length as \<le> 16 \<and> p = length pre + length nm + 1 \<and>
        s = pre @ nm @ (if as = [] then [] else ch (CHR ''='') # tl (print_more as)) @ t \<and>
        (t = [] \<and> as \<noteq> [] \<or> (\<exists>r. t = 13 # r)))"

definition parsed :: "u8 list \<Rightarrow> at_arg list \<Rightarrow> nat \<Rightarrow> atcmd_data" where
  "parsed nm as p = add_args p as (at_data0\<lparr>at_name := nm @ replicate (16 - length nm) 0\<rparr>)"

lemma parse_pre:
  assumes "pre = map ch ''AT+'' \<or> pre = map ch ''+''"
  shows "parse_loop PARSER_STATUS_INIT 0 (pre @ cs) 0 ad = parse_loop PARSER_STATUS_RECV_PLUS (length pre) cs 0 ad"
  using assms by (auto simp: ch_simps)

lemma parse_line:
  assumes "command_line s nm as p"
  shows "parse_at_cmd_string s = Some (0, parsed nm as p)"
proof -
  from assms obtain pre t where pre: "pre = map ch ''AT+'' \<or> pre = map ch ''+''"
    and nm: "list_all upper nm" "length nm \<le> 14" and as: "list_all arg_ok as" "length as \<le> 16"
    and p: "p = length pre + length nm + 1"
    and s: "s = pre @ nm @ (if as = [] then [] else ch (CHR ''='') # tl (print_more as)) @ t"
    and t: "t = [] \<and> as \<noteq> [] \<or> (\<exists>r. t = 13 # r)"
    unfolding command_line_def by blast
  let ?ad = "at_data0\<lparr>at_name := nm @ replicate (16 - length nm) 0\<rparr>"
  have "at_data0\<lparr>at_name := take 0 (at_name at_data0) @ nm @ drop (0 + length nm) (at_name at_data0)\<rparr> = ?ad"
    by (simp add: at_data0_def)
  then have n: "parse_loop PARSER_STATUS_INIT 0 (s @ [0]) 0 at_data0 =
      parse_loop PARSER_STATUS_RECV_PLUS (length pre + length nm)
        ((if as = [] then [] else ch (CHR ''='') # tl (print_more as)) @ t @ [0]) (length nm) ?ad"
    using parse_pre [OF pre] parse_name [OF nm(1), of 0 at_data0 "length pre"] nm(2)
    by (simp add: s at_data0_def)
  show ?thesis
  proof (cases "as = []")
    case True
    then obtain r where "t = 13 # r" using t by blast
    then show ?thesis using n True by (cases r) (simp_all add: parse_at_cmd_string_def parsed_def ch_simps split: list.split)
  next
    case False
    have "ends (t @ [0])" using t by (auto simp: ends_def)
    then have "parse_loop PARSER_STATUS_STARTPARSE p (tl (print_more as) @ t @ [0]) (length nm) ?ad =
        Some (0, add_args p as ?ad)"
      using False as by (intro parse_args) (simp_all add: at_data0_def)
    then show ?thesis using n False p by (simp add: parse_at_cmd_string_def parsed_def ch_simps)
  qed
qed

subsection \<open>What is parsed was printed\<close>

text \<open>What must still stand in the line for the parser to succeed in a status.\<close>

fun accepts :: "parser_status \<Rightarrow> nat \<Rightarrow> u8 list \<Rightarrow> atcmd_data \<Rightarrow> atcmd_data \<Rightarrow> bool" where
  "accepts PARSER_STATUS_STARTPARSE i cs ad ad' \<longleftrightarrow>
     (\<exists>as t. as \<noteq> [] \<and> list_all arg_ok as \<and> param_count ad + length as \<le> 16 \<and> ends t \<and>
        cs = tl (print_more as) @ t \<and> ad' = add_args i as ad)"
| "accepts PARSER_STATUS_PARSE_STRING i cs ad ad' \<longleftrightarrow>
     (\<exists>w as t. quote \<notin> set w \<and> list_all arg_ok as \<and> param_count ad + length as \<le> 16 \<and> ends t \<and>
        cs = w @ quote # print_more as @ t \<and> ad' = add_args (i + length w + 2) as ad)"
| "accepts PARSER_STATUS_PARSE_STRING_END i cs ad ad' \<longleftrightarrow>
     (\<exists>as t. list_all arg_ok as \<and> param_count ad + length as \<le> 16 \<and> ends t \<and>
        cs = print_more as @ t \<and> ad' = add_args (i + 1) as ad)"
| "accepts PARSER_STATUS_PARSE_INT i cs ad ad' \<longleftrightarrow>
     (\<exists>ds as t. list_all digit ds \<and> list_all arg_ok as \<and> param_count ad + length as \<le> 16 \<and> ends t \<and>
        cs = ds @ print_more as @ t \<and> ad' = add_args (i + length ds + 1) as ad)"
| "accepts _ i cs ad ad' \<longleftrightarrow> True"

lemma accepts_more:
  assumes "accepts PARSER_STATUS_STARTPARSE (i + 1) cs ad ad'" "param_count ad \<le> 16"
  shows "\<exists>as t. list_all arg_ok as \<and> param_count ad + length as \<le> 16 \<and> ends t \<and>
        44 # cs = print_more as @ t \<and> ad' = add_args (i + 1) as ad"
proof -
  from assms(1) obtain as t where a: "as \<noteq> []" "list_all arg_ok as" "param_count ad + length as \<le> 16" "ends t"
    "cs = tl (print_more as) @ t" "ad' = add_args (i + 1) as ad" by auto
  have "44 # cs = print_more as @ t" using a(1,5) by (cases as) (simp_all add: ch_simps)
  then show ?thesis using a by blast
qed

lemma accepts_end: "line_end c \<Longrightarrow> param_count ad \<le> 16 \<Longrightarrow> \<exists>as t. list_all arg_ok as \<and>
    param_count ad + length as \<le> 16 \<and> ends t \<and> c # cs = print_more as @ t \<and> ad = add_args i as ad"
  by (intro exI [of _ "[]"] exI [of _ "c # cs"]) (simp add: ends_def)

lemma sound_string:
  assumes "accepts PARSER_STATUS_PARSE_STRING (i + 1) cs ad ad'" "c \<noteq> quote"
  shows "accepts PARSER_STATUS_PARSE_STRING i (c # cs) ad ad'"
proof -
  from assms(1) obtain w as t where a: "quote \<notin> set w" "list_all arg_ok as" "param_count ad + length as \<le> 16" "ends t"
    "cs = w @ quote # print_more as @ t" "ad' = add_args (i + 1 + length w + 2) as ad"
    unfolding accepts.simps by blast
  have "quote \<notin> set (c # w)" "c # cs = (c # w) @ quote # print_more as @ t"
    "ad' = add_args (i + length (c # w) + 2) as ad"
    using a assms(2) by simp_all
  then show ?thesis unfolding accepts.simps using a(2-4) by blast
qed

lemma sound_digit:
  assumes "accepts PARSER_STATUS_PARSE_INT (i + 1) cs ad ad'" "digit c"
  shows "accepts PARSER_STATUS_PARSE_INT i (c # cs) ad ad'"
proof -
  from assms(1) obtain ds as t where a: "list_all digit ds" "list_all arg_ok as" "param_count ad + length as \<le> 16" "ends t"
    "cs = ds @ print_more as @ t" "ad' = add_args (i + 1 + length ds + 1) as ad"
    unfolding accepts.simps by blast
  have "list_all digit (c # ds)" "c # cs = (c # ds) @ print_more as @ t"
    "ad' = add_args (i + length (c # ds) + 1) as ad"
    using a assms(2) by simp_all
  then show ?thesis unfolding accepts.simps using a(2-4) by blast
qed

lemma sound_string_start:
  assumes "accepts PARSER_STATUS_PARSE_STRING (i + 1) cs ad1 ad'" "length (param ad) = 16"
    and p: "push_param ATCMD_PARAM_STRING_TYPE i ad = Some ad1"
  shows "accepts PARSER_STATUS_STARTPARSE i (quote # cs) ad ad'"
proof -
  from assms(1) obtain w as t where a: "quote \<notin> set w" "list_all arg_ok as" "param_count ad1 + length as \<le> 16" "ends t"
    "cs = w @ quote # print_more as @ t" "ad' = add_args (i + 1 + length w + 2) as ad1"
    unfolding accepts.simps by blast
  have "ad' = add_args i (Str w # as) ad" using add_args_Cons [OF assms(2), of "Str w" i ad1 as] p a(6) by simp
  moreover have "quote # cs = tl (print_more (Str w # as)) @ t" using a(5) by simp
  moreover have "list_all arg_ok (Str w # as)" "param_count ad + length (Str w # as) \<le> 16"
    using a push_param_props [OF p] by simp_all
  ultimately show ?thesis unfolding accepts.simps using a(4) by blast
qed

lemma sound_int_start:
  assumes "accepts PARSER_STATUS_PARSE_INT (i + 1) cs ad1 ad'" "length (param ad) = 16" "digit d"
    and p: "push_param ATCMD_PARAM_INTEGER_TYPE i ad = Some ad1"
  shows "accepts PARSER_STATUS_STARTPARSE i (d # cs) ad ad'"
proof -
  from assms(1) obtain ds as t where a: "list_all digit ds" "list_all arg_ok as" "param_count ad1 + length as \<le> 16" "ends t"
    "cs = ds @ print_more as @ t" "ad' = add_args (i + 1 + length ds + 1) as ad1"
    unfolding accepts.simps by blast
  have "ad' = add_args i (Num (d # ds) # as) ad" using add_args_Cons [OF assms(2), of "Num (d # ds)" i ad1 as] p a(6) by simp
  moreover have "d # cs = tl (print_more (Num (d # ds) # as)) @ t" using a(5) by simp
  moreover have "list_all arg_ok (Num (d # ds) # as)" "param_count ad + length (Num (d # ds) # as) \<le> 16"
    using a assms(3) push_param_props [OF p] by simp_all
  ultimately show ?thesis unfolding accepts.simps using a(4) by blast
qed

lemma parse_sound:
  assumes "parse_loop st i cs k ad = Some (0, ad')" "param_count ad \<le> 16" "length (param ad) = 16"
  shows "accepts st i cs ad ad'"
  using assms
proof (induction cs arbitrary: st i k ad)
  case (Cons c cs)
  note more = Cons.IH [of PARSER_STATUS_STARTPARSE "i + 1" k ad, THEN accepts_more [OF _ Cons.prems(2)],
      OF _ Cons.prems(2,3)]
  show ?case
  proof (cases st)
    case PARSER_STATUS_STARTPARSE
    consider (s) ad1 where "c = quote" "push_param ATCMD_PARAM_STRING_TYPE i ad = Some ad1"
        "parse_loop PARSER_STATUS_PARSE_STRING (i + 1) cs k ad1 = Some (0, ad')"
      | (n) ad1 where "digit c" "push_param ATCMD_PARAM_INTEGER_TYPE i ad = Some ad1"
        "parse_loop PARSER_STATUS_PARSE_INT (i + 1) cs k ad1 = Some (0, ad')"
      using Cons.prems(1) PARSER_STATUS_STARTPARSE by (auto split: if_splits)
    then show ?thesis
    proof cases
      case s
      then show ?thesis unfolding PARSER_STATUS_STARTPARSE
        using sound_string_start [OF Cons.IH [OF s(3)] Cons.prems(3) s(2)] push_param_props [OF s(2)] Cons.prems(3) by simp
    next
      case n
      then show ?thesis unfolding PARSER_STATUS_STARTPARSE
        using sound_int_start [OF Cons.IH [OF n(3)] Cons.prems(3) n(1,2)] push_param_props [OF n(2)] Cons.prems(3) by simp
    qed
  next
    case PARSER_STATUS_PARSE_STRING
    show ?thesis
    proof (cases "c = quote")
      case True
      then have "accepts PARSER_STATUS_PARSE_STRING_END (i + 1) cs ad ad'"
        using Cons.IH [of PARSER_STATUS_PARSE_STRING_END "i + 1" k ad] Cons.prems PARSER_STATUS_PARSE_STRING by simp
      then obtain as t where a: "list_all arg_ok as" "param_count ad + length as \<le> 16" "ends t"
        "cs = print_more as @ t" "ad' = add_args (i + 1 + 1) as ad" unfolding accepts.simps by blast
      have "quote \<notin> set []" "c # cs = [] @ quote # print_more as @ t" "ad' = add_args (i + length [] + 2) as ad"
        using a True by simp_all
      then show ?thesis unfolding PARSER_STATUS_PARSE_STRING accepts.simps using a(1-3) by blast
    next
      case False
      then show ?thesis unfolding PARSER_STATUS_PARSE_STRING
        using Cons.IH [of PARSER_STATUS_PARSE_STRING "i + 1" k ad] Cons.prems PARSER_STATUS_PARSE_STRING
        by (intro sound_string) simp_all
    qed
  next
    case PARSER_STATUS_PARSE_STRING_END
    then show ?thesis using Cons.prems more accepts_end [of c ad cs "i + 1"]
      by (auto simp: ch_simps split: if_splits)
  next
    case PARSER_STATUS_PARSE_INT
    consider (nxt) "c = 44" "parse_loop PARSER_STATUS_STARTPARSE (i + 1) cs k ad = Some (0, ad')"
      | (fin) "line_end c" "ad' = ad"
      | (dig) "digit c" "parse_loop PARSER_STATUS_PARSE_INT (i + 1) cs k ad = Some (0, ad')"
      using Cons.prems(1) PARSER_STATUS_PARSE_INT by (auto simp: ch_simps split: if_splits)
    then show ?thesis
    proof cases
      case dig
      then show ?thesis unfolding PARSER_STATUS_PARSE_INT
        using Cons.IH [of PARSER_STATUS_PARSE_INT "i + 1" k ad] Cons.prems by (intro sound_digit) simp_all
    next
      case nxt
      then show ?thesis unfolding PARSER_STATUS_PARSE_INT accepts.simps
        using more [OF nxt(2)] by - (rule exI [of _ "[]"], simp)
    next
      case fin
      then show ?thesis unfolding PARSER_STATUS_PARSE_INT accepts.simps
        using accepts_end [of c ad cs "i + 1"] Cons.prems(2) by - (rule exI [of _ "[]"], simp)
    qed
  qed simp_all
qed simp

definition named :: "nat \<Rightarrow> u8 list \<Rightarrow> atcmd_data \<Rightarrow> atcmd_data" where
  "named k nm ad = ad\<lparr>at_name := take k (at_name ad) @ nm @ drop (k + length nm) (at_name ad)\<rparr>"

lemma named_Cons:
  "k < length (at_name ad) \<Longrightarrow> named (k + 1) nm (ad\<lparr>at_name := (at_name ad)[k := c]\<rparr>) = named k (c # nm) ad"
  by (simp add: named_def upd_conv_take_nth_drop add.commute)

lemma named_Nil [simp]: "named k [] ad = ad"
  by (simp add: named_def)

lemma sound_name:
  assumes "parse_loop PARSER_STATUS_RECV_PLUS i cs k ad = Some (0, ad')" "k \<le> 14"
    "length (at_name ad) = 16" "length (param ad) = 16" "param_count ad = 0"
  shows "\<exists>nm as t. list_all upper nm \<and> k + length nm \<le> 14 \<and> list_all arg_ok as \<and> length as \<le> 16 \<and>
     cs = nm @ (if as = [] then [] else ch (CHR ''='') # tl (print_more as)) @ t \<and>
     ends t \<and> (as = [] \<longrightarrow> tl t \<noteq> []) \<and> ad' = add_args (i + length nm + 1) as (named k nm ad)"
  using assms
proof (induction cs arbitrary: i k ad)
  case (Cons c cs)
  consider (up) "upper c" "k + 1 \<le> 14"
      "parse_loop PARSER_STATUS_RECV_PLUS (i + 1) cs (k + 1) (ad\<lparr>at_name := (at_name ad)[k := c]\<rparr>) = Some (0, ad')"
    | (eq) "c = ch (CHR ''='')" "parse_loop PARSER_STATUS_STARTPARSE (i + 1) cs k ad = Some (0, ad')"
    | (fin) "line_end c" "parse_loop PARSER_STATUS_PARSE_END (i + 1) cs k ad = Some (0, ad')"
    using Cons.prems(1) by (auto simp: Let_def split: if_splits)
  then show ?case
  proof cases
    case up
    obtain nm as t where a: "list_all upper nm" "k + 1 + length nm \<le> 14" "list_all arg_ok as" "length as \<le> 16"
      "cs = nm @ (if as = [] then [] else ch (CHR ''='') # tl (print_more as)) @ t" "ends t" "as = [] \<longrightarrow> tl t \<noteq> []"
      "ad' = add_args (i + 1 + length nm + 1) as (named (k + 1) nm (ad\<lparr>at_name := (at_name ad)[k := c]\<rparr>))"
      using Cons.IH [OF up(3)] up(2) Cons.prems by auto
    have n: "named (k + 1) nm (ad\<lparr>at_name := (at_name ad)[k := c]\<rparr>) = named k (c # nm) ad"
      by (rule named_Cons) (use Cons.prems in simp)
    have "list_all upper (c # nm)" "k + length (c # nm) \<le> 14"
      "c # cs = (c # nm) @ (if as = [] then [] else ch (CHR ''='') # tl (print_more as)) @ t"
      "ad' = add_args (i + length (c # nm) + 1) as (named k (c # nm) ad)"
      using a up(1) n by simp_all
    then show ?thesis using a(3,4,6,7) by blast
  next
    case eq
    obtain as t where a: "as \<noteq> []" "list_all arg_ok as" "length as \<le> 16" "ends t"
      "cs = tl (print_more as) @ t" "ad' = add_args (i + 1) as ad"
      using parse_sound [OF eq(2)] Cons.prems by auto
    then show ?thesis using eq(1) Cons.prems(2) by - (rule exI [of _ "[]"], auto)
  next
    case fin
    have "cs \<noteq> [] \<and> ad' = ad" using fin(2) by (cases cs) simp_all
    then show ?thesis using fin(1) Cons.prems(2)
      by - (rule exI [of _ "[]"], rule exI [of _ "[]"], rule exI [of _ "c # cs"], simp add: ends_def)
  qed
qed simp

lemma sound_pre:
  assumes "parse_loop PARSER_STATUS_INIT 0 cs 0 ad = Some (0, ad')"
  shows "\<exists>pre r. (pre = map ch ''AT+'' \<or> pre = map ch ''+'') \<and> cs = pre @ r \<and>
     parse_loop PARSER_STATUS_RECV_PLUS (length pre) r 0 ad = Some (0, ad')"
proof (cases cs)
  case (Cons c r)
  show ?thesis
  proof (cases "c = ch (CHR ''A'')")
    case True
    obtain r' where "r = ch (CHR ''T'') # ch (CHR ''+'') # r'" "parse_loop PARSER_STATUS_RECV_PLUS 3 r' 0 ad = Some (0, ad')"
      using assms Cons True
      by (cases r; cases "tl r") (auto split: if_splits simp: numeral_3_eq_3 numeral_2_eq_2)
    then show ?thesis using Cons True by (intro exI [of _ "map ch ''AT+''"] exI [of _ r']) (simp add: numeral_3_eq_3)
  next
    case False
    then have "c = ch (CHR ''+'')" "parse_loop PARSER_STATUS_RECV_PLUS 1 r 0 ad = Some (0, ad')"
      using assms Cons by (auto split: if_splits)
    then show ?thesis using Cons by (intro exI [of _ "map ch ''+''"] exI [of _ r]) simp
  qed
qed (use assms in simp)

lemma append_last_split:
  assumes "x @ t = s @ [z]" "t \<noteq> []"
  shows "\<exists>t'. t = t' @ [z] \<and> s = x @ t'"
  using assms by (cases t rule: rev_cases) auto

lemma parse_complete:
  assumes "parse_at_cmd_string s = Some (0, ad)" "0 \<notin> set s"
  shows "\<exists>nm as p. command_line s nm as p \<and> ad = parsed nm as p"
proof -
  obtain pre r where pre: "pre = map ch ''AT+'' \<or> pre = map ch ''+''" "s @ [0] = pre @ r"
    and r: "parse_loop PARSER_STATUS_RECV_PLUS (length pre) r 0 at_data0 = Some (0, ad)"
    using sound_pre assms(1) unfolding parse_at_cmd_string_def by blast
  obtain nm as t where a: "list_all upper nm" "0 + length nm \<le> 14" "list_all arg_ok as" "length as \<le> 16"
    "r = nm @ (if as = [] then [] else ch (CHR ''='') # tl (print_more as)) @ t" "ends t" "as = [] \<longrightarrow> tl t \<noteq> []"
    "ad = add_args (length pre + length nm + 1) as (named 0 nm at_data0)"
    using sound_name [OF r] by (auto simp: at_data0_def)
  let ?b = "nm @ (if as = [] then [] else ch (CHR ''='') # tl (print_more as))"
  have e: "(pre @ ?b) @ t = s @ [0]" and n: "t \<noteq> []" using pre(2) a(5,6) by (simp_all add: ends_def)
  obtain t' where t: "t = t' @ [0]" "s = (pre @ ?b) @ t'" using append_last_split [OF e n] by (elim exE conjE)
  have "t' = [] \<and> as \<noteq> [] \<or> (\<exists>r. t' = 13 # r)"
    using t a(6,7) assms(2) by (cases t') (auto simp: ends_def line_end_def)
  moreover have "named 0 nm at_data0 = at_data0\<lparr>at_name := nm @ replicate (16 - length nm) 0\<rparr>"
    by (simp add: named_def at_data0_def)
  ultimately have "command_line s nm as (length pre + length nm + 1)" "ad = parsed nm as (length pre + length nm + 1)"
    unfolding command_line_def parsed_def using pre(1) a t(2)
    by - (rule exI [of _ pre], rule exI [of _ t'], simp, simp)
  then show ?thesis by blast
qed

subsection \<open>Reading what was parsed\<close>

lemma drop_past: "drop (length xs + Suc k) (xs @ y # ys) = drop k ys"
  by simp

lemma place_at:
  assumes "j < length as"
  shows "\<exists>q \<ge> i. place_args i as ! j = \<lparr>p_type = arg_type (as ! j), p_pos = Some q\<rparr> \<and>
     drop (q - i) (tl (print_more as) @ t) = print_arg (as ! j) @ print_more (drop (Suc j) as) @ t"
  using assms
proof (induction as arbitrary: i j)
  case (Cons a as)
  show ?case
  proof (cases j)
    case 0
    then show ?thesis by (intro exI [of _ i]) simp
  next
    case (Suc j')
    then have j': "j' < length as" using Cons.prems by simp
    let ?i = "i + length (print_arg a) + 1"
    obtain q where q: "?i \<le> q" "place_args ?i as ! j' = \<lparr>p_type = arg_type (as ! j'), p_pos = Some q\<rparr>"
      "drop (q - ?i) (tl (print_more as) @ t) = print_arg (as ! j') @ print_more (drop (Suc j') as) @ t"
      using Cons.IH [OF j'] by blast
    obtain c r where r: "print_more as = c # r" using j' by (cases as) auto
    have "drop (q - i) (print_arg a @ c # r @ t) = drop (q - ?i) (r @ t)"
    proof -
      have e: "q - i = length (print_arg a) + Suc (q - ?i)" using q(1) by simp
      show ?thesis unfolding e by (rule drop_past)
    qed
    then show ?thesis using q Suc r by (intro exI [of _ q]) simp
  qed
qed simp

lemma copy_string_quote: "quote \<notin> set w \<Longrightarrow> copy_string (w @ quote # r) = w"
  by (induction w) auto

lemma copy_digits_all:
  assumes "list_all digit ds" "r = [] \<or> \<not> digit (hd r)" "length numstr = 8" "i + n \<le> 8"
    and "str = pre @ ds @ r" "length pre = i"
  shows "copy_digits str i numstr n = take i numstr @ take n ds @ drop (i + min n (length ds)) numstr"
  using assms
proof (induction n arbitrary: i ds numstr pre)
  case (Suc n)
  show ?case
  proof (cases ds)
    case Nil
    have "\<not> digit ((str @ [0]) ! i)" using Suc.prems Nil by (cases r) (simp_all add: nth_append)
    then show ?thesis using Nil by simp
  next
    case (Cons d ds')
    have d: "(str @ [0]) ! i = d" "digit d" using Suc.prems Cons by (simp_all add: nth_append)
    have "copy_digits str (i + 1) (numstr[i := d]) n =
        take (i + 1) (numstr[i := d]) @ take n ds' @ drop (i + 1 + min n (length ds')) (numstr[i := d])"
      using Suc.IH [of ds' "numstr[i := d]" "i + 1" "pre @ [d]"] Suc.prems Cons by simp
    also have "take (i + 1) (numstr[i := d]) = take i numstr @ [d]"
      using Suc.prems by (simp add: take_Suc_conv_app_nth)
    finally show ?thesis using d Cons by simp
  qed
qed simp

lemma sscanf_d_digits:
  assumes "ds \<noteq> []" "list_all digit ds" "r \<noteq> []" "\<not> digit (hd r)"
  shows "sscanf_d (ds @ r) = Some (decimal ds 0)"
proof -
  obtain d ds' where d: "ds = d # ds'" "digit d" using assms(1,2) by (cases ds) auto
  have s: "\<not> is_space d" "d \<noteq> ch (CHR ''-'')" "d \<noteq> ch (CHR ''+'')"
    using d(2) by (auto simp: digit_def is_space_def ch_def word_le_nat_alt)
  have t: "takeWhile digit (ds @ r) = ds"
    using assms(2-4) by (cases r) (simp_all add: takeWhile_append2 list_all_iff)
  have "dropWhile is_space (ds @ r) = ds @ r" "hd (ds @ r) = d" using d s by simp_all
  moreover have "hd r \<in> set r" using assms(3) by simp
  ultimately show ?thesis using t s assms(1,3,4) by (auto simp: sscanf_d_def Let_def)
qed

lemma param_read:
  assumes "command_line s nm as p" "j < length as" "ad = parsed nm as p"
  shows "\<exists>q r. p_pos (param ad ! j) = Some q \<and> drop q s = print_arg (as ! j) @ r \<and>
     (r = [] \<or> \<not> digit (hd r)) \<and> arg_ok (as ! j)"
proof -
  from assms(1) obtain pre t where as: "list_all arg_ok as" "length as \<le> 16"
    and p: "p = length pre + length nm + 1"
    and s: "s = pre @ nm @ (if as = [] then [] else ch (CHR ''='') # tl (print_more as)) @ t"
    and t: "t = [] \<and> as \<noteq> [] \<or> (\<exists>r. t = 13 # r)"
    unfolding command_line_def by blast
  have ne: "as \<noteq> []" using assms(2) by auto
  have d: "drop p s = tl (print_more as) @ t" using ne by (simp add: s p)
  obtain q where q: "p \<le> q" "place_args p as ! j = \<lparr>p_type = arg_type (as ! j), p_pos = Some q\<rparr>"
    "drop (q - p) (tl (print_more as) @ t) = print_arg (as ! j) @ print_more (drop (Suc j) as) @ t"
    using place_at [OF assms(2)] by blast
  have "param ad ! j = place_args p as ! j"
    using assms(2) by (simp add: assms(3) parsed_def add_args_def at_data0_def nth_append)
  moreover have "drop q s = drop (q - p) (drop p s)" using q(1) by simp
  moreover have "print_more (drop (Suc j) as) @ t = [] \<or> \<not> digit (hd (print_more (drop (Suc j) as) @ t))"
    using t by (cases "drop (Suc j) as") (auto simp: ch_simps)
  moreover have "arg_ok (as ! j)" using as(1) assms(2) by (simp add: list_all_length)
  ultimately show ?thesis using q(2,3) d
    by (intro exI [of _ q] exI [of _ "print_more (drop (Suc j) as) @ t"]) simp
qed

subsection \<open>Properties\<close>

text \<open>
  Property C32.
  The language of the parser: \<^verbatim>\<open>parse_at_cmd_string\<close> returns 0 exactly for the lines \<open>AT+\<close> or \<open>+\<close>,
  a name of at most 14 capital letters, and either a carriage return, or an equals sign and 1 to
  16 parameters, quoted strings or numbers, with commas between them up to the end of the string
  or a carriage return; what follows the carriage return is not looked at. The data then holds
  the name and the type and place of every parameter, and nothing else.\<close>

theorem parse_at_cmd_string_language:
  assumes "0 \<notin> set s"
  shows "parse_at_cmd_string s = Some (0, ad) \<longleftrightarrow> (\<exists>nm as p. command_line s nm as p \<and> ad = parsed nm as p)"
  using parse_line parse_complete [OF _ assms] by blast

theorem parse_at_cmd_string_language_witness:
  "parse_at_cmd_string [43, 88, 61, 49, 50] = Some (0, parsed [88] [Num [49, 50]] 3)"
proof -
  have "command_line [43, 88, 61, 49, 50] [88] [Num [49, 50]] 3"
    unfolding command_line_def
    by (rule exI [of _ "[43]"], rule exI [of _ "[]"]) (simp add: ch_simps upper_def digit_def word_le_def)
  then show ?thesis using parse_at_cmd_string_language [of "[43, 88, 61, 49, 50]" "parsed [88] [Num [49, 50]] 3"] by auto
qed



end
