(* ===== verification/Codec.thy ===== *)
theory Codec
  imports Main
begin

text \<open>
  What an encoder and its decoder owe each other: on the values the encoder takes, decoding
  gives back what was encoded.
\<close>

locale codec =
  fixes enc :: "'a \<Rightarrow> 'b" and dec :: "'b \<Rightarrow> 'a" and ok :: "'a \<Rightarrow> bool"
  assumes dec_enc: "ok x \<Longrightarrow> dec (enc x) = x"
begin

lemma enc_eq_iff: "ok x \<Longrightarrow> ok y \<Longrightarrow> enc x = enc y \<longleftrightarrow> x = y"
  using dec_enc by metis

lemma enc_inj: "inj_on enc (Collect ok)"
  by (rule inj_onI) (simp add: enc_eq_iff)

lemma dec_image: "set xs \<subseteq> Collect ok \<Longrightarrow> map dec (map enc xs) = xs"
  by (induction xs) (simp_all add: dec_enc)

end

end
