(* ===== verification/Base64.thy ===== *)
theory Base64
  imports Prelude Codec
begin

text \<open>
  \<^verbatim>\<open>bsp/easyio_core/BASE64/cbase64.c\<close>: the encoder, the decoder of a whole string and the
  decoder that takes one character at a time. A \<^verbatim>\<open>char\<close> is a byte; every shift in the code is
  masked or stored back into a byte, so its sign does not matter. The output buffer is the list
  of the bytes stored into it from its start.
\<close>

subsection \<open>Tables\<close>

definition alphabet64 :: "u8 list" where
  "alphabet64 = map of_char ''ABCDEFGHIJKLMNOPQRSTUVWXYZabcdefghijklmnopqrstuvwxyz0123456789+/''"

definition pad :: u8 where
  "pad = of_char (CHR ''='')"

definition np :: u8 where
  "np = 0xFF"

definition table64vals :: "u8 list" where
  "table64vals =
    [62, np, np, np, 63, 52, 53, 54, 55, 56, 57, 58, 59, 60, 61, np, np, np, np, np,
     np, np,  0,  1,  2,  3,  4,  5,  6,  7,  8,  9, 10, 11, 12, 13, 14, 15, 16, 17,
     18, 19, 20, 21, 22, 23, 24, 25, np, np, np, np, np, np, 26, 27, 28, 29, 30, 31,
     32, 33, 34, 35, 36, 37, 38, 39, 40, 41, 42, 43, 44, 45, 46, 47, 48, 49, 50, 51]"

definition table64 :: "u8 \<Rightarrow> u8" where
  "table64 c = (if c < 43 \<or> c > 122 then np else table64vals ! unat (c - 43))"

subsection \<open>Encoding\<close>

function encode_loop :: "u8 list \<Rightarrow> nat \<Rightarrow> u8 list \<Rightarrow> u8 list" where
  "encode_loop input i output =
    (if i < length input then
       let c = drop_bit 2 (input ! i) AND 0x3f;
           output = output @ [alphabet64 ! unat c];
           c = push_bit 4 (input ! i) AND 0x3f;
           i = i + 1;
           c = (if i < length input then c OR (drop_bit 4 (input ! i) AND 0x0f) else c);
           output = output @ [alphabet64 ! unat c];
           (i, output) =
             (if i < length input then
                let c = push_bit 2 (input ! i) AND 0x3c;
                    i = i + 1;
                    c = (if i < length input then c OR (drop_bit 6 (input ! i) AND 0x03) else c)
                in (i, output @ [alphabet64 ! unat c])
              else (i + 1, output @ [pad]));
           output =
             (if i < length input then
                let c = input ! i AND 0x3f in output @ [alphabet64 ! unat c]
              else output @ [pad])
       in encode_loop input (i + 1) output
     else output)"
  by pat_completeness auto
termination
  by (relation "measure (\<lambda>(input, i, output). length input - i)") (auto split: if_splits simp: Let_def)

text \<open>The whole buffer that \<^verbatim>\<open>encode_base64\<close> fills: the characters and the closing NUL.\<close>

definition encode_base64 :: "u8 list \<Rightarrow> u8 list" where
  "encode_base64 input = encode_loop input 0 [] @ [0]"

subsection \<open>Decoding a string\<close>

text \<open>The character of a string at an index up to its length, where the NUL is.\<close>

definition char_at :: "u8 list \<Rightarrow> nat \<Rightarrow> u8" where
  "char_at s i = (s @ [0]) ! i"

function decode_loop :: "u8 list \<Rightarrow> nat \<Rightarrow> u8 list \<Rightarrow> u8 list" where
  "decode_loop input i decoded =
    (let inlen = length input in
     if i < inlen then
       let c = table64 (char_at input i);
           i = i + 1;
           d = table64 (char_at input i);
           decoded = decoded @ [push_bit 2 c OR (drop_bit 4 d AND 0x3)];
           i = i + 1
       in if i < inlen \<and> char_at input i = pad then decoded
          else
            let (c, decoded) =
                  (if i < inlen then
                     let c' = table64 (char_at input i)
                     in (c', decoded @ [(push_bit 4 d AND 0xf0) OR (drop_bit 2 c' AND 0xf)])
                   else (push_bit 2 c OR (drop_bit 4 d AND 0x3), decoded));
                i = i + 1
            in if i < inlen \<and> char_at input i = pad then decoded
               else
                 let decoded =
                       (if i < inlen then
                          let d = table64 (char_at input i)
                          in decoded @ [(push_bit 6 c AND 0xc0) OR d]
                        else decoded)
                 in decode_loop input (i + 1) decoded
     else decoded)"
  by pat_completeness auto
termination
  by (relation "measure (\<lambda>(input, i, decoded). length input - i)") (auto split: if_splits simp: Let_def)

text \<open>\<^verbatim>\<open>decode_base64\<close>: the buffer it fills and \<^verbatim>\<open>outlen\<close>, which leaves out the closing NUL.\<close>

definition decode_base64 :: "u8 list \<Rightarrow> u8 list \<times> nat" where
  "decode_base64 input =
     (let decoded = decode_loop input 0 [] in (decoded @ [0], length decoded))"

subsection \<open>Decoding a stream\<close>

record dc_stream =
  ds_c :: u8
  ds_d :: u8
  ds_status :: nat
  ds_count :: u32

definition start_decode_base64_stream :: dc_stream where
  "start_decode_base64_stream = \<lparr>ds_c = 0, ds_d = 0, ds_status = 0, ds_count = 0\<rparr>"

text \<open>One character: the byte stored through \<^verbatim>\<open>out\<close> when the call returns 0, \<open>None\<close> when it
  returns -1.\<close>

definition decode_base64_stream :: "u8 \<Rightarrow> dc_stream \<Rightarrow> u8 option \<times> dc_stream" where
  "decode_base64_stream input ds0 =
    (let ds = ds0\<lparr>ds_count := ds_count ds0 + 1\<rparr> in
     if ds_status ds = 0 then (None, ds\<lparr>ds_c := table64 input, ds_status := 1\<rparr>)
     else if ds_status ds = 1 then
       let d = table64 input; c = push_bit 2 (ds_c ds) OR (drop_bit 4 d AND 0x3)
       in (Some c, ds\<lparr>ds_c := c, ds_d := d, ds_status := 2\<rparr>)
     else if ds_status ds = 2 then
       (if pad = input then (None, ds\<lparr>ds_c := input, ds_status := 0\<rparr>)
        else
          let c = table64 input; d = (push_bit 4 (ds_d ds) AND 0xf0) OR (drop_bit 2 c AND 0xf)
          in (Some d, ds\<lparr>ds_c := c, ds_d := d, ds_status := 3\<rparr>))
     else if ds_status ds = 3 then
       (if pad = input then (None, ds\<lparr>ds_d := input, ds_status := 0\<rparr>)
        else
          let d = table64 input; c = (push_bit 6 (ds_c ds) AND 0xc0) OR d
          in (Some c, ds\<lparr>ds_c := c, ds_d := d, ds_status := 0\<rparr>))
     else (None, ds))"

text \<open>The loop of \<^verbatim>\<open>test_base64\<close>: every character of a string, and the bytes that come out.\<close>

fun decode_stream :: "u8 list \<Rightarrow> dc_stream \<Rightarrow> u8 list \<times> dc_stream" where
  "decode_stream [] ds = ([], ds)"
| "decode_stream (x # xs) ds =
     (let (r, ds) = decode_base64_stream x ds; (out, ds) = decode_stream xs ds
      in (case r of Some b \<Rightarrow> b # out | None \<Rightarrow> out, ds))"

subsection \<open>The alphabet\<close>

lemma alphabet64_codes: "alphabet64 =
   [65, 66, 67, 68, 69, 70, 71, 72, 73, 74, 75, 76, 77, 78, 79, 80, 81, 82, 83, 84,
    85, 86, 87, 88, 89, 90, 97, 98, 99, 100, 101, 102, 103, 104, 105, 106, 107, 108, 109, 110,
    111, 112, 113, 114, 115, 116, 117, 118, 119, 120, 121, 122, 48, 49, 50, 51, 52, 53, 54, 55,
    56, 57, 43, 47]"
  by (simp add: alphabet64_def)

lemma table64_alphabet64: "map table64 alphabet64 = map of_nat [0..<64]"
proof -
  have "map table64 alphabet64 =
   [0, 1, 2, 3, 4, 5, 6, 7, 8, 9, 10, 11, 12, 13, 14, 15, 16, 17, 18, 19,
    20, 21, 22, 23, 24, 25, 26, 27, 28, 29, 30, 31, 32, 33, 34, 35, 36, 37, 38, 39,
    40, 41, 42, 43, 44, 45, 46, 47, 48, 49, 50, 51, 52, 53, 54, 55, 56, 57, 58, 59,
    60, 61, 62, 63]"
    unfolding alphabet64_codes by (simp add: table64_def table64vals_def word_le_def word_less_def)
  also have "\<dots> = map of_nat [0..<64]"
    by (simp add: upt_rec)
  finally show ?thesis .
qed

lemma length_alphabet64: "length alphabet64 = 64"
  by (simp add: alphabet64_codes)

lemma alphabet64_no_pad: "pad \<notin> set alphabet64" "0 \<notin> set alphabet64"
  by (simp_all add: alphabet64_codes pad_def)

text \<open>The character of a value below 64.\<close>

definition sextet :: "u8 \<Rightarrow> u8" where
  "sextet w = alphabet64 ! unat w"

lemma sextet_props:
  assumes "w \<le> 63"
  shows "table64 (sextet w) = w" "sextet w \<noteq> pad" "sextet w \<noteq> 0" "pad \<noteq> sextet w" "0 \<noteq> sextet w"
proof -
  have n: "unat w < 64" using assms by (simp add: word_le_nat_alt)
  have "map table64 alphabet64 ! unat w = map of_nat [0..<64] ! unat w"
    by (simp only: table64_alphabet64)
  then show "table64 (sextet w) = w" using n by (simp add: sextet_def length_alphabet64)
  have "sextet w \<in> set alphabet64" using n by (simp add: sextet_def length_alphabet64)
  then show "sextet w \<noteq> pad" "sextet w \<noteq> 0" "pad \<noteq> sextet w" "0 \<noteq> sextet w" using alphabet64_no_pad by auto
qed

lemma sextet_in_alphabet: "w \<le> 63 \<Longrightarrow> sextet w \<in> set alphabet64"
  by (simp add: sextet_def length_alphabet64 word_le_nat_alt)

lemma mask6: "w AND 0x3f \<le> (63 :: u8)" "w AND 0x3c \<le> (63 :: u8)"
  by (simp_all add: word_and_le1 order_trans [OF word_and_le1])

lemma mask6_or: "(w AND 0x3f) OR (v AND 0x0f) \<le> (63 :: u8)" "(w AND 0x3c) OR (v AND 0x03) \<le> (63 :: u8)"
proof -
  have l: "x \<le> 63" if "x AND 0x3f = x" for x :: u8
    using word_and_le1 [of x 63] that by simp
  show "(w AND 0x3f) OR (v AND 0x0f) \<le> 63" "(w AND 0x3c) OR (v AND 0x03) \<le> 63"
    by (rule l; simp add: bit.conj_disj_distrib2 and.assoc)+
qed

text \<open>The four characters of three bytes, and the bytes back from them.\<close>

definition s1 :: "u8 \<Rightarrow> u8" where "s1 a = drop_bit 2 a AND 0x3f"
definition s2 :: "u8 \<Rightarrow> u8 \<Rightarrow> u8" where "s2 a b = (push_bit 4 a AND 0x3f) OR (drop_bit 4 b AND 0x0f)"
definition s3 :: "u8 \<Rightarrow> u8 \<Rightarrow> u8" where "s3 b c = (push_bit 2 b AND 0x3c) OR (drop_bit 6 c AND 0x03)"
definition s4 :: "u8 \<Rightarrow> u8" where "s4 c = c AND 0x3f"

lemma s_bound: "s1 a \<le> 63" "s2 a b \<le> 63" "s3 b c \<le> 63" "s4 c \<le> 63"
  by (simp_all only: s1_def s2_def s3_def s4_def mask6 mask6_or)

lemma mask_consts:
  "(0x3f :: u8) = mask 6" "(0x0f :: u8) = mask 4" "(0x03 :: u8) = mask 2" "(0x3c :: u8) = push_bit 2 (mask 4)"
  "(0xf0 :: u8) = push_bit 4 (mask 4)" "(0xc0 :: u8) = push_bit 6 (mask 2)"
  by (simp_all add: mask_eq_exp_minus_1 push_bit_eq_mult)

lemma u8_eqI:
  assumes "bit a 0 = bit b 0" "bit a 1 = bit b 1" "bit a 2 = bit b 2" "bit a 3 = bit b 3"
    "bit a 4 = bit b 4" "bit a 5 = bit b 5" "bit a 6 = bit b 6" "bit a 7 = bit b (7 :: nat)"
  shows "a = (b :: u8)"
proof (rule bit_word_eqI)
  fix n assume "n < LENGTH(8)"
  then have "n = 0 \<or> n = 1 \<or> n = 2 \<or> n = 3 \<or> n = 4 \<or> n = 5 \<or> n = 6 \<or> n = 7" by simp arith
  then show "bit a n = bit b n" using assms by auto
qed

lemma unpack:
  "push_bit 2 (s1 a) OR (drop_bit 4 (s2 a b) AND 0x3) = a"
  "(push_bit 4 (s2 a b) AND 0xf0) OR (drop_bit 2 (s3 b c) AND 0xf) = b"
  "(push_bit 6 (s3 b c) AND 0xc0) OR s4 c = c"
  unfolding s1_def s2_def s3_def s4_def mask_consts
  by (rule u8_eqI; simp add: bit_simps)+

lemma last_groups: "push_bit 4 a AND 0x3f = s2 a 0" "push_bit 2 b AND 0x3c = s3 b 0"
  by (simp_all add: s2_def s3_def)

subsection \<open>The loops on groups of three and four\<close>

fun enc :: "u8 list \<Rightarrow> u8 list" where
  "enc [] = []"
| "enc [a] = [sextet (s1 a), sextet (s2 a 0), pad, pad]"
| "enc [a, b] = [sextet (s1 a), sextet (s2 a b), sextet (s3 b 0), pad]"
| "enc (a # b # c # xs) = sextet (s1 a) # sextet (s2 a b) # sextet (s3 b c) # sextet (s4 c) # enc xs"

declare encode_loop.simps [simp del] decode_loop.simps [simp del]

lemma encode_loop_end: "length input \<le> i \<Longrightarrow> encode_loop input i out = out"
  by (simp add: encode_loop.simps [of input i])

lemma encode_loop_one:
  assumes "i + 1 = length input"
  shows "encode_loop input i out = out @ enc [input ! i]"
proof -
  have c: "i < length input" "\<not> i + 1 < length input" "\<not> i + 1 + 1 < length input"
    and e: "length input \<le> i + 1 + 1 + 1" using assms by simp_all
  show ?thesis
    unfolding encode_loop.simps [of input i]
    by (simp only: c Let_def if_True if_False prod.case last_groups encode_loop_end [OF e])
      (simp only: append_assoc append_Cons append_Nil enc.simps sextet_def s1_def)
qed

lemma encode_loop_two:
  assumes "i + 2 = length input"
  shows "encode_loop input i out = out @ enc [input ! i, input ! (i + 1)]"
proof -
  have c: "i < length input" "i + 1 < length input" "\<not> i + 1 + 1 < length input"
    and e: "length input \<le> i + 1 + 1 + 1" using assms by simp_all
  show ?thesis
    unfolding encode_loop.simps [of input i]
    by (simp only: c Let_def if_True if_False prod.case last_groups(2) encode_loop_end [OF e])
      (simp only: append_assoc append_Cons append_Nil enc.simps sextet_def s1_def s2_def)
qed

lemma encode_loop_three:
  assumes "i + 2 < length input"
  shows "encode_loop input i out = encode_loop input (i + 3)
     (out @ [sextet (s1 (input ! i)), sextet (s2 (input ! i) (input ! (i + 1))),
        sextet (s3 (input ! (i + 1)) (input ! (i + 2))), sextet (s4 (input ! (i + 2)))])"
proof -
  have c: "i < length input" "i + 1 < length input" "i + 1 + 1 < length input"
    and e: "i + 2 + 1 = i + 3" "i + 1 + 1 = i + 2" using assms by simp_all
  show ?thesis
    unfolding encode_loop.simps [of input i]
    by (simp only: c Let_def if_True prod.case) (simp only: e append_assoc append_Cons append_Nil
      sextet_def s1_def s2_def s3_def s4_def)
qed

lemma encode_loop_enc: "encode_loop (xs @ ys) (length xs) out = out @ enc ys"
proof (induction ys arbitrary: xs out rule: enc.induct)
  case 1
  then show ?case by (simp add: encode_loop_end)
next
  case (2 a)
  then show ?case using encode_loop_one [of "length xs" "xs @ [a]" out] by simp
next
  case (3 a b)
  then show ?case using encode_loop_two [of "length xs" "xs @ [a, b]" out] by (simp add: nth_append)
next
  case (4 a b c ys)
  then show ?case using encode_loop_three [of "length xs" "xs @ a # b # c # ys" out]
      "4.IH" [of "xs @ [a, b, c]"] by (simp add: nth_append numeral_3_eq_3)
qed

lemma decode_loop_end: "length input \<le> i \<Longrightarrow> decode_loop input i out = out"
  by (simp add: decode_loop.simps [of input i])

lemma decode_loop_pad2:
  assumes "i + 3 < length input" "input ! (i + 2) = pad"
  shows "decode_loop input i out =
     out @ [push_bit 2 (table64 (input ! i)) OR (drop_bit 4 (table64 (input ! (i + 1))) AND 0x3)]"
  unfolding decode_loop.simps [of input i] using assms
  by (simp add: Let_def char_at_def nth_append)

lemma decode_loop_pad1:
  assumes "i + 3 < length input" "input ! (i + 2) \<noteq> pad" "input ! (i + 3) = pad"
  shows "decode_loop input i out =
     out @ [push_bit 2 (table64 (input ! i)) OR (drop_bit 4 (table64 (input ! (i + 1))) AND 0x3),
       (push_bit 4 (table64 (input ! (i + 1))) AND 0xf0) OR (drop_bit 2 (table64 (input ! (i + 2))) AND 0xf)]"
  unfolding decode_loop.simps [of input i] using assms
  by (simp add: Let_def char_at_def nth_append numeral_3_eq_3)

lemma decode_loop_four:
  assumes "i + 3 < length input" "input ! (i + 2) \<noteq> pad" "input ! (i + 3) \<noteq> pad"
  shows "decode_loop input i out = decode_loop input (i + 4)
     (out @ [push_bit 2 (table64 (input ! i)) OR (drop_bit 4 (table64 (input ! (i + 1))) AND 0x3),
       (push_bit 4 (table64 (input ! (i + 1))) AND 0xf0) OR (drop_bit 2 (table64 (input ! (i + 2))) AND 0xf),
       (push_bit 6 (table64 (input ! (i + 2))) AND 0xc0) OR table64 (input ! (i + 3))])"
  unfolding decode_loop.simps [of input i] using assms
  by (simp add: Let_def char_at_def nth_append eval_nat_numeral)

lemmas sextets = sextet_props [OF s_bound(1)] sextet_props [OF s_bound(2)]
  sextet_props [OF s_bound(3)] sextet_props [OF s_bound(4)]

lemma decode_loop_enc: "decode_loop (xs @ enc ys) (length xs) out = out @ ys"
proof (induction ys arbitrary: xs out rule: enc.induct)
  case 1
  then show ?case by (simp add: decode_loop_end)
next
  case (2 a)
  then show ?case using decode_loop_pad2 [of "length xs" "xs @ enc [a]" out]
    by (simp add: nth_append sextets unpack)
next
  case (3 a b)
  then show ?case using decode_loop_pad1 [of "length xs" "xs @ enc [a, b]" out]
    by (simp add: nth_append sextets unpack)
next
  case (4 a b c ys)
  let ?g = "[sextet (s1 a), sextet (s2 a b), sextet (s3 b c), sextet (s4 c)]"
  have l: "length (xs @ ?g) = length xs + 4" by simp
  have "decode_loop (xs @ enc (a # b # c # ys)) (length xs) out =
      decode_loop (xs @ enc (a # b # c # ys)) (length xs + 4) (out @ [a, b, c])"
    using decode_loop_four [of "length xs" "xs @ enc (a # b # c # ys)" out]
    by (simp only: length_append enc.simps length_Cons nth_append) (simp add: sextets unpack)
  then show ?case using "4.IH" [of "xs @ ?g" "out @ [a, b, c]"] unfolding l by simp
qed

lemma stream_steps:
  "ds_status ds = 0 \<Longrightarrow> decode_base64_stream x ds =
     (None, ds\<lparr>ds_count := ds_count ds + 1, ds_c := table64 x, ds_status := 1\<rparr>)"
  "ds_status ds = 1 \<Longrightarrow> decode_base64_stream x ds =
     (Some (push_bit 2 (ds_c ds) OR (drop_bit 4 (table64 x) AND 0x3)),
      ds\<lparr>ds_count := ds_count ds + 1, ds_c := push_bit 2 (ds_c ds) OR (drop_bit 4 (table64 x) AND 0x3),
        ds_d := table64 x, ds_status := 2\<rparr>)"
  "ds_status ds = 2 \<Longrightarrow> decode_base64_stream pad ds =
     (None, ds\<lparr>ds_count := ds_count ds + 1, ds_c := pad, ds_status := 0\<rparr>)"
  "ds_status ds = 2 \<Longrightarrow> x \<noteq> pad \<Longrightarrow> decode_base64_stream x ds =
     (Some ((push_bit 4 (ds_d ds) AND 0xf0) OR (drop_bit 2 (table64 x) AND 0xf)),
      ds\<lparr>ds_count := ds_count ds + 1, ds_c := table64 x,
        ds_d := (push_bit 4 (ds_d ds) AND 0xf0) OR (drop_bit 2 (table64 x) AND 0xf), ds_status := 3\<rparr>)"
  "ds_status ds = 3 \<Longrightarrow> decode_base64_stream pad ds =
     (None, ds\<lparr>ds_count := ds_count ds + 1, ds_d := pad, ds_status := 0\<rparr>)"
  "ds_status ds = 3 \<Longrightarrow> x \<noteq> pad \<Longrightarrow> decode_base64_stream x ds =
     (Some ((push_bit 6 (ds_c ds) AND 0xc0) OR table64 x),
      ds\<lparr>ds_count := ds_count ds + 1, ds_c := (push_bit 6 (ds_c ds) AND 0xc0) OR table64 x,
        ds_d := table64 x, ds_status := 0\<rparr>)"
  by (simp_all only: decode_base64_stream_def Let_def) simp_all

lemma decode_stream_Some:
  "decode_base64_stream x ds = (Some b, ds') \<Longrightarrow>
     decode_stream (x # xs) ds = (b # fst (decode_stream xs ds'), snd (decode_stream xs ds'))"
  by (simp add: split_def Let_def)

lemma decode_stream_None:
  "decode_base64_stream x ds = (None, ds') \<Longrightarrow> decode_stream (x # xs) ds = decode_stream xs ds'"
  by (simp add: split_def Let_def)

lemmas stream_runs = decode_stream_None [OF stream_steps(1)] decode_stream_Some [OF stream_steps(2)]
  decode_stream_None [OF stream_steps(3)] decode_stream_Some [OF stream_steps(4)]
  decode_stream_None [OF stream_steps(5)] decode_stream_Some [OF stream_steps(6)]

declare decode_stream.simps(2) [simp del]

lemma decode_stream_enc:
  assumes "ds_status ds = 0"
  shows "fst (decode_stream (enc ys) ds) = ys \<and>
     ds_status (snd (decode_stream (enc ys) ds)) = (if length ys mod 3 = 1 then 1 else 0)"
  using assms
proof (induction ys arbitrary: ds rule: enc.induct)
  case (4 a b c ys)
  then show ?case by (simp add: stream_runs sextets unpack)
qed (simp_all add: stream_runs sextets unpack)

lemma length_enc: "length (enc xs) = (length xs + 2) div 3 * 4"
proof (induction xs rule: enc.induct)
  case (4 a b c xs)
  have "(length xs + 2 + 3 * 1) div 3 = 1 + (length xs + 2) div 3" by (rule div_mult_self2) simp
  then show ?case using 4 by simp
qed simp_all

lemma enc_no_nul: "0 \<notin> set (enc xs)"
proof -
  have "0 \<noteq> pad" by (simp add: pad_def)
  then show ?thesis by (induction xs rule: enc.induct) (simp_all add: sextets)
qed

lemma encode_base64_enc: "encode_base64 xs = enc xs @ [0]"
  using encode_loop_enc [of "[]" xs "[]"] by (simp add: encode_base64_def)

lemma decode_base64_enc: "decode_base64 (enc xs) = (xs @ [0], length xs)"
  using decode_loop_enc [of "[]" xs "[]"] by (simp add: decode_base64_def Let_def)

text \<open>The string in the buffer the encoder fills: what is in front of the first NUL.\<close>

definition encoded :: "u8 list \<Rightarrow> u8 list" where
  "encoded xs = takeWhile (\<lambda>c. c \<noteq> 0) (encode_base64 xs)"

lemma encoded_enc: "encoded xs = enc xs"
proof -
  have "takeWhile (\<lambda>c. c \<noteq> 0) (enc xs @ [0]) = enc xs"
    using enc_no_nul [of xs] by (subst takeWhile_append2) auto
  then show ?thesis by (simp add: encoded_def encode_base64_enc)
qed

interpretation b64: codec encoded "\<lambda>s. let (d, n) = decode_base64 s in take n d" "\<lambda>_. True"
  by unfold_locales (simp add: encoded_enc decode_base64_enc)

lemma decode_stream_append:
  "fst (decode_stream (xs @ ys) ds) =
     fst (decode_stream xs ds) @ fst (decode_stream ys (snd (decode_stream xs ds)))"
  by (induction xs arbitrary: ds) (simp_all add: decode_stream.simps(2) split_def Let_def split: option.splits)

lemma out_of_step:
  "fst (decode_stream (enc [65] @ enc [66]) start_decode_base64_stream) \<noteq> [65, 66]"
proof -
  have e: "enc [65] @ enc [66] = [81, 81, pad, pad, 81, 103, pad, pad]"
    by (simp add: sextet_def s1_def s2_def alphabet64_codes)
  show ?thesis unfolding e
    by (simp add: decode_stream.simps(2) decode_base64_stream_def start_decode_base64_stream_def
      pad_def table64_def table64vals_def np_def word_le_def word_less_def)
qed

subsection \<open>Properties\<close>

text \<open>
  Property C34.
  Round trip of Base64: for every byte string, NUL bytes included, the encoder writes a string
  of the alphabet and the padding that is \<open>4 * \<lceil>n / 3\<rceil>\<close> characters long and ends in its only NUL;
  \<^verbatim>\<open>decode_base64\<close> of that string gives back exactly the bytes and their number; and so does the
  decoder that is fed one character at a time after \<^verbatim>\<open>start_decode_base64_stream\<close>.
  Different byte strings have different encodings.\<close>

theorem base64_round_trip:
  "length (encode_base64 xs) = (length xs + 2) div 3 * 4 + 1 \<and> last (encode_base64 xs) = 0 \<and>
   set (encoded xs) \<subseteq> insert pad (set alphabet64) \<and>
   decode_base64 (encoded xs) = (xs @ [0], length xs) \<and>
   fst (decode_stream (encoded xs) start_decode_base64_stream) = xs \<and>
   (encoded xs = encoded ys \<longleftrightarrow> xs = ys)"
proof -
  have "set (enc xs) \<subseteq> insert pad (set alphabet64)"
    by (induction xs rule: enc.induct) (simp_all add: sextet_in_alphabet s_bound)
  then show ?thesis
    using decode_stream_enc [of start_decode_base64_stream xs] b64.enc_eq_iff [of xs ys]
    by (simp add: encoded_enc encode_base64_enc decode_base64_enc length_enc start_decode_base64_stream_def)
qed

text \<open>
  The stream decoder between messages: a message that closes with one padding character, or
  none, leaves the decoder ready for the next one, but a message of a length of 1 modulo 3,
  which closes with two, leaves it in status 1, where the next message is read one character
  out of step unless \<^verbatim>\<open>start_decode_base64_stream\<close> is called in between.\<close>

theorem base64_stream_rests:
  "(length xs mod 3 \<noteq> 1 \<longrightarrow>
      fst (decode_stream (encoded xs @ encoded ys) start_decode_base64_stream) = xs @ ys) \<and>
   (length xs mod 3 = 1 \<longrightarrow>
      ds_status (snd (decode_stream (encoded xs) start_decode_base64_stream)) = 1) \<and>
   fst (decode_stream (encoded [65] @ encoded [66]) start_decode_base64_stream) \<noteq> [65, 66]"
proof -
  have "ds_status (snd (decode_stream (enc xs) start_decode_base64_stream)) = (if length xs mod 3 = 1 then 1 else 0)"
    "fst (decode_stream (enc xs) start_decode_base64_stream) = xs"
    using decode_stream_enc [of start_decode_base64_stream xs] by (simp_all add: start_decode_base64_stream_def)
  then show ?thesis using out_of_step
    by (simp add: encoded_enc decode_stream_append decode_stream_enc)
qed

theorem base64_stream_rests_witness:
  "fst (decode_stream (encoded [1, 2, 3] @ encoded [0]) start_decode_base64_stream) = [1, 2, 3, 0]"
  using base64_stream_rests [of "[1, 2, 3]" "[0]"] by simp

end
