(* ===== verification/ConvHex.thy ===== *)
theory ConvHex
  imports KService CLib Codec
begin

text \<open>
  \<^verbatim>\<open>bsp/easyio_core/conv_hex_str.c\<close>: bytes to hexadecimal digits and back, on a byte-addressed
  memory. The C library is modelled as far as the code uses it: \<^verbatim>\<open>snprintf(p, 4, "%02X", b)\<close>
  writes two digits and a NUL, \<^verbatim>\<open>sscanf(s, "%02X", p)\<close> on a string of two characters stores an
  \<^verbatim>\<open>unsigned int\<close>, four bytes with the lowest first, when the characters match.
\<close>

subsection \<open>The library calls\<close>

definition hex_digit :: "u8 \<Rightarrow> u8" where
  "hex_digit d = (if d < 10 then 48 + d else 55 + d)"

definition snprintf_02X :: "nat \<Rightarrow> u8 \<Rightarrow> memory \<Rightarrow> memory" where
  "snprintf_02X p b m = m(p := hex_digit (drop_bit 4 b), p + 1 := hex_digit (b AND 0xf), p + 2 := 0)"

definition digit_val :: "u8 \<Rightarrow> u32 option" where
  "digit_val c =
     (if 48 \<le> c \<and> c \<le> 57 then Some (ucast (c - 48))
      else if 65 \<le> c \<and> c \<le> 70 then Some (ucast (c - 55))
      else if 97 \<le> c \<and> c \<le> 102 then Some (ucast (c - 87))
      else None)"

text \<open>\<^verbatim>\<open>"%02X"\<close> on two characters: white space is skipped, a sign may stand in front, and a digit
  before a character that is none is a number of its own; a bare \<^verbatim>\<open>0x\<close> matches nothing.\<close>

definition sscanf_02X :: "u8 \<Rightarrow> u8 \<Rightarrow> u32 option" where
  "sscanf_02X a b =
     (if is_space a then digit_val b
      else if a = 43 then digit_val b
      else if a = 45 then map_option uminus (digit_val b)
      else case digit_val a of
        None \<Rightarrow> None
      | Some x \<Rightarrow> (case digit_val b of Some y \<Rightarrow> Some (16 * x + y)
          | None \<Rightarrow> if a = 48 \<and> (b = 88 \<or> b = 120) then None else Some x))"

text \<open>The value of an integer stored into a \<^verbatim>\<open>short\<close>.\<close>

definition short :: "int \<Rightarrow> int" where
  "short n = signed_take_bit 15 n"

subsection \<open>Bytes to digits\<close>

function BufferToHex_loop :: "u8 list \<Rightarrow> nat \<Rightarrow> nat \<Rightarrow> int \<Rightarrow> nat \<Rightarrow> memory \<Rightarrow> memory" where
  "BufferToHex_loop inbuf i out outlen_index outlen m =
     (if i < length inbuf then
        let m = snprintf_02X (nat (int out + outlen_index)) (inbuf ! i) m;
            outlen_index = short (outlen_index + 2)
        in if outlen_index \<ge> int outlen then m
           else BufferToHex_loop inbuf (i + 1) out outlen_index outlen m
      else m)"
  by pat_completeness auto
termination by (relation "measure (\<lambda>(inbuf, i, _). length inbuf - i)") auto

definition BufferToHex :: "u8 list \<Rightarrow> nat \<Rightarrow> nat \<Rightarrow> memory \<Rightarrow> memory" where
  "BufferToHex inbuf out outlen m = BufferToHex_loop inbuf 0 out 0 outlen (filled out outlen 0 m)"

subsection \<open>Digits to bytes\<close>

function HexToBuffer_loop :: "u8 list \<Rightarrow> int \<Rightarrow> nat \<Rightarrow> nat \<Rightarrow> nat \<Rightarrow> int \<Rightarrow> memory \<Rightarrow> nat \<times> memory" where
  "HexToBuffer_loop hexstr hexstrlen i out out_index outlen m =
     (if int i < hexstrlen then
        let m = (case sscanf_02X (hexstr ! i) (hexstr ! (i + 1)) of
                   Some v \<Rightarrow> put_word (out + out_index) v m | None \<Rightarrow> m);
            out_index = out_index + 1
        in if int out_index = outlen then (out_index, m)
           else HexToBuffer_loop hexstr hexstrlen (i + 2) out out_index outlen m
      else (out_index, m))"
  by pat_completeness auto
termination by (relation "measure (\<lambda>(hexstr, hexstrlen, i, _). nat (hexstrlen - int i))") auto

text \<open>\<open>hexstr\<close> holds the characters in front of the NUL.\<close>

definition HexToBuffer :: "u8 list \<Rightarrow> nat \<Rightarrow> int \<Rightarrow> memory \<Rightarrow> int \<times> memory" where
  "HexToBuffer hexstr out outlen m =
     (let hexstrlen = short (int (length hexstr)) in
      if hexstrlen mod 2 \<noteq> 0 then (- 1, m)
      else let (n, m) = HexToBuffer_loop hexstr hexstrlen 0 out 0 outlen m in (int n, m))"

declare BufferToHex_loop.simps [simp del] HexToBuffer_loop.simps [simp del]

subsection \<open>One byte\<close>

definition hex_pair :: "u8 \<Rightarrow> u8 list" where
  "hex_pair b = [hex_digit (drop_bit 4 b), hex_digit (b AND 0xf)]"

lemma nibble_cases: "(d :: u8) < 16 \<Longrightarrow> d \<in> set (map of_nat [0..<16])"
  by (auto simp: word_less_nat_alt image_iff intro!: bexI [of _ "unat d"])

lemma digit_val_hex: "d < 16 \<Longrightarrow> digit_val (hex_digit d) = Some (ucast d)"
  and hex_digit_plain: "d < 16 \<Longrightarrow> \<not> is_space (hex_digit d) \<and> hex_digit d \<noteq> 43 \<and> hex_digit d \<noteq> 45 \<and> hex_digit d \<noteq> 0"
  by (drule nibble_cases; auto simp: upt_rec hex_digit_def digit_val_def is_space_def word_le_def word_less_def)+

lemma nibbles: "drop_bit 4 (b :: u8) < 16" "b AND 0xf < 16" "16 * ucast (drop_bit 4 b) + ucast (b AND 0xf) = (ucast b :: u32)"
proof -
  have n: "unat b < 256" using unsigned_less [of b, where ?'a = nat] by simp
  have d: "unat (drop_bit 4 b) = unat b div 16" by (simp add: drop_bit_eq_div unat_div)
  have m: "(0xf :: u8) = mask 4" by (simp add: mask_eq_exp_minus_1)
  have a: "unat (b AND 0xf) = unat b mod 16"
    unfolding m take_bit_eq_mask [symmetric] unsigned_take_bit_eq by (simp add: take_bit_eq_mod)
  show "drop_bit 4 b < 16" "b AND 0xf < 16" using n by (simp_all add: word_less_nat_alt d a)
  show "16 * ucast (drop_bit 4 b) + ucast (b AND 0xf) = (ucast b :: u32)"
    using n by (simp add: word_unat_eq_iff unat_word_ariths unsigned_ucast_eq take_bit_eq_mod d a)
qed

lemma sscanf_pair: "sscanf_02X (hex_digit (drop_bit 4 b)) (hex_digit (b AND 0xf)) = Some (ucast b)"
  using hex_digit_plain [OF nibbles(1) [of b]] nibbles(3) [of b]
  by (simp add: sscanf_02X_def digit_val_hex nibbles)

lemma put_word_byte: "put_word p (ucast (b :: u8)) m = m(p := b, p + 1 := 0, p + 2 := 0, p + 3 := 0)"
proof -
  have "ucast (ucast b :: u32) = b" "ucast (drop_bit 8 (ucast b :: u32)) = (0 :: u8)"
    "ucast (drop_bit 16 (ucast b :: u32)) = (0 :: u8)" "ucast (drop_bit 24 (ucast b :: u32)) = (0 :: u8)"
    by (rule bit_word_eqI; auto simp: bit_simps dest: bit_imp_le_length)+
  then show ?thesis by (simp add: put_word_def)
qed

lemma short_small: "0 \<le> n \<Longrightarrow> n < 0x8000 \<Longrightarrow> short n = n"
  by (simp add: short_def signed_take_bit_int_eq_self)

subsection \<open>What the loops store\<close>

definition stored :: "nat \<Rightarrow> u8 list \<Rightarrow> memory \<Rightarrow> memory" where
  "stored p bs m = (\<lambda>a. if p \<le> a \<and> a < p + length bs then bs ! (a - p) else m a)"

lemma stored_at: "i < length bs \<Longrightarrow> stored p bs m (p + i) = bs ! i"
  by (simp add: stored_def)

lemma stored_apart: "a < p \<or> p + length bs \<le> a \<Longrightarrow> stored p bs m a = m a"
  by (auto simp: stored_def)

lemma stored_snprintf: "snprintf_02X p b m = stored p (hex_pair b @ [0]) m"
  by (auto simp: snprintf_02X_def stored_def hex_pair_def fun_eq_iff nth_Cons' )

text \<open>A run stored over the end of an earlier one.\<close>

lemma stored_over:
  assumes "length cs \<ge> length zs"
  shows "stored (p + length bs) cs (stored p (bs @ zs) m) = stored p (bs @ cs) m"
  using assms by (auto simp: stored_def fun_eq_iff nth_append)

definition hex_pairs :: "u8 list \<Rightarrow> u8 list" where
  "hex_pairs bs = concat (map hex_pair bs)"

lemma length_hex_pairs [simp]: "length (hex_pairs bs) = 2 * length bs"
  by (induction bs) (simp_all add: hex_pairs_def hex_pair_def)

lemma BufferToHex_loop_end: "length inbuf \<le> i \<Longrightarrow> BufferToHex_loop inbuf i out x outlen m = m"
  by (subst BufferToHex_loop.simps) simp

lemma BufferToHex_loop_stored:
  assumes "i < length inbuf" "i = 0 \<or> 2 * i < outlen" "outlen < 0x7fff"
    and "k = min (length inbuf) (max 1 ((outlen + 1) div 2)) - i"
  shows "BufferToHex_loop inbuf i out (2 * int i) outlen m =
     stored (out + 2 * i) (hex_pairs (take k (drop i inbuf)) @ [0]) m"
  using assms
proof (induction "length inbuf - i" arbitrary: i k m rule: less_induct)
  case less
  let ?m = "stored (out + 2 * i) (hex_pair (inbuf ! i) @ [0]) m"
  have sh: "short (2 * int i + 2) = 2 * int (i + 1)" using less.prems short_small [of "2 * int i + 2"] by auto
  have k: "0 < k" using less.prems by auto
  have d: "take k (drop i inbuf) = inbuf ! i # take (k - 1) (drop (i + 1) inbuf)"
    using k less.prems(1) by (simp add: Cons_nth_drop_Suc [symmetric] take_Cons')
  have step: "BufferToHex_loop inbuf i out (2 * int i) outlen m =
      (if outlen \<le> 2 * (i + 1) then ?m else BufferToHex_loop inbuf (i + 1) out (2 * int (i + 1)) outlen ?m)"
    using less.prems(1) unfolding BufferToHex_loop.simps [of inbuf i] Let_def sh stored_snprintf
    by (auto simp: nat_add_distrib nat_mult_distrib)
  show ?case
  proof (cases "outlen \<le> 2 * (i + 1) \<or> i + 1 = length inbuf")
    case True
    then have "k - 1 = 0 \<or> drop (i + 1) inbuf = []" using less.prems by auto
    then have "take k (drop i inbuf) = [inbuf ! i]" using d by auto
    then have "hex_pairs (take k (drop i inbuf)) = hex_pair (inbuf ! i)" by (simp add: hex_pairs_def)
    moreover have "BufferToHex_loop inbuf i out (2 * int i) outlen m = ?m"
    proof (cases "outlen \<le> 2 * (i + 1)")
      case False
      then have "length inbuf \<le> i + 1" using True by linarith
      then show ?thesis using step False by (simp only: if_False BufferToHex_loop_end)
    qed (use step in \<open>simp only: if_True\<close>)
    ultimately show ?thesis by simp
  next
    case False
    then have a: "length inbuf - (i + 1) < length inbuf - i" "i + 1 < length inbuf"
      "i + 1 = 0 \<or> 2 * (i + 1) < outlen" "k - 1 = min (length inbuf) (max 1 ((outlen + 1) div 2)) - (i + 1)"
      and o: "\<not> outlen \<le> 2 * (i + 1)"
      using less.prems by (linarith | simp)+
    have "BufferToHex_loop inbuf i out (2 * int i) outlen m =
        stored (out + 2 * (i + 1)) (hex_pairs (take (k - 1) (drop (i + 1) inbuf)) @ [0]) ?m"
      unfolding step if_not_P [OF o] by (rule less.hyps [OF a(1-3) less.prems(3) a(4)])
    also have "\<dots> = stored (out + 2 * i) (hex_pair (inbuf ! i) @ hex_pairs (take (k - 1) (drop (i + 1) inbuf)) @ [0]) m"
      using stored_over [of "[0]" "hex_pairs (take (k - 1) (drop (i + 1) inbuf)) @ [0]" "out + 2 * i" "hex_pair (inbuf ! i)" m]
      by (simp add: hex_pair_def)
    finally show ?thesis by (simp add: d hex_pairs_def)
  qed
qed

lemma stored_put_word: "put_word p (ucast b) m = stored p [b, 0, 0, 0] m"
  by (auto simp: put_word_byte stored_def fun_eq_iff nth_Cons')

lemma hex_pairs_nth:
  "j < length bs \<Longrightarrow> hex_pairs bs ! (2 * j) = hex_digit (drop_bit 4 (bs ! j)) \<and>
     hex_pairs bs ! (2 * j + 1) = hex_digit (bs ! j AND 0xf)"
proof (induction bs arbitrary: j)
  case (Cons b bs)
  then show ?case by (cases j) (simp_all add: hex_pairs_def hex_pair_def)
qed simp

lemma HexToBuffer_loop_stored:
  assumes "j \<le> length bs" "hexstrlen = 2 * int (length bs)"  "length bs = 0 \<or> j < outlen" 
    and "k = min (length bs) outlen - j" "hexstr = hex_pairs bs"
  shows "HexToBuffer_loop hexstr hexstrlen (2 * j) out j (int outlen) m =
     (j + k, if k = 0 then m else stored (out + j) (take k (drop j bs) @ [0, 0, 0]) m)"
  using assms
proof (induction k arbitrary: j m)
  case 0
  then have "\<not> int (2 * j) < hexstrlen" by (auto simp: min_def split: if_splits)
  then have "HexToBuffer_loop hexstr hexstrlen (2 * j) out j (int outlen) m = (j, m)"
    by (subst HexToBuffer_loop.simps) (rule if_not_P)
  then show ?case by simp
next
  case (Suc k)
  have j: "j < length bs" "j < outlen" using Suc.prems by auto
  have n: "hexstr ! (2 * j) = hex_digit (drop_bit 4 (bs ! j))" "hexstr ! (2 * j + 1) = hex_digit (bs ! j AND 0xf)"
    using hex_pairs_nth [OF j(1)] Suc.prems(5) by simp_all
  have step: "HexToBuffer_loop hexstr hexstrlen (2 * j) out j (int outlen) m =
     (if j + 1 = outlen then (j + 1, stored (out + j) [bs ! j, 0, 0, 0] m)
      else HexToBuffer_loop hexstr hexstrlen (2 * (j + 1)) out (j + 1) (int outlen) (stored (out + j) [bs ! j, 0, 0, 0] m))"
    using j(1) Suc.prems(2) unfolding HexToBuffer_loop.simps [of hexstr hexstrlen "2 * j"] Let_def n sscanf_pair
    by (simp add: stored_put_word)
  have d: "take (Suc k) (drop j bs) = bs ! j # take k (drop (j + 1) bs)"
    using j(1) by (simp add: Cons_nth_drop_Suc [symmetric])
  show ?case
  proof (cases "j + 1 = outlen")
    case True
    then have "k = 0" using Suc.prems by auto
    then show ?thesis using True step d by simp
  next
    case False
    then have o: "length bs = 0 \<or> j + 1 < outlen" and k: "k = min (length bs) outlen - (j + 1)" using Suc.prems j by auto
    then have "HexToBuffer_loop hexstr hexstrlen (2 * j) out j (int outlen) m =
        (j + 1 + k, if k = 0 then stored (out + j) [bs ! j, 0, 0, 0] m
           else stored (out + (j + 1)) (take k (drop (j + 1) bs) @ [0, 0, 0]) (stored (out + j) [bs ! j, 0, 0, 0] m))"
      using step Suc.IH [OF _ Suc.prems(2) o k Suc.prems(5), of "stored (out + j) [bs ! j, 0, 0, 0] m"] False j by simp
    moreover have "stored (out + (j + 1)) (take k (drop (j + 1) bs) @ [0, 0, 0]) (stored (out + j) [bs ! j, 0, 0, 0] m) =
        stored (out + j) (bs ! j # take k (drop (j + 1) bs) @ [0, 0, 0]) m"
      using stored_over [of "[0, 0, 0]" "take k (drop (j + 1) bs) @ [0, 0, 0]" "out + j" "[bs ! j]" m] by simp
    ultimately show ?thesis using d by simp
  qed
qed

lemma BufferToHex_stored:
  assumes "xs \<noteq> []" "outlen < 0x7fff"
  shows "BufferToHex xs out outlen m =
     stored out (hex_pairs (take (max 1 ((outlen + 1) div 2)) xs) @ [0]) (filled out outlen 0 m)"
proof -
  have t: "take (min (length xs) k) xs = take k xs" for k by (simp add: min_def)
  show ?thesis
    using BufferToHex_loop_stored [of 0 xs outlen _ out "filled out outlen 0 m"] assms t
    by (simp add: BufferToHex_def)
qed

lemma HexToBuffer_stored:
  assumes "bs \<noteq> []" "0 < outlen" "length bs < 0x4000"
  shows "HexToBuffer (hex_pairs bs) out (int outlen) m =
     (int (min (length bs) outlen), stored out (take outlen bs @ [0, 0, 0]) m)"
proof -
  have t: "take (min (length bs) k) bs = take k bs" for k by (simp add: min_def)
  have s: "short (int (length (hex_pairs bs))) = 2 * int (length bs)"
    using assms(3) short_small [of "2 * int (length bs)"] by simp
  have n: "min (length bs) outlen \<noteq> 0" using assms by auto
  have "HexToBuffer_loop (hex_pairs bs) (2 * int (length bs)) 0 out 0 (int outlen) m =
      (min (length bs) outlen, stored out (take outlen bs @ [0, 0, 0]) m)"
    using HexToBuffer_loop_stored [of 0 bs "2 * int (length bs)" outlen "min (length bs) outlen" "hex_pairs bs" out m]
      assms(2) n t by (simp only: if_not_P [OF n]) simp
  then show ?thesis unfolding HexToBuffer_def s Let_def by simp
qed

lemma HexToBuffer_odd:
  assumes "length s < 0x8000" "odd (length s)"
  shows "HexToBuffer s out outlen m = (- 1, m)"
proof -
  have "short (int (length s)) = int (length s)" using assms short_small by simp
  moreover have "int (length s) mod 2 = 1" using assms(2) by presburger
  ultimately show ?thesis by (simp add: HexToBuffer_def)
qed

lemma map_stored: "map (stored p bs m) [p..<p + length bs] = bs"
  by (rule nth_equalityI) (simp_all add: stored_at)

lemma hex_pairs_no_nul: "c \<in> set (hex_pairs bs) \<Longrightarrow> c \<noteq> 0"
  using hex_digit_plain [OF nibbles(1)] hex_digit_plain [OF nibbles(2)]
  by (induction bs) (auto simp: hex_pairs_def hex_pair_def)

text \<open>The string at an address of the memory, read up to its NUL within a buffer.\<close>

definition string_in :: "nat \<Rightarrow> nat \<Rightarrow> memory \<Rightarrow> u8 list" where
  "string_in p n m = takeWhile (\<lambda>c. c \<noteq> 0) (map m [p..<p + n])"

lemma string_in_BufferToHex:
  assumes "xs \<noteq> []" "2 * length xs < outlen" "outlen < 0x7fff"
  shows "string_in out outlen (BufferToHex xs out outlen m) = hex_pairs xs"
proof -
  let ?m = "BufferToHex xs out outlen m"
  have k: "take (max 1 ((outlen + 1) div 2)) xs = xs" using assms(2) by simp
  have m: "?m = stored out (hex_pairs xs @ [0]) (filled out outlen 0 m)"
    using BufferToHex_stored [OF assms(1,3), of out m] unfolding k .
  have l: "out + length (hex_pairs xs @ [0]) \<le> out + outlen" using assms(2) by simp
  have "map ?m [out..<out + outlen] = (hex_pairs xs @ [0]) @ map ?m [out + length (hex_pairs xs @ [0])..<out + outlen]"
    unfolding m upt_add_eq_append [OF le_add1 [of out "length (hex_pairs xs @ [0])"], of "outlen - length (hex_pairs xs @ [0])",
        unfolded add.assoc le_add_diff_inverse [OF l [unfolded add_le_cancel_left]]] map_append map_stored ..
  then show ?thesis
    unfolding string_in_def using hex_pairs_no_nul [of _ xs] by (simp add: takeWhile_append2)
qed

interpretation hexcodec: codec "\<lambda>xs. string_in 0 (2 * length xs + 1) (BufferToHex xs 0 (2 * length xs + 1) (\<lambda>_. 0))"
  "\<lambda>s. let (n, m) = HexToBuffer s 0 (int (length s)) (\<lambda>_. 0) in map m [0..<nat n]"
  "\<lambda>xs. xs \<noteq> [] \<and> length xs < 0x3fff"
proof
  fix xs :: "u8 list" assume a: "xs \<noteq> [] \<and> length xs < 0x3fff"
  have "string_in 0 (2 * length xs + 1) (BufferToHex xs 0 (2 * length xs + 1) (\<lambda>_. 0)) = hex_pairs xs"
    using a by (intro string_in_BufferToHex) simp_all
  moreover have "HexToBuffer (hex_pairs xs) 0 (int (length (hex_pairs xs))) (\<lambda>_. 0) =
      (int (length xs), stored 0 (xs @ [0, 0, 0]) (\<lambda>_. 0))"
    using a HexToBuffer_stored [of xs "2 * length xs" 0 "\<lambda>_. 0"] by (simp add: min_def)
  moreover have "map (stored 0 (xs @ [0, 0, 0]) (\<lambda>_. 0)) [0..<length xs] = xs"
    by (rule nth_equalityI) (simp_all add: stored_def nth_append)
  ultimately show "(let (n, m) = HexToBuffer (string_in 0 (2 * length xs + 1) (BufferToHex xs 0 (2 * length xs + 1) (\<lambda>_. 0))) 0
        (int (length (string_in 0 (2 * length xs + 1) (BufferToHex xs 0 (2 * length xs + 1) (\<lambda>_. 0))))) (\<lambda>_. 0)
      in map m [0..<nat n]) = xs"
    by simp
qed

subsection \<open>Properties\<close>





end
