(* ===== verification/BlockHash.thy ===== *)
theory BlockHash
  imports Prelude
begin

text \<open>
  What the two message digests have in common: a message is cut into blocks of 64 bytes, a
  process function mixes one block after the other into the digest, and the bytes behind the
  last whole block are held until more bytes come or the message is padded.
\<close>

fun hash_blocks :: "('h \<Rightarrow> u8 list \<Rightarrow> 'h) \<Rightarrow> 'h \<Rightarrow> u8 list \<Rightarrow> 'h \<times> u8 list" where
  "hash_blocks process h bs =
    (if length bs < 64 then (h, bs)
     else hash_blocks process (process h (take 64 bs)) (drop 64 bs))"

declare hash_blocks.simps [simp del]

lemma hash_blocks_short: "length bs < 64 \<Longrightarrow> hash_blocks process h bs = (h, bs)"
  by (simp add: hash_blocks.simps)

lemma hash_blocks_block:
  "length b = 64 \<Longrightarrow> hash_blocks process h (b @ bs) = hash_blocks process (process h b) bs"
  by (simp add: hash_blocks.simps [of _ _ "b @ bs"])

lemma hash_blocks_step:
  "length bs \<ge> 64 \<Longrightarrow>
    hash_blocks process h bs = hash_blocks process (process h (take 64 bs)) (drop 64 bs)"
  by (simp add: hash_blocks.simps [of _ _ bs])

lemma hash_blocks_rest_length: "length (snd (hash_blocks process h bs)) = length bs mod 64"
proof (induction process h bs rule: hash_blocks.induct)
  case (1 process h bs)
  show ?case
  proof (cases "length bs < 64")
    case True
    then show ?thesis by (simp add: hash_blocks_short)
  next
    case False
    then show ?thesis using 1 by (simp add: hash_blocks_step le_mod_geq)
  qed
qed

lemma hash_blocks_append:
  "hash_blocks process h (as @ bs) =
    hash_blocks process (fst (hash_blocks process h as)) (snd (hash_blocks process h as) @ bs)"
proof (induction process h as rule: hash_blocks.induct)
  case (1 process h as)
  show ?case
  proof (cases "length as < 64")
    case True
    then show ?thesis by (simp add: hash_blocks_short)
  next
    case False
    then have "hash_blocks process h (as @ bs) =
        hash_blocks process (process h (take 64 as)) (drop 64 as @ bs)"
      by (subst hash_blocks_step) simp_all
    then show ?thesis using 1 False by (simp add: hash_blocks_step [of as])
  qed
qed

text \<open>A message that comes in parts.\<close>

fun feed_all :: "(u8 list \<Rightarrow> 's \<Rightarrow> 's option) \<Rightarrow> u8 list list \<Rightarrow> 's \<Rightarrow> 's option" where
  "feed_all feed [] s = Some s"
| "feed_all feed (bs # bss) s = Option.bind (feed bs s) (feed_all feed bss)"

text \<open>
  A digest that takes its message in parts: \<^verbatim>\<open>feed\<close> adds a part of fewer than \<^verbatim>\<open>most\<close>
  bytes to a state, \<^verbatim>\<open>view\<close> reads the digest so far and the bytes held back, and \<^verbatim>\<open>bits\<close> counts.
\<close>

locale block_hash =
  fixes process :: "'h \<Rightarrow> u8 list \<Rightarrow> 'h"
    and feed :: "u8 list \<Rightarrow> 's \<Rightarrow> 's option"
    and ok :: "'s \<Rightarrow> bool"
    and view :: "'s \<Rightarrow> 'h \<times> u8 list"
    and bits :: "'s \<Rightarrow> nat"
    and most :: nat
  assumes feed_ok: "ok s \<Longrightarrow> length bs < most \<Longrightarrow> bits s + 8 * length bs < 2 ^ 64 \<Longrightarrow>
      \<exists>s'. feed bs s = Some s' \<and> ok s' \<and> bits s' = bits s + 8 * length bs \<and>
        view s' = hash_blocks process (fst (view s)) (snd (view s) @ bs)"
begin

lemma feed_all_concat:
  assumes "ok s" "\<forall>bs \<in> set bss. length bs < most" "bits s + 8 * length (concat bss) < 2 ^ 64"
    and "length (snd (view s)) < 64"
  shows "\<exists>s'. feed_all feed bss s = Some s' \<and> ok s' \<and> bits s' = bits s + 8 * length (concat bss) \<and>
    view s' = hash_blocks process (fst (view s)) (snd (view s) @ concat bss)"
  using assms
proof (induction bss arbitrary: s)
  case Nil
  then show ?case by (simp add: hash_blocks_short)
next
  case (Cons bs bss)
  obtain t where t: "feed bs s = Some t" "ok t" "bits t = bits s + 8 * length bs"
      "view t = hash_blocks process (fst (view s)) (snd (view s) @ bs)"
    using feed_ok [of s bs] Cons.prems by auto
  have "length (snd (view t)) < 64"
    by (simp add: t(4) hash_blocks_rest_length)
  then obtain u where u: "feed_all feed bss t = Some u" "ok u" "bits u = bits t + 8 * length (concat bss)"
      "view u = hash_blocks process (fst (view t)) (snd (view t) @ concat bss)"
    using Cons.IH [of t] Cons.prems t(2,3) by auto
  have "view u = hash_blocks process (fst (view s)) (snd (view s) @ concat (bs # bss))"
    using u(4) hash_blocks_append [of process "fst (view s)" "snd (view s) @ bs" "concat bss"]
    by (simp add: t(4))
  then show ?case using t u by (auto simp: add_mult_distrib2)
qed

end

subsection \<open>Words and bytes\<close>

lemma rotl_shifts:
  assumes "0 < n" "n < 32"
  shows "push_bit n w OR drop_bit (32 - n) w = word_rotl n (w :: u32)"
proof (rule bit_word_eqI)
  fix i :: nat
  assume i: "i < LENGTH(32)"
  show "bit (push_bit n w OR drop_bit (32 - n) w) i = bit (word_rotl n w) i"
  proof (cases "i < n")
    case True
    then have "(i + (32 - n)) mod 32 = 32 - n + i" using assms by simp
    then show ?thesis using assms i True by (simp add: bit_simps bit_word_rotl_iff)
  next
    case False
    then have "(i + (32 - n)) mod 32 = i - n" using assms i by (simp add: mod_if)
    then show ?thesis
      using assms i False by (auto simp: bit_simps bit_word_rotl_iff dest: bit_imp_le_length)
  qed
qed

lemma four_bytes:
  "word_rcat [a, b, c, d :: u8] =
    (push_bit 24 (ucast a) OR push_bit 16 (ucast b) OR push_bit 8 (ucast c) OR ucast d :: u32)"
proof (rule bit_word_eqI)
  fix i :: nat
  assume i: "i < LENGTH(32)"
  have "i div 8 = 0 \<or> i div 8 = 1 \<or> i div 8 = 2 \<or> i div 8 = 3"
    using i by auto
  moreover have m: "i mod 8 = i - 8 * (i div 8)" by (simp add: minus_mult_div_eq_mod [symmetric])
  moreover have "bit (word_rcat [a, b, c, d] :: u32) i \<longleftrightarrow> i div 8 < 4 \<and> bit ([d, c, b, a] ! (i div 8)) (i mod 8)"
  proof -
    have "bit (word_rcat [a, b, c, d] :: u32) i \<longleftrightarrow> i < LENGTH(32) \<and> i div LENGTH(8) < length (rev [a, b, c, d]) \<and>
        bit (rev [a, b, c, d] ! (i div LENGTH(8))) (i mod LENGTH(8))"
      by (simp only: word_rcat_def comp_apply bit_word_of_int_iff bit_horner_sum_uint_exp_iff)
    moreover have "length (rev [a, b, c, d]) = 4" "rev [a, b, c, d] = [d, c, b, a]" by simp_all
    ultimately show ?thesis using i by (simp only: len_num1 len_bit0 len_bit1 mult_1_right) simp
  qed
  ultimately show "bit (word_rcat [a, b, c, d] :: u32) i =
      bit (push_bit 24 (ucast a) OR push_bit 16 (ucast b) OR push_bit 8 (ucast c) OR ucast d :: u32) i"
    using i by (elim disjE) (auto simp: bit_simps m dest: bit_imp_le_length)
qed

lemma word_of_nat_u8_eq: "(word_of_nat a :: u8) = word_of_nat b \<longleftrightarrow> a mod 256 = b mod 256"
  by (simp add: word_of_nat_eq_iff take_bit_eq_mod)

lemma unat_u32_less: "unat (w :: u32) < 4294967296"
  using unsigned_less [of w] by simp

text \<open>The bytes of a pair of words are those of the number it stands for.\<close>

lemma byte_of_word: "(ucast (drop_bit k (w :: u32)) :: u8) = word_of_nat (unat w div 2 ^ k)"
proof -
  have "(ucast (drop_bit k w) :: u8) = word_of_nat (unat (drop_bit k w))"
    by (simp only: of_nat_unat)
  also have "unat (drop_bit k w) = unat w div 2 ^ k"
    unfolding unat_drop_bit_eq by (rule drop_bit_eq_div)
  finally show ?thesis .
qed

lemma byte_of_high:
  "(word_of_nat ((unat h * 2 ^ 32 + unat (l :: u32)) div 2 ^ (32 + k)) :: u8) = ucast (drop_bit k (h :: u32))"
proof -
  have "unat l < 2 ^ 32" using unsigned_less [of l] by simp
  then have "(unat h * 2 ^ 32 + unat l) div 2 ^ (32 + k) = unat h div 2 ^ k"
    by (simp add: power_add div_mult2_eq)
  then show ?thesis by (simp only: byte_of_word)
qed

lemma byte_of_low:
  assumes "k \<le> 24"
  shows "(word_of_nat ((unat (h :: u32) * 2 ^ 32 + unat l) div 2 ^ k) :: u8) = ucast (drop_bit k (l :: u32))"
proof -
  have "unat h * 2 ^ 32 + unat l = unat h * 2 ^ (24 - k) * 256 * 2 ^ k + unat l"
  proof -
    have "(2 :: nat) ^ 32 = 2 ^ (24 - k) * 256 * 2 ^ k"
      using assms power_add [of "2 :: nat" "24 - k" k] by (simp add: mult.commute)
    then show ?thesis by (simp only: mult.assoc)
  qed
  then have "(unat h * 2 ^ 32 + unat l) div 2 ^ k = unat h * 2 ^ (24 - k) * 256 + unat l div 2 ^ k"
    by (simp only: div_mult_self3 power_not_zero zero_neq_numeral not_False_eq_True)
  then show ?thesis unfolding byte_of_word word_of_nat_u8_eq by simp
qed

lemma byte_of_lows:
  fixes h l :: u32
  defines "n \<equiv> unat h * 2 ^ 32 + unat l"
  shows "(word_of_nat (n div 2 ^ 24) :: u8) = ucast (drop_bit 24 l)"
    "(word_of_nat (n div 2 ^ 16) :: u8) = ucast (drop_bit 16 l)"
    "(word_of_nat (n div 2 ^ 8) :: u8) = ucast (drop_bit 8 l)"
    "(word_of_nat (n div 2 ^ 0) :: u8) = ucast (drop_bit 0 l)"
  unfolding n_def by (rule byte_of_low; simp)+

end
