(* ===== verification/Md5.thy ===== *)
theory Md5
  imports BlockHash
begin

text \<open>
  \<^verbatim>\<open>bsp/easyio_core/MD5/md5sum.c\<close>: the digest of a message that comes in parts. The code finds
  out at run time how the machine orders the bytes of a word; the model takes the answer as the
  argument \<^verbatim>\<open>little\<close>. A read behind the caller's data and a write behind \<^verbatim>\<open>buf\<close> are \<^term>\<open>None\<close>.
  The reference is the one of RFC 1321 in its uniform form: the word, the shift and the function
  of a step are computed from its number, and the four registers move round.
\<close>

subsection \<open>The state\<close>

record md5_state =
  md5_count :: "u32 list"
  abcd :: "u32 list"
  md5_buf :: "u8 list"

definition T_MASK :: u32 where
  "T_MASK = NOT 0"

definition md5_T :: "u32 list" where
  "md5_T =
    [T_MASK XOR 0x28955b87, T_MASK XOR 0x173848a9, 0x242070db,
     T_MASK XOR 0x3e423111, T_MASK XOR 0x0a83f050, 0x4787c62a,
     T_MASK XOR 0x57cfb9ec, T_MASK XOR 0x02b96afe, 0x698098d8,
     T_MASK XOR 0x74bb0850, T_MASK XOR 0x0000a44e, T_MASK XOR 0x76a32841,
     0x6b901122, T_MASK XOR 0x02678e6c, T_MASK XOR 0x5986bc71,
     0x49b40821, T_MASK XOR 0x09e1da9d, T_MASK XOR 0x3fbf4cbf,
     0x265e5a51, T_MASK XOR 0x16493855, T_MASK XOR 0x29d0efa2,
     0x02441453, T_MASK XOR 0x275e197e, T_MASK XOR 0x182c0437,
     0x21e1cde6, T_MASK XOR 0x3cc8f829, T_MASK XOR 0x0b2af278,
     0x455a14ed, T_MASK XOR 0x561c16fa, T_MASK XOR 0x03105c07,
     0x676f02d9, T_MASK XOR 0x72d5b375, T_MASK XOR 0x0005c6bd,
     T_MASK XOR 0x788e097e, 0x6d9d6122, T_MASK XOR 0x021ac7f3,
     T_MASK XOR 0x5b4115bb, 0x4bdecfa9, T_MASK XOR 0x0944b49f,
     T_MASK XOR 0x4140438f, 0x289b7ec6, T_MASK XOR 0x155ed805,
     T_MASK XOR 0x2b10cf7a, 0x04881d05, T_MASK XOR 0x262b2fc6,
     T_MASK XOR 0x1924661a, 0x1fa27cf8, T_MASK XOR 0x3b53a99a,
     T_MASK XOR 0x0bd6ddbb, 0x432aff97, T_MASK XOR 0x546bdc58,
     T_MASK XOR 0x036c5fc6, 0x655b59c3, T_MASK XOR 0x70f3336d,
     T_MASK XOR 0x00100b82, T_MASK XOR 0x7a7ba22e, 0x6fa87e4f,
     T_MASK XOR 0x01d3191f, T_MASK XOR 0x5cfebceb, 0x4e0811a1,
     T_MASK XOR 0x08ac817d, T_MASK XOR 0x42c50dca, 0x2ad7d2bb,
     T_MASK XOR 0x14792c6e]"

definition md5_init :: "md5_state \<Rightarrow> md5_state" where
  "md5_init pms =
    pms\<lparr>md5_count := [0, 0],
      abcd := [0x67452301, T_MASK XOR 0x10325476, T_MASK XOR 0x67452301, 0x10325476]\<rparr>"

subsection \<open>One block\<close>

text \<open>
  On a little-endian machine the words are read from the data, or from a copy of it when it is
  not aligned; on a big-endian one they are put together from the bytes.
\<close>

definition md5_words :: "bool \<Rightarrow> u8 list \<Rightarrow> u32 list" where
  "md5_words little data =
    (if little then map (\<lambda>i. word_rcat (rev (take 4 (drop (4 * i) data)))) [0..<16]
     else map (\<lambda>i. let xp = drop (4 * i) data in
       ucast (xp ! 0) + push_bit 8 (ucast (xp ! 1)) + push_bit 16 (ucast (xp ! 2)) +
       push_bit 24 (ucast (xp ! 3))) [0..<16])"

definition ROTATE_LEFT :: "u32 \<Rightarrow> nat \<Rightarrow> u32" where
  "ROTATE_LEFT x n = push_bit n x OR drop_bit (32 - n) x"

definition md5_F :: "u32 \<Rightarrow> u32 \<Rightarrow> u32 \<Rightarrow> u32" where
  "md5_F x y z = (x AND y) OR (NOT x AND z)"

definition md5_G :: "u32 \<Rightarrow> u32 \<Rightarrow> u32 \<Rightarrow> u32" where
  "md5_G x y z = (x AND z) OR (y AND NOT z)"

definition md5_H :: "u32 \<Rightarrow> u32 \<Rightarrow> u32 \<Rightarrow> u32" where
  "md5_H x y z = x XOR y XOR z"

definition md5_I :: "u32 \<Rightarrow> u32 \<Rightarrow> u32 \<Rightarrow> u32" where
  "md5_I x y z = y XOR (x OR NOT z)"

text \<open>
  A use of the macro \<^verbatim>\<open>SET(a, b, c, d, k, s, Ti)\<close> is a row: the places of its four registers among
  \<^verbatim>\<open>a, b, c, d\<close>, the word, the shift and the constant.
\<close>

type_synonym md5_row = "nat \<times> nat \<times> nat \<times> nat \<times> nat \<times> nat \<times> u32"

fun md5_set :: "(u32 \<Rightarrow> u32 \<Rightarrow> u32 \<Rightarrow> u32) \<Rightarrow> u32 list \<Rightarrow> u32 list \<Rightarrow> md5_row \<Rightarrow> u32 list" where
  "md5_set f X v (a, b, c, d, k, s, Ti) =
    (let t = v ! a + f (v ! b) (v ! c) (v ! d) + X ! k + Ti
     in v[a := ROTATE_LEFT t s + v ! b])"

definition md5_rows_1 :: "md5_row list" where
  "md5_rows_1 =
    [(0, 1, 2, 3, 0, 7, md5_T ! 0), (3, 0, 1, 2, 1, 12, md5_T ! 1),
     (2, 3, 0, 1, 2, 17, md5_T ! 2), (1, 2, 3, 0, 3, 22, md5_T ! 3),
     (0, 1, 2, 3, 4, 7, md5_T ! 4), (3, 0, 1, 2, 5, 12, md5_T ! 5),
     (2, 3, 0, 1, 6, 17, md5_T ! 6), (1, 2, 3, 0, 7, 22, md5_T ! 7),
     (0, 1, 2, 3, 8, 7, md5_T ! 8), (3, 0, 1, 2, 9, 12, md5_T ! 9),
     (2, 3, 0, 1, 10, 17, md5_T ! 10), (1, 2, 3, 0, 11, 22, md5_T ! 11),
     (0, 1, 2, 3, 12, 7, md5_T ! 12), (3, 0, 1, 2, 13, 12, md5_T ! 13),
     (2, 3, 0, 1, 14, 17, md5_T ! 14), (1, 2, 3, 0, 15, 22, md5_T ! 15)]"

definition md5_rows_2 :: "md5_row list" where
  "md5_rows_2 =
    [(0, 1, 2, 3, 1, 5, md5_T ! 16), (3, 0, 1, 2, 6, 9, md5_T ! 17),
     (2, 3, 0, 1, 11, 14, md5_T ! 18), (1, 2, 3, 0, 0, 20, md5_T ! 19),
     (0, 1, 2, 3, 5, 5, md5_T ! 20), (3, 0, 1, 2, 10, 9, md5_T ! 21),
     (2, 3, 0, 1, 15, 14, md5_T ! 22), (1, 2, 3, 0, 4, 20, md5_T ! 23),
     (0, 1, 2, 3, 9, 5, md5_T ! 24), (3, 0, 1, 2, 14, 9, md5_T ! 25),
     (2, 3, 0, 1, 3, 14, md5_T ! 26), (1, 2, 3, 0, 8, 20, md5_T ! 27),
     (0, 1, 2, 3, 13, 5, md5_T ! 28), (3, 0, 1, 2, 2, 9, md5_T ! 29),
     (2, 3, 0, 1, 7, 14, md5_T ! 30), (1, 2, 3, 0, 12, 20, md5_T ! 31)]"

definition md5_rows_3 :: "md5_row list" where
  "md5_rows_3 =
    [(0, 1, 2, 3, 5, 4, md5_T ! 32), (3, 0, 1, 2, 8, 11, md5_T ! 33),
     (2, 3, 0, 1, 11, 16, md5_T ! 34), (1, 2, 3, 0, 14, 23, md5_T ! 35),
     (0, 1, 2, 3, 1, 4, md5_T ! 36), (3, 0, 1, 2, 4, 11, md5_T ! 37),
     (2, 3, 0, 1, 7, 16, md5_T ! 38), (1, 2, 3, 0, 10, 23, md5_T ! 39),
     (0, 1, 2, 3, 13, 4, md5_T ! 40), (3, 0, 1, 2, 0, 11, md5_T ! 41),
     (2, 3, 0, 1, 3, 16, md5_T ! 42), (1, 2, 3, 0, 6, 23, md5_T ! 43),
     (0, 1, 2, 3, 9, 4, md5_T ! 44), (3, 0, 1, 2, 12, 11, md5_T ! 45),
     (2, 3, 0, 1, 15, 16, md5_T ! 46), (1, 2, 3, 0, 2, 23, md5_T ! 47)]"

definition md5_rows_4 :: "md5_row list" where
  "md5_rows_4 =
    [(0, 1, 2, 3, 0, 6, md5_T ! 48), (3, 0, 1, 2, 7, 10, md5_T ! 49),
     (2, 3, 0, 1, 14, 15, md5_T ! 50), (1, 2, 3, 0, 5, 21, md5_T ! 51),
     (0, 1, 2, 3, 12, 6, md5_T ! 52), (3, 0, 1, 2, 3, 10, md5_T ! 53),
     (2, 3, 0, 1, 10, 15, md5_T ! 54), (1, 2, 3, 0, 1, 21, md5_T ! 55),
     (0, 1, 2, 3, 8, 6, md5_T ! 56), (3, 0, 1, 2, 15, 10, md5_T ! 57),
     (2, 3, 0, 1, 6, 15, md5_T ! 58), (1, 2, 3, 0, 13, 21, md5_T ! 59),
     (0, 1, 2, 3, 4, 6, md5_T ! 60), (3, 0, 1, 2, 11, 10, md5_T ! 61),
     (2, 3, 0, 1, 2, 15, md5_T ! 62), (1, 2, 3, 0, 9, 21, md5_T ! 63)]"

definition md5_process :: "bool \<Rightarrow> u8 list \<Rightarrow> md5_state \<Rightarrow> md5_state" where
  "md5_process little data pms =
    (let X = md5_words little data;
         v = foldl (md5_set md5_F X) (abcd pms) md5_rows_1;
         v = foldl (md5_set md5_G X) v md5_rows_2;
         v = foldl (md5_set md5_H X) v md5_rows_3;
         v = foldl (md5_set md5_I X) v md5_rows_4
     in pms\<lparr>abcd := [abcd pms ! 0 + v ! 0, abcd pms ! 1 + v ! 1, abcd pms ! 2 + v ! 2, abcd pms ! 3 + v ! 3]\<rparr>)"

subsection \<open>Appending\<close>

text \<open>\<^verbatim>\<open>memcpy(pms->buf + off, p, n)\<close>\<close>

definition copy_to_buf :: "nat \<Rightarrow> u8 list \<Rightarrow> nat \<Rightarrow> md5_state \<Rightarrow> md5_state option" where
  "copy_to_buf off p n pms =
    (if n \<le> length p \<and> off + n \<le> length (md5_buf pms) then
       Some (pms\<lparr>md5_buf := take off (md5_buf pms) @ take n p @ drop (off + n) (md5_buf pms)\<rparr>)
     else None)"

definition add_count :: "int \<Rightarrow> md5_state \<Rightarrow> md5_state" where
  "add_count nbytes pms =
    (let nbits = word_of_int (push_bit 3 nbytes);
         c1 = md5_count pms ! 1 + word_of_int (drop_bit 29 nbytes);
         c0 = md5_count pms ! 0 + nbits
     in pms\<lparr>md5_count := [c0, if c0 < nbits then c1 + 1 else c1]\<rparr>)"

fun full_blocks :: "bool \<Rightarrow> u8 list \<Rightarrow> nat \<Rightarrow> md5_state \<Rightarrow> (u8 list \<times> nat \<times> md5_state) option" where
  "full_blocks little p left pms =
    (if left \<ge> 64 then
       if length p < 64 then None
       else full_blocks little (drop 64 p) (left - 64) (md5_process little (take 64 p) pms)
     else Some (p, left, pms))"

declare full_blocks.simps [simp del]

definition append_rest :: "bool \<Rightarrow> u8 list \<Rightarrow> nat \<Rightarrow> md5_state \<Rightarrow> md5_state option" where
  "append_rest little p left pms = do {
    (p, left, pms) \<leftarrow> full_blocks little p left pms;
    if left \<noteq> 0 then copy_to_buf 0 p left pms else Some pms
  }"

definition md5_append :: "bool \<Rightarrow> u8 list \<Rightarrow> int \<Rightarrow> md5_state \<Rightarrow> md5_state option" where
  "md5_append little data nbytes pms =
    (let offset = unat (drop_bit 3 (md5_count pms ! 0) AND 63)
     in if nbytes \<le> 0 then Some pms
        else let pms = add_count nbytes pms; left = nat nbytes
        in if offset \<noteq> 0 then
             let copy = (if offset + left > 64 then 64 - offset else left)
             in do {
               pms \<leftarrow> copy_to_buf offset data copy pms;
               if offset + copy < 64 then Some pms
               else append_rest little (drop copy data) (left - copy)
                 (md5_process little (md5_buf pms) pms)
             }
           else append_rest little data left pms)"

subsection \<open>The digest\<close>

definition md5_pad :: "u8 list" where
  "md5_pad = 0x80 # replicate 63 0"

definition le_bytes :: "u32 list \<Rightarrow> nat \<Rightarrow> u8 list" where
  "le_bytes ws n = map (\<lambda>i. ucast (drop_bit (i mod 4 * 8) (ws ! (i div 4)))) [0..<n]"

definition md5_finish :: "bool \<Rightarrow> md5_state \<Rightarrow> (u8 list \<times> md5_state) option" where
  "md5_finish little pms = do {
    let data = le_bytes (md5_count pms) 8;
    pms \<leftarrow> md5_append little md5_pad
      (uint (((55 - drop_bit 3 (md5_count pms ! 0)) AND 63) + 1)) pms;
    pms \<leftarrow> md5_append little data 8 pms;
    Some (le_bytes (abcd pms) 16, pms)
  }"

subsection \<open>RFC 1321\<close>

definition rfc_T :: "u32 list" where
  "rfc_T =
    [0xd76aa478, 0xe8c7b756, 0x242070db, 0xc1bdceee, 0xf57c0faf, 0x4787c62a, 0xa8304613, 0xfd469501,
     0x698098d8, 0x8b44f7af, 0xffff5bb1, 0x895cd7be, 0x6b901122, 0xfd987193, 0xa679438e, 0x49b40821,
     0xf61e2562, 0xc040b340, 0x265e5a51, 0xe9b6c7aa, 0xd62f105d, 0x02441453, 0xd8a1e681, 0xe7d3fbc8,
     0x21e1cde6, 0xc33707d6, 0xf4d50d87, 0x455a14ed, 0xa9e3e905, 0xfcefa3f8, 0x676f02d9, 0x8d2a4c8a,
     0xfffa3942, 0x8771f681, 0x6d9d6122, 0xfde5380c, 0xa4beea44, 0x4bdecfa9, 0xf6bb4b60, 0xbebfbc70,
     0x289b7ec6, 0xeaa127fa, 0xd4ef3085, 0x04881d05, 0xd9d4d039, 0xe6db99e5, 0x1fa27cf8, 0xc4ac5665,
     0xf4292244, 0x432aff97, 0xab9423a7, 0xfc93a039, 0x655b59c3, 0x8f0ccc92, 0xffeff47d, 0x85845dd1,
     0x6fa87e4f, 0xfe2ce6e0, 0xa3014314, 0x4e0811a1, 0xf7537e82, 0xbd3af235, 0x2ad7d2bb, 0xeb86d391]"

definition rfc_g :: "nat \<Rightarrow> nat" where
  "rfc_g i = (if i < 16 then i else if i < 32 then (5 * i + 1) mod 16
    else if i < 48 then (3 * i + 5) mod 16 else (7 * i) mod 16)"

definition rfc_s :: "nat \<Rightarrow> nat" where
  "rfc_s i = [[7, 12, 17, 22], [5, 9, 14, 20], [4, 11, 16, 23], [6, 10, 15, 21]] ! (i div 16) ! (i mod 4)"

definition rfc_f :: "nat \<Rightarrow> u32 \<Rightarrow> u32 \<Rightarrow> u32 \<Rightarrow> u32" where
  "rfc_f i x y z =
    (if i < 16 then (x AND y) OR (NOT x AND z) else if i < 32 then (x AND z) OR (y AND NOT z)
     else if i < 48 then x XOR y XOR z else y XOR (x OR NOT z))"

type_synonym registers = "u32 \<times> u32 \<times> u32 \<times> u32"

fun rfc_steps :: "(nat \<Rightarrow> u32) \<Rightarrow> nat \<Rightarrow> registers \<Rightarrow> registers" where
  "rfc_steps M 0 r = r"
| "rfc_steps M (Suc i) r =
    (case rfc_steps M i r of (a, b, c, d) \<Rightarrow>
      (d, b + word_rotl (rfc_s i) (a + rfc_f i b c d + M (rfc_g i) + rfc_T ! i), b, c))"

definition rfc_process :: "u32 list \<Rightarrow> u8 list \<Rightarrow> u32 list" where
  "rfc_process H block =
    (case rfc_steps (\<lambda>i. word_rcat (rev (take 4 (drop (4 * i) block)))) 64
        (H ! 0, H ! 1, H ! 2, H ! 3) of
      (a, b, c, d) \<Rightarrow> [H ! 0 + a, H ! 1 + b, H ! 2 + c, H ! 3 + d])"

definition rfc_padding :: "nat \<Rightarrow> u8 list" where
  "rfc_padding n =
    0x80 # replicate ((119 - n mod 64) mod 64) 0 @ map (\<lambda>i. word_of_nat (8 * n div 256 ^ i)) [0..<8]"

definition md5 :: "u8 list \<Rightarrow> u8 list" where
  "md5 message =
    le_bytes (fst (hash_blocks rfc_process [0x67452301, 0xefcdab89, 0x98badcfe, 0x10325476]
      (message @ rfc_padding (length message)))) 16"

subsection \<open>The blocks\<close>

lemma md5_words_little: "length data = 64 \<Longrightarrow> md5_words little data = md5_words True data"
proof -
  assume len: "length data = 64"
  have plus: "ucast x0 + push_bit 8 (ucast x1) + push_bit 16 (ucast x2) + push_bit 24 (ucast x3) =
      (word_rcat [x3, x2, x1, x0 :: u8] :: u32)" for x0 x1 x2 x3
  proof -
    have "ucast x0 + push_bit 8 (ucast x1) = (ucast x0 OR push_bit 8 (ucast x1) :: u32)"
      by (rule disjunctive_add) (auto simp: bit_simps dest: bit_imp_le_length)
    moreover have "(ucast x0 OR push_bit 8 (ucast x1)) + push_bit 16 (ucast x2) =
        (ucast x0 OR push_bit 8 (ucast x1) OR push_bit 16 (ucast x2) :: u32)"
      unfolding or.assoc [symmetric]
      by (rule disjunctive_add) (auto simp: bit_simps dest: bit_imp_le_length)
    moreover have "(ucast x0 OR push_bit 8 (ucast x1) OR push_bit 16 (ucast x2)) + push_bit 24 (ucast x3) =
        (ucast x0 OR push_bit 8 (ucast x1) OR push_bit 16 (ucast x2) OR push_bit 24 (ucast x3) :: u32)"
      unfolding or.assoc [symmetric]
      by (rule disjunctive_add) (auto simp: bit_simps dest: bit_imp_le_length)
    ultimately show ?thesis by (simp add: four_bytes ac_simps)
  qed
  have "rev (take 4 (drop (4 * i) data)) =
      [drop (4 * i) data ! 3, drop (4 * i) data ! 2, drop (4 * i) data ! 1, drop (4 * i) data ! 0]"
    if "i < 16" for i
  proof -
    have "take 4 (drop (4 * i) data) = [drop (4 * i) data ! 0, drop (4 * i) data ! 1,
        drop (4 * i) data ! 2, drop (4 * i) data ! 3]"
      using len that by (intro nth_equalityI) (auto simp: less_Suc_eq numeral_eq_Suc)
    then show ?thesis by simp
  qed
  then show ?thesis by (cases little) (simp_all add: md5_words_def Let_def plus)
qed

text \<open>The row of a step, and the places the four registers have moved to.\<close>

definition row_at :: "nat \<Rightarrow> md5_row" where
  "row_at i = (3 * i mod 4, (3 * i + 1) mod 4, (3 * i + 2) mod 4, (3 * i + 3) mod 4,
    rfc_g i, rfc_s i, rfc_T ! i)"

lemma md5_T_rfc: "md5_T = rfc_T"
  by (simp add: md5_T_def rfc_T_def T_MASK_def)

lemma md5_rows:
  "md5_rows_1 = map row_at [0..<16]" "md5_rows_2 = map row_at [16..<32]"
  "md5_rows_3 = map row_at [32..<48]" "md5_rows_4 = map row_at [48..<64]"
  by (simp_all add: md5_rows_1_def md5_rows_2_def md5_rows_3_def md5_rows_4_def row_at_def md5_T_rfc
      rfc_g_def rfc_s_def rfc_T_def upt_rec)

definition regs :: "nat \<Rightarrow> u32 list \<Rightarrow> registers" where
  "regs i v = (v ! (3 * i mod 4), v ! ((3 * i + 1) mod 4), v ! ((3 * i + 2) mod 4), v ! ((3 * i + 3) mod 4))"

lemma ROTATE_LEFT_rotl: "0 < n \<Longrightarrow> n < 32 \<Longrightarrow> ROTATE_LEFT w n = word_rotl n w"
  by (simp add: ROTATE_LEFT_def rotl_shifts)

lemma rfc_s_range: "i < 64 \<Longrightarrow> 0 < rfc_s i \<and> rfc_s i < 32"
proof -
  assume "i < 64"
  then have "i div 16 \<in> {0, 1, 2, 3}" by auto
  moreover have "i mod 4 \<in> {0, 1, 2, 3}" by auto
  ultimately show ?thesis by (auto simp: rfc_s_def)
qed

lemma md5_set_step:
  assumes v: "length v = 4" and i: "i < 64" and f: "f = rfc_f i" and X: "X ! rfc_g i = M (rfc_g i)"
    and r: "regs i v = rfc_steps M i r"
  shows "regs (Suc i) (md5_set f X v (row_at i)) = rfc_steps M (Suc i) r"
proof -
  have m: "(3 * n + j) mod 4 = (3 * (n mod 4) + j) mod 4" for n j :: nat
    by (metis mod_add_left_eq mod_mult_right_eq)
  have "i mod 4 = 0 \<or> i mod 4 = 1 \<or> i mod 4 = 2 \<or> i mod 4 = 3" by auto
  then have "3 * i mod 4 = 0 \<and> (3 * i + 1) mod 4 = 1 \<and> (3 * i + 2) mod 4 = 2 \<and> (3 * i + 3) mod 4 = 3 \<or>
    3 * i mod 4 = 3 \<and> (3 * i + 1) mod 4 = 0 \<and> (3 * i + 2) mod 4 = 1 \<and> (3 * i + 3) mod 4 = 2 \<or>
    3 * i mod 4 = 2 \<and> (3 * i + 1) mod 4 = 3 \<and> (3 * i + 2) mod 4 = 0 \<and> (3 * i + 3) mod 4 = 1 \<or>
    3 * i mod 4 = 1 \<and> (3 * i + 1) mod 4 = 2 \<and> (3 * i + 2) mod 4 = 3 \<and> (3 * i + 3) mod 4 = 0"
    using m [of i 0] m [of i 1] m [of i 2] m [of i 3] by (elim disjE) simp_all
  moreover have "3 * Suc i mod 4 = (3 * i + 3) mod 4" by (simp add: ac_simps)
  moreover have "3 * Suc i + 1 = 3 * i + 4" "3 * Suc i + 2 = 3 * i + 1 + 4"
    "3 * Suc i + 3 = 3 * i + 2 + 4" by simp_all
  then have "(3 * Suc i + 1) mod 4 = 3 * i mod 4"
    "(3 * Suc i + 2) mod 4 = (3 * i + 1) mod 4" "(3 * Suc i + 3) mod 4 = (3 * i + 2) mod 4"
    by (simp_all only: mod_add_self2)
  ultimately show ?thesis
    unfolding rfc_steps.simps r [symmetric] regs_def row_at_def
    using v rfc_s_range [OF i]
    by (elim disjE) (simp_all only: md5_set.simps Let_def f X prod.case, simp_all add: ROTATE_LEFT_rotl ac_simps)
qed

lemma md5_set_length: "length (md5_set f X v row) = length v"
  by (cases row) (simp add: Let_def)

lemma md5_rounds:
  assumes "a \<le> b" "b \<le> 64" "length v = 4" "regs a v = rfc_steps M a r"
    and "\<And>i. a \<le> i \<Longrightarrow> i < b \<Longrightarrow> f = rfc_f i \<and> X ! rfc_g i = M (rfc_g i)"
  shows "length (foldl (md5_set f X) v (map row_at [a..<b])) = 4 \<and>
    regs b (foldl (md5_set f X) v (map row_at [a..<b])) = rfc_steps M b r"
  using assms
proof (induction b rule: dec_induct)
  case (step n)
  then show ?case
    by (simp add: md5_set_step md5_set_length del: rfc_steps.simps)
qed simp

lemma md5_process_rfc:
  assumes "length data = 64" "length (abcd pms) = 4"
  shows "md5_process little data pms = pms\<lparr>abcd := rfc_process (abcd pms) data\<rparr>"
proof -
  let ?X = "md5_words True data" and ?H = "abcd pms"
  let ?M = "\<lambda>i. word_rcat (rev (take 4 (drop (4 * i) data))) :: u32"
  let ?r = "(?H ! 0, ?H ! 1, ?H ! 2, ?H ! 3)"
  let ?v1 = "foldl (md5_set md5_F ?X) ?H md5_rows_1"
  let ?v2 = "foldl (md5_set md5_G ?X) ?v1 md5_rows_2"
  let ?v3 = "foldl (md5_set md5_H ?X) ?v2 md5_rows_3"
  let ?v4 = "foldl (md5_set md5_I ?X) ?v3 md5_rows_4"
  have X: "?X ! rfc_g i = ?M (rfc_g i)" if "i < 64" for i
  proof -
    have "rfc_g i < 16" using that by (simp add: rfc_g_def)
    then show ?thesis by (simp add: md5_words_def)
  qed
  have 0: "length ?H = 4" "regs 0 ?H = rfc_steps ?M 0 ?r"
    using assms(2) by (simp_all add: regs_def) (simp add: numeral_2_eq_2)
  have 1: "length ?v1 = 4" "regs 16 ?v1 = rfc_steps ?M 16 ?r"
    unfolding md5_rows using md5_rounds [of 0 16 ?H ?M ?r md5_F ?X] 0 X
    by (simp_all add: md5_F_def rfc_f_def fun_eq_iff del: upt_rec_numeral)
  have 2: "length ?v2 = 4" "regs 32 ?v2 = rfc_steps ?M 32 ?r"
    unfolding md5_rows(2) using md5_rounds [of 16 32 ?v1 ?M ?r md5_G ?X] 1 X
    by (simp_all add: md5_G_def rfc_f_def fun_eq_iff del: upt_rec_numeral)
  have 3: "length ?v3 = 4" "regs 48 ?v3 = rfc_steps ?M 48 ?r"
    unfolding md5_rows(3) using md5_rounds [of 32 48 ?v2 ?M ?r md5_H ?X] 2 X
    by (simp_all add: md5_H_def rfc_f_def fun_eq_iff del: upt_rec_numeral)
  have 4: "length ?v4 = 4" "regs 64 ?v4 = rfc_steps ?M 64 ?r"
    unfolding md5_rows(4) using md5_rounds [of 48 64 ?v3 ?M ?r md5_I ?X] 3 X
    by (simp_all add: md5_I_def rfc_f_def fun_eq_iff del: upt_rec_numeral)
  have "rfc_steps ?M 64 ?r = (?v4 ! 0, ?v4 ! 1, ?v4 ! 2, ?v4 ! 3)"
    unfolding 4(2) [symmetric] by (simp add: regs_def)
  then show ?thesis
    unfolding md5_process_def rfc_process_def md5_words_little [OF assms(1), of little] Let_def
    by (simp only: prod.case)
qed

subsection \<open>The stream\<close>

definition md5_offset :: "md5_state \<Rightarrow> nat" where
  "md5_offset s = unat (drop_bit 3 (md5_count s ! 0) AND 63)"

definition md5_ok :: "md5_state \<Rightarrow> bool" where
  "md5_ok s \<longleftrightarrow> length (md5_count s) = 2 \<and> length (abcd s) = 4 \<and> length (md5_buf s) = 64 \<and>
    8 dvd unat (md5_count s ! 0)"

definition md5_view :: "md5_state \<Rightarrow> u32 list \<times> u8 list" where
  "md5_view s = (abcd s, take (md5_offset s) (md5_buf s))"

definition md5_bits :: "md5_state \<Rightarrow> nat" where
  "md5_bits s = unat (md5_count s ! 1) * 2 ^ 32 + unat (md5_count s ! 0)"

lemma md5_offset_div: "md5_offset s = unat (md5_count s ! 0) div 8 mod 64"
proof -
  have "(63 :: u32) = mask 6" by (simp add: mask_eq_exp_minus_1)
  then have "drop_bit 3 (md5_count s ! 0) AND 63 = take_bit 6 (drop_bit 3 (md5_count s ! 0))"
    by (simp only: take_bit_eq_mask)
  then have "md5_offset s = take_bit 6 (drop_bit 3 (unat (md5_count s ! 0)))"
    by (simp only: md5_offset_def unsigned_take_bit_eq unat_drop_bit_eq)
  then show ?thesis by (simp add: take_bit_eq_mod drop_bit_eq_div)
qed

lemma add_count_counts:
  assumes "8 dvd unat (md5_count s ! 0)" "0 < n" "n < 2 ^ 28"
  shows "\<exists>c. add_count (int n) s = s\<lparr>md5_count := c\<rparr> \<and> length c = 2 \<and> 8 dvd unat (c ! 0) \<and>
    unat (c ! 1) * 2 ^ 32 + unat (c ! 0) = (md5_bits s + 8 * n) mod 2 ^ 64 \<and>
    unat (c ! 0) div 8 mod 64 = (md5_offset s + n) mod 64"
proof -
  let ?c0 = "md5_count s ! 0" and ?c1 = "md5_count s ! 1"
  have nbits: "(word_of_int (push_bit 3 (int n)) :: u32) = word_of_nat (8 * n)"
  proof -
    have "push_bit 3 (int n) = int (8 * n)" by (simp add: push_bit_eq_mult)
    then show ?thesis by (simp only: of_int_of_nat_eq)
  qed
  have drop: "(word_of_int (drop_bit 29 (int n)) :: u32) = 0"
    using assms(3) by (simp add: drop_bit_eq_div)
  have un: "unat (word_of_nat (8 * n) :: u32) = 8 * n"
    unfolding unat_of_nat using assms(3) by simp
  have c0: "unat ?c0 < 2 ^ 32" using unsigned_less [of ?c0] by simp
  have sum: "unat (?c0 + word_of_nat (8 * n)) = (unat ?c0 + 8 * n) mod 2 ^ 32"
    using un by (simp only: unat_word_ariths) simp
  obtain q where q: "unat ?c0 = 8 * q" using assms(1) by auto
  show ?thesis
  proof (cases "unat ?c0 + 8 * n < 2 ^ 32")
    case True
    then have l: "unat (?c0 + word_of_nat (8 * n)) = unat ?c0 + 8 * n" using sum by simp
    then have "\<not> ?c0 + word_of_nat (8 * n) < word_of_nat (8 * n)"
      by (simp only: word_less_nat_alt un)
    then have "add_count (int n) s = s\<lparr>md5_count := [?c0 + word_of_nat (8 * n), ?c1]\<rparr>"
      unfolding add_count_def Let_def nbits drop by simp
    moreover have "(unat ?c0 + 8 * n) div 8 mod 64 = (md5_offset s + n) mod 64"
      by (simp add: md5_offset_div q mod_simps)
    moreover have "md5_bits s + 8 * n < 2 ^ 64"
      using True unat_u32_less [of ?c1] by (simp add: md5_bits_def)
    ultimately show ?thesis
      using l by (intro exI [of _ "[?c0 + word_of_nat (8 * n), ?c1]"]) (simp add: q md5_bits_def)
  next
    case False
    then have ge: "unat ?c0 + 8 * n \<ge> 2 ^ 32" by simp
    have lt: "unat ?c0 + 8 * n < 2 ^ 32 + 2 ^ 32" using c0 assms(3) by simp
    have l: "unat (?c0 + word_of_nat (8 * n)) = unat ?c0 + 8 * n - 2 ^ 32"
      using sum ge lt by (simp add: le_mod_geq)
    then have "?c0 + word_of_nat (8 * n) < word_of_nat (8 * n)"
      using c0 ge by (simp only: word_less_nat_alt un)
    then have add: "add_count (int n) s = s\<lparr>md5_count := [?c0 + word_of_nat (8 * n), ?c1 + 1]\<rparr>"
      unfolding add_count_def Let_def nbits drop by simp
    have "unat (?c1 + 1) * 2 ^ 32 + (unat ?c0 + 8 * n - 2 ^ 32) = (md5_bits s + 8 * n) mod 2 ^ 64"
    proof (cases "unat ?c1 + 1 < 2 ^ 32")
      case True
      then have "unat (?c1 + 1) = unat ?c1 + 1" by (simp add: unat_word_ariths)
      then show ?thesis using True ge lt by (simp add: md5_bits_def)
    next
      case False
      then have c1: "unat ?c1 = 2 ^ 32 - 1" using unat_u32_less [of ?c1] by simp
      then have "unat (?c1 + 1) = 0" by (simp add: unat_word_ariths)
      then show ?thesis using c1 ge lt by (simp add: md5_bits_def le_mod_geq)
    qed
    moreover
    have "(unat ?c0 + 8 * n - 2 ^ 32) div 8 mod 64 = (md5_offset s + n) mod 64"
    proof -
      have "unat ?c0 + 8 * n - 2 ^ 32 = 8 * (q + n - 2 ^ 29)" using ge q by simp
      then have "(unat ?c0 + 8 * n - 2 ^ 32) div 8 = q + n - 2 ^ 29" by simp
      moreover have "q + n = (q + n - 2 ^ 29) + 64 * 2 ^ 23" using ge q by simp
      then have "(q + n) mod 64 = (q + n - 2 ^ 29) mod 64" by (metis mod_mult_self2)
      ultimately show ?thesis by (simp add: md5_offset_div q mod_simps)
    qed
    moreover have "8 dvd unat ?c0 + 8 * n - 2 ^ 32" using ge by (auto simp: q intro: dvd_diff_nat)
    ultimately show ?thesis using l add ge
      by (intro exI [of _ "[?c0 + word_of_nat (8 * n), ?c1 + 1]"]) (simp add: md5_bits_def)
  qed
qed

lemma full_blocks_hash:
  assumes "length (abcd s) = 4" "left \<le> length p"
  defines "hb \<equiv> hash_blocks rfc_process (abcd s) (take left p)"
  shows "\<exists>q. full_blocks little p left s = Some (q, length (snd hb), s\<lparr>abcd := fst hb\<rparr>) \<and>
    length (snd hb) \<le> length q \<and> take (length (snd hb)) q = snd hb \<and> length (fst hb) = 4"
  using assms(1,2) unfolding hb_def
proof (induction little p left s rule: full_blocks.induct)
  case (1 little p left s)
  show ?case
  proof (cases "left \<ge> 64")
    case True
    let ?s = "s\<lparr>abcd := rfc_process (abcd s) (take 64 p)\<rparr>"
    have p: "length (take 64 p) = 64" "\<not> length p < 64" using True "1.prems" by auto
    have len: "length (abcd ?s) = 4" by (simp add: rfc_process_def split: prod.split)
    have step: "full_blocks little p left s = full_blocks little (drop 64 p) (left - 64) ?s"
      using True p by (simp add: full_blocks.simps [of little p left] md5_process_rfc "1.prems")
    have blk: "hash_blocks rfc_process (abcd s) (take left p) =
        hash_blocks rfc_process (abcd ?s) (take (left - 64) (drop 64 p))"
      using True p by (simp add: hash_blocks_step [of "take left p"] min_def drop_take)
    show ?thesis
      using "1.IH" [OF True p(2), unfolded md5_process_rfc [OF p(1) "1.prems"(1)]] len "1.prems"
      by (simp add: step blk)
  next
    case False
    then show ?thesis
      using "1.prems" by (simp add: full_blocks.simps [of little p left] hash_blocks_short)
  qed
qed

lemma append_rest_hash:
  assumes "length (abcd s) = 4" "left \<le> length p" "length (md5_buf s) = 64"
  defines "hb \<equiv> hash_blocks rfc_process (abcd s) (take left p)"
  shows "append_rest little p left s =
      Some (s\<lparr>abcd := fst hb, md5_buf := snd hb @ drop (length (snd hb)) (md5_buf s)\<rparr>)"
    and "length (fst hb) = 4"
proof -
  obtain q where q: "full_blocks little p left s = Some (q, length (snd hb), s\<lparr>abcd := fst hb\<rparr>)"
      "length (snd hb) \<le> length q" "take (length (snd hb)) q = snd hb" and four: "length (fst hb) = 4"
    using full_blocks_hash [OF assms(1,2), of little, folded hb_def] by blast
  have "length (snd hb) < 64" by (simp add: hb_def hash_blocks_rest_length)
  then show "append_rest little p left s =
      Some (s\<lparr>abcd := fst hb, md5_buf := snd hb @ drop (length (snd hb)) (md5_buf s)\<rparr>)"
    using q assms(3) by (cases s) (simp add: append_rest_def copy_to_buf_def)
  show "length (fst hb) = 4" by (rule four)
qed

lemma md5_append_hash:
  assumes ok: "md5_ok s" and n: "n < 2 ^ 28" "n \<le> length data"
  shows "\<exists>s'. md5_append little data (int n) s = Some s' \<and> md5_ok s' \<and>
    md5_bits s' = (md5_bits s + 8 * n) mod 2 ^ 64 \<and>
    md5_view s' = hash_blocks rfc_process (fst (md5_view s)) (snd (md5_view s) @ take n data)"
proof (cases "n = 0")
  case True
  have "md5_offset s < 64" by (simp add: md5_offset_div)
  moreover have "md5_bits s < 2 ^ 64"
    using unat_u32_less [of "md5_count s ! 0"] unat_u32_less [of "md5_count s ! 1"]
    by (simp add: md5_bits_def)
  ultimately show ?thesis using True ok
    by (simp add: md5_append_def Let_def md5_view_def hash_blocks_short md5_ok_def)
next
  case False
  have len: "length (abcd s) = 4" "length (md5_buf s) = 64" "8 dvd unat (md5_count s ! 0)"
    using ok by (auto simp: md5_ok_def)
  define o' where "o' = md5_offset s"
  have o': "o' < 64" by (simp add: o'_def md5_offset_div)
  obtain c where c: "add_count (int n) s = s\<lparr>md5_count := c\<rparr>" "length c = 2" "8 dvd unat (c ! 0)"
      "unat (c ! 1) * 2 ^ 32 + unat (c ! 0) = (md5_bits s + 8 * n) mod 2 ^ 64"
      "unat (c ! 0) div 8 mod 64 = (o' + n) mod 64"
    using add_count_counts [OF len(3) _ n(1)] False unfolding o'_def by auto
  let ?s = "s\<lparr>md5_count := c\<rparr>"
  define held where "held = take o' (md5_buf s)"
  define hb where "hb = hash_blocks rfc_process (abcd s) (held @ take n data)"
  have held: "length held = o'" using o' len by (simp add: held_def)
  have rest: "length (snd hb) = (o' + n) mod 64"
    using n(2) by (simp add: hb_def hash_blocks_rest_length held)
  have "\<exists>b. md5_append little data (int n) s = Some (?s\<lparr>abcd := fst hb, md5_buf := b\<rparr>) \<and>
    length b = 64 \<and> take (length (snd hb)) b = snd hb \<and> length (fst hb) = 4"
  proof -
    consider (small) "o' + n < 64" "o' \<noteq> 0" | (fill) "o' + n \<ge> 64" "o' \<noteq> 0" | (none) "o' = 0" by linarith
    then show ?thesis
    proof cases
      case small
      let ?b = "held @ take n data @ drop (o' + n) (md5_buf s)"
      have "md5_append little data (int n) s = Some (?s\<lparr>md5_buf := ?b\<rparr>)"
        using small False n(2) len
        by (simp add: md5_append_def Let_def c(1) copy_to_buf_def held_def flip: md5_offset_def o'_def)
      moreover have "hb = (abcd s, held @ take n data)"
        using small n(2) by (simp add: hb_def hash_blocks_short held)
      ultimately show ?thesis
        using len small n(2) by (intro exI [of _ ?b]) (cases s, simp add: held)
    next
      case fill
      let ?k = "64 - o'"
      let ?b = "held @ take ?k data"
      let ?t = "?s\<lparr>md5_buf := ?b, abcd := rfc_process (abcd s) ?b\<rparr>"
      have b: "length ?b = 64" using fill n(2) o' by (simp add: held)
      have "md5_append little data (int n) s = append_rest little (drop ?k data) (n - ?k) ?t"
      proof -
        have copy: "(if o' + n > 64 then 64 - o' else n) = ?k" using fill by auto
        have buf: "copy_to_buf o' data ?k ?s = Some (?s\<lparr>md5_buf := ?b\<rparr>)"
          using fill n(2) o' len by (simp add: copy_to_buf_def held_def)
        have "o' + ?k = 64" using o' by simp
        then show ?thesis
          using fill False b len
          by (simp add: md5_append_def Let_def c(1) copy buf md5_process_rfc flip: md5_offset_def o'_def)
      qed
      moreover have hb: "hb = hash_blocks rfc_process (abcd ?t) (take (n - ?k) (drop ?k data))"
      proof -
        have "held @ take n data = ?b @ take (n - ?k) (drop ?k data)"
          using fill by (simp flip: take_add)
        then show ?thesis using b by (simp only: hb_def hash_blocks_block) simp
      qed
      moreover have t: "length (abcd ?t) = 4" "n - ?k \<le> length (drop ?k data)" "length (md5_buf ?t) = 64"
        using n(2) b by (simp_all add: rfc_process_def split: prod.split)
      note rest_t = append_rest_hash [OF t, folded hb]
      let ?r = "snd hb @ drop (length (snd hb)) ?b"
      have "?t\<lparr>abcd := fst hb, md5_buf := snd hb @ drop (length (snd hb)) (md5_buf ?t)\<rparr> =
          ?s\<lparr>abcd := fst hb, md5_buf := ?r\<rparr>"
        by (cases s) simp
      ultimately have "md5_append little data (int n) s = Some (?s\<lparr>abcd := fst hb, md5_buf := ?r\<rparr>)"
        by (simp only: rest_t(1))
      moreover have "length ?r = 64"
        unfolding length_append [of "snd hb"] length_drop b rest by simp
      ultimately show ?thesis using rest_t(2) by (intro exI [of _ ?r]) (simp only: append_eq_conv_conj, simp)
    next
      case none
      have "md5_append little data (int n) s = append_rest little data n ?s"
        using none False by (simp add: md5_append_def Let_def c(1) flip: md5_offset_def o'_def)
      moreover have "hb = hash_blocks rfc_process (abcd ?s) (take n data)"
        using none by (simp add: hb_def held_def)
      moreover have s: "length (abcd ?s) = 4" "length (md5_buf ?s) = 64" using len by simp_all
      ultimately have hb: "hb = hash_blocks rfc_process (abcd ?s) (take n data)"
        and eq: "md5_append little data (int n) s = append_rest little data n ?s" by blast+
      note rest_s = append_rest_hash [OF s(1) n(2) s(2), folded hb]
      let ?r = "snd hb @ drop (length (snd hb)) (md5_buf s)"
      have "md5_append little data (int n) s = Some (?s\<lparr>abcd := fst hb, md5_buf := ?r\<rparr>)"
        by (simp only: eq rest_s(1)) simp
      moreover have "length ?r = 64" using rest len by simp
      ultimately show ?thesis using rest_s(2) by (intro exI [of _ ?r]) simp
    qed
  qed
  then obtain b where b: "md5_append little data (int n) s = Some (?s\<lparr>abcd := fst hb, md5_buf := b\<rparr>)"
      "length b = 64" "take (length (snd hb)) b = snd hb" "length (fst hb) = 4" by blast
  have "md5_view (?s\<lparr>abcd := fst hb, md5_buf := b\<rparr>) = hb"
    using b(3) c(5) rest by (simp add: md5_view_def md5_offset_div)
  then show ?thesis
    using b c by (simp add: md5_ok_def md5_bits_def hb_def held_def md5_view_def o'_def)
qed

definition md5_feed :: "bool \<Rightarrow> u8 list \<Rightarrow> md5_state \<Rightarrow> md5_state option" where
  "md5_feed little bs = md5_append little bs (int (length bs))"

interpretation md5_stream: block_hash rfc_process "md5_feed little" md5_ok md5_view md5_bits "2 ^ 28"
  for little
proof
  fix s bs
  assume "md5_ok s" "length (bs :: u8 list) < 2 ^ 28" "md5_bits s + 8 * length bs < 2 ^ 64"
  then show "\<exists>s'. md5_feed little bs s = Some s' \<and> md5_ok s' \<and> md5_bits s' = md5_bits s + 8 * length bs \<and>
    md5_view s' = hash_blocks rfc_process (fst (md5_view s)) (snd (md5_view s) @ bs)"
    using md5_append_hash [of s "length bs" bs little] by (simp add: md5_feed_def)
qed

subsection \<open>The whole digest\<close>

lemma pad_count:
  "uint (((55 - drop_bit 3 (md5_count s ! 0)) AND 63) + 1) = int ((119 - md5_offset s) mod 64 + 1)"
proof -
  let ?w = "drop_bit 3 (md5_count s ! 0)"
  have m: "(63 :: u32) = mask 6" by (simp add: mask_eq_exp_minus_1)
  have o': "int (md5_offset s) = uint ?w mod 64"
  proof -
    have "md5_offset s = unat (take_bit 6 ?w)" by (simp only: md5_offset_def m take_bit_eq_mask)
    then have "int (md5_offset s) = take_bit 6 (uint ?w)"
      by (simp only: unsigned_take_bit_eq of_nat_take_bit uint_nat)
    then show ?thesis by (simp add: take_bit_eq_mod)
  qed
  have "uint ((55 - ?w) AND 63) = (55 - uint ?w) mod 2 ^ 32 mod 64"
    by (simp only: m take_bit_eq_mask [symmetric] unsigned_take_bit_eq) (simp add: take_bit_eq_mod uint_word_ariths)
  also have "\<dots> = (55 - uint ?w) mod 64" by (simp add: mod_mod_cancel)
  also have "\<dots> = (55 - uint ?w + 64) mod 64" by (simp only: mod_add_self2)
  also have "55 - uint ?w + 64 = 119 - uint ?w" by simp
  also have "(119 - uint ?w) mod 64 = (119 - uint ?w mod 64) mod 64" by (simp only: mod_diff_right_eq)
  also have "\<dots> = int ((119 - md5_offset s) mod 64)"
    using o' by (simp add: zmod_int of_nat_diff md5_offset_div)
  finally have u: "uint ((55 - ?w) AND 63) = int ((119 - md5_offset s) mod 64)" .
  then have "uint (((55 - ?w) AND 63) + 1) = (int ((119 - md5_offset s) mod 64) + 1) mod 2 ^ 32"
    by (simp only: uint_word_ariths) simp
  then show ?thesis by simp
qed

lemma le_bytes_64:
  "le_bytes [l, h] 8 = map (\<lambda>i. word_of_nat ((unat h * 2 ^ 32 + unat l) div 256 ^ i)) [0..<8]"
proof -
  let ?n = "unat h * 2 ^ 32 + unat l"
  have "map (\<lambda>i. word_of_nat (?n div 256 ^ i)) [0..<8] =
      map (\<lambda>k. word_of_nat (?n div 2 ^ k) :: u8) [0, 8, 16, 24, 32 + 0, 32 + 8, 32 + 16, 32 + 24]"
    by (simp add: upt_rec)
  also have "\<dots> = le_bytes [l, h] 8"
    by (simp only: list.map byte_of_high byte_of_lows) (simp add: le_bytes_def upt_rec)
  finally show ?thesis ..
qed

lemma md5_finish_hash:
  assumes ok: "md5_ok s" and bits: "md5_bits s = 8 * n" and held: "length (snd (md5_view s)) = n mod 64"
  shows "\<exists>s'. md5_finish little s = Some (le_bytes (fst (hash_blocks rfc_process (fst (md5_view s))
    (snd (md5_view s) @ rfc_padding n))) 16, s')"
proof -
  have len: "length (md5_count s) = 2" "length (md5_buf s) = 64" using ok by (auto simp: md5_ok_def)
  have off: "md5_offset s = n mod 64"
    using held len by (simp add: md5_view_def md5_offset_div)
  define k where "k = (119 - n mod 64) mod 64 + 1"
  have k: "1 \<le> k" "k \<le> 64" by (simp_all add: k_def Suc_leI)
  have "length md5_pad = 64" by (simp add: md5_pad_def)
  then obtain t where t: "md5_append little md5_pad (int k) s = Some t" "md5_ok t"
      "md5_view t = hash_blocks rfc_process (fst (md5_view s)) (snd (md5_view s) @ take k md5_pad)"
    using md5_append_hash [OF ok, of k md5_pad little] k by auto
  let ?data = "le_bytes (md5_count s) 8"
  have "length ?data = 8" by (simp add: le_bytes_def)
  then obtain u where u: "md5_append little ?data 8 t = Some u"
      "md5_view u = hash_blocks rfc_process (fst (md5_view t)) (snd (md5_view t) @ ?data)"
    using md5_append_hash [OF t(2), of 8 ?data little] by auto
  obtain l h where lh: "md5_count s = [l, h]"
    using len(1) by (auto simp: length_Suc_conv numeral_2_eq_2)
  have "?data = map (\<lambda>i. word_of_nat (8 * n div 256 ^ i)) [0..<8]"
    using bits by (simp add: lh le_bytes_64 md5_bits_def)
  moreover have "take k md5_pad = 0x80 # replicate ((119 - n mod 64) mod 64) 0"
    using k by (cases k) (auto simp: md5_pad_def k_def)
  ultimately have pad: "take k md5_pad @ ?data = rfc_padding n" by (simp add: rfc_padding_def)
  have "abcd u = fst (md5_view u)" by (simp add: md5_view_def)
  also have "md5_view u = hash_blocks rfc_process (fst (md5_view s)) (snd (md5_view s) @ rfc_padding n)"
    unfolding u(2) t(3) hash_blocks_append [symmetric] by (simp flip: pad)
  finally show ?thesis
    using t(1) u(1) by (simp add: md5_finish_def Let_def pad_count off k_def)
qed

text \<open>
  Property C37.
  However a message is cut into parts, \<^verbatim>\<open>md5_init\<close>, one \<^verbatim>\<open>md5_append\<close> for each part and
  \<^verbatim>\<open>md5_finish\<close> return the digest of RFC 1321, whether the machine is little- or big-endian. The
  parts are shorter than \<^verbatim>\<open>2^28\<close> bytes, so that \<^verbatim>\<open>nbytes << 3\<close> is an \<^verbatim>\<open>int\<close>.\<close>

theorem md5_digest_correct:
  assumes "length (md5_buf s) = 64" "\<forall>bs \<in> set parts. length bs < 2 ^ 28"
    and "8 * length (concat parts) < 2 ^ 64"
  shows "\<exists>t u. feed_all (\<lambda>bs. md5_append little bs (int (length bs))) parts (md5_init s) = Some t \<and>
    md5_finish little t = Some (md5 (concat parts), u)"
proof -
  let ?m = "concat parts" and ?H = "[0x67452301, 0xefcdab89, 0x98badcfe, 0x10325476] :: u32 list"
  have init: "md5_ok (md5_init s)" "md5_bits (md5_init s) = 0" "md5_view (md5_init s) = (?H, [])"
    using assms(1) by (simp_all add: md5_ok_def md5_bits_def md5_view_def md5_offset_def md5_init_def T_MASK_def)
  obtain t where t: "feed_all (md5_feed little) parts (md5_init s) = Some t" "md5_ok t"
      "md5_bits t = 8 * length ?m" "md5_view t = hash_blocks rfc_process ?H ?m"
    using md5_stream.feed_all_concat [of "md5_init s" parts little] assms(2,3) init by auto
  have "length (snd (md5_view t)) = length ?m mod 64" by (simp add: t(4) hash_blocks_rest_length)
  then obtain u where "md5_finish little t = Some (le_bytes (fst (hash_blocks rfc_process (fst (md5_view t))
      (snd (md5_view t) @ rfc_padding (length ?m)))) 16, u)"
    using md5_finish_hash [OF t(2,3)] by blast
  moreover have "le_bytes (fst (hash_blocks rfc_process (fst (md5_view t))
      (snd (md5_view t) @ rfc_padding (length ?m)))) 16 = md5 ?m"
    unfolding t(4) hash_blocks_append [symmetric] md5_def ..
  ultimately show ?thesis using t(1) by (simp add: md5_feed_def [abs_def])
qed

subsection \<open>The example of the RFC\<close>

definition md5_abc_block :: "u8 list" where
  "md5_abc_block = [0x61, 0x62, 0x63, 0x80, 0, 0, 0, 0, 0, 0, 0, 0, 0, 0, 0, 0, 0, 0, 0, 0, 0, 0, 0, 0, 0, 0, 0, 0, 0, 0, 0, 0, 0, 0, 0, 0, 0, 0, 0, 0, 0, 0, 0, 0, 0, 0, 0, 0, 0, 0, 0, 0, 0, 0, 0, 0,  0x18, 0, 0, 0, 0, 0, 0, 0]"

definition md5_abc_words :: "u32 list" where
  "md5_abc_words =
    [0x80636261, 0, 0, 0, 0, 0, 0, 0, 0, 0, 0, 0, 0, 0,  0x18, 0]"

lemma md5_abc_word_list: "md5_words False md5_abc_block = md5_abc_words"
  by (simp add: md5_words_def md5_abc_block_def md5_abc_words_def Let_def upt_rec)

lemma md5_abc_rounds:
  "foldl (md5_set md5_F md5_abc_words) [0x67452301, 0xefcdab89, 0x98badcfe, 0x10325476] md5_rows_1 =
    [0xdda9b9a6, 0x72aff2e0, 0xe396856b, 0xa1051895]"
  "foldl (md5_set md5_G md5_abc_words) [0xdda9b9a6, 0x72aff2e0, 0xe396856b, 0xa1051895] md5_rows_2 =
    [0x790a77fb, 0x726342d3, 0xa62884aa, 0x9f47e4f8]"
  "foldl (md5_set md5_H md5_abc_words) [0x790a77fb, 0x726342d3, 0xa62884aa, 0x9f47e4f8] md5_rows_3 =
    [0x7f2e507b, 0x7beb9700, 0x8fae6399, 0x99d9679d]"
  "foldl (md5_set md5_I md5_abc_words) [0x7f2e507b, 0x7beb9700, 0x8fae6399, 0x99d9679d] md5_rows_4 =
    [0x310ade8f, 0xc08226b3, 0xe484b9d8, 0x624d8cb2]"
  by (simp_all add: md5_rows_1_def md5_rows_2_def md5_rows_3_def md5_rows_4_def md5_T_def T_MASK_def
      md5_F_def md5_G_def md5_H_def md5_I_def ROTATE_LEFT_def md5_abc_words_def Let_def)

lemma md5_abc:
  "md5 [0x61, 0x62, 0x63] =
    [0x90, 0x01, 0x50, 0x98, 0x3c, 0xd2, 0x4f, 0xb0, 0xd6, 0x96, 0x3f, 0x7d, 0x28, 0xe1, 0x7f, 0x72]"
proof -
  let ?H = "[0x67452301, 0xefcdab89, 0x98badcfe, 0x10325476] :: u32 list"
  have len: "length md5_abc_block = 64" "length ?H = 4" by (simp_all add: md5_abc_block_def)
  have "replicate 52 (0 :: u8) = [0, 0, 0, 0, 0, 0, 0, 0, 0, 0, 0, 0, 0, 0, 0, 0, 0, 0, 0, 0, 0, 0, 0, 0, 0, 0, 0, 0, 0, 0, 0, 0, 0, 0, 0, 0, 0, 0, 0, 0, 0, 0, 0, 0, 0, 0, 0, 0, 0, 0, 0, 0]" by code_simp
  then have "[0x61, 0x62, 0x63] @ rfc_padding 3 = md5_abc_block"
    by (simp add: rfc_padding_def md5_abc_block_def upt_rec)
  then have md5: "md5 [0x61, 0x62, 0x63] = le_bytes (rfc_process ?H md5_abc_block) 16"
    using hash_blocks_block [OF len(1), of rfc_process ?H "[]"]
    by (simp add: md5_def hash_blocks_short numeral_3_eq_3)
  have "rfc_process ?H md5_abc_block =
      abcd (md5_process False md5_abc_block \<lparr>md5_count = [], abcd = ?H, md5_buf = []\<rparr>)"
    by (subst md5_process_rfc) (simp_all add: len)
  also have "\<dots> = [0x98500190, 0xb04fd23c, 0x7d3f96d6, 0x727fe128]"
    by (simp add: md5_process_def md5_abc_word_list Let_def md5_abc_rounds [simplified])
  finally show ?thesis unfolding md5 by (simp add: le_bytes_def upt_rec)
qed

text \<open>The message of the example in two parts, on a state that was not cleared, on either kind of machine.\<close>

theorem md5_digest_correct_witness:
  "\<forall>little. \<exists>t u. feed_all (\<lambda>bs. md5_append little bs (int (length bs))) [[0x61], [0x62, 0x63]]
      (md5_init (md5_state.make [1, 2] [] (replicate 64 7))) = Some t \<and>
    md5_finish little t = Some ([0x90, 0x01, 0x50, 0x98, 0x3c, 0xd2, 0x4f, 0xb0, 0xd6, 0x96, 0x3f, 0x7d, 0x28, 0xe1, 0x7f, 0x72], u)"
proof
  fix little
  show "\<exists>t u. feed_all (\<lambda>bs. md5_append little bs (int (length bs))) [[0x61], [0x62, 0x63]]
      (md5_init (md5_state.make [1, 2] [] (replicate 64 7))) = Some t \<and>
    md5_finish little t = Some ([0x90, 0x01, 0x50, 0x98, 0x3c, 0xd2, 0x4f, 0xb0, 0xd6, 0x96, 0x3f, 0x7d, 0x28, 0xe1, 0x7f, 0x72], u)"
    using md5_digest_correct [of "md5_state.make [1, 2] [] (replicate 64 7)" "[[0x61], [0x62, 0x63]]" little]
    by (simp add: md5_abc md5_state.defs)
qed

end
