(* ===== verification/Sha1.thy ===== *)
theory Sha1
  imports BlockHash
begin

text \<open>
  \<^verbatim>\<open>bsp/easyio_core/SHA1/sha1.c\<close>: the digest of a message that comes in parts, on the context
  of \<^verbatim>\<open>sha1.h\<close>. A write behind \<^verbatim>\<open>Message_Block\<close> and a read behind the caller's array are
  \<^term>\<open>None\<close>. The reference is the standard's: the schedule as a recursive function, one round
  function for all eighty rounds, and the padding of the whole message.
\<close>

subsection \<open>The context\<close>

record SHA1Context =
  Message_Digest :: "u32 list"
  Length_Low :: u32
  Length_High :: u32
  Message_Block :: "u8 list"
  Message_Block_Index :: nat
  Computed :: bool
  Corrupted :: bool

definition SHA1Reset :: "SHA1Context \<Rightarrow> SHA1Context" where
  "SHA1Reset context =
    context\<lparr>Length_Low := 0, Length_High := 0, Message_Block_Index := 0,
      Message_Digest := [0x67452301, 0xEFCDAB89, 0x98BADCFE, 0x10325476, 0xC3D2E1F0],
      Computed := False, Corrupted := False\<rparr>"

definition SHA1CircularShift :: "nat \<Rightarrow> u32 \<Rightarrow> u32" where
  "SHA1CircularShift bits word = (push_bit bits word AND 0xFFFFFFFF) OR drop_bit (32 - bits) word"

subsection \<open>One block\<close>

definition sha1_K :: "u32 list" where
  "sha1_K = [0x5A827999, 0x6ED9EBA1, 0x8F1BBCDC, 0xCA62C1D6]"

definition block_word :: "u8 list \<Rightarrow> nat \<Rightarrow> u32" where
  "block_word block t =
    push_bit 24 (ucast (block ! (t * 4))) OR push_bit 16 (ucast (block ! (t * 4 + 1))) OR
    push_bit 8 (ucast (block ! (t * 4 + 2))) OR ucast (block ! (t * 4 + 3))"

definition extend_word :: "u32 list \<Rightarrow> nat \<Rightarrow> u32 list" where
  "extend_word W t =
    W @ [SHA1CircularShift 1 (W ! (t - 3) XOR W ! (t - 8) XOR W ! (t - 14) XOR W ! (t - 16))]"

definition word_sequence :: "u8 list \<Rightarrow> u32 list" where
  "word_sequence block = foldl extend_word (map (block_word block) [0..<16]) [16..<80]"

type_synonym buffers = "u32 \<times> u32 \<times> u32 \<times> u32 \<times> u32"

fun sha1_round :: "(u32 \<Rightarrow> u32 \<Rightarrow> u32 \<Rightarrow> u32) \<Rightarrow> u32 \<Rightarrow> u32 list \<Rightarrow> buffers \<Rightarrow> nat \<Rightarrow> buffers" where
  "sha1_round f k W (A, B, C, D, E) t =
    (SHA1CircularShift 5 A + f B C D + E + W ! t + k, A, SHA1CircularShift 30 B, C, D)"

definition rounds_0_19 :: "u32 list \<Rightarrow> buffers \<Rightarrow> buffers" where
  "rounds_0_19 W bufs =
    foldl (sha1_round (\<lambda>B C D. (B AND C) OR (NOT B AND D)) (sha1_K ! 0) W) bufs [0..<20]"

definition rounds_20_39 :: "u32 list \<Rightarrow> buffers \<Rightarrow> buffers" where
  "rounds_20_39 W bufs =
    foldl (sha1_round (\<lambda>B C D. B XOR C XOR D) (sha1_K ! 1) W) bufs [20..<40]"

definition rounds_40_59 :: "u32 list \<Rightarrow> buffers \<Rightarrow> buffers" where
  "rounds_40_59 W bufs =
    foldl (sha1_round (\<lambda>B C D. (B AND C) OR (B AND D) OR (C AND D)) (sha1_K ! 2) W) bufs [40..<60]"

definition rounds_60_79 :: "u32 list \<Rightarrow> buffers \<Rightarrow> buffers" where
  "rounds_60_79 W bufs =
    foldl (sha1_round (\<lambda>B C D. B XOR C XOR D) (sha1_K ! 3) W) bufs [60..<80]"

definition SHA1ProcessMessageBlock :: "SHA1Context \<Rightarrow> SHA1Context" where
  "SHA1ProcessMessageBlock context =
    (let W = word_sequence (Message_Block context);
         H = Message_Digest context;
         (A, B, C, D, E) =
           rounds_60_79 W (rounds_40_59 W (rounds_20_39 W (rounds_0_19 W
             (H ! 0, H ! 1, H ! 2, H ! 3, H ! 4))))
     in context\<lparr>
       Message_Digest := [H ! 0 + A, H ! 1 + B, H ! 2 + C, H ! 3 + D, H ! 4 + E],
       Message_Block_Index := 0\<rparr>)"

subsection \<open>Input\<close>

text \<open>\<^verbatim>\<open>context->Message_Block[context->Message_Block_Index++] = b\<close>\<close>

definition put_byte :: "u8 \<Rightarrow> SHA1Context \<Rightarrow> SHA1Context option" where
  "put_byte b context =
    (if Message_Block_Index context < length (Message_Block context) then
       Some (context\<lparr>Message_Block := (Message_Block context)[Message_Block_Index context := b],
                     Message_Block_Index := Message_Block_Index context + 1\<rparr>)
     else None)"

definition count_byte :: "SHA1Context \<Rightarrow> SHA1Context" where
  "count_byte context =
    (let context = context\<lparr>Length_Low := Length_Low context + 8\<rparr>
     in if Length_Low context = 0 then
          let context = context\<lparr>Length_High := Length_High context + 1\<rparr>
          in if Length_High context = 0 then context\<lparr>Corrupted := True\<rparr> else context
        else context)"

definition input_byte :: "u8 \<Rightarrow> SHA1Context \<Rightarrow> SHA1Context option" where
  "input_byte b context = do {
    context \<leftarrow> put_byte b context;
    let context = count_byte context;
    Some (if Message_Block_Index context = 64 then SHA1ProcessMessageBlock context else context)
  }"

fun input_loop :: "nat \<Rightarrow> u8 list \<Rightarrow> SHA1Context \<Rightarrow> SHA1Context option" where
  "input_loop 0 ms context = Some context"
| "input_loop (Suc n) ms context =
    (if Corrupted context then Some context
     else case ms of [] \<Rightarrow> None
     | m # ms \<Rightarrow> Option.bind (input_byte m context) (input_loop n ms))"

definition SHA1Input :: "u8 list \<Rightarrow> u32 \<Rightarrow> SHA1Context \<Rightarrow> SHA1Context option" where
  "SHA1Input message_array len context =
    (if len = 0 then Some context
     else if Computed context \<or> Corrupted context then Some (context\<lparr>Corrupted := True\<rparr>)
     else input_loop (unat len) message_array context)"

subsection \<open>Padding and the result\<close>

function put_zeros :: "nat \<Rightarrow> SHA1Context \<Rightarrow> SHA1Context option" where
  "put_zeros stop context =
    (if Message_Block_Index context < stop then Option.bind (put_byte 0 context) (put_zeros stop)
     else Some context)"
  by pat_completeness auto
termination
  by (relation "measure (\<lambda>(stop, context). stop - Message_Block_Index context)")
    (auto simp: put_byte_def split: if_splits)

declare put_zeros.simps [simp del]

definition length_bytes :: "u32 \<Rightarrow> u8 list" where
  "length_bytes n =
    [ucast (drop_bit 24 n AND 0xFF), ucast (drop_bit 16 n AND 0xFF),
     ucast (drop_bit 8 n AND 0xFF), ucast (n AND 0xFF)]"

text \<open>The eight stores \<^verbatim>\<open>Message_Block[56..63]\<close>.\<close>

fun put_at :: "nat \<Rightarrow> u8 list \<Rightarrow> u8 list \<Rightarrow> u8 list" where
  "put_at i [] block = block"
| "put_at i (b # bs) block = put_at (i + 1) bs (block[i := b])"

definition SHA1PadMessage :: "SHA1Context \<Rightarrow> SHA1Context option" where
  "SHA1PadMessage context = do {
    context \<leftarrow>
      (if Message_Block_Index context > 55 then do {
         context \<leftarrow> put_byte 0x80 context;
         context \<leftarrow> put_zeros 64 context;
         put_zeros 56 (SHA1ProcessMessageBlock context)
       } else do {
         context \<leftarrow> put_byte 0x80 context;
         put_zeros 56 context
       });
    Some (SHA1ProcessMessageBlock (context\<lparr>Message_Block :=
      put_at 56 (length_bytes (Length_High context) @ length_bytes (Length_Low context))
        (Message_Block context)\<rparr>))
  }"

definition SHA1Result :: "SHA1Context \<Rightarrow> (int \<times> SHA1Context) option" where
  "SHA1Result context =
    (if Corrupted context then Some (0, context)
     else if \<not> Computed context then do {
       context \<leftarrow> SHA1PadMessage context;
       Some (1, context\<lparr>Computed := True\<rparr>)
     }
     else Some (1, context))"

subsection \<open>The standard\<close>

fun fips_K :: "nat \<Rightarrow> u32" where
  "fips_K t = (if t < 20 then 0x5A827999 else if t < 40 then 0x6ED9EBA1
    else if t < 60 then 0x8F1BBCDC else 0xCA62C1D6)"

fun fips_f :: "nat \<Rightarrow> u32 \<Rightarrow> u32 \<Rightarrow> u32 \<Rightarrow> u32" where
  "fips_f t x y z =
    (if t < 20 then (x AND y) XOR (NOT x AND z)
     else if 40 \<le> t \<and> t < 60 then (x AND y) XOR (x AND z) XOR (y AND z)
     else x XOR y XOR z)"

fun fips_W :: "u8 list \<Rightarrow> nat \<Rightarrow> u32" where
  "fips_W block t =
    (if t < 16 then word_rcat (take 4 (drop (4 * t) block))
     else word_rotl 1 (fips_W block (t - 3) XOR fips_W block (t - 8) XOR
       fips_W block (t - 14) XOR fips_W block (t - 16)))"

declare fips_W.simps [simp del]

fun fips_rounds :: "u8 list \<Rightarrow> nat \<Rightarrow> buffers \<Rightarrow> buffers" where
  "fips_rounds block 0 v = v"
| "fips_rounds block (Suc t) v =
    (case fips_rounds block t v of (a, b, c, d, e) \<Rightarrow>
      (word_rotl 5 a + fips_f t b c d + e + fips_K t + fips_W block t, a, word_rotl 30 b, c, d))"

definition sha1_process :: "u32 list \<Rightarrow> u8 list \<Rightarrow> u32 list" where
  "sha1_process H block =
    (case fips_rounds block 80 (H ! 0, H ! 1, H ! 2, H ! 3, H ! 4) of (a, b, c, d, e) \<Rightarrow>
      [H ! 0 + a, H ! 1 + b, H ! 2 + c, H ! 3 + d, H ! 4 + e])"

definition sha1_padding :: "nat \<Rightarrow> u8 list" where
  "sha1_padding n =
    0x80 # replicate ((119 - n mod 64) mod 64) 0 @ map (\<lambda>i. word_of_nat (8 * n div 256 ^ (7 - i))) [0..<8]"

definition sha1 :: "u8 list \<Rightarrow> u32 list" where
  "sha1 message =
    fst (hash_blocks sha1_process [0x67452301, 0xEFCDAB89, 0x98BADCFE, 0x10325476, 0xC3D2E1F0]
      (message @ sha1_padding (length message)))"

subsection \<open>The blocks\<close>

lemma circular_shift_rotl:
  assumes "0 < n" "n < 32"
  shows "SHA1CircularShift n w = word_rotl n w"
proof -
  have "(0xFFFFFFFF :: u32) = - 1" by simp
  then have "push_bit n w AND 0xFFFFFFFF = push_bit n w" by (simp only: and.right_neutral)
  then show ?thesis using assms by (simp add: SHA1CircularShift_def rotl_shifts)
qed

lemma choose_xor: "(x AND y) OR (NOT x AND z) = (x AND y) XOR (NOT x AND (z :: u32))"
  by (rule bit_word_eqI) (auto simp: bit_simps)

lemma majority_xor:
  "(x AND y) OR (x AND z) OR (y AND z) = (x AND y) XOR (x AND z) XOR (y AND (z :: u32))"
  by (rule bit_word_eqI) (auto simp: bit_simps)

lemma block_word_fips:
  assumes "length block = 64" "t < 16"
  shows "block_word block t = word_rcat (take 4 (drop (4 * t) block))"
proof -
  have "take 4 (drop (4 * t) block) =
      [block ! (t * 4), block ! (t * 4 + 1), block ! (t * 4 + 2), block ! (t * 4 + 3)]"
    using assms by (intro nth_equalityI) (auto simp: less_Suc_eq numeral_eq_Suc ac_simps)
  then show ?thesis by (simp add: block_word_def four_bytes)
qed

lemma word_sequence_prefix:
  assumes "length block = 64" "16 \<le> n"
  shows "foldl extend_word (map (block_word block) [0..<16]) [16..<n] = map (fips_W block) [0..<n]"
  using assms(2)
proof (induction n rule: dec_induct)
  case base
  show ?case using assms(1) by (auto simp: block_word_fips fips_W.simps)
next
  case (step n)
  then show ?case
    by (simp add: extend_word_def circular_shift_rotl fips_W.simps [of block n])
qed

lemma word_sequence_fips:
  "length block = 64 \<Longrightarrow> t < 80 \<Longrightarrow> word_sequence block ! t = fips_W block t"
  unfolding word_sequence_def by (subst word_sequence_prefix) (simp_all del: upt_rec_numeral)

lemma rounds_fips:
  assumes "a \<le> b"
    and "\<And>t. a \<le> t \<Longrightarrow> t < b \<Longrightarrow> f = fips_f t \<and> k = fips_K t \<and> W ! t = fips_W block t"
  shows "foldl (sha1_round f k W) (fips_rounds block a v) [a..<b] = fips_rounds block b v"
  using assms
proof (induction b rule: dec_induct)
  case (step n)
  then show ?case
    by (simp add: circular_shift_rotl algebra_simps split: prod.splits del: fips_f.simps fips_K.simps)
qed simp

lemma rounds_are_fips:
  assumes "length block = 64"
  defines "W \<equiv> word_sequence block"
  shows "rounds_60_79 W (rounds_40_59 W (rounds_20_39 W (rounds_0_19 W v))) = fips_rounds block 80 v"
proof -
  have W: "t < 80 \<Longrightarrow> W ! t = fips_W block t" for t
    by (simp add: W_def word_sequence_fips assms(1))
  have "rounds_0_19 W v = fips_rounds block 20 v"
    using rounds_fips [of 0 20 _ _ W block v]
    by (simp add: rounds_0_19_def sha1_K_def W choose_xor fun_eq_iff)
  moreover have "rounds_20_39 W (fips_rounds block 20 v) = fips_rounds block 40 v"
    unfolding rounds_20_39_def by (rule rounds_fips) (auto simp: sha1_K_def W fun_eq_iff)
  moreover have "rounds_40_59 W (fips_rounds block 40 v) = fips_rounds block 60 v"
    unfolding rounds_40_59_def by (rule rounds_fips) (auto simp: sha1_K_def W fun_eq_iff majority_xor)
  moreover have "rounds_60_79 W (fips_rounds block 60 v) = fips_rounds block 80 v"
    unfolding rounds_60_79_def by (rule rounds_fips) (auto simp: sha1_K_def W fun_eq_iff)
  ultimately show ?thesis by simp
qed

lemma process_block:
  "length (Message_Block c) = 64 \<Longrightarrow>
    SHA1ProcessMessageBlock c = c\<lparr>Message_Digest := sha1_process (Message_Digest c) (Message_Block c),
      Message_Block_Index := 0\<rparr>"
  by (simp add: SHA1ProcessMessageBlock_def sha1_process_def rounds_are_fips Let_def split: prod.split)

subsection \<open>The stream\<close>

definition sha1_ok :: "SHA1Context \<Rightarrow> bool" where
  "sha1_ok c \<longleftrightarrow> length (Message_Block c) = 64 \<and> Message_Block_Index c < 64 \<and>
    \<not> Computed c \<and> \<not> Corrupted c \<and> 8 dvd unat (Length_Low c)"

definition sha1_view :: "SHA1Context \<Rightarrow> u32 list \<times> u8 list" where
  "sha1_view c = (Message_Digest c, take (Message_Block_Index c) (Message_Block c))"

definition sha1_bits :: "SHA1Context \<Rightarrow> nat" where
  "sha1_bits c = unat (Length_High c) * 2 ^ 32 + unat (Length_Low c)"

definition sha1_feed :: "u8 list \<Rightarrow> SHA1Context \<Rightarrow> SHA1Context option" where
  "sha1_feed bs = SHA1Input bs (word_of_nat (length bs))"

lemma unat_u32_plus: "unat ((w :: u32) + v) = (unat w + unat v) mod 2 ^ 32"
  by (simp add: unat_word_ariths)

lemma count_byte_counts:
  assumes "8 dvd unat (Length_Low c)" "sha1_bits c + 8 < 2 ^ 64"
  shows "\<exists>l h. count_byte c = c\<lparr>Length_Low := l, Length_High := h\<rparr> \<and>
    unat h * 2 ^ 32 + unat l = sha1_bits c + 8 \<and> 8 dvd unat l"
proof -
  obtain q where q: "unat (Length_Low c) = 8 * q" using assms(1) by auto
  have "unat (Length_Low c) < 2 ^ 32" using unsigned_less [of "Length_Low c"] by simp
  then have q_less: "q < 2 ^ 29" using q by simp
  have low: "unat (Length_Low c + 8) = (8 * q + 8) mod 2 ^ 32"
    by (simp add: unat_u32_plus q)
  show ?thesis
  proof (cases "q = 2 ^ 29 - 1")
    case True
    then have "unat (Length_Low c + 8) = 0" using low by simp
    then have l0: "Length_Low c + 8 = 0" by (simp only: unat_eq_0)
    have "unat (Length_High c) + 1 < 2 ^ 32"
      using assms(2) True by (simp add: sha1_bits_def q)
    then have h: "unat (Length_High c + 1) = unat (Length_High c) + 1"
      by (simp add: unat_u32_plus)
    then have "Length_High c + 1 \<noteq> 0" by (metis Suc_eq_plus1 nat.distinct(1) unat_0)
    then have "count_byte c = c\<lparr>Length_Low := 0, Length_High := Length_High c + 1\<rparr>"
      by (simp add: count_byte_def Let_def l0)
    then show ?thesis using h True by (intro exI conjI) (auto simp: sha1_bits_def q)
  next
    case False
    then have l: "unat (Length_Low c + 8) = 8 * q + 8" using low q_less by simp
    then have "Length_Low c + 8 \<noteq> 0" by (metis add_is_0 unat_0 zero_neq_numeral)
    then have "count_byte c = c\<lparr>Length_Low := Length_Low c + 8, Length_High := Length_High c\<rparr>"
      by (simp add: count_byte_def Let_def)
    moreover have "unat (Length_High c) * 2 ^ 32 + unat (Length_Low c + 8) = sha1_bits c + 8"
      "8 dvd unat (Length_Low c + 8)"
      by (simp_all add: sha1_bits_def l q)
    ultimately show ?thesis by blast
  qed
qed

lemma input_byte_ok:
  assumes "sha1_ok c" "sha1_bits c + 8 < 2 ^ 64"
  shows "\<exists>c'. input_byte m c = Some c' \<and> sha1_ok c' \<and> sha1_bits c' = sha1_bits c + 8 \<and>
    sha1_view c' = hash_blocks sha1_process (fst (sha1_view c)) (snd (sha1_view c) @ [m])"
proof -
  let ?i = "Message_Block_Index c" and ?b = "Message_Block c"
  let ?p = "c\<lparr>Message_Block := ?b[?i := m], Message_Block_Index := ?i + 1\<rparr>"
  have ok: "length ?b = 64" "?i < 64" "\<not> Computed c" "\<not> Corrupted c" "8 dvd unat (Length_Low c)"
    using assms(1) by (auto simp: sha1_ok_def)
  have put: "put_byte m c = Some ?p" using ok by (simp add: put_byte_def)
  have "sha1_bits ?p = sha1_bits c" by (simp add: sha1_bits_def)
  then obtain l h where cnt: "count_byte ?p = ?p\<lparr>Length_Low := l, Length_High := h\<rparr>"
      and lh: "unat h * 2 ^ 32 + unat l = sha1_bits c + 8" "8 dvd unat l"
    using count_byte_counts [of ?p] ok(5) assms(2) by (simp del: power_numeral) blast
  have step: "input_byte m c =
      Some (let q = ?p\<lparr>Length_Low := l, Length_High := h\<rparr>
        in if Message_Block_Index q = 64 then SHA1ProcessMessageBlock q else q)"
    by (simp only: input_byte_def put cnt Let_def bind.bind_lunit)
  have held: "take (?i + 1) (?b[?i := m]) = take ?i ?b @ [m]"
    using ok by (simp add: take_Suc_conv_app_nth)
  show ?thesis
  proof (cases "?i = 63")
    case True
    then have "?b[?i := m] = take ?i ?b @ [m]" using held ok by simp
    moreover have "hash_blocks sha1_process (Message_Digest c) (take ?i ?b @ [m]) =
        (sha1_process (Message_Digest c) (take ?i ?b @ [m]), [])"
      using hash_blocks_block [of "take ?i ?b @ [m]" _ _ "[]"] True ok by (simp add: hash_blocks_short)
    ultimately show ?thesis
      using ok lh True
      by (simp add: step process_block sha1_ok_def sha1_bits_def sha1_view_def)
  next
    case False
    then show ?thesis
      using ok lh held
      by (simp add: step sha1_ok_def sha1_bits_def sha1_view_def hash_blocks_short)
  qed
qed

lemma input_loop_ok:
  assumes "sha1_ok c" "sha1_bits c + 8 * length ms < 2 ^ 64"
  shows "\<exists>c'. input_loop (length ms) ms c = Some c' \<and> sha1_ok c' \<and>
    sha1_bits c' = sha1_bits c + 8 * length ms \<and>
    sha1_view c' = hash_blocks sha1_process (fst (sha1_view c)) (snd (sha1_view c) @ ms)"
  using assms
proof (induction ms arbitrary: c)
  case Nil
  then show ?case by (simp add: sha1_view_def sha1_ok_def hash_blocks_short)
next
  case (Cons m ms)
  obtain d where d: "input_byte m c = Some d" "sha1_ok d" "sha1_bits d = sha1_bits c + 8"
      "sha1_view d = hash_blocks sha1_process (fst (sha1_view c)) (snd (sha1_view c) @ [m])"
    using input_byte_ok [of c m] Cons.prems by auto
  obtain e where e: "input_loop (length ms) ms d = Some e" "sha1_ok e"
      "sha1_bits e = sha1_bits d + 8 * length ms"
      "sha1_view e = hash_blocks sha1_process (fst (sha1_view d)) (snd (sha1_view d) @ ms)"
    using Cons.IH [of d] Cons.prems d(2,3) by auto
  have "sha1_view e = hash_blocks sha1_process (fst (sha1_view c)) (snd (sha1_view c) @ m # ms)"
    using e(4) hash_blocks_append [of sha1_process "fst (sha1_view c)" "snd (sha1_view c) @ [m]" ms]
    by (simp add: d(4))
  then show ?case using Cons.prems(1) d e by (auto simp: sha1_ok_def)
qed

interpretation sha1_stream: block_hash sha1_process sha1_feed sha1_ok sha1_view sha1_bits "2 ^ 32"
proof
  fix s bs
  assume s: "sha1_ok s" and l: "length (bs :: u8 list) < 2 ^ 32" "sha1_bits s + 8 * length bs < 2 ^ 64"
  show "\<exists>s'. sha1_feed bs s = Some s' \<and> sha1_ok s' \<and> sha1_bits s' = sha1_bits s + 8 * length bs \<and>
    sha1_view s' = hash_blocks sha1_process (fst (sha1_view s)) (snd (sha1_view s) @ bs)"
  proof (cases "bs = []")
    case True
    then show ?thesis using s by (simp add: sha1_feed_def SHA1Input_def sha1_view_def sha1_ok_def hash_blocks_short)
  next
    case False
    have n: "unat (word_of_nat (length bs) :: u32) = length bs"
      using l(1) by (simp add: unat_of_nat)
    then have "word_of_nat (length bs) \<noteq> (0 :: u32)" using False by auto
    then show ?thesis
      using input_loop_ok [OF s l(2)] s n by (simp add: sha1_feed_def SHA1Input_def sha1_ok_def)
  qed
qed

subsection \<open>Padding\<close>

lemma put_zeros_fills:
  "Message_Block_Index c \<le> n \<Longrightarrow> n \<le> length (Message_Block c) \<Longrightarrow>
    put_zeros n c = Some (c\<lparr>
      Message_Block := take (Message_Block_Index c) (Message_Block c) @
        replicate (n - Message_Block_Index c) 0 @ drop n (Message_Block c),
      Message_Block_Index := n\<rparr>)"
proof (induction n c rule: put_zeros.induct)
  case (1 n c)
  let ?i = "Message_Block_Index c" and ?b = "Message_Block c"
  show ?case
  proof (cases "?i < n")
    case True
    let ?d = "c\<lparr>Message_Block := ?b[?i := 0], Message_Block_Index := ?i + 1\<rparr>"
    have put: "put_byte 0 c = Some ?d" using True "1.prems" by (simp add: put_byte_def)
    have "take (?i + 1) (?b[?i := 0]) @ replicate (n - (?i + 1)) 0 =
        take ?i ?b @ replicate (n - ?i) 0"
      using True "1.prems" by (simp add: take_Suc_conv_app_nth flip: replicate_Suc Suc_diff_Suc)
    then show ?thesis
      using "1.IH" [OF True put] True "1.prems"
      by (simp add: put_zeros.simps [of n c] put flip: append_assoc)
  next
    case False
    then show ?thesis using "1.prems" by (simp add: put_zeros.simps [of n c])
  qed
qed

lemma put_at_end: "length block = i + length bs \<Longrightarrow> put_at i bs block = take i block @ bs"
proof (induction bs arbitrary: i block)
  case (Cons b bs)
  then show ?case by (simp add: take_Suc_conv_app_nth)
qed simp

lemma put_at_behind: "length a = i \<Longrightarrow> length b = length bs \<Longrightarrow> put_at i bs (a @ b) = a @ bs"
  by (simp add: put_at_end)

lemma u8_mask: "ucast (w AND (0xFF :: u32)) = (ucast w :: u8)"
proof -
  have "(0xFF :: u32) = mask 8" by (simp add: mask_eq_exp_minus_1)
  then have "ucast (w AND 0xFF) = (ucast (w AND mask 8) :: u8)" by (simp only:)
  also have "\<dots> = ucast w" by (rule bit_word_eqI) (simp only: bit_simps, auto)
  finally show ?thesis .
qed

lemma length_bytes_64:
  "length_bytes h @ length_bytes l =
    map (\<lambda>i. word_of_nat ((unat h * 2 ^ 32 + unat l) div 256 ^ (7 - i))) [0..<8]"
proof -
  let ?n = "unat h * 2 ^ 32 + unat l"
  have "map (\<lambda>i. word_of_nat (?n div 256 ^ (7 - i))) [0..<8] =
      map (\<lambda>k. word_of_nat (?n div 2 ^ k) :: u8) [32 + 24, 32 + 16, 32 + 8, 32 + 0, 24, 16, 8, 0]"
    by (simp add: upt_rec)
  also have "\<dots> = length_bytes h @ length_bytes l"
    by (simp only: list.map byte_of_high byte_of_lows
        length_bytes_def u8_mask append.simps) simp
  finally show ?thesis ..
qed

lemma sha1_pad_ok:
  assumes ok: "sha1_ok c" and bits: "sha1_bits c = 8 * n" and held: "length (snd (sha1_view c)) = n mod 64"
  shows "\<exists>c'. SHA1PadMessage c = Some c' \<and> Corrupted c' = Corrupted c \<and>
    Message_Digest c' = fst (hash_blocks sha1_process (fst (sha1_view c)) (snd (sha1_view c) @ sha1_padding n))"
proof -
  let ?i = "Message_Block_Index c" and ?b = "Message_Block c" and ?H = "Message_Digest c"
  let ?len = "length_bytes (Length_High c) @ length_bytes (Length_Low c)"
  let ?p = "c\<lparr>Message_Block := ?b[?i := 0x80], Message_Block_Index := ?i + 1\<rparr>"
  have b: "length ?b = 64" "?i < 64" using ok by (auto simp: sha1_ok_def)
  have i: "n mod 64 = ?i" using held b by (simp add: sha1_view_def)
  have padding: "sha1_padding n = 0x80 # replicate ((119 - ?i) mod 64) 0 @ ?len"
    using bits by (simp add: sha1_padding_def i length_bytes_64 sha1_bits_def)
  have len8: "length ?len = 8" by (simp add: length_bytes_def)
  have put: "put_byte 0x80 c = Some ?p" using b by (simp add: put_byte_def)
  have start: "take (?i + 1) (?b[?i := 0x80]) = take ?i ?b @ [0x80]"
    using b by (simp add: take_Suc_conv_app_nth)
  show ?thesis
  proof (cases "?i > 55")
    case True
    let ?b1 = "take ?i ?b @ 0x80 # replicate (63 - ?i) 0"
    let ?d = "c\<lparr>Message_Digest := sha1_process ?H ?b1, Message_Block := ?b1, Message_Block_Index := 0\<rparr>"
    let ?e = "?d\<lparr>Message_Block := replicate 56 0 @ drop 56 ?b1, Message_Block_Index := 56\<rparr>"
    have b1: "length ?b1 = 64" using b by simp
    have zeros: "put_zeros 64 ?p = Some (c\<lparr>Message_Block := ?b1, Message_Block_Index := 64\<rparr>)"
      using put_zeros_fills [of ?p 64] start b by simp
    define e where "e = ?e"
    have zeros2: "put_zeros 56 ?d = Some e"
      using put_zeros_fills [of ?d 56] b1 by (simp add: e_def)
    have same: "Length_High e = Length_High c" "Length_Low e = Length_Low c"
      by (simp_all add: e_def)
    have proc: "SHA1ProcessMessageBlock (c\<lparr>Message_Block := ?b1, Message_Block_Index := 64\<rparr>) = ?d"
      using b1 by (simp add: process_block)
    have len: "put_at 56 ?len (Message_Block e) = replicate 56 0 @ ?len"
      using b1 put_at_end [of "Message_Block e" 56 ?len] len8 by (simp add: e_def)
    have "SHA1PadMessage c = Some (SHA1ProcessMessageBlock (e\<lparr>Message_Block := replicate 56 0 @ ?len\<rparr>))"
      using True
      by (simp only: SHA1PadMessage_def if_True put zeros proc zeros2 same len bind.bind_lunit)
    moreover have "hash_blocks sha1_process ?H (take ?i ?b @ sha1_padding n) =
        hash_blocks sha1_process (sha1_process ?H ?b1) (replicate 56 0 @ ?len)"
    proof -
      have "(119 - ?i) mod 64 = (63 - ?i) + 56" using True b by simp
      then have "take ?i ?b @ sha1_padding n = ?b1 @ replicate 56 0 @ ?len"
        by (simp only: padding replicate_add append_assoc append_Cons)
      then show ?thesis using b1 by (simp only: hash_blocks_block)
    qed
    moreover have "hash_blocks sha1_process h (replicate 56 0 @ ?len) = (sha1_process h (replicate 56 0 @ ?len), [])" for h
      using hash_blocks_block [of "replicate 56 0 @ ?len" _ _ "[]"] len8 by (simp add: hash_blocks_short)
    ultimately show ?thesis using len8 by (simp add: process_block sha1_view_def e_def)
  next
    case False
    let ?b1 = "take ?i ?b @ 0x80 # replicate (55 - ?i) 0"
    let ?e = "c\<lparr>Message_Block := ?b1 @ drop 56 ?b, Message_Block_Index := 56\<rparr>"
    have b1: "length ?b1 = 56" using b False by simp
    define e where "e = ?e"
    have zeros: "put_zeros 56 ?p = Some e"
      using put_zeros_fills [of ?p 56] start b False by (simp add: e_def)
    have same: "Length_High e = Length_High c" "Length_Low e = Length_Low c"
      by (simp_all add: e_def)
    have len: "put_at 56 ?len (Message_Block e) = ?b1 @ ?len"
    proof -
      have "Message_Block e = ?b1 @ drop 56 ?b" by (simp add: e_def)
      moreover have "length (drop 56 ?b) = length ?len" using b(1) len8 by simp
      ultimately show ?thesis using put_at_behind [OF b1] by (simp only:)
    qed
    have "SHA1PadMessage c = Some (SHA1ProcessMessageBlock (e\<lparr>Message_Block := ?b1 @ ?len\<rparr>))"
      using False
      by (simp only: SHA1PadMessage_def if_False put zeros same len bind.bind_lunit)
    moreover have "take ?i ?b @ sha1_padding n = ?b1 @ ?len"
    proof -
      have "(119 - ?i) mod 64 = 55 - ?i" using False by (simp add: mod_if)
      then show ?thesis by (simp add: padding)
    qed
    moreover have "hash_blocks sha1_process ?H (?b1 @ ?len) = (sha1_process ?H (?b1 @ ?len), [])"
      using hash_blocks_block [of "?b1 @ ?len" _ _ "[]"] len8 b1 by (simp add: hash_blocks_short)
    ultimately show ?thesis using len8 b1 by (simp add: process_block sha1_view_def e_def)
  qed
qed

subsection \<open>Too long a message\<close>

lemma input_loop_corrupted: "Corrupted c \<Longrightarrow> input_loop n ms c = Some c"
  by (cases n) simp_all

lemma input_byte_too_long:
  assumes "sha1_ok c" "sha1_bits c + 8 = 2 ^ 64"
  shows "\<exists>c'. input_byte m c = Some c' \<and> Corrupted c'"
proof -
  let ?p = "c\<lparr>Message_Block := (Message_Block c)[Message_Block_Index c := m],
    Message_Block_Index := Message_Block_Index c + 1\<rparr>"
  have ok: "length (Message_Block c) = 64" "Message_Block_Index c < 64"
    using assms(1) by (auto simp: sha1_ok_def)
  have "unat (Length_Low c) < 2 ^ 32" "unat (Length_High c) < 2 ^ 32"
    using unsigned_less [of "Length_Low c"] unsigned_less [of "Length_High c"] by simp_all
  moreover have "unat (Length_High c) * 2 ^ 32 + unat (Length_Low c) + 8 = 2 ^ 64"
    using assms(2) by (simp add: sha1_bits_def)
  then have "unat (Length_High c) * 2 ^ 32 + unat (Length_Low c) = 2 ^ 64 - 8" by simp
  then have "(unat (Length_High c) * 2 ^ 32 + unat (Length_Low c)) div 2 ^ 32 = (2 ^ 64 - 8) div 2 ^ 32"
    by (rule arg_cong)
  ultimately have high: "unat (Length_High c) = 2 ^ 32 - 1"
    by simp
  moreover have "unat (Length_Low c) = 2 ^ 32 - 8"
    using assms(2) high by (simp add: sha1_bits_def)
  ultimately have "unat (Length_High c) = 2 ^ 32 - 1" "unat (Length_Low c) = 2 ^ 32 - 8"
    by simp_all
  then have "unat (Length_Low c + 8) = 0" "unat (Length_High c + 1) = 0"
    by (simp_all add: unat_u32_plus)
  then have "Length_Low c + 8 = 0" "Length_High c + 1 = 0" by (simp_all only: unat_eq_0)
  then have "Corrupted (count_byte ?p)" "length (Message_Block (count_byte ?p)) = 64"
    using ok by (simp_all add: count_byte_def Let_def)
  moreover have "put_byte m c = Some ?p" using ok by (simp add: put_byte_def)
  ultimately show ?thesis by (simp add: input_byte_def process_block Let_def)
qed

lemma input_loop_too_long:
  assumes "sha1_ok c" "sha1_bits c < 2 ^ 64" "sha1_bits c + 8 * length ms \<ge> 2 ^ 64" "8 dvd sha1_bits c"
  shows "\<exists>c'. input_loop (length ms) ms c = Some c' \<and> Corrupted c'"
  using assms
proof (induction ms arbitrary: c)
  case (Cons m ms)
  have nc: "\<not> Corrupted c" using Cons.prems(1) by (simp add: sha1_ok_def)
  show ?case
  proof (cases "sha1_bits c + 8 < 2 ^ 64")
    case True
    then obtain d where d: "input_byte m c = Some d" "sha1_ok d" "sha1_bits d = sha1_bits c + 8"
      using input_byte_ok [of c m] Cons.prems by auto
    then show ?thesis using Cons.IH [of d] Cons.prems True nc by simp
  next
    case False
    obtain q where "sha1_bits c = 8 * q" using Cons.prems(4) by auto
    then have "sha1_bits c + 8 = 2 ^ 64" using False Cons.prems(2) by simp
    then obtain d where "input_byte m c = Some d" "Corrupted d"
      using input_byte_too_long [OF Cons.prems(1)] by blast
    then show ?thesis using nc by (simp add: input_loop_corrupted)
  qed
qed simp

lemma feed_all_corrupted:
  assumes "Corrupted c"
  shows "\<exists>c'. feed_all sha1_feed bss c = Some c' \<and> Corrupted c'"
  using assms
proof (induction bss arbitrary: c)
  case (Cons bs bss)
  then show ?case by (cases "word_of_nat (length bs) = (0 :: u32)") (auto simp: sha1_feed_def SHA1Input_def)
qed simp

lemma feed_all_too_long:
  assumes "sha1_ok c" "\<forall>bs \<in> set bss. length bs < 2 ^ 32" "sha1_bits c + 8 * length (concat bss) \<ge> 2 ^ 64"
    and "sha1_bits c < 2 ^ 64" "8 dvd sha1_bits c"
  shows "\<exists>c'. feed_all sha1_feed bss c = Some c' \<and> Corrupted c'"
  using assms
proof (induction bss arbitrary: c)
  case (Cons bs bss)
  show ?case
  proof (cases "sha1_bits c + 8 * length bs < 2 ^ 64")
    case True
    then obtain d where d: "sha1_feed bs c = Some d" "sha1_ok d" "sha1_bits d = sha1_bits c + 8 * length bs"
      using sha1_stream.feed_ok [of c bs] Cons.prems by auto
    then show ?thesis using Cons.IH [of d] Cons.prems True by simp
  next
    case False
    have n: "unat (word_of_nat (length bs) :: u32) = length bs"
      using Cons.prems(2) by (simp add: unat_of_nat)
    have "bs \<noteq> []" using False Cons.prems(4) by auto
    then have "word_of_nat (length bs) \<noteq> (0 :: u32)" using n by auto
    then have "sha1_feed bs c = input_loop (length bs) bs c"
      using Cons.prems(1) n by (simp add: sha1_feed_def SHA1Input_def sha1_ok_def)
    then obtain d where "sha1_feed bs c = Some d" "Corrupted d"
      using input_loop_too_long [of c bs] Cons.prems False by auto
    then show ?thesis using feed_all_corrupted [of d bss] by simp
  qed
qed simp

subsection \<open>The whole digest\<close>

lemma sha1_reset_ok:
  "length (Message_Block c) = 64 \<Longrightarrow> sha1_ok (SHA1Reset c)"
  "sha1_bits (SHA1Reset c) = 0"
  "sha1_view (SHA1Reset c) = ([0x67452301, 0xEFCDAB89, 0x98BADCFE, 0x10325476, 0xC3D2E1F0], [])"
  by (simp_all add: sha1_ok_def sha1_bits_def sha1_view_def SHA1Reset_def)

text \<open>
  Property C36.
  However a message of fewer than \<^verbatim>\<open>2^64\<close> bits is cut into parts, \<^verbatim>\<open>SHA1Reset\<close>, one \<^verbatim>\<open>SHA1Input\<close>
  for each part and \<^verbatim>\<open>SHA1Result\<close> return 1 and leave the digest of the standard in
  \<^verbatim>\<open>Message_Digest\<close>, and a second \<^verbatim>\<open>SHA1Result\<close> changes nothing. Of a longer message the length
  overflows and the result is 0.\<close>

theorem sha1_digest_correct:
  assumes "length (Message_Block c) = 64" "\<forall>bs \<in> set parts. length bs < 2 ^ 32"
  shows "\<exists>d r e. feed_all (\<lambda>bs. SHA1Input bs (word_of_nat (length bs))) parts (SHA1Reset c) = Some d \<and>
    SHA1Result d = Some (r, e) \<and>
    (if 8 * length (concat parts) < 2 ^ 64
     then r = 1 \<and> Message_Digest e = sha1 (concat parts) \<and> SHA1Result e = Some (1, e)
     else r = 0)"
proof -
  let ?m = "concat parts"
  note reset = sha1_reset_ok(1) [OF assms(1)] sha1_reset_ok(2,3)
  show ?thesis
  proof (cases "8 * length ?m < 2 ^ 64")
    case True
    obtain d where d: "feed_all sha1_feed parts (SHA1Reset c) = Some d" "sha1_ok d"
        "sha1_bits d = 8 * length ?m"
        "sha1_view d = hash_blocks sha1_process (fst (sha1_view (SHA1Reset c))) ?m"
      using sha1_stream.feed_all_concat [of "SHA1Reset c" parts] assms(2) True reset by auto
    have "length (snd (sha1_view d)) = length ?m mod 64"
      by (simp add: d(4) hash_blocks_rest_length)
    then obtain e where e: "SHA1PadMessage d = Some e" "Corrupted e = Corrupted d"
        "Message_Digest e = fst (hash_blocks sha1_process (fst (sha1_view d))
          (snd (sha1_view d) @ sha1_padding (length ?m)))"
      using sha1_pad_ok [OF d(2,3)] by blast
    have "Message_Digest e = sha1 ?m"
      unfolding sha1_def e(3) d(4) hash_blocks_append [symmetric] by (simp add: reset)
    then show ?thesis
      using d(1,2) e(1,2) True by (simp add: SHA1Result_def sha1_ok_def sha1_feed_def [abs_def])
  next
    case False
    then obtain d where "feed_all sha1_feed parts (SHA1Reset c) = Some d" "Corrupted d"
      using feed_all_too_long [of "SHA1Reset c" parts] assms(2) reset by auto
    then show ?thesis using False by (simp add: SHA1Result_def sha1_feed_def [abs_def])
  qed
qed

subsection \<open>The standard's example\<close>

definition abc_block :: "u8 list" where
  "abc_block = [0x61, 0x62, 0x63, 0x80, 0, 0, 0, 0, 0, 0, 0, 0, 0, 0, 0, 0, 0, 0, 0, 0, 0, 0, 0, 0, 0, 0, 0, 0, 0, 0, 0, 0, 0, 0, 0, 0, 0, 0, 0, 0, 0, 0, 0, 0, 0, 0, 0, 0, 0, 0, 0, 0, 0, 0, 0, 0, 0, 0, 0, 0, 0, 0, 0,  0x18]"

definition abc_words :: "u32 list" where
  "abc_words =
    [0x61626380, 0x00000000, 0x00000000, 0x00000000, 0x00000000, 0x00000000, 0x00000000, 0x00000000,
     0x00000000, 0x00000000, 0x00000000, 0x00000000, 0x00000000, 0x00000000, 0x00000000, 0x00000018,
     0xC2C4C700, 0x00000000, 0x00000030, 0x85898E01, 0x00000000, 0x00000060, 0x0B131C03, 0x00000030,
     0x85898EC1, 0x16263806, 0x00000000, 0x00000180, 0x2C4C700C, 0x000000F0, 0x93AFB507, 0x5898E048,
     0x8E9A9202, 0x00000600, 0xB131C0F0, 0x16263BC6, 0x4EBED41E, 0x626380A1, 0x16263806, 0x000018C0,
     0xD2E138C4, 0x00000F00, 0x3AFB5079, 0x898E04E5, 0xE2BA3C2B, 0x000060C0, 0x053A37CD, 0x74458547,
     0xDA9415ED, 0x26380A16, 0x626383A1, 0x4EBF54DE, 0x3835B44B, 0x0000F600, 0x1E84C7A3, 0x98E04D98,
     0x651D16A0, 0x62658CA1, 0x458544D6, 0x44584CB7, 0x7BA06619, 0x6380AEA2, 0x0AE55269, 0x627B49A1,
     0x7CD45C9D, 0x000F0000, 0xFB50753A, 0xEC6765E8, 0xBA3C2BE2, 0x0060C000, 0x3A37CD05, 0x458546F4,
     0xB8599DD6, 0x380A1A26, 0x01E02203, 0xE7CC3456, 0xE6E60B69, 0x00F60A00, 0x5795EF4F, 0x822E0879]"

lemma abc_word_sequence: "word_sequence abc_block = abc_words"
  by (simp add: word_sequence_def extend_word_def block_word_def SHA1CircularShift_def upt_rec
      abc_block_def abc_words_def)

lemma abc_rounds:
  "rounds_0_19 abc_words (0x67452301, 0xEFCDAB89, 0x98BADCFE, 0x10325476, 0xC3D2E1F0) =
    (0xFD9E1D7D, 0xDC64901D, 0x20AA99CA, 0xD3A49608, 0xC82F758B)"
  "rounds_20_39 abc_words (0xFD9E1D7D, 0xDC64901D, 0x20AA99CA, 0xD3A49608, 0xC82F758B) =
    (0x32DE1CBA, 0x4C986405, 0xF718E5CF, 0x03D447F6, 0xF72EEC32)"
  "rounds_40_59 abc_words (0x32DE1CBA, 0x4C986405, 0xF718E5CF, 0x03D447F6, 0xF72EEC32) =
    (0x3F52DE5A, 0x09D785FD, 0x3498BFD4, 0xF211824F, 0xD79915AB)"
  "rounds_60_79 abc_words (0x3F52DE5A, 0x09D785FD, 0x3498BFD4, 0xF211824F, 0xD79915AB) =
    (0x42541B35, 0x5738D5E1, 0x21834873, 0x681E6DF6, 0xD8FDF6AD)"
  by (simp_all add: rounds_0_19_def rounds_20_39_def rounds_40_59_def rounds_60_79_def
      SHA1CircularShift_def sha1_K_def abc_words_def upt_rec)

lemma sha1_abc: "sha1 [0x61, 0x62, 0x63] = [0xA9993E36, 0x4706816A, 0xBA3E2571, 0x7850C26C, 0x9CD0D89D]"
proof -
  let ?H = "[0x67452301, 0xEFCDAB89, 0x98BADCFE, 0x10325476, 0xC3D2E1F0] :: u32 list"
  have len: "length abc_block = 64" by (simp add: abc_block_def)
  have "replicate 52 (0 :: u8) = [0, 0, 0, 0, 0, 0, 0, 0, 0, 0, 0, 0, 0, 0, 0, 0, 0, 0, 0, 0, 0, 0, 0, 0, 0, 0, 0, 0, 0, 0, 0, 0, 0, 0, 0, 0, 0, 0, 0, 0, 0, 0, 0, 0, 0, 0, 0, 0, 0, 0, 0, 0]" by code_simp
  then have "[0x61, 0x62, 0x63] @ sha1_padding 3 = abc_block"
    by (simp add: sha1_padding_def abc_block_def upt_rec)
  then have "sha1 [0x61, 0x62, 0x63] = sha1_process ?H abc_block"
    using hash_blocks_block [OF len, of sha1_process ?H "[]"] by (simp add: sha1_def hash_blocks_short numeral_3_eq_3)
  also have "fips_rounds abc_block 80 (0x67452301, 0xEFCDAB89, 0x98BADCFE, 0x10325476, 0xC3D2E1F0) =
      (0x42541B35, 0x5738D5E1, 0x21834873, 0x681E6DF6, 0xD8FDF6AD)"
    using rounds_are_fips [OF len, symmetric] by (simp only: abc_word_sequence abc_rounds)
  then have "sha1_process ?H abc_block = [0xA9993E36, 0x4706816A, 0xBA3E2571, 0x7850C26C, 0x9CD0D89D]"
    by (simp add: sha1_process_def)
  finally show ?thesis .
qed

text \<open>The message of the example, in two parts, on a context that was not cleared.\<close>

theorem sha1_digest_correct_witness:
  "\<exists>d e. feed_all (\<lambda>bs. SHA1Input bs (word_of_nat (length bs))) [[0x61], [0x62, 0x63]]
      (SHA1Reset (SHA1Context.make [] 5 6 (replicate 64 7) 8 True True)) = Some d \<and>
    SHA1Result d = Some (1, e) \<and> SHA1Result e = Some (1, e) \<and>
    Message_Digest e = [0xA9993E36, 0x4706816A, 0xBA3E2571, 0x7850C26C, 0x9CD0D89D]"
  using sha1_digest_correct
    [of "SHA1Context.make [] 5 6 (replicate 64 7) 8 True True" "[[0x61], [0x62, 0x63]]"]
  by (auto simp: sha1_abc SHA1Context.defs)

end
