(* ===== verification/Unsigned64.thy ===== *)
theory Unsigned64
  imports Prelude
begin

text \<open>
  \<^verbatim>\<open>bsp/easyio_core/unsigned64.h\<close>: 64-bit arithmetic on pairs of 32-bit words, the branch that is
  compiled where \<^verbatim>\<open>stdint.h\<close> defines \<^verbatim>\<open>UINT64_MAX\<close>.
\<close>

subsection \<open>Operations\<close>

record u64 =
  lo :: u32
  hi :: u32

definition u64hilo :: "u32 \<Rightarrow> u32 \<Rightarrow> u64" where
  "u64hilo h l = \<lparr>lo = l, hi = h\<rparr>"

definition u64lo :: "u32 \<Rightarrow> u64" where
  "u64lo l = \<lparr>lo = l, hi = 0\<rparr>"

definition u64lt :: "u64 \<Rightarrow> u64 \<Rightarrow> bool" where
  "u64lt x y \<longleftrightarrow> hi x < hi y \<or> hi x = hi y \<and> lo x < lo y"

definition u64and :: "u64 \<Rightarrow> u64 \<Rightarrow> u64" where
  "u64and x y = \<lparr>lo = lo x AND lo y, hi = hi x AND hi y\<rparr>"

definition u64or :: "u64 \<Rightarrow> u64 \<Rightarrow> u64" where
  "u64or x y = \<lparr>lo = lo x OR lo y, hi = hi x OR hi y\<rparr>"

definition u64xor :: "u64 \<Rightarrow> u64 \<Rightarrow> u64" where
  "u64xor x y = \<lparr>lo = lo x XOR lo y, hi = hi x XOR hi y\<rparr>"

definition u64plus :: "u64 \<Rightarrow> u64 \<Rightarrow> u64" where
  "u64plus x y =
     (let l = lo x + lo y in \<lparr>lo = l, hi = hi x + hi y + (if l < lo x then 1 else 0)\<rparr>)"

text \<open>A C shift of 32 bits by a negative number, or by 32 or more, is undefined.\<close>

definition shl32 :: "u32 \<Rightarrow> int \<Rightarrow> u32 option" where
  "shl32 w n = (if 0 \<le> n \<and> n < 32 then Some (push_bit (nat n) w) else None)"

definition shr32 :: "u32 \<Rightarrow> int \<Rightarrow> u32 option" where
  "shr32 w n = (if 0 \<le> n \<and> n < 32 then Some (drop_bit (nat n) w) else None)"

definition u64shl :: "u64 \<Rightarrow> int \<Rightarrow> u64 option" where
  "u64shl x n =
     (if n < 32
      then do {
        a \<leftarrow> shl32 (hi x) n;
        b \<leftarrow> shr32 (lo x) (32 - n);
        c \<leftarrow> shl32 (lo x) n;
        Some \<lparr>lo = c, hi = a OR b\<rparr> }
      else do {
        a \<leftarrow> shl32 (lo x) (n - 32);
        Some \<lparr>lo = 0, hi = a\<rparr> })"

definition u64shr :: "u64 \<Rightarrow> int \<Rightarrow> u64 option" where
  "u64shr x n =
     (if n < 32
      then do {
        a \<leftarrow> shr32 (hi x) n;
        b \<leftarrow> shl32 (hi x) (32 - n);
        c \<leftarrow> shr32 (lo x) n;
        Some \<lparr>lo = b OR c, hi = a\<rparr> }
      else do {
        a \<leftarrow> shr32 (hi x) (n - 32);
        Some \<lparr>lo = a, hi = 0\<rparr> })"

definition u64rol :: "u64 \<Rightarrow> int \<Rightarrow> u64 option" where
  "u64rol x n = do { a \<leftarrow> u64shl x n; b \<leftarrow> u64shr x (64 - n); Some (u64or a b) }"

subsection \<open>The 64-bit word a pair stands for\<close>

definition val64 :: "u64 \<Rightarrow> 64 word" where
  "val64 x = word_cat (hi x) (lo x)"

lemma bit_val64: "bit (val64 x) n \<longleftrightarrow> n < 64 \<and> (if n < 32 then bit (lo x) n else bit (hi x) (n - 32))"
  by (simp add: val64_def bit_word_cat_iff)

lemma uint_val64: "uint (val64 x) = uint (hi x) * 2 ^ 32 + uint (lo x)"
proof -
  have "uint (hi x) * 2 ^ 32 + uint (lo x) < 2 ^ 64"
    using unsigned_less [of "hi x", where ?'a = int] unsigned_less [of "lo x", where ?'a = int] by simp
  moreover have "uint (val64 x) = take_bit 64 (concat_bit 32 (uint (lo x)) (uint (hi x)))"
    unfolding val64_def word_cat_eq' by (simp add: unsigned_of_int)
  moreover have "concat_bit 32 (uint (lo x)) (uint (hi x)) = uint (lo x) + uint (hi x) * 2 ^ 32"
    using unsigned_less [of "lo x", where ?'a = int]
    by (simp add: concat_bit_eq push_bit_eq_mult take_bit_int_eq_self)
  ultimately show ?thesis by (simp add: take_bit_int_eq_self)
qed

lemma uint_parts: "0 \<le> uint (lo x)" "uint (lo x) < 2 ^ 32" "0 \<le> uint (hi x)" "uint (hi x) < 2 ^ 32"
  using unsigned_less [of "lo x", where ?'a = int] unsigned_less [of "hi x", where ?'a = int] by simp_all

lemma val64_bitwise:
  "val64 (u64and x y) = val64 x AND val64 y" "val64 (u64or x y) = val64 x OR val64 y"
  "val64 (u64xor x y) = val64 x XOR val64 y"
  by (rule bit_word_eqI; simp add: bit_val64 bit_simps u64and_def u64or_def u64xor_def)+

lemma pair_add_mod:
  fixes a b c d k :: int
  assumes "k = 1 \<and> l = a + b - 2 ^ 32 \<or> k = 0 \<and> l = a + b"
  shows "((c + d + k) mod 2 ^ 32 * 2 ^ 32 + l) mod 2 ^ 64 = ((c * 2 ^ 32 + a) + (d * 2 ^ 32 + b)) mod 2 ^ 64"
proof -
  have "(c + d + k) mod 2 ^ 32 * 2 ^ 32 = ((c + d + k) * 2 ^ 32) mod 2 ^ 64"
    using mod_mult_mult2 [of "c + d + k" "2 ^ 32" "2 ^ 32"] by simp
  then have "((c + d + k) mod 2 ^ 32 * 2 ^ 32 + l) mod 2 ^ 64 = ((c + d + k) * 2 ^ 32 + l) mod 2 ^ 64"
    by (simp add: mod_simps)
  also have "(c + d + k) * 2 ^ 32 + l = (c * 2 ^ 32 + a) + (d * 2 ^ 32 + b)"
    using assms by (auto simp: algebra_simps)
  finally show ?thesis .
qed

lemma val64_plus: "val64 (u64plus x y) = val64 x + val64 y"
proof -
  let ?k = "if lo x + lo y < lo x then 1 else 0 :: int"
  have l: "uint (lo x + lo y) = (if uint (lo x) + uint (lo y) < 2 ^ 32 then uint (lo x) + uint (lo y)
      else uint (lo x) + uint (lo y) - 2 ^ 32)"
    using uint_plus_if' [of "lo x" "lo y"] by simp
  have c: "lo x + lo y < lo x \<longleftrightarrow> \<not> uint (lo x) + uint (lo y) < 2 ^ 32"
    using l uint_parts [of x] uint_parts [of y]
    by (simp add: word_less_def split: if_splits)
  have "uint (hi (u64plus x y)) = (uint (hi x) + uint (hi y) + ?k) mod 2 ^ 32"
    by (simp add: u64plus_def Let_def uint_word_ariths mod_simps)
  moreover have "uint (lo (u64plus x y)) = uint (lo x + lo y)" by (simp add: u64plus_def Let_def)
  ultimately have "uint (val64 (u64plus x y)) mod 2 ^ 64 = uint (val64 x + val64 y) mod 2 ^ 64"
    using pair_add_mod [of ?k "uint (lo x + lo y)" "uint (lo x)" "uint (lo y)" "uint (hi x)" "uint (hi y)"] l c
    by (simp add: uint_val64 uint_word_ariths split: if_splits)
  then show ?thesis
    using unsigned_less [of "val64 (u64plus x y)", where ?'a = int]
      unsigned_less [of "val64 x + val64 y", where ?'a = int] by (simp add: word_uint_eq_iff)
qed

lemma u64lt_val64: "u64lt x y \<longleftrightarrow> val64 x < val64 y"
proof -
  have "h < h' \<or> h = h' \<and> l < l' \<longleftrightarrow> h * 2 ^ 32 + l < h' * 2 ^ 32 + l'"
    if "0 \<le> l" "l < 2 ^ 32" "0 \<le> l'" "l' < 2 ^ 32" for h h' l l' :: int
    using that by (cases h h' rule: linorder_cases) auto
  from this [OF uint_parts(1,2) [of x] uint_parts(1,2) [of y]] show ?thesis
    by (simp add: u64lt_def word_less_def uint_val64 word_uint_eq_iff)
qed

lemma bit_u32_high: "32 \<le> n \<Longrightarrow> \<not> bit (w :: u32) n"
  using bit_imp_le_length [of w n] by auto

lemma bit_u32_low: "bit (w :: u32) (n - 32) \<Longrightarrow> n < 64"
  using bit_imp_le_length [of w "n - 32"] by simp

lemma val64_shl_nat:
  assumes "0 < m" "m < 64"
  shows "\<exists>r. u64shl x (int m) = Some r \<and> val64 r = push_bit m (val64 x)"
proof (cases "m < 32")
  case True
  have "nat (32 - int m) = 32 - m" using True by simp
  then have "u64shl x (int m) = Some \<lparr>lo = push_bit m (lo x), hi = push_bit m (hi x) OR drop_bit (32 - m) (lo x)\<rparr>"
    using True assms by (simp add: u64shl_def shl32_def shr32_def)
  moreover have "val64 \<lparr>lo = push_bit m (lo x), hi = push_bit m (hi x) OR drop_bit (32 - m) (lo x)\<rparr> = push_bit m (val64 x)"
    using True by (intro bit_word_eqI) (auto simp: bit_val64 bit_simps bit_u32_high not_less add.commute dest: bit_u32_low)
  ultimately show ?thesis by blast
next
  case False
  then have "nat (int m - 32) = m - 32" by simp
  then have "u64shl x (int m) = Some \<lparr>lo = 0, hi = push_bit (m - 32) (lo x)\<rparr>"
    using False assms by (simp add: u64shl_def shl32_def)
  moreover have "val64 \<lparr>lo = 0, hi = push_bit (m - 32) (lo x)\<rparr> = push_bit m (val64 x)"
    using False by (intro bit_word_eqI) (auto simp: bit_val64 bit_simps bit_u32_high not_less add.commute dest: bit_u32_low)
  ultimately show ?thesis by blast
qed

lemma val64_shr_nat:
  assumes "0 < m" "m < 64"
  shows "\<exists>r. u64shr x (int m) = Some r \<and> val64 r = drop_bit m (val64 x)"
proof (cases "m < 32")
  case True
  have "nat (32 - int m) = 32 - m" using True by simp
  then have "u64shr x (int m) = Some \<lparr>lo = push_bit (32 - m) (hi x) OR drop_bit m (lo x), hi = drop_bit m (hi x)\<rparr>"
    using True assms by (simp add: u64shr_def shl32_def shr32_def)
  moreover have "val64 \<lparr>lo = push_bit (32 - m) (hi x) OR drop_bit m (lo x), hi = drop_bit m (hi x)\<rparr> = drop_bit m (val64 x)"
    using True by (intro bit_word_eqI) (auto simp: bit_val64 bit_simps bit_u32_high not_less add.commute dest: bit_u32_low)
  ultimately show ?thesis by blast
next
  case False
  then have "nat (int m - 32) = m - 32" by simp
  then have "u64shr x (int m) = Some \<lparr>lo = drop_bit (m - 32) (hi x), hi = 0\<rparr>"
    using False assms by (simp add: u64shr_def shr32_def)
  moreover have "val64 \<lparr>lo = drop_bit (m - 32) (hi x), hi = 0\<rparr> = drop_bit m (val64 x)"
    using False by (intro bit_word_eqI) (auto simp: bit_val64 bit_simps bit_u32_high not_less add.commute dest: bit_u32_low)
  ultimately show ?thesis by blast
qed

lemma rotl_64:
  assumes "0 < m" "m < 64"
  shows "push_bit m w OR drop_bit (64 - m) w = word_rotl m (w :: 64 word)"
proof (rule bit_word_eqI)
  fix n assume "n < LENGTH(64)"
  then have n: "n < 64" by simp
  have c: "bit (word_rotl m w) n \<longleftrightarrow> bit w ((n + (64 - m)) mod 64)"
    using n assms by (simp add: bit_word_rotl_iff)
  have "(n + (64 - m)) mod 64 = (if n < m then 64 - m + n else n - m)"
    using n assms by (auto simp: mod_if)
  then show "bit (push_bit m w OR drop_bit (64 - m) w) n \<longleftrightarrow> bit (word_rotl m w) n"
    unfolding c using n assms bit_imp_le_length [of w "64 - m + n"]
    by (auto simp: bit_or_iff bit_push_bit_iff bit_drop_bit_eq)
qed

lemma val64_rol_nat:
  assumes "0 < m" "m < 64"
  shows "\<exists>r. u64rol x (int m) = Some r \<and> val64 r = word_rotl m (val64 x)"
proof -
  obtain a where a: "u64shl x (int m) = Some a" "val64 a = push_bit m (val64 x)"
    using val64_shl_nat [OF assms] by blast
  have i: "int (64 - m) = 64 - int m" using assms by simp
  have "0 < 64 - m" "64 - m < 64" using assms by simp_all
  then obtain b where b: "u64shr x (64 - int m) = Some b" "val64 b = drop_bit (64 - m) (val64 x)"
    using val64_shr_nat [of "64 - m" x] unfolding i by blast
  have "u64rol x (int m) = Some (u64or a b)" by (simp only: u64rol_def a b bind.bind_lunit)
  moreover have "val64 (u64or a b) = word_rotl m (val64 x)"
    by (simp only: val64_bitwise a b rotl_64 [OF assms])
  ultimately show ?thesis by blast
qed

lemma val64_inj: "val64 x = val64 y \<Longrightarrow> x = y"
proof -
  assume a: "val64 x = val64 y"
  have "\<not> u64lt x y" "\<not> u64lt y x" using a by (simp_all add: u64lt_val64)
  then have "hi x = hi y" "lo x = lo y" by (auto simp: u64lt_def)
  then show "x = y" by simp
qed

lemma val64_hilo: "val64 (u64hilo h l) = word_cat h l" "val64 (u64lo l) = ucast l"
proof -
  show "val64 (u64hilo h l) = word_cat h l" by (simp add: val64_def u64hilo_def)
  show "val64 (u64lo l) = ucast l"
    by (rule bit_word_eqI) (auto simp: bit_val64 u64lo_def bit_simps bit_u32_high not_less)
qed

subsection \<open>Properties\<close>

text \<open>
  Property C40.
  Equivalence with 64-bit arithmetic: addition with its carry, the comparison, the bitwise
  operations and, for every shift of 1 to 63 bits, both shifts and the rotation on a pair of
  32-bit words do what the 64-bit operations do on the word the pair stands for, and no 32-bit
  shift they make is undefined in C.\<close>

theorem unsigned64_is_word:
  assumes "0 < n" "n < 64"
  shows "val64 (u64plus x y) = val64 x + val64 y \<and> (u64lt x y \<longleftrightarrow> val64 x < val64 y) \<and>
     val64 (u64and x y) = val64 x AND val64 y \<and> val64 (u64or x y) = val64 x OR val64 y \<and>
     val64 (u64xor x y) = val64 x XOR val64 y \<and>
     map_option val64 (u64shl x (int n)) = Some (push_bit n (val64 x)) \<and>
     map_option val64 (u64shr x (int n)) = Some (drop_bit n (val64 x)) \<and>
     map_option val64 (u64rol x (int n)) = Some (word_rotl n (val64 x))"
  using val64_shl_nat [OF assms, of x] val64_shr_nat [OF assms, of x] val64_rol_nat [OF assms, of x]
  by (auto simp: val64_plus u64lt_val64 val64_bitwise)

theorem unsigned64_is_word_witness:
  "map_option val64 (u64rol (u64hilo 0x80000000 1) (int 1)) = Some (word_rotl 1 (val64 (u64hilo 0x80000000 1)))"
  using unsigned64_is_word [of 1 "u64hilo 0x80000000 1" "u64lo 0"] by simp

end
