(* ===== verification/Spec2Isabelle.thy ===== *)
theory Spec2Isabelle
  imports KPrintf HeapAlign RtDevice RtCompletion RtDataQueue RtPipe RtSem RtMutex RtEvent RtMailbox RtMq RtMempool RtClock RtSystem
    AppTimer AtParse Base64 ConvHex Md5 RingBuffer Sha1 Unsigned64
begin

text \<open>
  The RT-Thread 1.2.0 kernel of the EasyIO core board, and the EasyIO code that runs on it.

  \<^bold>\<open>The program.\<close> Under \<^verbatim>\<open>src/RT-Thread_1.2.0/\<close> the kernel is \<^verbatim>\<open>src/*.c\<close> with \<^verbatim>\<open>include/\<close>; the
  board's configuration is \<^verbatim>\<open>bsp/EasyIO_stmf10x_ota/rtconfig.h\<close>: 32 priorities, names of 8
  characters, alignment 4, 100 ticks per second, \<^verbatim>\<open>RT_DEBUG\<close> with its assertions and the check for
  stack overflow, all five kinds of IPC objects, memory pools, the small memory heap, hard timers on a
  skip list of one level, no soft timer thread, no modules, no hooks. The vendor's own code is
  \<^verbatim>\<open>bsp/easyio_core/\<close>: an event loop with software timers on the kernel's mailbox and timer, an AT
  command parser and several codecs.

  \<^bold>\<open>How the model is made.\<close> Each theory translates a file of the source operation by operation, with
  the names of the source. The kernel's state is one record, \<open>kstate\<close> of \<open>RtDef\<close>: threads,
  timers and objects by address, every \<^verbatim>\<open>rt_list_t\<close> by its head as the list of the nodes on it
  (\<open>RtList\<close> proves that the linked cells of \<^verbatim>\<open>rtservice.h\<close> and these lists do the same), and the
  globals of the scheduler. Integers are words where they wrap in the code. Section between
  \<^verbatim>\<open>rt_hw_interrupt_disable\<close> and \<^verbatim>\<open>enable\<close> are single steps. An operation is a function to
  \<open>option\<close>: \<open>None\<close> is a failed assertion (the code then loops), an access through a null pointer or a
  loop that does not end, so that every theorem of the form \<open>\<exists>r s'. f s = Some (r, s')\<close> says that the
  call returns. A call that blocks gives \<open>Waits\<close>, with the caller on a waiting list, its frame kept in
  \<open>frames\<close> and the scheduler run; the function \<open>\<dots>_wake\<close> is the rest of its body, run when the thread is
  next the current one. Code reached through pointers (timer and event callbacks) is a parameter.

  \<^bold>\<open>The theories of the kernel.\<close>
  \<^item> \<open>Prelude\<close>: integer types, error codes, alignment; shared lemmas.
  \<^item> \<open>RtList\<close> (\<^verbatim>\<open>include/rtservice.h\<close>): the list functions on a store of cells; a locale of what the
    kernel needs of lists, interpreted on the cells and on lists of addresses.
  \<^item> \<open>RtMem\<close>, \<open>RtMemProps\<close>, \<open>RtHeap\<close> (\<^verbatim>\<open>src/mem.c\<close>): the heap. \<open>heap_wf\<close> ties the block headers to
    the list of blocks, \<open>heap_rel\<close> to the set of blocks handed out; malloc, free, realloc and calloc
    against that set, the locale \<open>allocator\<close>, and that no disciplined program makes a call fail. The
    searches along the blocks are partial functions whose end is proved from \<open>heap_wf\<close>.
  \<^item> \<open>RtDef\<close> (\<^verbatim>\<open>include/rtdef.h\<close>): the records of the kernel and its state.
  \<^item> \<open>KService\<close> (\<^verbatim>\<open>src/kservice.c\<close>): bit search, memory and string routines, against plain
    specifications.
  \<^item> \<open>KPrintf\<close> (\<^verbatim>\<open>src/kservice.c\<close>): the printf family on a byte memory. \<open>format_text\<close> is the text a
    format asks for, written without regard to buffers; what is stored is that text, cut.
  \<^item> \<open>HeapAlign\<close> (\<^verbatim>\<open>src/kservice.c\<close>): \<^verbatim>\<open>rt_malloc_align\<close> and \<^verbatim>\<open>rt_strdup\<close> on the heap of \<open>RtHeap\<close>.
  \<^item> \<open>RtDevice\<close> (\<^verbatim>\<open>src/device.c\<close>, \<^verbatim>\<open>src/kservice.c\<close>): the registry of devices against an association list,
    open and close against a count of the users, error number, console and \<^verbatim>\<open>rt_kprintf\<close>. The state is
    a record around the kernel's, the functions of the drivers are a parameter.
  \<^item> \<open>RtScheduler\<close> (\<^verbatim>\<open>src/scheduler.c\<close>): ready lists and ready group; \<open>sched_inv\<close>; the thread chosen is
    the first of the most urgent non-empty list; the locale \<open>ready_queue\<close>.
  \<^item> \<open>RtObject\<close> (\<^verbatim>\<open>src/object.c\<close>), \<open>RtTimer\<close> (\<^verbatim>\<open>src/timer.c\<close>), \<open>RtThread\<close> (\<^verbatim>\<open>src/thread.c\<close>,
    \<^verbatim>\<open>src/idle.c\<close>): objects, the sorted timer list, the life of a thread; \<open>kinv\<close> is the invariant of
    the whole kernel.
  \<^item> \<open>RtIpc\<close> and \<open>RtSem\<close>, \<open>RtMutex\<close>, \<open>RtEvent\<close>, \<open>RtMailbox\<close>, \<open>RtMq\<close> (\<^verbatim>\<open>src/ipc.c\<close>), \<open>RtMempool\<close>
    (\<^verbatim>\<open>src/mempool.c\<close>): waiting lists and the operations of each kind of object, every branch. \<open>RtChannel\<close>
    holds the contract of a bounded queue, interpreted on mailboxes, message queues, the events
    of the application and the ring buffer.
  \<^item> \<open>RtClock\<close> (\<^verbatim>\<open>src/timer.c\<close>, \<^verbatim>\<open>src/clock.c\<close>): the tick, the timers it expires, and sleep, also
    when the tick wraps around. \<^verbatim>\<open>rt_timer_check\<close> is a partial function; that it ends is proved for
    timers that do not keep each other due.
  \<^item> \<open>RtSystem\<close>: every sequence of kernel calls, resumptions and ticks from a start state keeps the
    invariants, returns, and runs a most urgent thread.

  \<^bold>\<open>The theories of the application.\<close>
  \<^item> \<open>AppEvent\<close> (\<^verbatim>\<open>bsp/easyio_core/app_ev.c\<close>): events are addresses sent through the mailbox of
    \<open>RtMailbox\<close>, allocated from ten static structures or from the heap of \<open>RtHeap\<close>; posting and the
    main loop refine a bounded list and leak nothing.
  \<^item> \<open>AppTimer\<close> (\<^verbatim>\<open>app_timer.c\<close>): the clock, what it posts, and the software timers.
  \<^item> \<open>AtParse\<close> (\<^verbatim>\<open>atparse.c\<close>): the parser's state machine against a grammar, and its parameters.
  \<^item> \<open>Base64\<close> (\<^verbatim>\<open>BASE64/cbase64.c\<close>), \<open>ConvHex\<close> (\<^verbatim>\<open>conv_hex_str.c\<close>), with the contract \<open>Codec\<close>; \<open>CLib\<close>:
    round trips, and for the hexadecimal form the bytes written outside the buffers.
  \<^item> \<open>Sha1\<close> (\<^verbatim>\<open>SHA1/sha1.c\<close>), \<open>Md5\<close> (\<^verbatim>\<open>MD5/md5sum.c\<close>): against the standards' definition on whole
    messages; \<open>BlockHash\<close> holds the contract of a hash fed in parts, interpreted on both.
  \<^item> \<open>Unsigned64\<close> (\<^verbatim>\<open>unsigned64.h\<close>): arithmetic on pairs of words against 64-bit words.
  \<^item> \<open>RingBuffer\<close> (\<^verbatim>\<open>components/drivers/src/ringbuffer.c\<close>): the mirrored ring against a list.

  \<^bold>\<open>The theories of the driver framework\<close> (\<^verbatim>\<open>components/drivers/src/\<close>). Their state is a record around the
  kernel's, and they wait and wake with the functions of \<open>RtIpc\<close>.
  \<^item> \<open>RtCompletion\<close> (\<^verbatim>\<open>completion.c\<close>): wait and completion in either order.
  \<^item> \<open>RtDataQueue\<close> (\<^verbatim>\<open>dataqueue.c\<close>): against a bounded list while the 16-bit counters do not wrap, what
    happens when they do, and which of the waiting threads are woken.
  \<^item> \<open>RtPipe\<close> (\<^verbatim>\<open>pipe.c\<close>, \<^verbatim>\<open>portal.c\<close>): drivers for \<open>RtDevice\<close> on the ring of \<open>RingBuffer\<close>; a stream of bytes
    through the device interface, and the meeting of a reader and a writer.

  \<^bold>\<open>Bounds.\<close> No fuel is used. Loops over a list or an index are structural or have a measure; the few
  that follow pointers are partial functions with a proof that they end. Sizes of heap requests are
  bounded by \<open>2 ^ 32 - 4\<close>, above which the code's own rounding wraps; times to wait differ from
  \<open>0x7fffffff\<close>, which the code's own assertion refuses.

  \<^bold>\<open>Not modelled.\<close> The context switch and the ports (assembly), drivers and vendor libraries
  (register access), the allocators not
  configured (memheap, slab, modules), the shell, the file systems, the network stacks, and the vendored
  libraries (SQLite, Lua, the C library). Two threads never run at once on this processor; an
  interrupt between two critical sections of one call is modelled only where the theories say so.
\<close>

end
